(* ===== verification/Prelude.thy ===== *)
theory Prelude
  imports Main "HOL-Library.Word"
begin

text \<open>
  Shared vocabulary of the development: names for the Go integer types, results with an
  error branch, byte streams, and the byte-order conversions of Go's
  \<^verbatim>\<open>encoding/binary\<close>.  The component theories import this one and nothing is proved here
  about a particular component.
\<close>

section \<open>Names for the source's types\<close>

type_synonym byte = "8 word"
type_synonym uint16 = "16 word"
type_synonym uint32 = "32 word"
type_synonym uint64 = "64 word"

text \<open>
  A \<^verbatim>\<open>chainhash.Hash\<close> is an array of 32 bytes.  The model keeps it as a list of bytes; where
  the length matters the statements ask for \<open>is_hash\<close>.
\<close>

type_synonym hash = "byte list"

definition HashSize :: nat where
  "HashSize = 32"

definition is_hash :: "hash \<Rightarrow> bool" where
  "is_hash h \<longleftrightarrow> length h = HashSize"

definition zeroHash :: hash where
  "zeroHash = replicate HashSize 0"

lemma is_hash_zeroHash [simp]: "is_hash zeroHash"
  by (simp add: is_hash_def zeroHash_def)

section \<open>Results\<close>

text \<open>
  A Go function that returns \<^verbatim>\<open>(T, error)\<close> is a function into \<open>'e + 'a\<close>, the error on the
  left.  \<open>rbind\<close> is the \<^verbatim>\<open>if err != nil { return err }\<close> that follows a call.
\<close>

named_theorems res_simps \<open>unfolding of result sequencing\<close>

definition rbind :: "'e + 'a \<Rightarrow> ('a \<Rightarrow> 'e + 'b) \<Rightarrow> 'e + 'b" where
  "rbind r f = (case r of Inl e \<Rightarrow> Inl e | Inr x \<Rightarrow> f x)"

lemma rbind_Inl [simp, res_simps]: "rbind (Inl e) f = Inl e"
  by (simp add: rbind_def)

lemma rbind_Inr [simp, res_simps]: "rbind (Inr x) f = f x"
  by (simp add: rbind_def)

lemma rbind_eq_Inr: "rbind r f = Inr y \<longleftrightarrow> (\<exists>x. r = Inr x \<and> f x = Inr y)"
  by (cases r) simp_all

lemma rbind_eq_Inl: "rbind r f = Inl e \<longleftrightarrow> r = Inl e \<or> (\<exists>x. r = Inr x \<and> f x = Inl e)"
  by (cases r) auto

lemma rbind_InrE:
  assumes "rbind r f = Inr y"
  obtains x where "r = Inr x" "f x = Inr y"
  using assms by (auto simp: rbind_eq_Inr)

lemma rbind_cong [fundef_cong]:
  assumes "r = r'" and "\<And>x. r' = Inr x \<Longrightarrow> f x = f' x"
  shows "rbind r f = rbind r' f'"
  using assms by (cases r') simp_all

section \<open>Byte order\<close>

text \<open>
  \<open>le_bytes n x\<close> is the little-endian encoding of \<open>x\<close> in \<open>n\<close> bytes
  (\<^verbatim>\<open>binary.LittleEndian.PutUint*\<close>), \<open>le_nat\<close> its inverse (\<^verbatim>\<open>binary.LittleEndian.Uint*\<close>).
\<close>

primrec le_bytes :: "nat \<Rightarrow> nat \<Rightarrow> byte list" where
  "le_bytes 0 x = []"
| "le_bytes (Suc n) x = of_nat (x mod 256) # le_bytes n (x div 256)"

primrec le_nat :: "byte list \<Rightarrow> nat" where
  "le_nat [] = 0"
| "le_nat (b # bs) = unat b + 256 * le_nat bs"

lemma length_le_bytes [simp]: "length (le_bytes n x) = n"
  by (induction n arbitrary: x) simp_all

lemma unat_byte_lt: "unat (b :: byte) < 256"
  using unsigned_less [of b] by simp

lemma unat_of_nat_byte [simp]: "unat (of_nat x :: byte) = x mod 256"
  by (simp add: unat_of_nat)

lemma le_nat_le_bytes: "le_nat (le_bytes n x) = x mod 256 ^ n"
proof (induction n arbitrary: x)
  case 0
  then show ?case by simp
next
  case (Suc n)
  then show ?case by (simp add: mod_mult2_eq)
qed

lemma le_nat_less: "le_nat bs < 256 ^ length bs"
proof (induction bs)
  case Nil
  then show ?case by simp
next
  case (Cons b bs)
  have b: "unat b < 256" by (rule unat_byte_lt)
  have "Suc (le_nat bs) \<le> 256 ^ length bs" using Cons by simp
  then have "256 * Suc (le_nat bs) \<le> 256 * 256 ^ length bs" by (rule mult_le_mono2)
  with b show ?case by simp
qed

lemma le_bytes_le_nat: "le_bytes (length bs) (le_nat bs) = bs"
proof (induction bs)
  case Nil
  then show ?case by simp
next
  case (Cons b bs)
  have b: "unat b < 256" by (rule unat_byte_lt)
  then have "(unat b + 256 * le_nat bs) mod 256 = unat b"
    and "(unat b + 256 * le_nat bs) div 256 = le_nat bs"
    by (simp_all add: div_add1_eq)
  with Cons show ?case by simp
qed

lemma le_nat_append: "le_nat (xs @ ys) = le_nat xs + 256 ^ length xs * le_nat ys"
  by (induction xs) (simp_all add: algebra_simps)

section \<open>Accumulating loops\<close>

lemma foldl_add: "foldl (\<lambda>n x. n + f x) (n :: nat) xs = n + (\<Sum>x\<leftarrow>xs. f x)"
  by (induction xs arbitrary: n) simp_all

lemma take_drop_append:
  "length xs = n \<Longrightarrow> take (length ys) (drop n (xs @ ys @ zs)) = ys"
  by simp

section \<open>Slices\<close>

text \<open>\<open>slice i j xs\<close> is \<^verbatim>\<open>xs[i:j]\<close> within bounds.\<close>

definition slice :: "nat \<Rightarrow> nat \<Rightarrow> 'a list \<Rightarrow> 'a list" where
  "slice i j xs = take (j - i) (drop i xs)"

lemma length_slice: "i \<le> j \<Longrightarrow> j \<le> length xs \<Longrightarrow> length (slice i j xs) = j - i"
  by (simp add: slice_def)

lemma nth_slice: "i + k < j \<Longrightarrow> j \<le> length xs \<Longrightarrow> slice i j xs ! k = xs ! (i + k)"
  by (simp add: slice_def)

lemma slice_append: "length xs = i \<Longrightarrow> length ys = j - i \<Longrightarrow> slice i j (xs @ ys @ zs) = ys"
  by (simp add: slice_def)

lemma slice_split: "i \<le> j \<Longrightarrow> s = take i s @ slice i j s @ drop j s"
  by (simp add: slice_def) (metis append_take_drop_id drop_drop le_add_diff_inverse2)

lemma take_nth:
  "1 \<le> length s \<Longrightarrow> take 1 s = [s ! 0]"
  "2 \<le> length s \<Longrightarrow> take 2 s = [s ! 0, s ! 1]"
  "3 \<le> length s \<Longrightarrow> take 3 s = [s ! 0, s ! 1, s ! 2]"
  by (auto simp: numeral_2_eq_2 numeral_3_eq_3 Suc_le_length_iff)

lemma drop_nth:
  "length s = n + 1 \<Longrightarrow> drop n s = [s ! n]"
  "length s = n + 2 \<Longrightarrow> drop n s = [s ! n, s ! (n + 1)]"
  by (simp_all add: Cons_nth_drop_Suc [symmetric])

section \<open>Streams\<close>

text \<open>
  An \<^verbatim>\<open>io.Reader\<close> over a finite buffer is the list of bytes left to read.
  \<^verbatim>\<open>io.ReadFull\<close> returns \<^verbatim>\<open>io.EOF\<close> when no byte could be read and
  \<^verbatim>\<open>io.ErrUnexpectedEOF\<close> when some but not all could.
\<close>

datatype read_error =
    EOF
  | UnexpectedEOF
  | MessageError string  \<comment> \<open>\<^verbatim>\<open>wire.messageError\<close>, named by the function that reports it\<close>
  | PlainError string    \<comment> \<open>\<^verbatim>\<open>fmt.Errorf\<close>, named by the function that reports it\<close>
  | RuntimePanic string  \<comment> \<open>a run-time panic: nothing recovers, so it stops every caller as an error does\<close>

type_synonym 'a read_result = "read_error + 'a \<times> byte list"

definition ReadFull :: "nat \<Rightarrow> byte list \<Rightarrow> byte list read_result" where
  "ReadFull n bs =
     (if n \<le> length bs then Inr (take n bs, drop n bs)
      else if bs = [] then Inl EOF else Inl UnexpectedEOF)"

lemma ReadFull_append [simp]: "length xs = n \<Longrightarrow> ReadFull n (xs @ rest) = Inr (xs, rest)"
  by (simp add: ReadFull_def)

lemma ReadFull_eq_Inr:
  "ReadFull n bs = Inr (xs, rest) \<longleftrightarrow> bs = xs @ rest \<and> length xs = n"
  by (auto simp: ReadFull_def)

section \<open>Words\<close>

lemma unat_ucast_mod: "unat (ucast (w :: 'a :: len word) :: 'b :: len word) = unat w mod 2 ^ LENGTH('b)"
  by (simp add: unsigned_ucast_eq take_bit_eq_mod)

lemma unat_bound: "unat (w :: 'a :: len word) < 2 ^ LENGTH('a)"
  by (rule unsigned_less)

lemma unat_word_of_nat_small: "n < 2 ^ 64 \<Longrightarrow> unat (word_of_nat n :: uint64) = n"
  by (simp add: unat_of_nat)

lemma sint_small:
  assumes "unat (w :: uint64) < 2 ^ 63"
  shows "sint w = int (unat w)"
proof -
  have "int (unat w) < int (2 ^ 63)" using assms by (simp only: of_nat_less_iff)
  then have "signed_take_bit 63 (uint w) = uint w"
    by (intro signed_take_bit_int_eq_self) (simp_all add: order_trans [of _ 0])
  then show ?thesis by (simp add: sint_uint)
qed

text \<open>Two's complement wrap-around of \<^verbatim>\<open>int32\<close> arithmetic on integers.\<close>

definition int32 :: "int \<Rightarrow> int" where
  "int32 k = signed_take_bit 31 k"

lemma int32_id: "- (2 ^ 31) \<le> k \<Longrightarrow> k < 2 ^ 31 \<Longrightarrow> int32 k = k"
  by (simp add: int32_def signed_take_bit_int_eq_self)

lemma ucast_ucast_small:
  fixes val :: "'a :: len word"
  assumes "unat val < 2 ^ LENGTH('b :: len)"
  shows "ucast (ucast val :: 'b word) = val"
  using assms unat_bound [of val] by (simp add: word_unat_eq_iff unat_ucast_mod)

lemma unat_ucast_up:
  fixes b :: "'b :: len word"
  assumes "LENGTH('b) \<le> LENGTH('a :: len)"
  shows "unat (ucast b :: 'a word) = unat b"
proof -
  have "unat b < 2 ^ LENGTH('a)"
    using unat_bound [of b] power_increasing [OF assms, of "2::nat"] by linarith
  then show ?thesis by (simp add: unat_ucast_mod)
qed

lemma ucast_ucast_up:
  fixes b :: "'b :: len word"
  assumes "LENGTH('b) \<le> LENGTH('a :: len)"
  shows "ucast (ucast b :: 'a word) = b"
  using unat_bound [of b] by (simp add: word_unat_eq_iff unat_ucast_up [OF assms] unat_ucast_mod)

lemma unat_drop_bit: "unat (drop_bit k w) = unat w div 2 ^ k"
  by (subst unsigned_drop_bit_eq) (simp add: drop_bit_eq_div take_bit_nat_eq_self)

end
