(* ===== verification/Compress.thy ===== *)
theory Compress
  imports Opcode
begin

unbundle bit_operations_syntax

text \<open>
  The on-disk compression of \<^verbatim>\<open>blockchain/compress.go\<close>: variable-length quantities, amounts,
  public key scripts and transaction outputs.  A function that fills a target slice the
  caller has sized is modelled by the bytes it writes, whose number is what the source
  returns.  Slicing past the end of a slice is a panic, the value \<open>None\<close>; the spare capacity a
  Go slice may have behind its length is not modelled.
\<close>

section \<open>Variable-length quantities\<close>

function serializeSizeVLQ_loop :: "nat \<Rightarrow> uint64 \<Rightarrow> nat" where
  "serializeSizeVLQ_loop sz n =
     (if n > 0x7f then serializeSizeVLQ_loop (sz + 1) (drop_bit 7 n - 1) else sz)"
  by pat_completeness auto

text \<open>The loop variable decreases although the subtraction is modular: \<open>n >> 7\<close> is positive.\<close>

lemma unat_shift7: "unat (drop_bit 7 n :: uint64) = unat n div 128"
  by (simp add: drop_bit_eq_div unat_div_distrib)

lemma unat_shift7_pred:
  assumes "(n :: uint64) > 0x7f"
  shows "unat (drop_bit 7 n - 1) = unat n div 128 - 1"
proof -
  have "unat n div 128 \<ge> 1" using assms by (simp add: word_less_nat_alt)
  then have "drop_bit 7 n \<noteq> 0"
    using unat_shift7 [of n] by (metis not_one_le_zero unsigned_0)
  then show ?thesis by (simp add: unat_minus_one unat_shift7)
qed

lemma unat_shift7_less:
  assumes "(n :: uint64) > 0x7f"
  shows "unat (drop_bit 7 n - 1) < unat n"
  using assms unat_shift7_pred [OF assms] by (simp add: word_less_nat_alt)

termination serializeSizeVLQ_loop
  by (relation "measure (\<lambda>(_, n). unat n)") (simp_all add: unat_shift7_less)

declare serializeSizeVLQ_loop.simps [simp del]

definition serializeSizeVLQ :: "uint64 \<Rightarrow> nat" where
  "serializeSizeVLQ n = serializeSizeVLQ_loop 1 n"

text \<open>The filling loop writes the groups of seven bits from the lowest up.\<close>

function putVLQ_loop :: "nat \<Rightarrow> uint64 \<Rightarrow> byte list" where
  "putVLQ_loop offset n =
     (let highBitMask = (if offset = 0 then 0x00 else 0x80);
          b = ucast (n AND 0x7f) OR highBitMask
      in if n \<le> 0x7f then [b] else b # putVLQ_loop (offset + 1) (drop_bit 7 n - 1))"
  by pat_completeness auto

termination putVLQ_loop
  by (relation "measure (\<lambda>(_, n). unat n)") (simp_all add: unat_shift7_less not_le)

declare putVLQ_loop.simps [simp del]

definition putVLQ :: "uint64 \<Rightarrow> byte list" where
  "putVLQ n = rev (putVLQ_loop 0 n)"

fun deserializeVLQ_loop :: "uint64 \<Rightarrow> nat \<Rightarrow> byte list \<Rightarrow> uint64 \<times> nat" where
  "deserializeVLQ_loop n sz [] = (n, sz)"
| "deserializeVLQ_loop n sz (val # serialized) =
     (let n = push_bit 7 n OR ucast (val AND 0x7f)
      in if val AND 0x80 \<noteq> 0x80 then (n, sz + 1)
         else deserializeVLQ_loop (n + 1) (sz + 1) serialized)"

definition deserializeVLQ :: "byte list \<Rightarrow> uint64 \<times> nat" where
  "deserializeVLQ serialized = deserializeVLQ_loop 0 0 serialized"

subsection \<open>The bits of one group\<close>

lemma mask7: "(0x7f :: 'a :: len word) = mask 7"
  by (simp add: mask_eq_exp_minus_1)

lemma bit7: "(0x80 :: byte) = push_bit 7 1"
  by simp

lemma group_bits:
  fixes n :: uint64
  shows "(ucast (n AND 0x7f) OR 0x80 :: byte) AND 0x7f = ucast (n AND 0x7f)"
    and "(ucast (n AND 0x7f) OR 0x80 :: byte) AND 0x80 = 0x80"
    and "(ucast (n AND 0x7f) :: byte) AND 0x7f = ucast (n AND 0x7f)"
    and "(ucast (n AND 0x7f) :: byte) AND 0x80 = 0"
    and "ucast (ucast (n AND 0x7f) :: byte) = n AND 0x7f"
  by (rule bit_word_eqI; auto simp: mask7 bit7 bit_simps simp del: push_bit_of_1)+

lemma shift_join: "push_bit 7 (drop_bit 7 n) OR (n AND 0x7f) = (n :: uint64)"
  by (rule bit_word_eqI) (auto simp: mask7 bit_simps)

lemma low_id: "(n :: uint64) \<le> 0x7f \<Longrightarrow> n AND 0x7f = n"
proof -
  assume "n \<le> 0x7f"
  then have "unat n < 2 ^ 7" by (simp add: word_le_nat_alt)
  then show ?thesis
    by (simp add: mask7 take_bit_eq_mask [symmetric] word_unat_eq_iff unsigned_take_bit_eq
        take_bit_nat_eq_self)
qed

subsection \<open>Round trip\<close>

lemma deserializeVLQ_loop_cont:
  "deserializeVLQ_loop 0 k (rev (putVLQ_loop (Suc offset) n) @ rest) =
     deserializeVLQ_loop (n + 1) (k + length (putVLQ_loop (Suc offset) n)) rest"
proof (induction "Suc offset" n arbitrary: offset rest rule: putVLQ_loop.induct)
  case (1 n)
  show ?case
  proof (cases "n \<le> 0x7f")
    case True
    then show ?thesis
      by (simp add: putVLQ_loop.simps [of "Suc offset"] low_id
          group_bits [of n, unfolded low_id [OF True]] Let_def)
  next
    case False
    let ?tail = "putVLQ_loop (Suc (Suc offset)) (drop_bit 7 n - 1)"
    have "putVLQ_loop (Suc offset) n = (ucast (n AND 0x7f) OR 0x80) # ?tail"
      using False by (simp add: putVLQ_loop.simps [of "Suc offset"] Let_def)
    with "1.hyps" [OF refl refl False, of "Suc offset"] False show ?thesis
      by (simp add: group_bits shift_join Let_def)
  qed
qed

lemma deserializeVLQ_putVLQ: "deserializeVLQ (putVLQ n @ rest) = (n, length (putVLQ n))"
proof (cases "n \<le> 0x7f")
  case True
  then show ?thesis
    by (simp add: deserializeVLQ_def putVLQ_def putVLQ_loop.simps [of 0] low_id
        group_bits [of n, unfolded low_id [OF True]] Let_def)
next
  case False
  then show ?thesis
    using deserializeVLQ_loop_cont [of 0 0 "drop_bit 7 n - 1"]
    by (simp add: deserializeVLQ_def putVLQ_def putVLQ_loop.simps [of 0] group_bits shift_join Let_def)
qed

lemma serializeSizeVLQ_loop_length:
  "serializeSizeVLQ_loop (Suc k) n = k + length (putVLQ_loop offset n)"
proof (induction offset n arbitrary: k rule: putVLQ_loop.induct)
  case (1 offset n)
  have "(n \<le> 0x7f) = (\<not> 0x7f < n)" by auto
  with 1 show ?case
    by (simp add: putVLQ_loop.simps [of offset n] serializeSizeVLQ_loop.simps [of "Suc k" n] Let_def
        del: not_less)
qed

lemma length_putVLQ: "length (putVLQ n) = serializeSizeVLQ n"
  using serializeSizeVLQ_loop_length [of 0 n 0] by (simp add: serializeSizeVLQ_def putVLQ_def)

subsection \<open>Uniqueness\<close>

text \<open>
  The value a byte string stands for, without wrap-around, and the strings that are one
  complete quantity: every byte but the last has the high bit.  Both are read from the last
  byte backwards.
\<close>

fun vlq_rev_value :: "byte list \<Rightarrow> nat" where
  "vlq_rev_value [] = 0"
| "vlq_rev_value [b] = unat (b AND 0x7f)"
| "vlq_rev_value (b # bs) = (vlq_rev_value bs + 1) * 128 + unat (b AND 0x7f)"

definition vlq_value :: "byte list \<Rightarrow> nat" where
  "vlq_value bs = vlq_rev_value (rev bs)"

definition vlq_complete :: "byte list \<Rightarrow> bool" where
  "vlq_complete bs \<longleftrightarrow>
     (case rev bs of [] \<Rightarrow> False
      | b # cs \<Rightarrow> b AND 0x80 \<noteq> 0x80 \<and> list_all (\<lambda>c. c AND 0x80 = 0x80) cs)"

lemma vlq_rev_value_Cons:
  "bs \<noteq> [] \<Longrightarrow> vlq_rev_value (b # bs) = (vlq_rev_value bs + 1) * 128 + unat (b AND 0x7f)"
  by (cases bs) simp_all

lemma unat_and_7f: "unat (b AND 0x7f :: byte) = unat b mod 128"
  by (simp add: mask7 take_bit_eq_mask [symmetric] take_bit_eq_mod unat_mod_distrib)

lemma unat_and_7f_64: "unat (n AND 0x7f :: uint64) = unat n mod 128"
  by (simp add: mask7 take_bit_eq_mask [symmetric] take_bit_eq_mod unat_mod_distrib)

text \<open>A byte is its low seven bits and its high bit.\<close>

lemma byte_eqI:
  assumes "unat (b AND 0x7f) = unat (c AND 0x7f)" "(b AND 0x80 = 0x80) = (c AND 0x80 = (0x80 :: byte))"
  shows "b = c"
proof -
  have low: "b AND 0x7f = c AND 0x7f" using assms(1) by (simp add: word_unat_eq_iff)
  have n7: "n = 7" if "n < 8" "7 \<le> n" for n :: nat using that by simp
  have "a AND 0x80 = (if bit a 7 then 0x80 else 0)" for a :: byte
    by (rule bit_word_eqI) (auto simp: bit7 bit_simps dest: n7 simp del: push_bit_of_1)
  with assms(2) have high: "b AND 0x80 = c AND 0x80" by (auto split: if_splits)
  have "a = (a AND 0x7f) OR (a AND 0x80)" for a :: byte
    by (rule bit_word_eqI) (auto simp: mask7 bit7 bit_simps simp del: push_bit_of_1)
  with low high show ?thesis by metis
qed

lemma vlq_rev_value_inj:
  assumes "vlq_rev_value bs = vlq_rev_value cs" "bs \<noteq> []" "cs \<noteq> []"
    "list_all (\<lambda>b. b AND 0x80 = 0x80) bs" "list_all (\<lambda>b. b AND 0x80 = 0x80) cs"
  shows "bs = cs"
  using assms
proof (induction bs arbitrary: cs)
  case Nil
  then show ?case by simp
next
  case (Cons b bs)
  then obtain c ds where cs: "cs = c # ds" by (cases cs) auto
  have lt: "unat (x AND 0x7f) < 128" for x :: byte by (simp add: unat_and_7f)
  show ?case
  proof (cases "bs = [] \<or> ds = []")
    case True
    with Cons.prems cs lt [of b] lt [of c] have "bs = []" "ds = []"
      by (cases "bs = []"; cases "ds = []"; simp add: vlq_rev_value_Cons)+
    with Cons.prems cs show ?thesis by (auto intro: byte_eqI)
  next
    case False
    with Cons.prems cs have eq: "(vlq_rev_value bs + 1) * 128 + unat (b AND 0x7f) =
        (vlq_rev_value ds + 1) * 128 + unat (c AND 0x7f)"
      by (simp add: vlq_rev_value_Cons)
    with lt [of b] lt [of c] have "vlq_rev_value bs = vlq_rev_value ds" by auto
    moreover from this eq have "unat (b AND 0x7f) = unat (c AND 0x7f)" by simp
    ultimately
    show ?thesis using Cons False cs by (auto intro: byte_eqI)
  qed
qed

lemma putVLQ_loop_value:
  "vlq_rev_value (putVLQ_loop (Suc offset) n) = unat n \<and>
   list_all (\<lambda>b. b AND 0x80 = 0x80) (putVLQ_loop (Suc offset) n) \<and> putVLQ_loop (Suc offset) n \<noteq> []"
proof (induction "Suc offset" n arbitrary: offset rule: putVLQ_loop.induct)
  case (1 n)
  have u: "unat (ucast (n AND 0x7f) :: byte) = unat n mod 128"
    by (simp add: unat_ucast_mod unat_and_7f_64)
  show ?case
  proof (cases "n \<le> 0x7f")
    case True
    then have "unat n < 128" by (simp add: word_le_nat_alt)
    with True u show ?thesis
      by (simp add: putVLQ_loop.simps [of "Suc offset"] group_bits Let_def)
  next
    case False
    then have "unat n div 128 \<ge> 1" by (simp add: word_le_nat_alt)
    with False u "1.hyps" [OF refl refl False, of "Suc offset"] show ?thesis
      by (auto simp: putVLQ_loop.simps [of "Suc offset"] group_bits Let_def vlq_rev_value_Cons
          unat_shift7_pred)
  qed
qed

lemma putVLQ_value: "vlq_complete (putVLQ n) \<and> vlq_value (putVLQ n) = unat n"
proof -
  have u: "unat (ucast (n AND 0x7f) :: byte) = unat n mod 128"
    by (simp add: unat_ucast_mod unat_and_7f_64)
  note def = putVLQ_def vlq_complete_def vlq_value_def putVLQ_loop.simps [of 0] group_bits Let_def
  show ?thesis
  proof (cases "n \<le> 0x7f")
    case True
    then have "unat n < 128" by (simp add: word_le_nat_alt)
    with True u show ?thesis by (simp add: def)
  next
    case False
    then have "unat n div 128 \<ge> 1" by (simp add: word_le_nat_alt)
    with False u putVLQ_loop_value [of 0 "drop_bit 7 n - 1"] show ?thesis
      by (auto simp: def vlq_rev_value_Cons unat_shift7_pred)
  qed
qed

lemma vlq_unique:
  assumes "vlq_complete bs" "vlq_complete cs" "vlq_value bs = vlq_value cs"
  shows "bs = cs"
proof -
  from assms(1,2) obtain b us c vs where r: "rev bs = b # us" "rev cs = c # vs"
    and hb: "b AND 0x80 \<noteq> 0x80" "c AND 0x80 \<noteq> 0x80"
    and hs: "list_all (\<lambda>c. c AND 0x80 = 0x80) us" "list_all (\<lambda>c. c AND 0x80 = 0x80) vs"
    by (auto simp: vlq_complete_def split: list.splits)
  have lt: "unat (x AND 0x7f) < 128" for x :: byte by (simp add: unat_and_7f)
  have eq: "vlq_rev_value (b # us) = vlq_rev_value (c # vs)"
    using assms(3) r by (simp add: vlq_value_def)
  have "us = vs \<and> unat (b AND 0x7f) = unat (c AND 0x7f)"
  proof (cases "us = [] \<or> vs = []")
    case True
    with eq lt [of b] lt [of c] show ?thesis
      by (cases "us = []"; cases "vs = []"; simp add: vlq_rev_value_Cons)
  next
    case False
    with eq have "(vlq_rev_value us + 1) * 128 + unat (b AND 0x7f) =
        (vlq_rev_value vs + 1) * 128 + unat (c AND 0x7f)"
      by (simp add: vlq_rev_value_Cons)
    moreover from this lt [of b] lt [of c] have "vlq_rev_value us = vlq_rev_value vs" by auto
    ultimately show ?thesis using vlq_rev_value_inj [of us vs] False hs by simp
  qed
  with hb have "b # us = c # vs" by (auto intro: byte_eqI)
  with r show ?thesis by (metis rev_rev_ident)
qed

lemma putVLQ_unique:
  assumes "vlq_complete bs" "vlq_value bs < 2 ^ 64"
  shows "bs = putVLQ (word_of_nat (vlq_value bs))"
  using assms putVLQ_value by (intro vlq_unique) (simp_all add: unat_of_nat)

section \<open>Amounts\<close>

text \<open>The loop that divides out at most nine factors of ten, and the one that puts them back.\<close>

function amountExponent :: "uint64 \<Rightarrow> uint64 \<Rightarrow> uint64 \<times> uint64" where
  "amountExponent amount exponent =
     (if amount mod 10 = 0 \<and> exponent < 9 then amountExponent (amount div 10) (exponent + 1)
      else (amount, exponent))"
  by pat_completeness auto

termination amountExponent
proof (relation "measure (\<lambda>(_, e). 9 - unat e)")
  fix amount exponent :: uint64
  assume "amount mod 10 = 0 \<and> exponent < 9"
  then have "unat exponent < 9" by (simp add: word_less_nat_alt)
  moreover from this have "unat (exponent + 1) = unat exponent + 1"
    by (simp add: unat_word_ariths)
  ultimately show "((amount div 10, exponent + 1), (amount, exponent)) \<in> measure (\<lambda>(_, e). 9 - unat e)"
    by simp
qed simp

declare amountExponent.simps [simp del]

definition compressTxOutAmount :: "uint64 \<Rightarrow> uint64" where
  "compressTxOutAmount amount =
     (if amount = 0 then 0
      else
        let (amount, exponent) = amountExponent amount 0 in
        if exponent < 9 then
          let lastDigit = amount mod 10; amount = amount div 10
          in 1 + 10 * (9 * amount + lastDigit - 1) + exponent
        else 10 + 10 * (amount - 1))"

function scaleAmount :: "uint64 \<Rightarrow> uint64 \<Rightarrow> uint64" where
  "scaleAmount exponent n = (if exponent > 0 then scaleAmount (exponent - 1) (n * 10) else n)"
  by pat_completeness auto

termination scaleAmount
  by (relation "measure (\<lambda>(e, _). unat e)") (simp_all add: word_gt_0 unat_minus_one unat_gt_0)

declare scaleAmount.simps [simp del]

definition decompressTxOutAmount :: "uint64 \<Rightarrow> uint64" where
  "decompressTxOutAmount amount =
     (if amount = 0 then 0
      else
        let amount = amount - 1;
            exponent = amount mod 10;
            amount = amount div 10;
            n = (if exponent < 9 then
                   let lastDigit = amount mod 9 + 1; amount = amount div 9
                   in amount * 10 + lastDigit
                 else amount + 1)
        in scaleAmount exponent n)"

lemma unat_add_small: "unat a + unat b < 2 ^ 64 \<Longrightarrow> unat (a + b :: uint64) = unat a + unat b"
  by (simp add: unat_word_ariths)

lemma unat_mult_small: "unat a * unat b < 2 ^ 64 \<Longrightarrow> unat (a * b :: uint64) = unat a * unat b"
  by (simp add: unat_word_ariths)

lemma scaleAmount_pow: "scaleAmount e n = n * 10 ^ unat e"
proof (induction e n rule: scaleAmount.induct)
  case (1 e n)
  show ?case
  proof (cases "e > 0")
    case True
    then have "unat e = Suc (unat (e - 1))" by (simp add: word_gt_0 unat_minus_one unat_gt_0)
    with 1 True show ?thesis by (simp add: scaleAmount.simps [of e] mult.assoc)
  next
    case False
    then have "e = 0" by (simp add: word_gt_0)
    then show ?thesis by (simp add: scaleAmount.simps [of 0])
  qed
qed

lemma amountExponent_spec:
  assumes "amountExponent a e = (m, k)" "unat e \<le> 9"
  shows "unat a * 10 ^ unat e = unat m * 10 ^ unat k \<and> unat k \<le> 9 \<and>
    (unat k < 9 \<longrightarrow> unat m mod 10 \<noteq> 0)"
  using assms
proof (induction a e rule: amountExponent.induct)
  case (1 a e)
  have zero: "(a mod 10 = 0) = (unat a mod 10 = 0)"
    by (simp add: word_unat_eq_iff unat_mod_distrib)
  have lt: "(e < 9) = (unat e < 9)" by (simp add: word_less_nat_alt)
  show ?case
  proof (cases "a mod 10 = 0 \<and> e < 9")
    case True
    with lt have suc: "unat (e + 1) = unat e + 1" by (simp add: unat_word_ariths)
    have "unat a = unat (a div 10) * 10"
      using True zero div_mult_mod_eq [of "unat a" 10] by (simp add: unat_div_distrib)
    with 1 True lt suc show ?thesis
      by (simp add: amountExponent.simps [of a e])
  next
    case False
    with "1.prems" zero lt show ?thesis by (auto simp: amountExponent.simps [of a e])
  qed
qed

text \<open>
  Below \<open>2 * 10 ^ 18\<close>, far above the number of satoshi there can be, no intermediate value
  wraps.
\<close>

lemma decompress_small:
  fixes m e :: uint64
  assumes "unat e < 9" "unat m mod 10 \<noteq> 0" "unat m \<le> 2 * 10 ^ 18"
  shows "decompressTxOutAmount (1 + 10 * (9 * (m div 10) + m mod 10 - 1) + e) = m * 10 ^ unat e"
proof -
  let ?M = "unat m"
  define x where "x = 9 * (m div 10) + m mod 10"
  define z where "z = x - 1"
  let ?c = "1 + 10 * z + e"
  have "unat (9 * (m div 10)) = 9 * (?M div 10)"
    using assms(3) by (simp add: unat_mult_small unat_div_distrib)
  then have x: "unat x = 9 * (?M div 10) + ?M mod 10"
    using assms(3) by (simp add: x_def unat_add_small unat_mod_distrib)
  then have "x \<noteq> 0" using assms(2) by (auto simp: word_unat_eq_iff)
  then have z: "unat z = 9 * (?M div 10) + (?M mod 10 - 1)"
    using x assms(2) by (simp add: z_def unat_minus_one)
  then have "unat (10 * z) = 10 * unat z"
    using assms(3) by (simp add: unat_mult_small)
  then have t: "unat (10 * z + e) = 10 * unat z + unat e"
    using assms(1,3) z by (simp add: unat_add_small)
  then have c1: "unat (?c - 1) = 10 * unat z + unat e"
    by (simp add: add.commute)
  have "unat ((10 * z + e) + 1) = unat (10 * z + e) + 1"
    using t z assms(1,3) by (subst unat_add_small) simp_all
  then have "?c \<noteq> 0" by (auto simp: add_ac)
  have e: "unat ((?c - 1) mod 10) = unat e" "unat ((?c - 1) div 10) = unat z"
    using c1 assms(1) by (simp_all add: unat_mod_distrib unat_div_distrib)
  then have e': "(?c - 1) mod 10 = e" by (simp add: word_unat_eq_iff)
  let ?y = "(?c - 1) div 10"
  have "unat (?y mod 9) = ?M mod 10 - 1" "unat (?y div 9) = ?M div 10"
    using e(2) z by (simp_all add: unat_mod_distrib unat_div_distrib)
  moreover have "unat (?y mod 9 + 1) = ?M mod 10"
    using calculation(1) assms(2) by (simp add: unat_add_small)
  moreover have "unat (?y div 9 * 10) = ?M div 10 * 10"
    using calculation(2) assms(3) by (simp add: unat_mult_small)
  ultimately have "unat (?y div 9 * 10 + (?y mod 9 + 1)) = ?M"
    using assms(3) by (simp add: unat_add_small)
  then have "?y div 9 * 10 + (?y mod 9 + 1) = m" by (simp add: word_unat_eq_iff)
  moreover have "e < 9" using assms(1) by (simp add: word_less_nat_alt)
  ultimately show ?thesis
    using \<open>?c \<noteq> 0\<close> e'
    by (simp add: decompressTxOutAmount_def Let_def scaleAmount_pow x_def [symmetric] z_def [symmetric])
qed

lemma decompress_nine:
  fixes m :: uint64
  assumes "unat m \<noteq> 0" "unat m \<le> 10 ^ 18"
  shows "decompressTxOutAmount (10 + 10 * (m - 1)) = m * 10 ^ 9"
proof -
  define z where "z = m - 1"
  have "m \<noteq> 0" using assms(1) by auto
  then have z: "unat z = unat m - 1" by (simp add: z_def unat_minus_one)
  let ?c = "10 + 10 * z"
  have "unat (10 * z) = 10 * unat z" using z assms(2) by (simp add: unat_mult_small)
  then have "unat (9 + 10 * z) = 9 + 10 * unat z" using z assms(2) by (simp add: unat_add_small)
  moreover have "?c - 1 = 9 + 10 * z" by simp
  ultimately have c1: "unat (?c - 1) = 9 + 10 * unat z" by simp
  have "unat ?c = 10 + 10 * unat z"
    using \<open>unat (10 * z) = 10 * unat z\<close> z assms(2) by (simp add: unat_add_small)
  then have "?c \<noteq> 0" by (auto simp: word_unat_eq_iff)
  moreover have e: "(?c - 1) mod 10 = 9" "(?c - 1) div 10 = z"
    using c1 by (simp_all add: word_unat_eq_iff unat_mod_distrib unat_div_distrib)
  ultimately have "decompressTxOutAmount ?c = scaleAmount 9 (z + 1)"
    by (simp add: decompressTxOutAmount_def Let_def)
  then show ?thesis by (simp add: scaleAmount_pow z_def)
qed

lemma decompress_compress:
  assumes "unat amount \<le> 2 * 10 ^ 18"
  shows "decompressTxOutAmount (compressTxOutAmount amount) = amount"
proof (cases "amount = 0")
  case True
  then show ?thesis by (simp add: compressTxOutAmount_def decompressTxOutAmount_def)
next
  case False
  obtain m e where me: "amountExponent amount 0 = (m, e)" by fastforce
  from amountExponent_spec [OF me] have eq: "unat amount = unat m * 10 ^ unat e"
    and e: "unat e \<le> 9" "unat e < 9 \<Longrightarrow> unat m mod 10 \<noteq> 0" by simp_all
  have "unat m \<noteq> 0" using eq False by (auto simp: word_unat_eq_iff)
  have m: "unat m \<le> unat amount" using eq by simp
  have "word_of_nat (unat amount) = (word_of_nat (unat m * 10 ^ unat e) :: uint64)"
    using eq by simp
  then have amt: "m * 10 ^ unat e = amount" by simp
  show ?thesis
  proof (cases "unat e < 9")
    case True
    then have "e < 9" by (simp add: word_less_nat_alt)
    with False me show ?thesis
      using decompress_small [OF True e(2) [OF True]] m assms amt
      by (simp add: compressTxOutAmount_def Let_def)
  next
    case False
    with e have "e = 9" by (simp add: word_unat_eq_iff)
    moreover have "unat m \<le> 10 ^ 18" using eq assms \<open>e = 9\<close> by simp
    ultimately show ?thesis
      using decompress_nine [OF \<open>unat m \<noteq> 0\<close>] me amt \<open>amount \<noteq> 0\<close>
      by (simp add: compressTxOutAmount_def Let_def)
  qed
qed

section \<open>Scripts\<close>

abbreviation cstPayToPubKeyHash :: uint64 where "cstPayToPubKeyHash \<equiv> 0"
abbreviation cstPayToScriptHash :: uint64 where "cstPayToScriptHash \<equiv> 1"
abbreviation cstPayToPubKeyComp2 :: uint64 where "cstPayToPubKeyComp2 \<equiv> 2"
abbreviation cstPayToPubKeyComp3 :: uint64 where "cstPayToPubKeyComp3 \<equiv> 3"
abbreviation cstPayToPubKeyUncomp4 :: uint64 where "cstPayToPubKeyUncomp4 \<equiv> 4"
abbreviation cstPayToPubKeyUncomp5 :: uint64 where "cstPayToPubKeyUncomp5 \<equiv> 5"
abbreviation numSpecialScripts :: nat where "numSpecialScripts \<equiv> 6"

text \<open>The \<^verbatim>\<open>(bool, []byte)\<close> results are options.\<close>

definition isPubKeyHash :: "byte list \<Rightarrow> byte list option" where
  "isPubKeyHash script =
     (if length script = 25 \<and> script ! 0 = OP_DUP \<and> script ! 1 = OP_HASH160 \<and>
         script ! 2 = OP_DATA_20 \<and> script ! 23 = OP_EQUALVERIFY \<and> script ! 24 = OP_CHECKSIG
      then Some (slice 3 23 script) else None)"

definition isScriptHash :: "byte list \<Rightarrow> byte list option" where
  "isScriptHash script =
     (if length script = 23 \<and> script ! 0 = OP_HASH160 \<and> script ! 1 = OP_DATA_20 \<and>
         script ! 22 = OP_EQUAL
      then Some (slice 2 22 script) else None)"

text \<open>
  \<open>ParsePubKey\<close> and \<open>SerializeUncompressed\<close> belong to the \<^verbatim>\<open>btcec\<close> package and are parameters.
\<close>

definition isPubKey :: "(byte list \<Rightarrow> 'k option) \<Rightarrow> byte list \<Rightarrow> byte list option" where
  "isPubKey ParsePubKey script =
     (if length script = 35 \<and> script ! 0 = OP_DATA_33 \<and> script ! 34 = OP_CHECKSIG \<and>
         (script ! 1 = 0x02 \<or> script ! 1 = 0x03) \<and> ParsePubKey (slice 1 34 script) \<noteq> None
      then Some (slice 1 34 script)
      else if length script = 67 \<and> script ! 0 = OP_DATA_65 \<and> script ! 66 = OP_CHECKSIG \<and>
         script ! 1 = 0x04 \<and> ParsePubKey (slice 1 66 script) \<noteq> None
      then Some (slice 1 66 script)
      else None)"

definition compressedScriptSize :: "(byte list \<Rightarrow> 'k option) \<Rightarrow> byte list \<Rightarrow> nat" where
  "compressedScriptSize ParsePubKey pkScript =
     (if isPubKeyHash pkScript \<noteq> None then 21
      else if isScriptHash pkScript \<noteq> None then 21
      else if isPubKey ParsePubKey pkScript \<noteq> None then 33
      else serializeSizeVLQ (word_of_nat (length pkScript + numSpecialScripts)) + length pkScript)"

definition decodeCompressedScriptSize :: "byte list \<Rightarrow> int" where
  "decodeCompressedScriptSize serialized =
     (let (scriptSize, bytesRead) = deserializeVLQ serialized in
      if bytesRead = 0 then 0
      else if scriptSize = cstPayToPubKeyHash then 21
      else if scriptSize = cstPayToScriptHash then 21
      else if scriptSize = cstPayToPubKeyComp2 \<or> scriptSize = cstPayToPubKeyComp3 \<or>
              scriptSize = cstPayToPubKeyUncomp4 \<or> scriptSize = cstPayToPubKeyUncomp5 then 33
      else sint (scriptSize - word_of_nat numSpecialScripts + word_of_nat bytesRead))"

definition putCompressedScript :: "(byte list \<Rightarrow> 'k option) \<Rightarrow> byte list \<Rightarrow> byte list" where
  "putCompressedScript ParsePubKey pkScript =
     (let general = putVLQ (word_of_nat (length pkScript + numSpecialScripts)) @ pkScript in
      case isPubKeyHash pkScript of Some h \<Rightarrow> ucast cstPayToPubKeyHash # h
      | None \<Rightarrow>
      (case isScriptHash pkScript of Some h \<Rightarrow> ucast cstPayToScriptHash # h
      | None \<Rightarrow>
      (case isPubKey ParsePubKey pkScript of
         Some serializedPubKey \<Rightarrow>
           (let pubKeyFormat = serializedPubKey ! 0 in
            if pubKeyFormat = 0x02 \<or> pubKeyFormat = 0x03 then
              pubKeyFormat # slice 1 33 serializedPubKey
            else if pubKeyFormat = 0x04 then
              (pubKeyFormat OR (serializedPubKey ! 64 AND 0x01)) # slice 1 33 serializedPubKey
            else general)
       | None \<Rightarrow> general)))"

definition decompressScript ::
    "(byte list \<Rightarrow> 'k option) \<Rightarrow> ('k \<Rightarrow> byte list) \<Rightarrow> byte list \<Rightarrow> byte list option" where
  "decompressScript ParsePubKey SerializeUncompressed compressedPkScript =
     (if length compressedPkScript = 0 then Some []
      else
        let (encodedScriptSize, bytesRead) = deserializeVLQ compressedPkScript in
        if encodedScriptSize = cstPayToPubKeyHash then
          if length compressedPkScript < bytesRead + 20 then None
          else Some ([OP_DUP, OP_HASH160, OP_DATA_20] @
                 slice bytesRead (bytesRead + 20) compressedPkScript @ [OP_EQUALVERIFY, OP_CHECKSIG])
        else if encodedScriptSize = cstPayToScriptHash then
          if length compressedPkScript < bytesRead + 20 then None
          else Some ([OP_HASH160, OP_DATA_20] @
                 slice bytesRead (bytesRead + 20) compressedPkScript @ [OP_EQUAL])
        else if encodedScriptSize = cstPayToPubKeyComp2 \<or> encodedScriptSize = cstPayToPubKeyComp3 then
          if length compressedPkScript < bytesRead + 32 then None
          else Some ([OP_DATA_33, ucast encodedScriptSize] @
                 slice bytesRead (bytesRead + 32) compressedPkScript @ [OP_CHECKSIG])
        else if encodedScriptSize = cstPayToPubKeyUncomp4 \<or>
                encodedScriptSize = cstPayToPubKeyUncomp5 then
          let copied = take 32 (drop 1 compressedPkScript);
              compressedKey = ucast (encodedScriptSize - 2) # copied @ replicate (32 - length copied) 0
          in case ParsePubKey compressedKey of
               None \<Rightarrow> Some []
             | Some key \<Rightarrow>
                 (let copied = take 66 (SerializeUncompressed key);
                      body = copied @ replicate (66 - length copied) 0
                  in Some (OP_DATA_65 # body[65 := OP_CHECKSIG]))
        else
          let scriptSize = sint (encodedScriptSize - word_of_nat numSpecialScripts) in
          if scriptSize < 0 \<or> length compressedPkScript < bytesRead + nat scriptSize then None
          else Some (slice bytesRead (bytesRead + nat scriptSize) compressedPkScript))"

subsection \<open>The standard forms\<close>

lemma isPubKeyHash_SomeD:
  assumes "isPubKeyHash s = Some h"
  shows "length h = 20 \<and> s = [OP_DUP, OP_HASH160, OP_DATA_20] @ h @ [OP_EQUALVERIFY, OP_CHECKSIG]"
proof -
  from assms have "length s = 25" "h = slice 3 23 s"
    and "s ! 0 = OP_DUP" "s ! 1 = OP_HASH160" "s ! 2 = OP_DATA_20" "s ! 23 = OP_EQUALVERIFY" "s ! 24 = OP_CHECKSIG"
    by (auto simp: isPubKeyHash_def split: if_splits)
  with slice_split [of 3 23 s] take_nth(3) [of s] drop_nth(2) [of s 23] show ?thesis
    by (simp add: length_slice)
qed

lemma isScriptHash_SomeD:
  assumes "isScriptHash s = Some h"
  shows "length h = 20 \<and> s = [OP_HASH160, OP_DATA_20] @ h @ [OP_EQUAL]"
proof -
  from assms have "length s = 23" "h = slice 2 22 s"
    and "s ! 0 = OP_HASH160" "s ! 1 = OP_DATA_20" "s ! 22 = OP_EQUAL"
    by (auto simp: isScriptHash_def split: if_splits)
  with slice_split [of 2 22 s] take_nth(2) [of s] drop_nth(1) [of s 22] show ?thesis
    by (simp add: length_slice)
qed

lemma isPubKey_SomeD:
  assumes "isPubKey ParsePubKey s = Some p"
  shows "ParsePubKey p \<noteq> None \<and>
    (length p = 33 \<and> (p ! 0 = 0x02 \<or> p ! 0 = 0x03) \<and> s = [OP_DATA_33] @ p @ [OP_CHECKSIG] \<or>
     length p = 65 \<and> p ! 0 = 0x04 \<and> s = [OP_DATA_65] @ p @ [OP_CHECKSIG])"
proof -
  consider (comp) "length s = 35" "p = slice 1 34 s" "s ! 0 = OP_DATA_33" "s ! 34 = OP_CHECKSIG"
      "s ! 1 = 0x02 \<or> s ! 1 = 0x03" "ParsePubKey p \<noteq> None"
    | (unc) "length s = 67" "p = slice 1 66 s" "s ! 0 = OP_DATA_65" "s ! 66 = OP_CHECKSIG"
      "s ! 1 = 0x04" "ParsePubKey p \<noteq> None"
    using assms by (auto simp: isPubKey_def split: if_splits)
  then show ?thesis
  proof cases
    case comp
    with slice_split [of 1 34 s] take_nth(1) [of s] drop_nth(1) [of s 34] show ?thesis
      by (simp add: length_slice nth_slice)
  next
    case unc
    with slice_split [of 1 66 s] take_nth(1) [of s] drop_nth(1) [of s 66] show ?thesis
      by (simp add: length_slice nth_slice)
  qed
qed

text \<open>
  What the key compression relies on: the compressed form of a valid uncompressed key, which
  keeps the first coordinate and the parity of the second, parses to a key that serializes
  back to the uncompressed form.
\<close>

definition pubkey_laws :: "(byte list \<Rightarrow> 'k option) \<Rightarrow> ('k \<Rightarrow> byte list) \<Rightarrow> bool" where
  "pubkey_laws ParsePubKey SerializeUncompressed \<longleftrightarrow>
     (\<forall>p. length p = 65 \<and> p ! 0 = 0x04 \<and> ParsePubKey p \<noteq> None \<longrightarrow>
        (\<exists>k. ParsePubKey ((0x02 OR (p ! 64 AND 0x01)) # slice 1 33 p) = Some k \<and>
             SerializeUncompressed k = p))"

subsection \<open>Round trip\<close>

text \<open>The five shapes of a compressed script.\<close>

lemma putCompressedScript_cases:
  fixes ParsePubKey :: "byte list \<Rightarrow> 'k option"
  obtains
    (pkh) h where "length h = 20" "putCompressedScript ParsePubKey s = 0 # h"
      "s = [OP_DUP, OP_HASH160, OP_DATA_20] @ h @ [OP_EQUALVERIFY, OP_CHECKSIG]"
      "compressedScriptSize ParsePubKey s = 21"
  | (sh) h where "length h = 20" "putCompressedScript ParsePubKey s = 1 # h"
      "s = [OP_HASH160, OP_DATA_20] @ h @ [OP_EQUAL]" "compressedScriptSize ParsePubKey s = 21"
  | (comp) f x where "f = 2 \<or> f = 3" "length x = 32" "putCompressedScript ParsePubKey s = f # x"
      "s = [OP_DATA_33, f] @ x @ [OP_CHECKSIG]" "compressedScriptSize ParsePubKey s = 33"
  | (uncomp) p where "length p = 65" "p ! 0 = 4" "ParsePubKey p \<noteq> None"
      "putCompressedScript ParsePubKey s = (4 OR (p ! 64 AND 1)) # slice 1 33 p"
      "s = [OP_DATA_65] @ p @ [OP_CHECKSIG]" "compressedScriptSize ParsePubKey s = 33"
  | (general) "putCompressedScript ParsePubKey s = putVLQ (word_of_nat (length s + 6)) @ s"
      "compressedScriptSize ParsePubKey s =
         serializeSizeVLQ (word_of_nat (length s + 6)) + length s"
proof (cases "isPubKeyHash s")
  case (Some h)
  with isPubKeyHash_SomeD [OF Some] show ?thesis
    by (intro pkh [of h]) (simp_all add: putCompressedScript_def compressedScriptSize_def)
next
  case None
  note n1 = None
  show ?thesis
  proof (cases "isScriptHash s")
    case (Some h)
    with n1 isScriptHash_SomeD [OF Some] show ?thesis
      by (intro sh [of h]) (simp_all add: putCompressedScript_def compressedScriptSize_def)
  next
    case None
    note n2 = None
    show ?thesis
    proof (cases "isPubKey ParsePubKey s")
      case None
      with n1 n2 show ?thesis
        by (intro general) (simp_all add: putCompressedScript_def compressedScriptSize_def)
    next
      case (Some p)
      note shape = isPubKey_SomeD [OF Some]
      show ?thesis
      proof (cases "length p = 33")
        case True
        then have "p = p ! 0 # slice 1 33 p"
          using slice_split [of 1 33 p] take_nth(1) [of p] by simp
        with True shape n1 n2 Some show ?thesis
          by (intro comp [of "p ! 0" "slice 1 33 p"])
            (auto simp: putCompressedScript_def compressedScriptSize_def length_slice Let_def)
      next
        case False
        with shape n1 n2 Some show ?thesis
          by (intro uncomp [of p]) (auto simp: putCompressedScript_def compressedScriptSize_def Let_def)
      qed
    qed
  qed
qed

lemma length_putCompressedScript:
  "length (putCompressedScript P s) = compressedScriptSize P s"
  by (rule putCompressedScript_cases [of P s]) (simp_all add: length_slice length_putVLQ)

lemma deserializeVLQ_small:
  "deserializeVLQ (0 # r) = (0, 1)" "deserializeVLQ (1 # r) = (1, 1)" "deserializeVLQ (2 # r) = (2, 1)"
  "deserializeVLQ (3 # r) = (3, 1)" "deserializeVLQ (4 # r) = (4, 1)" "deserializeVLQ (5 # r) = (5, 1)"
  by (simp_all add: deserializeVLQ_def Let_def)

lemma parity_cases: "(b AND 1 :: byte) = 0 \<or> (b AND 1 :: byte) = 1"
  by (simp add: and_one_eq mod2_eq_if)

text \<open>A quantity for a script length: at least six, and at most ten bytes long.\<close>

lemma serializeSizeVLQ_bound: "serializeSizeVLQ n \<le> unat n + 1"
proof -
  have "serializeSizeVLQ_loop k n \<le> k + unat n" for k
  proof (induction k n rule: serializeSizeVLQ_loop.induct)
    case (1 k n)
    show ?case
    proof (cases "n > 0x7f")
      case True
      with 1 unat_shift7_less [OF True] show ?thesis by (simp add: serializeSizeVLQ_loop.simps [of k n])
    next
      case False
      then show ?thesis by (simp add: serializeSizeVLQ_loop.simps [of k n])
    qed
  qed
  from this [of 1] show ?thesis by (simp add: serializeSizeVLQ_def)
qed

lemma general_size:
  assumes "length s < 2 ^ 60"
  obtains w :: uint64 where "word_of_nat (length s + 6) = w" "unat w = length s + 6"
    "unat (w - 6) = length s" "w \<notin> {0, 1, 2, 3, 4, 5}"
proof -
  obtain w :: uint64 where w: "word_of_nat (length s + 6) = w" by simp
  have u: "unat w = length s + 6"
    using assms by (simp only: w [symmetric]) (rule unat_word_of_nat_small, simp)
  then have "w \<notin> {0, 1, 2, 3, 4, 5}" by auto
  moreover have "unat (w - 6) = length s"
    using u by (subst unat_sub) (simp_all add: word_le_nat_alt)
  ultimately show thesis using that w u by blast
qed

lemma decodeCompressedScriptSize_put:
  assumes "length s < 2 ^ 60"
  shows "decodeCompressedScriptSize (putCompressedScript P s @ rest) =
    int (length (putCompressedScript P s))"
proof (cases rule: putCompressedScript_cases [of P s])
  case (uncomp p)
  then show ?thesis
    using parity_cases [of "p ! 64"]
    by (auto simp: decodeCompressedScriptSize_def deserializeVLQ_small length_slice)
next
  case general
  obtain w :: uint64 where w: "word_of_nat (length s + 6) = w" "unat w = length s + 6"
    "unat (w - 6) = length s" "w \<notin> {0, 1, 2, 3, 4, 5}"
    by (rule general_size [OF assms])
  have n: "serializeSizeVLQ w \<le> length s + 7"
    using serializeSizeVLQ_bound [of w] w by simp
  then have u: "unat (w - 6 + word_of_nat (serializeSizeVLQ w)) = length s + serializeSizeVLQ w"
    using w(3) assms by (subst unat_add_small) (simp_all add: unat_of_nat)
  have "putCompressedScript P s = putVLQ w @ s" using general(1) w(1) by simp
  moreover have "serializeSizeVLQ w \<noteq> 0"
    using putVLQ_value [of w] by (auto simp: length_putVLQ [symmetric] vlq_complete_def)
  ultimately show ?thesis
    using w n u assms
    by (simp add: decodeCompressedScriptSize_def deserializeVLQ_putVLQ length_putVLQ sint_small)
qed (auto simp: decodeCompressedScriptSize_def deserializeVLQ_small)

lemma decompressScript_put:
  assumes len: "length s < 2 ^ 60" and laws: "pubkey_laws P S"
  shows "decompressScript P S (putCompressedScript P s) = Some s"
proof (cases rule: putCompressedScript_cases [of P s])
  case (uncomp p)
  with laws obtain k where k: "P ((2 OR (p ! 64 AND 1)) # slice 1 33 p) = Some k" "S k = p"
    unfolding pubkey_laws_def by (metis (no_types, lifting))
  have l: "length (slice 1 33 p) = 32" using uncomp by (simp add: length_slice)
  have "(p @ [0])[65 := OP_CHECKSIG] = p @ [OP_CHECKSIG]"
    using uncomp(1) by (simp add: list_update_append)
  with uncomp k l show ?thesis
    using parity_cases [of "p ! 64"]
    by (auto simp: decompressScript_def deserializeVLQ_small Let_def)
next
  case general
  obtain w :: uint64 where w: "word_of_nat (length s + 6) = w" "unat w = length s + 6"
    "unat (w - 6) = length s" "w \<notin> {0, 1, 2, 3, 4, 5}"
    by (rule general_size [OF len])
  have put: "putCompressedScript P s = putVLQ w @ s" using general(1) w(1) by simp
  have "sint (w - 6) = int (length s)"
    using w(3) len by (subst sint_small) simp_all
  moreover have "putVLQ w \<noteq> []"
    using putVLQ_value [of w] by (auto simp: vlq_complete_def)
  ultimately show ?thesis
    using w by (simp add: put decompressScript_def deserializeVLQ_putVLQ Let_def slice_def)
qed (auto simp: decompressScript_def deserializeVLQ_small slice_def)

section \<open>Transaction outputs\<close>

datatype deserialize_error =
    ErrDeserialize string  \<comment> \<open>\<^verbatim>\<open>errDeserialize\<close>, named by the function that reports it\<close>
  | SlicePanic

definition compressedTxOutSize :: "(byte list \<Rightarrow> 'k option) \<Rightarrow> uint64 \<Rightarrow> byte list \<Rightarrow> nat" where
  "compressedTxOutSize ParsePubKey amount pkScript =
     serializeSizeVLQ (compressTxOutAmount amount) + compressedScriptSize ParsePubKey pkScript"

definition putCompressedTxOut :: "(byte list \<Rightarrow> 'k option) \<Rightarrow> uint64 \<Rightarrow> byte list \<Rightarrow> byte list" where
  "putCompressedTxOut ParsePubKey amount pkScript =
     putVLQ (compressTxOutAmount amount) @ putCompressedScript ParsePubKey pkScript"

definition decodeCompressedTxOut ::
    "(byte list \<Rightarrow> 'k option) \<Rightarrow> ('k \<Rightarrow> byte list) \<Rightarrow> byte list \<Rightarrow>
     deserialize_error + uint64 \<times> byte list \<times> nat" where
  "decodeCompressedTxOut ParsePubKey SerializeUncompressed serialized =
     (let (compressedAmount, bytesRead) = deserializeVLQ serialized in
      if bytesRead \<ge> length serialized then Inl (ErrDeserialize ''decodeCompressedTxOut'')
      else
        let scriptSize = decodeCompressedScriptSize (drop bytesRead serialized) in
        if int (length (drop bytesRead serialized)) < scriptSize then
          Inl (ErrDeserialize ''decodeCompressedTxOut'')
        else if scriptSize < 0 then Inl SlicePanic
        else
          let amount = decompressTxOutAmount compressedAmount in
          case decompressScript ParsePubKey SerializeUncompressed
                 (slice bytesRead (bytesRead + nat scriptSize) serialized) of
            None \<Rightarrow> Inl SlicePanic
          | Some script \<Rightarrow> Inr (amount, script, bytesRead + nat scriptSize))"

lemma length_putCompressedTxOut:
  "length (putCompressedTxOut P amount s) = compressedTxOutSize P amount s"
  by (simp add: putCompressedTxOut_def compressedTxOutSize_def length_putVLQ length_putCompressedScript)

lemma compressedScriptSize_pos: "compressedScriptSize P s > 0"
proof -
  have "serializeSizeVLQ n \<noteq> 0" for n
    using putVLQ_value [of n] by (auto simp: length_putVLQ [symmetric] vlq_complete_def)
  then show ?thesis by (simp add: compressedScriptSize_def)
qed

lemma decodeCompressedTxOut_put:
  assumes "unat amount \<le> 2 * 10 ^ 18" "length s < 2 ^ 60" "pubkey_laws P S"
  shows "decodeCompressedTxOut P S (putCompressedTxOut P amount s @ rest) =
    Inr (amount, s, length (putCompressedTxOut P amount s))"
proof -
  have "length (putCompressedScript P s) > 0"
    by (simp add: length_putCompressedScript compressedScriptSize_pos)
  then show ?thesis
    by (simp add: decodeCompressedTxOut_def putCompressedTxOut_def deserializeVLQ_putVLQ Let_def
        decodeCompressedScriptSize_put [OF assms(2)] decompressScript_put [OF assms(2,3)]
        decompress_compress [OF assms(1)] slice_append)
qed

section \<open>Properties\<close>

text \<open>
  C29: variable-length quantities are a bijection.  Reading what was written returns the
  number and the count of bytes, which is the computed size; and a complete quantity whose
  value fits into 64 bits is what is written for that value, so no number has a second
  encoding.
\<close>

theorem vlq_bijection:
  "deserializeVLQ (putVLQ n @ rest) = (n, serializeSizeVLQ n) \<and>
   length (putVLQ n) = serializeSizeVLQ n \<and>
   (vlq_complete bs \<and> vlq_value bs < 2 ^ 64 \<longrightarrow>
      deserializeVLQ (bs @ rest) = (word_of_nat (vlq_value bs), length bs) \<and>
      bs = putVLQ (word_of_nat (vlq_value bs)))"
  using putVLQ_unique [of bs] by (metis deserializeVLQ_putVLQ length_putVLQ)

theorem vlq_bijection_witness:
  "deserializeVLQ (putVLQ 16512 @ [0x55]) = (16512, 3) \<and>
   vlq_complete [0x80, 0x80, 0x00] \<and> [0x80, 0x80, 0x00] = putVLQ 16512"
proof -
  have "serializeSizeVLQ 16512 = 3"
    by (simp add: serializeSizeVLQ_def serializeSizeVLQ_loop.simps)
  moreover have "vlq_complete [0x80, 0x80, 0x00]" "vlq_value [0x80, 0x80, 0x00] = 16512"
    by (simp_all add: vlq_complete_def vlq_value_def)
  ultimately show ?thesis
    using vlq_bijection [of 16512 "[0x55]" "[0x80, 0x80, 0x00]"] by simp
qed

text \<open>
  C26: amounts survive compression.  Every amount up to twenty billion coins, and so every
  amount the money supply allows, is what decompressing its compression returns; none of the
  64-bit operations on the way wraps.
\<close>

theorem amount_roundtrip:
  assumes "unat amount \<le> 2 * 10 ^ 18"
  shows "decompressTxOutAmount (compressTxOutAmount amount) = amount"
  by (rule decompress_compress [OF assms])

theorem amount_roundtrip_witness:
  "decompressTxOutAmount (compressTxOutAmount 12345678) = 12345678"
  by (rule amount_roundtrip) simp

text \<open>
  C27: transaction outputs survive compression.  Decoding a compressed output, possibly
  followed by other data, returns the amount, the script and the number of bytes used, which
  is the computed size, for every one of the script forms.  The public key functions are
  only assumed to recover a valid uncompressed key from its compressed form.
\<close>

theorem txout_compress_roundtrip:
  assumes "unat amount \<le> 2 * 10 ^ 18" and "length pkScript < 2 ^ 60"
    and "pubkey_laws ParsePubKey SerializeUncompressed"
  shows "decodeCompressedTxOut ParsePubKey SerializeUncompressed
      (putCompressedTxOut ParsePubKey amount pkScript @ rest) =
    Inr (amount, pkScript, compressedTxOutSize ParsePubKey amount pkScript)"
  using decodeCompressedTxOut_put [OF assms] by (simp add: length_putCompressedTxOut)

text \<open>A key parser that knows one key, in both forms.\<close>

definition sample_key :: "byte list" where
  "sample_key = 0x04 # replicate 32 0x11 @ replicate 32 0x22"

definition sample_parse :: "byte list \<Rightarrow> unit option" where
  "sample_parse p = (if p = sample_key \<or> p = 0x02 # replicate 32 0x11 then Some () else None)"

lemma length_sample_key: "length sample_key = 65"
  by (simp add: sample_key_def)

lemma sample_laws: "pubkey_laws sample_parse (\<lambda>_. sample_key)"
proof -
  have "sample_key ! 64 = 0x22" "slice 1 33 sample_key = replicate 32 0x11"
    by (simp_all add: sample_key_def slice_def nth_Cons nth_append)
  then show ?thesis by (auto simp: pubkey_laws_def sample_parse_def)
qed

theorem txout_compress_roundtrip_witness:
  "decodeCompressedTxOut sample_parse (\<lambda>_. sample_key)
     (putCompressedTxOut sample_parse 5000000000 ([OP_DATA_65] @ sample_key @ [OP_CHECKSIG]) @ [1, 2]) =
   Inr (5000000000, [OP_DATA_65] @ sample_key @ [OP_CHECKSIG],
        compressedTxOutSize sample_parse 5000000000 ([OP_DATA_65] @ sample_key @ [OP_CHECKSIG]))"
  by (rule txout_compress_roundtrip) (simp_all add: sample_laws length_sample_key)

end
