(* ===== verification/Codec.thy ===== *)
theory Codec
  imports Prelude
begin

text \<open>
  The contract shared by every serializer of the program: a writer \<open>put\<close>, a reader \<open>get\<close>
  that returns the value and the bytes it did not consume, and the values the pair is used
  on.  What a client of a serializer relies on (unique readability, loops that write and read
  a counted sequence, sizes) is proved once in the locales and reused by interpretation on
  the model's own functions.
\<close>

section \<open>Counted sequences\<close>

text \<open>
  The loops \<^verbatim>\<open>for i := 0; i < count; i++ { err = readX(r, ...) ... }\<close> and
  \<^verbatim>\<open>for _, x := range xs { err = writeX(w, x) ... }\<close>, which occur in every message.
\<close>

fun read_n :: "(byte list \<Rightarrow> 'e + 'a \<times> byte list) \<Rightarrow> nat \<Rightarrow> byte list \<Rightarrow> 'e + 'a list \<times> byte list" where
  "read_n get 0 bs = Inr ([], bs)"
| "read_n get (Suc n) bs =
     rbind (get bs) (\<lambda>(x, bs).
     rbind (read_n get n bs) (\<lambda>(xs, bs). Inr (x # xs, bs)))"

definition write_all :: "('a \<Rightarrow> byte list) \<Rightarrow> 'a list \<Rightarrow> byte list" where
  "write_all put xs = concat (map put xs)"

lemma write_all_simps [simp]:
  "write_all put [] = []"
  "write_all put (x # xs) = put x @ write_all put xs"
  by (simp_all add: write_all_def)

lemma length_write_all: "length (write_all put xs) = (\<Sum>x\<leftarrow>xs. length (put x))"
  by (induction xs) simp_all

lemma read_n_length: "read_n get n bs = Inr (xs, rest) \<Longrightarrow> length xs = n"
  by (induction get n bs arbitrary: xs rest rule: read_n.induct) (auto simp: rbind_eq_Inr)

section \<open>Round trips\<close>

locale codec =
  fixes put :: "'a \<Rightarrow> byte list"
    and get :: "byte list \<Rightarrow> 'e + 'a \<times> byte list"
    and valid :: "'a \<Rightarrow> bool"
  assumes get_put: "valid x \<Longrightarrow> get (put x @ rest) = Inr (x, rest)"
begin

lemma get_put_Nil: "valid x \<Longrightarrow> get (put x) = Inr (x, [])"
  using get_put [of x "[]"] by simp

text \<open>Unique readability: no encoding is a proper prefix of another.\<close>

lemma put_prefix_free:
  assumes "valid x" "valid y" "put x @ r = put y @ s"
  shows "x = y \<and> r = s"
proof -
  have "Inr (x, r) = get (put y @ s)"
    using get_put [OF assms(1), of r] assms(3) by simp
  also have "\<dots> = Inr (y, s)" by (rule get_put [OF assms(2)])
  finally show ?thesis by simp
qed

lemma put_inj: "valid x \<Longrightarrow> valid y \<Longrightarrow> put x = put y \<Longrightarrow> x = y"
  using put_prefix_free [of x y "[]" "[]"] by simp

lemma read_n_write_all:
  "list_all valid xs \<Longrightarrow> read_n get (length xs) (write_all put xs @ rest) = Inr (xs, rest)"
  by (induction xs) (simp_all add: get_put)

end

section \<open>Canonical encodings\<close>

text \<open>
  A reader is canonical when it accepts nothing but what the writer produces: then a byte
  string has at most one reading and re-encoding what was read reproduces the bytes.
\<close>

locale canonical_codec = codec +
  assumes get_canonical: "get bs = Inr (x, rest) \<Longrightarrow> valid x \<and> bs = put x @ rest"
begin

lemma get_iff: "get bs = Inr (x, rest) \<longleftrightarrow> valid x \<and> bs = put x @ rest"
  using get_put get_canonical by auto

lemma read_n_canonical:
  "read_n get n bs = Inr (xs, rest) \<Longrightarrow>
     length xs = n \<and> list_all valid xs \<and> bs = write_all put xs @ rest"
proof (induction n arbitrary: bs xs)
  case 0
  then show ?case by simp
next
  case (Suc n)
  then obtain x bs' ys where "get bs = Inr (x, bs')" "read_n get n bs' = Inr (ys, rest)"
    and xs: "xs = x # ys"
    by (auto simp: rbind_eq_Inr)
  with Suc.IH have "valid x" "bs = put x @ bs'" "length ys = n" "list_all valid ys"
    "bs' = write_all put ys @ rest"
    by (auto simp: get_iff)
  then show ?case by (simp add: xs)
qed

end

section \<open>Sizes\<close>

text \<open>The \<^verbatim>\<open>SerializeSize\<close> functions of the source promise the length of what is written.\<close>

locale sized_codec = codec +
  fixes size_of :: "'a \<Rightarrow> nat"
  assumes length_put: "valid x \<Longrightarrow> length (put x) = size_of x"
begin

lemma length_write_all_valid:
  "list_all valid xs \<Longrightarrow> length (write_all put xs) = (\<Sum>x\<leftarrow>xs. size_of x)"
  by (induction xs) (simp_all add: length_put)

end

end
