(* ===== verification/Wire_Common.thy ===== *)
theory Wire_Common
  imports Codec
begin

text \<open>
  The primitive serializers of \<^verbatim>\<open>wire/common.go\<close>: fixed-width integers in a given byte order,
  the variable-length integer, and length-prefixed byte strings.  Every writer appends to a
  buffer and cannot fail, so it is modelled by the bytes it appends; every reader consumes
  a stream.  The serializer free list (\<^verbatim>\<open>newSerializer\<close>, \<^verbatim>\<open>free\<close>) only recycles scratch buffers
  and has no observable state.  The protocol version argument \<^verbatim>\<open>pver\<close>, which these functions
  ignore, is left out.
\<close>

section \<open>Fixed-width integers\<close>

datatype ByteOrder = LittleEndian | BigEndian

fun order_nat :: "ByteOrder \<Rightarrow> byte list \<Rightarrow> nat" where
  "order_nat LittleEndian bs = le_nat bs"
| "order_nat BigEndian bs = le_nat (rev bs)"

fun order_bytes :: "ByteOrder \<Rightarrow> nat \<Rightarrow> nat \<Rightarrow> byte list" where
  "order_bytes LittleEndian n x = le_bytes n x"
| "order_bytes BigEndian n x = rev (le_bytes n x)"

definition Uint8 :: "byte list \<Rightarrow> byte read_result" where
  "Uint8 r = rbind (ReadFull 1 r) (\<lambda>(buf, r). Inr (hd buf, r))"

definition Uint16 :: "ByteOrder \<Rightarrow> byte list \<Rightarrow> uint16 read_result" where
  "Uint16 byteOrder r =
     rbind (ReadFull 2 r) (\<lambda>(buf, r). Inr (word_of_nat (order_nat byteOrder buf), r))"

definition Uint32 :: "ByteOrder \<Rightarrow> byte list \<Rightarrow> uint32 read_result" where
  "Uint32 byteOrder r =
     rbind (ReadFull 4 r) (\<lambda>(buf, r). Inr (word_of_nat (order_nat byteOrder buf), r))"

definition Uint64 :: "ByteOrder \<Rightarrow> byte list \<Rightarrow> uint64 read_result" where
  "Uint64 byteOrder r =
     rbind (ReadFull 8 r) (\<lambda>(buf, r). Inr (word_of_nat (order_nat byteOrder buf), r))"

definition PutUint8 :: "byte \<Rightarrow> byte list" where
  "PutUint8 val = [val]"

definition PutUint16 :: "ByteOrder \<Rightarrow> uint16 \<Rightarrow> byte list" where
  "PutUint16 byteOrder val = order_bytes byteOrder 2 (unat val)"

definition PutUint32 :: "ByteOrder \<Rightarrow> uint32 \<Rightarrow> byte list" where
  "PutUint32 byteOrder val = order_bytes byteOrder 4 (unat val)"

definition PutUint64 :: "ByteOrder \<Rightarrow> uint64 \<Rightarrow> byte list" where
  "PutUint64 byteOrder val = order_bytes byteOrder 8 (unat val)"

lemma length_order_bytes [simp]: "length (order_bytes ord n x) = n"
  by (cases ord) simp_all

lemma order_nat_order_bytes [simp]: "order_nat ord (order_bytes ord n x) = x mod 256 ^ n"
  by (cases ord) (simp_all add: le_nat_le_bytes)

lemma order_bytes_order_nat: "length bs = n \<Longrightarrow> order_bytes ord n (order_nat ord bs) = bs"
  using le_bytes_le_nat [of bs] le_bytes_le_nat [of "rev bs"] by (cases ord) auto

lemma order_nat_less: "order_nat ord bs < 256 ^ length bs"
  using le_nat_less [of bs] le_nat_less [of "rev bs"] by (cases ord) simp_all

lemma length_PutUint [simp]:
  "length (PutUint8 b) = 1"
  "length (PutUint16 ord h) = 2"
  "length (PutUint32 ord w) = 4"
  "length (PutUint64 ord q) = 8"
  by (simp_all add: PutUint8_def PutUint16_def PutUint32_def PutUint64_def)

text \<open>One argument serves the three widths above a byte.\<close>

lemma order_bytes_canonical:
  fixes w :: "'a :: len word"
  assumes "LENGTH('a) = 8 * n"
  shows "rbind (ReadFull n bs) (\<lambda>(buf, r). Inr (word_of_nat (order_nat ord buf), r)) = Inr (w, rest)
    \<longleftrightarrow> bs = order_bytes ord n (unat w) @ rest"
proof -
  have pow: "(256::nat) ^ n = 2 ^ LENGTH('a)"
    by (simp add: assms power_mult)
  have un: "unat (word_of_nat (order_nat ord xs) :: 'a word) = order_nat ord xs"
    if "length xs = n" for xs
    using order_nat_less [of ord xs] that by (simp add: unat_of_nat pow)
  have wn: "word_of_nat (unat w mod 256 ^ n) = w"
    by (simp add: pow unsigned_less)
  show ?thesis
    by (auto simp: rbind_eq_Inr ReadFull_eq_Inr un wn order_bytes_order_nat)
qed

interpretation uint8: canonical_codec PutUint8 Uint8 "\<lambda>_. True"
  by unfold_locales
    (auto simp: PutUint8_def Uint8_def ReadFull_eq_Inr rbind_eq_Inr length_Suc_conv)

interpretation uint16: canonical_codec "PutUint16 ord" "Uint16 ord" "\<lambda>_. True" for ord
  by unfold_locales
    (simp_all add: PutUint16_def Uint16_def order_bytes_canonical del: ReadFull_append)

interpretation uint32: canonical_codec "PutUint32 ord" "Uint32 ord" "\<lambda>_. True" for ord
  by unfold_locales
    (simp_all add: PutUint32_def Uint32_def order_bytes_canonical del: ReadFull_append)

interpretation uint64: canonical_codec "PutUint64 ord" "Uint64 ord" "\<lambda>_. True" for ord
  by unfold_locales
    (simp_all add: PutUint64_def Uint64_def order_bytes_canonical del: ReadFull_append)

lemmas uint_get_put [simp] =
  uint8.get_put [simplified] uint16.get_put [simplified]
  uint32.get_put [simplified] uint64.get_put [simplified]

section \<open>Variable-length integers\<close>

definition ReadVarInt :: "byte list \<Rightarrow> uint64 read_result" where
  "ReadVarInt r =
     rbind (Uint8 r) (\<lambda>(discriminant, r).
       if discriminant = 0xff then
         rbind (Uint64 LittleEndian r) (\<lambda>(sv, r).
           let rv = sv; min = 0x100000000 in
           if rv < min then Inl (MessageError ''ReadVarInt'') else Inr (rv, r))
       else if discriminant = 0xfe then
         rbind (Uint32 LittleEndian r) (\<lambda>(sv, r).
           let rv = ucast sv; min = 0x10000 in
           if rv < min then Inl (MessageError ''ReadVarInt'') else Inr (rv, r))
       else if discriminant = 0xfd then
         rbind (Uint16 LittleEndian r) (\<lambda>(sv, r).
           let rv = ucast sv; min = 0xfd in
           if rv < min then Inl (MessageError ''ReadVarInt'') else Inr (rv, r))
       else Inr (ucast discriminant, r))"

definition WriteVarInt :: "uint64 \<Rightarrow> byte list" where
  "WriteVarInt val =
     (if val < 0xfd then PutUint8 (ucast val)
      else if val \<le> 0xffff then PutUint8 0xfd @ PutUint16 LittleEndian (ucast val)
      else if val \<le> 0xffffffff then PutUint8 0xfe @ PutUint32 LittleEndian (ucast val)
      else PutUint8 0xff @ PutUint64 LittleEndian val)"

definition VarIntSerializeSize :: "uint64 \<Rightarrow> nat" where
  "VarIntSerializeSize val =
     (if val < 0xfd then 1 else if val \<le> 0xffff then 3 else if val \<le> 0xffffffff then 5 else 9)"

text \<open>
  The four ranges of a value and the discriminant each one is written with.  The reader
  rejects a value that belongs to a shorter form, which makes the encoding canonical.
\<close>

lemma ReadVarInt_WriteVarInt: "ReadVarInt (WriteVarInt val @ rest) = Inr (val, rest)"
proof -
  consider "unat val < 253" | "253 \<le> unat val" "unat val \<le> 65535"
    | "65535 < unat val" "unat val \<le> 4294967295" | "4294967295 < unat val"
    by linarith
  then show ?thesis
  proof cases
    case 1
    then have "unat (ucast val :: byte) = unat val" by (simp add: unat_ucast_mod)
    with 1 have "(ucast val :: byte) \<noteq> 253" "(ucast val :: byte) \<noteq> 254" "(ucast val :: byte) \<noteq> 255"
      by (auto simp: word_unat_eq_iff)
    with 1 show ?thesis
      by (simp add: WriteVarInt_def ReadVarInt_def word_less_nat_alt ucast_ucast_small)
  qed (simp_all add: WriteVarInt_def ReadVarInt_def word_less_nat_alt word_le_nat_alt
        ucast_ucast_small Let_def)
qed

lemma ReadVarInt_canonical:
  assumes "ReadVarInt bs = Inr (val, rest)"
  shows "bs = WriteVarInt val @ rest"
proof -
  have h: "unat h \<le> 65535" "unat h \<le> 4294967295" for h :: uint16
    using unat_bound [of h] by simp_all
  have w: "unat w \<le> 4294967295" for w :: uint32
    using unat_bound [of w] by simp
  from assms obtain d r where bs: "bs = PutUint8 d @ r"
    and body: "ReadVarInt (PutUint8 d @ r) = Inr (val, rest)"
    by (auto simp: ReadVarInt_def rbind_eq_Inr uint8.get_iff)
  consider "d = 255" | "d = 254" | "d = 253" | "unat d < 253"
    using unat_byte_lt [of d] by (auto simp: word_unat_eq_iff) linarith
  then show ?thesis
  proof cases
    case 4
    then have "d \<noteq> 255" "d \<noteq> 254" "d \<noteq> 253" by auto
    with 4 body bs show ?thesis
      by (auto simp: ReadVarInt_def WriteVarInt_def word_less_nat_alt unat_ucast_up ucast_ucast_up)
  qed (use body bs in \<open>auto simp: ReadVarInt_def WriteVarInt_def rbind_eq_Inr uint16.get_iff
        uint32.get_iff uint64.get_iff Let_def word_less_nat_alt word_le_nat_alt
        unat_ucast_up ucast_ucast_up h w split: if_splits\<close>)
qed

lemma length_WriteVarInt: "length (WriteVarInt val) = VarIntSerializeSize val"
  by (simp add: WriteVarInt_def VarIntSerializeSize_def)

interpretation varint: canonical_codec WriteVarInt ReadVarInt "\<lambda>_. True"
  by unfold_locales (simp_all add: ReadVarInt_WriteVarInt ReadVarInt_canonical)

interpretation varint: sized_codec WriteVarInt ReadVarInt "\<lambda>_. True" VarIntSerializeSize
  by unfold_locales (simp add: length_WriteVarInt)

section \<open>Length-prefixed byte strings\<close>

definition MaxMessagePayload :: nat where
  "MaxMessagePayload = 1024 * 1024 * 32"

text \<open>A Go string is modelled by its bytes.\<close>

definition ReadVarString :: "byte list \<Rightarrow> byte list read_result" where
  "ReadVarString r =
     rbind (ReadVarInt r) (\<lambda>(count, r).
       if unat count > MaxMessagePayload then Inl (MessageError ''ReadVarString'')
       else ReadFull (unat count) r)"

definition WriteVarString :: "byte list \<Rightarrow> byte list" where
  "WriteVarString str = WriteVarInt (word_of_nat (length str)) @ str"

definition ReadVarBytes :: "uint32 \<Rightarrow> byte list \<Rightarrow> byte list read_result" where
  "ReadVarBytes maxAllowed r =
     rbind (ReadVarInt r) (\<lambda>(count, r).
       if count > ucast maxAllowed then Inl (MessageError ''ReadVarBytes'')
       else ReadFull (unat count) r)"

definition WriteVarBytes :: "byte list \<Rightarrow> byte list" where
  "WriteVarBytes bytes = WriteVarInt (word_of_nat (length bytes)) @ bytes"

text \<open>
  The length prefix is a \<^verbatim>\<open>uint64\<close>; a Go slice is shorter than \<open>2 ^ 63\<close> bytes, so the
  conversion of its length does not wrap for the values a bounded reader accepts.
\<close>

lemma ReadVarBytes_WriteVarBytes:
  assumes "length bytes \<le> unat maxAllowed"
  shows "ReadVarBytes maxAllowed (WriteVarBytes bytes @ rest) = Inr (bytes, rest)"
proof -
  have "length bytes < 2 ^ 64"
    using assms unat_bound [of maxAllowed] by simp
  then have "unat (word_of_nat (length bytes) :: uint64) = length bytes"
    by (rule unat_word_of_nat_small)
  with assms show ?thesis
    by (simp add: ReadVarBytes_def WriteVarBytes_def ReadVarInt_WriteVarInt word_less_nat_alt
        unat_ucast_up not_less)
qed

lemma ReadVarBytes_canonical:
  assumes "ReadVarBytes maxAllowed bs = Inr (bytes, rest)"
  shows "length bytes \<le> unat maxAllowed \<and> bs = WriteVarBytes bytes @ rest"
  using assms
  by (auto simp: ReadVarBytes_def WriteVarBytes_def rbind_eq_Inr varint.get_iff ReadFull_eq_Inr
      word_less_nat_alt unat_ucast_up not_less split: if_splits)

interpretation varbytes: canonical_codec WriteVarBytes "ReadVarBytes maxAllowed"
  "\<lambda>bytes. length bytes \<le> unat maxAllowed" for maxAllowed
  by unfold_locales (simp_all add: ReadVarBytes_WriteVarBytes ReadVarBytes_canonical)

interpretation varstring: canonical_codec WriteVarString ReadVarString
  "\<lambda>str. length str \<le> MaxMessagePayload"
  by unfold_locales
    (auto simp: ReadVarString_def WriteVarString_def rbind_eq_Inr varint.get_iff ReadFull_eq_Inr
      ReadVarInt_WriteVarInt unat_of_nat MaxMessagePayload_def split: if_splits)

lemma length_WriteVarBytes:
  "length (WriteVarBytes bytes) = VarIntSerializeSize (word_of_nat (length bytes)) + length bytes"
  by (simp add: WriteVarBytes_def length_WriteVarInt)

section \<open>Properties\<close>

text \<open>
  C33: the variable-length integer has one encoding per value.  The reader returns a value if
  and only if the input starts with what the writer produces for it, leaves exactly the bytes
  after that, and the computed size is the number of bytes used.  Non-minimal encodings are
  therefore rejected.
\<close>

theorem varint_canonical:
  "(ReadVarInt bs = Inr (val, rest) \<longleftrightarrow> bs = WriteVarInt val @ rest) \<and>
   length (WriteVarInt val) = VarIntSerializeSize val"
  by (simp add: varint.get_iff length_WriteVarInt)

text \<open>
  C33: a length-prefixed byte string is accepted if and only if it is within the limit the
  caller passes and the input starts with its encoding; nothing longer is ever read.
\<close>

theorem varbytes_canonical:
  "ReadVarBytes maxAllowed bs = Inr (bytes, rest) \<longleftrightarrow>
     length bytes \<le> unat maxAllowed \<and> bs = WriteVarBytes bytes @ rest"
  by (rule varbytes.get_iff)

end
