(* ===== verification/Wire_Tx.thy ===== *)
theory Wire_Tx
  imports Wire_Common
begin

unbundle bit_operations_syntax

text \<open>
  Transactions (\<^verbatim>\<open>wire/msgtx.go\<close>): the message types, the base and the witness encoding, and
  the decoder.  Signed 32 and 64 bit fields are kept as the words they are written as.  A
  witness is an optional list because the source distinguishes a nil witness from an empty
  one.  The decoder's script buffers (\<^verbatim>\<open>scriptPool\<close>, the final copy into one contiguous
  allocation) move bytes without changing any value and are not modelled.
\<close>

section \<open>Data\<close>

record OutPoint =
  op_Hash :: hash
  op_Index :: uint32

record TxIn =
  ti_PreviousOutPoint :: OutPoint
  ti_SignatureScript :: "byte list"
  ti_Witness :: "byte list list option"
  ti_Sequence :: uint32

record TxOut =
  to_Value :: uint64
  to_PkScript :: "byte list"

record MsgTx =
  tx_Version :: uint32
  tx_TxIn :: "TxIn list"
  tx_TxOut :: "TxOut list"
  tx_LockTime :: uint32

text \<open>A nil slice ranges over no element and has length zero.\<close>

definition wit_items :: "byte list list option \<Rightarrow> byte list list" where
  "wit_items w = (case w of None \<Rightarrow> [] | Some ws \<Rightarrow> ws)"

lemma wit_items_simps [simp]: "wit_items None = []" "wit_items (Some ws) = ws"
  by (simp_all add: wit_items_def)

definition maxTxInPerMessage :: nat where
  "maxTxInPerMessage = MaxMessagePayload div (9 + HashSize) + 1"

definition maxTxOutPerMessage :: nat where
  "maxTxOutPerMessage = MaxMessagePayload div 9 + 1"

definition maxWitnessItemsPerInput :: nat where
  "maxWitnessItemsPerInput = 4000000"

definition maxWitnessItemSize :: nat where
  "maxWitnessItemSize = 4000000"

type_synonym MessageEncoding = uint32

abbreviation BaseEncoding :: MessageEncoding where
  "BaseEncoding \<equiv> 1"

abbreviation WitnessEncoding :: MessageEncoding where
  "WitnessEncoding \<equiv> 2"

abbreviation TxFlagMarker :: byte where
  "TxFlagMarker \<equiv> 0"

abbreviation WitnessFlag :: byte where
  "WitnessFlag \<equiv> 1"

definition HasWitness :: "MsgTx \<Rightarrow> bool" where
  "HasWitness msg \<longleftrightarrow> list_ex (\<lambda>txIn. length (wit_items (ti_Witness txIn)) \<noteq> 0) (tx_TxIn msg)"

section \<open>Writing\<close>

definition WriteOutPoint :: "OutPoint \<Rightarrow> byte list" where
  "WriteOutPoint op = op_Hash op @ PutUint32 LittleEndian (op_Index op)"

definition writeTxIn :: "TxIn \<Rightarrow> byte list" where
  "writeTxIn ti =
     WriteOutPoint (ti_PreviousOutPoint ti) @ WriteVarBytes (ti_SignatureScript ti) @
     PutUint32 LittleEndian (ti_Sequence ti)"

definition WriteTxOut :: "TxOut \<Rightarrow> byte list" where
  "WriteTxOut to = PutUint64 LittleEndian (to_Value to) @ WriteVarBytes (to_PkScript to)"

definition writeTxWitness :: "byte list list option \<Rightarrow> byte list" where
  "writeTxWitness wit =
     WriteVarInt (word_of_nat (length (wit_items wit))) @ write_all WriteVarBytes (wit_items wit)"

definition BtcEncode :: "MessageEncoding \<Rightarrow> MsgTx \<Rightarrow> byte list" where
  "BtcEncode enc msg =
     (let doWitness = (enc AND WitnessEncoding = WitnessEncoding \<and> HasWitness msg) in
      PutUint32 LittleEndian (tx_Version msg) @
      (if doWitness then [TxFlagMarker, WitnessFlag] else []) @
      WriteVarInt (word_of_nat (length (tx_TxIn msg))) @
      write_all writeTxIn (tx_TxIn msg) @
      WriteVarInt (word_of_nat (length (tx_TxOut msg))) @
      write_all WriteTxOut (tx_TxOut msg) @
      (if doWitness then write_all (\<lambda>ti. writeTxWitness (ti_Witness ti)) (tx_TxIn msg) else []) @
      PutUint32 LittleEndian (tx_LockTime msg))"

definition Serialize :: "MsgTx \<Rightarrow> byte list" where
  "Serialize msg = BtcEncode WitnessEncoding msg"

definition SerializeNoWitness :: "MsgTx \<Rightarrow> byte list" where
  "SerializeNoWitness msg = BtcEncode BaseEncoding msg"

section \<open>Reading\<close>

definition readOutPoint :: "byte list \<Rightarrow> OutPoint read_result" where
  "readOutPoint r =
     rbind (ReadFull HashSize r) (\<lambda>(h, r).
     rbind (Uint32 LittleEndian r) (\<lambda>(i, r).
       Inr (\<lparr>op_Hash = h, op_Index = i\<rparr>, r)))"

definition readScript :: "nat \<Rightarrow> byte list \<Rightarrow> byte list read_result" where
  "readScript maxAllowed r =
     rbind (ReadVarInt r) (\<lambda>(count, r).
       if unat count > maxAllowed then Inl (MessageError ''readScript'')
       else ReadFull (unat count) r)"

definition readTxIn :: "byte list \<Rightarrow> TxIn read_result" where
  "readTxIn r =
     rbind (readOutPoint r) (\<lambda>(op, r).
     rbind (readScript MaxMessagePayload r) (\<lambda>(s, r).
     rbind (Uint32 LittleEndian r) (\<lambda>(q, r).
       Inr (\<lparr>ti_PreviousOutPoint = op, ti_SignatureScript = s, ti_Witness = None, ti_Sequence = q\<rparr>, r))))"

definition ReadTxOut :: "byte list \<Rightarrow> TxOut read_result" where
  "ReadTxOut r =
     rbind (Uint64 LittleEndian r) (\<lambda>(v, r).
     rbind (readScript MaxMessagePayload r) (\<lambda>(s, r).
       Inr (\<lparr>to_Value = v, to_PkScript = s\<rparr>, r)))"

text \<open>The loop over the inputs that fills in their witnesses.\<close>

fun readWitnesses :: "TxIn list \<Rightarrow> byte list \<Rightarrow> TxIn list read_result" where
  "readWitnesses [] r = Inr ([], r)"
| "readWitnesses (txin # txins) r =
     rbind (ReadVarInt r) (\<lambda>(witCount, r).
       if unat witCount > maxWitnessItemsPerInput then Inl (MessageError ''MsgTx.BtcDecode'')
       else
         rbind (read_n (readScript maxWitnessItemSize) (unat witCount) r) (\<lambda>(ws, r).
         rbind (readWitnesses txins r) (\<lambda>(txins, r).
           Inr (txin\<lparr>ti_Witness := Some ws\<rparr> # txins, r))))"

definition readWitnessPart :: "MessageEncoding \<Rightarrow> byte \<Rightarrow> TxIn list \<Rightarrow> byte list \<Rightarrow> TxIn list read_result" where
  "readWitnessPart enc flag txIns r =
     (if flag \<noteq> 0 \<and> enc AND WitnessEncoding = WitnessEncoding then readWitnesses txIns r
      else Inr (txIns, r))"

text \<open>
  A count of zero marks a witness transaction: the flag byte and the real count follow.  The
  flag stays zero otherwise.
\<close>

definition readTxFlag :: "MessageEncoding \<Rightarrow> uint64 \<Rightarrow> byte list \<Rightarrow> (byte \<times> uint64) read_result" where
  "readTxFlag enc count r =
     (if unat count = unat TxFlagMarker \<and> enc AND WitnessEncoding = WitnessEncoding then
        rbind (ReadFull 1 r) (\<lambda>(flag, r).
          if hd flag \<noteq> WitnessFlag then Inl (MessageError ''MsgTx.BtcDecode'')
          else rbind (ReadVarInt r) (\<lambda>(count, r). Inr ((hd flag, count), r)))
      else Inr ((0, count), r))"

definition BtcDecode :: "MessageEncoding \<Rightarrow> byte list \<Rightarrow> MsgTx read_result" where
  "BtcDecode enc r =
     rbind (Uint32 LittleEndian r) (\<lambda>(version, r).
     rbind (ReadVarInt r) (\<lambda>(count, r).
     rbind (readTxFlag enc count r) (\<lambda>((flag, count), r).
     if unat count > maxTxInPerMessage then Inl (MessageError ''MsgTx.BtcDecode'') else
     rbind (read_n readTxIn (unat count) r) (\<lambda>(txIns, r).
     rbind (ReadVarInt r) (\<lambda>(count, r).
     if unat count > maxTxOutPerMessage then Inl (MessageError ''MsgTx.BtcDecode'') else
     rbind (read_n ReadTxOut (unat count) r) (\<lambda>(txOuts, r).
     rbind (readWitnessPart enc flag txIns r) (\<lambda>(txIns, r).
     rbind (Uint32 LittleEndian r) (\<lambda>(lockTime, r).
       Inr (\<lparr>tx_Version = version, tx_TxIn = txIns, tx_TxOut = txOuts, tx_LockTime = lockTime\<rparr>, r)))))))))"

definition Deserialize :: "byte list \<Rightarrow> MsgTx read_result" where
  "Deserialize r = BtcDecode WitnessEncoding r"

definition DeserializeNoWitness :: "byte list \<Rightarrow> MsgTx read_result" where
  "DeserializeNoWitness r = BtcDecode BaseEncoding r"

section \<open>Sizes\<close>

definition TxIn_SerializeSize :: "TxIn \<Rightarrow> nat" where
  "TxIn_SerializeSize t =
     40 + VarIntSerializeSize (word_of_nat (length (ti_SignatureScript t))) +
     length (ti_SignatureScript t)"

definition TxWitness_SerializeSize :: "byte list list option \<Rightarrow> nat" where
  "TxWitness_SerializeSize t =
     foldl (\<lambda>n witItem. n + VarIntSerializeSize (word_of_nat (length witItem)) + length witItem)
       (VarIntSerializeSize (word_of_nat (length (wit_items t)))) (wit_items t)"

definition TxOut_SerializeSize :: "TxOut \<Rightarrow> nat" where
  "TxOut_SerializeSize t =
     8 + VarIntSerializeSize (word_of_nat (length (to_PkScript t))) + length (to_PkScript t)"

definition baseSize :: "MsgTx \<Rightarrow> nat" where
  "baseSize msg =
     (let n = 8 + VarIntSerializeSize (word_of_nat (length (tx_TxIn msg))) +
                VarIntSerializeSize (word_of_nat (length (tx_TxOut msg)));
          n = foldl (\<lambda>n txIn. n + TxIn_SerializeSize txIn) n (tx_TxIn msg)
      in foldl (\<lambda>n txOut. n + TxOut_SerializeSize txOut) n (tx_TxOut msg))"

definition SerializeSize :: "MsgTx \<Rightarrow> nat" where
  "SerializeSize msg =
     (let n = baseSize msg in
      if HasWitness msg
      then foldl (\<lambda>n txin. n + TxWitness_SerializeSize (ti_Witness txin)) (n + 2) (tx_TxIn msg)
      else n)"

definition SerializeSizeStripped :: "MsgTx \<Rightarrow> nat" where
  "SerializeSizeStripped msg = baseSize msg"

text \<open>
  The start of each public key script in the serialized transaction.  The loop keeps the
  running offset \<open>n\<close>.
\<close>

fun pkScriptOffsets :: "nat \<Rightarrow> TxOut list \<Rightarrow> nat list" where
  "pkScriptOffsets n [] = []"
| "pkScriptOffsets n (txOut # txOuts) =
     (let n = n + (8 + VarIntSerializeSize (word_of_nat (length (to_PkScript txOut))))
      in n # pkScriptOffsets (n + length (to_PkScript txOut)) txOuts)"

definition PkScriptLocs :: "MsgTx \<Rightarrow> nat list" where
  "PkScriptLocs msg =
     (let numTxOut = length (tx_TxOut msg) in
      if numTxOut = 0 then []
      else
        let n = 4 + VarIntSerializeSize (word_of_nat (length (tx_TxIn msg))) +
                  VarIntSerializeSize (word_of_nat numTxOut);
            n = (if length (tx_TxIn msg) > 0 \<and> ti_Witness (tx_TxIn msg ! 0) \<noteq> None then n + 2 else n);
            n = foldl (\<lambda>n txIn. n + TxIn_SerializeSize txIn) n (tx_TxIn msg)
        in pkScriptOffsets n (tx_TxOut msg))"

section \<open>Well-formed values\<close>

text \<open>What the reader can return: 32 byte hashes and every count within its limit.\<close>

definition valid_OutPoint :: "OutPoint \<Rightarrow> bool" where
  "valid_OutPoint op \<longleftrightarrow> is_hash (op_Hash op)"

definition valid_TxIn :: "TxIn \<Rightarrow> bool" where
  "valid_TxIn ti \<longleftrightarrow>
     valid_OutPoint (ti_PreviousOutPoint ti) \<and> length (ti_SignatureScript ti) \<le> MaxMessagePayload"

definition valid_witness :: "byte list list option \<Rightarrow> bool" where
  "valid_witness w \<longleftrightarrow>
     length (wit_items w) \<le> maxWitnessItemsPerInput \<and>
     list_all (\<lambda>item. length item \<le> maxWitnessItemSize) (wit_items w)"

definition valid_TxOut :: "TxOut \<Rightarrow> bool" where
  "valid_TxOut to \<longleftrightarrow> length (to_PkScript to) \<le> MaxMessagePayload"

definition valid_MsgTx :: "MsgTx \<Rightarrow> bool" where
  "valid_MsgTx msg \<longleftrightarrow>
     length (tx_TxIn msg) \<le> maxTxInPerMessage \<and> list_all valid_TxIn (tx_TxIn msg) \<and>
     list_all (\<lambda>ti. valid_witness (ti_Witness ti)) (tx_TxIn msg) \<and>
     length (tx_TxOut msg) \<le> maxTxOutPerMessage \<and> list_all valid_TxOut (tx_TxOut msg)"

definition strip_TxIn :: "TxIn \<Rightarrow> TxIn" where
  "strip_TxIn ti = ti\<lparr>ti_Witness := None\<rparr>"

definition strip_witness :: "MsgTx \<Rightarrow> MsgTx" where
  "strip_witness msg = msg\<lparr>tx_TxIn := map strip_TxIn (tx_TxIn msg)\<rparr>"

text \<open>The decoder sets every witness of a witness transaction, to an empty slice if need be.\<close>

definition fill_TxIn :: "TxIn \<Rightarrow> TxIn" where
  "fill_TxIn ti = ti\<lparr>ti_Witness := Some (wit_items (ti_Witness ti))\<rparr>"

definition normal_witness :: "MsgTx \<Rightarrow> MsgTx" where
  "normal_witness msg =
     (if HasWitness msg then msg\<lparr>tx_TxIn := map fill_TxIn (tx_TxIn msg)\<rparr> else strip_witness msg)"

lemmas tx_limit_defs = maxTxInPerMessage_def maxTxOutPerMessage_def maxWitnessItemsPerInput_def
  maxWitnessItemSize_def MaxMessagePayload_def HashSize_def

section \<open>The parts of a transaction\<close>

interpretation outpoint: canonical_codec WriteOutPoint readOutPoint valid_OutPoint
  by unfold_locales
    (auto simp: WriteOutPoint_def readOutPoint_def valid_OutPoint_def is_hash_def rbind_eq_Inr
      ReadFull_eq_Inr uint32.get_iff)

lemma script_get_iff:
  assumes "m < 2 ^ 64"
  shows "readScript m bs = Inr (s, rest) \<longleftrightarrow> length s \<le> m \<and> bs = WriteVarBytes s @ rest"
    (is "?get \<longleftrightarrow> ?put")
proof
  show ?put if ?get
    using that by (auto simp: readScript_def WriteVarBytes_def rbind_eq_Inr varint.get_iff
        ReadFull_eq_Inr not_less split: if_splits)
next
  assume p: ?put
  with assms have "unat (word_of_nat (length s) :: uint64) = length s"
    by (intro unat_word_of_nat_small) simp
  with p show ?get
    by (simp add: readScript_def WriteVarBytes_def ReadVarInt_WriteVarInt)
qed

interpretation script: canonical_codec WriteVarBytes "readScript MaxMessagePayload"
  "\<lambda>s. length s \<le> MaxMessagePayload"
  by unfold_locales (simp_all add: script_get_iff MaxMessagePayload_def)

interpretation witem: canonical_codec WriteVarBytes "readScript maxWitnessItemSize"
  "\<lambda>s. length s \<le> maxWitnessItemSize"
  by unfold_locales (simp_all add: script_get_iff maxWitnessItemSize_def)

interpretation txin: canonical_codec writeTxIn readTxIn
  "\<lambda>ti. valid_TxIn ti \<and> ti_Witness ti = None"
proof unfold_locales
  show "readTxIn (writeTxIn ti @ rest) = Inr (ti, rest)"
    if "valid_TxIn ti \<and> ti_Witness ti = None" for ti rest
    using that by (simp add: writeTxIn_def readTxIn_def valid_TxIn_def outpoint.get_put script.get_put)
qed (auto simp: writeTxIn_def readTxIn_def valid_TxIn_def rbind_eq_Inr outpoint.get_iff
      script.get_iff uint32.get_iff)

interpretation txout: canonical_codec WriteTxOut ReadTxOut valid_TxOut
proof unfold_locales
  show "ReadTxOut (WriteTxOut to @ rest) = Inr (to, rest)" if "valid_TxOut to" for to rest
    using that by (simp add: WriteTxOut_def ReadTxOut_def valid_TxOut_def script.get_put)
qed (auto simp: WriteTxOut_def ReadTxOut_def valid_TxOut_def rbind_eq_Inr script.get_iff uint64.get_iff)

lemma strip_TxIn_update [simp]: "strip_TxIn (ti\<lparr>ti_Witness := w\<rparr>) = strip_TxIn ti"
  by (simp add: strip_TxIn_def)

lemma writeTxIn_strip [simp]: "writeTxIn (strip_TxIn ti) = writeTxIn ti"
  by (simp add: strip_TxIn_def writeTxIn_def)

lemma write_all_strip [simp]: "write_all writeTxIn (map strip_TxIn tis) = write_all writeTxIn tis"
  by (induction tis) simp_all

lemma read_txins_strip:
  assumes "list_all valid_TxIn tis"
  shows "read_n readTxIn (length tis) (write_all writeTxIn tis @ rest) = Inr (map strip_TxIn tis, rest)"
proof -
  have "list_all (\<lambda>ti. valid_TxIn ti \<and> ti_Witness ti = None) (map strip_TxIn tis)"
    using assms by (simp add: list_all_length strip_TxIn_def valid_TxIn_def)
  from txin.read_n_write_all [OF this] show ?thesis by simp
qed

lemma readWitnesses_write:
  assumes "list_all (\<lambda>ti. valid_witness (ti_Witness ti)) tis"
  shows "readWitnesses (map strip_TxIn tis)
           (write_all (\<lambda>ti. writeTxWitness (ti_Witness ti)) tis @ rest) = Inr (map fill_TxIn tis, rest)"
  using assms
proof (induction tis)
  case Nil
  then show ?case by simp
next
  case (Cons ti tis)
  let ?ws = "wit_items (ti_Witness ti)"
  from Cons.prems have len: "length ?ws \<le> maxWitnessItemsPerInput"
    and items: "list_all (\<lambda>item. length item \<le> maxWitnessItemSize) ?ws"
    by (simp_all add: valid_witness_def)
  have "length ?ws < 2 ^ 64" using len by (simp add: maxWitnessItemsPerInput_def)
  then have "unat (word_of_nat (length ?ws) :: uint64) = length ?ws"
    by (rule unat_word_of_nat_small)
  with Cons len witem.read_n_write_all [OF items] show ?case
    by (simp add: writeTxWitness_def ReadVarInt_WriteVarInt strip_TxIn_def fill_TxIn_def)
qed

text \<open>What the witness reader accepts it can have got only from the writer.\<close>

lemma readWitnesses_canonical:
  assumes "readWitnesses txs bs = Inr (tis, rest)"
  shows "bs = write_all (\<lambda>ti. writeTxWitness (ti_Witness ti)) tis @ rest \<and>
    map strip_TxIn tis = map strip_TxIn txs \<and>
    list_all (\<lambda>ti. valid_witness (ti_Witness ti) \<and> ti_Witness ti \<noteq> None) tis"
  using assms
proof (induction txs bs arbitrary: tis rule: readWitnesses.induct)
  case (1 r)
  then show ?case by simp
next
  case (2 txin txins r)
  from "2.prems" obtain c r1 ws r2 us where
    c: "ReadVarInt r = Inr (c, r1)" "unat c \<le> maxWitnessItemsPerInput"
    and ws: "read_n (readScript maxWitnessItemSize) (unat c) r1 = Inr (ws, r2)"
    and us: "readWitnesses txins r2 = Inr (us, rest)"
    and tis: "tis = txin\<lparr>ti_Witness := Some ws\<rparr> # us"
    by (auto simp: rbind_eq_Inr split: if_splits)
  have w: "length ws = unat c" "list_all (\<lambda>s. length s \<le> maxWitnessItemSize) ws"
    "r1 = write_all WriteVarBytes ws @ r2"
    using witem.read_n_canonical [OF ws] by simp_all
  have "r2 = write_all (\<lambda>ti. writeTxWitness (ti_Witness ti)) us @ rest"
    "map strip_TxIn us = map strip_TxIn txins"
    "list_all (\<lambda>ti. valid_witness (ti_Witness ti) \<and> ti_Witness ti \<noteq> None) us"
    using "2.IH" [of "(c, r1)" c r1 "(ws, r2)" ws r2 us] c ws us by simp_all
  with c w tis show ?case
    by (simp add: varint.get_iff writeTxWitness_def valid_witness_def)
qed

section \<open>Whole transactions\<close>

lemma ReadVarInt_zero: "ReadVarInt (0 # r) = Inr (0, r)"
  using ReadVarInt_WriteVarInt [of 0 r] by (simp add: WriteVarInt_def PutUint8_def)

lemma ReadFull_one: "ReadFull (Suc 0) (b # r) = Inr ([b], r)"
  by (simp add: ReadFull_def)

lemma enc_and [simp]:
  "BaseEncoding AND WitnessEncoding \<noteq> WitnessEncoding"
  "WitnessEncoding AND WitnessEncoding = WitnessEncoding"
  by simp_all

lemma unat_lengths:
  assumes "valid_MsgTx msg"
  shows "unat (word_of_nat (length (tx_TxIn msg)) :: uint64) = length (tx_TxIn msg)"
    and "unat (word_of_nat (length (tx_TxOut msg)) :: uint64) = length (tx_TxOut msg)"
  using assms by (simp_all add: valid_MsgTx_def tx_limit_defs unat_of_nat)

text \<open>The part after the marker, which both encodings share up to the witnesses.\<close>

lemma read_ins_outs:
  assumes "valid_MsgTx msg"
  shows "read_n readTxIn (length (tx_TxIn msg))
           (write_all writeTxIn (tx_TxIn msg) @ rest) = Inr (map strip_TxIn (tx_TxIn msg), rest)"
    and "read_n ReadTxOut (length (tx_TxOut msg))
           (write_all WriteTxOut (tx_TxOut msg) @ rest) = Inr (tx_TxOut msg, rest)"
  using assms
  by (simp_all add: read_txins_strip txout.read_n_write_all valid_MsgTx_def)

lemma BtcDecode_base:
  assumes "valid_MsgTx msg"
  shows "BtcDecode BaseEncoding (BtcEncode BaseEncoding msg @ rest) = Inr (strip_witness msg, rest)"
proof -
  have "length (tx_TxIn msg) \<le> maxTxInPerMessage" "length (tx_TxOut msg) \<le> maxTxOutPerMessage"
    using assms by (simp_all add: valid_MsgTx_def)
  with unat_lengths [OF assms] show ?thesis
    by (simp add: BtcDecode_def readTxFlag_def readWitnessPart_def BtcEncode_def Let_def ReadVarInt_WriteVarInt
        read_ins_outs [OF assms] strip_witness_def)
qed

lemma BtcDecode_witness:
  assumes v: "valid_MsgTx msg" and ne: "tx_TxIn msg \<noteq> []"
  shows "BtcDecode WitnessEncoding (BtcEncode WitnessEncoding msg @ rest) = Inr (normal_witness msg, rest)"
proof -
  have len: "length (tx_TxIn msg) \<le> maxTxInPerMessage" "length (tx_TxOut msg) \<le> maxTxOutPerMessage"
    and wit: "list_all (\<lambda>ti. valid_witness (ti_Witness ti)) (tx_TxIn msg)"
    using v by (simp_all add: valid_MsgTx_def)
  have nz: "unat (word_of_nat (length (tx_TxIn msg)) :: uint64) \<noteq> 0"
    using unat_lengths(1) [OF v] ne by simp
  note rw = BtcDecode_def readTxFlag_def readWitnessPart_def BtcEncode_def Let_def ReadVarInt_WriteVarInt read_ins_outs [OF v] normal_witness_def
  show ?thesis
  proof (cases "HasWitness msg")
    case True
    with len unat_lengths [OF v] nz readWitnesses_write [OF wit] show ?thesis
      by (simp add: rw ReadVarInt_zero ReadFull_one)
  next
    case False
    with len unat_lengths [OF v] nz show ?thesis
      by (simp add: rw strip_witness_def)
  qed
qed

interpretation witnesstx: codec "BtcEncode WitnessEncoding" "BtcDecode WitnessEncoding"
  "\<lambda>msg. valid_MsgTx msg \<and> tx_TxIn msg \<noteq> [] \<and> normal_witness msg = msg"
  by unfold_locales (simp add: BtcDecode_witness)

text \<open>
  The other direction.  \<open>tx_image\<close> says what bytes a transaction was read from, given whether
  the marker and flag were present.
\<close>

definition tx_image :: "bool \<Rightarrow> MsgTx \<Rightarrow> byte list" where
  "tx_image flagged msg =
     PutUint32 LittleEndian (tx_Version msg) @
     (if flagged then [TxFlagMarker, WitnessFlag] else []) @
     WriteVarInt (word_of_nat (length (tx_TxIn msg))) @
     write_all writeTxIn (tx_TxIn msg) @
     WriteVarInt (word_of_nat (length (tx_TxOut msg))) @
     write_all WriteTxOut (tx_TxOut msg) @
     (if flagged then write_all (\<lambda>ti. writeTxWitness (ti_Witness ti)) (tx_TxIn msg) else []) @
     PutUint32 LittleEndian (tx_LockTime msg)"

lemma BtcEncode_image:
  "BtcEncode enc msg = tx_image (enc AND WitnessEncoding = WitnessEncoding \<and> HasWitness msg) msg"
  by (simp add: BtcEncode_def tx_image_def Let_def)

lemma write_txins_strip_eq:
  "map strip_TxIn tis = map strip_TxIn txs \<Longrightarrow> write_all writeTxIn tis = write_all writeTxIn txs"
  by (metis write_all_strip)

lemma valid_txins_strip_eq:
  "map strip_TxIn tis = map strip_TxIn txs \<Longrightarrow> list_all valid_TxIn tis = list_all valid_TxIn txs"
proof -
  have "list_all valid_TxIn us = list_all valid_TxIn (map strip_TxIn us)" for us
    by (simp add: list_all_length strip_TxIn_def valid_TxIn_def)
  then show "map strip_TxIn tis = map strip_TxIn txs \<Longrightarrow> ?thesis" by metis
qed

lemma BtcDecode_image:
  assumes "BtcDecode enc bs = Inr (msg, rest)"
  obtains flagged where "bs = tx_image flagged msg @ rest" "valid_MsgTx msg"
    "flagged \<Longrightarrow> enc AND WitnessEncoding = WitnessEncoding \<and>
       list_all (\<lambda>ti. ti_Witness ti \<noteq> None) (tx_TxIn msg)"
    "\<not> flagged \<Longrightarrow> list_all (\<lambda>ti. ti_Witness ti = None) (tx_TxIn msg)"
    "\<not> flagged \<Longrightarrow> enc AND WitnessEncoding = WitnessEncoding \<Longrightarrow> tx_TxIn msg \<noteq> []"
proof -
  let ?w = "enc AND WitnessEncoding = WitnessEncoding"
  from assms obtain ver r0 c0 r1 flag c r2 ins r3 co r4 outs r5 ins' r6 lock where
    ver: "Uint32 LittleEndian bs = Inr (ver, r0)" and c0: "ReadVarInt r0 = Inr (c0, r1)"
    and mark: "readTxFlag enc c0 r1 = Inr ((flag, c), r2)"
    and ins: "unat c \<le> maxTxInPerMessage" "read_n readTxIn (unat c) r2 = Inr (ins, r3)"
    and co: "ReadVarInt r3 = Inr (co, r4)"
    and outs: "unat co \<le> maxTxOutPerMessage" "read_n ReadTxOut (unat co) r4 = Inr (outs, r5)"
    and wit: "readWitnessPart enc flag ins r5 = Inr (ins', r6)"
    and lock: "Uint32 LittleEndian r6 = Inr (lock, rest)"
    and msg: "msg = \<lparr>tx_Version = ver, tx_TxIn = ins', tx_TxOut = outs, tx_LockTime = lock\<rparr>"
    by (auto simp: BtcDecode_def rbind_eq_Inr not_less split: if_splits)
  let ?f = "flag \<noteq> 0 \<and> ?w"
  have head: "r0 = (if ?f then [TxFlagMarker, WitnessFlag] else []) @ WriteVarInt c @ r2"
    and ne: "\<not> ?f \<Longrightarrow> ?w \<Longrightarrow> unat c \<noteq> 0"
    using mark c0
    by (auto simp: readTxFlag_def varint.get_iff rbind_eq_Inr ReadFull_eq_Inr length_Suc_conv WriteVarInt_def
        PutUint8_def unat_eq_zero split: if_splits)
  have in_facts: "length ins = unat c" "list_all valid_TxIn ins" "list_all (\<lambda>ti. ti_Witness ti = None) ins"
    "r2 = write_all writeTxIn ins @ r3"
    using txin.read_n_canonical [OF ins(2)] by (auto simp: list_all_iff)
  have out_facts: "length outs = unat co" "list_all valid_TxOut outs" "r4 = write_all WriteTxOut outs @ r5"
    using txout.read_n_canonical [OF outs(2)] by auto
  have wits: "r5 = (if ?f then write_all (\<lambda>ti. writeTxWitness (ti_Witness ti)) ins' else []) @ r6"
    "map strip_TxIn ins' = map strip_TxIn ins"
    "list_all (\<lambda>ti. valid_witness (ti_Witness ti)) ins'"
    "list_all (\<lambda>ti. (ti_Witness ti \<noteq> None) = ?f) ins'"
    using wit readWitnesses_canonical [of ins r5 ins' r6] in_facts(3)
    by (auto simp: readWitnessPart_def list_all_iff valid_witness_def split: if_splits)
  have len: "length ins' = unat c" using wits(2) in_facts(1) map_eq_imp_length_eq by metis
  show thesis
  proof (rule that [of ?f])
    show "bs = tx_image ?f msg @ rest"
      using ver co lock head in_facts out_facts wits(1) len write_txins_strip_eq [OF wits(2)]
      by (simp add: tx_image_def msg uint32.get_iff varint.get_iff)
    show "valid_MsgTx msg"
      using ins(1) outs(1) in_facts out_facts wits len valid_txins_strip_eq [OF wits(2)]
      by (simp add: valid_MsgTx_def msg)
  qed (use wits(4) ne len in \<open>auto simp: msg list_all_iff\<close>)
qed

text \<open>Base decoding accepts exactly what base encoding writes.\<close>

lemma strip_witness_id:
  "list_all (\<lambda>ti. ti_Witness ti = None) (tx_TxIn msg) \<Longrightarrow> strip_witness msg = msg"
proof -
  assume "list_all (\<lambda>ti. ti_Witness ti = None) (tx_TxIn msg)"
  then have "map strip_TxIn (tx_TxIn msg) = tx_TxIn msg"
    by (intro map_idI) (simp add: list_all_iff strip_TxIn_def)
  then show ?thesis by (simp add: strip_witness_def)
qed

lemma BtcDecode_base_iff:
  "BtcDecode BaseEncoding bs = Inr (msg, rest) \<longleftrightarrow>
     valid_MsgTx msg \<and> strip_witness msg = msg \<and> bs = BtcEncode BaseEncoding msg @ rest"
proof
  assume "BtcDecode BaseEncoding bs = Inr (msg, rest)"
  then obtain flagged where i: "bs = tx_image flagged msg @ rest" "valid_MsgTx msg" "\<not> flagged"
    and "\<not> flagged \<Longrightarrow> list_all (\<lambda>ti. ti_Witness ti = None) (tx_TxIn msg)"
    by (metis BtcDecode_image enc_and(1))
  with strip_witness_id
  show "valid_MsgTx msg \<and> strip_witness msg = msg \<and> bs = BtcEncode BaseEncoding msg @ rest"
    by (simp add: BtcEncode_image)
qed (auto simp: BtcDecode_base)

interpretation basetx: canonical_codec "BtcEncode BaseEncoding" "BtcDecode BaseEncoding"
  "\<lambda>msg. valid_MsgTx msg \<and> strip_witness msg = msg"
  by unfold_locales (simp_all add: BtcDecode_base_iff)

lemma HasWitness_None: "list_all (\<lambda>ti. ti_Witness ti = None) (tx_TxIn msg) \<Longrightarrow> \<not> HasWitness msg"
  by (auto simp: HasWitness_def list_all_iff list_ex_iff)

text \<open>
  Witness decoding is canonical except for one redundant form: marker and flag in front of a
  transaction none of whose inputs has a witness item.
\<close>

lemma BtcDecode_witness_canonical:
  assumes "BtcDecode WitnessEncoding bs = Inr (msg, rest)"
  shows "valid_MsgTx msg \<and>
    (bs = BtcEncode WitnessEncoding msg @ rest \<or>
     bs = tx_image True msg @ rest \<and> list_all (\<lambda>ti. ti_Witness ti = Some []) (tx_TxIn msg))"
proof -
  from assms obtain flagged where i: "bs = tx_image flagged msg @ rest" "valid_MsgTx msg"
    and f: "flagged \<Longrightarrow> list_all (\<lambda>ti. ti_Witness ti \<noteq> None) (tx_TxIn msg)"
    and n: "\<not> flagged \<Longrightarrow> list_all (\<lambda>ti. ti_Witness ti = None) (tx_TxIn msg)"
    by (rule BtcDecode_image) auto
  show ?thesis
  proof (cases "flagged = HasWitness msg")
    case True
    with i show ?thesis by (simp add: BtcEncode_image)
  next
    case False
    with n HasWitness_None have "flagged" "\<not> HasWitness msg" by auto
    with i f show ?thesis by (fastforce simp: HasWitness_def list_all_iff list_ex_iff)
  qed
qed

section \<open>Sizes and offsets\<close>

lemma length_writeTxIn: "valid_OutPoint (ti_PreviousOutPoint ti) \<Longrightarrow> length (writeTxIn ti) = TxIn_SerializeSize ti"
  by (simp add: writeTxIn_def WriteOutPoint_def TxIn_SerializeSize_def length_WriteVarBytes
      valid_OutPoint_def is_hash_def HashSize_def)

lemma length_WriteTxOut: "length (WriteTxOut to) = TxOut_SerializeSize to"
  by (simp add: WriteTxOut_def TxOut_SerializeSize_def length_WriteVarBytes)

lemma length_writeTxWitness: "length (writeTxWitness w) = TxWitness_SerializeSize w"
proof -
  have "TxWitness_SerializeSize w = VarIntSerializeSize (word_of_nat (length (wit_items w))) +
      (\<Sum>item\<leftarrow>wit_items w. VarIntSerializeSize (word_of_nat (length item)) + length item)"
    by (simp add: TxWitness_SerializeSize_def add.assoc foldl_add)
  then show ?thesis
    by (simp add: writeTxWitness_def length_write_all length_WriteVarInt length_WriteVarBytes)
qed

text \<open>The hashes of the spent outputs are the only lengths the writer does not control.\<close>

definition valid_hashes :: "MsgTx \<Rightarrow> bool" where
  "valid_hashes msg \<longleftrightarrow> list_all (\<lambda>ti. valid_OutPoint (ti_PreviousOutPoint ti)) (tx_TxIn msg)"

lemma length_txins:
  "list_all (\<lambda>ti. valid_OutPoint (ti_PreviousOutPoint ti)) tis \<Longrightarrow>
     length (write_all writeTxIn tis) = (\<Sum>ti\<leftarrow>tis. TxIn_SerializeSize ti)"
  by (induction tis) (simp_all add: length_writeTxIn)

lemma length_BtcEncode_base:
  "valid_hashes msg \<Longrightarrow> length (BtcEncode BaseEncoding msg) = SerializeSizeStripped msg"
  by (simp add: valid_hashes_def BtcEncode_def Let_def SerializeSizeStripped_def baseSize_def foldl_add
      length_txins length_WriteVarInt length_write_all [of WriteTxOut] length_WriteTxOut)

lemma length_BtcEncode_witness:
  "valid_hashes msg \<Longrightarrow> length (BtcEncode WitnessEncoding msg) = SerializeSize msg"
  by (simp add: valid_hashes_def BtcEncode_def Let_def SerializeSize_def baseSize_def foldl_add
      length_txins length_WriteVarInt length_write_all [of WriteTxOut] length_WriteTxOut
      length_write_all [of "\<lambda>ti. writeTxWitness (ti_Witness ti)"] length_writeTxWitness)

text \<open>Each offset points at its script in any buffer that continues with the outputs.\<close>

lemma pkScriptOffsets_point:
  assumes "length pre = n" "i < length outs"
  shows "length (pkScriptOffsets n outs) = length outs \<and>
    take (length (to_PkScript (outs ! i))) (drop (pkScriptOffsets n outs ! i)
      (pre @ write_all WriteTxOut outs @ post)) = to_PkScript (outs ! i)"
  using assms
proof (induction outs arbitrary: pre n i)
  case Nil
  then show ?case by simp
next
  case (Cons out outs)
  let ?hd = "PutUint64 LittleEndian (to_Value out) @ WriteVarInt (word_of_nat (length (to_PkScript out)))"
  let ?m = "n + (8 + VarIntSerializeSize (word_of_nat (length (to_PkScript out))))"
  have out: "WriteTxOut out = ?hd @ to_PkScript out"
    by (simp add: WriteTxOut_def WriteVarBytes_def)
  have m: "length (pre @ ?hd) = ?m" using Cons.prems(1) by (simp add: length_WriteVarInt)
  have len: "length (pkScriptOffsets k outs) = length outs" for k
    by (induction k outs rule: pkScriptOffsets.induct) (simp_all add: Let_def)
  show ?case
  proof (cases i)
    case 0
    with take_drop_append [OF m, of "to_PkScript out" "write_all WriteTxOut outs @ post"]
    show ?thesis by (simp add: out len Let_def)
  next
    case (Suc j)
    with Cons.IH [of "pre @ ?hd @ to_PkScript out" "?m + length (to_PkScript out)" j] Cons.prems m
    show ?thesis by (simp add: out len Let_def)
  qed
qed

lemma PkScriptLocs_point:
  assumes "valid_hashes msg"
    and "(tx_TxIn msg \<noteq> [] \<and> ti_Witness (tx_TxIn msg ! 0) \<noteq> None) = HasWitness msg"
    and "i < length (tx_TxOut msg)"
  shows "length (PkScriptLocs msg) = length (tx_TxOut msg) \<and>
    take (length (to_PkScript (tx_TxOut msg ! i))) (drop (PkScriptLocs msg ! i) (Serialize msg)) =
      to_PkScript (tx_TxOut msg ! i)"
proof -
  let ?pre = "PutUint32 LittleEndian (tx_Version msg) @
      (if HasWitness msg then [TxFlagMarker, WitnessFlag] else []) @
      WriteVarInt (word_of_nat (length (tx_TxIn msg))) @ write_all writeTxIn (tx_TxIn msg) @
      WriteVarInt (word_of_nat (length (tx_TxOut msg)))"
  let ?post = "(if HasWitness msg then write_all (\<lambda>ti. writeTxWitness (ti_Witness ti)) (tx_TxIn msg)
      else []) @ PutUint32 LittleEndian (tx_LockTime msg)"
  have ser: "Serialize msg = ?pre @ write_all WriteTxOut (tx_TxOut msg) @ ?post"
    by (simp add: Serialize_def BtcEncode_def Let_def)
  have locs: "PkScriptLocs msg = pkScriptOffsets (length ?pre) (tx_TxOut msg)"
    using assms by (auto simp: PkScriptLocs_def Let_def valid_hashes_def foldl_add length_txins
        length_WriteVarInt add_ac)
  show ?thesis
    unfolding ser locs by (rule pkScriptOffsets_point [OF refl assms(3)])
qed

section \<open>Properties\<close>

text \<open>A transaction with one input that carries a witness, used to evaluate the statements.\<close>

definition sample_tx :: MsgTx where
  "sample_tx =
     \<lparr>tx_Version = 2,
      tx_TxIn = [\<lparr>ti_PreviousOutPoint = \<lparr>op_Hash = zeroHash, op_Index = 7\<rparr>,
                  ti_SignatureScript = [0x51], ti_Witness = Some [[1, 2], []], ti_Sequence = 0xffffffff\<rparr>],
      tx_TxOut = [\<lparr>to_Value = 5000, to_PkScript = [0x6a, 0x00]\<rparr>],
      tx_LockTime = 9\<rparr>"

lemmas sample_tx_simps = sample_tx_def valid_MsgTx_def valid_TxIn_def valid_TxOut_def
  valid_OutPoint_def valid_witness_def valid_hashes_def HasWitness_def tx_limit_defs

text \<open>
  C32: reading back a serialized transaction.  For every transaction within the decoder's
  limits that has at least one input, decoding its witness serialization followed by any
  bytes returns the transaction and exactly those bytes.  A nil witness comes back empty in a
  transaction that has witness data, and every witness comes back nil in one that has none.
\<close>

theorem tx_witness_roundtrip:
  assumes "valid_MsgTx msg" and "tx_TxIn msg \<noteq> []"
  shows "Deserialize (Serialize msg @ rest) = Inr (normal_witness msg, rest)"
  unfolding Deserialize_def Serialize_def by (rule BtcDecode_witness [OF assms])

theorem tx_witness_roundtrip_witness:
  "valid_MsgTx sample_tx \<and> tx_TxIn sample_tx \<noteq> [] \<and>
   Deserialize (Serialize sample_tx @ [0xab]) = Inr (normal_witness sample_tx, [0xab])"
proof -
  have "valid_MsgTx sample_tx" "tx_TxIn sample_tx \<noteq> []"
    by (simp_all add: sample_tx_simps)
  then show ?thesis by (simp add: tx_witness_roundtrip)
qed

text \<open>
  C30: the base decoder accepts exactly the base serializations.  It returns a transaction if
  and only if the input starts with the base serialization of that transaction, the
  transaction is within the limits and carries no witness.  Two different byte strings are
  never read as the same transaction, so the hash of a transaction fixes its bytes.
\<close>

theorem tx_base_decode_iff:
  "DeserializeNoWitness bs = Inr (msg, rest) \<longleftrightarrow>
     valid_MsgTx msg \<and> strip_witness msg = msg \<and> bs = SerializeNoWitness msg @ rest"
  unfolding DeserializeNoWitness_def SerializeNoWitness_def by (rule BtcDecode_base_iff)

text \<open>
  C33: what the witness decoder accepts.  A transaction it returns is within the limits, and
  the input is its serialization, or, when none of its inputs has a witness item, the same
  with the superfluous marker, flag and empty witness lists.
\<close>

theorem tx_witness_decode_canonical:
  assumes "Deserialize bs = Inr (msg, rest)"
  shows "valid_MsgTx msg \<and>
    (bs = Serialize msg @ rest \<or>
     bs = tx_image True msg @ rest \<and> list_all (\<lambda>ti. ti_Witness ti = Some []) (tx_TxIn msg))"
  using BtcDecode_witness_canonical assms by (simp add: Deserialize_def Serialize_def)

theorem tx_witness_decode_canonical_witness:
  "valid_MsgTx sample_tx \<and> Deserialize (Serialize sample_tx) = Inr (sample_tx, [])"
proof -
  have v: "valid_MsgTx sample_tx" "tx_TxIn sample_tx \<noteq> []" "normal_witness sample_tx = sample_tx"
    by (simp_all add: sample_tx_simps normal_witness_def fill_TxIn_def)
  then have "Deserialize (Serialize sample_tx) = Inr (sample_tx, [])"
    using witnesstx.get_put_Nil by (simp add: Deserialize_def Serialize_def)
  then show ?thesis using tx_witness_decode_canonical by blast
qed

text \<open>
  C29: sizes.  The sizes computed for a transaction are the lengths of its two
  serializations, for all counts and script lengths.
\<close>

theorem tx_sizes:
  assumes "valid_hashes msg"
  shows "length (Serialize msg) = SerializeSize msg \<and>
    length (SerializeNoWitness msg) = SerializeSizeStripped msg"
  using assms
  by (simp_all add: Serialize_def SerializeNoWitness_def length_BtcEncode_witness length_BtcEncode_base)

theorem tx_sizes_witness:
  "valid_hashes sample_tx \<and> length (Serialize sample_tx) = SerializeSize sample_tx \<and>
   length (SerializeNoWitness sample_tx) = SerializeSizeStripped sample_tx"
proof -
  have "valid_hashes sample_tx" by (simp add: sample_tx_simps)
  with tx_sizes [of sample_tx] show ?thesis by simp
qed

text \<open>
  C34: script offsets.  When the first input has a non-nil witness exactly if the transaction
  has witness data, every offset returned by \<open>PkScriptLocs\<close> is where that output's
  public key script starts in the serialized transaction.
\<close>

theorem tx_pkscript_locs:
  assumes "valid_hashes msg"
    and "(tx_TxIn msg \<noteq> [] \<and> ti_Witness (tx_TxIn msg ! 0) \<noteq> None) = HasWitness msg"
    and "i < length (tx_TxOut msg)"
  shows "length (PkScriptLocs msg) = length (tx_TxOut msg) \<and>
    take (length (to_PkScript (tx_TxOut msg ! i))) (drop (PkScriptLocs msg ! i) (Serialize msg)) =
      to_PkScript (tx_TxOut msg ! i)"
  by (rule PkScriptLocs_point [OF assms])

theorem tx_pkscript_locs_witness:
  "take 2 (drop (PkScriptLocs sample_tx ! 0) (Serialize sample_tx)) = [0x6a, 0x00]"
  using tx_pkscript_locs [of sample_tx 0] by (simp add: sample_tx_simps numeral_2_eq_2)

end
