(* ===== verification/Sha256.thy ===== *)
theory Sha256
  imports Prelude
begin

unbundle bit_operations_syntax

text \<open>
  SHA-256 as specified in FIPS 180-4 (Go's \<^verbatim>\<open>crypto/sha256\<close>, of which the program uses
  \<^verbatim>\<open>Sum256\<close>), and the double hash of \<^verbatim>\<open>chaincfg/chainhash/hashfuncs.go\<close>.\<close>

section \<open>The compression function\<close>

text \<open>
  The constants are the first 32 bits of the fractional parts of the square roots of the
  first eight primes and of the cube roots of the first 64 primes.  \<open>int_root b k n\<close> finds the
  integer \<open>k\<close>-th root of \<open>n\<close> bit by bit; 35 bits are enough for roots below \<open>8 * 2 ^ 32\<close>.
\<close>

primrec int_root :: "nat \<Rightarrow> nat \<Rightarrow> nat \<Rightarrow> nat \<Rightarrow> nat" where
  "int_root 0 k n r = r"
| "int_root (Suc b) k n r = int_root b k n (if (r + 2 ^ b) ^ k \<le> n then r + 2 ^ b else r)"

definition root_frac :: "nat \<Rightarrow> nat \<Rightarrow> uint32" where
  "root_frac k p = word_of_nat (int_root 35 k (p * 2 ^ (32 * k)) 0)"

definition sha_primes :: "nat list" where
  "sha_primes =
    [2, 3, 5, 7, 11, 13, 17, 19, 23, 29, 31, 37, 41, 43, 47, 53,
     59, 61, 67, 71, 73, 79, 83, 89, 97, 101, 103, 107, 109, 113, 127, 131,
     137, 139, 149, 151, 157, 163, 167, 173, 179, 181, 191, 193, 197, 199, 211, 223,
     227, 229, 233, 239, 241, 251, 257, 263, 269, 271, 277, 281, 283, 293, 307, 311]"

definition sha_K :: "uint32 list" where
  "sha_K = map (root_frac 3) sha_primes"

definition sha_H0 :: "uint32 list" where
  "sha_H0 = map (root_frac 2) (take 8 sha_primes)"

lemma int_root_spec:
  assumes "r ^ k \<le> n" "n < (r + 2 ^ b) ^ k"
  shows "int_root b k n r ^ k \<le> n \<and> n < (int_root b k n r + 1) ^ k"
  using assms
proof (induction b arbitrary: r)
  case (Suc b)
  have "n < (r + 2 ^ b + 2 ^ b) ^ k" using Suc.prems(2) by (simp add: mult_2 add.assoc)
  with Suc.prems(1) show ?case using Suc.IH [of r] Suc.IH [of "r + 2 ^ b"] by simp
qed simp

definition rotr :: "nat \<Rightarrow> uint32 \<Rightarrow> uint32" where
  "rotr n x = drop_bit n x OR push_bit (32 - n) x"

definition bsig0 :: "uint32 \<Rightarrow> uint32" where
  "bsig0 x = rotr 2 x XOR rotr 13 x XOR rotr 22 x"

definition bsig1 :: "uint32 \<Rightarrow> uint32" where
  "bsig1 x = rotr 6 x XOR rotr 11 x XOR rotr 25 x"

definition ssig0 :: "uint32 \<Rightarrow> uint32" where
  "ssig0 x = rotr 7 x XOR rotr 18 x XOR drop_bit 3 x"

definition ssig1 :: "uint32 \<Rightarrow> uint32" where
  "ssig1 x = rotr 17 x XOR rotr 19 x XOR drop_bit 10 x"

definition sha_ch :: "uint32 \<Rightarrow> uint32 \<Rightarrow> uint32 \<Rightarrow> uint32" where
  "sha_ch x y z = (x AND y) XOR (NOT x AND z)"

definition sha_maj :: "uint32 \<Rightarrow> uint32 \<Rightarrow> uint32 \<Rightarrow> uint32" where
  "sha_maj x y z = (x AND y) XOR (x AND z) XOR (y AND z)"

text \<open>The message schedule, latest word first.\<close>

primrec sha_schedule :: "nat \<Rightarrow> uint32 list \<Rightarrow> uint32 list" where
  "sha_schedule 0 ws = ws"
| "sha_schedule (Suc n) ws =
     sha_schedule n ((ssig1 (ws ! 1) + ws ! 6 + ssig0 (ws ! 14) + ws ! 15) # ws)"

fun sha_round :: "uint32 list \<Rightarrow> uint32 \<times> uint32 \<Rightarrow> uint32 list" where
  "sha_round [a, b, c, d, e, f, g, h] (k, w) =
     (let t1 = h + bsig1 e + sha_ch e f g + k + w;
          t2 = bsig0 a + sha_maj a b c
      in [t1 + t2, a, b, c, d + t1, e, f, g])"
| "sha_round s _ = s"

primrec be_words :: "nat \<Rightarrow> byte list \<Rightarrow> uint32 list" where
  "be_words 0 bs = []"
| "be_words (Suc n) bs = word_of_nat (le_nat (rev (take 4 bs))) # be_words n (drop 4 bs)"

definition sha_block :: "uint32 list \<Rightarrow> byte list \<Rightarrow> uint32 list" where
  "sha_block st block =
     map2 (+) st (foldl sha_round st
       (zip sha_K (rev (sha_schedule 48 (rev (be_words 16 block))))))"

primrec sha_blocks :: "nat \<Rightarrow> uint32 list \<Rightarrow> byte list \<Rightarrow> uint32 list" where
  "sha_blocks 0 st bs = st"
| "sha_blocks (Suc n) st bs = sha_blocks n (sha_block st (take 64 bs)) (drop 64 bs)"

definition sha_pad :: "byte list \<Rightarrow> byte list" where
  "sha_pad msg =
     msg @ [0x80] @ replicate ((119 - length msg mod 64) mod 64) 0 @ rev (le_bytes 8 (8 * length msg))"

definition Sum256 :: "byte list \<Rightarrow> hash" where
  "Sum256 msg =
     concat (map (\<lambda>w. rev (le_bytes 4 (unat w)))
       (sha_blocks (length (sha_pad msg) div 64) sha_H0 (sha_pad msg)))"

definition DoubleHashH :: "byte list \<Rightarrow> hash" where
  "DoubleHashH b = Sum256 (Sum256 b)"

section \<open>The result is a hash\<close>

lemma length_sha_round: "length (sha_round st kw) = length st"
  by (cases "(st, kw)" rule: sha_round.cases) (simp_all add: Let_def)

lemma length_sha_rounds: "length (foldl sha_round st kws) = length st"
  by (induction kws arbitrary: st) (simp_all add: length_sha_round)

lemma length_sha_block: "length (sha_block st block) = length st"
  by (simp add: sha_block_def length_sha_rounds)

lemma length_sha_blocks: "length (sha_blocks n st bs) = length st"
  by (induction n arbitrary: st bs) (simp_all add: length_sha_block)

lemma is_hash_Sum256 [simp]: "is_hash (Sum256 msg)"
proof -
  have "length (concat (map (\<lambda>w. rev (le_bytes 4 (unat w))) ws)) = 4 * length ws" for ws :: "uint32 list"
    by (induction ws) simp_all
  then show ?thesis
    by (simp add: is_hash_def HashSize_def Sum256_def length_sha_blocks sha_H0_def sha_primes_def)
qed

lemma is_hash_DoubleHashH [simp]: "is_hash (DoubleHashH b)"
  by (simp add: DoubleHashH_def)

end
