(* ===== verification/Merkle.thy ===== *)
theory Merkle
  imports Wire_Tx Sha256
begin

unbundle bit_operations_syntax

text \<open>
  Merkle roots (\<^verbatim>\<open>blockchain/merkle.go\<close>, \<^verbatim>\<open>blockchain/rolling_merkle.go\<close>): the tree stored as a
  linear array, the rolling computation that keeps one root per set bit of the number of
  leaves, and the branch that proves a leaf.  Array positions and lengths are natural
  numbers; the leaf counter of the rolling store keeps its 64 bits.  A nil hash pointer is
  \<open>None\<close>.  An index out of range, a nil dereference and a negative allocation are panics,
  the outer \<open>None\<close> of a result.
\<close>

section \<open>Transaction hashes\<close>

definition TxHash :: "MsgTx \<Rightarrow> hash" where
  "TxHash msg = DoubleHashH (SerializeNoWitness msg)"

definition WitnessHash :: "MsgTx \<Rightarrow> hash" where
  "WitnessHash msg = (if HasWitness msg then DoubleHashH (Serialize msg) else TxHash msg)"

section \<open>The tree as an array\<close>

text \<open>
  \<^verbatim>\<open>uint(math.Log2(float64(n)))\<close> is the integer logarithm as long as the quotient of the
  floating point logarithm is not rounded up to the next integer, which is the case for any
  number of transactions a block can have.
\<close>

fun log2 :: "nat \<Rightarrow> nat" where
  "log2 n = (if n \<le> 1 then 0 else log2 (n div 2) + 1)"

declare log2.simps [simp del]

definition nextPowerOfTwo :: "nat \<Rightarrow> nat" where
  "nextPowerOfTwo n = (if n = 0 \<or> n AND (n - 1) = 0 then n else push_bit (log2 n + 1) 1)"

definition HashMerkleBranches :: "hash \<Rightarrow> hash \<Rightarrow> hash" where
  "HashMerkleBranches left right = DoubleHashH (left @ right)"

definition merkleLeaf :: "bool \<Rightarrow> nat \<Rightarrow> MsgTx \<Rightarrow> hash" where
  "merkleLeaf witness i tx =
     (if witness \<and> i = 0 then zeroHash else if witness then WitnessHash tx else TxHash tx)"

definition merkleLeaves :: "bool \<Rightarrow> MsgTx list \<Rightarrow> hash list" where
  "merkleLeaves witness transactions =
     map (\<lambda>(i, tx). merkleLeaf witness i tx) (enumerate 0 transactions)"

definition merkleParent :: "hash option \<Rightarrow> hash option \<Rightarrow> hash option" where
  "merkleParent l r =
     (case l of None \<Rightarrow> None
      | Some x \<Rightarrow>
          (case r of None \<Rightarrow> Some (HashMerkleBranches x x) | Some y \<Rightarrow> Some (HashMerkleBranches x y)))"

text \<open>The loop \<^verbatim>\<open>for i := 0; i < arraySize-1; i += 2\<close>; its \<open>k\<close>-th turn has \<open>i = 2 * k\<close>.\<close>

primrec buildLoop :: "nat \<Rightarrow> nat \<Rightarrow> nat \<Rightarrow> hash option list \<Rightarrow> hash option list" where
  "buildLoop 0 i offset merkles = merkles"
| "buildLoop (Suc n) i offset merkles =
     buildLoop n (i + 2) (offset + 1)
       (merkles[offset := merkleParent (merkles ! i) (merkles ! (i + 1))])"

definition BuildMerkleTreeStore :: "MsgTx list \<Rightarrow> bool \<Rightarrow> hash option list option" where
  "BuildMerkleTreeStore transactions witness =
     (let nextPoT = nextPowerOfTwo (length transactions) in
      if nextPoT = 0 then None
      else
        let arraySize = nextPoT * 2 - 1;
            leaves = map Some (merkleLeaves witness transactions);
            merkles = leaves @ replicate (arraySize - length leaves) None
        in Some (buildLoop ((arraySize - 1) div 2) 0 nextPoT merkles))"

section \<open>The rolling store\<close>

record rollingMerkleTreeStore =
  roots :: "hash list"
  numLeaves :: uint64

definition newRollingMerkleTreeStore :: rollingMerkleTreeStore where
  "newRollingMerkleTreeStore = \<lparr>roots = [], numLeaves = 0\<rparr>"

text \<open>Merging the new root with the roots of the low set bits; \<open>None\<close> when a root is missing.\<close>

function mergeRoots :: "uint64 \<Rightarrow> nat \<Rightarrow> hash list \<Rightarrow> hash \<Rightarrow> (hash list \<times> hash) option" where
  "mergeRoots n h rs newRoot =
     (if drop_bit h n AND 1 = 1 then
        (if rs = [] then None
         else mergeRoots n (h + 1) (butlast rs) (HashMerkleBranches (last rs) newRoot))
      else Some (rs, newRoot))"
  by pat_completeness auto

lemma drop_bit_and_1: "(drop_bit h n AND 1 = (1 :: uint64)) = bit n h"
  by (simp add: and_one_eq mod2_eq_if bit_iff_odd_drop_bit)

lemma bit_less_64: "bit (n :: uint64) h \<Longrightarrow> h < 64"
  using bit_imp_le_length [of n h] by simp

termination mergeRoots
  by (relation "measure (\<lambda>(n, h, _). 64 - h)") (auto simp: drop_bit_and_1 dest: bit_less_64)

declare mergeRoots.simps [simp del]

definition rolling_add :: "hash \<Rightarrow> rollingMerkleTreeStore \<Rightarrow> rollingMerkleTreeStore option" where
  "rolling_add new s =
     (case mergeRoots (numLeaves s) 0 (roots s) new of
        None \<Rightarrow> None
      | Some (rs, newRoot) \<Rightarrow> Some \<lparr>roots = rs @ [newRoot], numLeaves = numLeaves s + 1\<rparr>)"

fun rolling_adds :: "hash list \<Rightarrow> rollingMerkleTreeStore \<Rightarrow> rollingMerkleTreeStore option" where
  "rolling_adds [] s = Some s"
| "rolling_adds (x # xs) s = Option.bind (rolling_add x s) (rolling_adds xs)"

text \<open>
  The two nested loops.  The inner one does not end when no bit is set, the outer one only
  when a single root is left, so both are partial.
\<close>

partial_function (option) shiftLeaves :: "uint64 \<Rightarrow> nat \<Rightarrow> uint64 \<Rightarrow> uint64 option" where
  "shiftLeaves currentLeaves h n =
     (if drop_bit h currentLeaves AND 1 = 0 then shiftLeaves currentLeaves (h + 1) (drop_bit 1 n)
      else Some n)"

partial_function (option) foldRoots :: "rollingMerkleTreeStore \<Rightarrow> rollingMerkleTreeStore option" where
  "foldRoots s =
     (if length (roots s) > 1 then
        Option.bind (shiftLeaves (numLeaves s) 0 (numLeaves s)) (\<lambda>n.
        Option.bind (rolling_add (last (roots s)) (s\<lparr>numLeaves := n\<rparr>)) foldRoots)
      else Some s)"

definition rootAt0 :: "rollingMerkleTreeStore \<Rightarrow> hash option" where
  "rootAt0 s = (if roots s = [] then None else Some (roots s ! 0))"

definition calcMerkleRoot :: "MsgTx list \<Rightarrow> bool \<Rightarrow> rollingMerkleTreeStore \<Rightarrow> hash option" where
  "calcMerkleRoot adds witness s =
     Option.bind (rolling_adds (merkleLeaves witness adds) s) (\<lambda>s.
       if numLeaves s = 1 then rootAt0 s
       else
         Option.bind
           (if length adds > 0 \<and> length adds mod 2 \<noteq> 0 then
              rolling_add (if witness then WitnessHash (last adds) else TxHash (last adds)) s
            else Some s) (\<lambda>s.
         Option.bind (foldRoots s) rootAt0))"

definition CalcMerkleRoot :: "MsgTx list \<Rightarrow> bool \<Rightarrow> hash option" where
  "CalcMerkleRoot transactions witness = calcMerkleRoot transactions witness newRollingMerkleTreeStore"

section \<open>Branches\<close>

fun bitLen :: "nat \<Rightarrow> nat" where
  "bitLen n = (if n = 0 then 0 else bitLen (n div 2) + 1)"

declare bitLen.simps [simp del]

definition treeRows :: "nat \<Rightarrow> nat" where
  "treeRows n = (if n = 0 then 0 else bitLen (n - 1))"

definition sibling :: "nat \<Rightarrow> nat" where
  "sibling pos = pos XOR 1"

definition parent :: "nat \<Rightarrow> nat \<Rightarrow> nat" where
  "parent position forestRows = drop_bit 1 position OR push_bit forestRows 1"

text \<open>The search dereferences every leaf it passes, and a nil leaf is a panic.\<close>

fun findLeaf :: "hash option list \<Rightarrow> hash \<Rightarrow> nat \<Rightarrow> nat option option" where
  "findLeaf [] txHash i = Some None"
| "findLeaf (None # ms) txHash i = None"
| "findLeaf (Some m # ms) txHash i = (if m = txHash then Some (Some i) else findLeaf ms txHash (i + 1))"

primrec branchLoop :: "nat \<Rightarrow> hash option list \<Rightarrow> nat \<Rightarrow> nat \<Rightarrow> hash option list" where
  "branchLoop 0 merkles forestRows idx = []"
| "branchLoop (Suc n) merkles forestRows idx =
     (if merkles ! idx = None then merkles ! sibling idx else merkles ! idx) #
     branchLoop n merkles forestRows (sibling (parent idx forestRows))"

definition ExtractMerkleBranch :: "hash option list \<Rightarrow> hash \<Rightarrow> hash option list option option" where
  "ExtractMerkleBranch merkles txHash =
     (let numLeaves = (length merkles + 1) div 2 in
      case findLeaf (take numLeaves merkles) txHash 0 of
        None \<Rightarrow> None
      | Some None \<Rightarrow> Some None
      | Some (Some idx) \<Rightarrow>
          (let forestRows = treeRows numLeaves
           in Some (Some (branchLoop forestRows merkles forestRows (sibling idx)))))"

definition isLeftNode :: "nat \<Rightarrow> bool" where
  "isLeftNode position \<longleftrightarrow> position AND 1 = 0"

fun hashUp :: "nat \<Rightarrow> hash option list \<Rightarrow> hash \<Rightarrow> nat \<Rightarrow> hash" where
  "hashUp i [] result pos = result"
| "hashUp i (merkle # merkles) result pos =
     (let h = (case merkle of Some m \<Rightarrow> m | None \<Rightarrow> result);
          result = (if isLeftNode (drop_bit i pos) then HashMerkleBranches result h
                    else HashMerkleBranches h result)
      in hashUp (i + 1) merkles result pos)"

definition HashMerkleRoot :: "hash option list \<Rightarrow> hash \<Rightarrow> nat \<Rightarrow> hash" where
  "HashMerkleRoot merkles target pos = hashUp 0 merkles target pos"

section \<open>The root, row by row\<close>

text \<open>
  The reference: each row hashes neighbours, an odd last node with itself, until one node
  is left.
\<close>

fun merkleRow :: "hash list \<Rightarrow> hash list" where
  "merkleRow [] = []"
| "merkleRow [x] = [HashMerkleBranches x x]"
| "merkleRow (x # y # xs) = HashMerkleBranches x y # merkleRow xs"

lemma length_merkleRow: "length (merkleRow xs) = (length xs + 1) div 2"
  by (induction xs rule: merkleRow.induct) simp_all

function merkle_root :: "hash list \<Rightarrow> hash" where
  "merkle_root xs = (if length xs \<le> 1 then hd xs else merkle_root (merkleRow xs))"
  by pat_completeness auto
termination
  by (relation "measure length") (auto simp: length_merkleRow)

declare merkle_root.simps [simp del]

lemma merkle_root_single [simp]: "merkle_root [x] = x"
  by (simp add: merkle_root.simps)

lemma merkle_root_row: "length xs \<ge> 2 \<Longrightarrow> merkle_root xs = merkle_root (merkleRow xs)"
  by (simp add: merkle_root.simps [of xs])

section \<open>The array holds the rows\<close>

fun parentRow :: "hash option list \<Rightarrow> hash option list" where
  "parentRow (x # y # xs) = merkleParent x y # parentRow xs"
| "parentRow _ = []"

lemma length_parentRow: "length (parentRow xs) = length xs div 2"
  by (induction xs rule: parentRow.induct) simp_all

lemma nth_parentRow:
  "2 * i + 1 < length xs \<Longrightarrow> parentRow xs ! i = merkleParent (xs ! (2 * i)) (xs ! (2 * i + 1))"
  by (induction xs arbitrary: i rule: parentRow.induct) (auto simp: nth_Cons split: nat.splits)

function rowTree :: "hash option list \<Rightarrow> hash option list" where
  "rowTree xs = (if length xs \<le> 1 then xs else xs @ rowTree (parentRow xs))"
  by pat_completeness auto
termination
  by (relation "measure length") (auto simp: length_parentRow)

declare rowTree.simps [simp del]

lemma rowTree_step: "length xs = 2 ^ Suc d \<Longrightarrow> rowTree xs = xs @ rowTree (parentRow xs)"
proof -
  assume "length xs = 2 ^ Suc d"
  then have "length xs \<ge> 2" by simp
  then have "\<not> length xs \<le> 1" by linarith
  then show ?thesis by (simp add: rowTree.simps [of xs])
qed

lemma length_rowTree: "length xs = 2 ^ d \<Longrightarrow> length (rowTree xs) = 2 * 2 ^ d - 1"
proof (induction d arbitrary: xs)
  case 0
  then show ?case by (simp add: rowTree.simps)
next
  case (Suc d)
  have "(1 :: nat) \<le> 2 ^ d" by simp
  with Suc.IH [of "parentRow xs"] Suc.prems show ?case
    by (simp add: rowTree_step [OF Suc.prems] length_parentRow)
qed

lemma nth_rowTree:
  "length xs = 2 ^ d \<Longrightarrow> i < 2 ^ d - 1 \<Longrightarrow>
     rowTree xs ! (2 ^ d + i) = merkleParent (rowTree xs ! (2 * i)) (rowTree xs ! (2 * i + 1))"
proof (induction d arbitrary: xs i)
  case 0
  then show ?case by simp
next
  case (Suc d)
  note step = rowTree_step [OF Suc.prems(1)]
  have len: "length (parentRow xs) = 2 ^ d" using Suc.prems by (simp add: length_parentRow)
  have len': "length (rowTree (parentRow xs)) = 2 * 2 ^ d - 1" by (rule length_rowTree [OF len])
  show ?case
  proof (cases "i < 2 ^ d")
    case True
    have "rowTree (parentRow xs) ! i = parentRow xs ! i"
      using True len by (cases "length (parentRow xs) \<le> 1"; simp add: rowTree.simps [of "parentRow xs"] nth_append)
    also have "\<dots> = merkleParent (xs ! (2 * i)) (xs ! (2 * i + 1))"
      using True Suc.prems by (simp add: nth_parentRow)
    finally show ?thesis using True Suc.prems by (simp add: step nth_append)
  next
    case False
    then obtain j where i: "i = 2 ^ d + j" using le_Suc_ex not_less by blast
    with Suc.prems have "j < 2 ^ d - 1" by simp
    from Suc.IH [OF len this] show ?thesis
      using Suc.prems by (simp add: step nth_append i)
  qed
qed

lemma buildLoop_rowTree:
  assumes "length row = 2 ^ d" "n + k = 2 ^ d - 1"
    "take (2 ^ d + k) arr = take (2 ^ d + k) (rowTree row)" "length arr = 2 * 2 ^ d - 1"
  shows "buildLoop n (2 * k) (2 ^ d + k) arr = rowTree row"
  using assms(2-)
proof (induction n arbitrary: k arr)
  case 0
  have "length (rowTree row) = 2 * 2 ^ d - 1" by (rule length_rowTree [OF assms(1)])
  with 0 show ?case by simp
next
  case (Suc n)
  let ?arr = "arr[2 ^ d + k := merkleParent (arr ! (2 * k)) (arr ! (2 * k + 1))]"
  have len: "length (rowTree row) = 2 * 2 ^ d - 1" by (rule length_rowTree [OF assms(1)])
  have k: "k < 2 ^ d - 1" using Suc.prems(1) by simp
  have low: "arr ! j = rowTree row ! j" if "j < 2 ^ d + k" for j
    using Suc.prems(2) that by (metis nth_take)
  have "merkleParent (arr ! (2 * k)) (arr ! (2 * k + 1)) = rowTree row ! (2 ^ d + k)"
    using k low [of "2 * k"] low [of "2 * k + 1"] nth_rowTree [OF assms(1) k] by simp
  then have "take (2 ^ d + Suc k) ?arr = take (2 ^ d + Suc k) (rowTree row)"
    using Suc.prems k len by (simp add: take_Suc_conv_app_nth)
  with Suc.IH [of "Suc k" ?arr] Suc.prems show ?case by simp
qed

text \<open>Padding a row with nil nodes up to a power of two.\<close>

lemma parentRow_pad:
  "even (length xs + k) \<Longrightarrow>
     parentRow (map Some xs @ replicate k None) =
       map Some (merkleRow xs) @ replicate ((length xs + k) div 2 - length (merkleRow xs)) None"
proof (induction xs rule: merkleRow.induct)
  case 1
  have "parentRow (replicate (2 * j) None) = replicate j None" for j
    by (induction j) (simp_all add: merkleParent_def)
  with 1 show ?case by (auto elim: evenE)
next
  case (2 x)
  have "parentRow (replicate (2 * j) None) = replicate j None" for j
    by (induction j) (simp_all add: merkleParent_def)
  moreover from 2 obtain j where "k = Suc (2 * j)" by (auto elim!: oddE)
  ultimately show ?case by (simp add: merkleParent_def)
next
  case (3 x y xs)
  then show ?case by (simp add: merkleParent_def length_merkleRow)
qed

lemma last_rowTree_pad:
  assumes "length xs + k = 2 ^ d" "2 ^ d < 2 * length xs"
  shows "rowTree (map Some xs @ replicate k None) \<noteq> [] \<and>
    last (rowTree (map Some xs @ replicate k None)) = Some (merkle_root xs)"
  using assms
proof (induction d arbitrary: xs k)
  case 0
  then obtain x where "xs = [x]" "k = 0" by (cases xs) auto
  then show ?case by (simp add: rowTree.simps)
next
  case (Suc d)
  have n: "length xs \<ge> 2" using Suc.prems by (cases d) auto
  let ?row = "map Some xs @ replicate k None"
  let ?k = "2 ^ d - length (merkleRow xs)"
  have "length ?row = 2 ^ Suc d" using Suc.prems by simp
  then have step: "rowTree ?row = ?row @ rowTree (parentRow ?row)" by (rule rowTree_step)
  have up: "parentRow ?row = map Some (merkleRow xs) @ replicate ?k None"
    using Suc.prems by (subst parentRow_pad) simp_all
  have "length (merkleRow xs) \<le> 2 ^ d" "2 ^ d < 2 * length (merkleRow xs)"
    using Suc.prems by (auto simp: length_merkleRow)
  with Suc.IH [of "merkleRow xs" ?k] show ?case
    by (simp add: step up merkle_root_row [OF n])
qed

section \<open>Powers of two\<close>

lemma log2_bounds: "n > 0 \<Longrightarrow> 2 ^ log2 n \<le> n \<and> n < 2 ^ (log2 n + 1)"
proof (induction n rule: log2.induct)
  case (1 n)
  show ?case
  proof (cases "n \<le> 1")
    case True
    with 1 show ?thesis by (simp add: log2.simps [of n])
  next
    case False
    with 1 have "2 ^ log2 (n div 2) \<le> n div 2" "n div 2 < 2 ^ (log2 (n div 2) + 1)" by simp_all
    then have "2 * 2 ^ log2 (n div 2) \<le> n" "n < 2 * 2 ^ (log2 (n div 2) + 1)" by linarith+
    with False show ?thesis by (simp add: log2.simps [of n])
  qed
qed

lemma and_pred_power:
  fixes n :: nat
  assumes "n > 0" "n AND (n - 1) = 0"
  shows "\<exists>d. n = 2 ^ d"
  using assms
proof (induction n rule: less_induct)
  case (less n)
  show ?case
  proof (cases "even n")
    case True
    then obtain m where m: "n = 2 * m" by (elim evenE)
    then have pred: "n - 1 = 2 * (m - 1) + 1" using less.prems by simp
    have "n AND (n - 1) = 2 * (m AND (m - 1))"
      unfolding pred unfolding m by (subst and_rec) simp
    with less.prems m less.IH [of m] obtain d where "m = 2 ^ d" by auto
    then show ?thesis using m by (intro exI [of _ "Suc d"]) simp
  next
    case False
    then obtain m where m: "n = 2 * m + 1" by (elim oddE)
    have "n AND (n - 1) = 2 * (m AND m)" unfolding m by (subst and_rec) simp
    with less.prems m show ?thesis by (intro exI [of _ 0]) simp
  qed
qed

lemma nextPowerOfTwo_spec:
  assumes "n > 0"
  obtains d where "nextPowerOfTwo n = 2 ^ d" "n \<le> 2 ^ d" "2 ^ d < 2 * n"
proof (cases "n AND (n - 1) = 0")
  case True
  with and_pred_power assms obtain d where "n = 2 ^ d" by blast
  with True assms show thesis by (intro that [of d]) (auto simp: nextPowerOfTwo_def)
next
  case False
  have b: "2 ^ log2 n \<le> n" "n < 2 ^ (log2 n + 1)" using log2_bounds [OF assms] by simp_all
  have "2 ^ log2 n \<noteq> n"
  proof
    assume "2 ^ log2 n = n"
    moreover have "(2 :: nat) ^ d AND (2 ^ d - 1) = 0" for d
      by (simp only: mask_eq_exp_minus_1 [symmetric] take_bit_eq_mask [symmetric])
        (simp add: take_bit_eq_mod)
    ultimately show False using False by metis
  qed
  with b False assms show thesis
    by (intro that [of "log2 n + 1"]) (simp_all add: nextPowerOfTwo_def push_bit_eq_mult)
qed

lemma length_merkleLeaves [simp]: "length (merkleLeaves w txs) = length txs"
  by (simp add: merkleLeaves_def)

lemma BuildMerkleTreeStore_rows:
  assumes "txs \<noteq> []"
  obtains d where "length txs \<le> 2 ^ d" "2 ^ d < 2 * length txs"
    "BuildMerkleTreeStore txs w =
       Some (rowTree (map Some (merkleLeaves w txs) @ replicate (2 ^ d - length txs) None))"
proof -
  from assms obtain d where d: "nextPowerOfTwo (length txs) = 2 ^ d" "length txs \<le> 2 ^ d"
    "2 ^ d < 2 * length txs"
    using nextPowerOfTwo_spec [of "length txs"] by auto
  let ?row = "map Some (merkleLeaves w txs) @ replicate (2 ^ d - length txs) None"
  let ?arr = "map Some (merkleLeaves w txs) @ replicate (2 * 2 ^ d - 1 - length txs) None"
  have one: "(1 :: nat) \<le> 2 ^ d" by simp
  have row: "length ?row = 2 ^ d" using d by simp
  have "take (2 ^ d) (rowTree ?row) = ?row"
    using row by (cases "length ?row \<le> 1"; subst rowTree.simps) simp_all
  moreover have "take (2 ^ d) ?arr = ?row" using d one by (simp add: min_def)
  ultimately have "take (2 ^ d) ?arr = take (2 ^ d) (rowTree ?row)" by simp
  then have "buildLoop (2 ^ d - 1) 0 (2 ^ d) ?arr = rowTree ?row"
    using buildLoop_rowTree [OF row, of "2 ^ d - 1" 0 ?arr] d one by simp
  moreover have "(2 ^ d * 2 - 1 - 1) div 2 = (2 ^ d - 1 :: nat)" by (cases "2 ^ d :: nat") simp_all
  ultimately have "BuildMerkleTreeStore txs w = Some (rowTree ?row)"
    by (simp add: BuildMerkleTreeStore_def d(1) Let_def mult.commute)
  with d show thesis by (intro that) auto
qed

section \<open>The rolling store holds one root per set bit\<close>

fun fullPairs :: "hash list \<Rightarrow> hash list" where
  "fullPairs (x # y # xs) = HashMerkleBranches x y # fullPairs xs"
| "fullPairs _ = []"

lemma length_fullPairs: "length (fullPairs xs) = length xs div 2"
  by (induction xs rule: fullPairs.induct) simp_all

function forest :: "hash list \<Rightarrow> hash list" where
  "forest xs =
     (if xs = [] then [] else forest (fullPairs xs) @ (if odd (length xs) then [last xs] else []))"
  by pat_completeness auto
termination
  by (relation "measure length") (auto simp: length_fullPairs)

declare forest.simps [simp del]

lemma forest_Nil [simp]: "forest [] = []"
  by (simp add: forest.simps)

lemma forest_even: "even (length xs) \<Longrightarrow> forest xs = forest (fullPairs xs)"
  by (cases "xs = []") (simp_all add: forest.simps [of xs])

lemma forest_odd: "odd (length xs) \<Longrightarrow> forest xs = forest (fullPairs xs) @ [last xs]"
  by (cases "xs = []") (simp_all add: forest.simps [of xs])

lemma fullPairs_snoc_even: "even (length xs) \<Longrightarrow> fullPairs (xs @ [a]) = fullPairs xs"
  by (induction xs rule: fullPairs.induct) simp_all

lemma fullPairs_snoc_odd:
  "odd (length xs) \<Longrightarrow> fullPairs (xs @ [a]) = fullPairs xs @ [HashMerkleBranches (last xs) a]"
proof (induction xs rule: fullPairs.induct)
  case (1 x y xs)
  then have "xs \<noteq> []" by auto
  with 1 show ?case by simp
qed simp_all

lemma forest_eq_Nil: "forest xs = [] \<longleftrightarrow> xs = []"
proof (induction xs rule: forest.induct)
  case (1 xs)
  show ?case
  proof (cases "even (length xs) \<and> xs \<noteq> []")
    case True
    then have "length xs \<ge> 2" by (cases xs rule: fullPairs.cases) auto
    then have "fullPairs xs \<noteq> []" by (cases xs rule: fullPairs.cases) auto
    with 1 True show ?thesis by (simp add: forest_even)
  next
    case False
    then show ?thesis by (auto simp: forest_odd)
  qed
qed

text \<open>Merging follows the carries of adding one to the number of leaves.\<close>

lemma bit_odd_drop: "bit (n :: uint64) h = odd (unat (drop_bit h n))"
proof -
  have "bit n h = bit (unat n) h" by (simp add: bit_unsigned_iff)
  then show ?thesis by (simp add: unat_drop_bit bit_iff_odd)
qed

lemma mergeRoots_forest:
  assumes "unat (drop_bit h n) = length xs"
  shows "\<exists>rs r. mergeRoots n h (forest xs) a = Some (rs, r) \<and> rs @ [r] = forest (xs @ [a])"
  using assms
proof (induction "length xs" arbitrary: h xs a rule: less_induct)
  case less
  show ?case
  proof (cases "odd (length xs)")
    case False
    with less.prems have "\<not> bit n h" by (simp add: bit_odd_drop)
    with False show ?thesis
      by (simp add: mergeRoots.simps [of n h] drop_bit_and_1 forest_odd fullPairs_snoc_even
          forest_even [of xs, symmetric])
  next
    case True
    with less.prems have "bit n h" by (simp add: bit_odd_drop)
    have "xs \<noteq> []" using True by auto
    then have "length (fullPairs xs) < length xs" by (simp add: length_fullPairs)
    moreover have "unat (drop_bit (h + 1) n) = length (fullPairs xs)"
      using less.prems
      by (simp only: unat_drop_bit length_fullPairs power_add div_mult2_eq power_one_right)
    ultimately obtain rs r where
      "mergeRoots n (h + 1) (forest (fullPairs xs)) (HashMerkleBranches (last xs) a) = Some (rs, r)"
      "rs @ [r] = forest (fullPairs xs @ [HashMerkleBranches (last xs) a])"
      using less.hyps [of "fullPairs xs" "h + 1" "HashMerkleBranches (last xs) a"] by auto
    with True \<open>bit n h\<close> show ?thesis
      by (simp add: mergeRoots.simps [of n h] drop_bit_and_1 forest_odd fullPairs_snoc_odd
          forest_even [of "xs @ [a]"])
  qed
qed

definition store_of :: "hash list \<Rightarrow> rollingMerkleTreeStore" where
  "store_of xs = \<lparr>roots = forest xs, numLeaves = word_of_nat (length xs)\<rparr>"

lemma rolling_add_store:
  assumes "length xs < 2 ^ 64"
  shows "rolling_add a (store_of xs) = Some (store_of (xs @ [a]))"
proof -
  have "unat (drop_bit 0 (word_of_nat (length xs) :: uint64)) = length xs"
    using assms by (simp add: unat_of_nat)
  from mergeRoots_forest [OF this, of a] obtain rs r where
    "mergeRoots (word_of_nat (length xs)) 0 (forest xs) a = Some (rs, r)" "rs @ [r] = forest (xs @ [a])"
    by blast
  then show ?thesis by (simp add: rolling_add_def store_of_def)
qed

lemma rolling_adds_store:
  "length xs + length ys \<le> 2 ^ 64 \<Longrightarrow> rolling_adds ys (store_of xs) = Some (store_of (xs @ ys))"
  by (induction ys arbitrary: xs) (simp_all add: rolling_add_store)

text \<open>Halving an even row changes neither the forest nor the root.\<close>

lemma merkleRow_even: "even (length xs) \<Longrightarrow> merkleRow xs = fullPairs xs"
  by (induction xs rule: merkleRow.induct) simp_all

lemma merkleRow_odd: "odd (length xs) \<Longrightarrow> merkleRow xs = fullPairs (xs @ [last xs])"
proof (induction xs rule: merkleRow.induct)
  case (3 x y xs)
  then have "xs \<noteq> []" by auto
  with 3 show ?case by simp
qed simp_all

lemma merkle_root_even:
  assumes "even (length xs)" "xs \<noteq> []"
  shows "merkle_root xs = merkle_root (fullPairs xs)"
proof -
  have "length xs \<ge> 2" using assms by (cases xs rule: fullPairs.cases) auto
  with assms show ?thesis by (simp add: merkle_root_row merkleRow_even)
qed

lemma merkle_root_dup:
  assumes "odd (length xs)" "length xs \<ge> 2"
  shows "merkle_root (xs @ [last xs]) = merkle_root xs"
  using assms by (simp add: merkle_root_even merkle_root_row [of xs] merkleRow_odd)

lemma shiftLeaves_forest:
  assumes "unat (drop_bit h n) = length xs" "xs \<noteq> []" "length xs < 2 ^ 64"
  shows "\<exists>ys. shiftLeaves n h (word_of_nat (length xs)) = Some (word_of_nat (length ys)) \<and>
    odd (length ys) \<and> forest ys = forest xs \<and> merkle_root ys = merkle_root xs \<and>
    length ys \<le> length xs \<and> (even (length xs) \<longrightarrow> 2 * length ys \<le> length xs)"
  using assms
proof (induction "length xs" arbitrary: h xs rule: less_induct)
  case less
  have bit: "(drop_bit h n AND 1 = 0) = even (length xs)"
    using less.prems(1) bit_odd_drop [of n h] drop_bit_and_1 [of h n]
    by (simp add: and_one_eq mod2_eq_if split: if_splits)
  show ?case
  proof (cases "odd (length xs)")
    case True
    with bit show ?thesis by (intro exI [of _ xs]) (simp add: shiftLeaves.simps [of n h])
  next
    case False
    let ?ys = "fullPairs xs"
    have ne: "?ys \<noteq> []" using False less.prems(2) by (cases xs rule: fullPairs.cases) auto
    have "length ?ys < length xs" using less.prems(2) by (simp add: length_fullPairs)
    moreover have "unat (drop_bit (h + 1) n) = length ?ys"
      using less.prems
      by (simp only: unat_drop_bit length_fullPairs power_add div_mult2_eq power_one_right)
    moreover have "drop_bit 1 (word_of_nat (length xs)) = (word_of_nat (length ?ys) :: uint64)"
      using less.prems(3) by (simp add: word_unat_eq_iff unat_drop_bit unat_of_nat length_fullPairs)
    ultimately obtain ys where
      ys: "shiftLeaves n h (word_of_nat (length xs)) = Some (word_of_nat (length ys))" "odd (length ys)"
        "forest ys = forest ?ys" "merkle_root ys = merkle_root ?ys" "length ys \<le> length ?ys"
      using less.hyps [of ?ys "h + 1"] less.prems ne False bit
      by (auto simp: shiftLeaves.simps [of n h])
    then have "2 * length ys \<le> length xs" by (simp add: length_fullPairs)
    with ys False less.prems(2) show ?thesis
      by (intro exI [of _ ys]) (simp add: forest_even [of xs] merkle_root_even [of xs])
  qed
qed

lemma forest_single:
  assumes "xs \<noteq> []" "length (forest xs) = 1"
  shows "forest xs = [merkle_root xs]"
  using assms
proof (induction xs rule: forest.induct)
  case (1 xs)
  show ?case
  proof (cases "odd (length xs)")
    case True
    with "1.prems" have "fullPairs xs = []" by (simp add: forest_odd forest_eq_Nil)
    with True obtain x where "xs = [x]" by (cases xs rule: fullPairs.cases) auto
    then show ?thesis by (simp add: forest.simps)
  next
    case False
    with "1.prems" have "fullPairs xs \<noteq> []" by (cases xs rule: fullPairs.cases) auto
    with False 1 show ?thesis by (simp add: forest_even merkle_root_even)
  qed
qed

lemma foldRoots_store:
  assumes "even (length xs)" "xs \<noteq> []" "length xs < 2 ^ 64"
  shows "\<exists>zs. foldRoots (store_of xs) = Some (store_of zs) \<and> forest zs = [merkle_root xs]"
  using assms
proof (induction "length xs" arbitrary: xs rule: less_induct)
  case less
  have u: "unat (drop_bit 0 (word_of_nat (length xs) :: uint64)) = length xs"
    using less.prems by (simp add: unat_of_nat)
  show ?case
  proof (cases "length (forest xs) > 1")
    case False
    with less.prems forest_eq_Nil [of xs] have "length (forest xs) = 1"
      by (metis One_nat_def Suc_lessI length_0_conv neq0_conv)
    with less.prems forest_single [of xs] show ?thesis
      by (intro exI [of _ xs] conjI, subst foldRoots.simps) (simp_all add: store_of_def)
  next
    case True
    obtain ys where ys: "shiftLeaves (word_of_nat (length xs)) 0 (word_of_nat (length xs)) =
        Some (word_of_nat (length ys))" "odd (length ys)" "forest ys = forest xs"
      "merkle_root ys = merkle_root xs" "length ys \<le> length xs" "2 * length ys \<le> length xs"
      using shiftLeaves_forest [OF u] less.prems by auto
    have "length ys \<noteq> 1"
    proof
      assume "length ys = 1"
      then obtain y where "ys = [y]" by (auto simp: length_Suc_conv)
      then have "forest ys = [y]" by (simp add: forest.simps)
      then have "forest xs = [y]" using ys(3) by metis
      with True show False by simp
    qed
    moreover have "length ys \<noteq> 0" "length ys \<noteq> 2" using ys(2) by (metis even_zero, metis even_numeral)
    ultimately have three: "length ys \<ge> 3" by linarith
    have store: "(store_of xs)\<lparr>numLeaves := word_of_nat (length ys)\<rparr> = store_of ys"
      by (simp add: store_of_def ys(3))
    have last: "last (roots (store_of xs)) = last ys"
      by (simp add: store_of_def ys(3) [symmetric] forest_odd [OF ys(2)])
    have "foldRoots (store_of xs) = foldRoots (store_of (ys @ [last ys]))"
      using True ys store last rolling_add_store [of ys "last ys"] less.prems
      by (simp add: foldRoots.simps [of "store_of xs"]) (simp add: store_of_def)
    moreover have "length (ys @ [last ys]) < length xs" using three ys(6) by simp
    moreover have "merkle_root (ys @ [last ys]) = merkle_root xs"
      using ys three by (simp add: merkle_root_dup)
    ultimately show ?thesis
      using less.hyps [of "ys @ [last ys]"] less.prems ys(2) by auto
  qed
qed

section \<open>Both computations give the root\<close>

lemma nth_merkleLeaves: "i < length txs \<Longrightarrow> merkleLeaves w txs ! i = merkleLeaf w i (txs ! i)"
  by (simp add: merkleLeaves_def nth_enumerate_eq)

lemma merkleLeaves_last:
  assumes "odd (length txs)" "length txs \<noteq> 1"
  shows "last (merkleLeaves w txs) = (if w then WitnessHash (last txs) else TxHash (last txs))"
proof -
  have ne: "txs \<noteq> []" using assms by auto
  then have "merkleLeaves w txs \<noteq> []" by (metis length_0_conv length_merkleLeaves)
  with ne have "last (merkleLeaves w txs) = merkleLeaf w (length txs - 1) (last txs)"
    by (simp add: last_conv_nth nth_merkleLeaves)
  moreover have "length txs \<noteq> 0" using ne by simp
  with assms(2) have "length txs > 1" by linarith
  ultimately show ?thesis by (simp add: merkleLeaf_def)
qed

lemma CalcMerkleRoot_eq:
  assumes "txs \<noteq> []" "length txs < 2 ^ 63"
  shows "CalcMerkleRoot txs w = Some (merkle_root (merkleLeaves w txs))"
proof -
  let ?xs = "merkleLeaves w txs"
  have ne: "?xs \<noteq> []" using assms(1) by (metis length_0_conv length_merkleLeaves)
  have new: "newRollingMerkleTreeStore = store_of []"
    by (simp add: newRollingMerkleTreeStore_def store_of_def)
  have adds: "rolling_adds ?xs newRollingMerkleTreeStore = Some (store_of ?xs)"
    unfolding new using assms(2) by (subst rolling_adds_store) simp_all
  have one: "(numLeaves (store_of ?xs) = 1) = (length txs = 1)"
    using assms(2) by (simp add: store_of_def word_unat_eq_iff unat_of_nat)
  show ?thesis
  proof (cases "length txs = 1")
    case True
    then obtain x where "?xs = [x]"
      by (metis (no_types) length_merkleLeaves One_nat_def length_0_conv length_Suc_conv)
    then have "roots (store_of ?xs) = [x]" "merkle_root ?xs = x"
      by (simp_all add: store_of_def forest.simps)
    then show ?thesis
      using adds one True by (simp add: CalcMerkleRoot_def calcMerkleRoot_def rootAt0_def)
  next
    case False
    let ?ys = "if odd (length txs) then ?xs @ [last ?xs] else ?xs"
    have "even (length ?ys)" "?ys \<noteq> []" "length ?ys < 2 ^ 64" using assms ne by auto
    then obtain zs where zs: "foldRoots (store_of ?ys) = Some (store_of zs)" "forest zs = [merkle_root ?ys]"
      using foldRoots_store [of ?ys] by blast
    have root: "merkle_root ?ys = merkle_root ?xs"
    proof (cases "odd (length txs)")
      case True
      with False have "length txs \<ge> 2" by (metis One_nat_def Suc_leI even_zero linorder_neqE_nat
            neq0_conv not_less_eq_eq numeral_2_eq_2 less_one)
      with True show ?thesis by (simp add: merkle_root_dup)
    qed simp
    have "(if length txs > 0 \<and> length txs mod 2 \<noteq> 0 then
              rolling_add (if w then WitnessHash (last txs) else TxHash (last txs)) (store_of ?xs)
            else Some (store_of ?xs)) = Some (store_of ?ys)"
      using assms False merkleLeaves_last [of txs w] rolling_add_store [of ?xs "last ?xs"]
      by (auto simp: odd_iff_mod_2_eq_one)
    moreover have "rootAt0 (store_of zs) = Some (merkle_root ?xs)"
      by (simp add: rootAt0_def store_of_def zs(2) root)
    ultimately show ?thesis
      by (simp only: CalcMerkleRoot_def calcMerkleRoot_def adds one False zs(1) Option.bind.simps if_False)
  qed
qed

lemma BuildMerkleTreeStore_root:
  assumes "txs \<noteq> []"
  obtains merkles where "BuildMerkleTreeStore txs w = Some merkles" "merkles \<noteq> []"
    "last merkles = Some (merkle_root (merkleLeaves w txs))"
proof -
  from BuildMerkleTreeStore_rows [OF assms, of w] obtain d where
    d: "length txs \<le> 2 ^ d" "2 ^ d < 2 * length txs"
    and b: "BuildMerkleTreeStore txs w =
       Some (rowTree (map Some (merkleLeaves w txs) @ replicate (2 ^ d - length txs) None))"
    by blast
  from last_rowTree_pad [of "merkleLeaves w txs" "2 ^ d - length txs" d] d show thesis
    by (intro that [OF b]) simp_all
qed

section \<open>Branches prove their leaf\<close>

lemma bitLen_pow: "bitLen (2 ^ d - 1) = d"
proof (induction d)
  case 0
  then show ?case by (simp add: bitLen.simps)
next
  case (Suc d)
  have "(2 ^ Suc d - 1) div 2 = (2 ^ d - 1 :: nat)" by simp
  moreover have "(1 :: nat) < 2 ^ Suc d" by (rule one_less_power) simp_all
  then have "2 ^ Suc d - 1 \<noteq> (0 :: nat)" by linarith
  ultimately show ?case using Suc by (simp only: bitLen.simps [of "2 ^ Suc d - 1"]) simp
qed

lemma treeRows_pow: "treeRows (2 ^ d) = d"
  by (simp add: treeRows_def bitLen_pow [simplified])

lemma sibling_even: "sibling (2 * j) = 2 * j + 1"
  unfolding sibling_def by (subst xor_rec) simp

lemma sibling_odd: "sibling (2 * j + 1) = 2 * j"
  unfolding sibling_def by (subst xor_rec) simp

lemma sibling_div: "sibling q div 2 = q div 2"
  by (cases "even q") (auto simp: sibling_even sibling_odd [simplified] elim!: evenE oddE)

lemma parent_add: "q div 2 < 2 ^ d \<Longrightarrow> parent q d = 2 ^ d + q div 2"
proof -
  assume "q div 2 < 2 ^ d"
  then have "(q div 2) AND (2 ^ d) = 0"
    by (intro bit_eqI) (auto simp: bit_simps bit_iff_odd [of "q div 2"])
  then have "(q div 2) + 2 ^ d = (q div 2) OR (2 ^ d)"
    by (rule disjunctive_add_eq_or)
  then show ?thesis by (simp add: parent_def drop_bit_eq_div push_bit_eq_mult)
qed

text \<open>In every row the nil nodes come last.\<close>

lemma rowTree_left:
  assumes "length xs + k = 2 ^ d" "2 * j + 1 < 2 * 2 ^ d - 1"
    "rowTree (map Some xs @ replicate k None) ! (2 * j + 1) \<noteq> None"
  shows "rowTree (map Some xs @ replicate k None) ! (2 * j) \<noteq> None"
  using assms
proof (induction d arbitrary: xs k j)
  case 0
  then show ?case by simp
next
  case (Suc d)
  let ?row = "map Some xs @ replicate k None"
  let ?k = "2 ^ d - length (merkleRow xs)"
  have len: "length ?row = 2 ^ Suc d" using Suc.prems by simp
  have step: "rowTree ?row = ?row @ rowTree (parentRow ?row)" by (rule rowTree_step [OF len])
  have up: "parentRow ?row = map Some (merkleRow xs) @ replicate ?k None"
    using Suc.prems by (subst parentRow_pad) simp_all
  show ?case
  proof (cases "2 * j + 1 < 2 ^ Suc d")
    case True
    have "rowTree ?row ! m = ?row ! m" if "m < 2 ^ Suc d" for m
      unfolding step using len that by (metis nth_append_left)
    with True have "rowTree ?row ! (2 * j + 1) = ?row ! (2 * j + 1)" "rowTree ?row ! (2 * j) = ?row ! (2 * j)"
      by simp_all
    moreover have "?row ! (2 * j + 1) \<noteq> None \<Longrightarrow> 2 * j + 1 < length xs"
      using True Suc.prems(1) by (cases "2 * j + 1 < length xs") (simp_all add: nth_append)
    ultimately show ?thesis using Suc.prems(3) by (simp add: nth_append)
  next
    case False
    then obtain m where m: "j = 2 ^ d + m" using le_Suc_ex [of "2 ^ d" j] by auto
    have "length (merkleRow xs) + ?k = 2 ^ d"
      using Suc.prems(1) by (simp add: length_merkleRow)
    moreover have "rowTree ?row ! (2 ^ Suc d + n) = rowTree (parentRow ?row) ! n" for n
      unfolding step using len by (metis nth_append_length_plus)
    from this [of "2 * m"] this [of "2 * m + 1"]
    have "rowTree ?row ! (2 * j) = rowTree (parentRow ?row) ! (2 * m)"
      "rowTree ?row ! (2 * j + 1) = rowTree (parentRow ?row) ! (2 * m + 1)"
      by (simp_all add: m algebra_simps)
    ultimately show ?thesis
      using Suc.IH [of "merkleRow xs" ?k m] Suc.prems(2,3) by (simp add: up m)
  qed
qed

text \<open>One step up: the branch entry and the node at \<open>q\<close> hash to the parent of \<open>q\<close>.\<close>

definition branchEntry :: "hash option list \<Rightarrow> nat \<Rightarrow> hash option" where
  "branchEntry M idx = (if M ! idx = None then M ! sibling idx else M ! idx)"

lemma branch_step:
  assumes row: "length xs + k = 2 ^ d" and M: "M = rowTree (map Some xs @ replicate k None)"
    and q: "q < 2 * 2 ^ d - 2" "M ! q = Some v"
  obtains e where "branchEntry M (sibling q) = Some e"
    "M ! (2 ^ d + q div 2) =
       Some (if even q then HashMerkleBranches v e else HashMerkleBranches e v)"
proof -
  have len: "length (map Some xs @ replicate k None) = 2 ^ d" using row by simp
  have par: "M ! (2 ^ d + j) = merkleParent (M ! (2 * j)) (M ! (2 * j + 1))" if "j < 2 ^ d - 1" for j
    unfolding M by (rule nth_rowTree [OF len that])
  show thesis
  proof (cases "even q")
    case True
    then obtain j where j: "q = 2 * j" by (elim evenE)
    with q have "j < 2 ^ d - 1" by simp
    from par [OF this] q j True show thesis
      by (cases "M ! (2 * j + 1)"; intro that)
        (auto simp: branchEntry_def sibling_even sibling_odd [simplified] merkleParent_def)
  next
    case False
    then obtain j where j: "q = 2 * j + 1" by (elim oddE)
    with q have lt: "j < 2 ^ d - 1" "2 * j + 1 < 2 * 2 ^ d - 1" by simp_all
    have "M ! (2 * j) \<noteq> None"
      using rowTree_left [OF row lt(2)] q(2) by (simp add: M j)
    then obtain x where "M ! (2 * j) = Some x" by blast
    with par [OF lt(1)] q j False show thesis
      by (intro that [of x])
        (auto simp: branchEntry_def sibling_even sibling_odd [simplified] merkleParent_def)
  qed
qed

lemma branchLoop_Cons:
  "branchLoop (Suc n) M d idx = branchEntry M idx # branchLoop n M d (sibling (parent idx d))"
  by (simp add: branchEntry_def)

lemma isLeftNode_even: "isLeftNode p = even p"
  by (simp add: isLeftNode_def and_one_eq even_iff_mod_2_eq_zero)

lemma hashUp_branch:
  assumes row: "length xs + k = 2 ^ d" and M: "M = rowTree (map Some xs @ replicate k None)"
    and i: "i < 2 ^ d" and "n + l = d" "q = 2 * 2 ^ d - 2 * 2 ^ n + i div 2 ^ l" "M ! q = Some v"
  shows "Some (hashUp l (branchLoop n M d (sibling q)) v i) = M ! (2 * 2 ^ d - 2)"
  using assms(4-)
proof (induction n arbitrary: l q v)
  case 0
  then have "q = 2 * 2 ^ d - 2" using i by simp
  with 0 show ?case by simp
next
  case (Suc n)
  have dl: "d = Suc n + l" using Suc.prems(1) by simp
  have "i div 2 ^ l < 2 ^ Suc n"
    using i dl by (simp add: less_mult_imp_div_less power_add)
  then have "i div 2 ^ l < 2 * 2 ^ n" "2 * 2 ^ n \<le> (2 :: nat) ^ d" "1 \<le> (2 :: nat) ^ n"
    using power_increasing [of "Suc n" d "2::nat"] dl by simp_all
  moreover have "q = 2 * 2 ^ d - 4 * 2 ^ n + i div 2 ^ l" using Suc.prems(2) by simp
  ultimately have q: "q < 2 * 2 ^ d - 2" by linarith
  have even_q: "even q = even (i div 2 ^ l)" using Suc.prems(2) by simp
  obtain e where e: "branchEntry M (sibling q) = Some e"
    and up: "M ! (2 ^ d + q div 2) =
       Some (if even q then HashMerkleBranches v e else HashMerkleBranches e v)"
    by (rule branch_step [OF row M q Suc.prems(3)])
  have half: "q div 2 < 2 ^ d" using q by simp
  then have par: "parent (sibling q) d = 2 ^ d + q div 2"
    by (simp add: parent_add sibling_div)
  have "i div 2 ^ l div 2 = i div 2 ^ Suc l" by (metis div_mult2_eq mult.commute power_Suc)
  moreover have qq: "q = 2 * (2 ^ d - 2 * 2 ^ n) + i div 2 ^ l"
    using Suc.prems(2) by (simp add: diff_mult_distrib2)
  then have "q div 2 = (2 ^ d - 2 * 2 ^ n) + i div 2 ^ l div 2" by simp
  moreover have "2 * 2 ^ n \<le> (2 :: nat) ^ d"
    using power_increasing [of "Suc n" d "2::nat"] dl by simp
  ultimately have pos: "2 ^ d + q div 2 = 2 * 2 ^ d - 2 * 2 ^ n + i div 2 ^ Suc l"
    by linarith
  show ?case
    using Suc.IH [OF _ pos up] Suc.prems(1) e even_q
    by (simp add: branchLoop_Cons par isLeftNode_even drop_bit_eq_div Let_def del: branchLoop.simps)
qed

lemma findLeaf_hit:
  assumes "h \<in> set xs"
  shows "\<exists>i. findLeaf (map Some xs @ ys) h j = Some (Some (j + i)) \<and> i < length xs \<and> xs ! i = h"
  using assms
proof (induction xs arbitrary: j)
  case Nil
  then show ?case by simp
next
  case (Cons x xs)
  show ?case
  proof (cases "x = h")
    case True
    then show ?thesis by (intro exI [of _ 0]) simp
  next
    case False
    with Cons obtain i where "findLeaf (map Some xs @ ys) h (j + 1) = Some (Some (j + 1 + i))"
      "i < length xs" "xs ! i = h" by fastforce
    with False show ?thesis by (intro exI [of _ "Suc i"]) simp
  qed
qed

lemma findLeaf_miss:
  assumes "h \<notin> set xs"
  shows "findLeaf (map Some xs @ replicate k None) h j = (if k = 0 then Some None else None)"
  using assms by (induction xs arbitrary: j) (auto simp: gr0_conv_Suc)

lemma take_rowTree: "length row = 2 ^ d \<Longrightarrow> take (2 ^ d) (rowTree row) = row"
  by (cases "length row \<le> 1"; subst rowTree.simps) simp_all

lemma ExtractMerkleBranch_hit:
  assumes "length xs + k = 2 ^ d" "2 ^ d < 2 * length xs" "h \<in> set xs"
    and M: "M = rowTree (map Some xs @ replicate k None)"
  shows "\<exists>i branch. ExtractMerkleBranch M h = Some (Some branch) \<and> i < length xs \<and> xs ! i = h \<and>
    HashMerkleRoot branch h i = merkle_root xs"
proof -
  let ?row = "map Some xs @ replicate k None"
  have row: "length ?row = 2 ^ d" using assms(1) by simp
  have lenM: "length M = 2 * 2 ^ d - 1" unfolding M by (rule length_rowTree [OF row])
  have leaves: "(length M + 1) div 2 = 2 ^ d" using lenM by simp
  have takeM: "take (2 ^ d) M = ?row" unfolding M by (rule take_rowTree [OF row])
  obtain i where i: "findLeaf ?row h 0 = Some (Some i)" "i < length xs" "xs ! i = h"
    using findLeaf_hit [OF assms(3), of "replicate k None" 0] by auto
  let ?branch = "branchLoop d M d (sibling i)"
  have lt: "i < 2 ^ d" using i(2) assms(1) by simp
  have "M ! i = ?row ! i" using lt takeM by (metis nth_take)
  then have "M ! i = Some h" using i by (simp add: nth_append)
  then have "Some (hashUp 0 ?branch h i) = M ! (2 * 2 ^ d - 2)"
    using hashUp_branch [OF assms(1) M lt, of d 0 i h] by simp
  also have "\<dots> = last M"
  proof -
    have "(1 :: nat) \<le> 2 ^ d" by simp
    then have "length M \<noteq> 0" "length M - 1 = 2 * 2 ^ d - 2" using lenM by linarith+
    then show ?thesis by (simp add: last_conv_nth)
  qed
  also have "\<dots> = Some (merkle_root xs)"
    unfolding M using last_rowTree_pad [OF assms(1,2)] by simp
  finally show ?thesis
    using i by (intro exI [of _ i] exI [of _ ?branch])
      (simp add: ExtractMerkleBranch_def leaves [simplified] takeM treeRows_pow HashMerkleRoot_def Let_def)
qed

section \<open>Properties\<close>

text \<open>
  C26: the two Merkle computations agree.  For every non-empty list of transactions, the
  memory-saving rolling computation terminates without a panic and returns the last node of
  the array built by \<open>BuildMerkleTreeStore\<close>, which is the root obtained by hashing row by
  row, for transaction and for witness hashes.
\<close>

theorem merkle_root_equivalence:
  assumes "txs \<noteq> []" and "length txs < 2 ^ 63"
  shows "\<exists>merkles. BuildMerkleTreeStore txs witness = Some merkles \<and> merkles \<noteq> [] \<and>
    CalcMerkleRoot txs witness = last merkles \<and>
    last merkles = Some (merkle_root (merkleLeaves witness txs))"
  using BuildMerkleTreeStore_root [OF assms(1), of witness] CalcMerkleRoot_eq [OF assms]
  by metis

theorem merkle_root_equivalence_witness:
  "\<exists>merkles. BuildMerkleTreeStore [sample_tx, sample_tx, sample_tx] False = Some merkles \<and>
     merkles \<noteq> [] \<and> CalcMerkleRoot [sample_tx, sample_tx, sample_tx] False = last merkles \<and>
     last merkles = Some (merkle_root (merkleLeaves False [sample_tx, sample_tx, sample_tx]))"
  by (rule merkle_root_equivalence) simp_all

text \<open>
  C25: extracted branches verify.  For a hash among the leaves of a tree built from
  transactions, \<open>ExtractMerkleBranch\<close> returns a branch, without a panic, and hashing the
  leaf's position and branch with \<open>HashMerkleRoot\<close> gives the root of the tree.
\<close>

theorem merkle_branch_verifies:
  assumes "BuildMerkleTreeStore txs witness = Some merkles"
    and "h \<in> set (merkleLeaves witness txs)"
  shows "\<exists>i branch. ExtractMerkleBranch merkles h = Some (Some branch) \<and> i < length txs \<and>
    merkleLeaves witness txs ! i = h \<and> Some (HashMerkleRoot branch h i) = last merkles"
proof -
  have ne: "txs \<noteq> []" using assms(2) by (auto simp: merkleLeaves_def)
  from BuildMerkleTreeStore_rows [OF ne, of witness] obtain d where
    d: "length txs \<le> 2 ^ d" "2 ^ d < 2 * length txs"
    and b: "BuildMerkleTreeStore txs witness =
       Some (rowTree (map Some (merkleLeaves witness txs) @ replicate (2 ^ d - length txs) None))"
    by blast
  from BuildMerkleTreeStore_root [OF ne, of witness] assms(1)
  have "last merkles = Some (merkle_root (merkleLeaves witness txs))" by auto
  moreover from b assms(1)
  have "merkles = rowTree (map Some (merkleLeaves witness txs) @ replicate (2 ^ d - length txs) None)"
    by simp
  ultimately show ?thesis
    using ExtractMerkleBranch_hit [of "merkleLeaves witness txs" "2 ^ d - length txs" d h merkles] d assms(2)
    by auto
qed

theorem merkle_branch_verifies_witness:
  "\<exists>merkles i branch. BuildMerkleTreeStore [sample_tx] True = Some merkles \<and>
     ExtractMerkleBranch merkles zeroHash = Some (Some branch) \<and> i < 1 \<and>
     Some (HashMerkleRoot branch zeroHash i) = last merkles"
proof -
  have leaf: "zeroHash \<in> set (merkleLeaves True [sample_tx])"
    by (simp add: merkleLeaves_def merkleLeaf_def)
  obtain merkles where m: "BuildMerkleTreeStore [sample_tx] True = Some merkles"
    using BuildMerkleTreeStore_root [of "[sample_tx]" True] by auto
  from merkle_branch_verifies [OF m leaf] m show ?thesis by auto
qed

text \<open>
  C30: looking for an absent transaction.  When the number of transactions is not a power of
  two, asking for the branch of a hash that is not in the block dereferences a nil leaf; the
  documented nil result is returned only when the leaves fill the last row.
\<close>

theorem merkle_branch_absent:
  assumes "BuildMerkleTreeStore txs witness = Some merkles"
    and "h \<notin> set (merkleLeaves witness txs)"
  shows "ExtractMerkleBranch merkles h =
    (if nextPowerOfTwo (length txs) = length txs then Some None else None)"
proof -
  have ne: "txs \<noteq> []"
    using assms(1) by (auto simp: BuildMerkleTreeStore_def nextPowerOfTwo_def)
  then obtain d where d: "nextPowerOfTwo (length txs) = 2 ^ d" "length txs \<le> 2 ^ d" "2 ^ d < 2 * length txs"
    using nextPowerOfTwo_spec [of "length txs"] by auto
  from BuildMerkleTreeStore_rows [OF ne, of witness] obtain d' where
    d': "length txs \<le> 2 ^ d'" "2 ^ d' < 2 * length txs"
    and b: "BuildMerkleTreeStore txs witness =
       Some (rowTree (map Some (merkleLeaves witness txs) @ replicate (2 ^ d' - length txs) None))"
    by blast
  have "d' = d"
  proof (rule ccontr)
    assume "d' \<noteq> d"
    then have "2 * 2 ^ d \<le> (2 :: nat) ^ d' \<or> 2 * 2 ^ d' \<le> (2 :: nat) ^ d"
      using power_increasing [of "Suc d" d' "2::nat"] power_increasing [of "Suc d'" d "2::nat"]
      by (cases "d < d'") auto
    with d d' show False by linarith
  qed
  let ?row = "map Some (merkleLeaves witness txs) @ replicate (2 ^ d - length txs) None"
  have row: "length ?row = 2 ^ d" using d by simp
  have m: "merkles = rowTree ?row" using b assms(1) \<open>d' = d\<close> by simp
  then have "length merkles = 2 * 2 ^ d - 1" using length_rowTree [OF row] by simp
  moreover have "take (2 ^ d) merkles = ?row" using take_rowTree [OF row] m by simp
  ultimately show ?thesis
    using d(1,2) findLeaf_miss [OF assms(2), of "2 ^ d - length txs" 0]
    by (simp add: ExtractMerkleBranch_def Let_def)
qed

theorem merkle_branch_absent_witness:
  "\<exists>merkles. BuildMerkleTreeStore [sample_tx, sample_tx, sample_tx] False = Some merkles \<and>
     ExtractMerkleBranch merkles [] = None"
proof -
  have "[] \<noteq> TxHash tx" for tx
    using is_hash_DoubleHashH [of "SerializeNoWitness tx"]
    by (auto simp: TxHash_def is_hash_def HashSize_def)
  then have absent: "[] \<notin> set (merkleLeaves False [sample_tx, sample_tx, sample_tx])"
    by (simp add: merkleLeaves_def merkleLeaf_def)
  obtain merkles where m: "BuildMerkleTreeStore [sample_tx, sample_tx, sample_tx] False = Some merkles"
    using BuildMerkleTreeStore_root [of "[sample_tx, sample_tx, sample_tx]" False] by auto
  have "nextPowerOfTwo 3 \<noteq> 3" by (simp add: nextPowerOfTwo_def log2.simps)
  with merkle_branch_absent [OF m absent] m show ?thesis by (simp add: numeral_3_eq_3)
qed

end
