(* ===== verification/Script_Num.thy ===== *)
theory Script_Num
  imports Prelude
begin

unbundle bit_operations_syntax

text \<open>
  Script numbers (\<^verbatim>\<open>txscript/scriptnum.go\<close>): signed magnitude in little endian with the sign in
  the top bit.  A \<^verbatim>\<open>scriptNum\<close> is an \<^verbatim>\<open>int64\<close>, kept as an integer in its range.\<close>

datatype num_error = ErrMinimalData | ErrNumberTooBig

definition int64_range :: "int \<Rightarrow> bool" where
  "int64_range n \<longleftrightarrow> - (2 ^ 63) \<le> n \<and> n < 2 ^ 63"

definition checkMinimalDataEncoding :: "byte list \<Rightarrow> num_error option" where
  "checkMinimalDataEncoding v =
     (if length v = 0 then None
      else if v ! (length v - 1) AND 0x7f = 0 then
        (if length v = 1 \<or> v ! (length v - 2) AND 0x80 = 0 then Some ErrMinimalData else None)
      else None)"

text \<open>The loop that writes the bytes of a positive number, lowest first.\<close>

function magBytes :: "nat \<Rightarrow> byte list" where
  "magBytes n = (if n > 0 then word_of_nat (n mod 256) # magBytes (n div 256) else [])"
  by auto

termination by (relation "measure id") auto

declare magBytes.simps [simp del]

text \<open>
  The negation of the least \<^verbatim>\<open>int64\<close> is itself: no byte is written and the index of the last
  byte is out of range, a panic.\<close>

definition Bytes :: "int \<Rightarrow> byte list option" where
  "Bytes n =
     (if n = 0 then Some []
      else
        let isNegative = n < 0;
            result = magBytes (nat (if isNegative then (if n = - (2 ^ 63) then n else - n) else n))
        in
        if result = [] then None
        else if last result AND 0x80 \<noteq> 0 then Some (result @ [if isNegative then 0x80 else 0])
        else if isNegative then Some (result[length result - 1 := last result OR 0x80])
        else Some result)"

definition Int32 :: "int \<Rightarrow> int" where
  "Int32 n = (if n > 2 ^ 31 - 1 then 2 ^ 31 - 1 else if n < - (2 ^ 31) then - (2 ^ 31) else n)"

text \<open>The loop that collects the bytes; the shift count is a \<^verbatim>\<open>uint8\<close>.\<close>

fun collectBytes :: "uint64 \<Rightarrow> nat \<Rightarrow> byte list \<Rightarrow> uint64" where
  "collectBytes result i [] = result"
| "collectBytes result i (val # vals) =
     collectBytes (result OR push_bit ((8 * i) mod 256) (ucast val)) (i + 1) vals"

definition makeScriptNum :: "byte list \<Rightarrow> bool \<Rightarrow> nat \<Rightarrow> num_error + int" where
  "makeScriptNum v requireMinimal scriptNumLen =
     (if length v > scriptNumLen then Inl ErrNumberTooBig
      else
        case (if requireMinimal then checkMinimalDataEncoding v else None) of
          Some err \<Rightarrow> Inl err
        | None \<Rightarrow>
            if length v = 0 then Inr 0
            else
              let result = collectBytes 0 0 v in
              if v ! (length v - 1) AND 0x80 \<noteq> 0 then
                Inr (sint (- (result AND NOT (push_bit ((8 * (length v - 1)) mod 256) 0x80))))
              else Inr (sint result))"

section \<open>Bytes\<close>

lemma magBytes_0 [simp]: "magBytes 0 = []"
  by (simp add: magBytes.simps)

lemma magBytes_pos: "0 < n \<Longrightarrow> magBytes n = word_of_nat (n mod 256) # magBytes (n div 256)"
  by (simp add: magBytes.simps)

lemma magBytes_Nil [simp]: "magBytes n = [] \<longleftrightarrow> n = 0"
  by (cases n) (simp_all add: magBytes.simps)

lemma le_nat_magBytes: "le_nat (magBytes n) = n"
proof (induction n rule: less_induct)
  case (less n)
  then show ?case by (cases "n = 0") (simp_all add: magBytes_pos)
qed

lemma last_magBytes: "0 < n \<Longrightarrow> last (magBytes n) \<noteq> 0"
proof (induction n rule: less_induct)
  case (less n)
  show ?case
  proof (cases "n div 256 = 0")
    case True
    then have "n < 256" by (simp add: div_eq_0_iff)
    with less.prems True have "(word_of_nat n :: byte) \<noteq> 0" by (simp add: word_unat_eq_iff)
    with less.prems True \<open>n < 256\<close> show ?thesis by (simp add: magBytes_pos)
  next
    case False
    with less.IH [of "n div 256"] less.prems show ?thesis by (simp add: magBytes_pos)
  qed
qed

lemma le_nat_pos: "bs \<noteq> [] \<Longrightarrow> last bs \<noteq> 0 \<Longrightarrow> 0 < le_nat bs"
  by (induction bs) (auto simp: unat_gt_0 split: if_splits)

lemma magBytes_le_nat: "bs = [] \<or> last bs \<noteq> 0 \<Longrightarrow> magBytes (le_nat bs) = bs"
proof (induction bs)
  case (Cons b bs)
  have pos: "0 < le_nat (b # bs)" by (rule le_nat_pos) (use Cons.prems in auto)
  have b: "unat b < 256" by (rule unat_byte_lt)
  then have "le_nat (b # bs) mod 256 = unat b" "le_nat (b # bs) div 256 = le_nat bs"
    by (simp_all add: div_add1_eq)
  with pos Cons show ?case by (auto simp: magBytes_pos split: if_splits)
qed simp

lemma ucast_or_shift: "(ucast (b :: byte) :: uint64) OR push_bit 8 w = ucast b + 256 * w"
proof -
  have "\<not> (bit (ucast b :: uint64) n \<and> bit (push_bit 8 w) n)" for n
    using bit_imp_le_length [of b n] by (auto simp: bit_ucast_iff bit_push_bit_iff)
  then have "(ucast b :: uint64) AND push_bit 8 w = 0" by (intro bit_word_eqI) (simp add: bit_and_iff)
  then have "ucast b OR push_bit 8 w = ucast b + push_bit 8 w" by (simp add: disjunctive_add_eq_or)
  then show ?thesis by (simp add: push_bit_eq_mult mult.commute)
qed

lemma collectBytes_eq:
  "i + length v \<le> 8 \<Longrightarrow> collectBytes acc i v = acc OR push_bit (8 * i) (word_of_nat (le_nat v))"
proof (induction v arbitrary: acc i)
  case (Cons b v)
  have "collectBytes acc i (b # v) =
      (acc OR push_bit (8 * i) (ucast b)) OR push_bit (8 * (i + 1)) (word_of_nat (le_nat v))"
    using Cons.IH [of "i + 1"] Cons.prems by simp
  also have "\<dots> = acc OR push_bit (8 * i) (ucast b OR push_bit 8 (word_of_nat (le_nat v)))"
    by (simp only: push_bit_or push_bit_push_bit or.assoc distrib_left mult_1_right)
  also have "ucast b OR push_bit 8 (word_of_nat (le_nat v)) = (word_of_nat (le_nat (b # v)) :: uint64)"
    by (simp add: ucast_or_shift)
  finally show ?case .
qed simp

section \<open>The sign bit\<close>

lemma top_bit: "(b :: byte) AND 0x80 \<noteq> 0 \<longleftrightarrow> 128 \<le> unat b"
proof -
  have "bit (b AND 0x80) n \<longleftrightarrow> n = 7 \<and> bit b 7" for n
  proof -
    have "(0x80 :: byte) = 2 ^ 7" by simp
    then show ?thesis by (simp only: bit_and_iff bit_exp_iff possible_bit_word) auto
  qed
  then have "b AND 0x80 \<noteq> 0 \<longleftrightarrow> bit b 7" by (metis bit_0_eq bit_eq_iff bot_apply bot_bool_def)
  also have "\<dots> \<longleftrightarrow> bit (unat b) 7" by (simp add: bit_unsigned_iff)
  also have "\<dots> \<longleftrightarrow> 128 \<le> unat b"
  proof -
    have "unat b div 128 < 2" using unat_byte_lt [of b] by (simp add: less_mult_imp_div_less)
    then have "odd (unat b div 128) \<longleftrightarrow> unat b div 128 \<noteq> 0" by (auto simp: less_2_cases_iff)
    then show ?thesis by (auto simp: bit_iff_odd div_eq_0_iff)
  qed
  finally show ?thesis .
qed

lemma unat_low_bits: "unat ((b :: byte) AND 0x7f) = unat b mod 128"
proof -
  have "(0x7f :: byte) = mask 7" by (simp add: mask_eq_exp_minus_1)
  then have "unat (b AND 0x7f) = unat (take_bit 7 b)" by (simp add: take_bit_eq_mask)
  also have "\<dots> = take_bit 7 (unat b)" by (simp add: unsigned_take_bit_eq)
  finally show ?thesis by (simp add: take_bit_eq_mod)
qed

lemma low_bits_0: "(b :: byte) AND 0x7f = 0 \<longleftrightarrow> unat b mod 128 = 0"
  using unat_low_bits [of b] by (metis unat_eq_zero)

lemma unat_set_top:
  assumes "unat (b :: byte) < 128"
  shows "unat (b OR 0x80) = unat b + 128"
proof -
  have "b AND 0x80 = 0" using top_bit [of b] assms by auto
  then have "b OR 0x80 = b + 0x80" by (simp add: disjunctive_add_eq_or)
  then show ?thesis using assms by (simp add: unat_word_ariths)
qed

text \<open>The number that a byte string stands for.\<close>

definition scriptVal :: "byte list \<Rightarrow> int" where
  "scriptVal v =
     (if v = [] then 0
      else
        let a = le_nat (butlast v) + 256 ^ (length v - 1) * (unat (last v) mod 128)
        in if 128 \<le> unat (last v) then - int a else int a)"

lemma scriptVal_snoc:
  "scriptVal (u @ [b]) =
     (if 128 \<le> unat b then - int (le_nat u + 256 ^ length u * (unat b mod 128))
      else int (le_nat u + 256 ^ length u * (unat b mod 128)))"
  by (simp add: scriptVal_def)

definition minimal :: "byte list \<Rightarrow> bool" where
  "minimal v \<longleftrightarrow> v = [] \<or> unat (last v) mod 128 \<noteq> 0 \<or> (butlast v \<noteq> [] \<and> 128 \<le> unat (last (butlast v)))"

lemma checkMinimalDataEncoding_iff: "checkMinimalDataEncoding v = None \<longleftrightarrow> minimal v"
proof (cases v rule: rev_cases)
  case (snoc u b)
  have "(u @ [b]) ! (length u - Suc 0) = last u" if "u \<noteq> []"
    using that by (simp add: nth_append last_conv_nth)
  then show ?thesis
    using top_bit [of "last u"]
    by (cases "u = []") (auto simp: snoc checkMinimalDataEncoding_def minimal_def low_bits_0)
qed (simp add: checkMinimalDataEncoding_def minimal_def)

lemma makeScriptNum_val:
  assumes "length v \<le> 7" "length v \<le> k"
  shows "makeScriptNum v False k = Inr (scriptVal v)"
proof (cases v rule: rev_cases)
  case Nil
  then show ?thesis by (simp add: makeScriptNum_def scriptVal_def)
next
  case (snoc u b)
  let ?m = "le_nat v" and ?s = "2 ^ (8 * length u + 7) :: nat"
  define a where "a = le_nat u + 256 ^ length u * (unat b mod 128)"
  have n: "length u \<le> 6" using assms(1) snoc by simp
  have p: "(256 :: nat) ^ length u = 2 ^ (8 * length u)" by (simp add: power_mult)
  have u: "le_nat u < 2 ^ (8 * length u)" using le_nat_less [of u] p by simp
  have m: "?m = le_nat u + 2 ^ (8 * length u) * unat b" using p by (simp add: snoc le_nat_append)
  have a_less: "a < ?s"
  proof -
    have "a < 2 ^ (8 * length u) + 2 ^ (8 * length u) * (unat b mod 128)" using u p by (simp add: a_def)
    also have "\<dots> \<le> 2 ^ (8 * length u) * 128" by (simp add: mult_Suc_right [symmetric] del: mult_Suc_right)
    also have "\<dots> = ?s" by (simp add: power_add)
    finally show ?thesis .
  qed
  also have "?s \<le> 2 ^ 55" using n by (intro power_increasing) simp_all
  finally have a55: "a < 2 ^ 55" .
  have b: "unat b mod 128 = (if 128 \<le> unat b then unat b - 128 else unat b)"
    using unat_byte_lt [of b] by (simp add: mod_if)
  have ms: "?m = (if 128 \<le> unat b then ?s + a else a)"
  proof (cases "128 \<le> unat b")
    case True
    then obtain d where "unat b = 128 + d" using le_Suc_ex by blast
    with b show ?thesis unfolding m a_def p by (simp add: power_add algebra_simps)
  next
    case False
    with b show ?thesis unfolding m a_def p by simp
  qed
  have r: "collectBytes 0 0 v = word_of_nat ?m" using collectBytes_eq [of 0 v 0] assms(1) by simp
  have sa: "sint (word_of_nat a :: uint64) = int a" "sint (- word_of_nat a :: uint64) = - int a"
  proof -
    have s: "sint (word_of_int i :: uint64) = i" if "\<bar>i\<bar> < 2 ^ 55" for i
      using that by (simp add: signed_of_int signed_take_bit_int_eq_self abs_less_iff)
    have "\<bar>int a\<bar> < 2 ^ 55" using a55 by (metis abs_of_nat of_nat_less_iff of_nat_numeral of_nat_power)
    with s [of "int a"] s [of "- int a"] show "sint (word_of_nat a :: uint64) = int a"
      "sint (- word_of_nat a :: uint64) = - int a" by simp_all
  qed
  have clear: "(word_of_nat ?m :: uint64) AND NOT (push_bit ((8 * (length v - 1)) mod 256) 0x80) = word_of_nat a"
    if "128 \<le> unat b"
  proof -
    let ?w = "word_of_nat ?m :: uint64" and ?k = "8 * length u + 7"
    have k: "?k < 64" using n by simp
    have "bit ?w ?k = bit ?m ?k" using k by (simp add: bit_of_nat_iff)
    also have "?m div 2 ^ ?k = 1"
      using ms that a_less by (simp add: div_add_self1)
    then have "bit ?m ?k" by (simp only: bit_iff_odd) simp
    finally have "unset_bit ?k ?w = ?w - 2 ^ ?k" by (simp add: unset_bit_eq)
    also have "\<dots> = word_of_nat a" using ms that by simp
    moreover have "push_bit ((8 * (length v - 1)) mod 256) (0x80 :: uint64) = push_bit ?k 1"
    proof -
      have "(0x80 :: uint64) = push_bit 7 1" by simp
      then show ?thesis using n by (simp only: push_bit_push_bit) (simp add: snoc)
    qed
    ultimately show ?thesis by (simp add: unset_bit_eq_and_not)
  qed
  have val: "scriptVal v = (if 128 \<le> unat b then - int a else int a)"
    by (simp only: snoc scriptVal_snoc a_def)
  have v: "v ! (length v - 1) = b" "length v \<noteq> 0" "\<not> k < length v" using snoc assms(2) by simp_all
  show ?thesis
  proof (cases "128 \<le> unat b")
    case True
    then show ?thesis
      unfolding makeScriptNum_def val Let_def r v(1) clear [OF True] using v(2,3) top_bit [of b] sa(2) by simp
  next
    case False
    then have "?m = a" using ms by simp
    with False show ?thesis
      unfolding makeScriptNum_def val Let_def r v(1) using v(2,3) top_bit [of b] sa(1) by simp
  qed
qed

lemma Bytes_mag:
  assumes "n \<noteq> 0" "n \<noteq> - (2 ^ 63)" "magBytes (nat \<bar>n\<bar>) = u @ [b]"
  shows "Bytes n = (if 128 \<le> unat b then Some ((u @ [b]) @ [if n < 0 then 0x80 else 0])
    else if n < 0 then Some (u @ [b OR 0x80]) else Some (u @ [b]))"
proof -
  have mag: "nat (if n < 0 then (if n = - (2 ^ 63) then n else - n) else n) = nat \<bar>n\<bar>" using assms(2) by simp
  show ?thesis
    using assms(1) top_bit [of b] unfolding Bytes_def mag assms(3) Let_def by simp
qed

lemma Bytes_val:
  assumes "n \<noteq> 0" "n \<noteq> - (2 ^ 63)"
  shows "\<exists>v. Bytes n = Some v \<and> minimal v \<and> scriptVal v = n"
proof -
  define r where "r = magBytes (nat \<bar>n\<bar>)"
  have r: "r \<noteq> []" "le_nat r = nat \<bar>n\<bar>" "last r \<noteq> 0"
    using assms(1) last_magBytes [of "nat \<bar>n\<bar>"] by (auto simp: r_def le_nat_magBytes)
  obtain u b where ub: "r = u @ [b]" using r(1) by (metis append_butlast_last_id)
  note B = Bytes_mag [OF assms, of u b, folded r_def, OF ub, folded ub]
  have n: "n = (if n < 0 then - int (le_nat r) else int (le_nat r))" using r(2) by simp
  show ?thesis
  proof (cases "128 \<le> unat b")
    case True
    moreover have "last r = b" by (simp add: ub)
    ultimately show ?thesis using B n r(1) by (auto simp: minimal_def scriptVal_snoc)
  next
    case False
    then have b: "unat b mod 128 = unat b" "unat b \<noteq> 0" "(unat b + 128) mod 128 = unat b" "unat (b OR 0x80) = unat b + 128"
      using r(3) ub unat_set_top [of b] by (simp_all add: unat_eq_zero)
    with False B n show ?thesis by (auto simp: minimal_def scriptVal_snoc ub le_nat_append)
  qed
qed

lemma Bytes_scriptVal:
  assumes "minimal v" "length v \<le> 7"
  shows "Bytes (scriptVal v) = Some v"
proof (cases v rule: rev_cases)
  case Nil
  then show ?thesis by (simp add: scriptVal_def Bytes_def)
next
  case (snoc u b)
  define a where "a = le_nat u + 256 ^ length u * (unat b mod 128)"
  have val: "scriptVal v = (if 128 \<le> unat b then - int a else int a)" by (simp only: snoc scriptVal_snoc a_def)
  have b: "unat b mod 128 = (if 128 \<le> unat b then unat b - 128 else unat b)"
    using unat_byte_lt [of b] by (simp add: mod_if)
  define c where "c = (word_of_nat (unat b mod 128) :: byte)"
  have c: "unat c = unat b mod 128" by (simp add: c_def)
  have a: "a = le_nat (u @ [c])" by (simp add: a_def le_nat_append c)
  have "a < 256 ^ length v" using le_nat_less [of "u @ [c]"] by (simp add: a snoc)
  also have "\<dots> \<le> 256 ^ 7" using assms(2) by (intro power_increasing) simp_all
  finally have small: "scriptVal v \<noteq> - (2 ^ 63)" by (auto simp: val)
  show ?thesis
  proof (cases "unat b mod 128 = 0")
    case True
    then have u: "u \<noteq> []" "128 \<le> unat (last u)" using assms(1) by (auto simp: snoc minimal_def)
    then have "last u \<noteq> 0" by auto
    with u True have mag: "magBytes a = u" "0 < a"
      using magBytes_le_nat [of u] le_nat_pos [of u] by (simp_all add: a_def)
    have "u = butlast u @ [last u]" using u by simp
    moreover have "scriptVal v \<noteq> 0" "nat \<bar>scriptVal v\<bar> = a" using mag(2) by (simp_all add: val)
    ultimately have "Bytes (scriptVal v) = Some (u @ [if scriptVal v < 0 then 0x80 else 0])"
      using Bytes_mag [OF _ small, of "butlast u" "last u"] mag(1) u(2) by simp
    moreover have "b = (if 128 \<le> unat b then 0x80 else 0)" using True b by (auto simp: word_unat_eq_iff)
    moreover have "scriptVal v < 0 \<longleftrightarrow> 128 \<le> unat b" using mag(2) by (simp add: val)
    ultimately show ?thesis by (simp add: snoc)
  next
    case False
    then have c0: "c \<noteq> 0" using c by auto
    then have mag: "magBytes a = u @ [c]" "0 < a"
      using magBytes_le_nat [of "u @ [c]"] le_nat_pos [of "u @ [c]"] by (simp_all add: a)
    have "unat c < 128" by (simp add: c)
    moreover have "scriptVal v \<noteq> 0" "nat \<bar>scriptVal v\<bar> = a" using mag(2) by (simp_all add: val)
    ultimately have "Bytes (scriptVal v) = (if scriptVal v < 0 then Some (u @ [c OR 0x80]) else Some (u @ [c]))"
      using Bytes_mag [OF _ small, of u c] mag(1) by simp
    moreover have "if 128 \<le> unat b then c OR 0x80 = b else c = b"
      using b c \<open>unat c < 128\<close> unat_set_top [of c] by (auto simp: word_unat_eq_iff)
    moreover have "scriptVal v < 0 \<longleftrightarrow> 128 \<le> unat b" using mag(2) by (simp add: val)
    ultimately show ?thesis by (auto simp: snoc)
  qed
qed

section \<open>Properties\<close>

text \<open>
  C36: script numbers have one minimal encoding.  With at most seven bytes allowed, a byte string is
  accepted as the number \<open>n\<close> under the minimal encoding rule if and only if it is within the limit and
  is what \<^verbatim>\<open>Bytes\<close> gives for \<open>n\<close>.\<close>

theorem script_num_canonical:
  assumes "scriptNumLen \<le> 7" "n \<noteq> - (2 ^ 63)"
  shows "makeScriptNum v True scriptNumLen = Inr n \<longleftrightarrow> length v \<le> scriptNumLen \<and> Bytes n = Some v"
proof -
  have get: "makeScriptNum v True scriptNumLen = Inr n \<longleftrightarrow> length v \<le> scriptNumLen \<and> minimal v \<and> scriptVal v = n"
  proof (cases "length v \<le> scriptNumLen \<and> minimal v")
    case True
    then have "makeScriptNum v True scriptNumLen = makeScriptNum v False scriptNumLen"
      using checkMinimalDataEncoding_iff [of v] by (simp add: makeScriptNum_def)
    with True assms(1) makeScriptNum_val [of v scriptNumLen] show ?thesis by simp
  next
    case False
    then show ?thesis using checkMinimalDataEncoding_iff [of v]
      by (auto simp: makeScriptNum_def split: option.splits)
  qed
  show ?thesis
  proof (cases "n = 0")
    case True
    have zero: "Bytes 0 = Some []" by (simp add: Bytes_def)
    have "minimal [] \<and> scriptVal [] = 0" by (simp add: minimal_def scriptVal_def)
    moreover have "v = []" if "length v \<le> scriptNumLen" "minimal v" "scriptVal v = 0"
      using Bytes_scriptVal [of v] that assms(1) zero by simp
    ultimately show ?thesis using get zero unfolding True by (metis list.size(3) option.inject zero_le)
  next
    case False
    then obtain w where w: "Bytes n = Some w" "minimal w" "scriptVal w = n" using Bytes_val assms(2) by blast
    moreover have "Bytes (scriptVal v) = Some v" if "length v \<le> scriptNumLen" "minimal v"
      using Bytes_scriptVal [OF that(2)] that(1) assms(1) by linarith
    ultimately show ?thesis unfolding get by (metis option.inject)
  qed
qed

theorem script_num_canonical_witness:
  "makeScriptNum [0xff, 0x80] True 4 = Inr (-255)"
proof -
  have "Bytes (-255) = Some [0xff, 0x80]" by code_simp
  then show ?thesis using script_num_canonical [of 4 "-255" "[0xff, 0x80]"] by (simp only: ) simp
qed

end
