(* ===== verification/Script_Token.thy ===== *)
theory Script_Token
  imports Opcode Prelude
begin

unbundle bit_operations_syntax

text \<open>
  Scripts as sequences of opcodes (\<^verbatim>\<open>txscript/tokenizer.go\<close>, \<^verbatim>\<open>txscript/script.go\<close>): the
  tokenizer, the loops over it, the removal of opcodes and the counts of signature operations.  A
  script is shorter than \<open>2 ^ 31\<close> bytes, so the \<^verbatim>\<open>int32\<close> offsets of the tokenizer do not
  wrap.\<close>

section \<open>The tokenizer\<close>

datatype script_error =
    ErrMalformedPush
  | ErrUnsupportedScriptVersion
  | ErrScriptNotCanonical
  | ErrNotMultisigScript
  | ErrNotPushOnly
  | ErrTooMuchNullData
  | ErrTooManyRequiredSigs
  | ErrPlain string

record ScriptTokenizer =
  tz_script :: "byte list"
  tz_version :: nat
  tz_offset :: nat
  tz_opcodePos :: int
  tz_op :: "byte option"
  tz_data :: "byte list option"
  tz_err :: "script_error option"

text \<open>The length column of the table of opcodes; negative for a push with a length of its own.\<close>

definition opcodeLength :: "byte \<Rightarrow> int" where
  "opcodeLength op =
     (if OP_DATA_1 \<le> op \<and> op < OP_PUSHDATA1 then uint op + 1
      else if op = OP_PUSHDATA1 then -1
      else if op = OP_PUSHDATA2 then -2
      else if op = OP_PUSHDATA4 then -4
      else 1)"

definition Done :: "ScriptTokenizer \<Rightarrow> bool" where
  "Done t \<longleftrightarrow> tz_err t \<noteq> None \<or> tz_offset t \<ge> length (tz_script t)"

definition Next :: "ScriptTokenizer \<Rightarrow> bool \<times> ScriptTokenizer" where
  "Next t =
     (if Done t then (False, t)
      else
        let t = t\<lparr>tz_opcodePos := tz_opcodePos t + 1\<rparr>;
            op = tz_script t ! tz_offset t;
            len = opcodeLength op
        in
        if len = 1 then (True, t\<lparr>tz_offset := tz_offset t + 1, tz_op := Some op, tz_data := None\<rparr>)
        else if len > 1 then
          let script = drop (tz_offset t) (tz_script t) in
          if int (length script) < len then (False, t\<lparr>tz_err := Some ErrMalformedPush\<rparr>)
          else (True, t\<lparr>tz_offset := tz_offset t + nat len, tz_op := Some op,
                        tz_data := Some (slice 1 (nat len) script)\<rparr>)
        else
          let script = drop (tz_offset t + 1) (tz_script t) in
          if int (length script) < - len then (False, t\<lparr>tz_err := Some ErrMalformedPush\<rparr>)
          else
            let dataLen =
                  (if len = -1 then uint (script ! 0)
                   else if len = -2 then int (le_nat (take 2 script))
                   else sint (word_of_nat (le_nat (take 4 script)) :: uint32));
                script = drop (nat (- len)) script
            in
            if dataLen > int (length script) \<or> dataLen < 0 then (False, t\<lparr>tz_err := Some ErrMalformedPush\<rparr>)
            else (True, t\<lparr>tz_offset := tz_offset t + (1 + nat (- len) + nat dataLen), tz_op := Some op,
                          tz_data := Some (take (nat dataLen) script)\<rparr>))"

definition MakeScriptTokenizer :: "nat \<Rightarrow> byte list \<Rightarrow> ScriptTokenizer" where
  "MakeScriptTokenizer scriptVersion script =
     \<lparr>tz_script = script, tz_version = scriptVersion, tz_offset = 0, tz_opcodePos = -1, tz_op = None, tz_data = None,
      tz_err = (if scriptVersion \<noteq> 0 then Some ErrUnsupportedScriptVersion else None)\<rparr>"

lemma opcodeLength_pos: "0 \<le> opcodeLength op \<Longrightarrow> 1 \<le> opcodeLength op"
  by (auto simp: opcodeLength_def)

lemma Next_advances:
  assumes "Next t = (True, t')"
  shows "tz_script t' = tz_script t" "tz_offset t < tz_offset t'" "tz_offset t < length (tz_script t)" "tz_err t' = None"
proof -
  have "tz_script t' = tz_script t \<and> tz_offset t < tz_offset t' \<and> tz_offset t < length (tz_script t) \<and> tz_err t' = None"
    using assms opcodeLength_pos [of "tz_script t ! tz_offset t"]
    by (auto simp: Next_def Done_def Let_def split: if_splits)
  then show "tz_script t' = tz_script t" "tz_offset t < tz_offset t'" "tz_offset t < length (tz_script t)" "tz_err t' = None"
    by simp_all
qed

lemma Next_measure:
  "(True, t') = Next t \<Longrightarrow> length (tz_script t') - tz_offset t' < length (tz_script t) - tz_offset t"
  using Next_advances [of t t'] by auto

text \<open>
  \<^verbatim>\<open>for tokenizer.Next() { ... }\<close>: the body changes the state and may break out of the loop.\<close>

function tokenLoop ::
    "('s \<Rightarrow> ScriptTokenizer \<Rightarrow> 's \<times> bool) \<Rightarrow> 's \<Rightarrow> ScriptTokenizer \<Rightarrow> 's \<times> ScriptTokenizer" where
  "tokenLoop body s t =
     (case Next t of
        (ok, t') \<Rightarrow>
          if \<not> ok then (s, t')
          else case body s t' of (s', brk) \<Rightarrow> if brk then (s', t') else tokenLoop body s' t')"
  by auto

termination
  by (relation "measure (\<lambda>(body, s, t). length (tz_script t) - tz_offset t)") (auto dest: Next_measure)

declare tokenLoop.simps [simp del]

section \<open>Small integers and pushes\<close>

definition isSmallInt :: "byte \<Rightarrow> bool" where
  "isSmallInt op \<longleftrightarrow> op = OP_0 \<or> (op \<ge> OP_1 \<and> op \<le> OP_16)"

definition asSmallInt :: "byte \<Rightarrow> nat" where
  "asSmallInt op = (if op = OP_0 then 0 else unat (op - (OP_1 - 1)))"

definition isCanonicalPush :: "byte \<Rightarrow> byte list option \<Rightarrow> bool" where
  "isCanonicalPush opcode data =
     (let dataLen = length (case data of None \<Rightarrow> [] | Some d \<Rightarrow> d) in
      if opcode > OP_16 then True
      else if opcode < OP_PUSHDATA1 \<and> opcode > OP_0 \<and> (dataLen = 1 \<and> hd (the data) \<le> 16) then False
      else if opcode = OP_PUSHDATA1 \<and> dataLen < unat OP_PUSHDATA1 then False
      else if opcode = OP_PUSHDATA2 \<and> dataLen \<le> 0xff then False
      else if opcode = OP_PUSHDATA4 \<and> dataLen \<le> 0xffff then False
      else True)"

definition IsPushOnlyScript :: "byte list \<Rightarrow> bool" where
  "IsPushOnlyScript script =
     (case tokenLoop (\<lambda>_ t. if the (tz_op t) > OP_16 then (False, True) else (True, False)) True
         (MakeScriptTokenizer 0 script) of
        (pushOnly, t) \<Rightarrow> if \<not> pushOnly then False else tz_err t = None)"

definition finalOpcodeData :: "nat \<Rightarrow> byte list \<Rightarrow> byte list option" where
  "finalOpcodeData scriptVersion script =
     (if length script = 0 then None
      else case tokenLoop (\<lambda>_ t. (tz_data t, False)) None (MakeScriptTokenizer scriptVersion script) of
        (data, t) \<Rightarrow> if tz_err t \<noteq> None then None else data)"

definition checkScriptParses :: "nat \<Rightarrow> byte list \<Rightarrow> script_error option" where
  "checkScriptParses scriptVersion script =
     tz_err (snd (tokenLoop (\<lambda>_ t. ((), False)) () (MakeScriptTokenizer scriptVersion script)))"

definition IsUnspendable :: "byte list \<Rightarrow> bool" where
  "IsUnspendable pkScript =
     (if length pkScript > 0 \<and> pkScript ! 0 = OP_RETURN then True
      else checkScriptParses 0 pkScript \<noteq> None)"

abbreviation MaxPubKeysPerMultiSig :: nat where
  "MaxPubKeysPerMultiSig \<equiv> 20"

definition sigOpBody :: "bool \<Rightarrow> nat \<times> byte \<Rightarrow> byte \<Rightarrow> nat \<times> byte" where
  "sigOpBody precise state op =
     (case state of
        (numSigOps, prevOp) \<Rightarrow>
          (if op = OP_CHECKSIG \<or> op = OP_CHECKSIGVERIFY then numSigOps + 1
           else if op = OP_CHECKMULTISIG \<or> op = OP_CHECKMULTISIGVERIFY then
             (if precise \<and> prevOp \<ge> OP_1 \<and> prevOp \<le> OP_16 then numSigOps + asSmallInt prevOp
              else numSigOps + MaxPubKeysPerMultiSig)
           else numSigOps,
           op))"

definition countSigOpsV0 :: "byte list \<Rightarrow> bool \<Rightarrow> nat" where
  "countSigOpsV0 script precise =
     fst (fst (tokenLoop (\<lambda>state t. (sigOpBody precise state (the (tz_op t)), False))
       (0, OP_INVALIDOPCODE) (MakeScriptTokenizer 0 script)))"

definition GetSigOpCount :: "byte list \<Rightarrow> nat" where
  "GetSigOpCount script = countSigOpsV0 script False"

text \<open>
  Removal keeps a result only once something was removed: \<open>None\<close> is the nil slice the loop
  starts with, \<open>prevOffset\<close> the end of the last opcode.\<close>

definition removeBody ::
    "(byte \<Rightarrow> byte list option \<Rightarrow> bool) \<Rightarrow> byte list \<Rightarrow> byte list option \<times> nat \<Rightarrow> ScriptTokenizer \<Rightarrow>
      (byte list option \<times> nat) \<times> bool" where
  "removeBody matches script state t =
     (case state of
        (result, prevOffset) \<Rightarrow>
          let result =
            (if matches (the (tz_op t)) (tz_data t) then
               (case result of None \<Rightarrow> Some (take prevOffset script) | Some r \<Rightarrow> Some r)
             else map_option (\<lambda>r. r @ slice prevOffset (tz_offset t) script) result)
          in ((result, tz_offset t), False))"

definition removeLoop :: "(byte \<Rightarrow> byte list option \<Rightarrow> bool) \<Rightarrow> byte list \<Rightarrow> byte list option" where
  "removeLoop matches script =
     fst (fst (tokenLoop (removeBody matches script) (None, 0) (MakeScriptTokenizer 0 script)))"

definition removeOpcodeRaw :: "byte list \<Rightarrow> byte \<Rightarrow> byte list" where
  "removeOpcodeRaw script opcode =
     (if length script = 0 then script
      else case removeLoop (\<lambda>op data. op = opcode) script of None \<Rightarrow> script | Some result \<Rightarrow> result)"

text \<open>\<^verbatim>\<open>bytes.Contains(b, sub)\<close>.\<close>

fun containsBytes :: "byte list \<Rightarrow> byte list \<Rightarrow> bool" where
  "containsBytes [] sub = (sub = [])"
| "containsBytes (b # bs) sub = (take (length sub) (b # bs) = sub \<or> containsBytes bs sub)"

definition removeOpcodeByData :: "byte list \<Rightarrow> byte list \<Rightarrow> byte list" where
  "removeOpcodeByData script dataToRemove =
     (if length script = 0 \<or> length dataToRemove = 0 then script
      else
        case removeLoop (\<lambda>op data. isCanonicalPush op data \<and>
               containsBytes (case data of None \<Rightarrow> [] | Some d \<Rightarrow> d) dataToRemove) script of
          None \<Rightarrow> script
        | Some result \<Rightarrow> result)"

section \<open>Scripts as lists of tokens\<close>

text \<open>
  The reference: the opcode at the head of some bytes, its data and the number of bytes it takes,
  and the tokens up to the first opcode that does not parse, each with its bytes.\<close>

definition token1 :: "byte list \<Rightarrow> (byte \<times> byte list option \<times> nat) option" where
  "token1 bs =
     (case bs of
        [] \<Rightarrow> None
      | op # rest \<Rightarrow>
          let len = opcodeLength op in
          if len = 1 then Some (op, None, 1)
          else if len > 1 then
            if length bs < nat len then None else Some (op, Some (take (nat len - 1) rest), nat len)
          else
            let k = nat (- len);
                n = (if k = 4 then sint (word_of_nat (le_nat (take k rest)) :: uint32) else int (le_nat (take k rest)))
            in
            if length rest < k \<or> n < 0 \<or> length rest < k + nat n then None
            else Some (op, Some (take (nat n) (drop k rest)), 1 + k + nat n))"

lemma token1_bounds:
  assumes "token1 bs = Some (op, data, n)"
  shows "0 < n" "n \<le> length bs" "op = hd bs"
proof -
  have "0 < n \<and> n \<le> length bs \<and> op = hd bs"
    using assms by (auto simp: token1_def Let_def split: list.splits if_splits)
  then show "0 < n" "n \<le> length bs" "op = hd bs" by simp_all
qed

lemma opcodeLength_neg: "opcodeLength op < 1 \<Longrightarrow> opcodeLength op \<in> {-1, -2, -4}"
  using uint_ge_0 [of op] unfolding opcodeLength_def by (simp split: if_splits)

lemma token1_local:
  assumes "token1 bs = Some (op, data, n)"
  shows "token1 (take n bs @ cs) = Some (op, data, n)"
proof -
  obtain rest where bs: "bs = op # rest" and "0 < n" "n \<le> length bs"
    using assms token1_bounds [OF assms] by (cases bs) (auto simp: token1_def)
  then obtain m where n: "n = Suc m" and m: "m \<le> length rest" by (cases n) auto
  consider "opcodeLength op = 1" | "opcodeLength op > 1" | "opcodeLength op < 1" by linarith
  then show ?thesis
  proof cases
    case 1
    then show ?thesis using assms by (simp add: token1_def bs n)
  next
    case 2
    then obtain k where k: "opcodeLength op = int (Suc k)" "0 < k"
      using that [of "nat (opcodeLength op) - 1"] by simp
    then have tok: "token1 (op # xs) = (if length xs < k then None else Some (op, Some (take k xs), Suc k))" for xs
      by (simp add: token1_def nat_add_distrib)
    show ?thesis using assms m by (auto simp: bs n tok split: if_splits)
  next
    case 3
    then obtain k where k: "opcodeLength op = - int k" "0 < k"
      using opcodeLength_neg [of op] that [of 1] that [of 2] that [of 4] by auto
    define v where "v xs = (if k = 4 then sint (word_of_nat (le_nat (take k xs)) :: uint32)
      else int (le_nat (take k xs)))" for xs
    have tok: "token1 (op # xs) = (if length xs < k \<or> v xs < 0 \<or> length xs < k + nat (v xs) then None
      else Some (op, Some (take (nat (v xs)) (drop k xs)), 1 + k + nat (v xs)))" for xs
      using k by (simp add: token1_def v_def Let_def)
    from assms have v: "0 \<le> v rest" "m = k + nat (v rest)" "data = Some (take (nat (v rest)) (drop k rest))"
      by (auto simp: bs n tok split: if_splits)
    define ys where "ys = take m rest @ cs"
    have "k \<le> m" using v(2) by simp
    then have "take k ys = take k rest" using m by (simp add: ys_def min_def)
    then have "v ys = v rest" unfolding v_def by (simp only:)
    moreover have "m \<le> length ys" "take (nat (v rest)) (drop k ys) = take (nat (v rest)) (drop k rest)"
      using m v(2) by (simp_all add: ys_def drop_take)
    ultimately have ys: "v ys = v rest" "m \<le> length ys"
      "take (nat (v rest)) (drop k ys) = take (nat (v rest)) (drop k rest)" by blast+
    then have "\<not> (length ys < k \<or> v ys < 0 \<or> length ys < k + nat (v ys))" using v(1,2) by simp
    then have "token1 (op # ys) = Some (op, data, n)" unfolding tok using ys v n by simp
    then show ?thesis by (simp add: bs n ys_def)
  qed
qed

lemma int_less_uint: "int n < uint w \<longleftrightarrow> n < unat w"
  by (metis of_nat_less_iff of_nat_unat)

lemma Next_token1:
  assumes "\<not> Done t"
  shows "Next t =
    (case token1 (drop (tz_offset t) (tz_script t)) of
       None \<Rightarrow> (False, t\<lparr>tz_opcodePos := tz_opcodePos t + 1, tz_err := Some ErrMalformedPush\<rparr>)
     | Some (op, data, n) \<Rightarrow>
         (True, t\<lparr>tz_opcodePos := tz_opcodePos t + 1, tz_offset := tz_offset t + n, tz_op := Some op, tz_data := data\<rparr>))"
proof -
  obtain pre op rest ver opos o1 d1 where
    t: "t = \<lparr>tz_script = pre @ op # rest, tz_version = ver, tz_offset = length pre, tz_opcodePos = opos, tz_op = o1,
            tz_data = d1, tz_err = None\<rparr>"
  proof -
    obtain s ver off opos o1 d1 e where t: "t = \<lparr>tz_script = s, tz_version = ver, tz_offset = off, tz_opcodePos = opos,
      tz_op = o1, tz_data = d1, tz_err = e\<rparr>" by (cases t)
    moreover from assms t have "off < length s" "e = None" by (simp_all add: Done_def)
    moreover from this have "s = take off s @ s ! off # drop (Suc off) s" by (simp add: id_take_nth_drop)
    ultimately show thesis using that [of "take off s" "s ! off" "drop (Suc off) s" ver opos o1 d1] by simp
  qed
  consider (one) "opcodeLength op = 1" | (data) k where "opcodeLength op = int k" "1 < k"
      | (k1) "opcodeLength op = -1" | (k2) "opcodeLength op = -2" | (k4) "opcodeLength op = -4"
    using opcodeLength_neg [of op] by (cases "opcodeLength op") fastforce+
  then show ?thesis
  proof cases
    case one
    then show ?thesis by (simp add: t Next_def Done_def token1_def)
  next
    case data
    then show ?thesis by (cases k) (simp_all add: t Next_def Done_def token1_def slice_def Let_def nat_add_distrib)
  next
    case k1
    then show ?thesis by (cases rest) (simp_all add: t Next_def Done_def token1_def Let_def not_le int_less_uint)
  next
    case k2
    then show ?thesis by (simp add: t Next_def Done_def token1_def Let_def not_le)
  next
    case k4
    then show ?thesis by (simp add: t Next_def Done_def token1_def Let_def not_le) arith
  qed
qed

lemma token1_less: "token1 bs = Some (op, data, n) \<Longrightarrow> length bs - n < length bs"
  using token1_bounds [of bs op data n] by linarith

text \<open>
  The tokens of a script, and what remains from the first opcode that does not parse.\<close>

function parseScript :: "byte list \<Rightarrow> (byte \<times> byte list option \<times> byte list) list" where
  "parseScript bs =
     (case token1 bs of
        None \<Rightarrow> []
      | Some (op, data, n) \<Rightarrow> (op, data, take n bs) # parseScript (drop n bs))"
  by auto

termination
  by (relation "measure length") (auto dest: token1_less)

declare parseScript.simps [simp del]

lemma parseScript_None: "token1 bs = None \<Longrightarrow> parseScript bs = []"
  by (simp add: parseScript.simps)

lemma parseScript_Some:
  "token1 bs = Some (op, data, n) \<Longrightarrow> parseScript bs = (op, data, take n bs) # parseScript (drop n bs)"
  by (subst parseScript.simps) simp

lemma parseScript_Nil [simp]: "parseScript [] = []"
  by (simp add: parseScript_None token1_def)

text \<open>The bytes of a token parse as this token and nothing else.\<close>

definition wf_token :: "byte \<times> byte list option \<times> byte list \<Rightarrow> bool" where
  "wf_token tok \<longleftrightarrow> (case tok of (op, data, raw) \<Rightarrow> token1 raw = Some (op, data, length raw))"

lemma token1_wf: "token1 bs = Some (op, data, n) \<Longrightarrow> wf_token (op, data, take n bs)"
  using token1_local [of bs op data n "[]"] token1_bounds [of bs op data n] by (simp add: wf_token_def)

lemma parseScript_wf: "tok \<in> set (parseScript bs) \<Longrightarrow> wf_token tok"
proof (induction bs rule: parseScript.induct)
  case (1 bs)
  then show ?case
    by (cases "token1 bs") (auto simp: parseScript_None parseScript_Some token1_wf)
qed

lemma parseScript_append: "wf_token (op, data, raw) \<Longrightarrow> parseScript (raw @ bs) = (op, data, raw) # parseScript bs"
  using token1_local [of raw op data "length raw" bs] by (simp add: wf_token_def parseScript_Some)

lemma parseScript_concat:
  "\<forall>tok \<in> set toks. wf_token tok \<Longrightarrow> parseScript (concat (map (snd \<circ> snd) toks)) = toks"
  by (induction toks) (auto simp: parseScript_append)

section \<open>The loop over a tokenizer\<close>

text \<open>The state of the tokenizer where it stops.\<close>

definition parseEnd :: "ScriptTokenizer \<Rightarrow> ScriptTokenizer" where
  "parseEnd t = snd (tokenLoop (\<lambda>_ _. ((), False)) () t)"

definition tokens :: "ScriptTokenizer \<Rightarrow> (byte \<times> byte list option \<times> byte list) list" where
  "tokens t = (if tz_err t = None then parseScript (drop (tz_offset t) (tz_script t)) else [])"

lemma tokens_stop: "Next t = (False, t') \<Longrightarrow> tokens t = []"
  by (cases "Done t") (auto simp: tokens_def Next_token1 Done_def parseScript_None split: option.splits)

lemma tokens_step:
  assumes "Next t = (True, t')"
  shows "tokens t = (the (tz_op t'), tz_data t', slice (tz_offset t) (tz_offset t') (tz_script t)) # tokens t'"
proof -
  from assms have "\<not> Done t" by (auto simp: Next_def)
  with assms show ?thesis
    by (auto simp: Next_token1 tokens_def Done_def parseScript_Some slice_def add.commute split: option.splits)
qed

lemma tokens_Cons:
  assumes "tokens t = (op, data, raw) # toks"
  obtains t' where "Next t = (True, t')" "tz_op t' = Some op" "tz_data t' = data" "tokens t' = toks"
    "tz_script t' = tz_script t" "tz_offset t' = tz_offset t + length raw" "tz_err t' = None"
proof -
  obtain ok t' where N: "Next t = (ok, t')" by (cases "Next t")
  with assms have ok by (cases ok) (simp_all add: tokens_stop)
  with N have N: "Next t = (True, t')" by simp
  then have "\<not> Done t" by (auto simp: Next_def)
  with N obtain o' d n where n: "token1 (drop (tz_offset t) (tz_script t)) = Some (o', d, n)"
      "t' = t\<lparr>tz_opcodePos := tz_opcodePos t + 1, tz_offset := tz_offset t + n, tz_op := Some o', tz_data := d\<rparr>"
    by (auto simp: Next_token1 split: option.splits)
  with token1_bounds(2) [OF n(1)] assms N tokens_step [OF N] Next_advances [OF N] show thesis
    by (intro that [of t']) (auto simp: slice_def)
qed

lemma tokens_not_Done: "tokens t \<noteq> [] \<Longrightarrow> \<not> Done t"
  using tokens_stop [of t t] by (auto simp: Next_def)

text \<open>A loop that never breaks is a fold over the tokens.\<close>

lemma tokenLoop_fold:
  "tokenLoop (\<lambda>s t. (f s (the (tz_op t)) (tz_data t), False)) s t =
     (fold (\<lambda>(op, data, raw) s. f s op data) (tokens t) s, parseEnd t)"
proof (induction "length (tz_script t) - tz_offset t" arbitrary: s t rule: less_induct)
  case less
  obtain ok t' where N: "Next t = (ok, t')" by (cases "Next t")
  show ?case
  proof (cases ok)
    case True
    with N have "length (tz_script t') - tz_offset t' < length (tz_script t) - tz_offset t"
      by (intro Next_measure) simp
    from less [OF this] N True show ?thesis
      by (simp add: tokenLoop.simps [of _ _ t] tokens_step parseEnd_def)
  next
    case False
    with N show ?thesis by (simp add: tokenLoop.simps [of _ _ t] tokens_stop parseEnd_def)
  qed
qed

lemma tokens_Make [simp]: "tokens (MakeScriptTokenizer 0 script) = parseScript script"
  by (simp add: tokens_def MakeScriptTokenizer_def)

lemma parseEnd_stop: "Next t = (False, t') \<Longrightarrow> parseEnd t = t'"
  by (simp add: parseEnd_def tokenLoop.simps [of _ _ t])

lemma parseEnd_step: "Next t = (True, t') \<Longrightarrow> parseEnd t = parseEnd t'"
  by (simp add: parseEnd_def tokenLoop.simps [of _ _ t])

text \<open>The raw bytes of some tokens.\<close>

definition rawBytes :: "(byte \<times> byte list option \<times> byte list) list \<Rightarrow> byte list" where
  "rawBytes toks = concat (map (snd \<circ> snd) toks)"

lemma rawBytes_simps [simp]: "rawBytes [] = []" "rawBytes ((op, data, raw) # toks) = raw @ rawBytes toks"
  by (simp_all add: rawBytes_def)

lemma parseScript_rawBytes: "\<forall>tok \<in> set toks. wf_token tok \<Longrightarrow> parseScript (rawBytes toks) = toks"
  by (simp add: rawBytes_def parseScript_concat)

lemma parse_prefix: "\<exists>rest. bs = rawBytes (parseScript bs) @ rest \<and> token1 rest = None"
proof (induction bs rule: parseScript.induct)
  case (1 bs)
  show ?case
  proof (cases "token1 bs")
    case None
    then show ?thesis by (simp add: parseScript_None)
  next
    case (Some tok)
    obtain op data n where "tok = (op, data, n)" by (cases tok)
    with Some have tok: "token1 bs = Some (op, data, n)" by simp
    from 1 [OF this refl refl] obtain rest
      where "drop n bs = rawBytes (parseScript (drop n bs)) @ rest" "token1 rest = None" by blast
    moreover have "bs = take n bs @ drop n bs" by simp
    ultimately have "bs = take n bs @ rawBytes (parseScript (drop n bs)) @ rest" by simp
    with tok \<open>token1 rest = None\<close> show ?thesis by (auto simp: parseScript_Some)
  qed
qed

lemma parseEnd_err:
  "tz_err t = None \<Longrightarrow> tz_offset t \<le> length (tz_script t) \<Longrightarrow>
     tz_err (parseEnd t) = None \<longleftrightarrow> rawBytes (tokens t) = drop (tz_offset t) (tz_script t)"
proof (induction "length (tz_script t) - tz_offset t" arbitrary: t rule: less_induct)
  case less
  show ?case
  proof (cases "Done t")
    case True
    then have "Next t = (False, t)" by (simp add: Next_def)
    with True less.prems show ?thesis by (simp add: parseEnd_stop tokens_stop Done_def)
  next
    case False
    show ?thesis
    proof (cases "token1 (drop (tz_offset t) (tz_script t))")
      case None
      with False have "Next t = (False, t\<lparr>tz_opcodePos := tz_opcodePos t + 1, tz_err := Some ErrMalformedPush\<rparr>)"
        by (simp add: Next_token1)
      with False show ?thesis by (simp add: parseEnd_stop tokens_stop Done_def)
    next
      case (Some tok)
      obtain op data n where tok: "tok = (op, data, n)" by (cases tok)
      define t' where "t' = t\<lparr>tz_opcodePos := tz_opcodePos t + 1, tz_offset := tz_offset t + n,
        tz_op := Some op, tz_data := data\<rparr>"
      have N: "Next t = (True, t')" using False Some tok by (simp add: Next_token1 t'_def)
      have n: "0 < n" "n \<le> length (tz_script t) - tz_offset t"
        using token1_bounds(1,2) [of "drop (tz_offset t) (tz_script t)" op data n] Some tok by simp_all
      then have IH: "tz_err (parseEnd t') = None \<longleftrightarrow> rawBytes (tokens t') = drop (tz_offset t') (tz_script t')"
        using less.prems False by (intro less.hyps) (auto simp: t'_def Done_def)
      have "drop (tz_offset t) (tz_script t) = slice (tz_offset t) (tz_offset t') (tz_script t) @ drop (tz_offset t') (tz_script t')"
        using append_take_drop_id [of n "drop (tz_offset t) (tz_script t)"] by (simp add: t'_def slice_def add.commute)
      with IH show ?thesis by (simp add: parseEnd_step [OF N] tokens_step [OF N])
    qed
  qed
qed

lemma checkScriptParses_iff: "checkScriptParses 0 script = None \<longleftrightarrow> rawBytes (parseScript script) = script"
  using parseEnd_err [of "MakeScriptTokenizer 0 script"]
  by (simp add: checkScriptParses_def parseEnd_def [symmetric]) (simp add: MakeScriptTokenizer_def)

text \<open>
  The format of one opcode, written out: an opcode without data is its byte, a direct push is followed by as
  many bytes as its value, and the three pushes with a length by that length in little endian and the bytes.
  The longest length is the largest \<^verbatim>\<open>int32\<close>.\<close>

definition encodedOp :: "byte \<Rightarrow> byte list option \<Rightarrow> byte list \<Rightarrow> bool" where
  "encodedOp op data raw \<longleftrightarrow>
     (case data of
        None \<Rightarrow> raw = [op] \<and> (op = 0 \<or> 78 < op)
      | Some d \<Rightarrow>
          0 < op \<and> op \<le> 75 \<and> length d = unat op \<and> raw = op # d \<or>
          op = 76 \<and> length d < 2 ^ 8 \<and> raw = op # le_bytes 1 (length d) @ d \<or>
          op = 77 \<and> length d < 2 ^ 16 \<and> raw = op # le_bytes 2 (length d) @ d \<or>
          op = 78 \<and> length d < 2 ^ 31 \<and> raw = op # le_bytes 4 (length d) @ d)"

lemma opcodeLength_cases:
  "opcodeLength op = 1 \<longleftrightarrow> op = 0 \<or> 78 < op"
  "opcodeLength op > 1 \<longleftrightarrow> 0 < op \<and> op \<le> 75"
  "opcodeLength op = -1 \<longleftrightarrow> op = 76" "opcodeLength op = -2 \<longleftrightarrow> op = 77" "opcodeLength op = -4 \<longleftrightarrow> op = 78"
proof -
  have u: "op = 0 \<longleftrightarrow> unat op = 0" "78 < op \<longleftrightarrow> 78 < unat op" "0 < op \<longleftrightarrow> 0 < unat op" "op \<le> 75 \<longleftrightarrow> unat op \<le> 75"
    "op = 76 \<longleftrightarrow> unat op = 76" "op = 77 \<longleftrightarrow> unat op = 77" "op = 78 \<longleftrightarrow> unat op = 78"
    "1 \<le> op \<longleftrightarrow> 1 \<le> unat op" "op < 76 \<longleftrightarrow> unat op < 76" "uint op = int (unat op)"
    by (simp_all add: word_less_nat_alt word_le_nat_alt word_unat_eq_iff)
  show "opcodeLength op = 1 \<longleftrightarrow> op = 0 \<or> 78 < op" "opcodeLength op > 1 \<longleftrightarrow> 0 < op \<and> op \<le> 75"
    "opcodeLength op = -1 \<longleftrightarrow> op = 76" "opcodeLength op = -2 \<longleftrightarrow> op = 77" "opcodeLength op = -4 \<longleftrightarrow> op = 78"
    unfolding opcodeLength_def u by (auto simp del: of_nat_unat)
qed

lemma sint_uint32:
  assumes "k < 2 ^ 32"
  shows "sint (word_of_nat k :: uint32) = (if k < 2 ^ 31 then int k else int k - 2 ^ 32)"
proof -
  have "take_bit 32 (int k) = int k" using assms by (intro take_bit_int_eq_self) simp_all
  moreover have "bit (int k) 31 \<longleftrightarrow> 2 ^ 31 \<le> k"
  proof (cases "k < 2 ^ 31")
    case False
    then have "int k div 2 ^ 31 = 1" using assms by (intro int_div_pos_eq [where r = "int k - 2 ^ 31"]) simp_all
    with False show ?thesis by (simp add: bit_iff_odd)
  qed (simp add: bit_iff_odd)
  ultimately show ?thesis by (simp add: signed_of_nat signed_take_bit_eq_take_bit_minus)
qed

text \<open>The parser of one opcode reads exactly this format.\<close>

lemma token1_direct:
  assumes "0 < op" "op \<le> 75"
  shows "token1 (op # xs) = (if length xs < unat op then None else Some (op, Some (take (unat op) xs), Suc (unat op)))"
proof -
  have "opcodeLength op = int (Suc (unat op))" "0 < unat op" using assms by (simp_all add: opcodeLength_def word_le_nat_alt word_less_nat_alt)
  then show ?thesis by (simp add: token1_def nat_add_distrib del: of_nat_unat)
qed

lemma token1_len:
  assumes "opcodeLength op = - int k" "k \<in> {1, 2, 4}" "length lb = k" "length d = le_nat lb" "length d < 2 ^ 31"
  shows "token1 (op # lb @ d) = Some (op, Some d, length (op # lb @ d))"
proof -
  have "sint (word_of_nat (length d) :: uint32) = int (length d)" using assms(5) by (simp add: sint_uint32)
  then show ?thesis using assms(1-4) by (auto simp: token1_def Let_def)
qed

lemma encodedOp_token1: "encodedOp op data raw \<Longrightarrow> token1 raw = Some (op, data, length raw)"
proof -
  assume enc: "encodedOp op data raw"
  have len: "length d = le_nat (le_bytes k (length d))" if "length d < 256 ^ k" for d :: "byte list" and k
    using that by (simp add: le_nat_le_bytes)
  show ?thesis
  proof (cases data)
    case None
    with enc show ?thesis by (auto simp: encodedOp_def token1_def opcodeLength_cases(1) [symmetric])
  next
    case (Some d)
    with enc consider (direct) "0 < op" "op \<le> 75" "length d = unat op" "raw = op # d"
      | (pushed) k where "opcodeLength op = - int k" "k \<in> {1, 2, 4}" "length d < 256 ^ k" "length d < 2 ^ 31" "raw = op # le_bytes k (length d) @ d"
      using opcodeLength_cases(3-5) [of op] by (fastforce simp: encodedOp_def)
    then show ?thesis
    proof cases
      case direct
      then show ?thesis using Some by (simp add: token1_direct)
    next
      case (pushed k)
      from token1_len [OF pushed(1,2) length_le_bytes len [OF pushed(3)] pushed(4)] pushed(5) Some show ?thesis by simp
    qed
  qed
qed

lemma token1_encodedOp:
  assumes "token1 raw = Some (op, data, length raw)"
  shows "encodedOp op data raw"
proof -
  obtain rest where raw: "raw = op # rest" using assms by (cases raw) (auto simp: token1_def Let_def split: if_splits)
  consider (one) "opcodeLength op = 1" | (data) "opcodeLength op > 1" | (len) "opcodeLength op < 1" by linarith
  then show ?thesis
  proof cases
    case one
    with assms show ?thesis by (auto simp: raw token1_def encodedOp_def opcodeLength_cases(1) [symmetric])
  next
    case data
    then have op: "0 < op" "op \<le> 75" using opcodeLength_cases(2) [of op] by simp_all
    with assms have "data = Some rest" "length rest = unat op" by (auto simp: raw token1_direct split: if_splits)
    with op show ?thesis by (simp add: raw encodedOp_def)
  next
    case len
    then obtain k where k: "opcodeLength op = - int k" "k \<in> {1, 2, 4}" using opcodeLength_neg [of op] that [of 1] that [of 2] that [of 4] by auto
    define n where "n = le_nat (take k rest)"
    define v where "v = (if k = 4 then sint (word_of_nat n :: uint32) else int n)"
    from assms k have v: "k \<le> length rest" "0 \<le> v" "length rest = k + nat v" "data = Some (drop k rest)"
      by (auto simp: raw token1_def Let_def n_def v_def split: if_splits)
    have lenk: "length (take k rest) = k" using v(1) by simp
    have small: "n < 256 ^ k" using le_nat_less [of "take k rest"] unfolding lenk n_def .
    have n: "v = int n \<and> (k = 4 \<longrightarrow> n < 2 ^ 31)"
      using v(2) small by (cases "k = 4") (auto simp: v_def sint_uint32 split: if_splits)
    have "take k rest = le_bytes k n" using le_bytes_le_nat [of "take k rest"] unfolding lenk n_def by simp
    then have "rest = le_bytes k n @ drop k rest" using append_take_drop_id [of k rest] by simp
    moreover have "length (drop k rest) = n" using v(3) n by simp
    ultimately have raw': "raw = op # le_bytes k (length (drop k rest)) @ drop k rest" "length (drop k rest) = n" using raw by simp_all
    from k(2) consider "k = 1" "op = 76" | "k = 2" "op = 77" | "k = 4" "op = 78" using k(1) opcodeLength_cases(3-5) [of op] by auto
    then show ?thesis using raw' n small unfolding v(4) encodedOp_def option.case by cases simp_all
  qed
qed

text \<open>What a loop over the tokenizer sees: the opcode and the data after each call of \<^verbatim>\<open>Next\<close>, with the bytes between
  the offset before the call and the offset after it.\<close>

definition readTokens :: "byte list \<Rightarrow> (byte \<times> byte list option \<times> byte list) list" where
  "readTokens script =
     fst (fst (tokenLoop (\<lambda>(toks, prev) t.
         ((toks @ [(the (tz_op t), tz_data t, slice prev (tz_offset t) (tz_script t))], tz_offset t), False))
       ([], 0) (MakeScriptTokenizer 0 script)))"

lemma readTokens_gen:
  "fst (fst (tokenLoop (\<lambda>(toks, prev) t.
      ((toks @ [(the (tz_op t), tz_data t, slice prev (tz_offset t) (tz_script t))], tz_offset t), False)) (toks, tz_offset t) t)) =
   toks @ tokens t"
proof (induction "length (tz_script t) - tz_offset t" arbitrary: toks t rule: less_induct)
  case less
  obtain ok t' where N: "Next t = (ok, t')" by (cases "Next t")
  show ?case
  proof (cases ok)
    case True
    with N have step: "Next t = (True, t')" by simp
    then have "length (tz_script t') - tz_offset t' < length (tz_script t) - tz_offset t" by (intro Next_measure) simp
    from less [OF this] Next_advances(1) [OF step] show ?thesis
      by (subst tokenLoop.simps) (simp add: step tokens_step [OF step])
  next
    case False
    with N show ?thesis by (subst tokenLoop.simps) (simp add: tokens_stop)
  qed
qed

lemma readTokens_parseScript: "readTokens script = parseScript script"
  using readTokens_gen [of "[]" "MakeScriptTokenizer 0 script"]
  by (simp add: readTokens_def) (simp add: MakeScriptTokenizer_def)

text \<open>C37: The tokenizer reads the format of scripts.  What its calls of \<^verbatim>\<open>Next\<close> return are consecutive pieces of the script from
  its first byte on, each the encoding of the opcode and the data returned; they end where no further
  opcode is encoded, and the script parses without an error exactly when they are all of it.\<close>

theorem tokenizer_partitions_script:
  "\<exists>rest. script = rawBytes (readTokens script) @ rest \<and>
     list_all (\<lambda>(op, data, raw). encodedOp op data raw) (readTokens script) \<and>
     (\<nexists>op data raw more. encodedOp op data raw \<and> rest = raw @ more) \<and>
     (checkScriptParses 0 script = None \<longleftrightarrow> rest = [])"
proof -
  obtain rest where rest: "script = rawBytes (parseScript script) @ rest" "token1 rest = None" using parse_prefix by blast
  have parses: "checkScriptParses 0 script = None \<longleftrightarrow> rest = []"
    using rest(1) checkScriptParses_iff [of script] by (metis append.right_neutral append_self_conv)
  have "encodedOp op data raw" if "(op, data, raw) \<in> set (parseScript script)" for op data raw
    using parseScript_wf [OF that] by (simp add: wf_token_def token1_encodedOp)
  then have "list_all (\<lambda>(op, data, raw). encodedOp op data raw) (parseScript script)" by (auto simp: list_all_iff)
  moreover have "\<nexists>op data raw more. encodedOp op data raw \<and> rest = raw @ more"
  proof clarify
    fix op data raw more assume "encodedOp op data raw" "rest = raw @ more"
    with token1_local [OF encodedOp_token1, of op data raw more] rest(2) show False by simp
  qed
  ultimately show ?thesis unfolding readTokens_parseScript using rest(1) parses by (intro exI [of _ rest] conjI)
qed

section \<open>Removal\<close>

text \<open>The bytes of the tokens that do not match.\<close>

abbreviation keptTokens where
  "keptTokens matches toks \<equiv> filter (\<lambda>(op, data, raw). \<not> matches op data) toks"

lemma removeLoop_gen:
  assumes "tz_script t = script"
  shows "fst (fst (tokenLoop (removeBody matches script) (res, tz_offset t) t)) =
     (case res of
        Some r \<Rightarrow> Some (r @ rawBytes (keptTokens matches (tokens t)))
      | None \<Rightarrow>
          if keptTokens matches (tokens t) = tokens t then None
          else Some (take (tz_offset t) script @ rawBytes (keptTokens matches (tokens t))))"
  using assms
proof (induction "length (tz_script t) - tz_offset t" arbitrary: res t rule: less_induct)
  case less
  obtain ok t' where N: "Next t = (ok, t')" by (cases "Next t")
  show ?case
  proof (cases ok)
    case False
    with N show ?thesis by (simp add: tokenLoop.simps [of _ _ t] tokens_stop split: option.splits)
  next
    case True
    with N have m: "length (tz_script t') - tz_offset t' < length (tz_script t) - tz_offset t"
      by (intro Next_measure) simp
    from N True have adv: "tz_script t' = script" "tz_offset t < tz_offset t'"
      using Next_advances [of t t'] less.prems by simp_all
    have tk: "take (tz_offset t') script = take (tz_offset t) script @ slice (tz_offset t) (tz_offset t') script"
      using adv(2) take_add [of "tz_offset t" "tz_offset t' - tz_offset t" script] by (simp add: slice_def)
    have ne: "keptTokens matches (tokens t') \<noteq> x # tokens t'" for x
      using length_filter_le [of "\<lambda>(op, data, raw). \<not> matches op data" "tokens t'"] by (metis Suc_n_not_le_n length_Cons)
    have "tokenLoop (removeBody matches script) (res, tz_offset t) t =
        tokenLoop (removeBody matches script) (fst (removeBody matches script (res, tz_offset t) t')) t'"
      using N True by (simp add: tokenLoop.simps [of _ _ t] removeBody_def Let_def split: prod.splits)
    also have "fst (removeBody matches script (res, tz_offset t) t') =
        (if matches (the (tz_op t')) (tz_data t')
         then (case res of None \<Rightarrow> Some (take (tz_offset t) script) | Some r \<Rightarrow> Some r)
         else map_option (\<lambda>r. r @ slice (tz_offset t) (tz_offset t') script) res, tz_offset t')"
      by (simp add: removeBody_def Let_def)
    finally show ?thesis
      using N True tk ne by (simp add: less.hyps [OF m adv(1)] tokens_step less.prems split: option.splits)
  qed
qed

lemma removeLoop_eq:
  "removeLoop matches script =
     (if keptTokens matches (parseScript script) = parseScript script then None
      else Some (rawBytes (keptTokens matches (parseScript script))))"
  using removeLoop_gen [of "MakeScriptTokenizer 0 script" script matches None]
  by (simp add: removeLoop_def MakeScriptTokenizer_def tokens_def)

lemma parseScript_kept: "parseScript (rawBytes (keptTokens matches (parseScript script))) = keptTokens matches (parseScript script)"
  by (rule parseScript_rawBytes) (auto dest: parseScript_wf)

text \<open>C38: Removing an opcode, or the canonical pushes that contain some data, removes exactly the matching opcodes from
  the sequence of opcodes the script reads as, and keeps the data and the order of all others; a script
  with nothing to remove is returned as it is.\<close>

theorem remove_opcode_filters:
  "tokens (MakeScriptTokenizer 0 (removeOpcodeRaw script opcode)) =
     filter (\<lambda>(op, data, raw). op \<noteq> opcode) (tokens (MakeScriptTokenizer 0 script)) \<and>
   tokens (MakeScriptTokenizer 0 (removeOpcodeByData script dataToRemove)) =
     filter (\<lambda>(op, data, raw).
        \<not> (dataToRemove \<noteq> [] \<and> isCanonicalPush op data \<and> containsBytes (case data of None \<Rightarrow> [] | Some d \<Rightarrow> d) dataToRemove))
       (tokens (MakeScriptTokenizer 0 script)) \<and>
   (opcode \<notin> fst ` set (tokens (MakeScriptTokenizer 0 script)) \<longleftrightarrow> removeOpcodeRaw script opcode = script)"
proof -
  have raw: "parseScript (removeOpcodeRaw script opcode) = filter (\<lambda>(op, data, raw). op \<noteq> opcode) (parseScript script)"
    using parseScript_kept [of "\<lambda>op data. op = opcode" script] by (simp add: removeOpcodeRaw_def removeLoop_eq)
  have same: "removeOpcodeRaw script opcode = script"
    if "filter (\<lambda>(op, data, raw). op \<noteq> opcode) (parseScript script) = parseScript script"
    using that by (simp add: removeOpcodeRaw_def removeLoop_eq)
  have "opcode \<notin> fst ` set (parseScript script) \<longleftrightarrow>
      filter (\<lambda>(op, data, raw). op \<noteq> opcode) (parseScript script) = parseScript script"
    by (force simp: filter_id_conv)
  then have "opcode \<notin> fst ` set (parseScript script) \<longleftrightarrow> removeOpcodeRaw script opcode = script"
    using raw same by metis
  moreover have "parseScript (removeOpcodeByData script dataToRemove) =
      filter (\<lambda>(op, data, raw).
        \<not> (dataToRemove \<noteq> [] \<and> isCanonicalPush op data \<and> containsBytes (case data of None \<Rightarrow> [] | Some d \<Rightarrow> d) dataToRemove)) (parseScript script)"
    using parseScript_kept [of "\<lambda>op data. isCanonicalPush op data \<and>
      containsBytes (case data of None \<Rightarrow> [] | Some d \<Rightarrow> d) dataToRemove" script]
    by (cases "dataToRemove = []") (simp_all add: removeOpcodeByData_def removeLoop_eq)
  ultimately show ?thesis using raw by simp
qed

section \<open>Signature operations\<close>

lemma asSmallInt_le: "OP_1 \<le> op \<Longrightarrow> op \<le> OP_16 \<Longrightarrow> asSmallInt op \<le> 16"
proof -
  assume "OP_1 \<le> op" "op \<le> OP_16"
  then have "0x51 \<le> unat op" "unat op \<le> 0x60" by (simp_all add: word_le_nat_alt)
  then show ?thesis by (simp add: asSmallInt_def unat_sub word_le_nat_alt) linarith
qed

lemma length_parseScript: "length (parseScript bs) \<le> length bs"
proof (induction bs rule: parseScript.induct)
  case (1 bs)
  show ?case
  proof (cases "token1 bs")
    case (Some tok)
    obtain op data n where "tok = (op, data, n)" by (cases tok)
    with Some have tok: "token1 bs = Some (op, data, n)" by simp
    from 1 [OF this refl refl] token1_bounds(1,2) [OF tok] show ?thesis by (simp add: parseScript_Some [OF tok])
  qed (simp add: parseScript_None)
qed

lemma sigOps_fold:
  "n \<le> m \<Longrightarrow>
     fst (fold (\<lambda>(op, data, raw) s. sigOpBody True s op) toks (n, prev)) \<le>
       fst (fold (\<lambda>(op, data, raw) s. sigOpBody False s op) toks (m, prev)) \<and>
     fst (fold (\<lambda>(op, data, raw) s. sigOpBody False s op) toks (m, prev)) \<le> m + MaxPubKeysPerMultiSig * length toks"
proof (induction toks arbitrary: n m prev)
  case (Cons tok toks)
  obtain op data raw where tok: "tok = (op, data, raw)" by (cases tok)
  define n' where "n' = fst (sigOpBody True (n, prev) op)"
  define m' where "m' = fst (sigOpBody False (m, prev) op)"
  have "n' \<le> m'" "m' \<le> m + MaxPubKeysPerMultiSig"
    using Cons.prems asSmallInt_le [of prev] by (auto simp: n'_def m'_def sigOpBody_def)
  moreover have "sigOpBody True (n, prev) op = (n', op)" "sigOpBody False (m, prev) op = (m', op)"
    by (simp_all add: n'_def m'_def sigOpBody_def)
  ultimately show ?case using Cons.IH [of n' m' op] by (simp add: tok)
qed simp

lemma countSigOpsV0_fold:
  "countSigOpsV0 script precise =
     fst (fold (\<lambda>(op, data, raw) s. sigOpBody precise s op) (parseScript script) (0, OP_INVALIDOPCODE))"
  using tokenLoop_fold [of "\<lambda>s op data. sigOpBody precise s op"] by (simp add: countSigOpsV0_def)

text \<open>Counting precisely never counts more signature operations than the quick count, and neither exceeds twenty
  per opcode of the script.\<close>

theorem sigop_count_bounds:
  "countSigOpsV0 script True \<le> GetSigOpCount script \<and>
   GetSigOpCount script \<le> MaxPubKeysPerMultiSig * length (tokens (MakeScriptTokenizer 0 script)) \<and>
   GetSigOpCount script \<le> MaxPubKeysPerMultiSig * length script"
proof -
  have "MaxPubKeysPerMultiSig * length (parseScript script) \<le> MaxPubKeysPerMultiSig * length script"
    by (rule mult_le_mono2 [OF length_parseScript])
  moreover have "countSigOpsV0 script True \<le> GetSigOpCount script \<and>
      GetSigOpCount script \<le> MaxPubKeysPerMultiSig * length (parseScript script)"
    using sigOps_fold [of 0 0 "parseScript script" OP_INVALIDOPCODE] by (simp add: GetSigOpCount_def countSigOpsV0_fold)
  ultimately show ?thesis by (metis le_trans tokens_Make)
qed

end
