(* ===== verification/Script_Stack.thy ===== *)
theory Script_Stack
  imports Script_Num Script_Token
begin

unbundle bit_operations_syntax

text \<open>
  The stacks of the script engine (\<^verbatim>\<open>txscript/stack.go\<close>) and the errors of script execution
  (\<^verbatim>\<open>txscript/error.go\<close>).  As in the source, the last element of \<open>stk\<close> is the top of the stack.
  Stacks are shorter than \<open>2 ^ 31\<close>, so their \<^verbatim>\<open>int32\<close> depths do not wrap; an index computed from an argument is
  wrapped (\<open>int32\<close>).  An
  operation that fails leaves the stack undefined, so an error carries no stack.\<close>

section \<open>Errors\<close>

text \<open>
  The codes that the engine reports, in the groups of the source.  \<open>NumError\<close> and \<open>ScriptError\<close> hold
  the codes of script numbers and of the tokenizer and builder, \<open>OtherError\<close> the errors that are not a
  \<^verbatim>\<open>txscript.Error\<close>, and \<open>Panic\<close> a run-time panic, which no caller recovers from.\<close>

datatype encoding_error =
    ErrInvalidSigHashType | ErrSigTooShort | ErrSigTooLong | ErrSigInvalidSeqID | ErrSigInvalidDataLen
  | ErrSigMissingSTypeID | ErrSigMissingSLen | ErrSigInvalidSLen | ErrSigInvalidRIntID | ErrSigZeroRLen
  | ErrSigNegativeR | ErrSigTooMuchRPadding | ErrSigInvalidSIntID | ErrSigZeroSLen | ErrSigNegativeS
  | ErrSigTooMuchSPadding | ErrSigHighS | ErrPubKeyType

datatype witness_error =
    ErrWitnessMalleated | ErrWitnessMalleatedP2SH | ErrDiscourageUpgradableWitnessProgram
  | ErrWitnessProgramEmpty | ErrWitnessProgramMismatch | ErrWitnessProgramWrongLength | ErrWitnessUnexpected
  | ErrWitnessPubKeyType | ErrMinimalIf

datatype taproot_error =
    ErrDiscourageOpSuccess | ErrDiscourageUpgradeableTaprootVersion | ErrTapscriptCheckMultisig
  | ErrTaprootSigInvalid | ErrTaprootMerkleProofInvalid | ErrTaprootOutputKeyParityMismatch
  | ErrControlBlockTooSmall | ErrControlBlockTooLarge | ErrControlBlockInvalidLength | ErrWitnessHasNoAnnex
  | ErrInvalidTaprootSigLen | ErrTaprootPubkeyIsEmpty | ErrTaprootMaxSigOps | ErrDiscourageUpgradeablePubKeyType

datatype engine_error =
    NumError num_error
  | ScriptError script_error
  | EncodingError encoding_error
  | WitnessError witness_error
  | TaprootError taproot_error
  | OtherError string
  | Panic string
  | ErrInvalidIndex | ErrInvalidFlags | ErrInvalidProgramCounter | ErrScriptUnfinished
  | ErrEarlyReturn | ErrEmptyStack | ErrEvalFalse | ErrScriptTooBig | ErrElementTooBig | ErrTooManyOperations
  | ErrStackOverflow | ErrInvalidPubKeyCount | ErrInvalidSignatureCount
  | ErrVerify | ErrEqualVerify | ErrNumEqualVerify | ErrCheckSigVerify | ErrCheckMultiSigVerify
  | ErrDisabledOpcode | ErrReservedOpcode | ErrInvalidStackOperation | ErrUnbalancedConditional
  | ErrSigNullDummy | ErrCleanStack | ErrNullFail | ErrDiscourageUpgradableNOPs | ErrNegativeLockTime
  | ErrUnsatisfiedLockTime

type_synonym 'a eres = "engine_error + 'a"

section \<open>The stack\<close>

fun asBool :: "byte list \<Rightarrow> bool" where
  "asBool [] = False"
| "asBool (b # t) = (if b \<noteq> 0 then \<not> (t = [] \<and> b = 0x80) else asBool t)"

definition fromBool :: "bool \<Rightarrow> byte list" where
  "fromBool v = (if v then [1] else [])"

record stack =
  stk :: "byte list list"
  verifyMinimalData :: bool

abbreviation maxScriptNumLen :: nat where
  "maxScriptNumLen \<equiv> 4"

definition Depth :: "stack \<Rightarrow> int" where
  "Depth s = int (length (stk s))"

definition PushByteArray :: "byte list \<Rightarrow> stack \<Rightarrow> stack" where
  "PushByteArray so s = s\<lparr>stk := stk s @ [so]\<rparr>"

definition PushInt :: "int \<Rightarrow> stack \<Rightarrow> stack eres" where
  "PushInt val s = (case Bytes val of None \<Rightarrow> Inl (Panic ''Bytes'') | Some b \<Rightarrow> Inr (PushByteArray b s))"

definition PushBool :: "bool \<Rightarrow> stack \<Rightarrow> stack" where
  "PushBool val s = PushByteArray (fromBool val) s"

definition nipN :: "int \<Rightarrow> stack \<Rightarrow> (byte list \<times> stack) eres" where
  "nipN idx s =
     (let sz = int (length (stk s)) in
      if idx < 0 \<or> idx > sz - 1 then Inl ErrInvalidStackOperation
      else
        let so = stk s ! nat (sz - idx - 1) in
        if idx = 0 then Inr (so, s\<lparr>stk := take (nat (sz - 1)) (stk s)\<rparr>)
        else if idx = sz - 1 then Inr (so, s\<lparr>stk := drop 1 (stk s)\<rparr>)
        else
          let s1 = slice (nat (sz - idx)) (nat sz) (stk s)
          in Inr (so, s\<lparr>stk := take (nat (sz - idx - 1)) (stk s) @ s1\<rparr>))"

definition NipN :: "int \<Rightarrow> stack \<Rightarrow> stack eres" where
  "NipN idx s = rbind (nipN idx s) (\<lambda>(_, s). Inr s)"

definition PopByteArray :: "stack \<Rightarrow> (byte list \<times> stack) eres" where
  "PopByteArray s = nipN 0 s"

definition scriptNum :: "byte list \<Rightarrow> bool \<Rightarrow> nat \<Rightarrow> int eres" where
  "scriptNum so minimalData len = (case makeScriptNum so minimalData len of Inl e \<Rightarrow> Inl (NumError e) | Inr n \<Rightarrow> Inr n)"

definition PopInt :: "stack \<Rightarrow> (int \<times> stack) eres" where
  "PopInt s =
     rbind (PopByteArray s) (\<lambda>(so, s).
     rbind (scriptNum so (verifyMinimalData s) maxScriptNumLen) (\<lambda>n. Inr (n, s)))"

definition PopBool :: "stack \<Rightarrow> (bool \<times> stack) eres" where
  "PopBool s = rbind (PopByteArray s) (\<lambda>(so, s). Inr (asBool so, s))"

definition PeekByteArray :: "int \<Rightarrow> stack \<Rightarrow> byte list eres" where
  "PeekByteArray idx s =
     (let sz = int (length (stk s)) in
      if idx < 0 \<or> idx \<ge> sz then Inl ErrInvalidStackOperation
      else Inr (stk s ! nat (sz - idx - 1)))"

definition PeekInt :: "int \<Rightarrow> stack \<Rightarrow> int eres" where
  "PeekInt idx s = rbind (PeekByteArray idx s) (\<lambda>so. scriptNum so (verifyMinimalData s) maxScriptNumLen)"

definition PeekBool :: "int \<Rightarrow> stack \<Rightarrow> bool eres" where
  "PeekBool idx s = rbind (PeekByteArray idx s) (\<lambda>so. Inr (asBool so))"

definition Tuck :: "stack \<Rightarrow> stack eres" where
  "Tuck s =
     rbind (PopByteArray s) (\<lambda>(so2, s).
     rbind (PopByteArray s) (\<lambda>(so1, s).
       Inr (PushByteArray so2 (PushByteArray so1 (PushByteArray so2 s)))))"

text \<open>The loops of the operations on several items, by the number of iterations left.\<close>

primrec dropLoop :: "nat \<Rightarrow> stack \<Rightarrow> stack eres" where
  "dropLoop 0 s = Inr s"
| "dropLoop (Suc n) s = rbind (PopByteArray s) (\<lambda>(_, s). dropLoop n s)"

primrec peekLoop :: "nat \<Rightarrow> int \<Rightarrow> stack \<Rightarrow> stack eres" where
  "peekLoop 0 entry s = Inr s"
| "peekLoop (Suc i) entry s = rbind (PeekByteArray entry s) (\<lambda>so. peekLoop i entry (PushByteArray so s))"

primrec nipLoop :: "nat \<Rightarrow> int \<Rightarrow> stack \<Rightarrow> stack eres" where
  "nipLoop 0 entry s = Inr s"
| "nipLoop (Suc i) entry s = rbind (nipN entry s) (\<lambda>(so, s). nipLoop i entry (PushByteArray so s))"

definition DropN :: "int \<Rightarrow> stack \<Rightarrow> stack eres" where
  "DropN n s = (if n < 1 then Inl ErrInvalidStackOperation else dropLoop (nat n) s)"

definition DupN :: "int \<Rightarrow> stack \<Rightarrow> stack eres" where
  "DupN n s = (if n < 1 then Inl ErrInvalidStackOperation else peekLoop (nat n) (n - 1) s)"

definition RotN :: "int \<Rightarrow> stack \<Rightarrow> stack eres" where
  "RotN n s = (if n < 1 then Inl ErrInvalidStackOperation else nipLoop (nat n) (int32 (3 * n - 1)) s)"

definition SwapN :: "int \<Rightarrow> stack \<Rightarrow> stack eres" where
  "SwapN n s = (if n < 1 then Inl ErrInvalidStackOperation else nipLoop (nat n) (int32 (2 * n - 1)) s)"

definition OverN :: "int \<Rightarrow> stack \<Rightarrow> stack eres" where
  "OverN n s = (if n < 1 then Inl ErrInvalidStackOperation else peekLoop (nat n) (int32 (2 * n - 1)) s)"

definition PickN :: "int \<Rightarrow> stack \<Rightarrow> stack eres" where
  "PickN n s = rbind (PeekByteArray n s) (\<lambda>so. Inr (PushByteArray so s))"

definition RollN :: "int \<Rightarrow> stack \<Rightarrow> stack eres" where
  "RollN n s = rbind (nipN n s) (\<lambda>(so, s). Inr (PushByteArray so s))"

text \<open>The copies of a stack in and out of the engine (\<^verbatim>\<open>txscript/engine.go\<close>).\<close>

definition getStack :: "stack \<Rightarrow> byte list list" where
  "getStack s = rev (map (\<lambda>i. case PeekByteArray (int i) s of Inl _ \<Rightarrow> [] | Inr so \<Rightarrow> so) [0..<length (stk s)])"

definition dropAll :: "stack \<Rightarrow> stack" where
  "dropAll s = (case DropN (Depth s) s of Inl _ \<Rightarrow> s | Inr s' \<Rightarrow> s')"

definition setStack :: "byte list list \<Rightarrow> stack \<Rightarrow> stack" where
  "setStack data s = fold PushByteArray data (dropAll s)"

section \<open>Stacks as lists from the top\<close>

definition ontop :: "byte list list \<Rightarrow> stack \<Rightarrow> stack" where
  "ontop xs s = s\<lparr>stk := rev xs\<rparr>"

abbreviation items :: "stack \<Rightarrow> byte list list" where
  "items s \<equiv> rev (stk s)"

lemma items_ontop [simp]: "items (ontop xs s) = xs" "verifyMinimalData (ontop xs s) = verifyMinimalData s"
    "ontop ys (ontop xs s) = ontop ys s" "ontop (items s) s = s"
  by (simp_all add: ontop_def)

lemma stk_ontop [simp]: "stk (ontop xs s) = rev xs"
  by (simp add: ontop_def)

lemma PushByteArray_ontop: "PushByteArray so s = ontop (so # items s) s"
  by (simp add: PushByteArray_def ontop_def)

lemma nipN_ontop:
  "nipN idx s =
     (if 0 \<le> idx \<and> nat idx < length (items s)
      then Inr (items s ! nat idx, ontop (take (nat idx) (items s) @ drop (Suc (nat idx)) (items s)) s)
      else Inl ErrInvalidStackOperation)"
proof (cases "0 \<le> idx \<and> nat idx < length (items s)")
  case True
  define i where "i = nat idx"
  have i: "idx = int i" "i < length (stk s)" using True by (simp_all add: i_def)
  have n: "nat (int (length (stk s)) - int i - 1) = length (stk s) - Suc i"
    "nat (int (length (stk s)) - int i) = length (stk s) - i" "nat (int (length (stk s)) - 1) = length (stk s) - 1"
    by linarith+
  have so: "stk s ! (length (stk s) - Suc i) = items s ! i" using i(2) by (simp add: rev_nth)
  have rest: "rev (take i (items s) @ drop (Suc i) (items s)) =
      take (length (stk s) - Suc i) (stk s) @ drop (length (stk s) - i) (stk s)"
    by (simp add: rev_take rev_drop)
  consider "i = 0" | "i \<noteq> 0" "Suc i = length (stk s)" | "i \<noteq> 0" "Suc i < length (stk s)" using i(2) by linarith
  then show ?thesis
  proof cases
    case 1
    then show ?thesis using True i n so rest by (simp add: nipN_def Let_def ontop_def i_def [symmetric])
  next
    case 2
    then have "int i = int (length (stk s)) - 1" by linarith
    with 2 show ?thesis using True i n so rest
      by (simp add: nipN_def Let_def ontop_def i_def [symmetric])
  next
    case 3
    then have "int i \<noteq> int (length (stk s)) - 1" "\<not> int i > int (length (stk s)) - 1" by linarith+
    with 3 show ?thesis using True i n so rest
      by (simp add: nipN_def Let_def ontop_def slice_def i_def [symmetric])
  qed
next
  case False
  then have "idx < 0 \<or> idx > int (length (stk s)) - 1" by auto
  with False show ?thesis by (simp add: nipN_def Let_def)
qed

lemma PopByteArray_ontop:
  "PopByteArray s = (case items s of [] \<Rightarrow> Inl ErrInvalidStackOperation | so # xs \<Rightarrow> Inr (so, ontop xs s))"
  by (cases "items s") (simp_all add: PopByteArray_def nipN_ontop)

lemma PeekByteArray_ontop:
  "PeekByteArray idx s = (if 0 \<le> idx \<and> nat idx < length (items s) then Inr (items s ! nat idx) else Inl ErrInvalidStackOperation)"
proof (cases "0 \<le> idx \<and> nat idx < length (stk s)")
  case True
  then have "nat (int (length (stk s)) - idx - 1) = length (stk s) - Suc (nat idx)" by linarith
  with True show ?thesis by (auto simp: PeekByteArray_def Let_def rev_nth)
qed (auto simp: PeekByteArray_def Let_def)

lemma dropLoop_ontop:
  "dropLoop n s = (if n \<le> length (items s) then Inr (ontop (drop n (items s)) s) else Inl ErrInvalidStackOperation)"
proof (induction n arbitrary: s)
  case (Suc n)
  then show ?case by (cases "items s") (simp_all add: PopByteArray_ontop)
qed simp

lemma peekLoop_ontop:
  "n \<le> Suc e \<Longrightarrow> peekLoop n (int e) s =
     (if n = 0 then Inr s
      else if e < length (items s) then Inr (ontop (take n (drop (Suc e - n) (items s)) @ items s) s)
      else Inl ErrInvalidStackOperation)"
proof (induction n arbitrary: s)
  case (Suc n)
  show ?case
  proof (cases "e < length (items s)")
    case True
    let ?s = "PushByteArray (items s ! e) s"
    have "peekLoop (Suc n) (int e) s = peekLoop n (int e) ?s" using True by (simp add: PeekByteArray_ontop)
    also have "\<dots> = Inr (ontop (take n (drop (Suc e - n) (items ?s)) @ items ?s) s)"
      using Suc.IH [of ?s] Suc.prems True by (cases "n = 0") (simp_all add: PushByteArray_ontop)
    also have "items ?s = items s ! e # items s" by (simp add: PushByteArray_ontop)
    also have "take n (drop (Suc e - n) (items s ! e # items s)) @ items s ! e # items s =
        take (Suc n) (drop (Suc e - Suc n) (items s)) @ items s"
    proof -
      have d: "drop (Suc e - n) (items s ! e # items s) = drop (e - n) (items s)" using Suc.prems by (simp add: Suc_diff_le)
      have "take (Suc n) (drop (e - n) (items s)) = take n (drop (e - n) (items s)) @ [drop (e - n) (items s) ! n]"
        using True Suc.prems by (intro take_Suc_conv_app_nth) simp
      moreover have "drop (e - n) (items s) ! n = items s ! e" using True Suc.prems by simp
      ultimately show ?thesis using d by simp
    qed
    finally show ?thesis using True by simp
  next
    case False
    then show ?thesis by (simp add: PeekByteArray_ontop)
  qed
qed simp

lemma nipLoop_ontop:
  "n \<le> Suc e \<Longrightarrow> nipLoop n (int e) s =
     (if n = 0 then Inr s
      else if e < length (items s) then
        Inr (ontop (take n (drop (Suc e - n) (items s)) @ take (Suc e - n) (items s) @ drop (Suc e) (items s)) s)
      else Inl ErrInvalidStackOperation)"
proof (induction n arbitrary: s)
  case (Suc n)
  show ?case
  proof (cases "e < length (items s)")
    case True
    define xs where "xs = items s"
    have e: "e < length xs" using True by (simp add: xs_def)
    define ys where "ys = xs ! e # take e xs @ drop (Suc e) xs"
    have "nipLoop (Suc n) (int e) s = nipLoop n (int e) (ontop ys s)"
      using e by (simp add: nipN_ontop PushByteArray_ontop xs_def ys_def)
    also have "\<dots> = Inr (ontop (take n (drop (Suc e - n) ys) @ take (Suc e - n) ys @ drop (Suc e) ys) s)"
      using Suc.IH [of "ontop ys s"] Suc.prems e by (cases "n = 0") (simp_all add: ys_def)
    also have "take n (drop (Suc e - n) ys) @ take (Suc e - n) ys @ drop (Suc e) ys =
        take (Suc n) (drop (Suc e - Suc n) xs) @ take (Suc e - Suc n) xs @ drop (Suc e) xs"
    proof -
      have "take n (drop (Suc e - n) ys) = take n (drop (e - n) xs)"
        using Suc.prems e by (simp add: ys_def Suc_diff_le drop_take)
      moreover have "take (Suc e - n) ys = xs ! e # take (e - n) xs"
        using Suc.prems e by (simp add: ys_def Suc_diff_le)
      moreover have "drop (Suc e) ys = drop (Suc e) xs" using e by (simp add: ys_def)
      moreover have "take (Suc n) (drop (e - n) xs) = take n (drop (e - n) xs) @ [drop (e - n) xs ! n]"
        using e Suc.prems by (intro take_Suc_conv_app_nth) simp
      moreover have "drop (e - n) xs ! n = xs ! e" using e Suc.prems by simp
      ultimately show ?thesis by simp
    qed
    finally show ?thesis using True by (simp add: xs_def)
  next
    case False
    then show ?thesis by (simp add: nipN_ontop)
  qed
qed simp

lemma getStack_stk: "getStack s = stk s"
proof -
  have "map (\<lambda>i. case PeekByteArray (int i) s of Inl _ \<Rightarrow> [] | Inr so \<Rightarrow> so) [0..<length (stk s)] =
      map ((!) (items s)) [0..<length (items s)]"
    by (simp add: PeekByteArray_ontop)
  then show ?thesis by (simp only: getStack_def map_nth rev_rev_ident)
qed

lemma dropAll_ontop: "dropAll s = ontop [] s"
proof (cases "stk s = []")
  case True
  then have "ontop [] s = s" by (simp add: ontop_def)
  with True show ?thesis by (simp add: dropAll_def DropN_def Depth_def)
qed (simp add: dropAll_def DropN_def Depth_def dropLoop_ontop Suc_le_eq)

lemma fold_Push: "fold PushByteArray data s = s\<lparr>stk := stk s @ data\<rparr>"
  by (induction data arbitrary: s) (simp_all add: PushByteArray_def)

lemma setStack_stk: "setStack data s = s\<lparr>stk := data\<rparr>"
  by (simp add: setStack_def dropAll_ontop fold_Push ontop_def)

section \<open>Properties\<close>

lemma stack_blocks_parts:
  assumes "0 < n" "length a = n" "length b = n" "length c = n" "3 * n < 2 ^ 31"
  shows "DropN (int n) (ontop (a @ r) s) = Inr (ontop r s)"
    and "DupN (int n) (ontop (a @ r) s) = Inr (ontop (a @ a @ r) s)"
    and "SwapN (int n) (ontop (a @ b @ r) s) = Inr (ontop (b @ a @ r) s)"
    and "OverN (int n) (ontop (a @ b @ r) s) = Inr (ontop (b @ a @ b @ r) s)"
    and "RotN (int n) (ontop (a @ b @ c @ r) s) = Inr (ontop (c @ a @ b @ r) s)"
    and "length x < n \<Longrightarrow> DropN (int n) (ontop x s) = Inl ErrInvalidStackOperation \<and>
      DupN (int n) (ontop x s) = Inl ErrInvalidStackOperation"
    and "length x < 2 * n \<Longrightarrow> SwapN (int n) (ontop x s) = Inl ErrInvalidStackOperation \<and>
      OverN (int n) (ontop x s) = Inl ErrInvalidStackOperation"
    and "length x < 3 * n \<Longrightarrow> RotN (int n) (ontop x s) = Inl ErrInvalidStackOperation"
proof -
  have e: "int n - 1 = int (n - 1)" "int32 (2 * int n - 1) = int (2 * n - 1)" "int32 (3 * int n - 1) = int (3 * n - 1)"
    "(int n < 1) = False" "n \<le> Suc (n - 1)" "n \<le> Suc (2 * n - 1)" "n \<le> Suc (3 * n - 1)"
    "Suc (n - 1) - n = 0" "Suc (2 * n - 1) - n = n" "Suc (3 * n - 1) - n = 2 * n"
    "Suc (2 * n - 1) = 2 * n" "Suc (3 * n - 1) = 3 * n" "(n = 0) = False"
    using assms(1,5) by (auto simp: int32_id)
  note drop = DropN_def e(4) if_False nat_int dropLoop_ontop items_ontop
  note dup = DupN_def e(4,13) if_False e(1) nat_int peekLoop_ontop [OF e(5)] items_ontop e(8)
  note swap = SwapN_def e(4,13) if_False e(2) nat_int nipLoop_ontop [OF e(6)] items_ontop e(9,11)
  note over = OverN_def e(4,13) if_False e(2) nat_int peekLoop_ontop [OF e(6)] items_ontop e(9)
  note rot = RotN_def e(4,13) if_False e(3) nat_int nipLoop_ontop [OF e(7)] items_ontop e(10,12)
  show "DropN (int n) (ontop (a @ r) s) = Inr (ontop r s)"
    using assms by (simp only: drop) simp
  show "DupN (int n) (ontop (a @ r) s) = Inr (ontop (a @ a @ r) s)"
    using assms by (simp only: dup) simp
  show "SwapN (int n) (ontop (a @ b @ r) s) = Inr (ontop (b @ a @ r) s)"
    using assms by (simp only: swap) simp
  show "OverN (int n) (ontop (a @ b @ r) s) = Inr (ontop (b @ a @ b @ r) s)"
    using assms by (simp only: over) simp
  show "RotN (int n) (ontop (a @ b @ c @ r) s) = Inr (ontop (c @ a @ b @ r) s)"
    using assms by (simp only: rot) simp
  show "length x < n \<Longrightarrow> DropN (int n) (ontop x s) = Inl ErrInvalidStackOperation \<and>
      DupN (int n) (ontop x s) = Inl ErrInvalidStackOperation"
    using assms by (simp only: drop dup) simp
  show "length x < 2 * n \<Longrightarrow> SwapN (int n) (ontop x s) = Inl ErrInvalidStackOperation \<and>
      OverN (int n) (ontop x s) = Inl ErrInvalidStackOperation"
    using assms by (simp only: swap over) simp
  show "length x < 3 * n \<Longrightarrow> RotN (int n) (ontop x s) = Inl ErrInvalidStackOperation"
    using assms by (simp only: rot) simp
qed

text \<open>C36: The operations on several items are the stack transformations of their documentation, for every
  number of items \<open>n\<close> and stacks for which \<^verbatim>\<open>int32\<close> does not wrap: with the items written from the top, \<^verbatim>\<open>DropN\<close>, \<^verbatim>\<open>DupN\<close>, \<^verbatim>\<open>RotN\<close>, \<^verbatim>\<open>SwapN\<close>
  and \<^verbatim>\<open>OverN\<close> move whole blocks of \<open>n\<close> items in order, and each fails exactly when the stack
  has fewer items than it needs.\<close>

theorem stack_blocks:
  assumes "0 < n" "length a = n" "length b = n" "length c = n" "length (a @ b @ c @ r) + n < 2 ^ 31"
  shows "DropN (int n) (ontop (a @ r) s) = Inr (ontop r s) \<and>
    DupN (int n) (ontop (a @ r) s) = Inr (ontop (a @ a @ r) s) \<and>
    SwapN (int n) (ontop (a @ b @ r) s) = Inr (ontop (b @ a @ r) s) \<and>
    OverN (int n) (ontop (a @ b @ r) s) = Inr (ontop (b @ a @ b @ r) s) \<and>
    RotN (int n) (ontop (a @ b @ c @ r) s) = Inr (ontop (c @ a @ b @ r) s) \<and>
    (length x < n \<longrightarrow> DropN (int n) (ontop x s) = Inl ErrInvalidStackOperation \<and>
      DupN (int n) (ontop x s) = Inl ErrInvalidStackOperation) \<and>
    (length x < 2 * n \<longrightarrow> SwapN (int n) (ontop x s) = Inl ErrInvalidStackOperation \<and>
      OverN (int n) (ontop x s) = Inl ErrInvalidStackOperation) \<and>
    (length x < 3 * n \<longrightarrow> RotN (int n) (ontop x s) = Inl ErrInvalidStackOperation)"
proof -
  have "3 * n < 2 ^ 31" using assms(2-5) by simp
  from stack_blocks_parts [OF assms(1-4) this] show ?thesis by blast
qed

theorem stack_blocks_witness:
  "RotN 2 (ontop [[1], [2], [3], [4], [5], [6], [7]] \<lparr>stk = [], verifyMinimalData = False\<rparr>) =
     Inr (ontop [[5], [6], [1], [2], [3], [4], [7]] \<lparr>stk = [], verifyMinimalData = False\<rparr>) \<and>
   SwapN 2 (ontop [[1], [2], [3]] \<lparr>stk = [], verifyMinimalData = False\<rparr>) = Inl ErrInvalidStackOperation"
  using stack_blocks [of 2 "[[1], [2]]" "[[3], [4]]" "[[5], [6]]" "[[7]]" "\<lparr>stk = [], verifyMinimalData = False\<rparr>" "[[1], [2], [3]]"]
  by simp

end
