(* ===== verification/Script_Build.thy ===== *)
theory Script_Build
  imports Script_Token Script_Num
begin

text \<open>
  Building scripts (\<^verbatim>\<open>txscript/scriptbuilder.go\<close>).  A builder is its script and the first error;
  the operations return the updated builder.  What a built script pushes is stated through the
  tokens it reads as.\<close>

section \<open>The builder\<close>

abbreviation MaxScriptElementSize :: nat where
  "MaxScriptElementSize \<equiv> 520"

text \<open>The limit of \<^verbatim>\<open>txscript/script.go\<close>, equal to the one of \<^verbatim>\<open>wire/leaf.go\<close>.\<close>

abbreviation MaxBuiltScriptSize :: nat where
  "MaxBuiltScriptSize \<equiv> 10000"

record ScriptBuilder =
  sb_script :: "byte list"
  sb_err :: "script_error option"

definition NewScriptBuilder :: ScriptBuilder where
  "NewScriptBuilder = \<lparr>sb_script = [], sb_err = None\<rparr>"

definition AddOp :: "byte \<Rightarrow> ScriptBuilder \<Rightarrow> ScriptBuilder" where
  "AddOp opcode b =
     (if sb_err b \<noteq> None then b
      else if length (sb_script b) + 1 > MaxBuiltScriptSize then b\<lparr>sb_err := Some ErrScriptNotCanonical\<rparr>
      else b\<lparr>sb_script := sb_script b @ [opcode]\<rparr>)"

definition AddOps :: "byte list \<Rightarrow> ScriptBuilder \<Rightarrow> ScriptBuilder" where
  "AddOps opcodes b =
     (if sb_err b \<noteq> None then b
      else if length (sb_script b) + length opcodes > MaxBuiltScriptSize then b\<lparr>sb_err := Some ErrScriptNotCanonical\<rparr>
      else b\<lparr>sb_script := sb_script b @ opcodes\<rparr>)"

definition canonicalDataSize :: "byte list \<Rightarrow> nat" where
  "canonicalDataSize data =
     (let dataLen = length data in
      if dataLen = 0 then 1
      else if dataLen = 1 \<and> data ! 0 \<le> 16 then 1
      else if dataLen = 1 \<and> data ! 0 = 0x81 then 1
      else if dataLen < unat OP_PUSHDATA1 then 1 + dataLen
      else if dataLen \<le> 0xff then 2 + dataLen
      else if dataLen \<le> 0xffff then 3 + dataLen
      else 5 + dataLen)"

definition addData :: "byte list \<Rightarrow> ScriptBuilder \<Rightarrow> ScriptBuilder" where
  "addData data b =
     (let dataLen = length data in
      if dataLen = 0 \<or> dataLen = 1 \<and> data ! 0 = 0 then b\<lparr>sb_script := sb_script b @ [OP_0]\<rparr>
      else if dataLen = 1 \<and> data ! 0 \<le> 16 then b\<lparr>sb_script := sb_script b @ [(OP_1 - 1) + data ! 0]\<rparr>
      else if dataLen = 1 \<and> data ! 0 = 0x81 then b\<lparr>sb_script := sb_script b @ [OP_1NEGATE]\<rparr>
      else
        let op =
          (if dataLen < unat OP_PUSHDATA1 then [word_of_nat ((unat OP_DATA_1 - 1) + dataLen)]
           else if dataLen \<le> 0xff then [OP_PUSHDATA1, word_of_nat dataLen]
           else if dataLen \<le> 0xffff then OP_PUSHDATA2 # le_bytes 2 dataLen
           else OP_PUSHDATA4 # le_bytes 4 dataLen)
        in b\<lparr>sb_script := sb_script b @ op @ data\<rparr>)"

definition AddFullData :: "byte list \<Rightarrow> ScriptBuilder \<Rightarrow> ScriptBuilder" where
  "AddFullData data b = (if sb_err b \<noteq> None then b else addData data b)"

definition AddData :: "byte list \<Rightarrow> ScriptBuilder \<Rightarrow> ScriptBuilder" where
  "AddData data b =
     (if sb_err b \<noteq> None then b
      else if length (sb_script b) + canonicalDataSize data > MaxBuiltScriptSize then
        b\<lparr>sb_err := Some ErrScriptNotCanonical\<rparr>
      else if length data > MaxScriptElementSize then b\<lparr>sb_err := Some ErrScriptNotCanonical\<rparr>
      else addData data b)"

text \<open>\<open>None\<close> is the panic of \<^verbatim>\<open>Bytes\<close> on the least integer.\<close>

definition AddInt64 :: "int \<Rightarrow> ScriptBuilder \<Rightarrow> ScriptBuilder option" where
  "AddInt64 val b =
     (if sb_err b \<noteq> None then Some b
      else if length (sb_script b) + 1 > MaxBuiltScriptSize then Some (b\<lparr>sb_err := Some ErrScriptNotCanonical\<rparr>)
      else if val = 0 then Some (b\<lparr>sb_script := sb_script b @ [OP_0]\<rparr>)
      else if val = -1 \<or> (val \<ge> 1 \<and> val \<le> 16) then
        Some (b\<lparr>sb_script := sb_script b @ [word_of_int (uint (OP_1 - 1) + val)]\<rparr>)
      else map_option (\<lambda>bs. AddData bs b) (Bytes val))"

definition Reset :: "ScriptBuilder \<Rightarrow> ScriptBuilder" where
  "Reset b = b\<lparr>sb_script := [], sb_err := None\<rparr>"

definition BuiltScript :: "ScriptBuilder \<Rightarrow> byte list \<times> script_error option" where
  "BuiltScript b = (sb_script b, sb_err b)"

section \<open>What is appended for some data\<close>

definition pushBytes :: "byte list \<Rightarrow> byte list" where
  "pushBytes d =
     (if d = [] \<or> d = [0] then [OP_0]
      else if length d = 1 \<and> hd d \<le> 16 then [(OP_1 - 1) + hd d]
      else if d = [0x81] then [OP_1NEGATE]
      else if length d < 76 then word_of_nat (length d) # d
      else if length d \<le> 0xff then [OP_PUSHDATA1, word_of_nat (length d)] @ d
      else if length d \<le> 0xffff then OP_PUSHDATA2 # le_bytes 2 (length d) @ d
      else OP_PUSHDATA4 # le_bytes 4 (length d) @ d)"

lemma length1_hd: "length d = 1 \<longleftrightarrow> d = [hd d]" "length d = 1 \<Longrightarrow> d ! 0 = hd d"
  by (cases d; auto)+

lemma addData_eq: "addData d b = b\<lparr>sb_script := sb_script b @ pushBytes d\<rparr>"
proof -
  consider "d = []" | x where "d = [x]" | "2 \<le> length d"
    by (cases d rule: list.exhaust; cases "tl d") (auto simp: Suc_le_eq)
  then show ?thesis
    by cases (auto simp: addData_def pushBytes_def )
qed

lemma length_pushBytes: "length (pushBytes d) = canonicalDataSize d"
proof -
  consider "d = []" | x where "d = [x]" | "2 \<le> length d"
    by (cases d rule: list.exhaust; cases "tl d") (auto simp: Suc_le_eq)
  then show ?thesis
    by cases (auto simp: canonicalDataSize_def pushBytes_def )
qed

section \<open>The tokens of a push\<close>

definition smallPush :: "byte list \<Rightarrow> bool" where
  "smallPush d \<longleftrightarrow> d = [] \<or> (length d = 1 \<and> (hd d \<le> 16 \<or> hd d = 0x81))"

definition pushToken :: "byte list \<Rightarrow> byte \<times> byte list option \<times> byte list" where
  "pushToken d = (hd (pushBytes d), if smallPush d then None else Some d, pushBytes d)"

lemma opcodeLength_small: "opcodeLength OP_0 = 1" "opcodeLength OP_1NEGATE = 1" "OP_1 \<le> op \<Longrightarrow> opcodeLength op = 1"
  by (auto simp: opcodeLength_def
    word_le_nat_alt word_less_nat_alt)

lemma opcodeLength_pushdata: "opcodeLength 0x4c = -1" "opcodeLength 0x4d = -2" "opcodeLength 0x4e = -4"
  by (simp_all add: opcodeLength_def)

lemma token1_single: "opcodeLength op = 1 \<Longrightarrow> token1 [op] = Some (op, None, 1)"
  by (simp add: token1_def)

lemma OP_N_le: "x \<le> 16 \<Longrightarrow> x \<noteq> 0 \<Longrightarrow> OP_1 \<le> (OP_1 - 1) + (x :: byte) \<and> (OP_1 - 1) + x \<le> OP_16"
proof -
  assume "x \<le> 16" "x \<noteq> 0"
  then have x: "unat x \<le> 16" "0 < unat x" by (simp_all add: word_le_nat_alt unat_gt_0)
  then have "unat (0x50 + x) = 0x50 + unat x" by (simp add: unat_word_ariths)
  with x show ?thesis by (simp add: word_le_nat_alt)
qed

lemma token1_N: "x \<le> 16 \<Longrightarrow> x \<noteq> 0 \<Longrightarrow> token1 [(OP_1 - 1) + x] = Some ((OP_1 - 1) + x, None, 1)"
  by (rule token1_single [OF opcodeLength_small(3)]) (use OP_N_le [of x] in simp)

lemmas push_singles = token1_single [OF opcodeLength_small(1), simplified] token1_single [OF opcodeLength_small(2), simplified]
  token1_N [simplified]

lemma wf_pushToken:
  assumes "length d < 2 ^ 31"
  shows "wf_token (pushToken d)"
proof -
  consider (e) "d = []" | (z) "d = [0]" | (n) x where "d = [x]" "x \<le> 16" "x \<noteq> 0" | (m) "d = [0x81]"
    | (d) "\<not> smallPush d" "length d < 76" "d \<noteq> []" | (p1) "76 \<le> length d" "length d \<le> 0xff"
    | (p2) "0xff < length d" "length d \<le> 0xffff" | (p4) "0xffff < length d"
  proof -
    assume *: "d = [] \<Longrightarrow> thesis" "d = [0] \<Longrightarrow> thesis" "\<And>x. d = [x] \<Longrightarrow> x \<le> 16 \<Longrightarrow> x \<noteq> 0 \<Longrightarrow> thesis"
      "d = [0x81] \<Longrightarrow> thesis" "\<not> smallPush d \<Longrightarrow> length d < 76 \<Longrightarrow> d \<noteq> [] \<Longrightarrow> thesis"
      "76 \<le> length d \<Longrightarrow> length d \<le> 0xff \<Longrightarrow> thesis"
      "0xff < length d \<Longrightarrow> length d \<le> 0xffff \<Longrightarrow> thesis" "0xffff < length d \<Longrightarrow> thesis"
    show thesis
    proof (cases "smallPush d")
      case True
      then consider "d = []" | x where "d = [x]" "x \<le> 16 \<or> x = 0x81"
        by (cases d) (auto simp: smallPush_def)
      then show thesis using *(1-4) by cases auto
    next
      case False
      then have "d \<noteq> []" by (auto simp: smallPush_def)
      then show thesis using False *(5-8) by linarith
    qed
  qed
  then show ?thesis
  proof cases
    case e
    then show ?thesis by (simp add: wf_token_def pushToken_def pushBytes_def smallPush_def push_singles)
  next
    case z
    then show ?thesis by (simp add: wf_token_def pushToken_def pushBytes_def smallPush_def push_singles)
  next
    case n
    then show ?thesis using OP_N_le [of x]
      by (simp add: wf_token_def pushToken_def pushBytes_def smallPush_def push_singles)
  next
    case m
    then show ?thesis by (simp add: wf_token_def pushToken_def pushBytes_def smallPush_def push_singles)
  next
    case d
    then have "1 \<le> length d" by (simp add: Suc_le_eq)
    then have "opcodeLength (word_of_nat (length d)) = int (length d) + 1" using d(2)
      by (simp add: opcodeLength_def word_le_nat_alt word_less_nat_alt unat_of_nat uint_nat)
    moreover have "pushBytes d = word_of_nat (length d) # d" using d by (auto simp: pushBytes_def smallPush_def)
    ultimately show ?thesis using d
      by (simp add: wf_token_def pushToken_def token1_def nat_add_distrib)
  next
    case p1
    then have "pushBytes d = OP_PUSHDATA1 # word_of_nat (length d) # d" "\<not> smallPush d"
      by (auto simp: pushBytes_def smallPush_def)
    with p1 show ?thesis
      by (simp add: wf_token_def pushToken_def token1_def opcodeLength_pushdata unat_of_nat)
  next
    case p2
    then have "pushBytes d = OP_PUSHDATA2 # le_bytes 2 (length d) @ d" "\<not> smallPush d"
      by (auto simp: pushBytes_def smallPush_def)
    with p2 show ?thesis
      by (simp add: wf_token_def pushToken_def token1_def opcodeLength_pushdata le_nat_le_bytes Let_def)
  next
    case p4
    then have "pushBytes d = OP_PUSHDATA4 # le_bytes 4 (length d) @ d" "\<not> smallPush d"
      by (auto simp: pushBytes_def smallPush_def)
    moreover have "length d mod 4294967296 = length d" using assms by simp
    moreover have "sint (word_of_nat (length d) :: uint32) = int (length d)"
      using assms by (simp add: signed_of_nat signed_take_bit_int_eq_self)
    ultimately show ?thesis
      by (simp add: wf_token_def pushToken_def token1_def opcodeLength_pushdata le_nat_le_bytes Let_def)
  qed
qed

text \<open>The opcode of a push.\<close>

lemma unat_small_length: "length d < 76 \<Longrightarrow> unat (word_of_nat (length d) :: byte) = length d"
  by (simp add: unat_of_nat)

lemma pushToken_push: "fst (pushToken d) \<le> OP_16"
proof -
  have "(word_of_nat (length d) :: byte) \<le> 0x60" if "length d < 76"
    using that by (simp add: word_le_nat_alt unat_small_length)
  moreover have "(0x50 :: byte) + x \<le> 0x60" if "x \<le> 16" "x \<noteq> 0" for x
    using OP_N_le [OF that] by simp
  ultimately show ?thesis by (cases d) (auto simp: pushToken_def pushBytes_def)
qed

lemma pushToken_canonical: "isCanonicalPush (fst (pushToken d)) (fst (snd (pushToken d)))"
proof (cases "smallPush d")
  case True
  then consider "d = []" | "d = [0]" | x where "d = [x]" "x \<le> 16" "x \<noteq> 0" | "d = [0x81]"
    by (cases d) (auto simp: smallPush_def)
  then show ?thesis
  proof cases
    case 3
    define op where "op = (OP_1 - 1) + x"
    have "pushToken d = (op, None, [op])" using 3 by (simp add: pushToken_def pushBytes_def smallPush_def op_def)
    moreover have "0x51 \<le> unat op" using OP_N_le [of x] 3 unfolding op_def by (simp add: word_le_nat_alt)
    then have "op \<noteq> 0x4c" "op \<noteq> 0x4d" "op \<noteq> 0x4e" by auto
    ultimately show ?thesis by (simp add: isCanonicalPush_def)
  qed (simp_all add: pushToken_def pushBytes_def smallPush_def isCanonicalPush_def)
next
  case False
  consider "length d < 76" | "76 \<le> length d" "length d \<le> 0xff" | "0xff < length d" "length d \<le> 0xffff" | "0xffff < length d"
    by linarith
  then show ?thesis
  proof cases
    case 1
    then have "\<not> (0x60 :: byte) < word_of_nat (length d)" "(word_of_nat (length d) :: byte) \<noteq> 0x4c"
        "(word_of_nat (length d) :: byte) \<noteq> 0x4d" "(word_of_nat (length d) :: byte) \<noteq> 0x4e"
      by (simp_all add: word_less_nat_alt word_unat_eq_iff unat_small_length)
    moreover have "pushBytes d = word_of_nat (length d) # d" using False 1 by (auto simp: pushBytes_def smallPush_def)
    ultimately show ?thesis using False by (auto simp: pushToken_def isCanonicalPush_def smallPush_def)
  qed (use False in \<open>auto simp: pushToken_def pushBytes_def isCanonicalPush_def smallPush_def\<close>)
qed

section \<open>Sequences of pushes\<close>

lemma AddData_ok:
  "sb_err (AddData d b) = None \<longleftrightarrow>
     sb_err b = None \<and> length d \<le> MaxScriptElementSize \<and> length (sb_script b @ pushBytes d) \<le> MaxBuiltScriptSize"
  "sb_err (AddData d b) = None \<Longrightarrow> sb_script (AddData d b) = sb_script b @ pushBytes d"
  by (auto simp: AddData_def addData_eq length_pushBytes split: if_splits)

lemma fold_AddData:
  "sb_err (fold AddData ds b) = None \<Longrightarrow>
     sb_err b = None \<and> sb_script (fold AddData ds b) = sb_script b @ rawBytes (map pushToken ds) \<and>
     (\<forall>d \<in> set ds. length d \<le> MaxScriptElementSize) \<and>
     (ds \<noteq> [] \<longrightarrow> length (sb_script (fold AddData ds b)) \<le> MaxBuiltScriptSize)"
proof (induction ds arbitrary: b)
  case (Cons d ds)
  then have "sb_err (fold AddData ds (AddData d b)) = None" by simp
  from Cons.IH [OF this] show ?case using AddData_ok [of d b] by (cases ds) (auto simp: pushToken_def)
qed simp

lemma parse_built:
  assumes "sb_err (fold AddData ds NewScriptBuilder) = None"
  shows "parseScript (sb_script (fold AddData ds NewScriptBuilder)) = map pushToken ds"
    and "rawBytes (map pushToken ds) = sb_script (fold AddData ds NewScriptBuilder)"
proof -
  note f = fold_AddData [OF assms]
  then show "rawBytes (map pushToken ds) = sb_script (fold AddData ds NewScriptBuilder)"
    by (simp add: NewScriptBuilder_def)
  moreover have "\<forall>tok \<in> set (map pushToken ds). wf_token tok"
    using f by (auto intro!: wf_pushToken)
  ultimately show "parseScript (sb_script (fold AddData ds NewScriptBuilder)) = map pushToken ds"
    using parseScript_rawBytes [of "map pushToken ds"] by simp
qed

end
