(* ===== verification/Script_Std.thy ===== *)
theory Script_Std
  imports Wire_Tx Script_Build Sha256
begin

text \<open>
  Standard scripts (\<^verbatim>\<open>txscript/standard.go\<close>): the classes of public key scripts, the scripts that
  pay to them, signature operation counts of inputs (\<^verbatim>\<open>txscript/script.go\<close>), and the
  reconstruction of a public key script from what spends it.  \<open>ripemd160\<close> is third-party code and
  a parameter of the functions that hash public keys and scripts.\<close>

section \<open>Standard scripts\<close>

definition extractCompressedPubKey :: "byte list \<Rightarrow> byte list option" where
  "extractCompressedPubKey script =
     (if length script = 35 \<and> script ! 34 = OP_CHECKSIG \<and> script ! 0 = OP_DATA_33 \<and>
         (script ! 1 = 0x02 \<or> script ! 1 = 0x03)
      then Some (slice 1 34 script) else None)"

definition extractUncompressedPubKey :: "byte list \<Rightarrow> byte list option" where
  "extractUncompressedPubKey script =
     (if length script = 67 \<and> script ! 66 = OP_CHECKSIG \<and> script ! 0 = OP_DATA_65 \<and>
         (script ! 1 = 0x04 \<or> script ! 1 = 0x06 \<or> script ! 1 = 0x07)
      then Some (slice 1 66 script) else None)"

definition extractPubKey :: "byte list \<Rightarrow> byte list option" where
  "extractPubKey script =
     (case extractCompressedPubKey script of
        Some pubKey \<Rightarrow> Some pubKey
      | None \<Rightarrow> extractUncompressedPubKey script)"

definition isPubKeyScript :: "byte list \<Rightarrow> bool" where
  "isPubKeyScript script \<longleftrightarrow> extractPubKey script \<noteq> None"

definition extractPubKeyHash :: "byte list \<Rightarrow> byte list option" where
  "extractPubKeyHash script =
     (if length script = 25 \<and> script ! 0 = OP_DUP \<and> script ! 1 = OP_HASH160 \<and> script ! 2 = OP_DATA_20 \<and>
         script ! 23 = OP_EQUALVERIFY \<and> script ! 24 = OP_CHECKSIG
      then Some (slice 3 23 script) else None)"

definition isPubKeyHashScript :: "byte list \<Rightarrow> bool" where
  "isPubKeyHashScript script \<longleftrightarrow> extractPubKeyHash script \<noteq> None"

definition extractScriptHash :: "byte list \<Rightarrow> byte list option" where
  "extractScriptHash script =
     (if length script = 23 \<and> script ! 0 = OP_HASH160 \<and> script ! 1 = OP_DATA_20 \<and> script ! 22 = OP_EQUAL
      then Some (slice 2 22 script) else None)"

definition isScriptHashScript :: "byte list \<Rightarrow> bool" where
  "isScriptHashScript script \<longleftrightarrow> extractScriptHash script \<noteq> None"

definition extractWitnessPubKeyHash :: "byte list \<Rightarrow> byte list option" where
  "extractWitnessPubKeyHash script =
     (if length script = 22 \<and> script ! 0 = OP_0 \<and> script ! 1 = OP_DATA_20 then Some (slice 2 22 script) else None)"

definition isWitnessPubKeyHashScript :: "byte list \<Rightarrow> bool" where
  "isWitnessPubKeyHashScript script \<longleftrightarrow> extractWitnessPubKeyHash script \<noteq> None"

definition extractWitnessV0ScriptHash :: "byte list \<Rightarrow> byte list option" where
  "extractWitnessV0ScriptHash script =
     (if length script = 34 \<and> script ! 0 = OP_0 \<and> script ! 1 = OP_DATA_32 then Some (slice 2 34 script) else None)"

definition isWitnessScriptHashScript :: "byte list \<Rightarrow> bool" where
  "isWitnessScriptHashScript script \<longleftrightarrow> extractWitnessV0ScriptHash script \<noteq> None"

definition extractWitnessV1KeyBytes :: "byte list \<Rightarrow> byte list option" where
  "extractWitnessV1KeyBytes script =
     (if length script = 34 \<and> script ! 0 = OP_1 \<and> script ! 1 = OP_DATA_32 then Some (slice 2 34 script) else None)"

definition isWitnessTaprootScript :: "byte list \<Rightarrow> bool" where
  "isWitnessTaprootScript script \<longleftrightarrow> extractWitnessV1KeyBytes script \<noteq> None"

definition extractWitnessProgramInfo :: "byte list \<Rightarrow> (nat \<times> byte list) option" where
  "extractWitnessProgramInfo script =
     (if length script < 4 \<or> length script > 42 then None
      else
        case Next (MakeScriptTokenizer 0 script) of (ok, t) \<Rightarrow>
        if \<not> ok \<or> \<not> isSmallInt (the (tz_op t)) then None
        else
          let version = asSmallInt (the (tz_op t)) in
          case Next t of (ok, t) \<Rightarrow>
          if \<not> ok \<or> \<not> isCanonicalPush (the (tz_op t)) (tz_data t) then None
          else if Done t \<and> tz_err t = None
          then Some (version, case tz_data t of None \<Rightarrow> [] | Some d \<Rightarrow> d) else None)"

definition isWitnessProgramScript :: "byte list \<Rightarrow> bool" where
  "isWitnessProgramScript script \<longleftrightarrow> extractWitnessProgramInfo script \<noteq> None"

record multiSigDetails =
  ms_requiredSigs :: nat
  ms_numPubKeys :: nat
  ms_pubKeys :: "byte list list"
  ms_valid :: bool

definition noMultiSigDetails :: multiSigDetails where
  "noMultiSigDetails = \<lparr>ms_requiredSigs = 0, ms_numPubKeys = 0, ms_pubKeys = [], ms_valid = False\<rparr>"

definition isStrictPubKeyEncoding :: "byte list \<Rightarrow> bool" where
  "isStrictPubKeyEncoding pubKey =
     (if length pubKey = 33 \<and> (pubKey ! 0 = 0x02 \<or> pubKey ! 0 = 0x03) then True
      else if length pubKey = 65 then pubKey ! 0 = 0x04 \<or> pubKey ! 0 = 0x06 \<or> pubKey ! 0 = 0x07
      else False)"

text \<open>The loop over the public keys stops at the first small integer.\<close>

definition multisigBody ::
    "bool \<Rightarrow> nat \<times> byte list list \<Rightarrow> ScriptTokenizer \<Rightarrow> (nat \<times> byte list list) \<times> bool" where
  "multisigBody extractPubKeys state t =
     (case state of
        (numPubKeys, pubKeys) \<Rightarrow>
          if isSmallInt (the (tz_op t)) then (state, True)
          else
            let data = (case tz_data t of None \<Rightarrow> [] | Some d \<Rightarrow> d) in
            ((numPubKeys + 1, if isStrictPubKeyEncoding data \<and> extractPubKeys then pubKeys @ [data] else pubKeys), False))"

definition extractMultisigScriptDetails :: "nat \<Rightarrow> byte list \<Rightarrow> bool \<Rightarrow> multiSigDetails" where
  "extractMultisigScriptDetails scriptVersion script extractPubKeys =
     (if scriptVersion \<noteq> 0 then noMultiSigDetails
      else if length script < 3 \<or> script ! (length script - 1) \<noteq> OP_CHECKMULTISIG then noMultiSigDetails
      else
        case Next (MakeScriptTokenizer scriptVersion script) of (ok, t) \<Rightarrow>
        if \<not> ok \<or> \<not> isSmallInt (the (tz_op t)) then noMultiSigDetails
        else
          let requiredSigs = asSmallInt (the (tz_op t)) in
          case tokenLoop (multisigBody extractPubKeys) (0, []) t of
            ((numPubKeys, pubKeys), t) \<Rightarrow>
              if Done t then noMultiSigDetails
              else
                let op = the (tz_op t) in
                if \<not> isSmallInt op \<or> asSmallInt op \<noteq> numPubKeys then noMultiSigDetails
                else if length (tz_script t) - tz_offset t \<noteq> 1 then noMultiSigDetails
                else \<lparr>ms_requiredSigs = requiredSigs, ms_numPubKeys = numPubKeys, ms_pubKeys = pubKeys, ms_valid = True\<rparr>)"

definition isMultisigScript :: "nat \<Rightarrow> byte list \<Rightarrow> bool" where
  "isMultisigScript scriptVersion script \<longleftrightarrow> ms_valid (extractMultisigScriptDetails scriptVersion script False)"

definition IsMultisigSigScript :: "byte list \<Rightarrow> bool" where
  "IsMultisigSigScript script =
     (if length script < 4 \<or> script ! (length script - 1) \<noteq> OP_CHECKMULTISIG then False
      else case finalOpcodeData 0 script of
        None \<Rightarrow> False
      | Some possibleRedeemScript \<Rightarrow> isMultisigScript 0 possibleRedeemScript)"

definition CalcMultiSigStats :: "byte list \<Rightarrow> script_error + nat \<times> nat" where
  "CalcMultiSigStats script =
     (let details = extractMultisigScriptDetails 0 script False in
      if \<not> ms_valid details then Inl ErrNotMultisigScript
      else Inr (ms_numPubKeys details, ms_requiredSigs details))"

abbreviation MaxDataCarrierSize :: nat where
  "MaxDataCarrierSize \<equiv> 80"

definition isNullDataScript :: "nat \<Rightarrow> byte list \<Rightarrow> bool" where
  "isNullDataScript scriptVersion script =
     (if scriptVersion \<noteq> 0 then False
      else if length script < 1 \<or> script ! 0 \<noteq> OP_RETURN then False
      else if length script = 1 then True
      else
        case Next (MakeScriptTokenizer scriptVersion (drop 1 script)) of (ok, t) \<Rightarrow>
        ok \<and> Done t \<and> (isSmallInt (the (tz_op t)) \<or> the (tz_op t) \<le> OP_PUSHDATA4) \<and>
        length (case tz_data t of None \<Rightarrow> [] | Some d \<Rightarrow> d) \<le> MaxDataCarrierSize)"

datatype ScriptClass =
    NonStandardTy
  | PubKeyTy
  | PubKeyHashTy
  | WitnessV0PubKeyHashTy
  | ScriptHashTy
  | WitnessV0ScriptHashTy
  | MultiSigTy
  | NullDataTy
  | WitnessV1TaprootTy
  | WitnessUnknownTy

definition typeOfScript :: "nat \<Rightarrow> byte list \<Rightarrow> ScriptClass" where
  "typeOfScript scriptVersion script =
     (if scriptVersion = 0 then
        (if isPubKeyScript script then PubKeyTy
         else if isPubKeyHashScript script then PubKeyHashTy
         else if isScriptHashScript script then ScriptHashTy
         else if isWitnessPubKeyHashScript script then WitnessV0PubKeyHashTy
         else if isWitnessScriptHashScript script then WitnessV0ScriptHashTy
         else if isMultisigScript scriptVersion script then MultiSigTy
         else if isNullDataScript scriptVersion script then NullDataTy
         else NonStandardTy)
      else if scriptVersion = 1 then
        (if isWitnessTaprootScript script then WitnessV1TaprootTy else NonStandardTy)
      else NonStandardTy)"

definition GetScriptClass :: "byte list \<Rightarrow> ScriptClass" where
  "GetScriptClass script =
     (let classSegWit = typeOfScript 0 script in
      if classSegWit \<noteq> NonStandardTy then classSegWit else typeOfScript 1 script)"

section \<open>Signature operations of an input\<close>

definition GetPreciseSigOpCount :: "byte list \<Rightarrow> byte list \<Rightarrow> nat" where
  "GetPreciseSigOpCount scriptSig scriptPubKey =
     (if \<not> isScriptHashScript scriptPubKey then countSigOpsV0 scriptPubKey True
      else if length scriptSig = 0 \<or> \<not> IsPushOnlyScript scriptSig then 0
      else
        let redeemScript = (case finalOpcodeData 0 scriptSig of None \<Rightarrow> [] | Some d \<Rightarrow> d) in
        if length redeemScript = 0 then 0 else countSigOpsV0 redeemScript True)"

definition getWitnessSigOps :: "byte list \<Rightarrow> byte list list option \<Rightarrow> nat" where
  "getWitnessSigOps pkScript witness =
     (case extractWitnessProgramInfo pkScript of
        None \<Rightarrow> 0
      | Some (witnessVersion, witnessProgram) \<Rightarrow>
          if witnessVersion = 0 then
            (if length witnessProgram = 20 then 1
             else if length witnessProgram = 32 \<and> length (wit_items witness) > 0 then
               countSigOpsV0 (last (wit_items witness)) True
             else 0)
          else 0)"

definition GetWitnessSigOpCount :: "byte list \<Rightarrow> byte list \<Rightarrow> byte list list option \<Rightarrow> nat" where
  "GetWitnessSigOpCount sigScript pkScript witness =
     (if isWitnessProgramScript pkScript then getWitnessSigOps pkScript witness
      else if isScriptHashScript pkScript \<and> IsPushOnlyScript sigScript \<and> length sigScript > 0 \<and>
              isWitnessProgramScript (drop 1 sigScript)
      then getWitnessSigOps (drop 1 sigScript) witness
      else 0)"

section \<open>Information on a pair of scripts\<close>

definition expectedInputs :: "byte list \<Rightarrow> ScriptClass \<Rightarrow> int" where
  "expectedInputs script class =
     (case class of
        PubKeyTy \<Rightarrow> 1
      | PubKeyHashTy \<Rightarrow> 2
      | WitnessV0PubKeyHashTy \<Rightarrow> 2
      | ScriptHashTy \<Rightarrow> 1
      | WitnessV0ScriptHashTy \<Rightarrow> 1
      | WitnessV1TaprootTy \<Rightarrow> 1
      | MultiSigTy \<Rightarrow> int (asSmallInt (script ! 0)) + 1
      | _ \<Rightarrow> -1)"

record ScriptInfo =
  si_PkScriptClass :: ScriptClass
  si_NumInputs :: nat
  si_ExpectedInputs :: int
  si_SigOps :: nat

definition addInputs :: "int \<Rightarrow> int \<Rightarrow> int" where
  "addInputs expected rsInputs = (if rsInputs = -1 then -1 else expected + rsInputs)"

text \<open>
  \<open>None\<close> is a panic: the nested case slices the signature script from its second byte and the
  witness script is the last item of the witness, whether or not there is one.\<close>

definition CalcScriptInfo ::
    "byte list \<Rightarrow> byte list \<Rightarrow> byte list list option \<Rightarrow> bool \<Rightarrow> bool \<Rightarrow> (script_error + ScriptInfo) option" where
  "CalcScriptInfo sigScript pkScript witness bip16 segwit =
     (case tokenLoop (\<lambda>n t. (n + 1, False)) (0 :: nat) (MakeScriptTokenizer 0 sigScript) of
        (numInputs, t) \<Rightarrow>
          case tz_err t of Some err \<Rightarrow> Some (Inl err)
          | None \<Rightarrow>
          case checkScriptParses 0 pkScript of Some err \<Rightarrow> Some (Inl err)
          | None \<Rightarrow>
          if \<not> IsPushOnlyScript sigScript then Some (Inl ErrNotPushOnly)
          else
            let class = typeOfScript 0 pkScript;
                expected = expectedInputs pkScript class;
                info = (\<lambda>numIn expIn sigOps. Some (Inr \<lparr>si_PkScriptClass = class, si_NumInputs = numIn,
                          si_ExpectedInputs = expIn, si_SigOps = sigOps\<rparr>))
            in
            if class = ScriptHashTy \<and> bip16 \<and> \<not> segwit then
              let redeemScript = (case finalOpcodeData 0 sigScript of None \<Rightarrow> [] | Some d \<Rightarrow> d);
                  rsInputs = expectedInputs redeemScript (typeOfScript 0 redeemScript)
              in info numInputs (addInputs expected rsInputs) (countSigOpsV0 redeemScript True)
            else if class = WitnessV0PubKeyHashTy \<and> segwit then
              info (length (wit_items witness)) expected (GetWitnessSigOpCount sigScript pkScript witness)
            else if class = ScriptHashTy \<and> sigScript = [] then None
            else if class = ScriptHashTy \<and> isWitnessProgramScript (drop 1 sigScript) \<and> bip16 \<and> segwit then
              let shInputs = expectedInputs (drop 1 sigScript) (typeOfScript 0 (drop 1 sigScript))
              in info (length (wit_items witness) + numInputs) (addInputs expected shInputs)
                   (GetWitnessSigOpCount sigScript pkScript witness)
            else if class = WitnessV0ScriptHashTy \<and> segwit then
              if wit_items witness = [] then None
              else
                let witnessScript = last (wit_items witness);
                    shInputs = expectedInputs witnessScript (typeOfScript 0 witnessScript)
                in info (length (wit_items witness)) (addInputs expected shInputs)
                     (GetWitnessSigOpCount sigScript pkScript witness)
            else info numInputs expected (countSigOpsV0 pkScript True))"

section \<open>Making standard scripts\<close>

text \<open>\<^verbatim>\<open>script, err := builder.Script(); if err != nil { return nil, err }\<close>.\<close>

definition scriptOrError :: "ScriptBuilder \<Rightarrow> script_error + byte list" where
  "scriptOrError b = (case BuiltScript b of (script, None) \<Rightarrow> Inr script | (script, Some e) \<Rightarrow> Inl e)"

definition payToPubKeyHashScript :: "byte list \<Rightarrow> script_error + byte list" where
  "payToPubKeyHashScript pubKeyHash =
     scriptOrError (AddOp OP_CHECKSIG (AddOp OP_EQUALVERIFY (AddData pubKeyHash
       (AddOp OP_HASH160 (AddOp OP_DUP NewScriptBuilder)))))"

definition payToWitnessPubKeyHashScript :: "byte list \<Rightarrow> script_error + byte list" where
  "payToWitnessPubKeyHashScript pubKeyHash = scriptOrError (AddData pubKeyHash (AddOp OP_0 NewScriptBuilder))"

definition payToScriptHashScript :: "byte list \<Rightarrow> script_error + byte list" where
  "payToScriptHashScript scriptHash =
     scriptOrError (AddOp OP_EQUAL (AddData scriptHash (AddOp OP_HASH160 NewScriptBuilder)))"

definition payToWitnessScriptHashScript :: "byte list \<Rightarrow> script_error + byte list" where
  "payToWitnessScriptHashScript scriptHash = scriptOrError (AddData scriptHash (AddOp OP_0 NewScriptBuilder))"

definition payToWitnessTaprootScript :: "byte list \<Rightarrow> script_error + byte list" where
  "payToWitnessTaprootScript rawKey = scriptOrError (AddData rawKey (AddOp OP_1 NewScriptBuilder))"

definition payToPubKeyScript :: "byte list \<Rightarrow> script_error + byte list" where
  "payToPubKeyScript serializedPubKey =
     scriptOrError (AddOp OP_CHECKSIG (AddData serializedPubKey NewScriptBuilder))"

definition NullDataScript :: "byte list \<Rightarrow> script_error + byte list" where
  "NullDataScript data =
     (if length data > MaxDataCarrierSize then Inl ErrTooMuchNullData
      else scriptOrError (AddData data (AddOp OP_RETURN NewScriptBuilder)))"

text \<open>
  The public keys are given by the bytes of their script addresses; the numbers are lengths, so the
  panic of \<^verbatim>\<open>AddInt64\<close> on the least integer cannot happen.\<close>

definition MultiSigScript :: "byte list list \<Rightarrow> int \<Rightarrow> (script_error + byte list) option" where
  "MultiSigScript pubkeys nrequired =
     (if int (length pubkeys) < nrequired then Some (Inl ErrTooManyRequiredSigs)
      else
        case AddInt64 nrequired NewScriptBuilder of
          None \<Rightarrow> None
        | Some builder \<Rightarrow>
            map_option (\<lambda>builder. scriptOrError (AddOp OP_CHECKMULTISIG builder))
              (AddInt64 (int (length pubkeys)) (fold AddData pubkeys builder)))"

definition PushedData :: "byte list \<Rightarrow> script_error + byte list option list" where
  "PushedData script =
     (case tokenLoop (\<lambda>data t.
         (if tz_data t \<noteq> None then data @ [tz_data t]
          else if the (tz_op t) = OP_0 then data @ [None] else data, False)) [] (MakeScriptTokenizer 0 script) of
        (data, t) \<Rightarrow> (case tz_err t of Some err \<Rightarrow> Inl err | None \<Rightarrow> Inr data))"

section \<open>Reconstruction\<close>

text \<open>A nil slice is hashed as an empty one.\<close>

definition getLastData :: "byte list \<Rightarrow> byte list" where
  "getLastData bytes =
     (case fst (tokenLoop (\<lambda>_ t. (tz_data t, False)) None (MakeScriptTokenizer 0 bytes)) of
        None \<Rightarrow> [] | Some d \<Rightarrow> d)"

definition Hash160 :: "(byte list \<Rightarrow> byte list) \<Rightarrow> byte list \<Rightarrow> byte list" where
  "Hash160 ripemd160 buf = ripemd160 (Sum256 buf)"

definition ReconstructScript ::
    "(byte list \<Rightarrow> byte list) \<Rightarrow> byte list \<Rightarrow> byte list list option \<Rightarrow> ScriptClass \<Rightarrow> script_error + byte list" where
  "ReconstructScript ripemd160 sigScript witness class =
     (case class of
        PubKeyHashTy \<Rightarrow> payToPubKeyHashScript (Hash160 ripemd160 (getLastData sigScript))
      | ScriptHashTy \<Rightarrow> payToScriptHashScript (Hash160 ripemd160 (getLastData sigScript))
      | WitnessV0PubKeyHashTy \<Rightarrow>
          if length (wit_items witness) = 0 then Inl (ErrPlain ''ReconstructScript'')
          else payToWitnessPubKeyHashScript (Hash160 ripemd160 (last (wit_items witness)))
      | WitnessV0ScriptHashTy \<Rightarrow>
          if length (wit_items witness) = 0 then Inl (ErrPlain ''ReconstructScript'')
          else payToWitnessScriptHashScript (Sum256 (last (wit_items witness)))
      | _ \<Rightarrow> Inl (ErrPlain ''ReconstructScript''))"

definition GetReconstructScriptType ::
    "(byte list \<Rightarrow> byte list) \<Rightarrow> byte list \<Rightarrow> byte list \<Rightarrow> byte list list option \<Rightarrow> script_error + ScriptClass" where
  "GetReconstructScriptType ripemd160 sigScript pkScript witness =
     (let class = GetScriptClass pkScript;
          matching = (case ReconstructScript ripemd160 sigScript witness class of
              Inl err \<Rightarrow> Inl err
            | Inr script \<Rightarrow> if script \<noteq> pkScript then Inr NonStandardTy else Inr class)
      in
      if class = PubKeyHashTy \<or> class = ScriptHashTy then
        (if length sigScript = 0 then Inl (ErrPlain ''GetReconstructScriptType'') else matching)
      else if class = WitnessV0PubKeyHashTy \<or> class = WitnessV0ScriptHashTy then
        (if length (wit_items witness) = 0 then Inl (ErrPlain ''GetReconstructScriptType'') else matching)
      else Inr NonStandardTy)"

section \<open>The forms of the extracted scripts\<close>

lemma extractPubKeyHash_iff:
  "extractPubKeyHash s = Some h \<longleftrightarrow>
     length h = 20 \<and> s = [OP_DUP, OP_HASH160, OP_DATA_20] @ h @ [OP_EQUALVERIFY, OP_CHECKSIG]" (is "?l \<longleftrightarrow> ?r")
proof
  assume ?l
  then have "length s = 25" "h = slice 3 23 s" "s ! 0 = OP_DUP" "s ! 1 = OP_HASH160" "s ! 2 = OP_DATA_20"
      "s ! 23 = OP_EQUALVERIFY" "s ! 24 = OP_CHECKSIG"
    by (auto simp: extractPubKeyHash_def split: if_splits)
  with slice_split [of 3 23 s] take_nth(3) [of s] drop_nth(2) [of s 23] show ?r by (simp add: length_slice)
next
  assume ?r
  then show ?l by (simp add: extractPubKeyHash_def slice_def nth_append)
qed

lemma extractScriptHash_iff:
  "extractScriptHash s = Some h \<longleftrightarrow> length h = 20 \<and> s = [OP_HASH160, OP_DATA_20] @ h @ [OP_EQUAL]" (is "?l \<longleftrightarrow> ?r")
proof
  assume ?l
  then have "length s = 23" "h = slice 2 22 s" "s ! 0 = OP_HASH160" "s ! 1 = OP_DATA_20" "s ! 22 = OP_EQUAL"
    by (auto simp: extractScriptHash_def split: if_splits)
  with slice_split [of 2 22 s] take_nth(2) [of s] drop_nth(1) [of s 22] show ?r by (simp add: length_slice)
next
  assume ?r
  then show ?l by (simp add: extractScriptHash_def slice_def nth_append)
qed

lemma take_drop_pair: "2 \<le> length s \<Longrightarrow> s = s ! 0 # s ! 1 # drop 2 s"
  by (cases s; cases "tl s") auto

lemma extractWitnessPubKeyHash_iff:
  "extractWitnessPubKeyHash s = Some h \<longleftrightarrow> length h = 20 \<and> s = [OP_0, OP_DATA_20] @ h"
  using take_drop_pair [of s] by (auto simp: extractWitnessPubKeyHash_def slice_def)

lemma extractWitnessV0ScriptHash_iff:
  "extractWitnessV0ScriptHash s = Some h \<longleftrightarrow> length h = 32 \<and> s = [OP_0, OP_DATA_32] @ h"
  using take_drop_pair [of s] by (auto simp: extractWitnessV0ScriptHash_def slice_def)

lemma extractWitnessV1KeyBytes_iff:
  "extractWitnessV1KeyBytes s = Some h \<longleftrightarrow> length h = 32 \<and> s = [OP_1, OP_DATA_32] @ h"
  using take_drop_pair [of s] by (auto simp: extractWitnessV1KeyBytes_def slice_def)

lemmas extract_iffs = extractPubKeyHash_iff extractScriptHash_iff extractWitnessPubKeyHash_iff
  extractWitnessV0ScriptHash_iff extractWitnessV1KeyBytes_iff

lemma extract_lengths:
  "extractPubKeyHash s \<noteq> None \<Longrightarrow> length s = 25" "extractScriptHash s \<noteq> None \<Longrightarrow> length s = 23"
  "extractWitnessPubKeyHash s \<noteq> None \<Longrightarrow> length s = 22" "extractWitnessV0ScriptHash s \<noteq> None \<Longrightarrow> length s = 34"
  "isPubKeyScript s \<Longrightarrow> length s = 35 \<or> length s = 67"
  by (auto simp: extractPubKeyHash_def extractScriptHash_def extractWitnessPubKeyHash_def extractWitnessV0ScriptHash_def
    isPubKeyScript_def extractPubKey_def extractCompressedPubKey_def extractUncompressedPubKey_def split: if_splits)

lemma typeOfScript_iffs:
  "GetScriptClass s = PubKeyHashTy \<longleftrightarrow> extractPubKeyHash s \<noteq> None"
  "GetScriptClass s = ScriptHashTy \<longleftrightarrow> extractScriptHash s \<noteq> None"
  "GetScriptClass s = WitnessV0PubKeyHashTy \<longleftrightarrow> extractWitnessPubKeyHash s \<noteq> None"
  "GetScriptClass s = WitnessV0ScriptHashTy \<longleftrightarrow> extractWitnessV0ScriptHash s \<noteq> None"
  "GetScriptClass s = PubKeyTy \<longleftrightarrow> isPubKeyScript s"
  using extract_lengths [of s]
  by (auto simp: GetScriptClass_def typeOfScript_def Let_def isPubKeyHashScript_def isScriptHashScript_def
    isWitnessPubKeyHashScript_def isWitnessScriptHashScript_def)

section \<open>Payment scripts\<close>

lemma AddOp_ok: "sb_err b = None \<Longrightarrow> length (sb_script b) < 10000 \<Longrightarrow> AddOp op b = b\<lparr>sb_script := sb_script b @ [op]\<rparr>"
  by (simp add: AddOp_def)

lemma AddOp_err: "sb_err b = Some e \<Longrightarrow> AddOp op b = b"
  by (simp add: AddOp_def)

lemma length_pushBytes_le: "length (pushBytes d) \<le> length d + 5"
  by (auto simp: length_pushBytes canonicalDataSize_def Let_def)

lemma AddData_eq:
  "sb_err b = None \<Longrightarrow> length (sb_script b) \<le> 100 \<Longrightarrow>
     AddData d b = (if length d > 520 then b\<lparr>sb_err := Some ErrScriptNotCanonical\<rparr>
                    else b\<lparr>sb_script := sb_script b @ pushBytes d\<rparr>)"
  using length_pushBytes_le [of d]
  by (auto simp: AddData_def length_pushBytes addData_eq)

lemma pay_scripts:
  "payToPubKeyHashScript h = (if length h > 520 then Inl ErrScriptNotCanonical
     else Inr ([OP_DUP, OP_HASH160] @ pushBytes h @ [OP_EQUALVERIFY, OP_CHECKSIG]))"
  "payToScriptHashScript h = (if length h > 520 then Inl ErrScriptNotCanonical
     else Inr ([OP_HASH160] @ pushBytes h @ [OP_EQUAL]))"
  "payToWitnessPubKeyHashScript h = (if length h > 520 then Inl ErrScriptNotCanonical else Inr ([OP_0] @ pushBytes h))"
  "payToWitnessScriptHashScript h = (if length h > 520 then Inl ErrScriptNotCanonical else Inr ([OP_0] @ pushBytes h))"
  "payToWitnessTaprootScript h = (if length h > 520 then Inl ErrScriptNotCanonical else Inr ([OP_1] @ pushBytes h))"
  "payToPubKeyScript h = (if length h > 520 then Inl ErrScriptNotCanonical else Inr (pushBytes h @ [OP_CHECKSIG]))"
  "NullDataScript h = (if length h > 80 then Inl ErrTooMuchNullData else Inr ([OP_RETURN] @ pushBytes h))"
  using length_pushBytes_le [of h]
  by (simp_all add: payToPubKeyHashScript_def payToScriptHashScript_def payToWitnessPubKeyHashScript_def
    payToWitnessScriptHashScript_def payToWitnessTaprootScript_def payToPubKeyScript_def NullDataScript_def
    NewScriptBuilder_def AddOp_ok AddOp_err AddData_eq scriptOrError_def BuiltScript_def)

lemma pushBytes_20: "length (pushBytes h) = 21 \<longleftrightarrow> length h = 20"
  by (auto simp: length_pushBytes canonicalDataSize_def Let_def)

lemma pushBytes_hash: "1 < length h \<Longrightarrow> length h < 76 \<Longrightarrow> pushBytes h = word_of_nat (length h) # h"
  by (auto simp: pushBytes_def)

lemma pay_is_form:
  "payToPubKeyHashScript h = Inr s \<and> extractPubKeyHash s \<noteq> None \<longleftrightarrow> extractPubKeyHash s = Some h"
  "payToScriptHashScript h = Inr s \<and> extractScriptHash s \<noteq> None \<longleftrightarrow> extractScriptHash s = Some h"
  "payToWitnessPubKeyHashScript h = Inr s \<and> extractWitnessPubKeyHash s \<noteq> None \<longleftrightarrow> extractWitnessPubKeyHash s = Some h"
  "length h = 32 \<Longrightarrow>
     payToWitnessScriptHashScript h = Inr s \<and> extractWitnessV0ScriptHash s \<noteq> None \<longleftrightarrow> extractWitnessV0ScriptHash s = Some h"
proof -
  have eq: "pushBytes h = 0x14 # y \<Longrightarrow> length y = 20 \<Longrightarrow> h = y" for y
  proof -
    assume y: "pushBytes h = 0x14 # y" "length y = 20"
    then have "length h = 20" using pushBytes_20 [of h] by simp
    with y show "h = y" by (simp add: pushBytes_hash)
  qed
  note simps = pay_scripts pushBytes_hash extract_iffs
  show "payToPubKeyHashScript h = Inr s \<and> extractPubKeyHash s \<noteq> None \<longleftrightarrow> extractPubKeyHash s = Some h"
    by (auto simp: simps dest: eq split: if_splits)
  show "payToScriptHashScript h = Inr s \<and> extractScriptHash s \<noteq> None \<longleftrightarrow> extractScriptHash s = Some h"
    by (auto simp: simps dest: eq split: if_splits)
  show "payToWitnessPubKeyHashScript h = Inr s \<and> extractWitnessPubKeyHash s \<noteq> None \<longleftrightarrow> extractWitnessPubKeyHash s = Some h"
    by (auto simp: simps dest: eq split: if_splits)
  show "payToWitnessScriptHashScript h = Inr s \<and> extractWitnessV0ScriptHash s \<noteq> None \<longleftrightarrow> extractWitnessV0ScriptHash s = Some h"
    if "length h = 32"
    using that by (auto simp: simps)
qed

section \<open>Reconstruction gives the script back\<close>

abbreviation "reconstructable class \<equiv>
  class = PubKeyHashTy \<or> class = ScriptHashTy \<or> class = WitnessV0PubKeyHashTy \<or> class = WitnessV0ScriptHashTy"

lemma matching_iff:
  "(case r of Inl err \<Rightarrow> Inl err | Inr script \<Rightarrow> if script \<noteq> pkScript then Inr NonStandardTy else Inr class) = Inr c \<longleftrightarrow>
     (\<exists>script. r = Inr script \<and> (if script = pkScript then c = class else c = NonStandardTy))"
  by (cases r) auto

lemma GetReconstructScriptType_iff:
  assumes "class \<noteq> NonStandardTy"
  shows "GetReconstructScriptType ripemd160 sigScript pkScript witness = Inr class \<longleftrightarrow>
    reconstructable class \<and> GetScriptClass pkScript = class \<and> ReconstructScript ripemd160 sigScript witness class = Inr pkScript \<and>
    (if class = PubKeyHashTy \<or> class = ScriptHashTy then sigScript \<noteq> [] else wit_items witness \<noteq> [])"
  using assms unfolding GetReconstructScriptType_def Let_def
  by (cases "GetScriptClass pkScript"; simp add: matching_iff; metis)

text \<open>C39: An output script counts as reconstructable from the signature script or the witness that spends it exactly when
  the hash it commits to is the hash of the last data pushed by the signature script, respectively of the
  last item of the witness; an empty signature script or witness never counts.\<close>

theorem reconstruct_type_iff:
  "(GetReconstructScriptType ripemd160 sigScript pkScript witness = Inr PubKeyHashTy \<longleftrightarrow>
     sigScript \<noteq> [] \<and> extractPubKeyHash pkScript = Some (Hash160 ripemd160 (getLastData sigScript))) \<and>
   (GetReconstructScriptType ripemd160 sigScript pkScript witness = Inr ScriptHashTy \<longleftrightarrow>
     sigScript \<noteq> [] \<and> extractScriptHash pkScript = Some (Hash160 ripemd160 (getLastData sigScript))) \<and>
   (GetReconstructScriptType ripemd160 sigScript pkScript witness = Inr WitnessV0PubKeyHashTy \<longleftrightarrow>
     wit_items witness \<noteq> [] \<and> extractWitnessPubKeyHash pkScript = Some (Hash160 ripemd160 (last (wit_items witness)))) \<and>
   (GetReconstructScriptType ripemd160 sigScript pkScript witness = Inr WitnessV0ScriptHashTy \<longleftrightarrow>
     wit_items witness \<noteq> [] \<and> extractWitnessV0ScriptHash pkScript = Some (Sum256 (last (wit_items witness))))"
proof -
  have "length (Sum256 x) = 32" for x using is_hash_Sum256 [of x] by (simp add: is_hash_def HashSize_def)
  note sum = pay_is_form(4) [OF this]
  note defs = GetReconstructScriptType_iff ReconstructScript_def typeOfScript_iffs
  show ?thesis
  proof (intro conjI)
    show "GetReconstructScriptType ripemd160 sigScript pkScript witness = Inr PubKeyHashTy \<longleftrightarrow>
       sigScript \<noteq> [] \<and> extractPubKeyHash pkScript = Some (Hash160 ripemd160 (getLastData sigScript))"
      using pay_is_form(1) [of _ pkScript] by (simp add: defs) blast
    show "GetReconstructScriptType ripemd160 sigScript pkScript witness = Inr ScriptHashTy \<longleftrightarrow>
       sigScript \<noteq> [] \<and> extractScriptHash pkScript = Some (Hash160 ripemd160 (getLastData sigScript))"
      using pay_is_form(2) [of _ pkScript] by (simp add: defs) blast
    show "GetReconstructScriptType ripemd160 sigScript pkScript witness = Inr WitnessV0PubKeyHashTy \<longleftrightarrow>
       wit_items witness \<noteq> [] \<and> extractWitnessPubKeyHash pkScript = Some (Hash160 ripemd160 (last (wit_items witness)))"
      using pay_is_form(3) [of _ pkScript] by (simp add: defs) blast
    show "GetReconstructScriptType ripemd160 sigScript pkScript witness = Inr WitnessV0ScriptHashTy \<longleftrightarrow>
       wit_items witness \<noteq> [] \<and> extractWitnessV0ScriptHash pkScript = Some (Sum256 (last (wit_items witness)))"
      using sum [of _ pkScript] by (simp add: defs) blast
  qed
qed

section \<open>Multisig scripts\<close>

lemma multisig_loop:
  assumes "tokens t = map pushToken keys @ (op, data, raw) # toks"
    and "list_all (\<lambda>k. isStrictPubKeyEncoding k) keys" "isSmallInt op"
  shows "\<exists>t'. tokenLoop (multisigBody ex) (n, ks) t = ((n + length keys, if ex then ks @ keys else ks), t') \<and> tz_op t' = Some op \<and>
    tokens t' = toks \<and> tz_script t' = tz_script t \<and> tz_err t' = None \<and>
    tz_offset t' = tz_offset t + length (rawBytes (map pushToken keys)) + length raw"
  using assms(1,2)
proof (induction keys arbitrary: t n ks)
  case Nil
  then obtain t' where t': "Next t = (True, t')" "tz_op t' = Some op" "tz_data t' = data" "tokens t' = toks"
    "tz_script t' = tz_script t" "tz_offset t' = tz_offset t + length raw" "tz_err t' = None"
    by (auto elim: tokens_Cons)
  then show ?case using assms(3) by (simp add: tokenLoop.simps [of _ _ t] multisigBody_def)
next
  case (Cons k keys)
  obtain kop kdata kraw where k: "pushToken k = (kop, kdata, kraw)" by (cases "pushToken k")
  with Cons.prems have "tokens t = (kop, kdata, kraw) # map pushToken keys @ (op, data, raw) # toks" by simp
  then obtain t' where t': "Next t = (True, t')" "tz_op t' = Some kop" "tz_data t' = kdata"
      "tokens t' = map pushToken keys @ (op, data, raw) # toks"
      "tz_script t' = tz_script t" "tz_offset t' = tz_offset t + length kraw" "tz_err t' = None"
    by (rule tokens_Cons)
  have len: "length k = 33 \<or> length k = 65" using Cons.prems(2) by (auto simp: isStrictPubKeyEncoding_def split: if_splits)
  then have "kop = word_of_nat (length k)" "kdata = Some k"
    using k pushBytes_hash [of k] by (auto simp: pushToken_def smallPush_def)
  with len have "\<not> isSmallInt kop" "kdata = Some k" by (auto simp: isSmallInt_def)
  then have "tokenLoop (multisigBody ex) (n, ks) t = tokenLoop (multisigBody ex) (n + 1, if ex then ks @ [k] else ks) t'"
    using t' Cons.prems(2) by (simp add: tokenLoop.simps [of _ _ t] multisigBody_def)
  with Cons.IH [OF t'(4), of "n + 1" "if ex then ks @ [k] else ks"] Cons.prems(2) t' k show ?case by (auto simp: ac_simps)
qed

definition smallOp :: "nat \<Rightarrow> byte" where
  "smallOp n = (if n = 0 then OP_0 else word_of_nat (0x50 + n))"

lemma smallOp_facts:
  assumes "n \<le> 16"
  shows "isSmallInt (smallOp n)" "asSmallInt (smallOp n) = n" "wf_token (smallOp n, None, [smallOp n])"
    "smallOp n \<noteq> OP_DATA_33" "smallOp n \<noteq> OP_DATA_65" "smallOp n \<noteq> OP_DUP" "smallOp n \<noteq> OP_HASH160"
proof -
  have "unat (word_of_nat (0x50 + n) :: byte) = 0x50 + n" using assms by (subst unat_of_nat) simp
  then have u: "n \<noteq> 0 \<Longrightarrow> unat (smallOp n) = 0x50 + n" by (simp only: smallOp_def if_False)
  have z: "n = 0 \<Longrightarrow> smallOp n = 0" by (simp add: smallOp_def)
  show "isSmallInt (smallOp n)" "asSmallInt (smallOp n) = n"
    using u z assms by (cases "n = 0"; auto simp: isSmallInt_def asSmallInt_def word_le_nat_alt unat_sub)+
  have "opcodeLength (smallOp n) = 1"
    using u z assms by (cases "n = 0") (auto intro!: opcodeLength_small(3) simp: opcodeLength_small(1) [simplified] word_le_nat_alt)
  then show "wf_token (smallOp n, None, [smallOp n])" by (simp add: wf_token_def token1_single)
  show "smallOp n \<noteq> OP_DATA_33" "smallOp n \<noteq> OP_DATA_65" "smallOp n \<noteq> OP_DUP" "smallOp n \<noteq> OP_HASH160"
    using u z assms by (cases "n = 0"; auto simp: word_unat_eq_iff)+
qed

lemma AddInt64_small:
  assumes "n \<le> 16" "sb_err b = None" "length (sb_script b) < 10000"
  shows "AddInt64 (int n) b = Some (b\<lparr>sb_script := sb_script b @ [smallOp n]\<rparr>)"
  using assms by (auto simp: AddInt64_def smallOp_def)

lemma length_rawBytes_keys:
  "list_all isStrictPubKeyEncoding keys \<Longrightarrow> length (rawBytes (map pushToken keys)) \<le> 66 * length keys"
  by (induction keys) (auto simp: pushToken_def pushBytes_hash isStrictPubKeyEncoding_def split: if_splits)

lemma fold_AddData_keys:
  assumes "list_all isStrictPubKeyEncoding keys" "sb_err b = None" "length (sb_script b) + 66 * length keys \<le> 10000"
  shows "fold AddData keys b = b\<lparr>sb_script := sb_script b @ rawBytes (map pushToken keys)\<rparr>"
  using assms
proof (induction keys arbitrary: b)
  case (Cons k keys)
  then have k: "length k = 33 \<or> length k = 65" by (auto simp: isStrictPubKeyEncoding_def split: if_splits)
  then have "length (pushBytes k) \<le> 66" by (auto simp: pushBytes_hash)
  with Cons.prems k have "AddData k b = b\<lparr>sb_script := sb_script b @ pushBytes k\<rparr>"
    by (auto simp: AddData_def length_pushBytes addData_eq)
  with Cons.prems Cons.IH [of "AddData k b"] \<open>length (pushBytes k) \<le> 66\<close> show ?case by (simp add: pushToken_def)
qed simp

lemma MultiSigScript_eq:
  assumes "list_all isStrictPubKeyEncoding keys" "length keys \<le> 16" "nreq \<le> length keys"
  shows "MultiSigScript keys (int nreq) =
    Some (Inr ([smallOp nreq] @ rawBytes (map pushToken keys) @ [smallOp (length keys), OP_CHECKMULTISIG]))"
proof -
  have "length (rawBytes (map pushToken keys)) \<le> 1056" using length_rawBytes_keys [OF assms(1)] assms(2) by linarith
  then show ?thesis
    using assms by (simp add: MultiSigScript_def AddInt64_small fold_AddData_keys AddOp_ok NewScriptBuilder_def
      scriptOrError_def BuiltScript_def)
qed

lemma wf_token_checkmultisig: "wf_token (0xae, None, [0xae])"
  by (simp add: wf_token_def token1_single opcodeLength_small(3))

lemma multisig_recognized:
  assumes "list_all isStrictPubKeyEncoding keys" "length keys \<le> 16" "nreq \<le> 16"
  defines "s \<equiv> [smallOp nreq] @ rawBytes (map pushToken keys) @ [smallOp (length keys), OP_CHECKMULTISIG]"
  shows "extractMultisigScriptDetails 0 s ex =
    \<lparr>ms_requiredSigs = nreq, ms_numPubKeys = length keys, ms_pubKeys = (if ex then keys else []), ms_valid = True\<rparr>"
proof -
  define t where "t = MakeScriptTokenizer 0 s"
  define toks where "toks = (smallOp nreq, None, [smallOp nreq]) # map pushToken keys @
    (smallOp (length keys), None, [smallOp (length keys)]) # [(0xae, None, [0xae])]"
  have "\<forall>tok \<in> set (map pushToken keys). wf_token tok"
    using assms(1) by (auto intro!: wf_pushToken simp: list_all_iff isStrictPubKeyEncoding_def split: if_splits)
  then have "\<forall>tok \<in> set toks. wf_token tok"
    using smallOp_facts(3) assms by (auto simp: toks_def wf_token_checkmultisig)
  moreover have "s = rawBytes toks" by (simp add: toks_def s_def rawBytes_def)
  ultimately have "tokens t = toks" by (simp add: t_def parseScript_rawBytes)
  then obtain t1 where t1: "Next t = (True, t1)" "tz_op t1 = Some (smallOp nreq)"
      "tokens t1 = map pushToken keys @ (smallOp (length keys), None, [smallOp (length keys)]) # [(0xae, None, [0xae])]"
      "tz_script t1 = tz_script t" "tz_offset t1 = tz_offset t + 1" "tz_err t1 = None"
    unfolding toks_def by (elim tokens_Cons) auto
  from multisig_loop [OF t1(3) assms(1) smallOp_facts(1) [OF assms(2)], of ex 0 "[]"] obtain t2 where
    t2: "tokenLoop (multisigBody ex) (0, []) t1 = ((length keys, if ex then keys else []), t2)" "tz_op t2 = Some (smallOp (length keys))"
      "tokens t2 = [(0xae, None, [0xae])]" "tz_script t2 = s" "tz_err t2 = None"
      "tz_offset t2 = 1 + length (rawBytes (map pushToken keys)) + 1"
    using t1 by (auto simp: t_def MakeScriptTokenizer_def)
  have "\<not> Done t2" by (rule tokens_not_Done) (simp add: t2)
  moreover have "3 \<le> length s" "s ! (length s - 1) = OP_CHECKMULTISIG" "length s - tz_offset t2 = 1"
    by (simp_all add: s_def t2 nth_append)
  ultimately show ?thesis
    using t1 t2 assms(2,3) unfolding extractMultisigScriptDetails_def t_def [symmetric]
    by (simp add: smallOp_facts)
qed

lemma Next_stop_Done: "Next t = (False, t') \<Longrightarrow> Done t'"
proof (cases "Done t")
  case False
  then show "Next t = (False, t') \<Longrightarrow> Done t'" by (auto simp: Next_token1 Done_def split: option.splits)
qed (simp add: Next_def)

lemma multisig_not:
  assumes "list_all (\<lambda>(op, data, raw). \<not> isSmallInt op) (tokens t)"
  shows "Done (snd (tokenLoop (multisigBody ex) s t))"
  using assms
proof (induction "length (tz_script t) - tz_offset t" arbitrary: s t rule: less_induct)
  case less
  obtain ok t' where N: "Next t = (ok, t')" by (cases "Next t")
  show ?case
  proof (cases ok)
    case True
    with N have "length (tz_script t') - tz_offset t' < length (tz_script t) - tz_offset t"
      by (intro Next_measure) simp
    with less N True show ?thesis
      by (cases s) (simp add: tokenLoop.simps [of _ _ t] tokens_step multisigBody_def Let_def)
  next
    case False
    with N Next_stop_Done show ?thesis by (simp add: tokenLoop.simps [of _ _ t])
  qed
qed

lemma not_multisig:
  assumes "parseScript s = (op, data, raw) # toks" "list_all (\<lambda>(op, data, raw). \<not> isSmallInt op) toks"
  shows "\<not> isMultisigScript 0 s"
proof -
  from assms(1) have "tokens (MakeScriptTokenizer 0 s) = (op, data, raw) # toks" by simp
  then obtain t' where "Next (MakeScriptTokenizer 0 s) = (True, t')" "tz_op t' = Some op" "tokens t' = toks"
    by (rule tokens_Cons)
  with multisig_not [of t' False "(0, [])"] assms(2) show ?thesis
    by (auto simp: isMultisigScript_def extractMultisigScriptDetails_def noMultiSigDetails_def split: prod.splits)
qed

section \<open>The class of what the payment functions make\<close>

lemma class_multisig:
  assumes "list_all isStrictPubKeyEncoding keys" "length keys \<le> 16" "nreq \<le> 16"
  shows "GetScriptClass ([smallOp nreq] @ rawBytes (map pushToken keys) @ [smallOp (length keys), OP_CHECKMULTISIG]) = MultiSigTy"
    (is "GetScriptClass ?s = _")
proof -
  define s where "s = ?s"
  have s0: "s ! 0 \<notin> {OP_DATA_33, OP_DATA_65, OP_DUP, OP_HASH160}" using smallOp_facts [OF assms(3)] by (simp add: s_def)
  have s1: "s ! 1 \<notin> {OP_DATA_20, OP_DATA_32}" if "3 < length s"
  proof (cases keys)
    case (Cons k ks)
    with assms(1) have "length k = 33 \<or> length k = 65" by (auto simp: isStrictPubKeyEncoding_def split: if_splits)
    then show ?thesis using Cons by (auto simp: s_def pushToken_def pushBytes_hash)
  qed (use that in \<open>simp add: s_def\<close>)
  have "\<not> isPubKeyScript s" "extractPubKeyHash s = None" "extractScriptHash s = None"
    using s0 by (auto simp: isPubKeyScript_def extractPubKey_def extractCompressedPubKey_def extractUncompressedPubKey_def
      extractPubKeyHash_def extractScriptHash_def)
  moreover have "extractWitnessPubKeyHash s = None" "extractWitnessV0ScriptHash s = None"
    using s1 by (auto simp: extractWitnessPubKeyHash_def extractWitnessV0ScriptHash_def)
  moreover have "isMultisigScript 0 s" unfolding isMultisigScript_def s_def multisig_recognized [OF assms] by simp
  ultimately have "GetScriptClass s = MultiSigTy"
    by (simp add: GetScriptClass_def typeOfScript_def isPubKeyHashScript_def isScriptHashScript_def
      isWitnessPubKeyHashScript_def isWitnessScriptHashScript_def)
  then show ?thesis by (simp only: s_def)
qed

lemma parse_first: "wf_token (op, data, raw) \<Longrightarrow> wf_token tok \<Longrightarrow> parseScript (raw @ snd (snd tok)) = [(op, data, raw), tok]"
  using parseScript_rawBytes [of "[(op, data, raw), tok]"] by (cases tok) simp

lemma class_taproot:
  assumes "length w = 32"
  shows "GetScriptClass (OP_1 # pushBytes w) = WitnessV1TaprootTy"
proof -
  have p: "pushBytes w = 0x20 # w" using assms by (simp add: pushBytes_hash)
  have tok: "pushToken w = (0x20, Some w, 0x20 # w)" using assms by (auto simp: pushToken_def p smallPush_def)
  have "wf_token (0x51, None, [0x51])" using smallOp_facts(3) [of 1] by (simp add: smallOp_def)
  moreover have "wf_token (pushToken w)" by (rule wf_pushToken) (simp add: assms)
  ultimately have "parseScript ([0x51] @ snd (snd (pushToken w))) = [(0x51, None, [0x51]), pushToken w]"
    by (rule parse_first)
  then have parse: "parseScript (0x51 # 0x20 # w) = [(0x51, None, [0x51]), (0x20, Some w, 0x20 # w)]" by (simp add: tok)
  have "\<not> isMultisigScript 0 (0x51 # 0x20 # w)" by (rule not_multisig [OF parse]) (simp add: isSmallInt_def)
  then show ?thesis using assms
    by (simp add: p GetScriptClass_def typeOfScript_def isPubKeyScript_def extractPubKey_def extractCompressedPubKey_def
      extractUncompressedPubKey_def isPubKeyHashScript_def isScriptHashScript_def isWitnessPubKeyHashScript_def
      isWitnessScriptHashScript_def extractPubKeyHash_def extractScriptHash_def extractWitnessPubKeyHash_def
      extractWitnessV0ScriptHash_def isNullDataScript_def isWitnessTaprootScript_def extractWitnessV1KeyBytes_def)
qed

lemma push_op_small: "isSmallInt (hd (pushBytes d)) \<or> hd (pushBytes d) \<le> OP_PUSHDATA4 \<longleftrightarrow> d \<noteq> [0x81]"
proof -
  consider (m) "d = [0x81]" | (e) "d = [] \<or> d = [0]" | (n) x where "d = [x]" "x \<le> 16" "x \<noteq> 0"
    | (p) "\<not> smallPush d" "length d < 76" | (q) "76 \<le> length d"
    by (cases d; cases "length d < 76") (auto simp: smallPush_def)
  then show ?thesis
  proof cases
    case n
    with OP_N_le [of x] show ?thesis by (auto simp: pushBytes_def isSmallInt_def)
  next
    case p
    then have "pushBytes d = word_of_nat (length d) # d" "d \<noteq> [0x81]" by (auto simp: pushBytes_def smallPush_def)
    with p show ?thesis by (simp add: word_le_nat_alt unat_small_length)
  next
    case q
    then have "hd (pushBytes d) \<in> {0x4c, 0x4d, 0x4e}" "d \<noteq> [0x81]" by (auto simp: pushBytes_def)
    then show ?thesis by auto
  qed (auto simp: pushBytes_def isSmallInt_def)
qed

lemma nullData_token:
  assumes "length d \<le> 80"
  shows "isNullDataScript 0 (OP_RETURN # pushBytes d) \<longleftrightarrow> d \<noteq> [0x81]"
proof -
  have wf: "wf_token (pushToken d)" by (rule wf_pushToken) (use assms in simp)
  obtain op data raw where tok: "pushToken d = (op, data, raw)" by (cases "pushToken d")
  then have raw: "raw = pushBytes d" by (simp add: pushToken_def)
  have "tokens (MakeScriptTokenizer 0 (pushBytes d)) = [(op, data, raw)]"
    using parseScript_append [OF wf [unfolded tok], of "[]"] raw by simp
  then obtain t where t: "Next (MakeScriptTokenizer 0 (pushBytes d)) = (True, t)" "tz_op t = Some op" "tz_data t = data"
      "tokens t = []" "tz_script t = pushBytes d" "tz_offset t = length raw"
    by (auto elim!: tokens_Cons simp: MakeScriptTokenizer_def)
  then have "Done t" using raw by (simp add: Done_def)
  have "length (case data of None \<Rightarrow> [] | Some x \<Rightarrow> x) \<le> 80" using tok assms by (auto simp: pushToken_def split: if_splits)
  moreover have "pushBytes d \<noteq> []" by (simp add: pushBytes_def)
  moreover have "op = hd (pushBytes d)" using tok by (auto simp: pushToken_def)
  then have "isSmallInt op \<or> op \<le> OP_PUSHDATA4 \<longleftrightarrow> d \<noteq> [0x81]" using push_op_small by simp
  ultimately show ?thesis using t \<open>Done t\<close> by (simp add: isNullDataScript_def)
qed

lemma class_nullData:
  assumes "length d \<le> 80"
  shows "GetScriptClass (OP_RETURN # pushBytes d) = (if d = [0x81] then NonStandardTy else NullDataTy)"
proof -
  define s where "s = OP_RETURN # pushBytes d"
  have "s ! 0 = 0x6a" by (simp add: s_def)
  then have "\<not> isPubKeyScript s" "extractPubKeyHash s = None" "extractScriptHash s = None" "extractWitnessPubKeyHash s = None"
      "extractWitnessV0ScriptHash s = None" "extractWitnessV1KeyBytes s = None"
    by (auto simp: isPubKeyScript_def extractPubKey_def extractCompressedPubKey_def extractUncompressedPubKey_def
      extractPubKeyHash_def extractScriptHash_def extractWitnessPubKeyHash_def extractWitnessV0ScriptHash_def
      extractWitnessV1KeyBytes_def)
  moreover have "\<not> isMultisigScript 0 s"
  proof -
    have "wf_token (0x6a, None, [0x6a])" by (simp add: wf_token_def token1_single opcodeLength_small(3))
    from parseScript_append [OF this, of "pushBytes d"] have "tokens (MakeScriptTokenizer 0 s) = (0x6a, None, [0x6a]) # parseScript (pushBytes d)"
      by (simp add: s_def)
    then obtain t where "Next (MakeScriptTokenizer 0 s) = (True, t)" "tz_op t = Some 0x6a" by (rule tokens_Cons)
    then show ?thesis by (simp add: isMultisigScript_def extractMultisigScriptDetails_def noMultiSigDetails_def isSmallInt_def)
  qed
  ultimately have "GetScriptClass s = (if d = [0x81] then NonStandardTy else NullDataTy)"
    using nullData_token [OF assms]
    by (simp add: s_def [symmetric, simplified] GetScriptClass_def typeOfScript_def isPubKeyHashScript_def isScriptHashScript_def
      isWitnessPubKeyHashScript_def isWitnessScriptHashScript_def isWitnessTaprootScript_def)
  then show ?thesis by (simp only: s_def)
qed

lemma extract_payToPubKey:
  assumes "isStrictPubKeyEncoding k"
  shows "extractPubKey (pushBytes k @ [OP_CHECKSIG]) = Some k"
proof -
  from assms consider "length k = 33" "k ! 0 = 0x02 \<or> k ! 0 = 0x03" | "length k = 65" "k ! 0 = 0x04 \<or> k ! 0 = 0x06 \<or> k ! 0 = 0x07"
    by (auto simp: isStrictPubKeyEncoding_def split: if_splits)
  then show ?thesis
    by cases (auto simp: pushBytes_hash extractPubKey_def extractCompressedPubKey_def extractUncompressedPubKey_def
      slice_def nth_append)
qed

text \<open>C40: The scripts made for a key, a hash, a witness program, a multisig of at most sixteen keys or null data are
  recognized as what they are, and the keys, hashes and numbers are extracted again.  The one exception is
  null data of the single byte 0x81, which is written with an opcode the check for null data rejects.\<close>

theorem standard_scripts_recognized:
  assumes "length h = 20" "length w = 32" "isStrictPubKeyEncoding k" "length d \<le> MaxDataCarrierSize"
    and "list_all isStrictPubKeyEncoding keys" "length keys \<le> 16" "nreq \<le> length keys"
  shows "(\<exists>s. payToPubKeyHashScript h = Inr s \<and> GetScriptClass s = PubKeyHashTy \<and> extractPubKeyHash s = Some h) \<and>
    (\<exists>s. payToScriptHashScript h = Inr s \<and> GetScriptClass s = ScriptHashTy \<and> extractScriptHash s = Some h) \<and>
    (\<exists>s. payToWitnessPubKeyHashScript h = Inr s \<and> GetScriptClass s = WitnessV0PubKeyHashTy \<and> extractWitnessPubKeyHash s = Some h) \<and>
    (\<exists>s. payToWitnessScriptHashScript w = Inr s \<and> GetScriptClass s = WitnessV0ScriptHashTy \<and> extractWitnessV0ScriptHash s = Some w) \<and>
    (\<exists>s. payToWitnessTaprootScript w = Inr s \<and> GetScriptClass s = WitnessV1TaprootTy \<and> extractWitnessV1KeyBytes s = Some w) \<and>
    (\<exists>s. payToPubKeyScript k = Inr s \<and> GetScriptClass s = PubKeyTy \<and> extractPubKey s = Some k) \<and>
    (\<exists>s. NullDataScript d = Inr s \<and> GetScriptClass s = (if d = [0x81] then NonStandardTy else NullDataTy)) \<and>
    (\<exists>s. MultiSigScript keys (int nreq) = Some (Inr s) \<and> GetScriptClass s = MultiSigTy \<and>
      CalcMultiSigStats s = Inr (length keys, nreq) \<and> ms_pubKeys (extractMultisigScriptDetails 0 s True) = keys)"
proof (intro conjI)
  have k: "length k \<le> 65" using assms(3) by (auto simp: isStrictPubKeyEncoding_def split: if_splits)
  note hash = pay_scripts typeOfScript_iffs extract_iffs pushBytes_hash assms(1,2)
  show "\<exists>s. payToPubKeyHashScript h = Inr s \<and> GetScriptClass s = PubKeyHashTy \<and> extractPubKeyHash s = Some h" by (simp add: hash)
  show "\<exists>s. payToScriptHashScript h = Inr s \<and> GetScriptClass s = ScriptHashTy \<and> extractScriptHash s = Some h" by (simp add: hash)
  show "\<exists>s. payToWitnessPubKeyHashScript h = Inr s \<and> GetScriptClass s = WitnessV0PubKeyHashTy \<and> extractWitnessPubKeyHash s = Some h"
    by (simp add: hash)
  show "\<exists>s. payToWitnessScriptHashScript w = Inr s \<and> GetScriptClass s = WitnessV0ScriptHashTy \<and> extractWitnessV0ScriptHash s = Some w"
    by (simp add: hash)
  show "\<exists>s. payToWitnessTaprootScript w = Inr s \<and> GetScriptClass s = WitnessV1TaprootTy \<and> extractWitnessV1KeyBytes s = Some w"
    using class_taproot [OF assms(2)] by (simp add: hash)
  show "\<exists>s. payToPubKeyScript k = Inr s \<and> GetScriptClass s = PubKeyTy \<and> extractPubKey s = Some k"
    using extract_payToPubKey [OF assms(3)] k by (simp add: pay_scripts typeOfScript_iffs isPubKeyScript_def)
  show "\<exists>s. NullDataScript d = Inr s \<and> GetScriptClass s = (if d = [0x81] then NonStandardTy else NullDataTy)"
    using class_nullData [of d] assms(4) by (simp add: pay_scripts)
  have n: "nreq \<le> 16" using assms by simp
  show "\<exists>s. MultiSigScript keys (int nreq) = Some (Inr s) \<and> GetScriptClass s = MultiSigTy \<and>
      CalcMultiSigStats s = Inr (length keys, nreq) \<and> ms_pubKeys (extractMultisigScriptDetails 0 s True) = keys"
    unfolding MultiSigScript_eq [OF assms(5-7)] option.inject sum.inject
    using class_multisig [OF assms(5,6) n] multisig_recognized [OF assms(5,6) n] by (auto simp: CalcMultiSigStats_def)
qed

theorem standard_scripts_recognized_witness:
  "\<exists>s. payToPubKeyHashScript (replicate 20 7) = Inr s \<and> GetScriptClass s = PubKeyHashTy \<and>
     extractPubKeyHash s = Some (replicate 20 7)"
  using standard_scripts_recognized [of "replicate 20 7" "replicate 32 9" "2 # replicate 32 5" "[0x81]"
      "[2 # replicate 32 5, 4 # replicate 64 3]" 1]
  by (simp add: isStrictPubKeyEncoding_def)

end
