(* ===== verification/Sighash.thy ===== *)
theory Sighash
  imports Script_Stack Script_Std
begin

unbundle bit_operations_syntax

text \<open>
  The hashes that signatures sign (\<^verbatim>\<open>txscript/sighash.go\<close>) and the midstates that inputs of one
  transaction share (\<^verbatim>\<open>txscript/hashcache.go\<close>): the original algorithm, BIP 143 and BIP 341.  What is
  written to a hasher is the list of its bytes.  \<^verbatim>\<open>PrevOutputFetcher\<close> is an interface: a function,
  absent when the interface value is nil.\<close>

section \<open>Midstates\<close>

type_synonym PrevOutputFetcher = "(OutPoint \<Rightarrow> TxOut option) option"

text \<open>\<^verbatim>\<open>FetchPrevOutput\<close> and the use of its result: a nil fetcher or output is dereferenced.\<close>

definition FetchPrevOutput :: "PrevOutputFetcher \<Rightarrow> OutPoint \<Rightarrow> TxOut eres" where
  "FetchPrevOutput inputFetcher op =
     (case inputFetcher of
        None \<Rightarrow> Inl (Panic ''FetchPrevOutput'')
      | Some fetch \<Rightarrow> (case fetch op of None \<Rightarrow> Inl (Panic ''FetchPrevOutput'') | Some prevOut \<Rightarrow> Inr prevOut))"

definition calcHashPrevOuts :: "MsgTx \<Rightarrow> hash" where
  "calcHashPrevOuts tx =
     Sum256 (write_all (\<lambda>ti. op_Hash (ti_PreviousOutPoint ti) @
       PutUint32 LittleEndian (op_Index (ti_PreviousOutPoint ti))) (tx_TxIn tx))"

definition calcHashSequence :: "MsgTx \<Rightarrow> hash" where
  "calcHashSequence tx = Sum256 (write_all (\<lambda>ti. PutUint32 LittleEndian (ti_Sequence ti)) (tx_TxIn tx))"

definition calcHashOutputs :: "MsgTx \<Rightarrow> hash" where
  "calcHashOutputs tx = Sum256 (write_all WriteTxOut (tx_TxOut tx))"

text \<open>The loops over the previous outputs.\<close>

fun prevOutsLoop :: "(TxOut \<Rightarrow> byte list) \<Rightarrow> PrevOutputFetcher \<Rightarrow> TxIn list \<Rightarrow> byte list eres" where
  "prevOutsLoop put inputFetcher [] = Inr []"
| "prevOutsLoop put inputFetcher (txIn # txIns) =
     rbind (FetchPrevOutput inputFetcher (ti_PreviousOutPoint txIn)) (\<lambda>prevOut.
     rbind (prevOutsLoop put inputFetcher txIns) (\<lambda>b. Inr (put prevOut @ b)))"

definition calcHashInputAmounts :: "MsgTx \<Rightarrow> PrevOutputFetcher \<Rightarrow> hash eres" where
  "calcHashInputAmounts tx inputFetcher =
     rbind (prevOutsLoop (\<lambda>prevOut. PutUint64 LittleEndian (to_Value prevOut)) inputFetcher (tx_TxIn tx)) (\<lambda>b. Inr (Sum256 b))"

definition calcHashInputScripts :: "MsgTx \<Rightarrow> PrevOutputFetcher \<Rightarrow> hash eres" where
  "calcHashInputScripts tx inputFetcher =
     rbind (prevOutsLoop (\<lambda>prevOut. WriteVarBytes (to_PkScript prevOut)) inputFetcher (tx_TxIn tx)) (\<lambda>b. Inr (Sum256 b))"

record TxSigHashes =
  HashPrevOutsV0 :: hash
  HashSequenceV0 :: hash
  HashOutputsV0 :: hash
  HashPrevOutsV1 :: hash
  HashSequenceV1 :: hash
  HashOutputsV1 :: hash
  HashInputScriptsV1 :: hash
  HashInputAmountsV1 :: hash

text \<open>The loop that finds which midstates are needed; it stops when both are.\<close>

fun midstateLoop :: "PrevOutputFetcher \<Rightarrow> TxIn list \<Rightarrow> bool \<Rightarrow> bool \<Rightarrow> (bool \<times> bool) eres" where
  "midstateLoop inputFetcher [] hasV0Inputs hasV1Inputs = Inr (hasV0Inputs, hasV1Inputs)"
| "midstateLoop inputFetcher (txIn # txIns) hasV0Inputs hasV1Inputs =
     (let outpoint = ti_PreviousOutPoint txIn in
      if op_Index outpoint = 0xffffffff \<and> op_Hash outpoint = zeroHash
      then midstateLoop inputFetcher txIns True hasV1Inputs
      else
        rbind (FetchPrevOutput inputFetcher outpoint) (\<lambda>prevOut.
          let taproot = isWitnessTaprootScript (to_PkScript prevOut);
              hasV0Inputs = (hasV0Inputs \<or> \<not> taproot);
              hasV1Inputs = (hasV1Inputs \<or> taproot)
          in
          if hasV0Inputs \<and> hasV1Inputs then Inr (hasV0Inputs, hasV1Inputs)
          else midstateLoop inputFetcher txIns hasV0Inputs hasV1Inputs))"

definition NewTxSigHashes :: "MsgTx \<Rightarrow> PrevOutputFetcher \<Rightarrow> TxSigHashes eres" where
  "NewTxSigHashes tx inputFetcher =
     rbind (midstateLoop inputFetcher (tx_TxIn tx) False False) (\<lambda>(hasV0Inputs, hasV1Inputs).
       let v1 = (calcHashPrevOuts tx, calcHashSequence tx, calcHashOutputs tx);
           v0 = (if hasV0Inputs then (Sum256 (fst v1), Sum256 (fst (snd v1)), Sum256 (snd (snd v1)))
                 else (zeroHash, zeroHash, zeroHash))
       in
       rbind (if hasV1Inputs then calcHashInputAmounts tx inputFetcher else Inr zeroHash) (\<lambda>amounts.
       rbind (if hasV1Inputs then calcHashInputScripts tx inputFetcher else Inr zeroHash) (\<lambda>scripts.
         Inr \<lparr>HashPrevOutsV0 = fst v0, HashSequenceV0 = fst (snd v0), HashOutputsV0 = snd (snd v0),
              HashPrevOutsV1 = fst v1, HashSequenceV1 = fst (snd v1), HashOutputsV1 = snd (snd v1),
              HashInputScriptsV1 = scripts, HashInputAmountsV1 = amounts\<rparr>)))"

section \<open>The original algorithm and BIP 143\<close>

type_synonym SigHashType = uint32

abbreviation SigHashDefault :: SigHashType where "SigHashDefault \<equiv> 0"
abbreviation SigHashAll :: SigHashType where "SigHashAll \<equiv> 1"
abbreviation SigHashNone :: SigHashType where "SigHashNone \<equiv> 2"
abbreviation SigHashSingle :: SigHashType where "SigHashSingle \<equiv> 3"
abbreviation SigHashAnyOneCanPay :: SigHashType where "SigHashAnyOneCanPay \<equiv> 0x80"
abbreviation sigHashMask :: SigHashType where "sigHashMask \<equiv> 0x1f"

text \<open>What the loop over the inputs writes for the input at \<open>i\<close>.\<close>

definition sigHashInput :: "byte list \<Rightarrow> SigHashType \<Rightarrow> nat \<Rightarrow> nat \<times> TxIn \<Rightarrow> byte list" where
  "sigHashInput sigScript hashType idx = (\<lambda>(i, txIn).
     op_Hash (ti_PreviousOutPoint txIn) @ PutUint32 LittleEndian (op_Index (ti_PreviousOutPoint txIn)) @
     (if i = idx then WriteVarBytes sigScript @ PutUint32 LittleEndian (ti_Sequence txIn)
      else WriteVarBytes [] @
        (if hashType AND sigHashMask = SigHashNone \<or> hashType AND sigHashMask = SigHashSingle
         then PutUint32 LittleEndian 0 else PutUint32 LittleEndian (ti_Sequence txIn))))"

definition sigHashOutputs :: "SigHashType \<Rightarrow> MsgTx \<Rightarrow> nat \<Rightarrow> byte list" where
  "sigHashOutputs hashType tx idx =
     (if hashType AND sigHashMask = SigHashNone then WriteVarInt 0
      else if hashType AND sigHashMask = SigHashSingle then
        WriteVarInt (word_of_nat (idx + 1)) @
        concat (replicate idx (WriteTxOut \<lparr>to_Value = -1, to_PkScript = []\<rparr>)) @
        PutUint64 LittleEndian (to_Value (tx_TxOut tx ! idx)) @ WriteVarBytes (to_PkScript (tx_TxOut tx ! idx))
      else
        WriteVarInt (word_of_nat (length (tx_TxOut tx))) @
        write_all (\<lambda>out. PutUint64 LittleEndian (to_Value out) @ WriteVarBytes (to_PkScript out)) (tx_TxOut tx))"

definition calcSignatureHash :: "byte list \<Rightarrow> SigHashType \<Rightarrow> MsgTx \<Rightarrow> nat \<Rightarrow> hash eres" where
  "calcSignatureHash sigScript hashType tx idx =
     (if hashType AND sigHashMask = SigHashSingle \<and> idx \<ge> length (tx_TxOut tx) then Inr (zeroHash[0 := 1])
      else
        let sigScript = removeOpcodeRaw sigScript OP_CODESEPARATOR in
        rbind
          (if hashType AND SigHashAnyOneCanPay = 0 then
             Inr (WriteVarInt (word_of_nat (length (tx_TxIn tx))) @
               write_all (sigHashInput sigScript hashType idx) (enumerate 0 (tx_TxIn tx)))
           else if idx \<ge> length (tx_TxIn tx) then Inl (Panic ''index out of range'')
           else Inr (WriteVarInt 1 @ WriteOutPoint (ti_PreviousOutPoint (tx_TxIn tx ! idx)) @ WriteVarBytes sigScript @
             PutUint32 LittleEndian (ti_Sequence (tx_TxIn tx ! idx)))) (\<lambda>inputs.
        Inr (DoubleHashH (PutUint32 LittleEndian (tx_Version tx) @ inputs @ sigHashOutputs hashType tx idx @
          PutUint32 LittleEndian (tx_LockTime tx) @ PutUint32 LittleEndian hashType))))"

definition CalcSignatureHash :: "byte list \<Rightarrow> SigHashType \<Rightarrow> MsgTx \<Rightarrow> nat \<Rightarrow> hash eres" where
  "CalcSignatureHash script hashType tx idx =
     (case checkScriptParses 0 script of
        Some err \<Rightarrow> Inl (ScriptError err)
      | None \<Rightarrow> calcSignatureHash script hashType tx idx)"

definition calcWitnessSignatureHashRaw ::
    "byte list \<Rightarrow> TxSigHashes \<Rightarrow> SigHashType \<Rightarrow> MsgTx \<Rightarrow> nat \<Rightarrow> uint64 \<Rightarrow> hash eres" where
  "calcWitnessSignatureHashRaw scriptSig sigHashes hashType tx idx amt =
     (if int idx > int (length (tx_TxIn tx)) - 1 then Inl (OtherError ''idx'')
      else
        let txIn = tx_TxIn tx ! idx in
        Inr (DoubleHashH (
          PutUint32 LittleEndian (tx_Version tx) @
          (if hashType AND SigHashAnyOneCanPay = 0 then HashPrevOutsV0 sigHashes else zeroHash) @
          (if hashType AND SigHashAnyOneCanPay = 0 \<and> hashType AND sigHashMask \<noteq> SigHashSingle \<and>
              hashType AND sigHashMask \<noteq> SigHashNone
           then HashSequenceV0 sigHashes else zeroHash) @
          op_Hash (ti_PreviousOutPoint txIn) @ PutUint32 LittleEndian (op_Index (ti_PreviousOutPoint txIn)) @
          (if isWitnessPubKeyHashScript scriptSig
           then [0x19, OP_DUP, OP_HASH160, OP_DATA_20] @ the (extractWitnessPubKeyHash scriptSig) @ [OP_EQUALVERIFY, OP_CHECKSIG]
           else WriteVarBytes scriptSig) @
          PutUint64 LittleEndian amt @ PutUint32 LittleEndian (ti_Sequence txIn) @
          (if hashType AND sigHashMask \<noteq> SigHashSingle \<and> hashType AND sigHashMask \<noteq> SigHashNone
           then HashOutputsV0 sigHashes
           else if hashType AND sigHashMask = SigHashSingle \<and> idx < length (tx_TxOut tx)
           then DoubleHashH (WriteTxOut (tx_TxOut tx ! idx))
           else zeroHash) @
          PutUint32 LittleEndian (tx_LockTime tx) @ PutUint32 LittleEndian hashType)))"

definition CalcWitnessSigHash ::
    "byte list \<Rightarrow> TxSigHashes \<Rightarrow> SigHashType \<Rightarrow> MsgTx \<Rightarrow> nat \<Rightarrow> uint64 \<Rightarrow> hash eres" where
  "CalcWitnessSigHash script sigHashes hType tx idx amt =
     (case checkScriptParses 0 script of
        Some err \<Rightarrow> Inl (ScriptError err)
      | None \<Rightarrow> calcWitnessSignatureHashRaw script sigHashes hType tx idx amt)"

section \<open>BIP 341\<close>

text \<open>\<^verbatim>\<open>chainhash.TaggedHash\<close>: the table of precomputed tags holds the hashes of the tags themselves.\<close>

definition TaggedHash :: "byte list \<Rightarrow> byte list \<Rightarrow> hash" where
  "TaggedHash tag msg = Sum256 (Sum256 tag @ Sum256 tag @ msg)"

definition TagTapSighash :: "byte list" where
  "TagTapSighash = [0x54, 0x61, 0x70, 0x53, 0x69, 0x67, 0x68, 0x61, 0x73, 0x68]"

record taprootSigHashOptions =
  extFlag :: byte
  annexHash :: "byte list option"
  tapLeafHash :: hash
  keyVersion :: byte
  codeSepPos :: uint32

abbreviation baseSigHashExtFlag :: byte where "baseSigHashExtFlag \<equiv> 0"
abbreviation tapscriptSighashExtFlag :: byte where "tapscriptSighashExtFlag \<equiv> 1"

definition writeDigestExtensions :: "taprootSigHashOptions \<Rightarrow> byte list" where
  "writeDigestExtensions t =
     (if extFlag t = baseSigHashExtFlag then []
      else if extFlag t = tapscriptSighashExtFlag
      then tapLeafHash t @ [keyVersion t] @ PutUint32 LittleEndian (codeSepPos t)
      else [])"

definition WithAnnex :: "byte list \<Rightarrow> taprootSigHashOptions \<Rightarrow> taprootSigHashOptions" where
  "WithAnnex annex opts = opts\<lparr>annexHash := Some (Sum256 (WriteVarBytes annex))\<rparr>"

definition WithBaseTapscriptVersion :: "uint32 \<Rightarrow> hash \<Rightarrow> taprootSigHashOptions \<Rightarrow> taprootSigHashOptions" where
  "WithBaseTapscriptVersion pos leafHash opts =
     opts\<lparr>extFlag := tapscriptSighashExtFlag, tapLeafHash := leafHash, keyVersion := 0, codeSepPos := pos\<rparr>"

definition isValidTaprootSigHash :: "SigHashType \<Rightarrow> bool" where
  "isValidTaprootSigHash hashType \<longleftrightarrow>
     hashType \<in> {SigHashDefault, SigHashAll, SigHashNone, SigHashSingle, 0x81, 0x82, 0x83}"

text \<open>A nil midstate is dereferenced where one of its fields is written.\<close>

definition midstate :: "TxSigHashes option \<Rightarrow> (TxSigHashes \<Rightarrow> byte list) \<Rightarrow> byte list eres" where
  "midstate sigHashes field = (case sigHashes of None \<Rightarrow> Inl (Panic ''TxSigHashes'') | Some m \<Rightarrow> Inr (field m))"

definition calcTaprootSignatureHashRaw ::
    "TxSigHashes option \<Rightarrow> SigHashType \<Rightarrow> MsgTx \<Rightarrow> nat \<Rightarrow> PrevOutputFetcher \<Rightarrow>
      (taprootSigHashOptions \<Rightarrow> taprootSigHashOptions) list \<Rightarrow> hash eres" where
  "calcTaprootSignatureHashRaw sigHashes hType tx idx prevOutFetcher sigHashOpts =
     (let opts = fold (\<lambda>opt. opt) sigHashOpts
            \<lparr>extFlag = 0, annexHash = None, tapLeafHash = [], keyVersion = 0, codeSepPos = 0\<rparr> in
      if \<not> isValidTaprootSigHash hType then Inl (OtherError ''invalid taproot sighash type'')
      else if int idx > int (length (tx_TxIn tx)) - 1 then Inl (OtherError ''idx'')
      else
        let input = tx_TxIn tx ! idx;
            anyoneCanPay = (hType AND SigHashAnyOneCanPay = SigHashAnyOneCanPay)
        in
        rbind (if anyoneCanPay then Inr []
               else midstate sigHashes (\<lambda>m. HashPrevOutsV1 m @ HashInputAmountsV1 m @ HashInputScriptsV1 m @ HashSequenceV1 m))
          (\<lambda>inputs.
        rbind (if hType AND SigHashSingle \<noteq> SigHashSingle \<and> hType AND SigHashSingle \<noteq> SigHashNone
               then midstate sigHashes HashOutputsV1 else Inr []) (\<lambda>outputs.
        rbind (if anyoneCanPay then
                 rbind (FetchPrevOutput prevOutFetcher (ti_PreviousOutPoint input)) (\<lambda>prevOut.
                   Inr (WriteOutPoint (ti_PreviousOutPoint input) @ WriteTxOut prevOut @
                     PutUint32 LittleEndian (ti_Sequence input)))
               else Inr (PutUint32 LittleEndian (word_of_nat idx))) (\<lambda>thisInput.
        rbind (if hType AND sigHashMask = SigHashSingle then
                 (if idx \<ge> length (tx_TxOut tx) then Inl (OtherError ''invalid sighash type for input'')
                  else Inr (Sum256 (WriteTxOut (tx_TxOut tx ! idx))))
               else Inr []) (\<lambda>thisOutput.
        Inr (TaggedHash TagTapSighash (
          [0, ucast hType] @ PutUint32 LittleEndian (tx_Version tx) @ PutUint32 LittleEndian (tx_LockTime tx) @
          inputs @ outputs @ [extFlag opts * 2 + (if annexHash opts \<noteq> None then 1 else 0)] @ thisInput @
          (case annexHash opts of None \<Rightarrow> [] | Some h \<Rightarrow> h) @ thisOutput @ writeDigestExtensions opts)))))))"

section \<open>The algorithms they compute\<close>

text \<open>
  The original algorithm signs a copy of the transaction: the other inputs have no script, and for
  \<^verbatim>\<open>SigHashNone\<close> and \<^verbatim>\<open>SigHashSingle\<close> no sequence number, the outputs after and before the signed
  one are removed and blanked, and \<^verbatim>\<open>SigHashAnyOneCanPay\<close> removes the other inputs.\<close>

definition signedTx :: "byte list \<Rightarrow> SigHashType \<Rightarrow> MsgTx \<Rightarrow> nat \<Rightarrow> MsgTx" where
  "signedTx script hashType tx idx =
     (let kind = hashType AND sigHashMask;
          blank = (\<lambda>(i, ti). ti\<lparr>ti_SignatureScript := (if i = idx then script else []),
            ti_Sequence := (if i \<noteq> idx \<and> kind \<in> {SigHashNone, SigHashSingle} then 0 else ti_Sequence ti)\<rparr>);
          ins = map blank (enumerate 0 (tx_TxIn tx))
      in
      tx\<lparr>tx_TxIn := (if hashType AND SigHashAnyOneCanPay = 0 then ins else [ins ! idx]),
         tx_TxOut := (if kind = SigHashNone then []
           else if kind = SigHashSingle then replicate idx \<lparr>to_Value = -1, to_PkScript = []\<rparr> @ [tx_TxOut tx ! idx]
           else tx_TxOut tx)\<rparr>)"

lemma write_all_sigHashInput:
  "write_all (sigHashInput script hashType idx) ins =
     write_all writeTxIn (map (\<lambda>(i, ti). ti\<lparr>ti_SignatureScript := (if i = idx then script else []),
       ti_Sequence := (if i \<noteq> idx \<and> hashType AND sigHashMask \<in> {SigHashNone, SigHashSingle} then 0 else ti_Sequence ti)\<rparr>) ins)"
  by (induction ins) (auto simp: sigHashInput_def writeTxIn_def WriteOutPoint_def)

lemma sigHashOutputs_eq:
  "sigHashOutputs hashType tx idx =
     WriteVarInt (word_of_nat (length (tx_TxOut (signedTx script hashType tx idx)))) @
     write_all WriteTxOut (tx_TxOut (signedTx script hashType tx idx))"
proof -
  have "concat (replicate n (WriteTxOut t)) @ bs = write_all WriteTxOut (replicate n t) @ bs" for n t bs
    by (induction n) simp_all
  moreover have "PutUint64 LittleEndian (to_Value out) @ WriteVarBytes (to_PkScript out) = WriteTxOut out" for out
    by (simp add: WriteTxOut_def)
  moreover have "write_all WriteTxOut (xs @ [x]) = write_all WriteTxOut xs @ WriteTxOut x" for xs x
    by (simp add: write_all_def)
  moreover have "write_all (\<lambda>out. PutUint64 LittleEndian (to_Value out) @ WriteVarBytes (to_PkScript out)) outs =
      write_all WriteTxOut outs" for outs
    by (induction outs) (simp_all add: WriteTxOut_def)
  ultimately show ?thesis
    by (simp add: sigHashOutputs_def signedTx_def Let_def)
qed

lemma BtcEncode_base:
  "SerializeNoWitness tx =
     PutUint32 LittleEndian (tx_Version tx) @
     WriteVarInt (word_of_nat (length (tx_TxIn tx))) @ write_all writeTxIn (tx_TxIn tx) @
     WriteVarInt (word_of_nat (length (tx_TxOut tx))) @ write_all WriteTxOut (tx_TxOut tx) @
     PutUint32 LittleEndian (tx_LockTime tx)"
  by (simp add: SerializeNoWitness_def BtcEncode_def)

text \<open>C11: The legacy signature hash is the double hash of the serialization of the transaction that the
  original algorithm signs, followed by the hash type, although the code never builds that
  transaction.  An output index out of range gives the hash one, as the original client does, and
  only an input index out of range panics.\<close>

theorem signature_hash_equivalence:
  "calcSignatureHash script hashType tx idx =
     (if hashType AND sigHashMask = SigHashSingle \<and> length (tx_TxOut tx) \<le> idx then Inr (1 # replicate 31 0)
      else if hashType AND SigHashAnyOneCanPay \<noteq> 0 \<and> length (tx_TxIn tx) \<le> idx then Inl (Panic ''index out of range'')
      else Inr (DoubleHashH (
        SerializeNoWitness (signedTx (removeOpcodeRaw script OP_CODESEPARATOR) hashType tx idx) @
        PutUint32 LittleEndian hashType)))"
proof (cases "hashType AND sigHashMask = SigHashSingle \<and> length (tx_TxOut tx) \<le> idx")
  case True
  have "zeroHash[0 := 1] = 1 # replicate 31 (0 :: byte)" by (simp add: zeroHash_def HashSize_def numeral_eq_Suc)
  with True show ?thesis by (simp add: calcSignatureHash_def)
next
  case False
  define s where "s = removeOpcodeRaw script OP_CODESEPARATOR"
  let ?tx = "signedTx s hashType tx idx"
  have [simp]: "tx_Version ?tx = tx_Version tx" "tx_LockTime ?tx = tx_LockTime tx" by (simp_all add: signedTx_def Let_def)
  note outs = sigHashOutputs_eq [of hashType tx idx s]
  have head: "\<not> (hashType AND sigHashMask = SigHashSingle \<and> idx \<ge> length (tx_TxOut tx))" using False by simp
  consider (all) "hashType AND SigHashAnyOneCanPay = 0" | (one) "hashType AND SigHashAnyOneCanPay \<noteq> 0" "idx < length (tx_TxIn tx)"
    | (bad) "hashType AND SigHashAnyOneCanPay \<noteq> 0" "length (tx_TxIn tx) \<le> idx" by linarith
  then show ?thesis
  proof cases
    case all
    then have "length (tx_TxIn ?tx) = length (tx_TxIn tx)"
      "write_all (sigHashInput s hashType idx) (enumerate 0 (tx_TxIn tx)) = write_all writeTxIn (tx_TxIn ?tx)"
      by (simp_all add: signedTx_def Let_def write_all_sigHashInput)
    with all show ?thesis
      unfolding calcSignatureHash_def Let_def s_def [symmetric] if_not_P [OF head] if_not_P [OF False] outs
      by (simp add: BtcEncode_base)
  next
    case one
    then have "tx_TxIn ?tx = [(tx_TxIn tx ! idx)\<lparr>ti_SignatureScript := s\<rparr>]"
      by (simp add: signedTx_def Let_def nth_enumerate_eq)
    with one show ?thesis
      unfolding calcSignatureHash_def Let_def s_def [symmetric] if_not_P [OF head] if_not_P [OF False] outs
      by (simp add: BtcEncode_base writeTxIn_def)
  next
    case bad
    then show ?thesis unfolding calcSignatureHash_def Let_def if_not_P [OF head] if_not_P [OF False] by simp
  qed
qed

text \<open>The digest of BIP 143, with nothing cached.\<close>

definition scriptCode :: "byte list \<Rightarrow> byte list" where
  "scriptCode script =
     (case extractWitnessPubKeyHash script of
        Some h \<Rightarrow> [OP_DUP, OP_HASH160, OP_DATA_20] @ h @ [OP_EQUALVERIFY, OP_CHECKSIG]
      | None \<Rightarrow> script)"

definition bip143 :: "byte list \<Rightarrow> SigHashType \<Rightarrow> MsgTx \<Rightarrow> nat \<Rightarrow> uint64 \<Rightarrow> byte list" where
  "bip143 script hashType tx idx amt =
     (let kind = hashType AND sigHashMask;
          anyone = (hashType AND SigHashAnyOneCanPay \<noteq> 0);
          txIn = tx_TxIn tx ! idx;
          hashPrevouts = (if anyone then zeroHash
            else DoubleHashH (write_all (\<lambda>ti. WriteOutPoint (ti_PreviousOutPoint ti)) (tx_TxIn tx)));
          hashSequence = (if anyone \<or> kind \<in> {SigHashNone, SigHashSingle} then zeroHash
            else DoubleHashH (write_all (\<lambda>ti. PutUint32 LittleEndian (ti_Sequence ti)) (tx_TxIn tx)));
          hashOutputs = (if kind \<notin> {SigHashNone, SigHashSingle} then DoubleHashH (write_all WriteTxOut (tx_TxOut tx))
            else if kind = SigHashSingle \<and> idx < length (tx_TxOut tx) then DoubleHashH (WriteTxOut (tx_TxOut tx ! idx))
            else zeroHash)
      in
      PutUint32 LittleEndian (tx_Version tx) @ hashPrevouts @ hashSequence @ WriteOutPoint (ti_PreviousOutPoint txIn) @
      WriteVarBytes (scriptCode script) @ PutUint64 LittleEndian amt @ PutUint32 LittleEndian (ti_Sequence txIn) @
      hashOutputs @ PutUint32 LittleEndian (tx_LockTime tx) @ PutUint32 LittleEndian hashType)"

lemma WriteVarBytes_scriptCode:
  "WriteVarBytes (scriptCode script) =
     (if isWitnessPubKeyHashScript script
      then [0x19, OP_DUP, OP_HASH160, OP_DATA_20] @ the (extractWitnessPubKeyHash script) @ [OP_EQUALVERIFY, OP_CHECKSIG]
      else WriteVarBytes script)"
proof (cases "extractWitnessPubKeyHash script")
  case (Some h)
  then have "length h = 20" by (simp add: extractWitnessPubKeyHash_iff)
  with Some show ?thesis
    by (simp add: scriptCode_def isWitnessPubKeyHashScript_def WriteVarBytes_def WriteVarInt_def PutUint8_def)
qed (simp add: scriptCode_def isWitnessPubKeyHashScript_def)

lemma midstateLoop_v0:
  assumes "midstateLoop f ins v0 v1 = Inr (a, b)"
  shows "v0 \<Longrightarrow> a"
    and "ti \<in> set ins \<Longrightarrow> FetchPrevOutput f (ti_PreviousOutPoint ti) = Inr out \<Longrightarrow>
      \<not> isWitnessTaprootScript (to_PkScript out) \<Longrightarrow> a"
proof -
  show "v0 \<Longrightarrow> a" using assms
    by (induction ins arbitrary: v0 v1) (auto simp: Let_def rbind_eq_Inr split: if_splits)
  show "ti \<in> set ins \<Longrightarrow> FetchPrevOutput f (ti_PreviousOutPoint ti) = Inr out \<Longrightarrow>
      \<not> isWitnessTaprootScript (to_PkScript out) \<Longrightarrow> a" using assms
  proof (induction ins arbitrary: v0 v1)
    case (Cons x xs)
    have v0: "midstateLoop f xs True w = Inr (a, b) \<Longrightarrow> a" for w
      by (induction xs arbitrary: w) (auto simp: Let_def rbind_eq_Inr split: if_splits)
    then show ?case using Cons by (auto simp: Let_def rbind_eq_Inr split: if_splits)
  qed simp
qed

text \<open>C12: The cached midstates compute BIP 143: with the midstates that \<^verbatim>\<open>NewTxSigHashes\<close> makes for a
  transaction, the signature hash of an input whose previous output is not a taproot output is the
  double hash of the BIP 143 digest of the transaction itself.\<close>

theorem witness_hash_bip143:
  assumes "NewTxSigHashes tx fetcher = Inr sigHashes" "idx < length (tx_TxIn tx)"
    and "FetchPrevOutput fetcher (ti_PreviousOutPoint (tx_TxIn tx ! idx)) = Inr prevOut"
    and "\<not> isWitnessTaprootScript (to_PkScript prevOut)"
  shows "calcWitnessSignatureHashRaw script sigHashes hashType tx idx amt =
    Inr (DoubleHashH (bip143 script hashType tx idx amt))"
proof -
  obtain a b where loop: "midstateLoop fetcher (tx_TxIn tx) False False = Inr (a, b)"
    using assms(1) by (auto simp: NewTxSigHashes_def rbind_eq_Inr)
  moreover have "tx_TxIn tx ! idx \<in> set (tx_TxIn tx)" using assms(2) by simp
  ultimately have a using midstateLoop_v0(2) assms(3,4) by blast
  with assms(1) loop have m: "HashPrevOutsV0 sigHashes = Sum256 (calcHashPrevOuts tx)"
    "HashSequenceV0 sigHashes = Sum256 (calcHashSequence tx)" "HashOutputsV0 sigHashes = Sum256 (calcHashOutputs tx)"
    by (auto simp: NewTxSigHashes_def rbind_eq_Inr)
  have "\<not> int idx > int (length (tx_TxIn tx)) - 1" using assms(2) by linarith
  then show ?thesis
    unfolding calcWitnessSignatureHashRaw_def bip143_def Let_def m WriteVarBytes_scriptCode
    by (simp add: calcHashPrevOuts_def calcHashSequence_def calcHashOutputs_def DoubleHashH_def WriteOutPoint_def)
qed

definition sample_spend :: MsgTx where
  "sample_spend =
     \<lparr>tx_Version = 2,
      tx_TxIn = [\<lparr>ti_PreviousOutPoint = \<lparr>op_Hash = replicate 32 7, op_Index = 1\<rparr>, ti_SignatureScript = [],
                  ti_Witness = None, ti_Sequence = 5\<rparr>],
      tx_TxOut = [\<lparr>to_Value = 900, to_PkScript = [OP_1]\<rparr>], tx_LockTime = 0\<rparr>"

theorem witness_hash_bip143_witness:
  "\<exists>sigHashes. NewTxSigHashes sample_spend (Some (\<lambda>_. Some \<lparr>to_Value = 1000, to_PkScript = [OP_0]\<rparr>)) = Inr sigHashes \<and>
     calcWitnessSignatureHashRaw [OP_1] sigHashes SigHashAll sample_spend 0 1000 =
       Inr (DoubleHashH (bip143 [OP_1] SigHashAll sample_spend 0 1000))"
proof -
  let ?f = "Some (\<lambda>_. Some \<lparr>to_Value = 1000, to_PkScript = [OP_0]\<rparr>)"
  have nt: "\<not> isWitnessTaprootScript [OP_0]" by (simp add: isWitnessTaprootScript_def extractWitnessV1KeyBytes_def)
  have "midstateLoop ?f (tx_TxIn sample_spend) False False = Inr (True, False)"
    using nt by (simp add: sample_spend_def FetchPrevOutput_def)
  then obtain m where m: "NewTxSigHashes sample_spend ?f = Inr m" by (simp add: NewTxSigHashes_def)
  have "FetchPrevOutput ?f (ti_PreviousOutPoint (tx_TxIn sample_spend ! 0)) = Inr \<lparr>to_Value = 1000, to_PkScript = [OP_0]\<rparr>"
    by (simp add: FetchPrevOutput_def)
  with witness_hash_bip143 [OF m, of 0] nt m show ?thesis by (auto simp: sample_spend_def)
qed

end
