(* ===== verification/Taproot.thy ===== *)
theory Taproot
  imports Sighash
begin

unbundle bit_operations_syntax

text \<open>
  Taproot commitments (\<^verbatim>\<open>txscript/taproot.go\<close>): control blocks, leaf and branch hashes, the output
  key and its verification.  The curve, the signature schemes, RIPEMD-160 and the tagged hash of
  btcd's \<^verbatim>\<open>chainhash\<close> are third-party code: the fields of \<open>crypto\<close>.\<close>

section \<open>Third-party code\<close>

text \<open>
  A parser returns \<open>None\<close> where the source returns an error, none of which is a \<^verbatim>\<open>txscript.Error\<close>.
  \<open>tweakKey k h\<close> is the key \<open>k + h * G\<close> that \<^verbatim>\<open>ComputeTaprootOutputKey\<close> computes with the curve's
  routines.  \<open>evictKey\<close> is the entry at which Go starts to range over the signature cache.\<close>

record ('pk, 'sig, 'ssig) crypto =
  ripemd160 :: "byte list \<Rightarrow> byte list"
  curveOrder :: nat
  ParsePubKey :: "byte list \<Rightarrow> 'pk option"
  IsCompressedPubKey :: "byte list \<Rightarrow> bool"
  ParseDERSignature :: "byte list \<Rightarrow> 'sig option"
  ParseSignature :: "byte list \<Rightarrow> 'sig option"
  ecdsaVerify :: "'sig \<Rightarrow> hash \<Rightarrow> 'pk \<Rightarrow> bool"
  schnorrParsePubKey :: "byte list \<Rightarrow> 'pk option"
  schnorrParseSignature :: "byte list \<Rightarrow> 'ssig option"
  schnorrVerify :: "'ssig \<Rightarrow> hash \<Rightarrow> 'pk \<Rightarrow> bool"
  schnorrSerializePubKey :: "'pk \<Rightarrow> byte list"
  SerializeCompressed :: "'pk \<Rightarrow> byte list"
  tweakKey :: "'pk \<Rightarrow> hash \<Rightarrow> 'pk"
  taggedHash :: "string \<Rightarrow> byte list \<Rightarrow> hash"
  evictKey :: "(hash \<times> byte list \<times> byte list) list \<Rightarrow> hash"

section \<open>Annex and control block\<close>

abbreviation TaprootAnnexTag :: byte where "TaprootAnnexTag \<equiv> 0x50"
abbreviation TaprootLeafMask :: byte where "TaprootLeafMask \<equiv> 0xfe"
abbreviation BaseLeafVersion :: byte where "BaseLeafVersion \<equiv> 0xc0"
abbreviation ControlBlockBaseSize :: nat where "ControlBlockBaseSize \<equiv> 33"
abbreviation ControlBlockNodeSize :: nat where "ControlBlockNodeSize \<equiv> 32"
abbreviation ControlBlockMaxSize :: nat where "ControlBlockMaxSize \<equiv> ControlBlockBaseSize + ControlBlockNodeSize * 128"

definition isAnnexedWitness :: "byte list list \<Rightarrow> bool" where
  "isAnnexedWitness witness =
     (if length witness < 2 then False
      else let lastElement = witness ! (length witness - 1) in length lastElement > 0 \<and> lastElement ! 0 = TaprootAnnexTag)"

definition extractAnnex :: "byte list list \<Rightarrow> byte list eres" where
  "extractAnnex witness =
     (if \<not> isAnnexedWitness witness then Inl (TaprootError ErrWitnessHasNoAnnex)
      else Inr (witness ! (length witness - 1)))"

record 'pk ControlBlock =
  InternalKey :: 'pk
  OutputKeyYIsOdd :: bool
  LeafVersion :: byte
  InclusionProof :: "byte list"

definition ToBytes :: "('pk, 'sig, 'ssig) crypto \<Rightarrow> 'pk ControlBlock \<Rightarrow> byte list" where
  "ToBytes c cb =
     (LeafVersion cb OR (if OutputKeyYIsOdd cb then 1 else 0)) # schnorrSerializePubKey c (InternalKey cb) @ InclusionProof cb"

definition ParseControlBlock :: "('pk, 'sig, 'ssig) crypto \<Rightarrow> byte list \<Rightarrow> 'pk ControlBlock eres" where
  "ParseControlBlock c ctrlBlock =
     (if length ctrlBlock < ControlBlockBaseSize then Inl (TaprootError ErrControlBlockTooSmall)
      else if length ctrlBlock > ControlBlockMaxSize then Inl (TaprootError ErrControlBlockTooLarge)
      else if (length ctrlBlock - ControlBlockBaseSize) mod ControlBlockNodeSize \<noteq> 0
      then Inl (TaprootError ErrControlBlockInvalidLength)
      else
        case schnorrParsePubKey c (slice 1 33 ctrlBlock) of
          None \<Rightarrow> Inl (OtherError ''ParsePubKey'')
        | Some pubKey \<Rightarrow>
            Inr \<lparr>InternalKey = pubKey, OutputKeyYIsOdd = (ctrlBlock ! 0 AND 1 = 1),
                 LeafVersion = ctrlBlock ! 0 AND TaprootLeafMask, InclusionProof = drop 33 ctrlBlock\<rparr>)"

section \<open>The script tree\<close>

record TapLeaf =
  tl_LeafVersion :: byte
  tl_Script :: "byte list"

definition TapHash :: "('pk, 'sig, 'ssig) crypto \<Rightarrow> TapLeaf \<Rightarrow> hash" where
  "TapHash c t = taggedHash c ''TapLeaf'' (tl_LeafVersion t # WriteVarBytes (tl_Script t))"

text \<open>\<^verbatim>\<open>bytes.Compare(l, r) > 0\<close>.\<close>

fun bytesGreater :: "byte list \<Rightarrow> byte list \<Rightarrow> bool" where
  "bytesGreater [] ys = False"
| "bytesGreater (x # xs) [] = True"
| "bytesGreater (x # xs) (y # ys) = (if x = y then bytesGreater xs ys else y < x)"

definition tapBranchHash :: "('pk, 'sig, 'ssig) crypto \<Rightarrow> byte list \<Rightarrow> byte list \<Rightarrow> hash" where
  "tapBranchHash c l r = (if bytesGreater l r then taggedHash c ''TapBranch'' (r @ l) else taggedHash c ''TapBranch'' (l @ r))"

primrec rootLoop :: "('pk, 'sig, 'ssig) crypto \<Rightarrow> nat \<Rightarrow> byte list \<Rightarrow> hash \<Rightarrow> hash" where
  "rootLoop c 0 proof merkleAccumulator = merkleAccumulator"
| "rootLoop c (Suc numNodes) proof merkleAccumulator =
     rootLoop c numNodes (drop 32 proof) (tapBranchHash c merkleAccumulator (take 32 proof))"

definition RootHash :: "('pk, 'sig, 'ssig) crypto \<Rightarrow> 'pk ControlBlock \<Rightarrow> byte list \<Rightarrow> hash" where
  "RootHash c cb revealedScript =
     rootLoop c (length (InclusionProof cb) div ControlBlockNodeSize) (InclusionProof cb)
       (TapHash c \<lparr>tl_LeafVersion = LeafVersion cb, tl_Script = revealedScript\<rparr>)"

text \<open>\<^verbatim>\<open>schnorr.ParsePubKey(schnorr.SerializePubKey(pubKey))\<close> is a nil key, and a panic, where it fails.\<close>

definition ComputeTaprootOutputKey :: "('pk, 'sig, 'ssig) crypto \<Rightarrow> 'pk \<Rightarrow> byte list \<Rightarrow> 'pk eres" where
  "ComputeTaprootOutputKey c pubKey scriptRoot =
     (case schnorrParsePubKey c (schnorrSerializePubKey c pubKey) of
        None \<Rightarrow> Inl (Panic ''ComputeTaprootOutputKey'')
      | Some internalKey \<Rightarrow>
          Inr (tweakKey c internalKey (taggedHash c ''TapTweak'' (schnorrSerializePubKey c internalKey @ scriptRoot))))"

abbreviation PubKeyFormatCompressedOdd :: byte where "PubKeyFormatCompressedOdd \<equiv> 3"

definition VerifyTaprootLeafCommitment ::
    "('pk, 'sig, 'ssig) crypto \<Rightarrow> 'pk ControlBlock \<Rightarrow> byte list \<Rightarrow> byte list \<Rightarrow> unit eres" where
  "VerifyTaprootLeafCommitment c controlBlock taprootWitnessProgram revealedScript =
     rbind (ComputeTaprootOutputKey c (InternalKey controlBlock) (RootHash c controlBlock revealedScript)) (\<lambda>taprootKey.
       if schnorrSerializePubKey c taprootKey \<noteq> taprootWitnessProgram then Inl (TaprootError ErrTaprootMerkleProofInvalid)
       else if OutputKeyYIsOdd controlBlock \<noteq> (SerializeCompressed c taprootKey ! 0 = PubKeyFormatCompressedOdd)
       then Inl (TaprootError ErrTaprootOutputKeyParityMismatch)
       else Inr ())"

end
