(* ===== verification/Script_Engine.thy ===== *)
theory Script_Engine
  imports Taproot "HOL-Library.AList"
begin

unbundle bit_operations_syntax

text \<open>
  The state of the script engine (\<^verbatim>\<open>txscript/engine.go\<close>), the signature cache
  (\<^verbatim>\<open>txscript/sigcache.go\<close>), the encoding rules for signatures and keys, and the signature verifiers
  (\<^verbatim>\<open>txscript/sigvalidate.go\<close>).  Logging and disassembly are not modelled.\<close>

section \<open>State\<close>

abbreviation ScriptBip16 :: uint32 where "ScriptBip16 \<equiv> 0x1"
abbreviation ScriptStrictMultiSig :: uint32 where "ScriptStrictMultiSig \<equiv> 0x2"
abbreviation ScriptDiscourageUpgradableNops :: uint32 where "ScriptDiscourageUpgradableNops \<equiv> 0x4"
abbreviation ScriptVerifyCheckLockTimeVerify :: uint32 where "ScriptVerifyCheckLockTimeVerify \<equiv> 0x8"
abbreviation ScriptVerifyCheckSequenceVerify :: uint32 where "ScriptVerifyCheckSequenceVerify \<equiv> 0x10"
abbreviation ScriptVerifyCleanStack :: uint32 where "ScriptVerifyCleanStack \<equiv> 0x20"
abbreviation ScriptVerifyDERSignatures :: uint32 where "ScriptVerifyDERSignatures \<equiv> 0x40"
abbreviation ScriptVerifyLowS :: uint32 where "ScriptVerifyLowS \<equiv> 0x80"
abbreviation ScriptVerifyMinimalData :: uint32 where "ScriptVerifyMinimalData \<equiv> 0x100"
abbreviation ScriptVerifyNullFail :: uint32 where "ScriptVerifyNullFail \<equiv> 0x200"
abbreviation ScriptVerifySigPushOnly :: uint32 where "ScriptVerifySigPushOnly \<equiv> 0x400"
abbreviation ScriptVerifyStrictEncoding :: uint32 where "ScriptVerifyStrictEncoding \<equiv> 0x800"
abbreviation ScriptVerifyWitness :: uint32 where "ScriptVerifyWitness \<equiv> 0x1000"
abbreviation ScriptVerifyDiscourageUpgradeableWitnessProgram :: uint32 where
  "ScriptVerifyDiscourageUpgradeableWitnessProgram \<equiv> 0x2000"
abbreviation ScriptVerifyMinimalIf :: uint32 where "ScriptVerifyMinimalIf \<equiv> 0x4000"
abbreviation ScriptVerifyWitnessPubKeyType :: uint32 where "ScriptVerifyWitnessPubKeyType \<equiv> 0x8000"
abbreviation ScriptVerifyTaproot :: uint32 where "ScriptVerifyTaproot \<equiv> 0x10000"
abbreviation ScriptVerifyDiscourageUpgradeableTaprootVersion :: uint32 where
  "ScriptVerifyDiscourageUpgradeableTaprootVersion \<equiv> 0x20000"
abbreviation ScriptVerifyDiscourageOpSuccess :: uint32 where "ScriptVerifyDiscourageOpSuccess \<equiv> 0x40000"
abbreviation ScriptVerifyDiscourageUpgradeablePubkeyType :: uint32 where
  "ScriptVerifyDiscourageUpgradeablePubkeyType \<equiv> 0x80000"

abbreviation MaxStackSize :: int where "MaxStackSize \<equiv> 1000"
abbreviation MaxScriptSize :: nat where "MaxScriptSize \<equiv> 10000"
abbreviation MaxOpsPerScript :: nat where "MaxOpsPerScript \<equiv> 201"
abbreviation BaseSegwitWitnessVersion :: nat where "BaseSegwitWitnessVersion \<equiv> 0"
abbreviation TaprootWitnessVersion :: nat where "TaprootWitnessVersion \<equiv> 1"
abbreviation blankCodeSepValue :: uint32 where "blankCodeSepValue \<equiv> 0xffffffff"
abbreviation sigOpsDelta :: int where "sigOpsDelta \<equiv> 50"

abbreviation OpCondFalse :: nat where "OpCondFalse \<equiv> 0"
abbreviation OpCondTrue :: nat where "OpCondTrue \<equiv> 1"
abbreviation OpCondSkip :: nat where "OpCondSkip \<equiv> 2"

record SigCache =
  validSigs :: "(hash \<times> byte list \<times> byte list) list"
  maxEntries :: nat

record taprootExecutionCtx =
  tc_annex :: "byte list option"
  tc_codeSepPos :: uint32
  tc_tapLeafHash :: hash
  tc_sigOpsBudget :: int
  tc_mustSucceed :: bool

record Engine =
  vm_flags :: uint32
  vm_tx :: MsgTx
  vm_txIdx :: nat
  vm_version :: nat
  vm_bip16 :: bool
  vm_sigCache :: "SigCache option"
  vm_hashCache :: "TxSigHashes option"
  vm_prevOutFetcher :: PrevOutputFetcher
  vm_scripts :: "byte list list"
  vm_scriptIdx :: nat
  vm_opcodeIdx :: nat
  vm_lastCodeSep :: nat
  vm_tokenizer :: ScriptTokenizer
  vm_savedFirstStack :: "byte list list"
  vm_dstack :: stack
  vm_astack :: stack
  vm_condStack :: "nat list"
  vm_numOps :: nat
  vm_witnessVersion :: nat
  vm_witnessProgram :: "byte list option"
  vm_inputAmount :: uint64
  vm_taprootCtx :: "taprootExecutionCtx option"

definition hasFlag :: "Engine \<Rightarrow> uint32 \<Rightarrow> bool" where
  "hasFlag vm flag \<longleftrightarrow> vm_flags vm AND flag = flag"

definition isBranchExecuting :: "Engine \<Rightarrow> bool" where
  "isBranchExecuting vm =
     (if length (vm_condStack vm) = 0 then True
      else vm_condStack vm ! (length (vm_condStack vm) - 1) = OpCondTrue)"

definition isWitnessVersionActive :: "Engine \<Rightarrow> nat \<Rightarrow> bool" where
  "isWitnessVersionActive vm ver \<longleftrightarrow> vm_witnessProgram vm \<noteq> None \<and> vm_witnessVersion vm = ver"

definition tallysigOp :: "taprootExecutionCtx \<Rightarrow> taprootExecutionCtx eres" where
  "tallysigOp t =
     (let t = t\<lparr>tc_sigOpsBudget := int32 (tc_sigOpsBudget t - sigOpsDelta)\<rparr> in
      if tc_sigOpsBudget t < 0 then Inl (TaprootError ErrTaprootMaxSigOps) else Inr t)"

definition newTaprootExecutionCtx :: "int \<Rightarrow> taprootExecutionCtx" where
  "newTaprootExecutionCtx inputWitnessSize =
     \<lparr>tc_annex = None, tc_codeSepPos = blankCodeSepValue, tc_tapLeafHash = zeroHash,
      tc_sigOpsBudget = int32 (sigOpsDelta + inputWitnessSize), tc_mustSucceed = False\<rparr>"

definition subScript :: "Engine \<Rightarrow> byte list eres" where
  "subScript vm =
     (if vm_scriptIdx vm \<ge> length (vm_scripts vm) then Inl (Panic ''index out of range'')
      else if vm_lastCodeSep vm > length (vm_scripts vm ! vm_scriptIdx vm) then Inl (Panic ''slice bounds out of range'')
      else Inr (drop (vm_lastCodeSep vm) (vm_scripts vm ! vm_scriptIdx vm)))"

section \<open>The signature cache\<close>

definition Exists :: "SigCache \<Rightarrow> hash \<Rightarrow> byte list \<Rightarrow> byte list \<Rightarrow> bool" where
  "Exists s sigHash sig pubKey =
     (case map_of (validSigs s) sigHash of
        None \<Rightarrow> False
      | Some (entrySig, entryPubKey) \<Rightarrow> entryPubKey = pubKey \<and> entrySig = sig)"

definition Add :: "('pk, 'sig, 'ssig) crypto \<Rightarrow> hash \<Rightarrow> byte list \<Rightarrow> byte list \<Rightarrow> SigCache \<Rightarrow> SigCache" where
  "Add c sigHash sig pubKey s =
     (if maxEntries s \<le> 0 then s
      else
        let entries = (if length (validSigs s) + 1 > maxEntries s
              then AList.delete (evictKey c (validSigs s)) (validSigs s) else validSigs s)
        in s\<lparr>validSigs := AList.update sigHash (sig, pubKey) entries\<rparr>)"

section \<open>Encoding rules\<close>

definition checkHashTypeEncoding :: "Engine \<Rightarrow> SigHashType \<Rightarrow> unit eres" where
  "checkHashTypeEncoding vm hashType =
     (if \<not> hasFlag vm ScriptVerifyStrictEncoding then Inr ()
      else
        let sigHashType = hashType AND NOT SigHashAnyOneCanPay in
        if sigHashType < SigHashAll \<or> sigHashType > SigHashSingle
        then Inl (EncodingError ErrInvalidSigHashType) else Inr ())"

definition checkPubKeyEncoding :: "('pk, 'sig, 'ssig) crypto \<Rightarrow> Engine \<Rightarrow> byte list \<Rightarrow> unit eres" where
  "checkPubKeyEncoding c vm pubKey =
     (if hasFlag vm ScriptVerifyWitnessPubKeyType \<and> isWitnessVersionActive vm BaseSegwitWitnessVersion \<and>
         \<not> IsCompressedPubKey c pubKey
      then Inl (WitnessError ErrWitnessPubKeyType)
      else if \<not> hasFlag vm ScriptVerifyStrictEncoding then Inr ()
      else if length pubKey = 33 \<and> (pubKey ! 0 = 0x02 \<or> pubKey ! 0 = 0x03) then Inr ()
      else if length pubKey = 65 \<and> pubKey ! 0 = 0x04 then Inr ()
      else Inl (EncodingError ErrPubKeyType))"

definition checkSignatureEncoding :: "('pk, 'sig, 'ssig) crypto \<Rightarrow> Engine \<Rightarrow> byte list \<Rightarrow> unit eres" where
  "checkSignatureEncoding c vm sig =
     (if \<not> hasFlag vm ScriptVerifyDERSignatures \<and> \<not> hasFlag vm ScriptVerifyLowS \<and>
         \<not> hasFlag vm ScriptVerifyStrictEncoding then Inr ()
      else
        let sigLen = length sig in
        if sigLen < 8 then Inl (EncodingError ErrSigTooShort)
        else if sigLen > 72 then Inl (EncodingError ErrSigTooLong)
        else if sig ! 0 \<noteq> 0x30 then Inl (EncodingError ErrSigInvalidSeqID)
        else if unat (sig ! 1) \<noteq> sigLen - 2 then Inl (EncodingError ErrSigInvalidDataLen)
        else
          let rLen = unat (sig ! 3); sTypeOffset = 4 + rLen; sLenOffset = sTypeOffset + 1 in
          if sTypeOffset \<ge> sigLen then Inl (EncodingError ErrSigMissingSTypeID)
          else if sLenOffset \<ge> sigLen then Inl (EncodingError ErrSigMissingSLen)
          else
            let sOffset = sLenOffset + 1; sLen = unat (sig ! sLenOffset) in
            if sOffset + sLen \<noteq> sigLen then Inl (EncodingError ErrSigInvalidSLen)
            else if sig ! 2 \<noteq> 0x02 then Inl (EncodingError ErrSigInvalidRIntID)
            else if rLen = 0 then Inl (EncodingError ErrSigZeroRLen)
            else if sig ! 4 AND 0x80 \<noteq> 0 then Inl (EncodingError ErrSigNegativeR)
            else if rLen > 1 \<and> sig ! 4 = 0 \<and> sig ! 5 AND 0x80 = 0 then Inl (EncodingError ErrSigTooMuchRPadding)
            else if sig ! sTypeOffset \<noteq> 0x02 then Inl (EncodingError ErrSigInvalidSIntID)
            else if sLen = 0 then Inl (EncodingError ErrSigZeroSLen)
            else if sig ! sOffset AND 0x80 \<noteq> 0 then Inl (EncodingError ErrSigNegativeS)
            else if sLen > 1 \<and> sig ! sOffset = 0 \<and> sig ! (sOffset + 1) AND 0x80 = 0
            then Inl (EncodingError ErrSigTooMuchSPadding)
            else if hasFlag vm ScriptVerifyLowS \<and>
              le_nat (rev (slice sOffset (sOffset + sLen) sig)) > curveOrder c div 2
            then Inl (EncodingError ErrSigHighS)
            else Inr ())"

section \<open>Verifiers\<close>

text \<open>\<^verbatim>\<open>parsedSig.Verify\<close> through the cache, which keeps what verified.\<close>

definition verifySig ::
    "('pk, 'sig, 'ssig) crypto \<Rightarrow> Engine \<Rightarrow> 'sig \<Rightarrow> 'pk \<Rightarrow> hash \<Rightarrow> byte list \<Rightarrow> byte list \<Rightarrow> bool \<times> Engine" where
  "verifySig c vm sig pubKey sigHash sigBytes pkBytes =
     (case vm_sigCache vm of
        Some cache \<Rightarrow>
          if Exists cache sigHash sigBytes pkBytes then (True, vm)
          else if ecdsaVerify c sig sigHash pubKey
          then (True, vm\<lparr>vm_sigCache := Some (Add c sigHash sigBytes pkBytes cache)\<rparr>)
          else (False, vm)
      | None \<Rightarrow> (ecdsaVerify c sig sigHash pubKey, vm))"

record ('pk, 'sig) baseSigVerifier =
  bv_pubKey :: 'pk
  bv_sig :: 'sig
  bv_fullSigBytes :: "byte list"
  bv_sigBytes :: "byte list"
  bv_pkBytes :: "byte list"
  bv_subScript :: "byte list"
  bv_hashType :: SigHashType

definition parseSigByFlags :: "('pk, 'sig, 'ssig) crypto \<Rightarrow> Engine \<Rightarrow> byte list \<Rightarrow> 'sig option" where
  "parseSigByFlags c vm sigBytes =
     (if hasFlag vm ScriptVerifyStrictEncoding \<or> hasFlag vm ScriptVerifyDERSignatures
      then ParseDERSignature c sigBytes else ParseSignature c sigBytes)"

definition parseBaseSigAndPubkey ::
    "('pk, 'sig, 'ssig) crypto \<Rightarrow> byte list \<Rightarrow> byte list \<Rightarrow> Engine \<Rightarrow> ('pk \<times> 'sig \<times> SigHashType) eres" where
  "parseBaseSigAndPubkey c pkBytes fullSigBytes vm =
     (if fullSigBytes = [] then Inl (Panic ''index out of range'')
      else
        let hashType = ucast (fullSigBytes ! (length fullSigBytes - 1));
            sigBytes = take (length fullSigBytes - 1) fullSigBytes
        in
        rbind (checkHashTypeEncoding vm hashType) (\<lambda>_.
        rbind (checkSignatureEncoding c vm sigBytes) (\<lambda>_.
        rbind (checkPubKeyEncoding c vm pkBytes) (\<lambda>_.
          case ParsePubKey c pkBytes of
            None \<Rightarrow> Inl (OtherError ''ParsePubKey'')
          | Some pubKey \<Rightarrow>
              (case parseSigByFlags c vm sigBytes of
                 None \<Rightarrow> Inl (OtherError ''ParseSignature'')
               | Some signature \<Rightarrow> Inr (pubKey, signature, hashType))))))"

definition newBaseSigVerifier ::
    "('pk, 'sig, 'ssig) crypto \<Rightarrow> byte list \<Rightarrow> byte list \<Rightarrow> Engine \<Rightarrow> ('pk, 'sig) baseSigVerifier eres" where
  "newBaseSigVerifier c pkBytes fullSigBytes vm =
     rbind (parseBaseSigAndPubkey c pkBytes fullSigBytes vm) (\<lambda>(pubKey, sig, hashType).
     rbind (subScript vm) (\<lambda>script.
       Inr \<lparr>bv_pubKey = pubKey, bv_sig = sig, bv_fullSigBytes = fullSigBytes,
            bv_sigBytes = take (length fullSigBytes - 1) fullSigBytes, bv_pkBytes = pkBytes, bv_subScript = script,
            bv_hashType = hashType\<rparr>))"

definition baseVerify :: "('pk, 'sig, 'ssig) crypto \<Rightarrow> ('pk, 'sig) baseSigVerifier \<Rightarrow> Engine \<Rightarrow> (bool \<times> Engine) eres" where
  "baseVerify c b vm =
     rbind (calcSignatureHash (removeOpcodeByData (bv_subScript b) (bv_fullSigBytes b)) (bv_hashType b)
       (vm_tx vm) (vm_txIdx vm)) (\<lambda>sigHash.
       Inr (verifySig c vm (bv_sig b) (bv_pubKey b) sigHash (bv_sigBytes b) (bv_pkBytes b)))"

definition sigHashesOf :: "Engine \<Rightarrow> TxSigHashes eres" where
  "sigHashesOf vm =
     (case vm_hashCache vm of
        Some sigHashes \<Rightarrow> Inr sigHashes
      | None \<Rightarrow> NewTxSigHashes (vm_tx vm) (vm_prevOutFetcher vm))"

definition segwitVerify :: "('pk, 'sig, 'ssig) crypto \<Rightarrow> ('pk, 'sig) baseSigVerifier \<Rightarrow> Engine \<Rightarrow> (bool \<times> Engine) eres" where
  "segwitVerify c s vm =
     rbind (sigHashesOf vm) (\<lambda>sigHashes.
       case calcWitnessSignatureHashRaw (bv_subScript s) sigHashes (bv_hashType s) (vm_tx vm) (vm_txIdx vm)
           (vm_inputAmount vm) of
         Inl _ \<Rightarrow> Inr (False, vm)
       | Inr sigHash \<Rightarrow> Inr (verifySig c vm (bv_sig s) (bv_pubKey s) sigHash (bv_sigBytes s) (bv_pkBytes s)))"

record ('pk, 'ssig) taprootSigVerifier =
  tv_pubKey :: 'pk
  tv_pkBytes :: "byte list"
  tv_fullSigBytes :: "byte list"
  tv_sig :: 'ssig
  tv_hashType :: SigHashType
  tv_annex :: "byte list option"

abbreviation SignatureSize :: nat where "SignatureSize \<equiv> 64"

definition parseTaprootSigAndPubKey ::
    "('pk, 'sig, 'ssig) crypto \<Rightarrow> byte list \<Rightarrow> byte list \<Rightarrow> ('pk \<times> 'ssig \<times> SigHashType) eres" where
  "parseTaprootSigAndPubKey c pkBytes rawSig =
     (case schnorrParsePubKey c pkBytes of
        None \<Rightarrow> Inl (OtherError ''ParsePubKey'')
      | Some pubKey \<Rightarrow>
          if length rawSig = SignatureSize then
            (case schnorrParseSignature c rawSig of
               None \<Rightarrow> Inl (OtherError ''ParseSignature'')
             | Some sig \<Rightarrow> Inr (pubKey, sig, SigHashDefault))
          else if length rawSig = SignatureSize + 1 \<and> rawSig ! 64 \<noteq> 0 then
            (case schnorrParseSignature c (take SignatureSize rawSig) of
               None \<Rightarrow> Inl (OtherError ''ParseSignature'')
             | Some sig \<Rightarrow> Inr (pubKey, sig, ucast (rawSig ! SignatureSize)))
          else Inl (TaprootError ErrInvalidTaprootSigLen))"

definition newTaprootSigVerifier ::
    "('pk, 'sig, 'ssig) crypto \<Rightarrow> byte list \<Rightarrow> byte list \<Rightarrow> byte list option \<Rightarrow> ('pk, 'ssig) taprootSigVerifier eres" where
  "newTaprootSigVerifier c pkBytes fullSigBytes annex =
     rbind (parseTaprootSigAndPubKey c pkBytes fullSigBytes) (\<lambda>(pubKey, sig, sigHashType).
       Inr \<lparr>tv_pubKey = pubKey, tv_pkBytes = pkBytes, tv_fullSigBytes = fullSigBytes, tv_sig = sig,
            tv_hashType = sigHashType, tv_annex = annex\<rparr>)"

definition taprootVerifySig ::
    "('pk, 'sig, 'ssig) crypto \<Rightarrow> ('pk, 'ssig) taprootSigVerifier \<Rightarrow> hash \<Rightarrow> Engine \<Rightarrow> bool \<times> Engine" where
  "taprootVerifySig c t sigHash vm =
     (if (case vm_sigCache vm of None \<Rightarrow> False | Some cache \<Rightarrow> Exists cache sigHash (tv_fullSigBytes t) (tv_pkBytes t))
      then (True, vm)
      else if schnorrVerify c (tv_sig t) sigHash (tv_pubKey t)
      then (True, vm\<lparr>vm_sigCache := map_option (Add c sigHash (tv_fullSigBytes t) (tv_pkBytes t)) (vm_sigCache vm)\<rparr>)
      else (False, vm))"

text \<open>An error from the hash makes the signature invalid; a panic is not an error.\<close>

definition taprootVerifyWith ::
    "('pk, 'sig, 'ssig) crypto \<Rightarrow> ('pk, 'ssig) taprootSigVerifier \<Rightarrow>
      (taprootSigHashOptions \<Rightarrow> taprootSigHashOptions) list \<Rightarrow> Engine \<Rightarrow> (bool \<times> Engine) eres" where
  "taprootVerifyWith c t opts vm =
     (case calcTaprootSignatureHashRaw (vm_hashCache vm) (tv_hashType t) (vm_tx vm) (vm_txIdx vm) (vm_prevOutFetcher vm) opts of
        Inl (Panic p) \<Rightarrow> Inl (Panic p)
      | Inl _ \<Rightarrow> Inr (False, vm)
      | Inr sigHash \<Rightarrow> Inr (taprootVerifySig c t sigHash vm))"

definition annexOption :: "byte list option \<Rightarrow> (taprootSigHashOptions \<Rightarrow> taprootSigHashOptions) list" where
  "annexOption annex = (case annex of None \<Rightarrow> [] | Some a \<Rightarrow> [WithAnnex a])"

definition taprootVerify ::
    "('pk, 'sig, 'ssig) crypto \<Rightarrow> ('pk, 'ssig) taprootSigVerifier \<Rightarrow> Engine \<Rightarrow> (bool \<times> Engine) eres" where
  "taprootVerify c t vm = taprootVerifyWith c t (annexOption (tv_annex t)) vm"

text \<open>A key of unknown size gives a verifier with no key.\<close>

definition newBaseTapscriptSigVerifier ::
    "('pk, 'sig, 'ssig) crypto \<Rightarrow> byte list \<Rightarrow> byte list \<Rightarrow> Engine \<Rightarrow> ('pk, 'ssig) taprootSigVerifier option eres" where
  "newBaseTapscriptSigVerifier c pkBytes rawSig vm =
     (if length pkBytes = 0 then Inl (TaprootError ErrTaprootPubkeyIsEmpty)
      else if length pkBytes = 32 then
        (case vm_taprootCtx vm of
           None \<Rightarrow> Inl (Panic ''taprootCtx'')
         | Some ctx \<Rightarrow> rbind (newTaprootSigVerifier c pkBytes rawSig (tc_annex ctx)) (\<lambda>v. Inr (Some v)))
      else if hasFlag vm ScriptVerifyDiscourageUpgradeablePubkeyType
      then Inl (TaprootError ErrDiscourageUpgradeablePubKeyType)
      else Inr None)"

definition tapscriptVerify ::
    "('pk, 'sig, 'ssig) crypto \<Rightarrow> ('pk, 'ssig) taprootSigVerifier option \<Rightarrow> Engine \<Rightarrow> (bool \<times> Engine) eres" where
  "tapscriptVerify c v vm =
     (case v of
        None \<Rightarrow> Inr (True, vm)
      | Some t \<Rightarrow>
          (case vm_taprootCtx vm of
             None \<Rightarrow> Inl (Panic ''taprootCtx'')
           | Some ctx \<Rightarrow>
               taprootVerifyWith c t
                 (WithBaseTapscriptVersion (tc_codeSepPos ctx) (tc_tapLeafHash ctx) # annexOption (tc_annex ctx)) vm))"

definition VerifyTaprootKeySpend ::
    "('pk, 'sig, 'ssig) crypto \<Rightarrow> byte list \<Rightarrow> byte list \<Rightarrow> Engine \<Rightarrow> Engine eres" where
  "VerifyTaprootKeySpend c prog rawSig vm =
     (let witness = wit_items (ti_Witness (tx_TxIn (vm_tx vm) ! vm_txIdx vm));
          annex = (if isAnnexedWitness witness then (case extractAnnex witness of Inl _ \<Rightarrow> None | Inr a \<Rightarrow> Some a) else None)
      in
      rbind (newTaprootSigVerifier c prog rawSig annex) (\<lambda>keySpendVerifier.
      rbind (taprootVerify c keySpendVerifier vm) (\<lambda>(valid, vm).
        if valid then Inr vm else Inl (TaprootError ErrTaprootSigInvalid))))"

end
