(* ===== verification/Sha1.thy ===== *)
theory Sha1
  imports Sha256
begin

unbundle bit_operations_syntax

text \<open>
  SHA-1 as specified in FIPS 180-4 (Go's \<^verbatim>\<open>crypto/sha1\<close>, of which the script engine uses \<^verbatim>\<open>Sum\<close>).  The
  padding is that of SHA-256.\<close>

definition rotl :: "nat \<Rightarrow> uint32 \<Rightarrow> uint32" where
  "rotl n x = rotr (32 - n) x"

text \<open>The message schedule, latest word first.\<close>

primrec sha1_schedule :: "nat \<Rightarrow> uint32 list \<Rightarrow> uint32 list" where
  "sha1_schedule 0 ws = ws"
| "sha1_schedule (Suc n) ws = sha1_schedule n (rotl 1 (ws ! 2 XOR ws ! 7 XOR ws ! 13 XOR ws ! 15) # ws)"

definition sha1_f :: "nat \<Rightarrow> uint32 \<Rightarrow> uint32 \<Rightarrow> uint32 \<Rightarrow> uint32" where
  "sha1_f t x y z = (if t < 20 then sha_ch x y z else if 40 \<le> t \<and> t < 60 then sha_maj x y z else x XOR y XOR z)"

definition sha1_K :: "nat \<Rightarrow> uint32" where
  "sha1_K t = (if t < 20 then 0x5a827999 else if t < 40 then 0x6ed9eba1 else if t < 60 then 0x8f1bbcdc else 0xca62c1d6)"

fun sha1_round :: "uint32 list \<Rightarrow> nat \<times> uint32 \<Rightarrow> uint32 list" where
  "sha1_round [a, b, c, d, e] (t, w) = [rotl 5 a + sha1_f t b c d + e + sha1_K t + w, a, rotl 30 b, c, d]"
| "sha1_round s _ = s"

definition sha1_block :: "uint32 list \<Rightarrow> byte list \<Rightarrow> uint32 list" where
  "sha1_block st block =
     map2 (+) st (foldl sha1_round st (zip [0..<80] (rev (sha1_schedule 64 (rev (be_words 16 block))))))"

primrec sha1_blocks :: "nat \<Rightarrow> uint32 list \<Rightarrow> byte list \<Rightarrow> uint32 list" where
  "sha1_blocks 0 st bs = st"
| "sha1_blocks (Suc n) st bs = sha1_blocks n (sha1_block st (take 64 bs)) (drop 64 bs)"

definition sha1_H0 :: "uint32 list" where
  "sha1_H0 = [0x67452301, 0xefcdab89, 0x98badcfe, 0x10325476, 0xc3d2e1f0]"

definition Sha1_Sum :: "byte list \<Rightarrow> byte list" where
  "Sha1_Sum msg =
     concat (map (\<lambda>w. rev (le_bytes 4 (unat w)))
       (sha1_blocks (length (sha_pad msg) div 64) sha1_H0 (sha_pad msg)))"

lemma length_sha1_round: "length (sha1_round st tw) = length st"
  by (cases "(st, tw)" rule: sha1_round.cases) simp_all

lemma length_sha1_rounds: "length (foldl sha1_round st tws) = length st"
  by (induction tws arbitrary: st) (simp_all add: length_sha1_round)

lemma length_sha1_block: "length (sha1_block st block) = length st"
  by (simp add: sha1_block_def length_sha1_rounds)

lemma length_sha1_blocks: "length (sha1_blocks n st bs) = length st"
  by (induction n arbitrary: st bs) (simp_all add: length_sha1_block)

lemma length_Sha1_Sum [simp]: "length (Sha1_Sum msg) = 20"
proof -
  have "length (concat (map (\<lambda>w. rev (le_bytes 4 (unat w))) ws)) = 4 * length ws" for ws :: "uint32 list"
    by (induction ws) simp_all
  then show ?thesis by (simp add: Sha1_Sum_def length_sha1_blocks sha1_H0_def)
qed

end
