(* ===== verification/Script_Opcode.thy ===== *)
theory Script_Opcode
  imports Script_Engine Sha1
begin

unbundle bit_operations_syntax

text \<open>
  The opcodes (\<^verbatim>\<open>txscript/opcode.go\<close>): one definition per handler, the table that assigns them, and
  \<^verbatim>\<open>executeOpcode\<close> of \<^verbatim>\<open>txscript/engine.go\<close>.  A handler takes of its arguments those it reads.  Numbers that
  are popped have at most four bytes, so the \<^verbatim>\<open>int64\<close> arithmetic on them does not wrap.\<close>

section \<open>Access to the stacks\<close>

definition onDstack :: "(stack \<Rightarrow> stack eres) \<Rightarrow> Engine \<Rightarrow> Engine eres" where
  "onDstack f vm = rbind (f (vm_dstack vm)) (\<lambda>s. Inr (vm\<lparr>vm_dstack := s\<rparr>))"

definition popDstack :: "(stack \<Rightarrow> ('a \<times> stack) eres) \<Rightarrow> Engine \<Rightarrow> ('a \<times> Engine) eres" where
  "popDstack f vm = rbind (f (vm_dstack vm)) (\<lambda>(x, s). Inr (x, vm\<lparr>vm_dstack := s\<rparr>))"

definition pushD :: "byte list \<Rightarrow> Engine \<Rightarrow> Engine" where
  "pushD so vm = vm\<lparr>vm_dstack := PushByteArray so (vm_dstack vm)\<rparr>"

abbreviation pushInt :: "int \<Rightarrow> Engine \<Rightarrow> Engine eres" where
  "pushInt n \<equiv> onDstack (PushInt n)"

abbreviation pushBool :: "bool \<Rightarrow> Engine \<Rightarrow> Engine" where
  "pushBool b vm \<equiv> vm\<lparr>vm_dstack := PushBool b (vm_dstack vm)\<rparr>"

section \<open>Constants and control\<close>

definition opcodeDisabled :: "Engine \<Rightarrow> Engine eres" where
  "opcodeDisabled vm = Inl ErrDisabledOpcode"

definition opcodeReserved :: "Engine \<Rightarrow> Engine eres" where
  "opcodeReserved vm = Inl ErrReservedOpcode"

definition opcodeInvalid :: "Engine \<Rightarrow> Engine eres" where
  "opcodeInvalid vm = Inl ErrReservedOpcode"

definition opcodeFalse :: "Engine \<Rightarrow> Engine eres" where
  "opcodeFalse vm = Inr (pushD [] vm)"

definition opcodePushData :: "byte list \<Rightarrow> Engine \<Rightarrow> Engine eres" where
  "opcodePushData data vm = Inr (pushD data vm)"

definition opcode1Negate :: "Engine \<Rightarrow> Engine eres" where
  "opcode1Negate vm = pushInt (- 1) vm"

definition opcodeN :: "byte \<Rightarrow> Engine \<Rightarrow> Engine eres" where
  "opcodeN op vm = pushInt (uint (op - (OP_1 - 1))) vm"

definition opcodeNop :: "byte \<Rightarrow> Engine \<Rightarrow> Engine eres" where
  "opcodeNop op vm =
     (if op \<in> {OP_NOP1, OP_NOP4, OP_NOP5, OP_NOP6, OP_NOP7, OP_NOP8, OP_NOP9, OP_NOP10} \<and>
         hasFlag vm ScriptDiscourageUpgradableNops
      then Inl ErrDiscourageUpgradableNOPs else Inr vm)"

definition popIfBool :: "Engine \<Rightarrow> (bool \<times> Engine) eres" where
  "popIfBool vm =
     (if \<not> isWitnessVersionActive vm TaprootWitnessVersion \<and>
         (\<not> isWitnessVersionActive vm BaseSegwitWitnessVersion \<or> \<not> hasFlag vm ScriptVerifyMinimalIf)
      then popDstack PopBool vm
      else
        rbind (popDstack PopByteArray vm) (\<lambda>(so, vm).
          if length so > 1 then Inl (WitnessError ErrMinimalIf)
          else if length so = 1 \<and> so ! 0 \<noteq> 0x01 then Inl (WitnessError ErrMinimalIf)
          else Inr (asBool so, vm)))"

definition pushCond :: "nat \<Rightarrow> Engine \<Rightarrow> Engine" where
  "pushCond condVal vm = vm\<lparr>vm_condStack := vm_condStack vm @ [condVal]\<rparr>"

definition opcodeIf :: "Engine \<Rightarrow> Engine eres" where
  "opcodeIf vm =
     (if isBranchExecuting vm then
        rbind (popIfBool vm) (\<lambda>(ok, vm). Inr (pushCond (if ok then OpCondTrue else OpCondFalse) vm))
      else Inr (pushCond OpCondSkip vm))"

definition opcodeNotIf :: "Engine \<Rightarrow> Engine eres" where
  "opcodeNotIf vm =
     (if isBranchExecuting vm then
        rbind (popIfBool vm) (\<lambda>(ok, vm). Inr (pushCond (if \<not> ok then OpCondTrue else OpCondFalse) vm))
      else Inr (pushCond OpCondSkip vm))"

definition opcodeElse :: "Engine \<Rightarrow> Engine eres" where
  "opcodeElse vm =
     (if length (vm_condStack vm) = 0 then Inl ErrUnbalancedConditional
      else
        let conditionalIdx = length (vm_condStack vm) - 1; cond = vm_condStack vm ! conditionalIdx in
        Inr (if cond = OpCondTrue then vm\<lparr>vm_condStack := (vm_condStack vm)[conditionalIdx := OpCondFalse]\<rparr>
             else if cond = OpCondFalse then vm\<lparr>vm_condStack := (vm_condStack vm)[conditionalIdx := OpCondTrue]\<rparr>
             else vm))"

definition opcodeEndif :: "Engine \<Rightarrow> Engine eres" where
  "opcodeEndif vm =
     (if length (vm_condStack vm) = 0 then Inl ErrUnbalancedConditional
      else Inr (vm\<lparr>vm_condStack := take (length (vm_condStack vm) - 1) (vm_condStack vm)\<rparr>))"

definition abstractVerify :: "engine_error \<Rightarrow> Engine \<Rightarrow> Engine eres" where
  "abstractVerify c vm = rbind (popDstack PopBool vm) (\<lambda>(verified, vm). if \<not> verified then Inl c else Inr vm)"

definition opcodeVerify :: "Engine \<Rightarrow> Engine eres" where
  "opcodeVerify vm = abstractVerify ErrVerify vm"

definition opcodeReturn :: "Engine \<Rightarrow> Engine eres" where
  "opcodeReturn vm = Inl ErrEarlyReturn"

section \<open>Lock times\<close>

abbreviation LockTimeThreshold :: int where "LockTimeThreshold \<equiv> 500000000"
abbreviation MaxTxInSequenceNum :: uint32 where "MaxTxInSequenceNum \<equiv> 0xffffffff"
abbreviation SequenceLockTimeDisabled :: int where "SequenceLockTimeDisabled \<equiv> 0x80000000"
abbreviation SequenceLockTimeIsSeconds :: int where "SequenceLockTimeIsSeconds \<equiv> 0x400000"
abbreviation SequenceLockTimeMask :: int where "SequenceLockTimeMask \<equiv> 0xffff"

definition verifyLockTime :: "int \<Rightarrow> int \<Rightarrow> int \<Rightarrow> unit eres" where
  "verifyLockTime txLockTime threshold lockTime =
     (if \<not> ((txLockTime < threshold \<and> lockTime < threshold) \<or> (txLockTime \<ge> threshold \<and> lockTime \<ge> threshold))
      then Inl ErrUnsatisfiedLockTime
      else if lockTime > txLockTime then Inl ErrUnsatisfiedLockTime
      else Inr ())"

definition opcodeCheckLockTimeVerify :: "Engine \<Rightarrow> Engine eres" where
  "opcodeCheckLockTimeVerify vm =
     (if \<not> hasFlag vm ScriptVerifyCheckLockTimeVerify then
        (if hasFlag vm ScriptDiscourageUpgradableNops then Inl ErrDiscourageUpgradableNOPs else Inr vm)
      else
        rbind (PeekByteArray 0 (vm_dstack vm)) (\<lambda>so.
        rbind (scriptNum so (verifyMinimalData (vm_dstack vm)) 5) (\<lambda>lockTime.
          if lockTime < 0 then Inl ErrNegativeLockTime
          else
            rbind (verifyLockTime (uint (tx_LockTime (vm_tx vm))) LockTimeThreshold lockTime) (\<lambda>_.
              if ti_Sequence (tx_TxIn (vm_tx vm) ! vm_txIdx vm) = MaxTxInSequenceNum
              then Inl ErrUnsatisfiedLockTime else Inr vm))))"

definition opcodeCheckSequenceVerify :: "Engine \<Rightarrow> Engine eres" where
  "opcodeCheckSequenceVerify vm =
     (if \<not> hasFlag vm ScriptVerifyCheckSequenceVerify then
        (if hasFlag vm ScriptDiscourageUpgradableNops then Inl ErrDiscourageUpgradableNOPs else Inr vm)
      else
        rbind (PeekByteArray 0 (vm_dstack vm)) (\<lambda>so.
        rbind (scriptNum so (verifyMinimalData (vm_dstack vm)) 5) (\<lambda>sequence.
          if sequence < 0 then Inl ErrNegativeLockTime
          else if sequence AND SequenceLockTimeDisabled \<noteq> 0 then Inr vm
          else if tx_Version (vm_tx vm) < 2 then Inl ErrUnsatisfiedLockTime
          else
            let txSequence = uint (ti_Sequence (tx_TxIn (vm_tx vm) ! vm_txIdx vm)) in
            if txSequence AND SequenceLockTimeDisabled \<noteq> 0 then Inl ErrUnsatisfiedLockTime
            else
              let lockTimeMask = SequenceLockTimeIsSeconds OR SequenceLockTimeMask in
              rbind (verifyLockTime (txSequence AND lockTimeMask) SequenceLockTimeIsSeconds (sequence AND lockTimeMask))
                (\<lambda>_. Inr vm))))"

section \<open>Stack opcodes\<close>

definition opcodeToAltStack :: "Engine \<Rightarrow> Engine eres" where
  "opcodeToAltStack vm =
     rbind (popDstack PopByteArray vm) (\<lambda>(so, vm). Inr (vm\<lparr>vm_astack := PushByteArray so (vm_astack vm)\<rparr>))"

definition opcodeFromAltStack :: "Engine \<Rightarrow> Engine eres" where
  "opcodeFromAltStack vm =
     rbind (PopByteArray (vm_astack vm)) (\<lambda>(so, s). Inr (pushD so (vm\<lparr>vm_astack := s\<rparr>)))"

text \<open>The handlers that are one call of an operation of the stack.\<close>

abbreviation opcode2Drop :: "Engine \<Rightarrow> Engine eres" where "opcode2Drop \<equiv> onDstack (DropN 2)"
abbreviation opcode2Dup :: "Engine \<Rightarrow> Engine eres" where "opcode2Dup \<equiv> onDstack (DupN 2)"
abbreviation opcode3Dup :: "Engine \<Rightarrow> Engine eres" where "opcode3Dup \<equiv> onDstack (DupN 3)"
abbreviation opcode2Over :: "Engine \<Rightarrow> Engine eres" where "opcode2Over \<equiv> onDstack (OverN 2)"
abbreviation opcode2Rot :: "Engine \<Rightarrow> Engine eres" where "opcode2Rot \<equiv> onDstack (RotN 2)"
abbreviation opcode2Swap :: "Engine \<Rightarrow> Engine eres" where "opcode2Swap \<equiv> onDstack (SwapN 2)"
abbreviation opcodeDrop :: "Engine \<Rightarrow> Engine eres" where "opcodeDrop \<equiv> onDstack (DropN 1)"
abbreviation opcodeDup :: "Engine \<Rightarrow> Engine eres" where "opcodeDup \<equiv> onDstack (DupN 1)"
abbreviation opcodeNip :: "Engine \<Rightarrow> Engine eres" where "opcodeNip \<equiv> onDstack (NipN 1)"
abbreviation opcodeOver :: "Engine \<Rightarrow> Engine eres" where "opcodeOver \<equiv> onDstack (OverN 1)"
abbreviation opcodeRot :: "Engine \<Rightarrow> Engine eres" where "opcodeRot \<equiv> onDstack (RotN 1)"
abbreviation opcodeSwap :: "Engine \<Rightarrow> Engine eres" where "opcodeSwap \<equiv> onDstack (SwapN 1)"
abbreviation opcodeTuck :: "Engine \<Rightarrow> Engine eres" where "opcodeTuck \<equiv> onDstack Tuck"

definition opcodeIfDup :: "Engine \<Rightarrow> Engine eres" where
  "opcodeIfDup vm = rbind (PeekByteArray 0 (vm_dstack vm)) (\<lambda>so. Inr (if asBool so then pushD so vm else vm))"

definition opcodeDepth :: "Engine \<Rightarrow> Engine eres" where
  "opcodeDepth vm = pushInt (Depth (vm_dstack vm)) vm"

definition opcodePick :: "Engine \<Rightarrow> Engine eres" where
  "opcodePick vm = rbind (popDstack PopInt vm) (\<lambda>(val, vm). onDstack (PickN (Int32 val)) vm)"

definition opcodeRoll :: "Engine \<Rightarrow> Engine eres" where
  "opcodeRoll vm = rbind (popDstack PopInt vm) (\<lambda>(val, vm). onDstack (RollN (Int32 val)) vm)"

definition opcodeSize :: "Engine \<Rightarrow> Engine eres" where
  "opcodeSize vm = rbind (PeekByteArray 0 (vm_dstack vm)) (\<lambda>so. pushInt (int (length so)) vm)"

definition opcodeEqual :: "Engine \<Rightarrow> Engine eres" where
  "opcodeEqual vm =
     rbind (popDstack PopByteArray vm) (\<lambda>(a, vm).
     rbind (popDstack PopByteArray vm) (\<lambda>(b, vm). Inr (pushBool (a = b) vm)))"

definition opcodeEqualVerify :: "Engine \<Rightarrow> Engine eres" where
  "opcodeEqualVerify vm = rbind (opcodeEqual vm) (abstractVerify ErrEqualVerify)"

section \<open>Arithmetic\<close>

definition opcode1Add :: "Engine \<Rightarrow> Engine eres" where
  "opcode1Add vm = rbind (popDstack PopInt vm) (\<lambda>(m, vm). pushInt (m + 1) vm)"

definition opcode1Sub :: "Engine \<Rightarrow> Engine eres" where
  "opcode1Sub vm = rbind (popDstack PopInt vm) (\<lambda>(m, vm). pushInt (m - 1) vm)"

definition opcodeNegate :: "Engine \<Rightarrow> Engine eres" where
  "opcodeNegate vm = rbind (popDstack PopInt vm) (\<lambda>(m, vm). pushInt (- m) vm)"

definition opcodeAbs :: "Engine \<Rightarrow> Engine eres" where
  "opcodeAbs vm = rbind (popDstack PopInt vm) (\<lambda>(m, vm). pushInt (if m < 0 then - m else m) vm)"

definition opcodeNot :: "Engine \<Rightarrow> Engine eres" where
  "opcodeNot vm = rbind (popDstack PopInt vm) (\<lambda>(m, vm). if m = 0 then pushInt 1 vm else pushInt 0 vm)"

definition opcode0NotEqual :: "Engine \<Rightarrow> Engine eres" where
  "opcode0NotEqual vm = rbind (popDstack PopInt vm) (\<lambda>(m, vm). pushInt (if m \<noteq> 0 then 1 else m) vm)"

definition opcodeAdd :: "Engine \<Rightarrow> Engine eres" where
  "opcodeAdd vm =
     rbind (popDstack PopInt vm) (\<lambda>(v0, vm). rbind (popDstack PopInt vm) (\<lambda>(v1, vm). pushInt (v0 + v1) vm))"

definition opcodeSub :: "Engine \<Rightarrow> Engine eres" where
  "opcodeSub vm =
     rbind (popDstack PopInt vm) (\<lambda>(v0, vm). rbind (popDstack PopInt vm) (\<lambda>(v1, vm). pushInt (v1 - v0) vm))"

definition opcodeBoolAnd :: "Engine \<Rightarrow> Engine eres" where
  "opcodeBoolAnd vm =
     rbind (popDstack PopInt vm) (\<lambda>(v0, vm).
     rbind (popDstack PopInt vm) (\<lambda>(v1, vm). if v0 \<noteq> 0 \<and> v1 \<noteq> 0 then pushInt 1 vm else pushInt 0 vm))"

definition opcodeBoolOr :: "Engine \<Rightarrow> Engine eres" where
  "opcodeBoolOr vm =
     rbind (popDstack PopInt vm) (\<lambda>(v0, vm).
     rbind (popDstack PopInt vm) (\<lambda>(v1, vm). if v0 \<noteq> 0 \<or> v1 \<noteq> 0 then pushInt 1 vm else pushInt 0 vm))"

definition opcodeNumEqual :: "Engine \<Rightarrow> Engine eres" where
  "opcodeNumEqual vm =
     rbind (popDstack PopInt vm) (\<lambda>(v0, vm).
     rbind (popDstack PopInt vm) (\<lambda>(v1, vm). if v0 = v1 then pushInt 1 vm else pushInt 0 vm))"

definition opcodeNumEqualVerify :: "Engine \<Rightarrow> Engine eres" where
  "opcodeNumEqualVerify vm = rbind (opcodeNumEqual vm) (abstractVerify ErrNumEqualVerify)"

definition opcodeNumNotEqual :: "Engine \<Rightarrow> Engine eres" where
  "opcodeNumNotEqual vm =
     rbind (popDstack PopInt vm) (\<lambda>(v0, vm).
     rbind (popDstack PopInt vm) (\<lambda>(v1, vm). if v0 \<noteq> v1 then pushInt 1 vm else pushInt 0 vm))"

definition opcodeLessThan :: "Engine \<Rightarrow> Engine eres" where
  "opcodeLessThan vm =
     rbind (popDstack PopInt vm) (\<lambda>(v0, vm).
     rbind (popDstack PopInt vm) (\<lambda>(v1, vm). if v1 < v0 then pushInt 1 vm else pushInt 0 vm))"

definition opcodeGreaterThan :: "Engine \<Rightarrow> Engine eres" where
  "opcodeGreaterThan vm =
     rbind (popDstack PopInt vm) (\<lambda>(v0, vm).
     rbind (popDstack PopInt vm) (\<lambda>(v1, vm). if v1 > v0 then pushInt 1 vm else pushInt 0 vm))"

definition opcodeLessThanOrEqual :: "Engine \<Rightarrow> Engine eres" where
  "opcodeLessThanOrEqual vm =
     rbind (popDstack PopInt vm) (\<lambda>(v0, vm).
     rbind (popDstack PopInt vm) (\<lambda>(v1, vm). if v1 \<le> v0 then pushInt 1 vm else pushInt 0 vm))"

definition opcodeGreaterThanOrEqual :: "Engine \<Rightarrow> Engine eres" where
  "opcodeGreaterThanOrEqual vm =
     rbind (popDstack PopInt vm) (\<lambda>(v0, vm).
     rbind (popDstack PopInt vm) (\<lambda>(v1, vm). if v1 \<ge> v0 then pushInt 1 vm else pushInt 0 vm))"

definition opcodeMin :: "Engine \<Rightarrow> Engine eres" where
  "opcodeMin vm =
     rbind (popDstack PopInt vm) (\<lambda>(v0, vm).
     rbind (popDstack PopInt vm) (\<lambda>(v1, vm). if v1 < v0 then pushInt v1 vm else pushInt v0 vm))"

definition opcodeMax :: "Engine \<Rightarrow> Engine eres" where
  "opcodeMax vm =
     rbind (popDstack PopInt vm) (\<lambda>(v0, vm).
     rbind (popDstack PopInt vm) (\<lambda>(v1, vm). if v1 > v0 then pushInt v1 vm else pushInt v0 vm))"

definition opcodeWithin :: "Engine \<Rightarrow> Engine eres" where
  "opcodeWithin vm =
     rbind (popDstack PopInt vm) (\<lambda>(maxVal, vm).
     rbind (popDstack PopInt vm) (\<lambda>(minVal, vm).
     rbind (popDstack PopInt vm) (\<lambda>(x, vm). if x \<ge> minVal \<and> x < maxVal then pushInt 1 vm else pushInt 0 vm)))"

section \<open>Hashes\<close>

definition opcodeRipemd160 :: "('pk, 'sig, 'ssig) crypto \<Rightarrow> Engine \<Rightarrow> Engine eres" where
  "opcodeRipemd160 c vm = rbind (popDstack PopByteArray vm) (\<lambda>(buf, vm). Inr (pushD (ripemd160 c buf) vm))"

definition opcodeSha1 :: "Engine \<Rightarrow> Engine eres" where
  "opcodeSha1 vm = rbind (popDstack PopByteArray vm) (\<lambda>(buf, vm). Inr (pushD (Sha1_Sum buf) vm))"

definition opcodeSha256 :: "Engine \<Rightarrow> Engine eres" where
  "opcodeSha256 vm = rbind (popDstack PopByteArray vm) (\<lambda>(buf, vm). Inr (pushD (Sum256 buf) vm))"

definition opcodeHash160 :: "('pk, 'sig, 'ssig) crypto \<Rightarrow> Engine \<Rightarrow> Engine eres" where
  "opcodeHash160 c vm = rbind (popDstack PopByteArray vm) (\<lambda>(buf, vm). Inr (pushD (ripemd160 c (Sum256 buf)) vm))"

definition opcodeHash256 :: "Engine \<Rightarrow> Engine eres" where
  "opcodeHash256 vm = rbind (popDstack PopByteArray vm) (\<lambda>(buf, vm). Inr (pushD (DoubleHashH buf) vm))"

definition opcodeCodeSeparator :: "Engine \<Rightarrow> Engine eres" where
  "opcodeCodeSeparator vm =
     Inr (vm\<lparr>vm_lastCodeSep := tz_offset (vm_tokenizer vm),
             vm_taprootCtx := map_option (\<lambda>ctx. ctx\<lparr>tc_codeSepPos := word_of_int (tz_opcodePos (vm_tokenizer vm))\<rparr>)
               (vm_taprootCtx vm)\<rparr>)"

section \<open>Signatures\<close>

text \<open>\<^verbatim>\<open>errors.As(err, &scriptErr)\<close>: every error but the plain ones is a \<^verbatim>\<open>txscript.Error\<close>.\<close>

fun isScriptErr :: "engine_error \<Rightarrow> bool" where
  "isScriptErr (OtherError e) = False"
| "isScriptErr (ScriptError (ErrPlain e)) = False"
| "isScriptErr e = True"

definition finishCheckSig :: "byte list \<Rightarrow> bool \<times> Engine \<Rightarrow> Engine eres" where
  "finishCheckSig fullSigBytes = (\<lambda>(valid, vm).
     if \<not> valid \<and> vm_taprootCtx vm \<noteq> None \<and> length fullSigBytes \<noteq> 0 then Inl ErrNullFail
     else if \<not> valid \<and> hasFlag vm ScriptVerifyNullFail \<and> length fullSigBytes > 0 then Inl ErrNullFail
     else Inr (pushBool valid vm))"

definition tapscriptTally :: "taprootExecutionCtx \<Rightarrow> byte list \<Rightarrow> Engine \<Rightarrow> Engine eres" where
  "tapscriptTally ctx sigBytes vm =
     (if length sigBytes \<noteq> 0 then rbind (tallysigOp ctx) (\<lambda>ctx. Inr (vm\<lparr>vm_taprootCtx := Some ctx\<rparr>)) else Inr vm)"

definition opcodeCheckSig :: "('pk, 'sig, 'ssig) crypto \<Rightarrow> Engine \<Rightarrow> Engine eres" where
  "opcodeCheckSig c vm =
     rbind (popDstack PopByteArray vm) (\<lambda>(pkBytes, vm).
     rbind (popDstack PopByteArray vm) (\<lambda>(fullSigBytes, vm).
       if vm_taprootCtx vm = None \<and> length fullSigBytes < 1 then Inr (pushBool False vm)
       else if vm_witnessProgram vm = None then
         (case newBaseSigVerifier c pkBytes fullSigBytes vm of
            Inl err \<Rightarrow> if isScriptErr err then Inl err else Inr (pushBool False vm)
          | Inr v \<Rightarrow> rbind (baseVerify c v vm) (finishCheckSig fullSigBytes))
       else if isWitnessVersionActive vm BaseSegwitWitnessVersion then
         (case newBaseSigVerifier c pkBytes fullSigBytes vm of
            Inl err \<Rightarrow> if isScriptErr err then Inl err else Inr (pushBool False vm)
          | Inr v \<Rightarrow> rbind (segwitVerify c v vm) (finishCheckSig fullSigBytes))
       else
         case vm_taprootCtx vm of
           None \<Rightarrow> Inl (Panic ''nil sigVerifier'')
         | Some ctx \<Rightarrow>
             rbind (tapscriptTally ctx fullSigBytes vm) (\<lambda>vm.
               if length pkBytes = 0 then Inl (TaprootError ErrTaprootPubkeyIsEmpty)
               else if length fullSigBytes = 0 then Inr (pushD [] vm)
               else
                 rbind (newBaseTapscriptSigVerifier c pkBytes fullSigBytes vm) (\<lambda>v.
                 rbind (tapscriptVerify c v vm) (finishCheckSig fullSigBytes)))))"

definition opcodeCheckSigVerify :: "('pk, 'sig, 'ssig) crypto \<Rightarrow> Engine \<Rightarrow> Engine eres" where
  "opcodeCheckSigVerify c vm = rbind (opcodeCheckSig c vm) (abstractVerify ErrCheckSigVerify)"

definition opcodeCheckSigAdd :: "('pk, 'sig, 'ssig) crypto \<Rightarrow> Engine \<Rightarrow> Engine eres" where
  "opcodeCheckSigAdd c vm =
     (case vm_taprootCtx vm of
        None \<Rightarrow> Inl ErrReservedOpcode
      | Some ctx \<Rightarrow>
          rbind (popDstack PopByteArray vm) (\<lambda>(pubKeyBytes, vm).
          rbind (popDstack PopInt vm) (\<lambda>(accumulatorInt, vm).
          rbind (popDstack PopByteArray vm) (\<lambda>(sigBytes, vm).
          rbind (tapscriptTally ctx sigBytes vm) (\<lambda>vm.
            if length pubKeyBytes = 0 then Inl (TaprootError ErrTaprootPubkeyIsEmpty)
            else if length sigBytes = 0 then pushInt accumulatorInt vm
            else
              rbind (newBaseTapscriptSigVerifier c pubKeyBytes sigBytes vm) (\<lambda>v.
              rbind (tapscriptVerify c v vm) (\<lambda>(valid, vm).
                if \<not> valid then Inl ErrNullFail else pushInt (accumulatorInt + 1) vm)))))))"

record 'sig parsedSigInfo =
  ps_signature :: "byte list"
  ps_parsedSignature :: "'sig option"
  ps_parsed :: bool

text \<open>The loops that pop keys and signatures.\<close>

primrec popLoop :: "nat \<Rightarrow> Engine \<Rightarrow> (byte list list \<times> Engine) eres" where
  "popLoop 0 vm = Inr ([], vm)"
| "popLoop (Suc n) vm =
     rbind (popDstack PopByteArray vm) (\<lambda>(x, vm). rbind (popLoop n vm) (\<lambda>(xs, vm). Inr (x # xs, vm)))"

text \<open>The signature of one iteration, parsed on its first use; \<open>None\<close> skips to the next key.\<close>

definition parseSigInfo ::
    "('pk, 'sig, 'ssig) crypto \<Rightarrow> Engine \<Rightarrow> 'sig parsedSigInfo \<Rightarrow> ('sig option \<times> 'sig parsedSigInfo) eres" where
  "parseSigInfo c vm sigInfo =
     (let rawSig = ps_signature sigInfo;
          hashType = ucast (rawSig ! (length rawSig - 1));
          signature = take (length rawSig - 1) rawSig
      in
      if \<not> ps_parsed sigInfo then
        rbind (checkHashTypeEncoding vm hashType) (\<lambda>_.
        rbind (checkSignatureEncoding c vm signature) (\<lambda>_.
          case parseSigByFlags c vm signature of
            None \<Rightarrow> Inr (None, sigInfo\<lparr>ps_parsed := True\<rparr>)
          | Some parsedSig \<Rightarrow> Inr (Some parsedSig, sigInfo\<lparr>ps_parsed := True, ps_parsedSignature := Some parsedSig\<rparr>)))
      else Inr (ps_parsedSignature sigInfo, sigInfo))"

definition multiSigHash :: "byte list \<Rightarrow> SigHashType \<Rightarrow> Engine \<Rightarrow> hash eres" where
  "multiSigHash script hashType vm =
     (if isWitnessVersionActive vm 0 then
        rbind (sigHashesOf vm) (\<lambda>sigHashes.
          calcWitnessSignatureHashRaw script sigHashes hashType (vm_tx vm) (vm_txIdx vm) (vm_inputAmount vm))
      else calcSignatureHash script hashType (vm_tx vm) (vm_txIdx vm))"

text \<open>
  The main loop, by the number of public keys left.  The signatures not yet matched are the list
  \<open>sigs\<close>, whose head is the current one, and the keys not yet tried are \<open>keys\<close>.\<close>

fun multiSigLoop ::
    "('pk, 'sig, 'ssig) crypto \<Rightarrow> byte list \<Rightarrow> byte list list \<Rightarrow> 'sig parsedSigInfo list \<Rightarrow> Engine \<Rightarrow> (bool \<times> Engine) eres" where
  "multiSigLoop c script keys [] vm = Inr (True, vm)"
| "multiSigLoop c script [] (sigInfo # sigs) vm = Inr (False, vm)"
| "multiSigLoop c script (pubKey # keys) (sigInfo # sigs) vm =
     (if length (sigInfo # sigs) > length (pubKey # keys) then Inr (False, vm)
      else if length (ps_signature sigInfo) = 0 then multiSigLoop c script keys (sigInfo # sigs) vm
      else
        rbind (parseSigInfo c vm sigInfo) (\<lambda>(parsedSig, sigInfo).
          case parsedSig of
            None \<Rightarrow> multiSigLoop c script keys (sigInfo # sigs) vm
          | Some parsedSig \<Rightarrow>
              rbind (checkPubKeyEncoding c vm pubKey) (\<lambda>_.
                case ParsePubKey c pubKey of
                  None \<Rightarrow> multiSigLoop c script keys (sigInfo # sigs) vm
                | Some parsedPubKey \<Rightarrow>
                    let rawSig = ps_signature sigInfo;
                        hashType = ucast (rawSig ! (length rawSig - 1));
                        signature = take (length rawSig - 1) rawSig
                    in
                    rbind (multiSigHash script hashType vm) (\<lambda>sigHash.
                      case verifySig c vm parsedSig parsedPubKey sigHash signature pubKey of
                        (valid, vm) \<Rightarrow>
                          if valid then multiSigLoop c script keys sigs vm
                          else multiSigLoop c script keys (sigInfo # sigs) vm))))"

definition opcodeCheckMultiSig :: "('pk, 'sig, 'ssig) crypto \<Rightarrow> Engine \<Rightarrow> Engine eres" where
  "opcodeCheckMultiSig c vm =
     (if vm_taprootCtx vm \<noteq> None then Inl (TaprootError ErrTapscriptCheckMultisig)
      else
        rbind (popDstack PopInt vm) (\<lambda>(numKeys, vm).
          let numPubKeys = Int32 numKeys in
          if numPubKeys < 0 then Inl ErrInvalidPubKeyCount
          else if numPubKeys > int MaxPubKeysPerMultiSig then Inl ErrInvalidPubKeyCount
          else
            let vm = vm\<lparr>vm_numOps := vm_numOps vm + nat numPubKeys\<rparr> in
            if vm_numOps vm > MaxOpsPerScript then Inl ErrTooManyOperations
            else
              rbind (popLoop (nat numPubKeys) vm) (\<lambda>(pubKeys, vm).
              rbind (popDstack PopInt vm) (\<lambda>(numSigs, vm).
                let numSignatures = Int32 numSigs in
                if numSignatures < 0 then Inl ErrInvalidSignatureCount
                else if numSignatures > numPubKeys then Inl ErrInvalidSignatureCount
                else
                  rbind (popLoop (nat numSignatures) vm) (\<lambda>(signatures, vm).
                  rbind (popDstack PopByteArray vm) (\<lambda>(dummy, vm).
                    if hasFlag vm ScriptStrictMultiSig \<and> length dummy \<noteq> 0 then Inl ErrSigNullDummy
                    else
                      rbind (subScript vm) (\<lambda>script.
                        let script = (if \<not> isWitnessVersionActive vm 0
                              then fold (\<lambda>sig script. removeOpcodeByData script sig) signatures script else script)
                        in
                        rbind (multiSigLoop c script pubKeys
                            (map (\<lambda>sig. \<lparr>ps_signature = sig, ps_parsedSignature = None, ps_parsed = False\<rparr>) signatures) vm)
                          (\<lambda>(success, vm).
                            if \<not> success \<and> hasFlag vm ScriptVerifyNullFail \<and> (\<exists>sig \<in> set signatures. length sig > 0)
                            then Inl ErrNullFail
                            else Inr (pushBool success vm)))))))))"

definition opcodeCheckMultiSigVerify :: "('pk, 'sig, 'ssig) crypto \<Rightarrow> Engine \<Rightarrow> Engine eres" where
  "opcodeCheckMultiSigVerify c vm = rbind (opcodeCheckMultiSig c vm) (abstractVerify ErrCheckMultiSigVerify)"

section \<open>The table and its use\<close>

definition opcodeArray :: "('pk, 'sig, 'ssig) crypto \<Rightarrow> (byte \<times> (Engine \<Rightarrow> Engine eres)) list" where
  "opcodeArray c =
    [(OP_1NEGATE, opcode1Negate), (OP_RESERVED, opcodeReserved),
     (OP_NOP, opcodeNop OP_NOP), (OP_VER, opcodeReserved), (OP_IF, opcodeIf), (OP_NOTIF, opcodeNotIf),
     (OP_VERIF, opcodeReserved), (OP_VERNOTIF, opcodeReserved), (OP_ELSE, opcodeElse), (OP_ENDIF, opcodeEndif),
     (OP_VERIFY, opcodeVerify), (OP_RETURN, opcodeReturn),
     (OP_CHECKLOCKTIMEVERIFY, opcodeCheckLockTimeVerify), (OP_CHECKSEQUENCEVERIFY, opcodeCheckSequenceVerify),
     (OP_TOALTSTACK, opcodeToAltStack), (OP_FROMALTSTACK, opcodeFromAltStack), (OP_2DROP, opcode2Drop),
     (OP_2DUP, opcode2Dup), (OP_3DUP, opcode3Dup), (OP_2OVER, opcode2Over), (OP_2ROT, opcode2Rot),
     (OP_2SWAP, opcode2Swap), (OP_IFDUP, opcodeIfDup), (OP_DEPTH, opcodeDepth), (OP_DROP, opcodeDrop),
     (OP_DUP, opcodeDup), (OP_NIP, opcodeNip), (OP_OVER, opcodeOver), (OP_PICK, opcodePick), (OP_ROLL, opcodeRoll),
     (OP_ROT, opcodeRot), (OP_SWAP, opcodeSwap), (OP_TUCK, opcodeTuck),
     (OP_CAT, opcodeDisabled), (OP_SUBSTR, opcodeDisabled), (OP_LEFT, opcodeDisabled), (OP_RIGHT, opcodeDisabled),
     (OP_SIZE, opcodeSize),
     (OP_INVERT, opcodeDisabled), (OP_AND, opcodeDisabled), (OP_OR, opcodeDisabled), (OP_XOR, opcodeDisabled),
     (OP_EQUAL, opcodeEqual), (OP_EQUALVERIFY, opcodeEqualVerify), (OP_RESERVED1, opcodeReserved),
     (OP_RESERVED2, opcodeReserved),
     (OP_1ADD, opcode1Add), (OP_1SUB, opcode1Sub), (OP_2MUL, opcodeDisabled), (OP_2DIV, opcodeDisabled),
     (OP_NEGATE, opcodeNegate), (OP_ABS, opcodeAbs), (OP_NOT, opcodeNot), (OP_0NOTEQUAL, opcode0NotEqual),
     (OP_ADD, opcodeAdd), (OP_SUB, opcodeSub), (OP_MUL, opcodeDisabled), (OP_DIV, opcodeDisabled),
     (OP_MOD, opcodeDisabled), (OP_LSHIFT, opcodeDisabled), (OP_RSHIFT, opcodeDisabled),
     (OP_BOOLAND, opcodeBoolAnd), (OP_BOOLOR, opcodeBoolOr), (OP_NUMEQUAL, opcodeNumEqual),
     (OP_NUMEQUALVERIFY, opcodeNumEqualVerify), (OP_NUMNOTEQUAL, opcodeNumNotEqual), (OP_LESSTHAN, opcodeLessThan),
     (OP_GREATERTHAN, opcodeGreaterThan), (OP_LESSTHANOREQUAL, opcodeLessThanOrEqual),
     (OP_GREATERTHANOREQUAL, opcodeGreaterThanOrEqual), (OP_MIN, opcodeMin), (OP_MAX, opcodeMax),
     (OP_WITHIN, opcodeWithin),
     (OP_RIPEMD160, opcodeRipemd160 c), (OP_SHA1, opcodeSha1), (OP_SHA256, opcodeSha256), (OP_HASH160, opcodeHash160 c),
     (OP_HASH256, opcodeHash256), (OP_CODESEPARATOR, opcodeCodeSeparator), (OP_CHECKSIG, opcodeCheckSig c),
     (OP_CHECKSIGVERIFY, opcodeCheckSigVerify c), (OP_CHECKMULTISIG, opcodeCheckMultiSig c),
     (OP_CHECKMULTISIGVERIFY, opcodeCheckMultiSigVerify c), (OP_CHECKSIGADD, opcodeCheckSigAdd c),
     (OP_NOP1, opcodeNop OP_NOP1), (OP_NOP4, opcodeNop OP_NOP4), (OP_NOP5, opcodeNop OP_NOP5), (OP_NOP6, opcodeNop OP_NOP6),
     (OP_NOP7, opcodeNop OP_NOP7), (OP_NOP8, opcodeNop OP_NOP8), (OP_NOP9, opcodeNop OP_NOP9), (OP_NOP10, opcodeNop OP_NOP10)]"

text \<open>The handler of an opcode: the pushes, the small integers, the table above, and the undefined opcodes.\<close>

definition opfunc :: "('pk, 'sig, 'ssig) crypto \<Rightarrow> byte \<Rightarrow> byte list \<Rightarrow> Engine \<Rightarrow> Engine eres" where
  "opfunc c op data =
     (if op = OP_0 then opcodeFalse
      else if op \<le> OP_PUSHDATA4 then opcodePushData data
      else if OP_1 \<le> op \<and> op \<le> OP_16 then opcodeN op
      else case map_of (opcodeArray c) op of Some handler \<Rightarrow> handler | None \<Rightarrow> opcodeInvalid)"

definition isOpcodeDisabled :: "byte \<Rightarrow> bool" where
  "isOpcodeDisabled op \<longleftrightarrow>
     op \<in> {OP_CAT, OP_SUBSTR, OP_LEFT, OP_RIGHT, OP_INVERT, OP_AND, OP_OR, OP_XOR, OP_2MUL, OP_2DIV, OP_MUL, OP_DIV,
           OP_MOD, OP_LSHIFT, OP_RSHIFT}"

definition isOpcodeAlwaysIllegal :: "byte \<Rightarrow> bool" where
  "isOpcodeAlwaysIllegal op \<longleftrightarrow> op \<in> {OP_VERIF, OP_VERNOTIF}"

definition isOpcodeConditional :: "byte \<Rightarrow> bool" where
  "isOpcodeConditional op \<longleftrightarrow> op \<in> {OP_IF, OP_NOTIF, OP_ELSE, OP_ENDIF}"

definition checkMinimalDataPush :: "byte \<Rightarrow> byte list \<Rightarrow> unit eres" where
  "checkMinimalDataPush op data =
     (let dataLen = length data; minimalErr = Inl (NumError ErrMinimalData) in
      if dataLen = 0 \<and> op \<noteq> OP_0 then minimalErr
      else if dataLen = 1 \<and> data ! 0 \<ge> 1 \<and> data ! 0 \<le> 16 then (if op \<noteq> OP_1 + data ! 0 - 1 then minimalErr else Inr ())
      else if dataLen = 1 \<and> data ! 0 = 0x81 then (if op \<noteq> OP_1NEGATE then minimalErr else Inr ())
      else if dataLen \<le> 75 then (if unat op \<noteq> dataLen then minimalErr else Inr ())
      else if dataLen \<le> 255 then (if op \<noteq> OP_PUSHDATA1 then minimalErr else Inr ())
      else if dataLen \<le> 65535 then (if op \<noteq> OP_PUSHDATA2 then minimalErr else Inr ())
      else Inr ())"

definition executeOpcode :: "('pk, 'sig, 'ssig) crypto \<Rightarrow> byte \<Rightarrow> byte list \<Rightarrow> Engine \<Rightarrow> Engine eres" where
  "executeOpcode c op data vm =
     (if isOpcodeDisabled op then Inl ErrDisabledOpcode
      else if isOpcodeAlwaysIllegal op then Inl ErrReservedOpcode
      else
        rbind
          (if vm_taprootCtx vm = None \<and> op > OP_16 then
             let vm = vm\<lparr>vm_numOps := vm_numOps vm + 1\<rparr> in
             if vm_numOps vm > MaxOpsPerScript then Inl ErrTooManyOperations else Inr vm
           else if length data > MaxScriptElementSize then Inl ErrElementTooBig
           else Inr vm) (\<lambda>vm.
        if \<not> isBranchExecuting vm \<and> \<not> isOpcodeConditional op then Inr vm
        else
          rbind (if verifyMinimalData (vm_dstack vm) \<and> isBranchExecuting vm \<and> op \<le> OP_PUSHDATA4
                 then checkMinimalDataPush op data else Inr ()) (\<lambda>_. opfunc c op data vm)))"

end
