(* ===== verification/Script_Exec.thy ===== *)
theory Script_Exec
  imports Script_Opcode
begin

unbundle bit_operations_syntax

text \<open>
  The execution of scripts (\<^verbatim>\<open>txscript/engine.go\<close>): creation of an engine, one step, witness programs, and
  the run of all scripts.  The loop of \<^verbatim>\<open>Execute\<close> is \<open>None\<close> where it would not end.\<close>

section \<open>Witness programs\<close>

definition successOpcodes :: "byte list" where
  "successOpcodes =
     [OP_RESERVED, OP_VER, OP_CAT, OP_SUBSTR, OP_LEFT, OP_RIGHT, OP_INVERT, OP_AND, OP_OR, OP_XOR, OP_RESERVED1,
      OP_RESERVED2, OP_2MUL, OP_2DIV, OP_MUL, OP_DIV, OP_MOD, OP_LSHIFT, OP_RSHIFT] @ map word_of_nat [187..<255]"

definition ScriptHasOpSuccess :: "byte list \<Rightarrow> bool" where
  "ScriptHasOpSuccess witnessScript =
     fst (tokenLoop (\<lambda>_ t. if the (tz_op t) \<in> set successOpcodes then (True, True) else (False, False)) False
       (MakeScriptTokenizer 0 witnessScript))"

definition GetStack :: "Engine \<Rightarrow> byte list list" where
  "GetStack vm = getStack (vm_dstack vm)"

definition SetStack :: "byte list list \<Rightarrow> Engine \<Rightarrow> Engine" where
  "SetStack data vm = vm\<lparr>vm_dstack := setStack data (vm_dstack vm)\<rparr>"

text \<open>A script is checked and appended, and the stack set for it.\<close>

definition pushScript :: "byte list \<Rightarrow> byte list list \<Rightarrow> Engine \<Rightarrow> Engine eres" where
  "pushScript script data vm =
     (case checkScriptParses (vm_version vm) script of
        Some err \<Rightarrow> Inl (ScriptError err)
      | None \<Rightarrow> Inr (SetStack data (vm\<lparr>vm_scripts := vm_scripts vm @ [script]\<rparr>)))"

definition verifyWitnessV0 :: "byte list \<Rightarrow> byte list list \<Rightarrow> Engine \<Rightarrow> Engine eres" where
  "verifyWitnessV0 witnessProgram witness vm =
     (if length witnessProgram = 20 then
        (if length witness \<noteq> 2 then Inl (WitnessError ErrWitnessProgramMismatch)
         else
           case payToPubKeyHashScript witnessProgram of
             Inl err \<Rightarrow> Inl (ScriptError err)
           | Inr pkScript \<Rightarrow> pushScript pkScript witness vm)
      else if length witnessProgram = 32 then
        (if length witness = 0 then Inl (WitnessError ErrWitnessProgramEmpty)
         else
           let witnessScript = witness ! (length witness - 1) in
           if length witnessScript > MaxScriptSize then Inl ErrScriptTooBig
           else if Sum256 witnessScript \<noteq> witnessProgram then Inl (WitnessError ErrWitnessProgramMismatch)
           else pushScript witnessScript (take (length witness - 1) witness) vm)
      else Inl (WitnessError ErrWitnessProgramWrongLength))"

abbreviation mustSucceed :: "Engine \<Rightarrow> Engine" where
  "mustSucceed vm \<equiv> vm\<lparr>vm_taprootCtx := map_option (\<lambda>ctx. ctx\<lparr>tc_mustSucceed := True\<rparr>) (vm_taprootCtx vm)\<rparr>"

text \<open>The spend of a leaf of the script tree; the flag tells whether the function returns there.\<close>

definition verifyTapscript ::
    "('pk, 'sig, 'ssig) crypto \<Rightarrow> byte list \<Rightarrow> byte list list \<Rightarrow> Engine \<Rightarrow> (bool \<times> Engine) eres" where
  "verifyTapscript c witnessProgram witness vm =
     rbind (ParseControlBlock c (witness ! (length witness - 1))) (\<lambda>controlBlock.
       let witnessScript = witness ! (length witness - 2) in
       rbind (VerifyTaprootLeafCommitment c controlBlock witnessProgram witnessScript) (\<lambda>_.
         if ScriptHasOpSuccess witnessScript then
           (if hasFlag vm ScriptVerifyDiscourageOpSuccess then Inl (TaprootError ErrDiscourageOpSuccess)
            else Inr (True, mustSucceed vm))
         else if LeafVersion controlBlock \<noteq> BaseLeafVersion then
           (if hasFlag vm ScriptVerifyDiscourageUpgradeableTaprootVersion
            then Inl (TaprootError ErrDiscourageUpgradeableTaprootVersion)
            else Inr (True, mustSucceed vm))
         else
           rbind (pushScript witnessScript (take (length witness - 2) witness)
               (vm\<lparr>vm_taprootCtx := map_option (\<lambda>ctx. ctx\<lparr>tc_tapLeafHash :=
                  TapHash c \<lparr>tl_LeafVersion = BaseLeafVersion, tl_Script = witnessScript\<rparr>\<rparr>) (vm_taprootCtx vm)\<rparr>))
             (\<lambda>vm. Inr (False, vm))))"

definition verifyTaproot ::
    "('pk, 'sig, 'ssig) crypto \<Rightarrow> byte list \<Rightarrow> byte list list \<Rightarrow> Engine \<Rightarrow> (bool \<times> Engine) eres" where
  "verifyTaproot c witnessProgram witness vm =
     (if \<not> hasFlag vm ScriptVerifyTaproot then Inr (True, vm)
      else if length witness = 0 then Inl (WitnessError ErrWitnessProgramEmpty)
      else
        let annexed = isAnnexedWitness witness;
            ctx = (newTaprootExecutionCtx (int32 (int (TxWitness_SerializeSize (Some witness)))))
              \<lparr>tc_annex := (if annexed then (case extractAnnex witness of Inl _ \<Rightarrow> None | Inr a \<Rightarrow> Some a) else None)\<rparr>;
            witness = (if annexed then take (length witness - 1) witness else witness);
            vm = vm\<lparr>vm_taprootCtx := Some ctx\<rparr>
        in
        if length witness = 1
        then rbind (VerifyTaprootKeySpend c witnessProgram (witness ! 0) vm) (\<lambda>vm. Inr (True, mustSucceed vm))
        else verifyTapscript c witnessProgram witness vm)"

definition checkWitnessStack :: "Engine \<Rightarrow> Engine eres" where
  "checkWitnessStack vm =
     (if isWitnessVersionActive vm TaprootWitnessVersion \<and> Depth (vm_dstack vm) > MaxStackSize then Inl ErrStackOverflow
      else if (isWitnessVersionActive vm TaprootWitnessVersion \<or> isWitnessVersionActive vm BaseSegwitWitnessVersion) \<and>
        (\<exists>witElement \<in> set (GetStack vm). length witElement > MaxScriptElementSize) then Inl ErrElementTooBig
      else Inr vm)"

definition verifyWitnessProgram ::
    "('pk, 'sig, 'ssig) crypto \<Rightarrow> byte list list \<Rightarrow> Engine \<Rightarrow> Engine eres" where
  "verifyWitnessProgram c witness vm =
     (let witnessProgram = (case vm_witnessProgram vm of None \<Rightarrow> [] | Some p \<Rightarrow> p) in
      if isWitnessVersionActive vm BaseSegwitWitnessVersion
      then rbind (verifyWitnessV0 witnessProgram witness vm) checkWitnessStack
      else if isWitnessVersionActive vm TaprootWitnessVersion \<and> length witnessProgram = 32 \<and> \<not> vm_bip16 vm
      then rbind (verifyTaproot c witnessProgram witness vm) (\<lambda>(returned, vm).
             if returned then Inr vm else checkWitnessStack vm)
      else if hasFlag vm ScriptVerifyDiscourageUpgradeableWitnessProgram
      then Inl (WitnessError ErrDiscourageUpgradableWitnessProgram)
      else checkWitnessStack (vm\<lparr>vm_witnessProgram := None\<rparr>))"

section \<open>Steps\<close>

definition checkValidPC :: "Engine \<Rightarrow> unit eres" where
  "checkValidPC vm = (if vm_scriptIdx vm \<ge> length (vm_scripts vm) then Inl ErrInvalidProgramCounter else Inr ())"

definition CheckErrorCondition :: "bool \<Rightarrow> Engine \<Rightarrow> Engine eres" where
  "CheckErrorCondition finalScript vm =
     (if (case vm_taprootCtx vm of None \<Rightarrow> False | Some ctx \<Rightarrow> tc_mustSucceed ctx) then Inr vm
      else if vm_scriptIdx vm < length (vm_scripts vm) then Inl ErrScriptUnfinished
      else if finalScript \<and> isWitnessVersionActive vm BaseSegwitWitnessVersion \<and> Depth (vm_dstack vm) \<noteq> 1
      then Inl ErrEvalFalse
      else
        let cleanStackActive = (hasFlag vm ScriptVerifyCleanStack \<or> vm_taprootCtx vm \<noteq> None) in
        if finalScript \<and> cleanStackActive \<and> Depth (vm_dstack vm) \<noteq> 1 then Inl ErrCleanStack
        else if Depth (vm_dstack vm) < 1 then Inl ErrEmptyStack
        else rbind (popDstack PopBool vm) (\<lambda>(v, vm). if \<not> v then Inl ErrEvalFalse else Inr vm))"

text \<open>The advance to the next script when one has ended.\<close>

definition advanceScript :: "('pk, 'sig, 'ssig) crypto \<Rightarrow> Engine \<Rightarrow> Engine eres" where
  "advanceScript c vm =
     (if vm_scriptIdx vm = 0 \<and> vm_bip16 vm then
        Inr (vm\<lparr>vm_scriptIdx := vm_scriptIdx vm + 1, vm_savedFirstStack := GetStack vm\<rparr>)
      else if vm_scriptIdx vm = 1 \<and> vm_bip16 vm then
        rbind (CheckErrorCondition False (vm\<lparr>vm_scriptIdx := vm_scriptIdx vm + 1\<rparr>)) (\<lambda>vm.
          let saved = vm_savedFirstStack vm in
          if saved = [] then Inl (Panic ''index out of range'')
          else pushScript (saved ! (length saved - 1)) (take (length saved - 1) saved) vm)
      else if (vm_scriptIdx vm = 1 \<and> vm_witnessProgram vm \<noteq> None) \<or>
        (vm_scriptIdx vm = 2 \<and> vm_witnessProgram vm \<noteq> None \<and> vm_bip16 vm) then
        verifyWitnessProgram c (wit_items (ti_Witness (tx_TxIn (vm_tx vm) ! vm_txIdx vm)))
          (vm\<lparr>vm_scriptIdx := vm_scriptIdx vm + 1\<rparr>)
      else Inr (vm\<lparr>vm_scriptIdx := vm_scriptIdx vm + 1\<rparr>))"

definition finishScript :: "('pk, 'sig, 'ssig) crypto \<Rightarrow> Engine \<Rightarrow> (bool \<times> Engine) eres" where
  "finishScript c vm =
     (if length (vm_condStack vm) \<noteq> 0 then Inl ErrUnbalancedConditional
      else
        rbind (advanceScript c (vm\<lparr>vm_astack := dropAll (vm_astack vm), vm_numOps := 0, vm_opcodeIdx := 0\<rparr>)) (\<lambda>vm.
          let skip = (vm_scriptIdx vm < length (vm_scripts vm) \<and> length (vm_scripts vm ! vm_scriptIdx vm) = 0);
              vm = vm\<lparr>vm_scriptIdx := (if skip then vm_scriptIdx vm + 1 else vm_scriptIdx vm), vm_lastCodeSep := 0\<rparr>
          in
          if vm_scriptIdx vm \<ge> length (vm_scripts vm) then Inr (True, vm)
          else Inr (False, vm\<lparr>vm_tokenizer := MakeScriptTokenizer (vm_version vm) (vm_scripts vm ! vm_scriptIdx vm)\<rparr>)))"

definition Step :: "('pk, 'sig, 'ssig) crypto \<Rightarrow> Engine \<Rightarrow> (bool \<times> Engine) eres" where
  "Step c vm =
     rbind (checkValidPC vm) (\<lambda>_.
       case Next (vm_tokenizer vm) of
         (ok, t) \<Rightarrow>
           if \<not> ok then
             (case tz_err t of Some err \<Rightarrow> Inl (ScriptError err) | None \<Rightarrow> Inl ErrInvalidProgramCounter)
           else
             rbind (executeOpcode c (the (tz_op t)) (case tz_data t of None \<Rightarrow> [] | Some d \<Rightarrow> d)
                 (vm\<lparr>vm_tokenizer := t\<rparr>)) (\<lambda>vm.
               if Depth (vm_dstack vm) + Depth (vm_astack vm) > MaxStackSize then Inl ErrStackOverflow
               else
                 let vm = vm\<lparr>vm_opcodeIdx := vm_opcodeIdx vm + 1\<rparr> in
                 if Done (vm_tokenizer vm) then finishScript c vm else Inr (False, vm)))"

partial_function (option) executeLoop :: "('pk, 'sig, 'ssig) crypto \<Rightarrow> Engine \<Rightarrow> Engine eres option" where
  "executeLoop c vm =
     (case Step c vm of
        Inl err \<Rightarrow> Some (Inl err)
      | Inr (done, vm') \<Rightarrow> if done then Some (Inr vm') else executeLoop c vm')"

definition Execute :: "('pk, 'sig, 'ssig) crypto \<Rightarrow> Engine \<Rightarrow> unit eres option" where
  "Execute c vm =
     (if vm_version vm \<noteq> 0 then Some (Inr ())
      else map_option (\<lambda>r. rbind r (\<lambda>vm. rbind (CheckErrorCondition True vm) (\<lambda>_. Inr ()))) (executeLoop c vm))"

section \<open>Creation\<close>

definition emptyEngine :: "uint32 \<Rightarrow> SigCache option \<Rightarrow> TxSigHashes option \<Rightarrow> uint64 \<Rightarrow> PrevOutputFetcher \<Rightarrow> MsgTx \<Rightarrow> nat \<Rightarrow> Engine" where
  "emptyEngine flags sigCache hashCache inputAmount prevOutFetcher tx txIdx =
     \<lparr>vm_flags = flags, vm_tx = tx, vm_txIdx = txIdx, vm_version = 0, vm_bip16 = False, vm_sigCache = sigCache,
      vm_hashCache = hashCache, vm_prevOutFetcher = prevOutFetcher, vm_scripts = [], vm_scriptIdx = 0, vm_opcodeIdx = 0,
      vm_lastCodeSep = 0, vm_tokenizer = MakeScriptTokenizer 0 [], vm_savedFirstStack = [],
      vm_dstack = \<lparr>stk = [], verifyMinimalData = False\<rparr>, vm_astack = \<lparr>stk = [], verifyMinimalData = False\<rparr>,
      vm_condStack = [], vm_numOps = 0, vm_witnessVersion = 0, vm_witnessProgram = None, vm_inputAmount = inputAmount,
      vm_taprootCtx = None\<rparr>"

definition ExtractWitnessProgramInfo :: "byte list \<Rightarrow> (nat \<times> byte list) eres" where
  "ExtractWitnessProgramInfo script =
     (case extractWitnessProgramInfo script of None \<Rightarrow> Inl (OtherError ''not a witness program'') | Some p \<Rightarrow> Inr p)"

text \<open>The witness program of the scripts, with the rules on what may accompany it.\<close>

definition findWitnessProgram :: "byte list \<Rightarrow> byte list \<Rightarrow> byte list list \<Rightarrow> bool \<Rightarrow> byte list option eres" where
  "findWitnessProgram scriptSig scriptPubKey witness bip16 =
     (if isWitnessProgramScript scriptPubKey then
        (if length scriptSig \<noteq> 0 then Inl (WitnessError ErrWitnessMalleated) else Inr (Some scriptPubKey))
      else if length witness \<noteq> 0 \<and> bip16 then
        (if length scriptSig > 2 \<and> isCanonicalPush (scriptSig ! 0) (Some (drop 1 scriptSig)) \<and>
            isWitnessProgramScript (drop 1 scriptSig)
         then Inr (Some (drop 1 scriptSig)) else Inl (WitnessError ErrWitnessMalleatedP2SH))
      else Inr None)"

definition setWitnessProgram :: "byte list \<Rightarrow> byte list \<Rightarrow> byte list list \<Rightarrow> Engine \<Rightarrow> Engine eres" where
  "setWitnessProgram scriptSig scriptPubKey witness vm =
     (if \<not> hasFlag vm ScriptBip16 then Inl ErrInvalidFlags
      else
        rbind (findWitnessProgram scriptSig scriptPubKey witness (vm_bip16 vm)) (\<lambda>witProgram.
          case witProgram of
            Some prog \<Rightarrow>
              rbind (ExtractWitnessProgramInfo prog) (\<lambda>(ver, program).
                Inr (vm\<lparr>vm_witnessVersion := ver, vm_witnessProgram := Some program\<rparr>))
          | None \<Rightarrow>
              if vm_witnessProgram vm = None \<and> length witness \<noteq> 0 then Inl (WitnessError ErrWitnessUnexpected)
              else Inr vm))"

text \<open>The checks of the two scripts, in their order.\<close>

fun checkScripts :: "byte list list \<Rightarrow> unit eres" where
  "checkScripts [] = Inr ()"
| "checkScripts (scr # scripts) =
     (if length scr > MaxScriptSize then Inl ErrScriptTooBig
      else case checkScriptParses 0 scr of Some err \<Rightarrow> Inl (ScriptError err) | None \<Rightarrow> checkScripts scripts)"

definition NewEngine ::
    "byte list \<Rightarrow> MsgTx \<Rightarrow> int \<Rightarrow> uint32 \<Rightarrow> SigCache option \<Rightarrow> TxSigHashes option \<Rightarrow> uint64 \<Rightarrow> PrevOutputFetcher \<Rightarrow> Engine eres" where
  "NewEngine scriptPubKey tx txIdx flags sigCache hashCache inputAmount prevOutFetcher =
     (if txIdx < 0 \<or> txIdx \<ge> int (length (tx_TxIn tx)) then Inl ErrInvalidIndex
      else
        let txIn = tx_TxIn tx ! nat txIdx;
            scriptSig = ti_SignatureScript txIn;
            witness = wit_items (ti_Witness txIn);
            vm = emptyEngine flags sigCache hashCache inputAmount prevOutFetcher tx (nat txIdx)
        in
        if length scriptSig = 0 \<and> length scriptPubKey = 0 then Inl ErrEvalFalse
        else if hasFlag vm ScriptVerifyCleanStack \<and> (\<not> hasFlag vm ScriptBip16 \<and> \<not> hasFlag vm ScriptVerifyWitness)
        then Inl ErrInvalidFlags
        else if hasFlag vm ScriptVerifySigPushOnly \<and> \<not> IsPushOnlyScript scriptSig then Inl (ScriptError ErrNotPushOnly)
        else
          let bip16 = (hasFlag vm ScriptBip16 \<and> isScriptHashScript scriptPubKey) in
          if bip16 \<and> \<not> hasFlag vm ScriptVerifySigPushOnly \<and> \<not> IsPushOnlyScript scriptSig
          then Inl (ScriptError ErrNotPushOnly)
          else
            rbind (checkScripts [scriptSig, scriptPubKey]) (\<lambda>_.
              let minimalData = hasFlag vm ScriptVerifyMinimalData;
                  vm = vm\<lparr>vm_bip16 := bip16, vm_scripts := [scriptSig, scriptPubKey],
                    vm_scriptIdx := (if length scriptSig = 0 then 1 else 0),
                    vm_dstack := \<lparr>stk = [], verifyMinimalData = minimalData\<rparr>,
                    vm_astack := \<lparr>stk = [], verifyMinimalData = minimalData\<rparr>\<rparr>
              in
              rbind (if hasFlag vm ScriptVerifyWitness then setWitnessProgram scriptSig scriptPubKey witness vm else Inr vm)
                (\<lambda>vm. Inr (vm\<lparr>vm_tokenizer := MakeScriptTokenizer 0 (vm_scripts vm ! vm_scriptIdx vm)\<rparr>))))"

end
