(* ===== verification/Script_Frame.thy ===== *)
theory Script_Frame
  imports Script_Exec
begin

text \<open>
  What an opcode leaves as it is, and that a run of scripts ends.  The handlers change the stacks, the
  conditions, the counters, the signature cache and the contents of a taproot context; \<open>core\<close> is the rest
  of the state.\<close>

section \<open>The part no opcode changes\<close>

definition core :: "Engine \<Rightarrow> _" where
  "core vm =
     ((vm_flags vm, vm_tx vm, vm_txIdx vm, vm_version vm, vm_bip16 vm, vm_hashCache vm, vm_prevOutFetcher vm),
      (vm_scripts vm, vm_scriptIdx vm, vm_tokenizer vm, vm_savedFirstStack vm),
      (vm_witnessVersion vm, vm_witnessProgram vm, vm_inputAmount vm, vm_taprootCtx vm = None))"

lemma core_update [simp]:
  "core (vm\<lparr>vm_dstack := s\<rparr>) = core vm" "core (vm\<lparr>vm_astack := s\<rparr>) = core vm" "core (vm\<lparr>vm_condStack := cs\<rparr>) = core vm"
  "core (vm\<lparr>vm_numOps := n\<rparr>) = core vm" "core (vm\<lparr>vm_sigCache := sc\<rparr>) = core vm" "core (vm\<lparr>vm_opcodeIdx := n\<rparr>) = core vm"
  "core (vm\<lparr>vm_lastCodeSep := n\<rparr>) = core vm" "core (pushD so vm) = core vm" "core (pushCond n vm) = core vm"
  by (simp_all add: core_def pushD_def pushCond_def)

lemma core_taprootCtx: "vm_taprootCtx vm \<noteq> None \<Longrightarrow> core (vm\<lparr>vm_taprootCtx := Some ctx\<rparr>) = core vm"
  by (simp add: core_def)

lemma core_map_taprootCtx [simp]: "core (vm\<lparr>vm_taprootCtx := map_option f (vm_taprootCtx vm)\<rparr>) = core vm"
  by (simp add: core_def)

text \<open>A result that keeps \<open>k\<close>, if there is one.\<close>

definition keeps :: "('a \<Rightarrow> 'k) \<Rightarrow> 'k \<Rightarrow> 'a eres \<Rightarrow> bool" where
  "keeps f k r \<longleftrightarrow> (\<forall>x. r = Inr x \<longrightarrow> f x = k)"

lemma keeps_simps [simp]: "keeps f k (Inl e)" "keeps f k (Inr x) \<longleftrightarrow> f x = k"
  by (simp_all add: keeps_def)

lemma keeps_if: "(b \<Longrightarrow> keeps f k r) \<Longrightarrow> (\<not> b \<Longrightarrow> keeps f k s) \<Longrightarrow> keeps f k (if b then r else s)"
  by simp

lemma keeps_rbind: "keeps g k r \<Longrightarrow> (\<And>x. g x = k \<Longrightarrow> keeps f k (h x)) \<Longrightarrow> keeps f k (rbind r h)"
  by (cases r) auto

lemma keeps_any: "(\<And>x. r = Inr x \<Longrightarrow> keeps f k (h x)) \<Longrightarrow> keeps f k (rbind r h)"
  by (cases r) auto

lemma keeps_pop: "(\<And>x s. keeps f k (h (x, vm\<lparr>vm_dstack := s\<rparr>))) \<Longrightarrow> keeps f k (rbind (popDstack g vm) h)"
  by (cases "g (vm_dstack vm)") (auto simp: popDstack_def)

lemma keeps_onDstack [simp]: "keeps core k (onDstack g vm) \<longleftrightarrow> core vm = k \<or> (\<exists>e. g (vm_dstack vm) = Inl e)"
  by (cases "g (vm_dstack vm)") (auto simp: onDstack_def)

lemmas keeps_reads = keeps_any [of "PeekByteArray i s" for i s] keeps_any [of "scriptNum a b d" for a b d]
  keeps_any [of "verifyLockTime a b d" for a b d] keeps_any [of "PopByteArray s" for s]

section \<open>The handlers\<close>

lemma keeps_popIfBool: "(\<And>x s. keeps f k (h (x, vm\<lparr>vm_dstack := s\<rparr>))) \<Longrightarrow> keeps f k (rbind (popIfBool vm) h)"
  by (cases "vm_dstack vm") (auto simp: popIfBool_def popDstack_def rbind_def split: sum.splits)

lemma keeps_abstractVerify: "keeps core (core vm) (abstractVerify e vm)"
  by (auto simp: abstractVerify_def intro!: keeps_pop)

lemma keeps_verify: "keeps core k r \<Longrightarrow> keeps core k (rbind r (abstractVerify e))"
  by (rule keeps_rbind) (use keeps_abstractVerify in auto)

lemma keeps_constants:
  "keeps core (core vm) (opcodeFalse vm)" "keeps core (core vm) (opcodePushData data vm)"
  "keeps core (core vm) (opcode1Negate vm)" "keeps core (core vm) (opcodeN op vm)" "keeps core (core vm) (opcodeNop op vm)"
  "keeps core (core vm) (opcodeDisabled vm)" "keeps core (core vm) (opcodeReserved vm)"
  "keeps core (core vm) (opcodeInvalid vm)" "keeps core (core vm) (opcodeReturn vm)"
  by (simp_all add: opcodeFalse_def opcodePushData_def opcodeNop_def opcodeDisabled_def opcodeReserved_def opcodeInvalid_def
      opcodeReturn_def opcode1Negate_def opcodeN_def)

lemma keeps_control:
  "keeps core (core vm) (opcodeIf vm)" "keeps core (core vm) (opcodeNotIf vm)" "keeps core (core vm) (opcodeElse vm)"
  "keeps core (core vm) (opcodeEndif vm)" "keeps core (core vm) (opcodeVerify vm)"
  by (auto simp: opcodeIf_def opcodeNotIf_def opcodeElse_def opcodeEndif_def opcodeVerify_def Let_def keeps_abstractVerify
      intro!: keeps_popIfBool)

lemma keeps_locktime:
  "keeps core (core vm) (opcodeCheckLockTimeVerify vm)" "keeps core (core vm) (opcodeCheckSequenceVerify vm)"
  unfolding opcodeCheckLockTimeVerify_def opcodeCheckSequenceVerify_def Let_def
  by (auto intro!: keeps_reads)

lemma keeps_stack:
  "keeps core (core vm) (opcodeToAltStack vm)" "keeps core (core vm) (opcodeFromAltStack vm)"
  "keeps core (core vm) (opcodeIfDup vm)" "keeps core (core vm) (opcodePick vm)" "keeps core (core vm) (opcodeRoll vm)"
  "keeps core (core vm) (opcodeSize vm)" "keeps core (core vm) (opcodeEqual vm)" "keeps core (core vm) (opcodeDepth vm)"
  by (auto simp: opcodeToAltStack_def opcodeFromAltStack_def opcodeIfDup_def opcodePick_def opcodeRoll_def opcodeSize_def
      opcodeEqual_def opcodeDepth_def intro!: keeps_pop keeps_reads)

lemma keeps_arith1:
  "keeps core (core vm) (opcode1Add vm)" "keeps core (core vm) (opcode1Sub vm)" "keeps core (core vm) (opcodeNegate vm)"
  "keeps core (core vm) (opcodeAbs vm)" "keeps core (core vm) (opcodeNot vm)" "keeps core (core vm) (opcode0NotEqual vm)"
  by (auto simp: opcode1Add_def opcode1Sub_def opcodeNegate_def opcodeAbs_def opcodeNot_def opcode0NotEqual_def
      intro!: keeps_pop)

lemma keeps_arith2:
  "keeps core (core vm) (opcodeAdd vm)" "keeps core (core vm) (opcodeSub vm)" "keeps core (core vm) (opcodeBoolAnd vm)"
  "keeps core (core vm) (opcodeBoolOr vm)" "keeps core (core vm) (opcodeNumEqual vm)"
  "keeps core (core vm) (opcodeNumNotEqual vm)" "keeps core (core vm) (opcodeLessThan vm)"
  "keeps core (core vm) (opcodeGreaterThan vm)" "keeps core (core vm) (opcodeLessThanOrEqual vm)"
  "keeps core (core vm) (opcodeGreaterThanOrEqual vm)" "keeps core (core vm) (opcodeMin vm)" "keeps core (core vm) (opcodeMax vm)"
  by (auto simp: opcodeAdd_def opcodeSub_def opcodeBoolAnd_def opcodeBoolOr_def opcodeNumEqual_def opcodeNumNotEqual_def
      opcodeLessThan_def opcodeGreaterThan_def opcodeLessThanOrEqual_def opcodeGreaterThanOrEqual_def opcodeMin_def
      opcodeMax_def intro!: keeps_pop)

lemma keeps_arith3:
  "keeps core (core vm) (opcodeWithin vm)" "keeps core (core vm) (opcodeEqualVerify vm)"
  "keeps core (core vm) (opcodeNumEqualVerify vm)"
  unfolding opcodeEqualVerify_def opcodeNumEqualVerify_def
  by (auto simp: opcodeWithin_def intro!: keeps_pop keeps_verify keeps_stack keeps_arith2)

lemma keeps_hash:
  "keeps core (core vm) (opcodeRipemd160 c vm)" "keeps core (core vm) (opcodeSha1 vm)" "keeps core (core vm) (opcodeSha256 vm)"
  "keeps core (core vm) (opcodeHash160 c vm)" "keeps core (core vm) (opcodeHash256 vm)"
  "keeps core (core vm) (opcodeCodeSeparator vm)"
  by (auto simp: opcodeRipemd160_def opcodeSha1_def opcodeSha256_def opcodeHash160_def opcodeHash256_def intro!: keeps_pop)
    (simp add: opcodeCodeSeparator_def core_def)

section \<open>Signatures\<close>

lemma keeps_verifySig [simp]: "core (snd (verifySig c vm sig pk h sb pb)) = core vm"
  by (simp add: verifySig_def split: option.split)

lemma keeps_taprootVerifySig [simp]: "core (snd (taprootVerifySig c t h vm)) = core vm"
  by (simp add: taprootVerifySig_def)

lemma keeps_verifiers:
  "keeps (\<lambda>x. core (snd x)) (core vm) (baseVerify c b vm)" "keeps (\<lambda>x. core (snd x)) (core vm) (segwitVerify c b vm)"
  "keeps (\<lambda>x. core (snd x)) (core vm) (taprootVerifyWith c t opts vm)" "keeps (\<lambda>x. core (snd x)) (core vm) (tapscriptVerify c v vm)"
  by (auto simp: baseVerify_def segwitVerify_def taprootVerifyWith_def tapscriptVerify_def
      split: sum.split option.split engine_error.split intro!: keeps_any)

lemma keeps_finish: "keeps (\<lambda>x. core (snd x)) k r \<Longrightarrow> keeps core k (rbind r (finishCheckSig sig))"
  by (rule keeps_rbind) (auto simp: finishCheckSig_def split: prod.split)

lemma keeps_tally: "vm_taprootCtx vm \<noteq> None \<Longrightarrow> keeps core (core vm) (tapscriptTally ctx sig vm)"
  by (auto simp: tapscriptTally_def core_taprootCtx intro!: keeps_any)

lemma keeps_checkSig: "keeps core (core vm) (opcodeCheckSig c vm)" "keeps core (core vm) (opcodeCheckSigVerify c vm)"
proof -
  have tap: "keeps core (core vm) (rbind (tapscriptTally ctx sig vm) (\<lambda>vm.
      if length pk = 0 then Inl (TaprootError ErrTaprootPubkeyIsEmpty) else if length sig = 0 then Inr (pushD [] vm)
      else rbind (newBaseTapscriptSigVerifier c pk sig vm) (\<lambda>v. rbind (tapscriptVerify c v vm) (finishCheckSig sig))))"
    if "vm_taprootCtx vm \<noteq> None" for ctx pk sig vm
  proof (rule keeps_rbind [OF keeps_tally [OF that]], intro keeps_if)
    fix vm' assume "core vm' = core vm"
    then show "keeps core (core vm) (rbind (newBaseTapscriptSigVerifier c pk sig vm') (\<lambda>v.
        rbind (tapscriptVerify c v vm') (finishCheckSig sig)))"
      using keeps_verifiers(4) [of vm'] by (auto intro!: keeps_any keeps_finish)
  qed simp_all
  have base: "keeps core (core vm) (rbind (baseVerify c b vm) (finishCheckSig sig))"
    "keeps core (core vm) (rbind (segwitVerify c b vm) (finishCheckSig sig))" for b sig vm
    by (rule keeps_finish [OF keeps_verifiers(1)], rule keeps_finish [OF keeps_verifiers(2)])
  have body: "keeps core k (if vm_taprootCtx vm = None \<and> length sig < 1 then Inr (pushBool False vm)
       else if vm_witnessProgram vm = None then
         (case newBaseSigVerifier c pk sig vm of
            Inl err \<Rightarrow> if isScriptErr err then Inl err else Inr (pushBool False vm)
          | Inr v \<Rightarrow> rbind (baseVerify c v vm) (finishCheckSig sig))
       else if isWitnessVersionActive vm BaseSegwitWitnessVersion then
         (case newBaseSigVerifier c pk sig vm of
            Inl err \<Rightarrow> if isScriptErr err then Inl err else Inr (pushBool False vm)
          | Inr v \<Rightarrow> rbind (segwitVerify c v vm) (finishCheckSig sig))
       else
         case vm_taprootCtx vm of
           None \<Rightarrow> Inl (Panic ''nil sigVerifier'')
         | Some ctx \<Rightarrow>
             rbind (tapscriptTally ctx sig vm) (\<lambda>vm.
               if length pk = 0 then Inl (TaprootError ErrTaprootPubkeyIsEmpty)
               else if length sig = 0 then Inr (pushD [] vm)
               else
                 rbind (newBaseTapscriptSigVerifier c pk sig vm) (\<lambda>v.
                 rbind (tapscriptVerify c v vm) (finishCheckSig sig))))" if "core vm = k" for vm pk sig k
    unfolding that [symmetric] using base [of vm] tap [of vm] by (intro keeps_if) (auto split: sum.split option.split)
  show one: "keeps core (core vm) (opcodeCheckSig c vm)" unfolding opcodeCheckSig_def
    by (rule keeps_pop, unfold prod.case, rule keeps_pop, unfold prod.case, rule body, simp)
  show "keeps core (core vm) (opcodeCheckSigVerify c vm)" unfolding opcodeCheckSigVerify_def by (rule keeps_verify [OF one])
qed

lemma keeps_checkSigAdd: "keeps core (core vm) (opcodeCheckSigAdd c vm)"
proof -
  have tap: "keeps core k (rbind (tapscriptTally ctx sig vm) (\<lambda>vm.
      if length pk = 0 then Inl (TaprootError ErrTaprootPubkeyIsEmpty) else if length sig = 0 then pushInt n vm
      else rbind (newBaseTapscriptSigVerifier c pk sig vm) (\<lambda>v. rbind (tapscriptVerify c v vm)
        (\<lambda>(valid, vm). if \<not> valid then Inl ErrNullFail else pushInt (n + 1) vm))))"
    if "vm_taprootCtx vm \<noteq> None" "core vm = k" for ctx pk sig vm n k
    unfolding that(2) [symmetric]
  proof (rule keeps_rbind [OF keeps_tally [OF that(1)]], rule keeps_if, simp, rule keeps_if, simp, rule keeps_any)
    fix vm' v assume vm': "core vm' = core vm"
    have "keeps (\<lambda>x. core (snd x)) (core vm) (tapscriptVerify c v vm')" using keeps_verifiers(4) [of vm'] vm' by simp
    then show "keeps core (core vm) (rbind (tapscriptVerify c v vm')
        (\<lambda>(valid, vm). if \<not> valid then Inl ErrNullFail else pushInt (n + 1) vm))"
      by (rule keeps_rbind) (auto split: prod.split)
  qed
  show ?thesis unfolding opcodeCheckSigAdd_def
    by (cases "vm_taprootCtx vm", simp, simp only: option.case)
      (rule keeps_pop, unfold prod.case, rule keeps_pop, unfold prod.case, rule keeps_pop, unfold prod.case, rule tap, simp_all)
qed

lemma keeps_popLoop: "(\<And>xs s. keeps f k (h (xs, vm\<lparr>vm_dstack := s\<rparr>))) \<Longrightarrow> keeps f k (rbind (popLoop n vm) h)"
proof (induction n arbitrary: vm h)
  case 0
  from 0 [of "[]" "vm_dstack vm"] show ?case by simp
next
  case (Suc n)
  have "keeps f k (rbind (popDstack PopByteArray vm) (\<lambda>(x, vm). rbind (popLoop n vm) (\<lambda>(xs, vm). h (x # xs, vm))))"
    using Suc.prems by (intro keeps_pop, unfold prod.case, intro Suc.IH) simp
  then show ?case by (cases "popDstack PopByteArray vm") (auto simp: rbind_def split: sum.split prod.split)
qed

lemma keeps_multiSigLoop: "keeps (\<lambda>x. core (snd x)) (core vm) (multiSigLoop c script keys sigs vm)"
proof (induction keys arbitrary: sigs vm)
  case Nil
  then show ?case by (cases sigs) simp_all
next
  case (Cons key keys)
  have rec: "keeps (\<lambda>x. core (snd x)) k (case verifySig c vm sig pk h sb key of
      (valid, vm) \<Rightarrow> if valid then multiSigLoop c script keys xs vm else multiSigLoop c script keys ys vm)"
    if "core vm = k" for sig pk h sb xs ys k
    using Cons.IH [where vm = "snd (verifySig c vm sig pk h sb key)"] that by (auto split: prod.split)
  show ?case
  proof (cases sigs)
    case (Cons si sigs')
    show ?thesis unfolding Cons multiSigLoop.simps Let_def
      by (rule keeps_if, simp, rule keeps_if, rule Cons.IH, rule keeps_any)
        (auto simp only: prod.case option.case split: prod.split option.split intro!: Cons.IH keeps_any rec)
  qed simp
qed

lemma keeps_checkMultiSig:
  "keeps core (core vm) (opcodeCheckMultiSig c vm)" "keeps core (core vm) (opcodeCheckMultiSigVerify c vm)"
proof -
  have fin: "keeps core k (rbind (multiSigLoop c script keys sigs vm) (\<lambda>(success, vm).
      if \<not> success \<and> hasFlag vm ScriptVerifyNullFail \<and> q then Inl ErrNullFail else Inr (pushBool success vm)))"
    if "core vm = k" for script keys sigs q vm k
    unfolding that [symmetric] by (rule keeps_rbind [OF keeps_multiSigLoop]) (auto split: prod.split)
  show one: "keeps core (core vm) (opcodeCheckMultiSig c vm)"
    unfolding opcodeCheckMultiSig_def Let_def
    by (rule keeps_if, simp, rule keeps_pop, unfold prod.case, intro keeps_if, simp, simp, simp,
        rule keeps_popLoop, unfold prod.case, rule keeps_pop, unfold prod.case, intro keeps_if, simp, simp,
        rule keeps_popLoop, unfold prod.case, rule keeps_pop, unfold prod.case, rule keeps_if, simp, rule keeps_any, rule fin, simp)
  show "keeps core (core vm) (opcodeCheckMultiSigVerify c vm)"
    unfolding opcodeCheckMultiSigVerify_def by (rule keeps_verify [OF one])
qed

lemma keeps_opcodeArray: "list_all (\<lambda>(op, handler). keeps core (core vm) (handler vm)) (opcodeArray c)"
  unfolding opcodeArray_def list.pred_inject prod.case
  by (simp only: keeps_constants keeps_control keeps_locktime keeps_stack keeps_arith1 keeps_arith2 keeps_arith3 keeps_hash
      keeps_checkSig keeps_checkSigAdd keeps_checkMultiSig keeps_onDstack simp_thms list.pred_inject)

lemma keeps_opfunc: "keeps core (core vm) (opfunc c op data vm)"
  using keeps_opcodeArray [of vm c]
  by (auto simp: opfunc_def keeps_constants list_all_iff split: option.split dest!: map_of_SomeD)

lemma core_executeOpcode: "executeOpcode c op data vm = Inr vm' \<Longrightarrow> core vm' = core vm"
proof -
  have "keeps core (core vm) (executeOpcode c op data vm)"
    unfolding executeOpcode_def Let_def
    by (rule keeps_if, simp, rule keeps_if, simp, rule keeps_rbind [where g = core], simp, rule keeps_if, simp, rule keeps_any)
      (metis keeps_opfunc)
  moreover assume "executeOpcode c op data vm = Inr vm'"
  ultimately show ?thesis by simp
qed

section \<open>Every run ends\<close>

text \<open>
  A step consumes part of the current script or leaves it for the next.  Scripts are appended only when
  the second or the third script has ended, so the scripts to come and the positions where one may still
  be appended shrink together.\<close>

definition pos :: "Engine \<Rightarrow> nat \<times> nat" where
  "pos vm = (vm_scriptIdx vm, length (vm_scripts vm))"

definition scriptsLeft :: "nat \<times> nat \<Rightarrow> nat" where
  "scriptsLeft = (\<lambda>(idx, n). (n - idx) + (3 - idx))"

lemma pos_core: "core vm = core vm' \<Longrightarrow> pos vm = pos vm'"
  by (simp add: pos_def core_def)

lemma pos_update [simp]:
  "pos (vm\<lparr>vm_dstack := s\<rparr>) = pos vm" "pos (vm\<lparr>vm_taprootCtx := ctx\<rparr>) = pos vm" "pos (vm\<lparr>vm_savedFirstStack := st\<rparr>) = pos vm"
  "pos (vm\<lparr>vm_witnessProgram := p\<rparr>) = pos vm" "pos (vm\<lparr>vm_tokenizer := t\<rparr>) = pos vm"
  "pos (vm\<lparr>vm_lastCodeSep := n\<rparr>) = pos vm" "pos (SetStack data vm) = pos vm"
  "pos (vm\<lparr>vm_scriptIdx := i\<rparr>) = (i, snd (pos vm))"
  "pos (vm\<lparr>vm_scripts := ss\<rparr>) = (fst (pos vm), length ss)"
  by (simp_all add: pos_def SetStack_def)

text \<open>\<open>moved p r\<close>: a result is at \<open>p\<close>, or has one more script.\<close>

definition moved :: "nat \<times> nat \<Rightarrow> Engine eres \<Rightarrow> bool" where
  "moved p r \<longleftrightarrow> (\<forall>vm. r = Inr vm \<longrightarrow> pos vm = p \<or> pos vm = (fst p, Suc (snd p)))"

lemma moved_simps [simp]:
  "moved p (Inl e)" "moved p (Inr vm) \<longleftrightarrow> pos vm = p \<or> pos vm = (fst p, Suc (snd p))"
  by (simp_all add: moved_def)

lemma moved_pushScript: "moved (pos vm) (pushScript script data vm)"
  by (simp add: pushScript_def pos_def SetStack_def split: option.split)

lemma moved_checkWitnessStack: "moved p r \<Longrightarrow> moved p (rbind r checkWitnessStack)"
  by (cases r) (simp_all add: checkWitnessStack_def)

lemma moved_verifyWitnessV0: "moved (pos vm) (verifyWitnessV0 prog witness vm)"
  by (auto simp: verifyWitnessV0_def Let_def moved_pushScript split: sum.split)

lemma pos_VerifyTaprootKeySpend: "VerifyTaprootKeySpend c prog sig vm = Inr vm' \<Longrightarrow> pos vm' = pos vm"
  using keeps_verifiers(3)
  by (fastforce simp: VerifyTaprootKeySpend_def taprootVerify_def Let_def keeps_def rbind_eq_Inr split: if_splits intro!: pos_core)

lemma moved_verifyTapscript: "moved (pos vm) (rbind (verifyTapscript c prog witness vm) (\<lambda>(returned, vm). Inr vm))"
  unfolding verifyTapscript_def Let_def
  using moved_pushScript [where vm = "vm\<lparr>vm_taprootCtx := ctx\<rparr>" for ctx]
  by (auto simp: moved_def rbind_eq_Inr split: if_splits)

lemma moved_verifyTaproot: "moved (pos vm) (rbind (verifyTaproot c prog witness vm) (\<lambda>(returned, vm). Inr vm))"
proof -
  have key: "moved (pos vm) (rbind (rbind (VerifyTaprootKeySpend c prog sig vm') (\<lambda>vm. Inr (True, mustSucceed vm)))
      (\<lambda>(returned, vm). Inr vm))" if "pos vm' = pos vm" for vm' sig
    using pos_VerifyTaprootKeySpend [of c prog sig vm'] that
    by (cases "VerifyTaprootKeySpend c prog sig vm'") auto
  show ?thesis unfolding verifyTaproot_def Let_def
    using moved_verifyTapscript [where vm = "vm\<lparr>vm_taprootCtx := ctx\<rparr>" for ctx]
    by (auto intro!: key)
qed

lemma moved_verifyWitnessProgram: "moved (pos vm) (verifyWitnessProgram c witness vm)"
proof -
  have tap: "moved (pos vm) (rbind (verifyTaproot c prog witness vm) (\<lambda>(returned, vm).
      if returned then Inr vm else checkWitnessStack vm))" for prog
    using moved_verifyTaproot [of vm c prog witness]
    by (cases "verifyTaproot c prog witness vm") (auto simp: checkWitnessStack_def)
  show ?thesis unfolding verifyWitnessProgram_def Let_def
    using tap by (auto simp: moved_checkWitnessStack moved_verifyWitnessV0) (simp_all add: checkWitnessStack_def)
qed

lemma pos_CheckErrorCondition: "CheckErrorCondition b vm = Inr vm' \<Longrightarrow> core vm' = core vm"
  by (auto simp: CheckErrorCondition_def Let_def popDstack_def rbind_eq_Inr split: if_splits option.splits)

lemma advance_left:
  assumes "vm_scriptIdx vm < length (vm_scripts vm)" "advanceScript c vm = Inr vm'"
  shows "scriptsLeft (pos vm') < scriptsLeft (pos vm)"
proof -
  let ?next = "vm\<lparr>vm_scriptIdx := vm_scriptIdx vm + 1\<rparr>"
  have p: "pos ?next = (vm_scriptIdx vm + 1, length (vm_scripts vm))" by (simp add: pos_def)
  have "pos vm' = pos ?next \<or> pos vm' = (vm_scriptIdx vm + 1, Suc (length (vm_scripts vm))) \<and> vm_scriptIdx vm \<in> {1, 2}"
  proof (cases "vm_scriptIdx vm = 1 \<and> vm_bip16 vm")
    case True
    then obtain vm1 s d where "CheckErrorCondition False ?next = Inr vm1" "pushScript s d vm1 = Inr vm'"
      using assms(2) by (auto simp: advanceScript_def Let_def rbind_eq_Inr split: if_splits)
    then have "moved (pos ?next) (Inr vm')"
      using moved_pushScript [of vm1 s d] pos_CheckErrorCondition pos_core by metis
    then show ?thesis using True p by auto
  next
    case False
    then show ?thesis using assms(2) moved_verifyWitnessProgram [of ?next c] p
      by (auto simp: advanceScript_def moved_def split: if_splits)
  qed
  then show ?thesis using assms(1) p by (auto simp: scriptsLeft_def pos_def)
qed

lemma finish_left:
  assumes "vm_scriptIdx vm < length (vm_scripts vm)" "finishScript c vm = Inr (finished, vm')"
  shows "scriptsLeft (pos vm') < scriptsLeft (pos vm)"
proof -
  let ?vm = "vm\<lparr>vm_astack := dropAll (vm_astack vm), vm_numOps := 0, vm_opcodeIdx := 0\<rparr>"
  obtain vm1 where vm1: "advanceScript c ?vm = Inr vm1" and "pos vm' = pos vm1 \<or> pos vm' = (fst (pos vm1) + 1, snd (pos vm1))"
    using assms(2) unfolding finishScript_def Let_def rbind_eq_Inr by (auto simp: rbind_eq_Inr pos_def split: if_splits)
  then have "scriptsLeft (pos vm') \<le> scriptsLeft (pos vm1)" by (auto simp: scriptsLeft_def split: prod.split)
  moreover have "scriptsLeft (pos vm1) < scriptsLeft (pos ?vm)" using assms(1) by (intro advance_left [OF _ vm1]) simp
  moreover have "pos ?vm = pos vm" by (simp add: pos_def)
  ultimately show ?thesis by simp
qed

definition stepsLeft :: "(Engine \<times> Engine) set" where
  "stepsLeft = measures [\<lambda>vm. scriptsLeft (pos vm), \<lambda>vm. length (tz_script (vm_tokenizer vm)) - tz_offset (vm_tokenizer vm)]"

lemma Step_cases:
  assumes "Step c vm = Inr (finished, vm')"
  obtains t vm1 where "vm_scriptIdx vm < length (vm_scripts vm)" "Next (vm_tokenizer vm) = (True, t)"
    "executeOpcode c (the (tz_op t)) (case tz_data t of None \<Rightarrow> [] | Some d \<Rightarrow> d) (vm\<lparr>vm_tokenizer := t\<rparr>) = Inr vm1"
    "Depth (vm_dstack vm1) + Depth (vm_astack vm1) \<le> MaxStackSize"
    "if Done (vm_tokenizer vm1) then finishScript c (vm1\<lparr>vm_opcodeIdx := vm_opcodeIdx vm1 + 1\<rparr>) = Inr (finished, vm')
     else \<not> finished \<and> vm' = vm1\<lparr>vm_opcodeIdx := vm_opcodeIdx vm1 + 1\<rparr>"
  using assms
  by (cases "Next (vm_tokenizer vm)")
    (auto simp: Step_def checkValidPC_def Let_def rbind_eq_Inr not_le not_less split: if_splits option.splits)

lemma Step_decreases:
  assumes "Step c vm = Inr (finished, vm')"
  shows "(vm', vm) \<in> stepsLeft"
  using assms
proof (rule Step_cases)
  fix t and vm1 :: Engine
  let ?vm1 = "vm1\<lparr>vm_opcodeIdx := vm_opcodeIdx vm1 + 1\<rparr>"
  assume idx: "vm_scriptIdx vm < length (vm_scripts vm)" and N: "Next (vm_tokenizer vm) = (True, t)"
    and exec: "executeOpcode c (the (tz_op t)) (case tz_data t of None \<Rightarrow> [] | Some d \<Rightarrow> d) (vm\<lparr>vm_tokenizer := t\<rparr>) = Inr vm1"
    and fin: "if Done (vm_tokenizer vm1) then finishScript c ?vm1 = Inr (finished, vm') else \<not> finished \<and> vm' = ?vm1"
  have core: "core vm1 = core (vm\<lparr>vm_tokenizer := t\<rparr>)" using exec by (rule core_executeOpcode)
  then have eq: "pos ?vm1 = pos vm" "vm_tokenizer vm1 = t" by (simp_all add: core_def pos_def)
  show ?thesis
  proof (cases "Done (vm_tokenizer vm1)")
    case True
    have "scriptsLeft (pos vm') < scriptsLeft (pos ?vm1)"
      using idx eq(1) fin True by (intro finish_left [where c = c and finished = finished]) (auto simp: pos_def)
    then show ?thesis using eq by (simp add: stepsLeft_def)
  next
    case False
    then show ?thesis using fin eq Next_measure [of t "vm_tokenizer vm"] N by (simp add: stepsLeft_def pos_def)
  qed
qed

lemma executeLoop_ends: "\<exists>r. executeLoop c vm = Some r"
proof -
  have "wf stepsLeft" by (simp add: stepsLeft_def)
  then show ?thesis
  proof (induction vm rule: wf_induct_rule)
    case (less vm)
    show ?case
    proof (cases "Step c vm")
      case (Inr x)
      then obtain finished vm' where x: "Step c vm = Inr (finished, vm')" by (cases x) auto
      then have "\<exists>r. executeLoop c vm' = Some r" using less Step_decreases by blast
      then show ?thesis using x by (subst executeLoop.simps) auto
    qed (subst executeLoop.simps, simp)
  qed
qed

text \<open>C8: \<^verbatim>\<open>Execute\<close> returns for every engine, whatever its scripts are: its loop does not run forever.\<close>

theorem execute_ends: "\<exists>r. Execute c vm = Some r"
  using executeLoop_ends [of c vm] by (auto simp: Execute_def)

end
