(* ===== verification/Script_Safety.thy ===== *)
theory Script_Safety
  imports Script_Frame
begin

unbundle bit_operations_syntax

text \<open>
  Safety of the opcodes: the invariant every opcode keeps, and that none of them panics under it.\<close>

section \<open>Results that are no panic\<close>

definition safe :: "('a \<Rightarrow> bool) \<Rightarrow> 'a eres \<Rightarrow> bool" where
  "safe P r = (case r of Inl e \<Rightarrow> (\<forall>p. e \<noteq> Panic p) | Inr x \<Rightarrow> P x)"

named_theorems safe_rules \<open>rules for results that are no panic\<close>

lemma safe_Inr [simp]: "safe P (Inr x) \<longleftrightarrow> P x"
  by (simp add: safe_def)

lemma safe_Inl [simp]: "safe P (Inl e) \<longleftrightarrow> (\<forall>p. e \<noteq> Panic p)"
  by (simp add: safe_def)

lemma safe_rbind:
  assumes "safe P r" "\<And>x. r = Inr x \<Longrightarrow> P x \<Longrightarrow> safe Q (f x)"
  shows "safe Q (rbind r f)"
  using assms by (cases r) auto

lemma safe_mono: "safe P r \<Longrightarrow> (\<And>x. P x \<Longrightarrow> Q x) \<Longrightarrow> safe Q r"
  by (cases r) auto

lemma safe_if: "(b \<Longrightarrow> safe P r) \<Longrightarrow> (\<not> b \<Longrightarrow> safe P s) \<Longrightarrow> safe P (if b then r else s)"
  by simp

section \<open>Numbers\<close>

lemma length_magBytes: "n < 256 ^ k \<Longrightarrow> length (magBytes n) \<le> k"
proof (induction k arbitrary: n)
  case (Suc k)
  show ?case
  proof (cases "n = 0")
    case False
    have "n div 256 < 256 ^ k" using Suc.prems by (simp add: less_mult_imp_div_less mult.commute)
    with Suc.IH [of "n div 256"] False show ?thesis by (simp add: magBytes_pos)
  qed simp
qed simp

lemma Bytes_small:
  assumes "\<bar>n\<bar> < 2 ^ 40"
  shows "\<exists>v. Bytes n = Some v \<and> length v \<le> 6"
proof (cases "n = 0")
  case False
  have "nat \<bar>n\<bar> < 256 ^ 5" using assms by simp
  then have len: "length (magBytes (nat \<bar>n\<bar>)) \<le> 5" by (rule length_magBytes)
  have "magBytes (nat \<bar>n\<bar>) \<noteq> []" using False by simp
  then obtain u b where ub: "magBytes (nat \<bar>n\<bar>) = u @ [b]" by (metis append_butlast_last_id)
  with len have "length u \<le> 4" by simp
  moreover have "n \<noteq> - (2 ^ 63)" using assms by auto
  ultimately show ?thesis using Bytes_mag [OF False _ ub] by auto
qed (simp add: Bytes_def)

lemma scriptVal_small:
  assumes "length v \<le> k"
  shows "\<bar>scriptVal v\<bar> < 256 ^ k"
proof (cases v rule: rev_cases)
  case (snoc u b)
  have "le_nat u < 256 ^ length u" by (rule le_nat_less)
  moreover have "unat b mod 128 \<le> 255" by (simp add: order_trans [of _ 127])
  then have "256 ^ length u * (unat b mod 128) \<le> 256 ^ length u * 255" by (rule mult_le_mono2)
  ultimately have "le_nat u + 256 ^ length u * (unat b mod 128) < 256 ^ length u + 256 ^ length u * 255" by linarith
  also have "\<dots> = 256 ^ Suc (length u)" by simp
  also have "\<dots> \<le> 256 ^ k" using assms snoc by (intro power_increasing) simp_all
  finally have less: "int (le_nat u + 256 ^ length u * (unat b mod 128)) < int (256 ^ k)" by (simp only: of_nat_less_iff)
  define m where "m = le_nat u + 256 ^ length u * (unat b mod 128)"
  have "scriptVal v = (if 128 \<le> unat b then - int m else int m)" by (simp only: snoc scriptVal_snoc m_def)
  with less [folded m_def] show ?thesis by simp
qed (simp add: scriptVal_def)

lemma scriptNum_range:
  assumes "scriptNum so minimalData k = Inr n" "k \<le> 5"
  shows "\<bar>n\<bar> < 256 ^ k"
proof -
  have m: "makeScriptNum so minimalData k = Inr n" using assms(1) by (simp add: scriptNum_def split: sum.splits)
  then have "length so \<le> k" by (simp add: makeScriptNum_def split: if_splits)
  moreover have "makeScriptNum so False k = Inr n"
    using m by (auto simp: makeScriptNum_def split: if_splits option.splits)
  ultimately have "n = scriptVal so" using makeScriptNum_val [of so k] assms(2) by simp
  with scriptVal_small \<open>length so \<le> k\<close> show ?thesis by blast
qed

lemma safe_scriptNum: "k \<le> 5 \<Longrightarrow> safe (\<lambda>n. \<bar>n\<bar> < 256 ^ k) (scriptNum so minimalData k)"
  using scriptNum_range [of so minimalData k] by (cases "scriptNum so minimalData k") (auto simp: scriptNum_def split: sum.splits)

section \<open>Sizes of stack elements\<close>

definition elemsOk :: "stack \<Rightarrow> bool" where
  "elemsOk s \<longleftrightarrow> (\<forall>x \<in> set (stk s). length x \<le> MaxScriptElementSize)"

lemma elemsOk_ontop: "elemsOk (ontop xs s) \<longleftrightarrow> (\<forall>x \<in> set xs. length x \<le> MaxScriptElementSize)"
  by (simp add: elemsOk_def)

lemma elemsOk_items: "elemsOk s \<longleftrightarrow> (\<forall>x \<in> set (items s). length x \<le> MaxScriptElementSize)"
  by (simp add: elemsOk_def)

lemma elemsOk_Push [simp]: "elemsOk (PushByteArray so s) \<longleftrightarrow> elemsOk s \<and> length so \<le> MaxScriptElementSize"
  by (auto simp: elemsOk_def PushByteArray_def)

lemma elemsOk_PushBool [simp]: "elemsOk (PushBool b s) \<longleftrightarrow> elemsOk s"
  by (simp add: PushBool_def fromBool_def)

lemma safe_PushInt: "elemsOk s \<Longrightarrow> \<bar>n\<bar> < 2 ^ 40 \<Longrightarrow> safe elemsOk (PushInt n s)"
  using Bytes_small [of n] by (auto simp: PushInt_def)

lemma safe_nipN: "elemsOk s \<Longrightarrow> safe (\<lambda>(so, s). length so \<le> MaxScriptElementSize \<and> elemsOk s) (nipN idx s)"
  using nth_mem [of "nat idx" "items s"]
  by (auto simp: nipN_ontop elemsOk_ontop elemsOk_items dest: in_set_takeD in_set_dropD)

lemma safe_PopByteArray: "elemsOk s \<Longrightarrow> safe (\<lambda>(so, s). length so \<le> MaxScriptElementSize \<and> elemsOk s) (PopByteArray s)"
  by (simp add: PopByteArray_def safe_nipN)

lemma safe_PopInt: "elemsOk s \<Longrightarrow> safe (\<lambda>(n, s). \<bar>n\<bar> < 2 ^ 32 \<and> elemsOk s) (PopInt s)"
  unfolding PopInt_def
  by (rule safe_rbind [OF safe_PopByteArray], assumption) (auto intro!: safe_rbind [OF safe_scriptNum])

lemma safe_PopBool: "elemsOk s \<Longrightarrow> safe (\<lambda>(b, s). elemsOk s) (PopBool s)"
  unfolding PopBool_def by (rule safe_rbind [OF safe_PopByteArray]) auto

lemma safe_PeekByteArray: "elemsOk s \<Longrightarrow> safe (\<lambda>so. length so \<le> MaxScriptElementSize) (PeekByteArray idx s)"
  using nth_mem [of "nat idx" "items s"] by (auto simp: PeekByteArray_ontop elemsOk_items)

lemma safe_dropLoop: "elemsOk s \<Longrightarrow> safe elemsOk (dropLoop n s)"
  by (simp add: dropLoop_ontop elemsOk_ontop elemsOk_items) (auto dest: in_set_dropD)

lemma safe_peekLoop: "elemsOk s \<Longrightarrow> safe elemsOk (peekLoop n e s)"
  by (induction n arbitrary: s) (auto intro!: safe_rbind [OF safe_PeekByteArray])

lemma safe_nipLoop: "elemsOk s \<Longrightarrow> safe elemsOk (nipLoop n e s)"
  by (induction n arbitrary: s) (auto intro!: safe_rbind [OF safe_nipN])

lemma safe_stack_ops [safe_rules]:
  assumes "elemsOk s"
  shows "safe elemsOk (DropN n s)" "safe elemsOk (DupN n s)" "safe elemsOk (RotN n s)" "safe elemsOk (SwapN n s)"
    "safe elemsOk (OverN n s)" "safe elemsOk (NipN n s)" "safe elemsOk (PickN n s)" "safe elemsOk (RollN n s)"
    "safe elemsOk (Tuck s)"
proof -
  show "safe elemsOk (DropN n s)" "safe elemsOk (DupN n s)" "safe elemsOk (RotN n s)" "safe elemsOk (SwapN n s)"
    "safe elemsOk (OverN n s)"
    using assms by (auto simp: DropN_def DupN_def RotN_def SwapN_def OverN_def
      intro!: safe_dropLoop safe_peekLoop safe_nipLoop)
  show "safe elemsOk (NipN n s)" "safe elemsOk (RollN n s)"
    unfolding NipN_def RollN_def using assms by (auto intro!: safe_rbind [OF safe_nipN])
  show "safe elemsOk (PickN n s)" unfolding PickN_def using assms by (auto intro!: safe_rbind [OF safe_PeekByteArray])
  show "safe elemsOk (Tuck s)" unfolding Tuck_def using assms
    by (auto intro!: safe_rbind [OF safe_PopByteArray])
qed

section \<open>The invariant of the opcodes\<close>

text \<open>
  The part of the state that no opcode changes, or only within bounds: the script that is executed, the
  input, the midstates, and that a taproot context exists only for a taproot program.\<close>

definition fetchOk :: "Engine \<Rightarrow> bool" where
  "fetchOk vm \<longleftrightarrow>
     (\<forall>ti \<in> set (tx_TxIn (vm_tx vm)). safe (\<lambda>_. True) (FetchPrevOutput (vm_prevOutFetcher vm) (ti_PreviousOutPoint ti)))"

definition inputOk :: "Engine \<Rightarrow> bool" where
  "inputOk vm \<longleftrightarrow> vm_txIdx vm < length (tx_TxIn (vm_tx vm)) \<and> vm_hashCache vm \<noteq> None \<and> fetchOk vm"

definition static :: "Engine \<Rightarrow> bool" where
  "static vm \<longleftrightarrow>
     vm_scriptIdx vm < length (vm_scripts vm) \<and>
     vm_lastCodeSep vm \<le> length (vm_scripts vm ! vm_scriptIdx vm) \<and>
     tz_offset (vm_tokenizer vm) \<le> length (vm_scripts vm ! vm_scriptIdx vm) \<and>
     inputOk vm \<and> (vm_taprootCtx vm \<noteq> None \<longrightarrow> isWitnessVersionActive vm TaprootWitnessVersion)"

definition vmOk :: "Engine \<Rightarrow> bool" where
  "vmOk vm \<longleftrightarrow> elemsOk (vm_dstack vm) \<and> elemsOk (vm_astack vm) \<and> static vm"

text \<open>What an opcode assumes of the third-party code.\<close>

definition cryptoOk :: "('pk, 'sig, 'ssig) crypto \<Rightarrow> bool" where
  "cryptoOk c \<longleftrightarrow>
     (\<forall>b. length (ripemd160 c b) = 20) \<and> (\<forall>k. schnorrParsePubKey c (schnorrSerializePubKey c k) \<noteq> None)"

lemma static_update [simp]:
  "static (vm\<lparr>vm_dstack := s\<rparr>) = static vm" "static (vm\<lparr>vm_astack := s\<rparr>) = static vm"
  "static (vm\<lparr>vm_condStack := cs\<rparr>) = static vm" "static (vm\<lparr>vm_numOps := n\<rparr>) = static vm"
  "static (vm\<lparr>vm_sigCache := sc\<rparr>) = static vm" "static (vm\<lparr>vm_opcodeIdx := n\<rparr>) = static vm"
  "static (vm\<lparr>vm_savedFirstStack := st\<rparr>) = static vm"
  by (simp_all add: static_def inputOk_def fetchOk_def isWitnessVersionActive_def)

lemma vmOk_update [simp]:
  "vmOk (vm\<lparr>vm_dstack := s\<rparr>) \<longleftrightarrow> elemsOk s \<and> elemsOk (vm_astack vm) \<and> static vm"
  "vmOk (vm\<lparr>vm_astack := s\<rparr>) \<longleftrightarrow> elemsOk (vm_dstack vm) \<and> elemsOk s \<and> static vm"
  "vmOk (vm\<lparr>vm_condStack := cs\<rparr>) = vmOk vm" "vmOk (vm\<lparr>vm_numOps := n\<rparr>) = vmOk vm"
  "vmOk (vm\<lparr>vm_sigCache := sc\<rparr>) = vmOk vm" "vmOk (vm\<lparr>vm_opcodeIdx := n\<rparr>) = vmOk vm"
  "vmOk (vm\<lparr>vm_savedFirstStack := st\<rparr>) = vmOk vm"
  by (simp_all add: vmOk_def)

lemma vmOk_pushD [simp]: "vmOk (pushD so vm) \<longleftrightarrow> vmOk vm \<and> length so \<le> MaxScriptElementSize"
  by (auto simp: pushD_def vmOk_def)

lemma vmOk_pushCond [simp]: "vmOk (pushCond n vm) = vmOk vm"
  by (simp add: pushCond_def)

text \<open>The calls of the stack, with what follows them.\<close>

lemma safe_onDstack: "vmOk vm \<Longrightarrow> safe elemsOk (f (vm_dstack vm)) \<Longrightarrow> safe vmOk (onDstack f vm)"
  unfolding onDstack_def by (rule safe_rbind) (auto simp: vmOk_def)

lemma safe_pushInt: "vmOk vm \<Longrightarrow> \<bar>n\<bar> < 2 ^ 40 \<Longrightarrow> safe vmOk (onDstack (PushInt n) vm)"
  by (intro safe_onDstack safe_PushInt) (simp_all add: vmOk_def)

lemma safe_popBytes:
  assumes "vmOk vm" "\<And>so s. length so \<le> MaxScriptElementSize \<Longrightarrow> elemsOk s \<Longrightarrow> safe Q (f (so, vm\<lparr>vm_dstack := s\<rparr>))"
  shows "safe Q (rbind (popDstack PopByteArray vm) f)"
  using assms safe_PopByteArray [of "vm_dstack vm"]
  by (cases "PopByteArray (vm_dstack vm)") (auto simp: popDstack_def vmOk_def)

lemma safe_popInt:
  assumes "vmOk vm" "\<And>n s. \<bar>n\<bar> < 2 ^ 32 \<Longrightarrow> elemsOk s \<Longrightarrow> safe Q (f (n, vm\<lparr>vm_dstack := s\<rparr>))"
  shows "safe Q (rbind (popDstack PopInt vm) f)"
  using assms safe_PopInt [of "vm_dstack vm"]
  by (cases "PopInt (vm_dstack vm)") (auto simp: popDstack_def vmOk_def)

lemma safe_popBool:
  assumes "vmOk vm" "\<And>b s. elemsOk s \<Longrightarrow> safe Q (f (b, vm\<lparr>vm_dstack := s\<rparr>))"
  shows "safe Q (rbind (popDstack PopBool vm) f)"
  using assms safe_PopBool [of "vm_dstack vm"]
  by (cases "PopBool (vm_dstack vm)") (auto simp: popDstack_def vmOk_def)

lemma safe_peek:
  assumes "vmOk vm" "\<And>so. length so \<le> MaxScriptElementSize \<Longrightarrow> safe Q (f so)"
  shows "safe Q (rbind (PeekByteArray idx (vm_dstack vm)) f)"
  using assms by (intro safe_rbind [OF safe_PeekByteArray]) (simp_all add: vmOk_def)

lemma vmOk_parts: "vmOk vm \<Longrightarrow> elemsOk (vm_dstack vm)" "vmOk vm \<Longrightarrow> elemsOk (vm_astack vm)" "vmOk vm \<Longrightarrow> static vm"
  by (simp_all add: vmOk_def)

lemma Int32_small: "\<bar>n\<bar> < 2 ^ 40 \<Longrightarrow> \<bar>Int32 n\<bar> < 2 ^ 40"
  by (auto simp: Int32_def)

lemma safe_constants:
  assumes "vmOk vm"
  shows "safe vmOk (opcodeFalse vm)" "length data \<le> MaxScriptElementSize \<Longrightarrow> safe vmOk (opcodePushData data vm)"
    "safe vmOk (opcode1Negate vm)" "safe vmOk (opcodeN op vm)" "safe vmOk (opcodeNop op vm)"
    "safe vmOk (opcodeDisabled vm)" "safe vmOk (opcodeReserved vm)" "safe vmOk (opcodeInvalid vm)" "safe vmOk (opcodeReturn vm)"
  using assms unfolding opcode1Negate_def opcodeN_def
  by (auto simp: opcodeFalse_def opcodePushData_def opcodeNop_def opcodeDisabled_def opcodeReserved_def opcodeInvalid_def
      opcodeReturn_def intro!: safe_pushInt order_le_less_trans [OF less_imp_le [OF uint_lt2p]])

lemma safe_popIfBool:
  assumes "vmOk vm" "\<And>b s. elemsOk s \<Longrightarrow> safe Q (f (b, vm\<lparr>vm_dstack := s\<rparr>))"
  shows "safe Q (rbind (popIfBool vm) f)"
proof -
  let ?P = "\<lambda>(b :: bool, vm'). vm' = vm\<lparr>vm_dstack := vm_dstack vm'\<rparr> \<and> elemsOk (vm_dstack vm')"
  have "safe ?P (popDstack PopBool vm)"
    unfolding popDstack_def using assms(1) by (intro safe_rbind [OF safe_PopBool]) (auto dest: vmOk_parts)
  moreover have "safe ?P (rbind (popDstack PopByteArray vm) (\<lambda>(so, vm).
      if length so > 1 then Inl (WitnessError ErrMinimalIf)
      else if length so = 1 \<and> so ! 0 \<noteq> 0x01 then Inl (WitnessError ErrMinimalIf)
      else Inr (asBool so, vm)))"
    using assms(1) by (rule safe_popBytes) simp
  ultimately have "safe ?P (popIfBool vm)" unfolding popIfBool_def by simp
  then show ?thesis
  proof (rule safe_rbind)
    fix x assume "?P x"
    then show "safe Q (f x)" using assms(2) [of "vm_dstack (snd x)" "fst x"] by (cases x) simp
  qed
qed

lemma safe_control:
  assumes "vmOk vm"
  shows "safe vmOk (opcodeIf vm)" "safe vmOk (opcodeNotIf vm)" "safe vmOk (opcodeElse vm)" "safe vmOk (opcodeEndif vm)"
    "(\<forall>p. e \<noteq> Panic p) \<Longrightarrow> safe vmOk (abstractVerify e vm)" "safe vmOk (opcodeVerify vm)"
  using assms vmOk_parts [OF assms]
  by (auto simp: opcodeIf_def opcodeNotIf_def opcodeElse_def opcodeEndif_def abstractVerify_def opcodeVerify_def Let_def
      intro!: safe_popIfBool safe_popBool)

lemma safe_verifyLockTime: "safe (\<lambda>_. True) (verifyLockTime a b d)"
  by (simp add: verifyLockTime_def)

lemma safe_locktime:
  assumes "vmOk vm"
  shows "safe vmOk (opcodeCheckLockTimeVerify vm)" "safe vmOk (opcodeCheckSequenceVerify vm)"
  using assms unfolding opcodeCheckLockTimeVerify_def opcodeCheckSequenceVerify_def
  by (auto simp: Let_def intro!: safe_peek safe_rbind [OF safe_scriptNum] safe_rbind [OF safe_verifyLockTime])

lemma safe_stack:
  assumes "vmOk vm"
  shows "safe vmOk (opcodeToAltStack vm)" "safe vmOk (opcodeFromAltStack vm)" "safe vmOk (opcodeIfDup vm)"
    "safe vmOk (opcodePick vm)" "safe vmOk (opcodeRoll vm)" "safe vmOk (opcodeSize vm)" "safe vmOk (opcodeEqual vm)"
    "length (stk (vm_dstack vm)) < 2 ^ 40 \<Longrightarrow> safe vmOk (opcodeDepth vm)"
  using assms vmOk_parts [OF assms] unfolding opcodeFromAltStack_def
  by (auto simp: opcodeToAltStack_def opcodeIfDup_def opcodePick_def opcodeRoll_def opcodeSize_def opcodeEqual_def
      opcodeDepth_def Depth_def intro!: safe_popBytes safe_popInt safe_peek safe_onDstack safe_stack_ops safe_PushInt
      safe_rbind [OF safe_PopByteArray])

lemma safe_verify:
  "safe vmOk r \<Longrightarrow> (\<forall>p. e \<noteq> Panic p) \<Longrightarrow> safe vmOk (rbind r (abstractVerify e))"
  by (rule safe_rbind [where P = vmOk]) (auto intro: safe_control)

lemma safe_arith1:
  assumes "vmOk vm"
  shows "safe vmOk (opcode1Add vm)" "safe vmOk (opcode1Sub vm)" "safe vmOk (opcodeNegate vm)" "safe vmOk (opcodeAbs vm)"
    "safe vmOk (opcodeNot vm)" "safe vmOk (opcode0NotEqual vm)"
  using assms vmOk_parts [OF assms]
  by (auto simp: opcode1Add_def opcode1Sub_def opcodeNegate_def opcodeAbs_def opcodeNot_def opcode0NotEqual_def
      intro!: safe_popInt safe_pushInt)

lemma safe_binop:
  assumes "vmOk vm" "\<And>a b. \<bar>a\<bar> < 2 ^ 32 \<Longrightarrow> \<bar>b\<bar> < 2 ^ 32 \<Longrightarrow> \<bar>g a b\<bar> < 2 ^ 40"
  shows "safe vmOk (rbind (popDstack PopInt vm) (\<lambda>(v0, vm). rbind (popDstack PopInt vm) (\<lambda>(v1, vm). pushInt (g v0 v1) vm)))"
  using assms vmOk_parts [OF assms(1)] by (auto intro!: safe_popInt safe_pushInt)

lemma safe_arith2:
  assumes "vmOk vm"
  shows "safe vmOk (opcodeAdd vm)" "safe vmOk (opcodeSub vm)" "safe vmOk (opcodeBoolAnd vm)" "safe vmOk (opcodeBoolOr vm)"
    "safe vmOk (opcodeNumEqual vm)" "safe vmOk (opcodeNumNotEqual vm)" "safe vmOk (opcodeLessThan vm)"
    "safe vmOk (opcodeGreaterThan vm)" "safe vmOk (opcodeLessThanOrEqual vm)" "safe vmOk (opcodeGreaterThanOrEqual vm)"
    "safe vmOk (opcodeMin vm)" "safe vmOk (opcodeMax vm)"
  using assms
  by (auto simp: opcodeAdd_def opcodeSub_def opcodeBoolAnd_def opcodeBoolOr_def opcodeNumEqual_def opcodeNumNotEqual_def
      opcodeLessThan_def opcodeGreaterThan_def opcodeLessThanOrEqual_def opcodeGreaterThanOrEqual_def opcodeMin_def
      opcodeMax_def if_distrib [of "\<lambda>n. onDstack (PushInt n) _", symmetric] intro!: safe_binop)

lemma safe_arith3:
  assumes "vmOk vm"
  shows "safe vmOk (opcodeWithin vm)" "safe vmOk (opcodeEqualVerify vm)" "safe vmOk (opcodeNumEqualVerify vm)"
  using assms vmOk_parts [OF assms] unfolding opcodeEqualVerify_def opcodeNumEqualVerify_def
  by (auto simp: opcodeWithin_def intro!: safe_popInt safe_pushInt safe_verify safe_stack safe_arith2)

lemma safe_hash:
  assumes "vmOk vm" "cryptoOk c"
  shows "safe vmOk (opcodeRipemd160 c vm)" "safe vmOk (opcodeSha1 vm)" "safe vmOk (opcodeSha256 vm)"
    "safe vmOk (opcodeHash160 c vm)" "safe vmOk (opcodeHash256 vm)" "safe vmOk (opcodeCodeSeparator vm)"
proof -
  have len: "length (Sum256 b) = 32" "length (DoubleHashH b) = 32" for b
    using is_hash_Sum256 [of b] is_hash_DoubleHashH [of b] by (simp_all add: is_hash_def HashSize_def)
  have "length (ripemd160 c b) = 20" for b using assms(2) by (simp add: cryptoOk_def)
  with len show "safe vmOk (opcodeRipemd160 c vm)" "safe vmOk (opcodeSha1 vm)" "safe vmOk (opcodeSha256 vm)"
    "safe vmOk (opcodeHash160 c vm)" "safe vmOk (opcodeHash256 vm)"
    using assms(1) vmOk_parts [OF assms(1)]
    by (auto simp: opcodeRipemd160_def opcodeSha1_def opcodeSha256_def opcodeHash160_def opcodeHash256_def
        intro!: safe_popBytes)
  show "safe vmOk (opcodeCodeSeparator vm)"
    using assms(1) by (auto simp: opcodeCodeSeparator_def vmOk_def static_def inputOk_def fetchOk_def isWitnessVersionActive_def)
qed

section \<open>Signature checks\<close>

lemma safe_encodings [simp]:
  "safe (\<lambda>_. True) (checkHashTypeEncoding vm ht)" "safe (\<lambda>_. True) (checkPubKeyEncoding c vm pk)"
  by (simp_all add: checkHashTypeEncoding_def checkPubKeyEncoding_def Let_def)

lemma safe_sigEncoding [simp]: "safe (\<lambda>_. True) (checkSignatureEncoding c vm sig)"
  unfolding checkSignatureEncoding_def Let_def by (intro safe_if) simp_all

lemma safe_subScript: "static vm \<Longrightarrow> safe (\<lambda>_. True) (subScript vm)"
  by (simp add: subScript_def static_def inputOk_def)

lemma safe_parseBase: "sig \<noteq> [] \<Longrightarrow> safe (\<lambda>_. True) (parseBaseSigAndPubkey c pk sig vm)"
  by (auto simp: parseBaseSigAndPubkey_def Let_def split: option.splits
      intro!: safe_rbind [OF safe_encodings(1)] safe_rbind [OF safe_encodings(2)] safe_rbind [OF safe_sigEncoding])

lemma safe_newBase: "sig \<noteq> [] \<Longrightarrow> static vm \<Longrightarrow> safe (\<lambda>_. True) (newBaseSigVerifier c pk sig vm)"
  unfolding newBaseSigVerifier_def
  by (auto intro!: safe_rbind [OF safe_parseBase] safe_rbind [OF safe_subScript])

lemma safe_calcSignatureHash: "idx < length (tx_TxIn tx) \<Longrightarrow> safe (\<lambda>_. True) (calcSignatureHash s ht tx idx)"
  by (simp add: calcSignatureHash_def Let_def)

lemma safe_calcWitness: "safe (\<lambda>_. True) (calcWitnessSignatureHashRaw s m ht tx idx amt)"
  by (simp add: calcWitnessSignatureHashRaw_def Let_def)

text \<open>A verifier changes only the signature cache.\<close>

definition sameButCache :: "Engine \<Rightarrow> bool \<times> Engine \<Rightarrow> bool" where
  "sameButCache vm = (\<lambda>(valid, vm'). vm' = vm\<lparr>vm_sigCache := vm_sigCache vm'\<rparr>)"

lemma sameButCache_refl [simp]: "sameButCache vm (b, vm)"
  by (simp add: sameButCache_def)

lemma sameButCacheE:
  assumes "sameButCache vm x"
  obtains valid sc where "x = (valid, vm\<lparr>vm_sigCache := sc\<rparr>)"
  using assms by (cases x) (auto simp: sameButCache_def)

lemma sameButCache_trans:
  assumes "sameButCache (vm\<lparr>vm_sigCache := sc\<rparr>) x"
  shows "sameButCache vm x"
proof -
  obtain valid sc' where "x = (valid, vm\<lparr>vm_sigCache := sc'\<rparr>)" using assms by (rule sameButCacheE) simp
  then show ?thesis by (simp add: sameButCache_def)
qed

lemma sameButCache_verifySig: "sameButCache vm (verifySig c vm sig pk h sb pb)"
  by (simp add: sameButCache_def verifySig_def split: option.splits)

lemma sameButCache_taproot: "sameButCache vm (taprootVerifySig c t h vm)"
  by (simp add: sameButCache_def taprootVerifySig_def)

lemma safe_baseVerify: "static vm \<Longrightarrow> safe (sameButCache vm) (baseVerify c v vm)"
  unfolding baseVerify_def
  by (rule safe_rbind [OF safe_calcSignatureHash]) (auto simp: static_def inputOk_def sameButCache_verifySig)

lemma safe_sigHashesOf: "static vm \<Longrightarrow> safe (\<lambda>_. True) (sigHashesOf vm)"
  by (auto simp: sigHashesOf_def static_def inputOk_def)

lemma safe_segwitVerify: "static vm \<Longrightarrow> safe (sameButCache vm) (segwitVerify c v vm)"
  unfolding segwitVerify_def
  by (rule safe_rbind [OF safe_sigHashesOf]) (auto simp: sameButCache_verifySig split: sum.splits)

lemma safe_calcTaproot: "inputOk vm \<Longrightarrow>
    safe (\<lambda>_. True) (calcTaprootSignatureHashRaw (vm_hashCache vm) ht (vm_tx vm) (vm_txIdx vm) (vm_prevOutFetcher vm) opts)"
proof -
  assume st: "inputOk vm"
  have f: "safe (\<lambda>_. True) (FetchPrevOutput (vm_prevOutFetcher vm) (ti_PreviousOutPoint (tx_TxIn (vm_tx vm) ! vm_txIdx vm)))"
    using st by (simp add: inputOk_def fetchOk_def)
  have m: "safe (\<lambda>_. True) (midstate (vm_hashCache vm) fld)" for fld
    using st by (auto simp: inputOk_def midstate_def)
  show ?thesis unfolding calcTaprootSignatureHashRaw_def Let_def
    by (intro safe_if; (intro safe_rbind [where P = "\<lambda>_. True"] safe_if)?) (simp_all add: m f)
qed

lemma safe_taprootVerifyWith: "inputOk vm \<Longrightarrow> safe (sameButCache vm) (taprootVerifyWith c t opts vm)"
  using safe_calcTaproot [of vm "tv_hashType t" opts]
  by (auto simp: taprootVerifyWith_def sameButCache_taproot split: sum.splits engine_error.splits)

lemma safe_tapscriptVerify:
  "static vm \<Longrightarrow> vm_taprootCtx vm \<noteq> None \<Longrightarrow> safe (sameButCache vm) (tapscriptVerify c v vm)"
  by (auto simp: tapscriptVerify_def static_def split: option.splits intro: safe_taprootVerifyWith)

lemma safe_newTaproot: "safe (\<lambda>_. True) (newTaprootSigVerifier c pk sig annex)"
  by (auto simp: newTaprootSigVerifier_def parseTaprootSigAndPubKey_def split: option.splits)

lemma safe_newTapscript: "vm_taprootCtx vm \<noteq> None \<Longrightarrow> safe (\<lambda>_. True) (newBaseTapscriptSigVerifier c pk sig vm)"
  by (auto simp: newBaseTapscriptSigVerifier_def intro!: safe_rbind [OF safe_newTaproot])

lemma safe_finish:
  assumes "vmOk vm" "safe (sameButCache vm) r"
  shows "safe vmOk (rbind r (finishCheckSig sig))"
  using assms(2)
proof (rule safe_rbind)
  fix x assume "sameButCache vm x"
  then obtain valid sc where x: "x = (valid, vm\<lparr>vm_sigCache := sc\<rparr>)" by (cases x) (auto simp: sameButCache_def)
  show "safe vmOk (finishCheckSig sig x)" using assms(1) by (auto simp: x finishCheckSig_def vmOk_def)
qed

lemma static_ctx: "static vm \<Longrightarrow> vm_taprootCtx vm \<noteq> None \<Longrightarrow> static (vm\<lparr>vm_taprootCtx := Some ctx\<rparr>)"
  by (simp add: static_def inputOk_def fetchOk_def isWitnessVersionActive_def)

lemma vmOk_ctx: "vmOk vm \<Longrightarrow> vm_taprootCtx vm \<noteq> None \<Longrightarrow> vmOk (vm\<lparr>vm_taprootCtx := Some ctx\<rparr>)"
  by (simp add: vmOk_def static_ctx)

lemma safe_tally:
  assumes "vmOk vm" "vm_taprootCtx vm \<noteq> None"
  shows "safe (\<lambda>vm. vmOk vm \<and> vm_taprootCtx vm \<noteq> None) (tapscriptTally ctx sig vm)"
  using assms by (auto simp: tapscriptTally_def tallysigOp_def Let_def vmOk_ctx)

text \<open>
  A check of a signature needs a verifier: outside tapscript a witness program in effect is of version
  zero.\<close>

definition sigReady :: "Engine \<Rightarrow> bool" where
  "sigReady vm \<longleftrightarrow> vm_witnessProgram vm = None \<or> vm_witnessVersion vm = 0 \<or> vm_taprootCtx vm \<noteq> None"

lemma safe_tapscriptSig:
  assumes "vmOk vm" "vm_taprootCtx vm \<noteq> None"
  shows "safe vmOk (rbind (newBaseTapscriptSigVerifier c pk sig vm) (\<lambda>v.
    rbind (tapscriptVerify c v vm) (finishCheckSig sig)))"
  by (rule safe_rbind [OF safe_newTapscript [OF assms(2)]])
    (rule safe_finish [OF assms(1) safe_tapscriptVerify [OF vmOk_parts(3) [OF assms(1)] assms(2)]])

lemma safe_checkSigBody:
  assumes "vmOk vm" "sigReady vm" "length fullSigBytes \<le> MaxScriptElementSize"
  shows "safe vmOk (if vm_taprootCtx vm = None \<and> length fullSigBytes < 1 then Inr (pushBool False vm)
       else if vm_witnessProgram vm = None then
         (case newBaseSigVerifier c pkBytes fullSigBytes vm of
            Inl err \<Rightarrow> if isScriptErr err then Inl err else Inr (pushBool False vm)
          | Inr v \<Rightarrow> rbind (baseVerify c v vm) (finishCheckSig fullSigBytes))
       else if isWitnessVersionActive vm BaseSegwitWitnessVersion then
         (case newBaseSigVerifier c pkBytes fullSigBytes vm of
            Inl err \<Rightarrow> if isScriptErr err then Inl err else Inr (pushBool False vm)
          | Inr v \<Rightarrow> rbind (segwitVerify c v vm) (finishCheckSig fullSigBytes))
       else
         case vm_taprootCtx vm of
           None \<Rightarrow> Inl (Panic ''nil sigVerifier'')
         | Some ctx \<Rightarrow>
             rbind (tapscriptTally ctx fullSigBytes vm) (\<lambda>vm.
               if length pkBytes = 0 then Inl (TaprootError ErrTaprootPubkeyIsEmpty)
               else if length fullSigBytes = 0 then Inr (pushD [] vm)
               else
                 rbind (newBaseTapscriptSigVerifier c pkBytes fullSigBytes vm) (\<lambda>v.
                 rbind (tapscriptVerify c v vm) (finishCheckSig fullSigBytes))))"
proof -
  have st: "static vm" using assms(1) by (simp add: vmOk_def)
  have false: "vmOk (pushBool False vm)" using assms(1) by (simp add: vmOk_def)
  have base: "safe (\<lambda>_. True) (newBaseSigVerifier c pkBytes fullSigBytes vm)" if "fullSigBytes \<noteq> []"
    using safe_newBase that st by blast
  have ctx: "vm_witnessProgram vm = None \<or> isWitnessVersionActive vm 0 \<Longrightarrow> vm_taprootCtx vm = None"
    using st by (auto simp: static_def inputOk_def isWitnessVersionActive_def)
  show ?thesis
  proof (intro safe_if)
    show "safe vmOk (Inr (pushBool False vm))" using false by simp
  next
    assume "\<not> (vm_taprootCtx vm = None \<and> length fullSigBytes < 1)" "vm_witnessProgram vm = None"
    then have "fullSigBytes \<noteq> []" using ctx by auto
    with base false safe_finish [OF assms(1) safe_baseVerify [OF st]]
    show "safe vmOk (case newBaseSigVerifier c pkBytes fullSigBytes vm of
            Inl err \<Rightarrow> if isScriptErr err then Inl err else Inr (pushBool False vm)
          | Inr v \<Rightarrow> rbind (baseVerify c v vm) (finishCheckSig fullSigBytes))"
      by (auto split: sum.splits)
  next
    assume "\<not> (vm_taprootCtx vm = None \<and> length fullSigBytes < 1)" "isWitnessVersionActive vm 0"
    then have "fullSigBytes \<noteq> []" using ctx by auto
    with base false safe_finish [OF assms(1) safe_segwitVerify [OF st]]
    show "safe vmOk (case newBaseSigVerifier c pkBytes fullSigBytes vm of
            Inl err \<Rightarrow> if isScriptErr err then Inl err else Inr (pushBool False vm)
          | Inr v \<Rightarrow> rbind (segwitVerify c v vm) (finishCheckSig fullSigBytes))"
      by (auto split: sum.splits)
  next
    assume "vm_witnessProgram vm \<noteq> None" "\<not> isWitnessVersionActive vm 0"
    then obtain ctx where ctx: "vm_taprootCtx vm = Some ctx" using assms(2) by (auto simp: sigReady_def isWitnessVersionActive_def)
    show "safe vmOk (case vm_taprootCtx vm of
           None \<Rightarrow> Inl (Panic ''nil sigVerifier'')
         | Some ctx \<Rightarrow>
             rbind (tapscriptTally ctx fullSigBytes vm) (\<lambda>vm.
               if length pkBytes = 0 then Inl (TaprootError ErrTaprootPubkeyIsEmpty)
               else if length fullSigBytes = 0 then Inr (pushD [] vm)
               else
                 rbind (newBaseTapscriptSigVerifier c pkBytes fullSigBytes vm) (\<lambda>v.
                 rbind (tapscriptVerify c v vm) (finishCheckSig fullSigBytes))))"
      unfolding ctx option.case
      by (rule safe_rbind [OF safe_tally [OF assms(1)]]) (auto simp: ctx safe_tapscriptSig)
  qed
qed

lemma sigReady_dstack [simp]: "sigReady (vm\<lparr>vm_dstack := s\<rparr>) = sigReady vm"
  by (simp add: sigReady_def)

lemma safe_checkSig:
  assumes "vmOk vm" "sigReady vm"
  shows "safe vmOk (opcodeCheckSig c vm)" "safe vmOk (opcodeCheckSigVerify c vm)"
proof -
  show "safe vmOk (opcodeCheckSig c vm)"
    unfolding opcodeCheckSig_def
    by (intro safe_popBytes, use assms vmOk_parts [OF assms(1)] in simp, unfold prod.case,
      intro safe_popBytes, use assms vmOk_parts [OF assms(1)] in simp, unfold prod.case, rule safe_checkSigBody)
      (use assms vmOk_parts [OF assms(1)] in simp_all)
  then show "safe vmOk (opcodeCheckSigVerify c vm)"
    unfolding opcodeCheckSigVerify_def by (rule safe_verify) simp
qed

lemma safe_assoc: "rbind (rbind r f) g = rbind r (\<lambda>x. rbind (f x) g)"
  by (cases r) simp_all

lemma safe_checkSigAdd:
  assumes "vmOk vm"
  shows "safe vmOk (opcodeCheckSigAdd c vm)"
proof (cases "vm_taprootCtx vm")
  case (Some ctx)
  have tail: "safe vmOk (rbind (tapscriptTally ctx sig vm) (\<lambda>vm.
      if length pk = 0 then Inl (TaprootError ErrTaprootPubkeyIsEmpty)
      else if length sig = 0 then pushInt n vm
      else
        rbind (newBaseTapscriptSigVerifier c pk sig vm) (\<lambda>v.
        rbind (tapscriptVerify c v vm) (\<lambda>(valid, vm). if \<not> valid then Inl ErrNullFail else pushInt (n + 1) vm))))"
    if "vmOk vm" "vm_taprootCtx vm \<noteq> None" "\<bar>n\<bar> < 2 ^ 32" for sig pk n vm
  proof (rule safe_rbind [OF safe_tally [OF that(1,2)]], intro safe_if)
    fix vm assume vm: "vmOk vm \<and> vm_taprootCtx vm \<noteq> None"
    then show "safe vmOk (pushInt n vm)" using that(3) by (intro safe_pushInt) auto
    have "safe vmOk (rbind (tapscriptVerify c v vm) (\<lambda>(valid, vm). if \<not> valid then Inl ErrNullFail else pushInt (n + 1) vm))" for v
    proof (rule safe_rbind [OF safe_tapscriptVerify])
      fix x assume "sameButCache vm x"
      then obtain valid sc where x: "x = (valid, vm\<lparr>vm_sigCache := sc\<rparr>)" by (cases x) (auto simp: sameButCache_def)
      have "safe vmOk (pushInt (n + 1) (vm\<lparr>vm_sigCache := sc\<rparr>))" using vm that(3) by (intro safe_pushInt) auto
      then show "safe vmOk (case x of (valid, vm) \<Rightarrow> if \<not> valid then Inl ErrNullFail else pushInt (n + 1) vm)"
        by (simp add: x)
    qed (use vm vmOk_parts in auto)
    then show "safe vmOk (rbind (newBaseTapscriptSigVerifier c pk sig vm) (\<lambda>v.
        rbind (tapscriptVerify c v vm) (\<lambda>(valid, vm). if \<not> valid then Inl ErrNullFail else pushInt (n + 1) vm)))"
      using vm by (intro safe_rbind [OF safe_newTapscript]) auto
  qed simp
  show ?thesis unfolding opcodeCheckSigAdd_def Some option.case
    by (rule safe_popBytes [OF assms], unfold prod.case, rule safe_popInt, (use assms vmOk_parts in simp)[1], unfold prod.case,
      rule safe_popBytes, (use assms vmOk_parts in simp)[1], unfold prod.case, rule tail)
      (use assms vmOk_parts [OF assms] Some in simp_all)
qed (simp add: opcodeCheckSigAdd_def)

lemma safe_popLoop:
  assumes "vmOk vm" "\<And>xs s. length xs = n \<Longrightarrow> elemsOk s \<Longrightarrow> safe Q (f (xs, vm\<lparr>vm_dstack := s\<rparr>))"
  shows "safe Q (rbind (popLoop n vm) f)"
  using assms
proof (induction n arbitrary: vm f)
  case 0
  from 0(2) [of "[]" "vm_dstack vm"] show ?case using 0(1) by (simp add: vmOk_def)
next
  case (Suc n)
  show ?case unfolding popLoop.simps safe_assoc
  proof (rule safe_popBytes [OF Suc.prems(1)], unfold prod.case safe_assoc)
    fix so s assume "elemsOk s"
    then have ok: "vmOk (vm\<lparr>vm_dstack := s\<rparr>)" using Suc.prems(1) by (simp add: vmOk_def)
    show "safe Q (rbind (popLoop n (vm\<lparr>vm_dstack := s\<rparr>)) (\<lambda>x. rbind (case x of (xs, vm) \<Rightarrow> Inr (so # xs, vm)) f))"
      using Suc.prems(2) by (intro Suc.IH [OF ok]) simp
  qed
qed

lemma safe_multiSigHash: "static vm \<Longrightarrow> safe (\<lambda>_. True) (multiSigHash script ht vm)"
  unfolding multiSigHash_def
  by (auto simp: static_def inputOk_def intro!: safe_rbind [OF safe_sigHashesOf] safe_calcWitness safe_calcSignatureHash)

lemma safe_parseSigInfo: "safe (\<lambda>_. True) (parseSigInfo c vm si)"
  by (auto simp: parseSigInfo_def Let_def split: option.splits
      intro!: safe_rbind [OF safe_encodings(1)] safe_rbind [OF safe_sigEncoding])

lemma safe_multiSigLoop: "static vm \<Longrightarrow> safe (sameButCache vm) (multiSigLoop c script keys sigs vm)"
proof (induction keys arbitrary: sigs vm)
  case Nil
  then show ?case by (cases sigs) simp_all
next
  case (Cons key keys)
  show ?case
  proof (cases sigs)
    case (Cons si sigs')
    have rec: "safe (sameButCache vm) (multiSigLoop c script keys xs vm)" for xs using Cons.IH [OF Cons.prems] .
    have rec': "safe (sameButCache vm) (case verifySig c vm sig pk h sb key of
        (valid, vm) \<Rightarrow> if valid then multiSigLoop c script keys xs vm else multiSigLoop c script keys ys vm)" for sig pk h sb xs ys
    proof -
      obtain valid sc where v: "verifySig c vm sig pk h sb key = (valid, vm\<lparr>vm_sigCache := sc\<rparr>)"
        using sameButCacheE [OF sameButCache_verifySig] by metis
      have "safe (sameButCache vm) (multiSigLoop c script keys zs (vm\<lparr>vm_sigCache := sc\<rparr>))" for zs
        using Cons.prems by (intro safe_mono [OF Cons.IH]) (simp_all add: sameButCache_trans)
      then show ?thesis by (simp add: v)
    qed
    have body: "safe (sameButCache vm) (rbind (checkPubKeyEncoding c vm key) (\<lambda>_.
        case ParsePubKey c key of None \<Rightarrow> multiSigLoop c script keys xs vm
        | Some pk \<Rightarrow> rbind (multiSigHash script ht vm) (\<lambda>h. case verifySig c vm sig pk h sb key of
            (valid, vm) \<Rightarrow> if valid then multiSigLoop c script keys ys vm else multiSigLoop c script keys xs vm)))" for xs ys ht sig sb
      by (rule safe_rbind [OF safe_encodings(2)])
        (auto simp only: option.case rec intro!: safe_rbind [OF safe_multiSigHash [OF Cons.prems] rec'] split: option.split)
    show ?thesis unfolding Cons multiSigLoop.simps Let_def
      by (intro safe_if safe_rbind [OF safe_parseSigInfo] safe_Inr [THEN iffD2] rec sameButCache_refl)
        (auto simp only: prod.case option.case rec body split: prod.split option.split)
  qed simp
qed

lemma safe_checkMultiSig:
  assumes "vmOk vm"
  shows "safe vmOk (opcodeCheckMultiSig c vm)" "safe vmOk (opcodeCheckMultiSigVerify c vm)"
proof -
  have fin: "safe vmOk (rbind (multiSigLoop c script keys sigs vm) (\<lambda>(success, vm).
      if \<not> success \<and> hasFlag vm ScriptVerifyNullFail \<and> q then Inl ErrNullFail else Inr (pushBool success vm)))"
    if "vmOk vm" for script keys sigs q vm
  proof (rule safe_rbind [OF safe_multiSigLoop])
    fix x assume "sameButCache vm x"
    then obtain valid sc where x: "x = (valid, vm\<lparr>vm_sigCache := sc\<rparr>)" by (rule sameButCacheE)
    show "safe vmOk (case x of (success, vm) \<Rightarrow>
        if \<not> success \<and> hasFlag vm ScriptVerifyNullFail \<and> q then Inl ErrNullFail else Inr (pushBool success vm))"
      using that by (auto simp: x vmOk_def)
  qed (use that vmOk_parts in blast)
  have sub: "safe vmOk (rbind (subScript vm) f)" if "vmOk vm" "\<And>x. safe vmOk (f x)" for vm f
    using that vmOk_parts by (blast intro: safe_rbind [OF safe_subScript])
  have ok: "elemsOk (vm_dstack vm)" "elemsOk (vm_astack vm)" "static vm" using vmOk_parts [OF assms] by simp_all
  show one: "safe vmOk (opcodeCheckMultiSig c vm)"
    unfolding opcodeCheckMultiSig_def Let_def
    apply (rule safe_if, simp)
    apply (rule safe_popInt [OF assms], unfold prod.case)
    apply (intro safe_if, simp, simp, simp)
    apply (rule safe_popLoop, simp add: ok, unfold prod.case)
    apply (rule safe_popInt, simp add: ok, unfold prod.case)
    apply (intro safe_if, simp, simp)
    apply (rule safe_popLoop, simp add: ok, unfold prod.case)
    apply (rule safe_popBytes, simp add: ok, unfold prod.case)
    apply (rule safe_if, simp)
    apply (rule sub, simp add: ok)
    apply (rule fin, simp add: ok)
    done
  show "safe vmOk (opcodeCheckMultiSigVerify c vm)" unfolding opcodeCheckMultiSigVerify_def
    by (rule safe_verify [OF one]) simp
qed

section \<open>One opcode\<close>

lemma safe_opcodeArray:
  assumes "vmOk vm" "cryptoOk c" "length (stk (vm_dstack vm)) < 2 ^ 40"
  shows "list_all (\<lambda>(op, handler). (op \<in> {OP_CHECKSIG, OP_CHECKSIGVERIFY} \<longrightarrow> sigReady vm) \<longrightarrow> safe vmOk (handler vm))
    (opcodeArray c)"
proof -
  have stack: "safe vmOk (onDstack f vm)" if "safe elemsOk (f (vm_dstack vm))" for f
    using assms(1) that by (rule safe_onDstack)
  have elems: "elemsOk (vm_dstack vm)" using assms(1) by (simp add: vmOk_def)
  note rules = safe_constants [OF assms(1)] safe_control [OF assms(1)] safe_locktime [OF assms(1)] safe_stack(1-7) [OF assms(1)]
    safe_stack(8) [OF assms(1,3)] stack safe_stack_ops [OF elems]
    safe_arith1 [OF assms(1)] safe_arith2 [OF assms(1)] safe_arith3 [OF assms(1)] safe_hash [OF assms(1,2)]
    safe_checkSigAdd [OF assms(1)] safe_checkMultiSig [OF assms(1)]
  show ?thesis unfolding opcodeArray_def list.pred_inject prod.case
    apply (simp only: rules simp_thms)
    apply (simp add: safe_checkSig [OF assms(1)])
    done
qed

lemma safe_opfunc:
  assumes "vmOk vm" "cryptoOk c" "length (stk (vm_dstack vm)) < 2 ^ 40"
    and "op \<in> {OP_CHECKSIG, OP_CHECKSIGVERIFY} \<Longrightarrow> sigReady vm" "op \<le> OP_16 \<Longrightarrow> length data \<le> MaxScriptElementSize"
  shows "safe vmOk (opfunc c op data vm)"
proof (cases "op \<le> OP_16 \<and> (op \<le> OP_PUSHDATA4 \<or> OP_1 \<le> op)")
  case True
  then show ?thesis using assms(5) by (auto simp: opfunc_def safe_constants [OF assms(1)] not_le)
next
  case False
  have "op \<le> OP_16" if "op \<le> OP_PUSHDATA4" using that by (rule order_trans) simp
  with False have "\<not> op \<le> OP_PUSHDATA4" "\<not> (OP_1 \<le> op \<and> op \<le> OP_16)" by blast+
  moreover from this(1) have "op \<noteq> OP_0" by auto
  ultimately have "opfunc c op data = (case map_of (opcodeArray c) op of Some handler \<Rightarrow> handler | None \<Rightarrow> opcodeInvalid)"
    by (simp only: opfunc_def if_False)
  then show ?thesis using safe_opcodeArray [OF assms(1-3)] assms(4)
    by (auto simp: list_all_iff safe_constants [OF assms(1)] split: option.split dest!: map_of_SomeD)
qed

lemma safe_executeOpcode:
  assumes "vmOk vm" "cryptoOk c" "length (stk (vm_dstack vm)) < 2 ^ 40"
    and "op \<in> {OP_CHECKSIG, OP_CHECKSIGVERIFY} \<Longrightarrow> sigReady vm"
  shows "safe vmOk (executeOpcode c op data vm)"
proof -
  let ?P = "\<lambda>vm'. (\<exists>n. vm' = vm\<lparr>vm_numOps := n\<rparr>) \<and> (op \<le> OP_16 \<longrightarrow> length data \<le> MaxScriptElementSize)"
  have self: "\<exists>n. vm = vm\<lparr>vm_numOps := n\<rparr>" by (rule exI [of _ "vm_numOps vm"]) simp
  have count: "safe ?P (if vm_taprootCtx vm = None \<and> op > OP_16 then
        if vm_numOps (vm\<lparr>vm_numOps := vm_numOps vm + 1\<rparr>) > MaxOpsPerScript then Inl ErrTooManyOperations
        else Inr (vm\<lparr>vm_numOps := vm_numOps vm + 1\<rparr>)
      else if length data > MaxScriptElementSize then Inl ErrElementTooBig else Inr vm)"
    using self by (auto simp: not_less not_le)
  have minimal: "safe (\<lambda>_. True) (checkMinimalDataPush op data)" by (simp add: checkMinimalDataPush_def Let_def)
  have run: "safe vmOk (opfunc c op data vm')" "vmOk vm'" if "?P vm'" for vm'
  proof -
    from that obtain n where vm': "vm' = vm\<lparr>vm_numOps := n\<rparr>" and data: "op \<le> OP_16 \<longrightarrow> length data \<le> MaxScriptElementSize"
      by (elim conjE exE)
    show "vmOk vm'" using assms(1) by (simp add: vm')
    show "safe vmOk (opfunc c op data vm')" using assms(1,3,4) data
      by (intro safe_opfunc [OF _ assms(2)]) (simp_all add: vm' sigReady_def)
  qed
  have body: "safe vmOk (if \<not> isBranchExecuting vm' \<and> \<not> isOpcodeConditional op then Inr vm'
      else rbind (if verifyMinimalData (vm_dstack vm') \<and> isBranchExecuting vm' \<and> op \<le> OP_PUSHDATA4
        then checkMinimalDataPush op data else Inr ()) (\<lambda>_. opfunc c op data vm'))" if "?P vm'" for vm'
    by (rule safe_if, simp only: safe_Inr run(2) [OF that], rule safe_rbind [where P = "\<lambda>_. True"])
      (simp_all only: minimal safe_Inr run(1) [OF that] split: if_split, simp)
  show ?thesis unfolding executeOpcode_def Let_def
    by (rule safe_if, simp, rule safe_if, simp, rule safe_rbind [OF count body])
qed

section \<open>Scripts without signature checks\<close>

definition quiet :: "(byte \<times> byte list option \<times> byte list) list \<Rightarrow> bool" where
  "quiet toks \<longleftrightarrow> (\<forall>tok \<in> set toks. fst tok \<notin> {OP_CHECKSIG, OP_CHECKSIGVERIFY})"

lemma quiet_simps [simp]:
  "quiet []" "quiet (tok # toks) \<longleftrightarrow> fst tok \<notin> {OP_CHECKSIG, OP_CHECKSIGVERIFY} \<and> quiet toks"
  by (auto simp: quiet_def)

lemma token1_head:
  assumes "token1 s = Some (op, data, n)"
  shows "s = op # tl s" and "opcodeLength op = 1 \<longleftrightarrow> n = 1 \<and> data = None"
  using assms by (auto simp: token1_def Let_def split: list.splits if_splits)

lemma token1_op: "opcodeLength op = 1 \<Longrightarrow> token1 (op # rest) = Some (op, None, 1)"
  by (simp add: token1_def)

lemma parseScript_op: "opcodeLength op = 1 \<Longrightarrow> parseScript (op # rest) = (op, None, [op]) # parseScript rest"
  using parseScript_Some [OF token1_op, of op rest] by simp

lemma token1_push:
  assumes "0 < unat op" "unat op \<le> 75" "length d = unat op"
  shows "token1 (op # d @ rest) = Some (op, Some d, Suc (unat op))"
proof -
  have "opcodeLength op = uint op + 1" using assms(1,2) by (simp add: opcodeLength_def word_le_nat_alt word_less_nat_alt)
  then have op: "opcodeLength op = int (Suc (length d))" using assms(3) by simp
  show ?thesis using assms(1) unfolding assms(3) [symmetric] token1_def list.case op Let_def by auto
qed

lemma parseScript_data:
  assumes "0 < unat op" "unat op \<le> 75" "length d = unat op"
  shows "parseScript (op # d @ rest) = (op, Some d, op # d) # parseScript rest"
  using parseScript_Some [OF token1_push [OF assms], of rest] assms(3) by simp

lemma parse_scriptHash:
  assumes "isScriptHashScript s"
  obtains h where "length h = 20"
    "parseScript s = [(OP_HASH160, None, [OP_HASH160]), (OP_DATA_20, Some h, OP_DATA_20 # h), (OP_EQUAL, None, [OP_EQUAL])]"
proof -
  from assms obtain h where h: "length h = 20" "s = [OP_HASH160, OP_DATA_20] @ h @ [OP_EQUAL]"
    by (auto simp: isScriptHashScript_def extractScriptHash_iff)
  have "parseScript s = [(OP_HASH160, None, [OP_HASH160]), (OP_DATA_20, Some h, OP_DATA_20 # h), (OP_EQUAL, None, [OP_EQUAL])]"
    using h parseScript_data [of OP_DATA_20 h "[OP_EQUAL]"] by (simp add: parseScript_op opcodeLength_def)
  with h(1) show thesis by (rule that)
qed

lemma quiet_scriptHash: "isScriptHashScript s \<Longrightarrow> quiet (parseScript s)"
  by (erule parse_scriptHash) simp

lemma quiet_witnessProgram:
  assumes "isWitnessProgramScript s"
  shows "quiet (parseScript s)"
proof -
  obtain t1 t2 where N1: "Next (MakeScriptTokenizer 0 s) = (True, t1)" "isSmallInt (the (tz_op t1))"
    and N2: "Next t1 = (True, t2)" "Done t2" "tz_err t2 = None" and len: "4 \<le> length s"
    using assms by (auto simp: isWitnessProgramScript_def extractWitnessProgramInfo_def Let_def split: prod.splits if_splits)
  have nd: "\<not> Done (MakeScriptTokenizer 0 s)" "\<not> Done t1" using N1(1) N2(1) by (auto simp: Next_def)
  have "tokens t2 = []" using tokens_not_Done [of t2] N2(2) by blast
  then have toks: "parseScript s = [(the (tz_op t1), tz_data t1, slice 0 (tz_offset t1) s),
      (the (tz_op t2), tz_data t2, slice (tz_offset t1) (tz_offset t2) (tz_script t1))]"
    using tokens_step [OF N1(1)] tokens_step [OF N2(1)] by simp (simp add: MakeScriptTokenizer_def)
  obtain n1 where n1: "token1 s = Some (the (tz_op t1), tz_data t1, n1)" "tz_offset t1 = n1" "tz_script t1 = s"
    using N1(1) nd(1) by (auto simp: Next_token1 MakeScriptTokenizer_def split: option.splits)
  have "opcodeLength (the (tz_op t1)) = 1" using N1(2) opcodeLength_small by (auto simp: isSmallInt_def)
  then have "n1 = 1" using token1_head(2) [OF n1(1)] by simp
  moreover obtain n2 where n2: "token1 (drop n1 s) = Some (the (tz_op t2), tz_data t2, n2)" "tz_offset t2 = n1 + n2" "tz_script t2 = s"
    using N2(1) nd(2) n1 by (auto simp: Next_token1 split: option.splits)
  ultimately have "n2 \<noteq> 1" using N2(2,3) len by (simp add: Done_def)
  then have "opcodeLength (the (tz_op t2)) \<noteq> 1" using token1_head(2) [OF n2(1)] by simp
  then have "the (tz_op t2) \<notin> {OP_CHECKSIG, OP_CHECKSIGVERIFY}" by (auto simp: opcodeLength_def)
  moreover have "the (tz_op t1) \<notin> {OP_CHECKSIG, OP_CHECKSIGVERIFY}" using N1(2) by (auto simp: isSmallInt_def)
  ultimately show ?thesis by (simp add: toks)
qed

end
