(* ===== verification/Script_Run.thy ===== *)
theory Script_Run
  imports Script_Safety
begin

text \<open>
  Runs of the engine: the invariant of the states between two steps, that a run does not panic, and the
  bounds it keeps.\<close>

section \<open>States between two steps\<close>

abbreviation inputWitness :: "Engine \<Rightarrow> byte list list" where
  "inputWitness vm \<equiv> wit_items (ti_Witness (tx_TxIn (vm_tx vm) ! vm_txIdx vm))"

abbreviation maxDepth :: "Engine \<Rightarrow> nat" where
  "maxDepth vm \<equiv> max 1000 (length (inputWitness vm))"

text \<open>
  What holds of every state: sizes, the input, the script of a pay to script hash output, and where a
  taproot context may exist.\<close>

definition baseOk :: "Engine \<Rightarrow> bool" where
  "baseOk vm \<longleftrightarrow>
     elemsOk (vm_dstack vm) \<and> elemsOk (vm_astack vm) \<and> length (stk (vm_dstack vm)) + length (stk (vm_astack vm)) \<le> maxDepth vm \<and>
     length (inputWitness vm) < 2 ^ 40 \<and> inputOk vm \<and> vm_version vm = 0 \<and>
     (\<forall>x \<in> set (vm_savedFirstStack vm). length x \<le> MaxScriptElementSize) \<and> length (vm_savedFirstStack vm) \<le> maxDepth vm \<and>
     (vm_bip16 vm \<longrightarrow> isScriptHashScript (vm_scripts vm ! 1)) \<and>
     (vm_taprootCtx vm \<noteq> None \<longrightarrow>
        isWitnessVersionActive vm TaprootWitnessVersion \<and> \<not> vm_bip16 vm \<and> 2 \<le> vm_scriptIdx vm)"

text \<open>The state at the start of a script.\<close>

definition fresh :: "Engine \<Rightarrow> bool" where
  "fresh vm \<longleftrightarrow> vm_condStack vm = [] \<and> vm_tokenizer vm = MakeScriptTokenizer 0 (vm_scripts vm ! vm_scriptIdx vm)"

text \<open>
  Where a witness program of a version above 0 stands that has no taproot context: it is the output script, or the
  signature script pushes it and it is the script that is run third.\<close>

definition nested :: "Engine \<Rightarrow> bool" where
  "nested vm \<longleftrightarrow> (\<exists>prog. isWitnessProgramScript prog \<and>
     ((vm_scriptIdx vm = 0 \<and> fresh vm \<and> stk (vm_dstack vm) = [] \<and> vm_scripts vm ! 0 = word_of_nat (length prog) # prog) \<or>
      (vm_scriptIdx vm = 1 \<and> vm_savedFirstStack vm = [prog]) \<or> vm_scriptIdx vm = 2))"

definition runOk :: "Engine \<Rightarrow> bool" where
  "runOk vm \<longleftrightarrow>
     baseOk vm \<and> length (vm_scripts vm) = max 2 (Suc (vm_scriptIdx vm)) \<and>
     tz_script (vm_tokenizer vm) = vm_scripts vm ! vm_scriptIdx vm \<and>
     tz_offset (vm_tokenizer vm) \<le> length (vm_scripts vm ! vm_scriptIdx vm) \<and>
     vm_lastCodeSep vm \<le> length (vm_scripts vm ! vm_scriptIdx vm) \<and>
     (vm_bip16 vm \<and> vm_scriptIdx vm = 1 \<and> vm_savedFirstStack vm = [] \<longrightarrow> fresh vm \<and> stk (vm_dstack vm) = []) \<and>
     (\<not> sigReady vm \<longrightarrow>
        quiet (tokens (vm_tokenizer vm)) \<and> (if vm_bip16 vm then nested vm else vm_scriptIdx vm = 1))"

text \<open>The state when a script has ended, and when the next has been chosen.\<close>

definition endOk :: "Engine \<Rightarrow> bool" where
  "endOk vm \<longleftrightarrow>
     baseOk vm \<and> vm_condStack vm = [] \<and> length (vm_scripts vm) = max 2 (Suc (vm_scriptIdx vm)) \<and>
     (vm_bip16 vm \<and> vm_scriptIdx vm = 1 \<longrightarrow> vm_savedFirstStack vm \<noteq> []) \<and>
     (\<not> sigReady vm \<longrightarrow>
        (if vm_bip16 vm then \<exists>prog. isWitnessProgramScript prog \<and>
           ((vm_scriptIdx vm = 0 \<and> stk (vm_dstack vm) = [prog]) \<or>
            (vm_scriptIdx vm = 1 \<and> vm_savedFirstStack vm = [prog]) \<or> vm_scriptIdx vm = 2)
         else vm_scriptIdx vm = 1))"

definition nextOk :: "Engine \<Rightarrow> bool" where
  "nextOk vm \<longleftrightarrow>
     baseOk vm \<and> vm_condStack vm = [] \<and> 1 \<le> vm_scriptIdx vm \<and> length (vm_scripts vm) \<in> {vm_scriptIdx vm, Suc (vm_scriptIdx vm)} \<and>
     (vm_bip16 vm \<and> vm_scriptIdx vm = 1 \<and> vm_savedFirstStack vm = [] \<longrightarrow> stk (vm_dstack vm) = []) \<and>
     (\<not> sigReady vm \<and> vm_scriptIdx vm < length (vm_scripts vm) \<longrightarrow>
        vm_bip16 vm \<and> (\<exists>prog. isWitnessProgramScript prog \<and>
          ((vm_scriptIdx vm = 1 \<and> vm_savedFirstStack vm = [prog]) \<or> (vm_scriptIdx vm = 2 \<and> vm_scripts vm ! 2 = prog))))"

section \<open>Witness programs\<close>

lemma safe_pushScript:
  assumes "Q (SetStack data (vm\<lparr>vm_scripts := vm_scripts vm @ [script]\<rparr>))"
  shows "safe Q (pushScript script data vm)"
  using assms by (simp add: pushScript_def split: option.split)

lemma safe_keySpend:
  assumes "inputOk vm"
  shows "safe (\<lambda>vm'. \<exists>sc. vm' = vm\<lparr>vm_sigCache := sc\<rparr>) (VerifyTaprootKeySpend c prog sig vm)"
  unfolding VerifyTaprootKeySpend_def Let_def taprootVerify_def
  by (intro safe_rbind [OF safe_newTaproot] safe_rbind [OF safe_taprootVerifyWith [OF assms]])
    (auto elim!: sameButCacheE)

lemma safe_leafCommitment: "cryptoOk c \<Longrightarrow> safe (\<lambda>_. True) (VerifyTaprootLeafCommitment c cb prog script)"
  by (auto simp: VerifyTaprootLeafCommitment_def ComputeTaprootOutputKey_def cryptoOk_def split: option.split)

lemma safe_ParseControlBlock: "safe (\<lambda>_. True) (ParseControlBlock c b)"
  by (simp add: ParseControlBlock_def split: option.split)

lemmas ok_defs = nextOk_def baseOk_def inputOk_def fetchOk_def sigReady_def isWitnessVersionActive_def SetStack_def
  setStack_stk elemsOk_def

text \<open>A script for a witness program is run with the items of the witness.\<close>

lemma nextOk_pushed:
  assumes "endOk vm" "vm_scriptIdx vm \<in> {1, 2}" "vm_witnessProgram vm \<noteq> None"
    and "case ctx of None \<Rightarrow> vm_witnessVersion vm = 0 \<and> vm_taprootCtx vm = None
      | Some _ \<Rightarrow> vm_witnessVersion vm = 1 \<and> \<not> vm_bip16 vm"
    and "\<forall>x \<in> set data. length x \<le> MaxScriptElementSize" "length data \<le> maxDepth vm" "stk (vm_astack vm) = []"
  shows "nextOk (SetStack data (vm\<lparr>vm_scriptIdx := vm_scriptIdx vm + 1, vm_taprootCtx := ctx, vm_scripts := vm_scripts vm @ [script]\<rparr>))"
  using assms unfolding endOk_def ok_defs by (auto simp: nth_append split: option.splits)

lemma safe_checkWitnessStack:
  assumes "isWitnessVersionActive vm 0 \<or> isWitnessVersionActive vm 1"
    and "\<forall>x \<in> set (stk (vm_dstack vm)). length x \<le> MaxScriptElementSize \<Longrightarrow> Q vm"
  shows "safe Q (checkWitnessStack vm)"
  using assms by (auto simp: checkWitnessStack_def GetStack_def getStack_stk not_less)

lemma safe_verifyWitnessV0:
  assumes "\<And>script data. length data \<le> length witness \<Longrightarrow> Q (SetStack data (vm\<lparr>vm_scripts := vm_scripts vm @ [script]\<rparr>))"
  shows "safe Q (verifyWitnessV0 prog witness vm)"
  unfolding verifyWitnessV0_def Let_def
  by (intro safe_if) (auto split: sum.split intro!: safe_pushScript assms)

text \<open>After a taproot program whose script is not run there is no script left.\<close>

lemma nextOk_returned:
  assumes "endOk vm" "vm_scriptIdx vm = 1" "\<not> vm_bip16 vm" "isWitnessVersionActive vm 1"
  shows "nextOk (vm\<lparr>vm_scriptIdx := vm_scriptIdx vm + 1, vm_sigCache := sc, vm_taprootCtx := ctx\<rparr>)"
  using assms unfolding endOk_def ok_defs by auto

lemma safe_verifyTaproot:
  assumes ok: "endOk vm" "vm_scriptIdx vm = 1" "\<not> vm_bip16 vm" "isWitnessVersionActive vm 1" "cryptoOk c"
    and len: "length witness \<le> maxDepth vm" and alt: "stk (vm_astack vm) = []"
  shows "safe nextOk (rbind (verifyTaproot c prog witness (vm\<lparr>vm_scriptIdx := vm_scriptIdx vm + 1\<rparr>))
    (\<lambda>(returned, vm). if returned then Inr vm else checkWitnessStack vm))" (is "safe _ (rbind _ ?cont)")
proof -
  let ?next = "vm\<lparr>vm_scriptIdx := vm_scriptIdx vm + 1\<rparr>"
  let ?P = "\<lambda>(returned, vm'). (returned \<longrightarrow> nextOk vm') \<and> (\<not> returned \<longrightarrow> (\<exists>data ctx script. length data \<le> maxDepth vm \<and>
      vm' = SetStack data (vm\<lparr>vm_scriptIdx := vm_scriptIdx vm + 1, vm_taprootCtx := Some ctx, vm_scripts := vm_scripts vm @ [script]\<rparr>)))"
  have returned: "nextOk (vm\<lparr>vm_scriptIdx := Suc (vm_scriptIdx vm)\<rparr>)"
    "nextOk (vm\<lparr>vm_scriptIdx := Suc (vm_scriptIdx vm), vm_taprootCtx := ctx\<rparr>)"
    "nextOk (vm\<lparr>vm_scriptIdx := Suc (vm_scriptIdx vm), vm_sigCache := sc, vm_taprootCtx := ctx\<rparr>)" for ctx sc
    using nextOk_returned [OF ok(1-4), where ctx = "vm_taprootCtx vm" and sc = "vm_sigCache vm"]
      nextOk_returned [OF ok(1-4), where ctx = ctx and sc = "vm_sigCache vm"] nextOk_returned [OF ok(1-4), where ctx = ctx and sc = sc]
    by simp_all
  have input: "inputOk (?next\<lparr>vm_taprootCtx := ctx\<rparr>)" for ctx
    using ok(1) by (simp add: endOk_def baseOk_def inputOk_def fetchOk_def)
  have key: "safe ?P (rbind (VerifyTaprootKeySpend c prog sig (?next\<lparr>vm_taprootCtx := ctx\<rparr>)) (\<lambda>vm. Inr (True, mustSucceed vm)))"
    for sig ctx
    by (rule safe_rbind [OF safe_keySpend [OF input]]) (auto simp: returned)
  have script: "safe ?P (verifyTapscript c prog wit (?next\<lparr>vm_taprootCtx := Some ctx\<rparr>))" if "length wit \<le> maxDepth vm" for wit ctx
    unfolding verifyTapscript_def Let_def using that
    by (intro safe_rbind [OF safe_ParseControlBlock] safe_rbind [OF safe_leafCommitment [OF ok(5)]] safe_if
        safe_rbind [OF safe_pushScript [where Q = "\<lambda>vm'. ?P (False, vm')"]])
      (auto simp: returned, (intro exI conjI, rule_tac [2] refl, simp)+)
  have "safe ?P (verifyTaproot c prog witness ?next)"
    unfolding verifyTaproot_def Let_def 
    by (rule safe_if, simp add: returned, rule safe_if, simp, rule safe_if, rule key, rule script, use len in auto)
  then show ?thesis
  proof (rule safe_rbind)
    fix x assume P: "?P x"
    show "safe nextOk (?cont x)"
    proof (cases x)
      case (Pair returned vm')
      show ?thesis
      proof (cases returned)
        case False
        with P Pair obtain data ctx script where vm': "length data \<le> maxDepth vm"
          "vm' = SetStack data (vm\<lparr>vm_scriptIdx := vm_scriptIdx vm + 1, vm_taprootCtx := Some ctx, vm_scripts := vm_scripts vm @ [script]\<rparr>)"
          by auto
        have "safe nextOk (checkWitnessStack vm')"
          unfolding vm'(2) using ok alt vm'(1)
          by (intro safe_checkWitnessStack nextOk_pushed) (auto simp: isWitnessVersionActive_def SetStack_def setStack_stk)
        then show ?thesis using Pair False by simp
      qed (use P Pair in simp)
    qed
  qed
qed

lemma safe_verifyWitnessProgram:
  assumes ok: "endOk vm" "vm_witnessProgram vm \<noteq> None" "cryptoOk c" and alt: "stk (vm_astack vm) = []"
    and idx: "vm_scriptIdx vm = 1 \<and> \<not> vm_bip16 vm \<or> vm_scriptIdx vm = 2 \<and> vm_bip16 vm"
  shows "safe nextOk (verifyWitnessProgram c (inputWitness vm) (vm\<lparr>vm_scriptIdx := vm_scriptIdx vm + 1\<rparr>))"
proof -
  let ?next = "vm\<lparr>vm_scriptIdx := vm_scriptIdx vm + 1\<rparr>"
  have len: "length (inputWitness vm) \<le> maxDepth vm" and ctx: "vm_taprootCtx vm = None"
    using ok(1) idx by (auto simp: endOk_def baseOk_def)
  have active: "isWitnessVersionActive ?next v = isWitnessVersionActive vm v" for v by (simp add: isWitnessVersionActive_def)
  have v0: "safe nextOk (rbind (verifyWitnessV0 prog (inputWitness vm) ?next) checkWitnessStack)"
    if "isWitnessVersionActive vm 0" for prog
  proof (rule safe_rbind [where P = "\<lambda>vm'. \<exists>data script. length data \<le> length (inputWitness vm) \<and>
      vm' = SetStack data (vm\<lparr>vm_scriptIdx := vm_scriptIdx vm + 1, vm_taprootCtx := None, vm_scripts := vm_scripts vm @ [script]\<rparr>)"])
    fix vm' assume "\<exists>data script. length data \<le> length (inputWitness vm) \<and>
      vm' = SetStack data (vm\<lparr>vm_scriptIdx := vm_scriptIdx vm + 1, vm_taprootCtx := None, vm_scripts := vm_scripts vm @ [script]\<rparr>)"
    then obtain data script where vm': "length data \<le> length (inputWitness vm)"
      "vm' = SetStack data (vm\<lparr>vm_scriptIdx := vm_scriptIdx vm + 1, vm_taprootCtx := None, vm_scripts := vm_scripts vm @ [script]\<rparr>)"
      by blast
    show "safe nextOk (checkWitnessStack vm')" unfolding vm'(2) using ok idx that vm'(1) len ctx alt
      by (intro safe_checkWitnessStack nextOk_pushed) (auto simp: isWitnessVersionActive_def SetStack_def setStack_stk)
  next
    have same: "vm\<lparr>vm_scriptIdx := i, vm_taprootCtx := None\<rparr> = vm\<lparr>vm_scriptIdx := i\<rparr>" for i by (simp flip: ctx)
    show "safe (\<lambda>vm'. \<exists>data script. length data \<le> length (inputWitness vm) \<and>
      vm' = SetStack data (vm\<lparr>vm_scriptIdx := vm_scriptIdx vm + 1, vm_taprootCtx := None, vm_scripts := vm_scripts vm @ [script]\<rparr>))
      (verifyWitnessV0 prog (inputWitness vm) ?next)"
      unfolding same by (rule safe_verifyWitnessV0) auto
  qed
  have unknown: "safe nextOk (checkWitnessStack (?next\<lparr>vm_witnessProgram := None\<rparr>))"
    using ok(1) idx ctx by (simp add: checkWitnessStack_def isWitnessVersionActive_def) (auto simp: endOk_def ok_defs)
  show ?thesis unfolding verifyWitnessProgram_def Let_def active
    by (intro safe_if v0 unknown safe_verifyTaproot) (use ok idx len alt in auto)
qed

section \<open>The end of a script\<close>

lemma safe_CheckErrorCondition:
  assumes "elemsOk (vm_dstack vm)"
  shows "safe (\<lambda>vm'. \<exists>s. vm' = vm\<lparr>vm_dstack := s\<rparr>) (CheckErrorCondition finalScript vm)"
proof -
  have self: "\<exists>s. vm = vm\<lparr>vm_dstack := s\<rparr>" by (rule exI [of _ "vm_dstack vm"]) simp
  have pop: "safe (\<lambda>vm'. \<exists>s. vm' = vm\<lparr>vm_dstack := s\<rparr>)
      (rbind (popDstack PopBool vm) (\<lambda>(v, vm). if \<not> v then Inl ErrEvalFalse else Inr vm))"
    using safe_PopBool [OF assms] by (cases "PopBool (vm_dstack vm)") (auto simp: popDstack_def)
  show ?thesis unfolding CheckErrorCondition_def Let_def
    by (rule safe_if, simp only: safe_Inr self, (rule safe_if, simp)+, rule pop)
qed

text \<open>The alt stack has been cleared when the next script is chosen.\<close>

lemma safe_advanceScript:
  assumes ok: "endOk vm" "cryptoOk c" and alt: "stk (vm_astack vm) = []"
  shows "safe nextOk (advanceScript c vm)"
proof -
  consider (save) "vm_scriptIdx vm = 0 \<and> vm_bip16 vm" | (redeem) "vm_scriptIdx vm = 1" "vm_bip16 vm"
    | (program) "vm_witnessProgram vm \<noteq> None" "vm_scriptIdx vm = 1 \<and> \<not> vm_bip16 vm \<or> vm_scriptIdx vm = 2 \<and> vm_bip16 vm"
    | (other) "\<not> (vm_scriptIdx vm = 0 \<and> vm_bip16 vm)" "\<not> (vm_scriptIdx vm = 1 \<and> vm_bip16 vm)"
        "\<not> (vm_scriptIdx vm = 1 \<and> vm_witnessProgram vm \<noteq> None)"
        "\<not> (vm_scriptIdx vm = 2 \<and> vm_witnessProgram vm \<noteq> None \<and> vm_bip16 vm)"
    by blast
  then show ?thesis
  proof cases
    case save
    then show ?thesis using ok(1) by (auto simp: advanceScript_def GetStack_def getStack_stk endOk_def ok_defs)
  next
    case redeem
    let ?next = "vm\<lparr>vm_scriptIdx := vm_scriptIdx vm + 1\<rparr>"
    have keep: "safe (\<lambda>vm'. \<exists>s. vm' = ?next\<lparr>vm_dstack := s\<rparr>) (CheckErrorCondition False ?next)"
      using ok(1) by (intro safe_CheckErrorCondition) (simp add: endOk_def baseOk_def)
    have saved: "vm_savedFirstStack vm \<noteq> []" using ok(1) redeem by (simp add: endOk_def)
    have next_ok: "nextOk (SetStack (take (length (vm_savedFirstStack vm) - 1) (vm_savedFirstStack vm))
        (vm\<lparr>vm_scriptIdx := 2, vm_dstack := s,
          vm_scripts := vm_scripts vm @ [vm_savedFirstStack vm ! (length (vm_savedFirstStack vm) - 1)]\<rparr>))" for s
      using ok(1) alt redeem saved unfolding endOk_def ok_defs by (auto simp: nth_append dest: in_set_takeD)
    have "advanceScript c vm = rbind (CheckErrorCondition False ?next) (\<lambda>vm.
        let saved = vm_savedFirstStack vm in if saved = [] then Inl (Panic ''index out of range'')
        else pushScript (saved ! (length saved - 1)) (take (length saved - 1) saved) vm)"
      using redeem by (simp add: advanceScript_def)
    also have "safe nextOk \<dots>"
    proof (rule safe_rbind [OF keep], elim exE)
      fix vm' s assume "vm' = ?next\<lparr>vm_dstack := s\<rparr>"
      then show "safe nextOk (let saved = vm_savedFirstStack vm' in if saved = [] then Inl (Panic ''index out of range'')
          else pushScript (saved ! (length saved - 1)) (take (length saved - 1) saved) vm')"
        using saved next_ok [of s] redeem by (auto simp: Let_def numeral_2_eq_2 intro!: safe_pushScript)
    qed
    finally show ?thesis .
  next
    case program
    then show ?thesis using safe_verifyWitnessProgram [OF ok(1) program(1) ok(2) alt program(2)] by (auto simp: advanceScript_def)
  next
    case other
    then have "advanceScript c vm = Inr (vm\<lparr>vm_scriptIdx := vm_scriptIdx vm + 1\<rparr>)"
      unfolding advanceScript_def by (simp only: if_False de_Morgan_disj simp_thms)
    moreover have "nextOk (vm\<lparr>vm_scriptIdx := vm_scriptIdx vm + 1\<rparr>)"
      using ok(1) other unfolding endOk_def ok_defs by (cases "vm_scriptIdx vm = 0") auto
    ultimately show ?thesis by simp
  qed
qed

lemma runOk_start:
  assumes ok: "nextOk vm" and idx: "vm_scriptIdx vm < length (vm_scripts vm)"
  shows "runOk (vm\<lparr>vm_lastCodeSep := 0, vm_tokenizer := MakeScriptTokenizer (vm_version vm) (vm_scripts vm ! vm_scriptIdx vm)\<rparr>)"
proof -
  have tok: "MakeScriptTokenizer (vm_version vm) s = MakeScriptTokenizer 0 s" for s
    using ok by (simp add: nextOk_def baseOk_def)
  have quiet: "quiet (parseScript (vm_scripts vm ! vm_scriptIdx vm))" if "\<not> sigReady vm"
    using ok idx that by (auto simp: nextOk_def baseOk_def quiet_scriptHash quiet_witnessProgram)
  have base: "baseOk (vm\<lparr>vm_lastCodeSep := n, vm_tokenizer := t\<rparr>) = baseOk vm" for n t
    by (simp add: baseOk_def inputOk_def fetchOk_def isWitnessVersionActive_def)
  show ?thesis
    using ok idx quiet unfolding runOk_def base tok
    by (auto simp: nextOk_def fresh_def nested_def sigReady_def MakeScriptTokenizer_def tokens_def max_def)
qed

lemma safe_finishScript:
  assumes "vm_condStack vm = [] \<Longrightarrow> endOk vm" "cryptoOk c"
  shows "safe (\<lambda>(finished, vm'). \<not> finished \<longrightarrow> runOk vm') (finishScript c vm)"
proof -
  let ?vm = "vm\<lparr>vm_astack := dropAll (vm_astack vm), vm_numOps := 0, vm_opcodeIdx := 0\<rparr>"
  have "endOk ?vm" if "vm_condStack vm = []"
    using assms(1) [OF that] unfolding endOk_def ok_defs by (auto simp: dropAll_ontop ontop_def)
  moreover have "safe (\<lambda>(finished, vm'). \<not> finished \<longrightarrow> runOk vm')
      (let skip = (vm_scriptIdx vm < length (vm_scripts vm) \<and> length (vm_scripts vm ! vm_scriptIdx vm) = 0);
           vm = vm\<lparr>vm_scriptIdx := (if skip then vm_scriptIdx vm + 1 else vm_scriptIdx vm), vm_lastCodeSep := 0\<rparr>
       in if vm_scriptIdx vm \<ge> length (vm_scripts vm) then Inr (True, vm)
          else Inr (False, vm\<lparr>vm_tokenizer := MakeScriptTokenizer (vm_version vm) (vm_scripts vm ! vm_scriptIdx vm)\<rparr>))"
    if ok: "nextOk vm" for vm
  proof (cases "vm_scriptIdx vm < length (vm_scripts vm) \<and> length (vm_scripts vm ! vm_scriptIdx vm) \<noteq> 0")
    case True
    then show ?thesis using runOk_start [OF ok] by (simp add: Let_def)
  next
    case False
    then show ?thesis using ok by (auto simp: Let_def nextOk_def)
  qed
  ultimately show ?thesis unfolding finishScript_def
    using assms(2) by (intro safe_if safe_rbind [OF safe_advanceScript]) (simp_all add: dropAll_ontop ontop_def)
qed

section \<open>A step\<close>

lemma Next_offset: "Next t = (True, t') \<Longrightarrow> tz_offset t' \<le> length (tz_script t)"
proof -
  assume N: "Next t = (True, t')"
  then have nd: "\<not> Done t" by (auto simp: Next_def)
  with N obtain op data n where "token1 (drop (tz_offset t) (tz_script t)) = Some (op, data, n)" "tz_offset t' = tz_offset t + n"
    by (auto simp: Next_token1 split: option.splits)
  then show ?thesis using nd token1_bounds [of "drop (tz_offset t) (tz_script t)" op data n] by (simp add: Done_def)
qed

text \<open>The first opcode of a pay to script hash script needs an element on the stack.\<close>

lemma hash160_empty:
  assumes "vm_condStack vm = []" "executeOpcode c OP_HASH160 data vm = Inr vm'"
  shows "stk (vm_dstack vm) \<noteq> []"
proof
  assume "stk (vm_dstack vm) = []"
  then have "\<exists>e. PopByteArray (vm_dstack vm) = Inl e" by (simp add: PopByteArray_def nipN_ontop)
  then have "\<exists>e. opcodeHash160 c (vm\<lparr>vm_numOps := n\<rparr>) = Inl e" for n by (auto simp: opcodeHash160_def popDstack_def)
  moreover have "opfunc c OP_HASH160 data = opcodeHash160 c" by (simp add: opfunc_def opcodeArray_def)
  moreover have "vm = vm\<lparr>vm_numOps := vm_numOps vm\<rparr>" by simp
  ultimately have "\<exists>e. opfunc c OP_HASH160 data (vm\<lparr>vm_numOps := n\<rparr>) = Inl e" "\<exists>e. opfunc c OP_HASH160 data vm = Inl e" for n
    by metis+
  then show False using assms
    by (auto simp: executeOpcode_def isBranchExecuting_def Let_def rbind_eq_Inr split: if_splits) (metis sum.distinct(1))+
qed

text \<open>A push of data, outside of conditionals.\<close>

lemma execute_push:
  assumes "vm_condStack vm = []" "0 < unat op" "unat op \<le> 75" "executeOpcode c op data vm = Inr vm'"
  shows "vm_dstack vm' = PushByteArray data (vm_dstack vm)" "vm_condStack vm' = []"
proof -
  have op: "op \<noteq> OP_0" "op \<le> OP_PUSHDATA4" "\<not> op > OP_16" using assms(2,3) by (auto simp: word_le_nat_alt word_less_nat_alt)
  then have "opfunc c op data vm = Inr (pushD data vm)" by (simp add: opfunc_def opcodePushData_def)
  then have "vm' = pushD data vm" using assms(1,4) op
    by (auto simp: executeOpcode_def isBranchExecuting_def Let_def rbind_eq_Inr split: if_splits)
  then show "vm_dstack vm' = PushByteArray data (vm_dstack vm)" "vm_condStack vm' = []"
    using assms(1) by (simp_all add: pushD_def)
qed

lemma witnessProgram_length: "isWitnessProgramScript s \<Longrightarrow> 4 \<le> length s \<and> length s \<le> 42"
  by (auto simp: isWitnessProgramScript_def extractWitnessProgramInfo_def split: if_splits)

lemma fresh_Next:
  assumes "fresh vm" "parseScript (vm_scripts vm ! vm_scriptIdx vm) = (op, data, raw) # toks" "Next (vm_tokenizer vm) = (True, t)"
  shows "the (tz_op t) = op" "tz_data t = data" "tz_offset t = length raw" "tz_script t = vm_scripts vm ! vm_scriptIdx vm"
proof -
  have tok: "vm_tokenizer vm = MakeScriptTokenizer 0 (vm_scripts vm ! vm_scriptIdx vm)" using assms(1) by (simp add: fresh_def)
  have "(the (tz_op t), tz_data t, slice 0 (tz_offset t) (vm_scripts vm ! vm_scriptIdx vm)) # tokens t = (op, data, raw) # toks"
    using tokens_step [OF assms(3)] assms(2) tok by (simp add: MakeScriptTokenizer_def tokens_def)
  moreover have "tz_offset t \<le> length (vm_scripts vm ! vm_scriptIdx vm)"
    using Next_offset [OF assms(3)] by (simp add: tok MakeScriptTokenizer_def)
  ultimately show "the (tz_op t) = op" "tz_data t = data" "tz_offset t = length raw" by (auto simp: slice_def)
  show "tz_script t = vm_scripts vm ! vm_scriptIdx vm"
    using Next_advances(1) [OF assms(3)] by (simp add: tok MakeScriptTokenizer_def)
qed

text \<open>What a step of the engine relies on, and the two scripts whose first step matters.\<close>

lemma runOk_exec:
  assumes ok: "runOk vm" and N: "Next (vm_tokenizer vm) = (True, t)"
  shows "vmOk (vm\<lparr>vm_tokenizer := t\<rparr>)" "the (tz_op t) \<in> {OP_CHECKSIG, OP_CHECKSIGVERIFY} \<Longrightarrow> sigReady vm"
    "tz_script t = vm_scripts vm ! vm_scriptIdx vm" "tz_offset t \<le> length (vm_scripts vm ! vm_scriptIdx vm)"
proof -
  show t: "tz_script t = vm_scripts vm ! vm_scriptIdx vm" "tz_offset t \<le> length (vm_scripts vm ! vm_scriptIdx vm)"
    using ok Next_offset [OF N] Next_advances(1) [OF N] by (simp_all add: runOk_def)
  show "vmOk (vm\<lparr>vm_tokenizer := t\<rparr>)" using ok t(2)
    by (auto simp: runOk_def baseOk_def vmOk_def static_def inputOk_def fetchOk_def isWitnessVersionActive_def)
  show "sigReady vm" if "the (tz_op t) \<in> {OP_CHECKSIG, OP_CHECKSIGVERIFY}"
    using ok that tokens_step [OF N] by (auto simp: runOk_def)
qed

lemma saved_nonempty:
  assumes ok: "runOk vm" and N: "Next (vm_tokenizer vm) = (True, t)"
    and exec: "executeOpcode c (the (tz_op t)) data (vm\<lparr>vm_tokenizer := t\<rparr>) = Inr vm1"
    and idx: "vm_bip16 vm" "vm_scriptIdx vm = 1"
  shows "vm_savedFirstStack vm \<noteq> []"
proof
  assume "vm_savedFirstStack vm = []"
  then have fresh: "fresh vm" "stk (vm_dstack vm) = []" and hash: "isScriptHashScript (vm_scripts vm ! 1)"
    using ok idx by (auto simp: runOk_def baseOk_def)
  from hash obtain h where "parseScript (vm_scripts vm ! vm_scriptIdx vm) = [(OP_HASH160, None, [OP_HASH160]),
      (OP_DATA_20, Some h, OP_DATA_20 # h), (OP_EQUAL, None, [OP_EQUAL])]" unfolding idx(2) by (rule parse_scriptHash)
  from fresh_Next(1) [OF fresh(1) this N] show False
    using hash160_empty [of "vm\<lparr>vm_tokenizer := t\<rparr>" c data vm1] exec fresh by (simp add: fresh_def)
qed

lemma nested_first:
  assumes N: "Next (vm_tokenizer vm) = (True, t)"
    and exec: "executeOpcode c (the (tz_op t)) (case tz_data t of None \<Rightarrow> [] | Some d \<Rightarrow> d) (vm\<lparr>vm_tokenizer := t\<rparr>) = Inr vm1"
    and prog: "isWitnessProgramScript prog" "vm_scripts vm ! vm_scriptIdx vm = word_of_nat (length prog) # prog"
    and "fresh vm" "stk (vm_dstack vm) = []"
  shows "Done t" "stk (vm_dstack vm1) = [prog]"
proof -
  have len: "unat (word_of_nat (length prog) :: byte) = length prog" "0 < length prog" "length prog \<le> 75"
    using witnessProgram_length [OF prog(1)] by (auto simp: unat_of_nat)
  have "parseScript (vm_scripts vm ! vm_scriptIdx vm) = [(word_of_nat (length prog), Some prog, word_of_nat (length prog) # prog)]"
    using parseScript_data [of "word_of_nat (length prog)" prog "[]"] len by (simp add: prog(2))
  note first = fresh_Next [OF assms(5) this N]
  show "Done t" using first(3,4) by (simp add: Done_def prog(2))
  show "stk (vm_dstack vm1) = [prog]"
    using execute_push(1) [of "vm\<lparr>vm_tokenizer := t\<rparr>" "word_of_nat (length prog)" c prog vm1] exec first(1,2) len assms(5,6)
    by (simp add: fresh_def PushByteArray_def)
qed

lemma core_fields:
  assumes "core vm' = core vm"
  shows "vm_tx vm' = vm_tx vm" "vm_txIdx vm' = vm_txIdx vm" "vm_version vm' = vm_version vm" "vm_bip16 vm' = vm_bip16 vm"
    "vm_scripts vm' = vm_scripts vm" "vm_scriptIdx vm' = vm_scriptIdx vm" "vm_tokenizer vm' = vm_tokenizer vm"
    "vm_savedFirstStack vm' = vm_savedFirstStack vm" "vm_witnessVersion vm' = vm_witnessVersion vm"
    "vm_witnessProgram vm' = vm_witnessProgram vm" "vm_taprootCtx vm' = None \<longleftrightarrow> vm_taprootCtx vm = None"
    "sigReady vm' = sigReady vm"
  using assms by (auto simp: core_def sigReady_def)

lemma baseOk_exec:
  assumes "baseOk vm" "vmOk vm1" "core vm1 = core (vm\<lparr>vm_tokenizer := t\<rparr>)"
    and "Depth (vm_dstack vm1) + Depth (vm_astack vm1) \<le> MaxStackSize"
  shows "baseOk vm1"
proof -
  have "length (stk (vm_dstack vm1)) + length (stk (vm_astack vm1)) \<le> 1000" using assms(4) by (simp add: Depth_def)
  then show ?thesis using assms(1,2) core_fields [OF assms(3)]
    by (auto simp: baseOk_def vmOk_def static_def isWitnessVersionActive_def)
qed

lemma opcodeIdx_ok [simp]:
  "endOk (vm\<lparr>vm_opcodeIdx := n\<rparr>) = endOk vm" "runOk (vm\<lparr>vm_opcodeIdx := n\<rparr>) = runOk vm"
  by (simp_all add: runOk_def endOk_def ok_defs fresh_def nested_def)

lemma runOk_base: "runOk vm \<Longrightarrow> baseOk vm"
  by (simp add: runOk_def)

lemma runOk_continue:
  assumes ok: "runOk vm" and N: "Next (vm_tokenizer vm) = (True, t)"
    and exec: "executeOpcode c (the (tz_op t)) (case tz_data t of None \<Rightarrow> [] | Some d \<Rightarrow> d) (vm\<lparr>vm_tokenizer := t\<rparr>) = Inr vm1"
    and vm1: "vmOk vm1" "Depth (vm_dstack vm1) + Depth (vm_astack vm1) \<le> MaxStackSize" "\<not> Done t"
  shows "runOk (vm1\<lparr>vm_opcodeIdx := n\<rparr>)"
proof -
  note core = core_executeOpcode [OF exec]
  note same = core_fields [OF core, simplified]
  have base: "baseOk vm1" by (rule baseOk_exec [OF runOk_base [OF ok] vm1(1) core vm1(2)])
  have "nested vm1" if "nested vm"
  proof -
    from that obtain prog where prog: "isWitnessProgramScript prog" and
      cases: "vm_scriptIdx vm = 0 \<and> fresh vm \<and> stk (vm_dstack vm) = [] \<and> vm_scripts vm ! 0 = word_of_nat (length prog) # prog \<or>
        vm_scriptIdx vm = 1 \<and> vm_savedFirstStack vm = [prog] \<or> vm_scriptIdx vm = 2" by (auto simp: nested_def)
    from cases show ?thesis
      using nested_first(1) [OF N exec prog] vm1(3) prog unfolding nested_def same by (auto simp del: One_nat_def)
  qed
  moreover have "quiet (tokens t)" if "\<not> sigReady vm"
    using ok that tokens_step [OF N] by (simp add: runOk_def)
  moreover have "vm_lastCodeSep vm1 \<le> length (vm_scripts vm1 ! vm_scriptIdx vm1)" using vm1(1) by (simp add: vmOk_def static_def)
  moreover have "sigReady (vm\<lparr>vm_tokenizer := t\<rparr>) = sigReady vm" by (simp add: sigReady_def)
  ultimately have "runOk vm1" using ok base saved_nonempty [OF ok N exec] runOk_exec(3,4) [OF ok N] same
    unfolding runOk_def by auto
  then show ?thesis by simp
qed

lemma endOk_finish:
  assumes ok: "runOk vm" and N: "Next (vm_tokenizer vm) = (True, t)"
    and exec: "executeOpcode c (the (tz_op t)) (case tz_data t of None \<Rightarrow> [] | Some d \<Rightarrow> d) (vm\<lparr>vm_tokenizer := t\<rparr>) = Inr vm1"
    and vm1: "vmOk vm1" "Depth (vm_dstack vm1) + Depth (vm_astack vm1) \<le> MaxStackSize" "vm_condStack vm1 = []"
  shows "endOk (vm1\<lparr>vm_opcodeIdx := n\<rparr>)"
proof -
  note core = core_executeOpcode [OF exec]
  note same = core_fields [OF core, simplified]
  have base: "baseOk vm1" by (rule baseOk_exec [OF runOk_base [OF ok] vm1(1) core vm1(2)])
  have "\<exists>prog. isWitnessProgramScript prog \<and> (vm_scriptIdx vm = 0 \<and> stk (vm_dstack vm1) = [prog] \<or>
      vm_scriptIdx vm = 1 \<and> vm_savedFirstStack vm = [prog] \<or> vm_scriptIdx vm = 2)" if "nested vm"
  proof -
    from that obtain prog where prog: "isWitnessProgramScript prog" and
      cases: "vm_scriptIdx vm = 0 \<and> fresh vm \<and> stk (vm_dstack vm) = [] \<and> vm_scripts vm ! 0 = word_of_nat (length prog) # prog \<or>
        vm_scriptIdx vm = 1 \<and> vm_savedFirstStack vm = [prog] \<or> vm_scriptIdx vm = 2" by (auto simp: nested_def)
    from cases show ?thesis using nested_first(2) [OF N exec prog] prog by auto
  qed
  moreover have "sigReady (vm\<lparr>vm_tokenizer := t\<rparr>) = sigReady vm" by (simp add: sigReady_def)
  ultimately have "endOk vm1" using ok base vm1(3) saved_nonempty [OF ok N exec] same
    unfolding endOk_def runOk_def by auto
  then show ?thesis by simp
qed

lemma safe_Step:
  assumes ok: "runOk vm" "cryptoOk c"
  shows "safe (\<lambda>(finished, vm'). \<not> finished \<longrightarrow> runOk vm') (Step c vm)"
proof -
  obtain b t where N: "Next (vm_tokenizer vm) = (b, t)" by fastforce
  have idx: "checkValidPC vm = Inr ()" using ok(1) by (simp add: checkValidPC_def runOk_def)
  show ?thesis
  proof (cases b)
    case True
    with N have N: "Next (vm_tokenizer vm) = (True, t)" by simp
    let ?exec = "executeOpcode c (the (tz_op t)) (case tz_data t of None \<Rightarrow> [] | Some d \<Rightarrow> d) (vm\<lparr>vm_tokenizer := t\<rparr>)"
    have safe: "safe vmOk ?exec"
      using runOk_exec(1,2) [OF ok(1) N] ok(1)
      by (intro safe_executeOpcode [OF _ ok(2)]) (auto simp: runOk_def baseOk_def sigReady_def)
    show ?thesis unfolding Step_def idx N rbind_Inr prod.case
    proof (simp, rule safe_rbind [OF safe], rule safe_if)
      fix vm1 assume vm1: "?exec = Inr vm1" "vmOk vm1" "\<not> MaxStackSize < Depth (vm_dstack vm1) + Depth (vm_astack vm1)"
      have "vm_tokenizer vm1 = t" using core_fields(7) [OF core_executeOpcode [OF vm1(1)]] by simp
      then show "safe (\<lambda>(finished, vm'). \<not> finished \<longrightarrow> runOk vm')
          (let vm = vm1\<lparr>vm_opcodeIdx := vm_opcodeIdx vm1 + 1\<rparr>
           in if Done (vm_tokenizer vm) then finishScript c vm else Inr (False, vm))"
        using runOk_continue [OF ok(1) N vm1(1,2)] endOk_finish [OF ok(1) N vm1(1,2)] vm1(3) ok(2)
        by (auto simp: Let_def not_less intro!: safe_finishScript)
    qed simp
  qed (simp add: Step_def idx N split: option.split)
qed

end
