(* ===== verification/Script_Spend.thy ===== *)
theory Script_Spend
  imports Script_Run
begin

text \<open>
  Spends of outputs: engines from \<^verbatim>\<open>NewEngine\<close> and what their execution gives.\<close>

section \<open>New engines\<close>

text \<open>
  The check of \<^verbatim>\<open>NewEngine\<close> on a nested witness program tests that the rest of the signature script is one, not that
  the first byte pushes it.  \<open>pushesProgram\<close> is that test.\<close>

definition pushesProgram :: "Engine \<Rightarrow> bool" where
  "pushesProgram vm \<longleftrightarrow> (vm_bip16 vm \<and> vm_witnessProgram vm \<noteq> None \<and> vm_witnessVersion vm \<noteq> 0 \<longrightarrow>
     unat (vm_scripts vm ! 0 ! 0) = length (vm_scripts vm ! 0) - 1)"

lemma scriptHash_no_program:
  assumes "isScriptHashScript s"
  shows "\<not> isWitnessProgramScript s"
proof
  from assms obtain h where h: "length h = 20"
    "parseScript s = [(OP_HASH160, None, [OP_HASH160]), (OP_DATA_20, Some h, OP_DATA_20 # h), (OP_EQUAL, None, [OP_EQUAL])]"
    by (rule parse_scriptHash)
  assume "isWitnessProgramScript s"
  then obtain t where N: "Next (MakeScriptTokenizer 0 s) = (True, t)" and small: "isSmallInt (the (tz_op t))"
    by (auto simp: isWitnessProgramScript_def extractWitnessProgramInfo_def Let_def split: prod.splits if_splits)
  have "the (tz_op t) = OP_HASH160" using tokens_step [OF N] h(2) by simp
  then show False using small by (simp add: isSmallInt_def)
qed

lemma quiet_nested:
  assumes "isWitnessProgramScript prog"
  shows "quiet (parseScript (word_of_nat (length prog) # prog))"
proof -
  define op :: byte where "op = word_of_nat (length prog)"
  have len: "unat op = length prog" "0 < length prog" "length prog \<le> 75"
    using witnessProgram_length [OF assms] by (auto simp: unat_of_nat op_def)
  then have "op \<notin> {OP_CHECKSIG, OP_CHECKSIGVERIFY}" by auto
  moreover have "parseScript (op # prog) = [(op, Some prog, op # prog)]" 
    by (rule parseScript_data [of op prog "[]", unfolded append_Nil2 parseScript_Nil]) (simp_all only: len)
  ultimately show ?thesis unfolding op_def [symmetric] by simp
qed

lemma no_program_update:
  "vm_witnessProgram vm = None \<Longrightarrow> vm\<lparr>vm_witnessVersion := vm_witnessVersion vm, vm_witnessProgram := None\<rparr> = vm"
  by (cases vm) simp

lemma if_Inl_eq_Inr: "(if b then Inl e else r) = Inr x \<longleftrightarrow> \<not> b \<and> r = Inr x"
  by simp

lemma setWitnessProgram_parts:
  assumes "setWitnessProgram scriptSig scriptPubKey witness vm = Inr vm'" "vm_witnessProgram vm = None"
  obtains ver prog where "vm' = vm\<lparr>vm_witnessVersion := ver, vm_witnessProgram := prog\<rparr>"
    "prog \<noteq> None \<Longrightarrow> isWitnessProgramScript scriptPubKey \<and> scriptSig = [] \<or>
       vm_bip16 vm \<and> 2 < length scriptSig \<and> isWitnessProgramScript (drop 1 scriptSig)"
proof -
  from assms(1) obtain wp where wp: "findWitnessProgram scriptSig scriptPubKey witness (vm_bip16 vm) = Inr wp"
    by (auto simp: setWitnessProgram_def rbind_eq_Inr split: if_splits)
  show thesis
  proof (cases wp)
    case None
    then have "vm' = vm" using assms wp by (auto simp: setWitnessProgram_def split: if_splits)
    then show thesis using no_program_update [OF assms(2)]
      by (intro that [where ver = "vm_witnessVersion vm" and prog = None]) simp_all
  next
    case (Some s)
    then have s: "isWitnessProgramScript scriptPubKey \<and> scriptSig = [] \<or>
        vm_bip16 vm \<and> 2 < length scriptSig \<and> isWitnessProgramScript (drop 1 scriptSig)"
      using wp by (auto simp: findWitnessProgram_def split: if_splits)
    from Some wp assms(1) obtain ver program where "vm' = vm\<lparr>vm_witnessVersion := ver, vm_witnessProgram := Some program\<rparr>"
      by (auto simp: setWitnessProgram_def rbind_eq_Inr split: if_splits)
    then show thesis using s by (rule that)
  qed
qed

lemma NewEngine_parts:
  assumes "NewEngine scriptPubKey tx txIdx flags sigCache hashCache inputAmount fetcher = Inr vm"
  obtains scriptSig idx isP2SH minimal ver prog where
    "scriptSig = ti_SignatureScript (tx_TxIn tx ! nat txIdx)"
    "nat txIdx < length (tx_TxIn tx)" "isP2SH \<Longrightarrow> isScriptHashScript scriptPubKey" "idx = (if length scriptSig = 0 then 1 else 0)"
    "vm = (emptyEngine flags sigCache hashCache inputAmount fetcher tx (nat txIdx))
       \<lparr>vm_bip16 := isP2SH, vm_scripts := [scriptSig, scriptPubKey], vm_scriptIdx := idx,
        vm_dstack := \<lparr>stk = [], verifyMinimalData = minimal\<rparr>, vm_astack := \<lparr>stk = [], verifyMinimalData = minimal\<rparr>,
        vm_witnessVersion := ver, vm_witnessProgram := prog,
        vm_tokenizer := MakeScriptTokenizer 0 ([scriptSig, scriptPubKey] ! idx)\<rparr>"
    "prog \<noteq> None \<Longrightarrow> isWitnessProgramScript scriptPubKey \<and> scriptSig = [] \<or>
       isP2SH \<and> 2 < length scriptSig \<and> isWitnessProgramScript (drop 1 scriptSig)"
proof -
  let ?sig = "ti_SignatureScript (tx_TxIn tx ! nat txIdx)"
  let ?idx = "if length ?sig = 0 then 1 else 0"
  let ?vm = "emptyEngine flags sigCache hashCache inputAmount fetcher tx (nat txIdx)"
  let ?isP2SH = "hasFlag ?vm ScriptBip16 \<and> isScriptHashScript scriptPubKey"
  let ?min = "hasFlag ?vm ScriptVerifyMinimalData"
  let ?vm0 = "?vm\<lparr>vm_bip16 := ?isP2SH, vm_scripts := [?sig, scriptPubKey], vm_scriptIdx := ?idx,
        vm_dstack := \<lparr>stk = [], verifyMinimalData = ?min\<rparr>, vm_astack := \<lparr>stk = [], verifyMinimalData = ?min\<rparr>\<rparr>"
  note new = assms [unfolded NewEngine_def Let_def if_Inl_eq_Inr rbind_eq_Inr]
  then have txIdx: "nat txIdx < length (tx_TxIn tx)" by linarith
  from new obtain vm1 where
    "(if hasFlag ?vm0 ScriptVerifyWitness
      then setWitnessProgram ?sig scriptPubKey (wit_items (ti_Witness (tx_TxIn tx ! nat txIdx))) ?vm0 else Inr ?vm0) = Inr vm1"
    and vm: "Inr (vm1\<lparr>vm_tokenizer := MakeScriptTokenizer 0 (vm_scripts vm1 ! vm_scriptIdx vm1)\<rparr>) = (Inr vm :: Engine eres)"
    by (elim conjE exE)
  then have vm1: "vm1 = ?vm0 \<or>
      setWitnessProgram ?sig scriptPubKey (wit_items (ti_Witness (tx_TxIn tx ! nat txIdx))) ?vm0 = Inr vm1"
    "vm = vm1\<lparr>vm_tokenizer := MakeScriptTokenizer 0 (vm_scripts vm1 ! vm_scriptIdx vm1)\<rparr>"
    by (metis sum.inject(2))+
  have none: "vm_witnessProgram ?vm0 = None" by (simp add: emptyEngine_def)
  obtain ver prog where vm1': "vm1 = ?vm0\<lparr>vm_witnessVersion := ver, vm_witnessProgram := prog\<rparr>"
    "prog \<noteq> None \<Longrightarrow> isWitnessProgramScript scriptPubKey \<and> ?sig = [] \<or>
       ?isP2SH \<and> 2 < length ?sig \<and> isWitnessProgramScript (drop 1 ?sig)"
  proof (cases "vm1 = ?vm0")
    case True
    show thesis by (rule that [of None "vm_witnessVersion ?vm0"])
      (simp_all only: True no_program_update [OF none] simp_thms)
  next
    case False
    with vm1(1) have "setWitnessProgram ?sig scriptPubKey (wit_items (ti_Witness (tx_TxIn tx ! nat txIdx))) ?vm0 = Inr vm1" by blast
    from setWitnessProgram_parts [OF this none] that show thesis by auto
  qed
  show thesis
    by (rule that [where scriptSig = ?sig and idx = ?idx and isP2SH = ?isP2SH and minimal = ?min and ver = ver and prog = prog])
      (use vm1(2) vm1' txIdx in simp_all)
qed

lemma NewEngine_runOk:
  assumes new: "NewEngine scriptPubKey tx txIdx flags sigCache (Some hashes) inputAmount (Some fetch) = Inr vm"
    and fetch: "\<forall>ti \<in> set (tx_TxIn tx). fetch (ti_PreviousOutPoint ti) \<noteq> None"
    and witness: "length (wit_items (ti_Witness (tx_TxIn tx ! nat txIdx))) < 2 ^ 40"
    and push: "pushesProgram vm"
  shows "runOk vm"
  using new
proof (rule NewEngine_parts)
  fix scriptSig idx isP2SH minimal ver prog
  assume idx: "nat txIdx < length (tx_TxIn tx)" "idx = (if length scriptSig = 0 then 1 else 0)"
    and isP2SH: "isP2SH \<Longrightarrow> isScriptHashScript scriptPubKey"
    and vm: "vm = (emptyEngine flags sigCache (Some hashes) inputAmount (Some fetch) tx (nat txIdx))
       \<lparr>vm_bip16 := isP2SH, vm_scripts := [scriptSig, scriptPubKey], vm_scriptIdx := idx,
        vm_dstack := \<lparr>stk = [], verifyMinimalData = minimal\<rparr>, vm_astack := \<lparr>stk = [], verifyMinimalData = minimal\<rparr>,
        vm_witnessVersion := ver, vm_witnessProgram := prog,
        vm_tokenizer := MakeScriptTokenizer 0 ([scriptSig, scriptPubKey] ! idx)\<rparr>"
    and prog: "prog \<noteq> None \<Longrightarrow> isWitnessProgramScript scriptPubKey \<and> scriptSig = [] \<or>
       isP2SH \<and> 2 < length scriptSig \<and> isWitnessProgramScript (drop 1 scriptSig)"
  have base: "baseOk vm" using idx(1) fetch witness isP2SH
    by (auto simp: vm baseOk_def elemsOk_def inputOk_def fetchOk_def emptyEngine_def FetchPrevOutput_def)
  have fresh: "fresh vm" by (simp add: vm fresh_def emptyEngine_def)
  have program: "quiet (parseScript ([scriptSig, scriptPubKey] ! idx)) \<and> (if isP2SH then nested vm else idx = 1)" if "\<not> sigReady vm"
  proof -
    from that have some: "prog \<noteq> None" "ver \<noteq> 0" by (auto simp: vm sigReady_def emptyEngine_def)
    from prog [OF some(1)] show ?thesis
    proof (elim disjE conjE)
      assume "isWitnessProgramScript scriptPubKey" "scriptSig = []"
      moreover from this have "\<not> isP2SH" using isP2SH scriptHash_no_program by blast
      ultimately show ?thesis using idx(2) by (simp add: quiet_witnessProgram)
    next
      assume "isP2SH" and len: "2 < length scriptSig" and wp: "isWitnessProgramScript (drop 1 scriptSig)"
      let ?prog = "drop 1 scriptSig"
      have "unat (scriptSig ! 0) = length ?prog" using push some \<open>isP2SH\<close> by (simp add: vm pushesProgram_def emptyEngine_def)
      then have "word_of_nat (unat (scriptSig ! 0)) = (word_of_nat (length ?prog) :: byte)" by (rule arg_cong)
      then have "scriptSig ! 0 = word_of_nat (length ?prog)" by simp
      then have sig: "scriptSig = word_of_nat (length ?prog) # ?prog" using len by (cases scriptSig) auto
      have "idx = 0" using idx(2) len by auto
      moreover have "quiet (parseScript scriptSig)" by (subst sig) (rule quiet_nested [OF wp])
      moreover have "nested vm" using fresh wp sig \<open>idx = 0\<close> unfolding nested_def by (auto simp: vm)
      ultimately show ?thesis using \<open>isP2SH\<close> by simp
    qed
  qed
  have tok: "vm_tokenizer vm = MakeScriptTokenizer 0 ([scriptSig, scriptPubKey] ! idx)"
    "vm_scripts vm = [scriptSig, scriptPubKey]" "vm_scriptIdx vm = idx" "vm_bip16 vm = isP2SH" "vm_lastCodeSep vm = 0"
    "stk (vm_dstack vm) = []" by (simp_all add: vm emptyEngine_def)
  show ?thesis using base fresh program idx(2) unfolding runOk_def tok
    by (cases "length scriptSig = 0"; cases "sigReady vm"; cases isP2SH) (simp_all add: MakeScriptTokenizer_def tokens_def)
qed

lemma NewEngine_no_panic: "NewEngine scriptPubKey tx txIdx flags sigCache hashCache inputAmount fetcher \<noteq> Inl (Panic p)"
proof -
  have "safe (\<lambda>_. True) (checkScripts ss)" for ss by (induction ss) (auto split: option.split)
  moreover have "safe (\<lambda>_. True) (setWitnessProgram a b w vm)" for a b w vm
    by (auto simp: setWitnessProgram_def findWitnessProgram_def ExtractWitnessProgramInfo_def split: option.split)
  ultimately have "safe (\<lambda>_. True) (NewEngine scriptPubKey tx txIdx flags sigCache hashCache inputAmount fetcher)"
    unfolding NewEngine_def Let_def
    by (intro safe_if safe_rbind [where P = "\<lambda>_. True"]) (simp_all del: checkScripts.simps)
  then show ?thesis by auto
qed

section \<open>Runs\<close>

text \<open>The states an engine goes through: \<^verbatim>\<open>Step\<close> returns that it is not done.\<close>

inductive reaches :: "('pk, 'sig, 'ssig) crypto \<Rightarrow> Engine \<Rightarrow> Engine \<Rightarrow> bool" for c vm where
  start: "reaches c vm vm"
| step: "reaches c vm vm1 \<Longrightarrow> Step c vm1 = Inr (False, vm2) \<Longrightarrow> reaches c vm vm2"

lemma reaches_runOk: "reaches c vm vm' \<Longrightarrow> runOk vm \<Longrightarrow> cryptoOk c \<Longrightarrow> runOk vm'"
proof (induction rule: reaches.induct)
  case (step vm1 vm2)
  then show ?case using safe_Step [of vm1 c] by simp
qed

lemma executeLoop_safe:
  assumes "runOk vm" "cryptoOk c" "executeLoop c vm = Some r"
  shows "safe (\<lambda>_. True) r"
proof -
  have "wf stepsLeft" by (simp add: stepsLeft_def)
  then show ?thesis using assms(1,3)
  proof (induction vm rule: wf_induct_rule)
    case (less vm)
    note safe = safe_Step [OF less.prems(1) assms(2)]
    show ?case
    proof (cases "Step c vm")
      case (Inl e)
      then have "r = Inl e" using less.prems(2) by (subst (asm) executeLoop.simps) simp
      then show ?thesis using safe Inl by simp
    next
      case (Inr x)
      then obtain finished vm' where x: "Step c vm = Inr (finished, vm')" by (cases x) auto
      show ?thesis
      proof (cases finished)
        case True
        then show ?thesis using less.prems(2) x by (subst (asm) executeLoop.simps) auto
      next
        case False
        then have "executeLoop c vm' = Some r" using less.prems(2) x by (subst (asm) executeLoop.simps) auto
        then show ?thesis using less.IH [OF Step_decreases [OF x]] safe x False by simp
      qed
    qed
  qed
qed

lemma safe_CheckErrorCondition_any: "safe (\<lambda>_. True) (CheckErrorCondition b vm)"
proof -
  have "safe (\<lambda>_. True) (popDstack PopBool vm)"
    by (auto simp: popDstack_def PopBool_def PopByteArray_def nipN_ontop)
  then show ?thesis unfolding CheckErrorCondition_def Let_def
    by (intro safe_if safe_rbind [where P = "\<lambda>_. True"]) auto
qed

lemma Execute_safe:
  assumes "runOk vm" "cryptoOk c"
  shows "\<exists>r. Execute c vm = Some r \<and> safe (\<lambda>_. True) r"
proof -
  obtain r where r: "executeLoop c vm = Some r" using executeLoop_ends by blast
  have "safe (\<lambda>_. True) (rbind r (\<lambda>vm. rbind (CheckErrorCondition True vm) (\<lambda>_. Inr ())))"
    by (intro safe_rbind [OF executeLoop_safe [OF assms r]] safe_rbind [OF safe_CheckErrorCondition_any]) simp
  then show ?thesis using r by (auto simp: Execute_def)
qed

section \<open>The input does not change\<close>

abbreviation input :: "Engine \<Rightarrow> MsgTx \<times> nat" where
  "input vm \<equiv> (vm_tx vm, vm_txIdx vm)"

lemma keeps_pushScript: "keeps input (input vm) (pushScript script data vm)"
  by (simp add: pushScript_def SetStack_def split: option.split)

lemma keeps_checkWitnessStack: "keeps input k r \<Longrightarrow> keeps input k (rbind r checkWitnessStack)"
  by (rule keeps_rbind) (auto simp: checkWitnessStack_def)

lemma keeps_keySpend: "keeps input (input vm) (VerifyTaprootKeySpend c prog sig vm)"
  unfolding VerifyTaprootKeySpend_def Let_def taprootVerify_def keeps_def
  using keeps_verifiers(3) [of vm c] by (auto simp: rbind_eq_Inr keeps_def core_def split: if_splits)

lemma keeps_verifyTapscript: "keeps (\<lambda>x. input (snd x)) (input vm) (verifyTapscript c prog witness vm)"
  using keeps_pushScript [where vm = "vm\<lparr>vm_taprootCtx := ctx\<rparr>" for ctx]
  unfolding verifyTapscript_def Let_def by (intro keeps_any keeps_if) (auto simp: keeps_def rbind_eq_Inr)

lemma keeps_verifyTaproot: "keeps (\<lambda>x. input (snd x)) (input vm) (verifyTaproot c prog witness vm)"
proof -
  have "keeps (\<lambda>x. input (snd x)) (input vm) (rbind (VerifyTaprootKeySpend c prog sig (vm\<lparr>vm_taprootCtx := ctx\<rparr>))
      (\<lambda>vm. Inr (True, mustSucceed vm)))" for sig ctx
    using keeps_keySpend [of "vm\<lparr>vm_taprootCtx := ctx\<rparr>" c prog sig] by (auto simp: keeps_def rbind_eq_Inr)
  moreover have "keeps (\<lambda>x. input (snd x)) (input vm) (verifyTapscript c prog wit (vm\<lparr>vm_taprootCtx := ctx\<rparr>))" for wit ctx
    using keeps_verifyTapscript [of "vm\<lparr>vm_taprootCtx := ctx\<rparr>"] by simp
  ultimately show ?thesis unfolding verifyTaproot_def Let_def by (intro keeps_if) simp_all
qed

lemma keeps_verifyWitnessProgram: "keeps input (input vm) (verifyWitnessProgram c witness vm)"
proof -
  have "keeps input (input vm) (verifyWitnessV0 prog witness vm)" for prog
    unfolding verifyWitnessV0_def Let_def by (intro keeps_if) (auto simp: keeps_pushScript split: sum.split)
  moreover have "keeps input (input vm) (rbind (verifyTaproot c prog witness vm) (\<lambda>(returned, vm).
      if returned then Inr vm else checkWitnessStack vm))" for prog
    by (rule keeps_rbind [OF keeps_verifyTaproot]) (auto simp: checkWitnessStack_def)
  ultimately show ?thesis unfolding verifyWitnessProgram_def Let_def
    by (intro keeps_if keeps_checkWitnessStack) (auto simp: checkWitnessStack_def)
qed

lemma core_input: "core vm' = core vm \<Longrightarrow> input vm' = input vm"
  by (simp add: core_def)

lemma keeps_advanceScript: "keeps input (input vm) (advanceScript c vm)"
proof -
  let ?next = "vm\<lparr>vm_scriptIdx := vm_scriptIdx vm + 1\<rparr>"
  have "input vm' = input vm" if "CheckErrorCondition b ?next = Inr vm'" for b vm'
    using core_input [OF pos_CheckErrorCondition [OF that]] by simp
  then have "keeps input (input vm) (CheckErrorCondition b ?next)" for b unfolding keeps_def by blast
  then have "keeps input (input vm) (rbind (CheckErrorCondition b ?next) (\<lambda>vm.
      if vm_savedFirstStack vm = [] then Inl (Panic ''index out of range'')
      else pushScript (vm_savedFirstStack vm ! (length (vm_savedFirstStack vm) - 1))
        (take (length (vm_savedFirstStack vm) - 1) (vm_savedFirstStack vm)) vm))" for b
    by (rule keeps_rbind, intro keeps_if keeps_simps(1)) (metis keeps_pushScript)
  then show ?thesis unfolding advanceScript_def Let_def
    using keeps_verifyWitnessProgram [of ?next] by (intro keeps_if) simp_all
qed

lemma Step_input: "Step c vm = Inr (finished, vm') \<Longrightarrow> input vm' = input vm"
proof (erule Step_cases)
  fix t and vm1 :: Engine
  assume exec: "executeOpcode c (the (tz_op t)) (case tz_data t of None \<Rightarrow> [] | Some d \<Rightarrow> d) (vm\<lparr>vm_tokenizer := t\<rparr>) = Inr vm1"
    and fin: "if Done (vm_tokenizer vm1) then finishScript c (vm1\<lparr>vm_opcodeIdx := vm_opcodeIdx vm1 + 1\<rparr>) = Inr (finished, vm')
      else \<not> finished \<and> vm' = vm1\<lparr>vm_opcodeIdx := vm_opcodeIdx vm1 + 1\<rparr>"
  have fs: "keeps (\<lambda>x. input (snd x)) (input vm2) (finishScript c vm2)" for vm2
    unfolding finishScript_def Let_def
    using keeps_advanceScript [of "vm2\<lparr>vm_astack := dropAll (vm_astack vm2), vm_numOps := 0, vm_opcodeIdx := 0\<rparr>" c]
    by (intro keeps_if keeps_rbind [where g = input]) auto
  have "keeps (\<lambda>x. input (snd x)) (input vm1) (finishScript c (vm1\<lparr>vm_opcodeIdx := vm_opcodeIdx vm1 + 1\<rparr>))"
    using fs [of "vm1\<lparr>vm_opcodeIdx := vm_opcodeIdx vm1 + 1\<rparr>"] by simp
  moreover have "input vm1 = input vm" using core_input [OF core_executeOpcode [OF exec]] by simp
  ultimately show ?thesis using fin by (auto simp: keeps_def split: if_splits)
qed

lemma reaches_input: "reaches c vm vm' \<Longrightarrow> input vm' = input vm"
  by (induction rule: reaches.induct) (auto dest: Step_input)

section \<open>Properties\<close>

text \<open>Third-party code for concrete engines.\<close>

definition sample_crypto :: "(unit, unit, unit) crypto" where
  "sample_crypto =
     \<lparr>ripemd160 = (\<lambda>b. replicate 20 7), curveOrder = 13, ParsePubKey = (\<lambda>b. Some ()), IsCompressedPubKey = (\<lambda>b. True),
      ParseDERSignature = (\<lambda>b. Some ()), ParseSignature = (\<lambda>b. Some ()), ecdsaVerify = (\<lambda>s h k. True),
      schnorrParsePubKey = (\<lambda>b. Some ()), schnorrParseSignature = (\<lambda>b. Some ()), schnorrVerify = (\<lambda>s h k. True),
      schnorrSerializePubKey = (\<lambda>k. replicate 32 1), SerializeCompressed = (\<lambda>k. replicate 33 2),
      tweakKey = (\<lambda>k h. k), taggedHash = (\<lambda>t b. replicate 32 0), evictKey = (\<lambda>es. [])\<rparr>"

definition sample_hashes :: TxSigHashes where
  "sample_hashes = \<lparr>HashPrevOutsV0 = [], HashSequenceV0 = [], HashOutputsV0 = [], HashPrevOutsV1 = [], HashSequenceV1 = [],
     HashOutputsV1 = [], HashInputScriptsV1 = [], HashInputAmountsV1 = []\<rparr>"

definition sample_fetch :: "OutPoint \<Rightarrow> TxOut option" where
  "sample_fetch op = Some \<lparr>to_Value = 1000, to_PkScript = [OP_1]\<rparr>"

lemma cryptoOk_sample: "cryptoOk sample_crypto"
  by (simp add: cryptoOk_def sample_crypto_def)

lemma sample_engine:
  "\<exists>vm. NewEngine [OP_1] sample_spend 0 0 None (Some sample_hashes) 1000 (Some sample_fetch) = Inr vm \<and> pushesProgram vm"
proof -
  have "checkScripts [[], [OP_1]] = Inr ()" "\<not> isScriptHashScript [OP_1]"
    by code_simp+
  then show ?thesis
    by (simp add: NewEngine_def sample_spend_def hasFlag_def emptyEngine_def pushesProgram_def del: checkScripts.simps)
qed

text \<open>C6: An engine that \<^verbatim>\<open>NewEngine\<close> returns runs to a result or an error and never panics, on these
  conditions: the midstates of the transaction are given and the outputs its inputs spend are known to the fetcher; the
  witness of the input has fewer than \<open>2 ^ 40\<close> items; when the signature script of a pay to script hash spend is taken
  for a nested witness program of a version above 0, its first byte pushes that program (\<open>pushesProgram\<close>); and the
  cryptographic library is as documented: RIPEMD-160 has 20 bytes and a serialized Schnorr key parses
  (\<open>cryptoOk\<close>).\<close>

theorem engine_never_panics:
  assumes "NewEngine scriptPubKey tx txIdx flags sigCache (Some hashes) inputAmount (Some fetch) = Inr vm"
    and "\<forall>ti \<in> set (tx_TxIn tx). fetch (ti_PreviousOutPoint ti) \<noteq> None"
    and "length (wit_items (ti_Witness (tx_TxIn tx ! nat txIdx))) < 2 ^ 40"
    and "pushesProgram vm" "cryptoOk c"
  shows "\<exists>r. Execute c vm = Some r \<and> (\<forall>p. r \<noteq> Inl (Panic p))"
  using Execute_safe [OF NewEngine_runOk [OF assms(1-4)] assms(5)] by (auto simp: safe_def)

theorem engine_never_panics_witness:
  "\<exists>vm r. NewEngine [OP_1] sample_spend 0 0 None (Some sample_hashes) 1000 (Some sample_fetch) = Inr vm \<and>
     Execute sample_crypto vm = Some r \<and> (\<forall>p. r \<noteq> Inl (Panic p))"
proof -
  obtain vm where vm: "NewEngine [OP_1] sample_spend 0 0 None (Some sample_hashes) 1000 (Some sample_fetch) = Inr vm" "pushesProgram vm"
    using sample_engine by blast
  have "\<exists>r. Execute sample_crypto vm = Some r \<and> (\<forall>p. r \<noteq> Inl (Panic p))"
    by (rule engine_never_panics [OF vm(1) _ _ vm(2) cryptoOk_sample]) (simp_all add: sample_fetch_def sample_spend_def)
  then show ?thesis using vm(1) by blast
qed

text \<open>C9: In every state that an engine returned by \<^verbatim>\<open>NewEngine\<close> goes through, every item on both stacks has at most 520
  bytes, the data stack and the alt stack have together at most 1000 items or as many as the witness, and the engine stands
  inside one of its scripts.  The conditions are: the midstates are given and the outputs spent are known, the
  witness of the input has fewer than \<open>2 ^ 40\<close> items, a nested witness program of a version above 0 is pushed by the first byte
  of the signature script (\<open>pushesProgram\<close>), RIPEMD-160 has 20 bytes and a serialized Schnorr key
  parses (\<open>cryptoOk\<close>).\<close>

theorem engine_bounds:
  assumes "NewEngine scriptPubKey tx txIdx flags sigCache (Some hashes) inputAmount (Some fetch) = Inr vm"
    and "\<forall>ti \<in> set (tx_TxIn tx). fetch (ti_PreviousOutPoint ti) \<noteq> None"
    and "length (wit_items (ti_Witness (tx_TxIn tx ! nat txIdx))) < 2 ^ 40"
    and "pushesProgram vm" "cryptoOk c" "reaches c vm vm'"
  shows "(\<forall>x \<in> set (stk (vm_dstack vm')) \<union> set (stk (vm_astack vm')). length x \<le> MaxScriptElementSize) \<and>
    length (stk (vm_dstack vm')) + length (stk (vm_astack vm')) \<le> max 1000 (length (wit_items (ti_Witness (tx_TxIn tx ! nat txIdx)))) \<and>
    vm_scriptIdx vm' < length (vm_scripts vm') \<and>
    tz_offset (vm_tokenizer vm') \<le> length (vm_scripts vm' ! vm_scriptIdx vm')"
proof -
  have ok: "runOk vm'" by (rule reaches_runOk [OF assms(6) NewEngine_runOk [OF assms(1-4)] assms(5)])
  have "input vm = (tx, nat txIdx)" using assms(1) by (rule NewEngine_parts) (simp add: emptyEngine_def)
  then have "inputWitness vm' = wit_items (ti_Witness (tx_TxIn tx ! nat txIdx))" using reaches_input [OF assms(6)] by simp
  then show ?thesis using ok by (auto simp: runOk_def baseOk_def elemsOk_def)
qed

theorem engine_bounds_witness:
  "\<exists>vm. NewEngine [OP_1] sample_spend 0 0 None (Some sample_hashes) 1000 (Some sample_fetch) = Inr vm \<and> reaches sample_crypto vm vm \<and>
     length (stk (vm_dstack vm)) + length (stk (vm_astack vm)) \<le> 1000 \<and> tz_offset (vm_tokenizer vm) \<le> length (vm_scripts vm ! vm_scriptIdx vm)"
proof -
  obtain vm where vm: "NewEngine [OP_1] sample_spend 0 0 None (Some sample_hashes) 1000 (Some sample_fetch) = Inr vm" "pushesProgram vm"
    using sample_engine by blast
  have "length (stk (vm_dstack vm)) + length (stk (vm_astack vm)) \<le> max 1000 (length (wit_items (ti_Witness (tx_TxIn sample_spend ! nat 0)))) \<and>
      tz_offset (vm_tokenizer vm) \<le> length (vm_scripts vm ! vm_scriptIdx vm)"
    using engine_bounds [OF vm(1) _ _ vm(2) cryptoOk_sample reaches.start] by (simp add: sample_fetch_def sample_spend_def)
  then show ?thesis using vm(1) by (auto simp: sample_spend_def intro: reaches.start)
qed

end
