(* ===== verification/Script_Trace.thy ===== *)
theory Script_Trace
  imports Script_Spend
begin

unbundle bit_operations_syntax

text \<open>
  The run of a script as a fold over its opcodes, and the result of spends of pay to public key hash outputs
  computed with it.\<close>

section \<open>A script is the sequence of its opcodes\<close>

abbreviation nextToken :: "Engine \<Rightarrow> Engine" where
  "nextToken vm \<equiv> vm\<lparr>vm_tokenizer := snd (Next (vm_tokenizer vm))\<rparr>"

fun runTokens :: "('pk, 'sig, 'ssig) crypto \<Rightarrow> (byte \<times> byte list option \<times> byte list) list \<Rightarrow> Engine \<Rightarrow> Engine eres" where
  "runTokens c [] vm = Inr vm"
| "runTokens c ((op, data, raw) # toks) vm =
     rbind (executeOpcode c op (case data of None \<Rightarrow> [] | Some d \<Rightarrow> d) (nextToken vm)) (\<lambda>vm.
       if Depth (vm_dstack vm) + Depth (vm_astack vm) > MaxStackSize then Inl ErrStackOverflow
       else runTokens c toks (vm\<lparr>vm_opcodeIdx := vm_opcodeIdx vm + 1\<rparr>))"

text \<open>What follows the opcodes of a script: the next script, or the end of the run.\<close>

definition continue :: "('pk, 'sig, 'ssig) crypto \<Rightarrow> (bool \<times> Engine) eres \<Rightarrow> Engine eres option" where
  "continue c r = (case r of
     Inl e \<Rightarrow> Some (Inl e) | Inr (finished, vm) \<Rightarrow> if finished then Some (Inr vm) else executeLoop c vm)"

lemma continue_simps [simp]:
  "continue c (Inl e) = Some (Inl e)" "continue c (Inr (True, vm)) = Some (Inr vm)"
  "continue c (Inr (False, vm)) = executeLoop c vm"
  by (simp_all add: continue_def)

lemma executeLoop_continue: "executeLoop c vm = continue c (Step c vm)"
  by (subst executeLoop.simps) (simp add: continue_def)

lemma executeLoop_tokens:
  assumes "tokens (vm_tokenizer vm) = toks" "toks \<noteq> []" "vm_scriptIdx vm < length (vm_scripts vm)"
    and "rawBytes toks = drop (tz_offset (vm_tokenizer vm)) (tz_script (vm_tokenizer vm))"
  shows "executeLoop c vm = continue c (rbind (runTokens c toks vm) (finishScript c))"
  using assms
proof (induction toks arbitrary: vm)
  case (Cons tok toks)
  obtain op data raw where tok: "tok = (op, data, raw)" by (cases tok)
  from Cons.prems(1) obtain t where N: "Next (vm_tokenizer vm) = (True, t)" "tz_op t = Some op" "tz_data t = data"
    "tokens t = toks" "tz_script t = tz_script (vm_tokenizer vm)" "tz_offset t = tz_offset (vm_tokenizer vm) + length raw"
    unfolding tok by (rule tokens_Cons)
  let ?exec = "executeOpcode c op (case data of None \<Rightarrow> [] | Some d \<Rightarrow> d) (vm\<lparr>vm_tokenizer := t\<rparr>)"
  have raw: "rawBytes toks = drop (tz_offset t) (tz_script t)"
  proof -
    have "raw @ rawBytes toks = drop (tz_offset (vm_tokenizer vm)) (tz_script (vm_tokenizer vm))"
      using Cons.prems(4) by (simp add: tok rawBytes_def)
    from arg_cong [OF this, of "drop (length raw)"] show ?thesis using N(5,6) by (simp add: add.commute)
  qed
  have step: "Step c vm = rbind ?exec (\<lambda>vm.
      if Depth (vm_dstack vm) + Depth (vm_astack vm) > MaxStackSize then Inl ErrStackOverflow
      else let vm = vm\<lparr>vm_opcodeIdx := vm_opcodeIdx vm + 1\<rparr> in
        if Done (vm_tokenizer vm) then finishScript c vm else Inr (False, vm))"
    using Cons.prems(3) N by (simp add: Step_def checkValidPC_def)
  show ?case
  proof (cases ?exec)
    case (Inl e)
    then show ?thesis using N(1) by (simp add: executeLoop_continue step tok)
  next
    case (Inr vm1)
    let ?vm1 = "vm1\<lparr>vm_opcodeIdx := vm_opcodeIdx vm1 + 1\<rparr>"
    note same = core_fields [OF core_executeOpcode [OF Inr]]
    have t: "vm_tokenizer ?vm1 = t" using same(7) by simp
    show ?thesis
    proof (cases "toks = []")
      case True
      then have "Done t" using raw by (simp add: Done_def rawBytes_def)
      then show ?thesis using Inr N(1) True t by (simp add: executeLoop_continue step tok)
    next
      case False
      then have nd: "\<not> Done t" using N(4) tokens_not_Done by blast
      have "executeLoop c ?vm1 = continue c (rbind (runTokens c toks ?vm1) (finishScript c))"
        by (rule Cons.IH) (use N(4) t raw False same Cons.prems(3) in simp_all)
      then show ?thesis using Inr N(1) t nd by (simp add: executeLoop_continue [of c vm] step tok)
    qed
  qed
qed simp

text \<open>C10: The engine runs a script by running its opcodes in order: from the first byte of a script that parses, the loop of
  \<^verbatim>\<open>Execute\<close> gives what folding \<^verbatim>\<open>executeOpcode\<close> over the opcodes of the script gives, with the depth of the stacks checked
  after each, followed by the transition to the next script.\<close>

theorem script_is_its_opcodes:
  assumes "vm_tokenizer vm = MakeScriptTokenizer 0 script" "vm_scriptIdx vm < length (vm_scripts vm)" "script \<noteq> []"
    and "checkScriptParses 0 script = None"
  shows "executeLoop c vm = continue c (rbind (runTokens c (parseScript script) vm) (finishScript c))"
proof (rule executeLoop_tokens)
  show "tokens (vm_tokenizer vm) = parseScript script" using assms(1) by simp
  have raw: "rawBytes (parseScript script) = script" using assms(4) by (simp add: checkScriptParses_iff)
  with assms(3) show "parseScript script \<noteq> []" by auto
  show "rawBytes (parseScript script) = drop (tz_offset (vm_tokenizer vm)) (tz_script (vm_tokenizer vm))"
    using raw assms(1) by (simp add: MakeScriptTokenizer_def)
qed (rule assms(2))

theorem script_is_its_opcodes_witness:
  "\<exists>vm. NewEngine [OP_1] sample_spend 0 0 None (Some sample_hashes) 1000 (Some sample_fetch) = Inr vm \<and>
     executeLoop sample_crypto vm =
       continue sample_crypto (rbind (runTokens sample_crypto (parseScript [OP_1]) vm) (finishScript sample_crypto))"
proof -
  obtain vm where vm: "NewEngine [OP_1] sample_spend 0 0 None (Some sample_hashes) 1000 (Some sample_fetch) = Inr vm"
    using sample_engine by blast
  have "vm_tokenizer vm = MakeScriptTokenizer 0 [OP_1]" "vm_scriptIdx vm < length (vm_scripts vm)"
    using vm by (auto elim!: NewEngine_parts simp: sample_spend_def)
  moreover have "checkScriptParses 0 [OP_1] = None" by code_simp
  ultimately have "executeLoop sample_crypto vm =
      continue sample_crypto (rbind (runTokens sample_crypto (parseScript [OP_1]) vm) (finishScript sample_crypto))"
    by (intro script_is_its_opcodes) simp_all
  with vm show ?thesis by blast
qed

section \<open>Opcodes on the items of the stack\<close>

definition withItems :: "byte list list \<Rightarrow> Engine \<Rightarrow> Engine" where
  "withItems xs vm = vm\<lparr>vm_dstack := ontop xs (vm_dstack vm)\<rparr>"

lemma withItems_fields [simp]:
  "vm_flags (withItems xs vm) = vm_flags vm" "vm_tx (withItems xs vm) = vm_tx vm" "vm_txIdx (withItems xs vm) = vm_txIdx vm"
  "vm_version (withItems xs vm) = vm_version vm" "vm_bip16 (withItems xs vm) = vm_bip16 vm"
  "vm_sigCache (withItems xs vm) = vm_sigCache vm" "vm_scripts (withItems xs vm) = vm_scripts vm"
  "vm_scriptIdx (withItems xs vm) = vm_scriptIdx vm" "vm_opcodeIdx (withItems xs vm) = vm_opcodeIdx vm"
  "vm_lastCodeSep (withItems xs vm) = vm_lastCodeSep vm" "vm_tokenizer (withItems xs vm) = vm_tokenizer vm"
  "vm_savedFirstStack (withItems xs vm) = vm_savedFirstStack vm" "vm_astack (withItems xs vm) = vm_astack vm"
  "vm_condStack (withItems xs vm) = vm_condStack vm" "vm_numOps (withItems xs vm) = vm_numOps vm"
  "vm_witnessVersion (withItems xs vm) = vm_witnessVersion vm" "vm_witnessProgram (withItems xs vm) = vm_witnessProgram vm"
  "vm_taprootCtx (withItems xs vm) = vm_taprootCtx vm" "stk (vm_dstack (withItems xs vm)) = rev xs"
  "hasFlag (withItems xs vm) f = hasFlag vm f"
  by (simp_all add: withItems_def hasFlag_def)

lemma withItems_updates [simp]:
  "(withItems xs vm)\<lparr>vm_tokenizer := t\<rparr> = withItems xs (vm\<lparr>vm_tokenizer := t\<rparr>)"
  "(withItems xs vm)\<lparr>vm_opcodeIdx := n\<rparr> = withItems xs (vm\<lparr>vm_opcodeIdx := n\<rparr>)"
  "(withItems xs vm)\<lparr>vm_numOps := n\<rparr> = withItems xs (vm\<lparr>vm_numOps := n\<rparr>)"
  "(withItems xs vm)\<lparr>vm_astack := s\<rparr> = withItems xs (vm\<lparr>vm_astack := s\<rparr>)"
  "(withItems xs vm)\<lparr>vm_scriptIdx := n\<rparr> = withItems xs (vm\<lparr>vm_scriptIdx := n\<rparr>)"
  "(withItems xs vm)\<lparr>vm_lastCodeSep := n\<rparr> = withItems xs (vm\<lparr>vm_lastCodeSep := n\<rparr>)"
  "(withItems xs vm)\<lparr>vm_savedFirstStack := ss\<rparr> = withItems xs (vm\<lparr>vm_savedFirstStack := ss\<rparr>)"
  "(withItems xs vm)\<lparr>vm_scripts := ss\<rparr> = withItems xs (vm\<lparr>vm_scripts := ss\<rparr>)"
  by (simp_all add: withItems_def)

lemma withItems_stack [simp]:
  "pushD so (withItems xs vm) = withItems (so # xs) vm"
  "pushBool b (withItems xs vm) = withItems (fromBool b # xs) vm"
  "popDstack PopByteArray (withItems (x # xs) vm) = Inr (x, withItems xs vm)"
  "popDstack PopBool (withItems (x # xs) vm) = Inr (asBool x, withItems xs vm)"
  "opcodeDup (withItems (x # xs) vm) = Inr (withItems (x # x # xs) vm)"
  "Depth (vm_dstack (withItems xs vm)) = int (length xs)"
  "SetStack data (withItems xs vm) = withItems (rev data) vm"
  by (simp_all add: withItems_def pushD_def PeekByteArray_ontop PushByteArray_ontop PushBool_def popDstack_def PopBool_def PopByteArray_ontop onDstack_def
      DupN_def Depth_def SetStack_def setStack_stk ontop_def)

lemma withItems_self: "withItems (items (vm_dstack vm)) vm = vm"
  by (simp add: withItems_def)

lemma asBool_fromBool [simp]: "asBool (fromBool b) = b"
  by (simp add: fromBool_def)

text \<open>A push of two bytes or more, and an opcode of the table, outside of conditionals.\<close>

lemma execute_data:
  assumes "vm_condStack vm = []" "unat op = length data" "2 \<le> length data" "length data \<le> 75"
  shows "executeOpcode c op data vm = Inr (pushD data vm)"
proof -
  have op: "op \<noteq> OP_0" "op \<le> OP_PUSHDATA4" "\<not> op > OP_16" using assms(2-4) by (auto simp: word_le_nat_alt word_less_nat_alt)
  have dis: "\<not> isOpcodeDisabled op" "\<not> isOpcodeAlwaysIllegal op"
    using assms(2,4) by (auto simp: isOpcodeDisabled_def isOpcodeAlwaysIllegal_def)
  have "checkMinimalDataPush op data = Inr ()" using assms(2-4) by (auto simp: checkMinimalDataPush_def Let_def)
  moreover have "opfunc c op data vm = Inr (pushD data vm)" using op by (simp add: opfunc_def opcodePushData_def)
  ultimately show ?thesis using dis op assms
    by (simp add: executeOpcode_def isBranchExecuting_def)
qed

lemma execute_op:
  assumes "vm_condStack vm = []" "vm_taprootCtx vm = None" "vm_numOps vm < 201" "op > OP_16"
    and "\<not> isOpcodeDisabled op" "\<not> isOpcodeAlwaysIllegal op" "map_of (opcodeArray c) op = Some handler"
  shows "executeOpcode c op data vm = handler (vm\<lparr>vm_numOps := vm_numOps vm + 1\<rparr>)"
proof -
  have op: "op \<noteq> OP_0" "\<not> op \<le> OP_PUSHDATA4" "\<not> op \<le> OP_16" using assms(4) by (auto simp: word_le_nat_alt word_less_nat_alt)
  then have "opfunc c op data = handler" using assms(7) by (simp add: opfunc_def)
  then show ?thesis using assms op by (simp add: executeOpcode_def isBranchExecuting_def)
qed

lemma table [simp]:
  "map_of (opcodeArray c) OP_DUP = Some opcodeDup" "map_of (opcodeArray c) OP_HASH160 = Some (opcodeHash160 c)"
  "map_of (opcodeArray c) OP_EQUAL = Some opcodeEqual" "map_of (opcodeArray c) OP_EQUALVERIFY = Some opcodeEqualVerify"
  "map_of (opcodeArray c) OP_CHECKSIG = Some (opcodeCheckSig c)"
  by (simp_all add: opcodeArray_def)

lemma run_data:
  assumes "vm_condStack vm = []" "stk (vm_astack vm) = []" "unat op = length d" "2 \<le> length d" "length d \<le> 75" "length xs < 1000"
  shows "runTokens c ((op, Some d, raw) # toks) (withItems xs vm) =
    runTokens c toks (withItems (d # xs) ((nextToken vm)\<lparr>vm_opcodeIdx := vm_opcodeIdx vm + 1\<rparr>))"
  using assms by (simp add: execute_data Depth_def)

lemma run_op:
  assumes "vm_condStack vm = []" "vm_taprootCtx vm = None" "vm_numOps vm < 201" "op > OP_16"
    and "\<not> isOpcodeDisabled op" "\<not> isOpcodeAlwaysIllegal op" "map_of (opcodeArray c) op = Some handler"
  shows "runTokens c ((op, None, raw) # toks) (withItems xs vm) =
    rbind (handler (withItems xs ((nextToken vm)\<lparr>vm_numOps := vm_numOps vm + 1\<rparr>))) (\<lambda>vm.
      if Depth (vm_dstack vm) + Depth (vm_astack vm) > MaxStackSize then Inl ErrStackOverflow
      else runTokens c toks (vm\<lparr>vm_opcodeIdx := vm_opcodeIdx vm + 1\<rparr>))"
  using assms by (simp add: execute_op)

declare runTokens.simps(2) [simp del]

text \<open>The items of a state after opcodes that change only the stack and the counters.\<close>

definition stepped :: "Engine \<Rightarrow> byte list list \<Rightarrow> Engine \<Rightarrow> bool" where
  "stepped vm xs vm' \<longleftrightarrow>
     (\<exists>t i n. vm' = withItems xs (vm\<lparr>vm_tokenizer := t, vm_numOps := n, vm_opcodeIdx := i\<rparr>))"

lemma run_pushes:
  assumes "vm_condStack vm = []" "stk (vm_astack vm) = []" "stk (vm_dstack vm) = []"
    and "unat op1 = length d1" "2 \<le> length d1" "length d1 \<le> 75" "unat op2 = length d2" "2 \<le> length d2" "length d2 \<le> 75"
  shows "\<exists>vm'. runTokens c [(op1, Some d1, raw1), (op2, Some d2, raw2)] vm = Inr vm' \<and> stepped vm [d2, d1] vm'"
proof -
  have vm: "vm = withItems [] vm" using withItems_self [of vm] assms(3) by simp
  have "runTokens c [(op1, Some d1, raw1), (op2, Some d2, raw2)] (withItems [] vm) =
      Inr (withItems [d2, d1] (vm\<lparr>vm_tokenizer := snd (Next (snd (Next (vm_tokenizer vm)))), vm_opcodeIdx := vm_opcodeIdx vm + 2\<rparr>))"
    using assms(1,2,4-9) by (simp add: run_data)
  moreover have "stepped vm [d2, d1] (withItems [d2, d1]
      (vm\<lparr>vm_tokenizer := snd (Next (snd (Next (vm_tokenizer vm)))), vm_opcodeIdx := vm_opcodeIdx vm + 2\<rparr>))"
    unfolding stepped_def
    by (rule exI [of _ "snd (Next (snd (Next (vm_tokenizer vm))))"], rule exI [of _ "vm_opcodeIdx vm + 2"],
        rule exI [of _ "vm_numOps vm"]) simp
  ultimately show ?thesis using vm by auto
qed

section \<open>Pay to public key hash\<close>

lemma parse_cong:
  assumes "vm_flags vm' = vm_flags vm" "vm_witnessProgram vm' = vm_witnessProgram vm" "vm_witnessVersion vm' = vm_witnessVersion vm"
  shows "parseBaseSigAndPubkey c pk sig vm' = parseBaseSigAndPubkey c pk sig vm"
proof -
  have "hasFlag vm' = hasFlag vm" "isWitnessVersionActive vm' = isWitnessVersionActive vm"
    using assms by (auto simp: hasFlag_def isWitnessVersionActive_def fun_eq_iff)
  then show ?thesis
    by (simp only: parseBaseSigAndPubkey_def checkHashTypeEncoding_def checkSignatureEncoding_def checkPubKeyEncoding_def
        parseSigByFlags_def)
qed

text \<open>The signature \<open>sig\<close>, with its hash type, is one of the key \<open>pk\<close> on the transaction with this script.\<close>

definition sigMatches :: "('pk, 'sig, 'ssig) crypto \<Rightarrow> Engine \<Rightarrow> byte list \<Rightarrow> byte list \<Rightarrow> byte list \<Rightarrow> bool" where
  "sigMatches c vm script sig pk \<longleftrightarrow>
     (\<exists>key s ht h. parseBaseSigAndPubkey c pk sig vm = Inr (key, s, ht) \<and>
       calcSignatureHash (removeOpcodeByData script sig) ht (vm_tx vm) (vm_txIdx vm) = Inr h \<and> ecdsaVerify c s h key)"

lemma checkSig_base:
  assumes "vm_taprootCtx vm = None" "vm_witnessProgram vm = None" "vm_sigCache vm = None" "sig \<noteq> []"
    and "vm_scriptIdx vm < length (vm_scripts vm)" "vm_lastCodeSep vm = 0"
  shows "opcodeCheckSig c (withItems (pk # sig # xs) vm) =
      Inr (withItems (fromBool (sigMatches c vm (vm_scripts vm ! vm_scriptIdx vm) sig pk) # xs) vm) \<or>
    (\<not> sigMatches c vm (vm_scripts vm ! vm_scriptIdx vm) sig pk \<and> (\<exists>e. opcodeCheckSig c (withItems (pk # sig # xs) vm) = Inl e))"
proof -
  let ?vm = "withItems xs vm" and ?script = "vm_scripts vm ! vm_scriptIdx vm"
  have parse: "parseBaseSigAndPubkey c pk sig ?vm = parseBaseSigAndPubkey c pk sig vm" by (rule parse_cong) simp_all
  have check: "opcodeCheckSig c (withItems (pk # sig # xs) vm) =
      (case newBaseSigVerifier c pk sig ?vm of
         Inl err \<Rightarrow> if isScriptErr err then Inl err else Inr (pushBool False ?vm)
       | Inr v \<Rightarrow> rbind (baseVerify c v ?vm) (finishCheckSig sig))"
    using assms by (simp add: opcodeCheckSig_def)
  have sub: "subScript ?vm = Inr ?script" using assms(5,6) by (simp add: subScript_def)
  show ?thesis
  proof (cases "parseBaseSigAndPubkey c pk sig vm")
    case (Inl e)
    then show ?thesis by (auto simp: check newBaseSigVerifier_def parse sigMatches_def)
  next
    case (Inr x)
    obtain key s ht where x: "x = (key, s, ht)" by (cases x)
    have verify: "opcodeCheckSig c (withItems (pk # sig # xs) vm) =
        rbind (calcSignatureHash (removeOpcodeByData ?script sig) ht (vm_tx vm) (vm_txIdx vm)) (\<lambda>h.
          finishCheckSig sig (ecdsaVerify c s h key, ?vm))"
      using Inr x assms(3) unfolding check newBaseSigVerifier_def parse sub
      by (cases "calcSignatureHash (removeOpcodeByData ?script sig) ht (vm_tx vm) (vm_txIdx vm)")
        (simp_all add: baseVerify_def verifySig_def)
    then show ?thesis using Inr x assms(1,4)
      by (cases "calcSignatureHash (removeOpcodeByData ?script sig) ht (vm_tx vm) (vm_txIdx vm)")
        (auto simp: sigMatches_def finishCheckSig_def)
  qed
qed

definition p2pkhTokens :: "byte list \<Rightarrow> (byte \<times> byte list option \<times> byte list) list" where
  "p2pkhTokens h = [(OP_DUP, None, [OP_DUP]), (OP_HASH160, None, [OP_HASH160]), (OP_DATA_20, Some h, OP_DATA_20 # h),
     (OP_EQUALVERIFY, None, [OP_EQUALVERIFY]), (OP_CHECKSIG, None, [OP_CHECKSIG])]"

lemma equalVerify_items [simp]:
  "opcodeEqualVerify (withItems (a # b # xs) vm) = (if a = b then Inr (withItems xs vm) else Inl ErrEqualVerify)"
  by (simp add: opcodeEqualVerify_def opcodeEqual_def abstractVerify_def)

lemma hash160_items [simp]: "opcodeHash160 c (withItems (a # xs) vm) = Inr (withItems (ripemd160 c (Sum256 a) # xs) vm)"
  by (simp add: opcodeHash160_def)

lemma opcodes_allowed [simp]:
  "\<not> isOpcodeDisabled OP_DUP" "\<not> isOpcodeDisabled OP_HASH160" "\<not> isOpcodeDisabled OP_EQUAL" "\<not> isOpcodeDisabled OP_EQUALVERIFY"
  "\<not> isOpcodeDisabled OP_CHECKSIG" "\<not> isOpcodeAlwaysIllegal OP_DUP" "\<not> isOpcodeAlwaysIllegal OP_HASH160"
  "\<not> isOpcodeAlwaysIllegal OP_EQUAL" "\<not> isOpcodeAlwaysIllegal OP_EQUALVERIFY" "\<not> isOpcodeAlwaysIllegal OP_CHECKSIG"
  by (simp_all add: isOpcodeDisabled_def isOpcodeAlwaysIllegal_def)

lemma run_p2pkh:
  assumes "vm_condStack vm = []" "stk (vm_astack vm) = []" "vm_taprootCtx vm = None" "vm_numOps vm = 0" "length h = 20"
  shows "\<exists>t i n. runTokens c (p2pkhTokens h) (withItems [pk, sig] vm) =
    (if ripemd160 c (Sum256 pk) \<noteq> h then Inl ErrEqualVerify
     else rbind (opcodeCheckSig c (withItems [pk, sig] (vm\<lparr>vm_opcodeIdx := i, vm_tokenizer := t, vm_numOps := n\<rparr>))) (\<lambda>vm.
       if Depth (vm_dstack vm) + Depth (vm_astack vm) > MaxStackSize then Inl ErrStackOverflow
       else Inr (vm\<lparr>vm_opcodeIdx := vm_opcodeIdx vm + 1\<rparr>)))"
  using assms unfolding p2pkhTokens_def
  by (intro exI [of _ "snd (Next (snd (Next (snd (Next (snd (Next (snd (Next (vm_tokenizer vm))))))))))"]
      exI [of _ "Suc (Suc (Suc (Suc (vm_opcodeIdx vm))))"] exI [of _ "Suc (Suc (Suc (Suc 0)))"])
    (simp add: run_op run_data Depth_def cong: if_cong)

lemma finish_first:
  assumes "vm_condStack vm = []" "\<not> vm_bip16 vm" "vm_scriptIdx vm = 0" "length (vm_scripts vm) = 2" "vm_scripts vm ! 1 \<noteq> []"
  shows "finishScript c vm = Inr (False, vm\<lparr>vm_astack := dropAll (vm_astack vm), vm_numOps := 0, vm_opcodeIdx := 0,
    vm_scriptIdx := 1, vm_lastCodeSep := 0, vm_tokenizer := MakeScriptTokenizer (vm_version vm) (vm_scripts vm ! 1)\<rparr>)"
  using assms by (simp add: finishScript_def advanceScript_def Let_def)

lemma finish_second:
  assumes "vm_condStack vm = []" "\<not> vm_bip16 vm" "vm_witnessProgram vm = None" "vm_scriptIdx vm = 1" "length (vm_scripts vm) = 2"
  shows "finishScript c vm = Inr (True, vm\<lparr>vm_astack := dropAll (vm_astack vm), vm_numOps := 0, vm_opcodeIdx := 0,
    vm_scriptIdx := 2, vm_lastCodeSep := 0\<rparr>)"
  using assms by (simp add: finishScript_def advanceScript_def Let_def)

lemma final_check:
  assumes "vm_taprootCtx vm = None" "vm_witnessProgram vm = None" "length (vm_scripts vm) \<le> vm_scriptIdx vm"
  shows "rbind (CheckErrorCondition True (withItems [x] vm)) (\<lambda>_. Inr ()) = (if asBool x then Inr () else Inl ErrEvalFalse)"
  using assms by (simp add: CheckErrorCondition_def isWitnessVersionActive_def Let_def)

abbreviation p2pkhScript :: "byte list \<Rightarrow> byte list" where
  "p2pkhScript h \<equiv> [OP_DUP, OP_HASH160, OP_DATA_20] @ h @ [OP_EQUALVERIFY, OP_CHECKSIG]"

lemma parse_p2pkh: "length h = 20 \<Longrightarrow> parseScript (p2pkhScript h) = p2pkhTokens h"
  using parseScript_data [of OP_DATA_20 h "[OP_EQUALVERIFY, OP_CHECKSIG]"]
  by (simp add: p2pkhTokens_def parseScript_op opcodeLength_def)

lemma sigMatches_cong:
  assumes "vm_flags vm' = vm_flags vm" "vm_witnessProgram vm' = vm_witnessProgram vm" "vm_witnessVersion vm' = vm_witnessVersion vm"
    and "vm_tx vm' = vm_tx vm" "vm_txIdx vm' = vm_txIdx vm"
  shows "sigMatches c vm' script sig pk = sigMatches c vm script sig pk"
  using parse_cong [OF assms(1-3), of c pk sig] assms(4,5) by (simp add: sigMatches_def)

text \<open>The second script of such a spend.\<close>

lemma p2pkh_second:
  assumes vm: "vm_condStack vm = []" "stk (vm_astack vm) = []" "vm_taprootCtx vm = None" "vm_numOps vm = 0" "\<not> vm_bip16 vm"
      "vm_witnessProgram vm = None" "vm_sigCache vm = None" "vm_scriptIdx vm = 1" "length (vm_scripts vm) = 2" "vm_lastCodeSep vm = 0"
    and script: "vm_scripts vm ! 1 = p2pkhScript h" "length h = 20"
    and tok: "vm_tokenizer vm = MakeScriptTokenizer 0 (p2pkhScript h)" and sig: "sig \<noteq> []"
  shows "(\<exists>r. executeLoop c (withItems [pk, sig] vm) = Some r \<and>
    (rbind r (\<lambda>vm. rbind (CheckErrorCondition True vm) (\<lambda>_. Inr ())) = Inr () \<longleftrightarrow>
      ripemd160 c (Sum256 pk) = h \<and> sigMatches c vm (p2pkhScript h) sig pk))"
proof -
  obtain t i n where run: "runTokens c (p2pkhTokens h) (withItems [pk, sig] vm) =
    (if ripemd160 c (Sum256 pk) \<noteq> h then Inl ErrEqualVerify
     else rbind (opcodeCheckSig c (withItems [pk, sig] (vm\<lparr>vm_opcodeIdx := i, vm_tokenizer := t, vm_numOps := n\<rparr>))) (\<lambda>vm.
       if Depth (vm_dstack vm) + Depth (vm_astack vm) > MaxStackSize then Inl ErrStackOverflow
       else Inr (vm\<lparr>vm_opcodeIdx := vm_opcodeIdx vm + 1\<rparr>)))"
    using run_p2pkh [OF vm(1-4) script(2)] by blast
  let ?vm = "vm\<lparr>vm_opcodeIdx := i, vm_tokenizer := t, vm_numOps := n\<rparr>" and ?m = "sigMatches c vm (p2pkhScript h) sig pk"
  have loop: "executeLoop c (withItems [pk, sig] vm) =
      continue c (rbind (runTokens c (p2pkhTokens h) (withItems [pk, sig] vm)) (finishScript c))"
    by (rule executeLoop_tokens)
      (use vm(8,9) tok script(2) parse_p2pkh [OF script(2)] in \<open>simp_all add: p2pkhTokens_def tokens_def MakeScriptTokenizer_def\<close>)
  have "sigMatches c ?vm (p2pkhScript h) sig pk = ?m" by (rule sigMatches_cong) simp_all
  with checkSig_base [of ?vm sig c pk "[]"] vm sig script(1)
  have check: "opcodeCheckSig c (withItems [pk, sig] ?vm) = Inr (withItems [fromBool ?m] ?vm) \<or>
      \<not> ?m \<and> (\<exists>e. opcodeCheckSig c (withItems [pk, sig] ?vm) = Inl e)" by simp
  show ?thesis
  proof (cases "ripemd160 c (Sum256 pk) = h")
    case False
    then show ?thesis by (simp add: loop run)
  next
    case True
    from check show ?thesis
    proof (elim disjE conjE exE)
      fix e assume "\<not> ?m" "opcodeCheckSig c (withItems [pk, sig] ?vm) = Inl e"
      then show ?thesis using True by (simp add: loop run)
    next
      assume "opcodeCheckSig c (withItems [pk, sig] ?vm) = Inr (withItems [fromBool ?m] ?vm)"
      then show ?thesis using True vm by (simp add: loop run Depth_def finish_second final_check)
    qed
  qed
qed

abbreviation dataPush :: "byte list \<Rightarrow> byte list" where
  "dataPush d \<equiv> word_of_nat (length d) # d"

lemma parse_dataPush:
  assumes "2 \<le> length d" "length d \<le> 75"
  shows "parseScript (dataPush d @ rest) = (word_of_nat (length d), Some d, dataPush d) # parseScript rest"
proof -
  define op :: byte where "op = word_of_nat (length d)"
  have u: "unat op = length d" using assms by (simp add: op_def unat_of_nat)
  show ?thesis unfolding op_def [symmetric] append_Cons by (rule parseScript_data) (use assms in \<open>auto simp: u\<close>)
qed

lemma unat_dataPush: "2 \<le> length d \<Longrightarrow> length d \<le> 75 \<Longrightarrow> unat (word_of_nat (length d) :: byte) = length d"
  by (simp add: unat_of_nat)

lemma p2pkh_not_program:
  assumes "length h = 20"
  shows "\<not> isWitnessProgramScript (p2pkhScript h)" "\<not> isScriptHashScript (p2pkhScript h)"
proof -
  show "\<not> isScriptHashScript (p2pkhScript h)" by (auto simp: isScriptHashScript_def extractScriptHash_def)
  show "\<not> isWitnessProgramScript (p2pkhScript h)"
  proof
    assume "isWitnessProgramScript (p2pkhScript h)"
    then obtain t where N: "Next (MakeScriptTokenizer 0 (p2pkhScript h)) = (True, t)" and small: "isSmallInt (the (tz_op t))"
      by (auto simp: isWitnessProgramScript_def extractWitnessProgramInfo_def Let_def split: prod.splits if_splits)
    have "the (tz_op t) = OP_DUP" using tokens_step [OF N] parse_p2pkh [OF assms] by (simp add: p2pkhTokens_def)
    then show False using small by (simp add: isSmallInt_def)
  qed
qed

text \<open>C7: A pay to public key hash output is spent exactly by a public key with that hash and a signature that verifies for it:
  for a signature script that pushes a signature and a key, \<^verbatim>\<open>Execute\<close> succeeds if and only if the hash of the key is the
  one of the output, both parse under the encoding rules of the flags, and the signature verifies for the hash of
  the transaction with the output script.\<close>

theorem p2pkh_spend:
  assumes new: "NewEngine (p2pkhScript h) tx txIdx flags None hashCache inputAmount fetcher = Inr vm"
    and h: "length h = 20"
    and sigScript: "ti_SignatureScript (tx_TxIn tx ! nat txIdx) = dataPush sig @ dataPush pk"
    and len: "2 \<le> length sig" "length sig \<le> 75" "2 \<le> length pk" "length pk \<le> 75"
  shows "Execute c vm = Some (Inr ()) \<longleftrightarrow>
    ripemd160 c (Sum256 pk) = h \<and>
    (\<exists>key s ht sigHash. parseBaseSigAndPubkey c pk sig vm = Inr (key, s, ht) \<and>
       calcSignatureHash (removeOpcodeByData (p2pkhScript h) sig) ht tx (nat txIdx) = Inr sigHash \<and> ecdsaVerify c s sigHash key)"
  using new
proof (rule NewEngine_parts)
  fix scriptSig idx isP2SH minimal ver prog
  assume sc: "scriptSig = ti_SignatureScript (tx_TxIn tx ! nat txIdx)" and idx: "idx = (if length scriptSig = 0 then 1 else 0)"
    and isP2SH: "isP2SH \<Longrightarrow> isScriptHashScript (p2pkhScript h)"
    and vm: "vm = (emptyEngine flags None hashCache inputAmount fetcher tx (nat txIdx))
       \<lparr>vm_bip16 := isP2SH, vm_scripts := [scriptSig, p2pkhScript h], vm_scriptIdx := idx,
        vm_dstack := \<lparr>stk = [], verifyMinimalData = minimal\<rparr>, vm_astack := \<lparr>stk = [], verifyMinimalData = minimal\<rparr>,
        vm_witnessVersion := ver, vm_witnessProgram := prog,
        vm_tokenizer := MakeScriptTokenizer 0 ([scriptSig, p2pkhScript h] ! idx)\<rparr>"
    and prog: "prog \<noteq> None \<Longrightarrow> isWitnessProgramScript (p2pkhScript h) \<and> scriptSig = [] \<or>
       isP2SH \<and> 2 < length scriptSig \<and> isWitnessProgramScript (drop 1 scriptSig)"
  have sig: "scriptSig = dataPush sig @ dataPush pk" using sc sigScript by simp
  have nosh: "\<not> isP2SH" using isP2SH p2pkh_not_program(2) [OF h] by blast
  have prog_none: "prog = None" using prog nosh sig by blast
  have "idx = 0" using idx sig by simp
  note none = nosh prog_none this
  have fields: "vm_condStack vm = []" "stk (vm_astack vm) = []" "stk (vm_dstack vm) = []" "vm_taprootCtx vm = None"
    "\<not> vm_bip16 vm" "vm_witnessProgram vm = None" "vm_sigCache vm = None" "vm_scriptIdx vm = 0"
    "vm_scripts vm = [scriptSig, p2pkhScript h]" "vm_version vm = 0" "vm_tx vm = tx" "vm_txIdx vm = nat txIdx"
    "vm_tokenizer vm = MakeScriptTokenizer 0 scriptSig"
    by (simp_all add: vm none emptyEngine_def)
  let ?toks = "[(word_of_nat (length sig), Some sig, dataPush sig), (word_of_nat (length pk), Some pk, dataPush pk)]"
  have parse: "parseScript scriptSig = ?toks"
    using parse_dataPush [OF len(1,2), of "dataPush pk"] parse_dataPush [OF len(3,4), of "[]"] by (simp add: sig)
  obtain t i n where run: "runTokens c ?toks vm =
      Inr (withItems [pk, sig] (vm\<lparr>vm_tokenizer := t, vm_numOps := n, vm_opcodeIdx := i\<rparr>))"
    using run_pushes [OF fields(1-3) unat_dataPush [OF len(1,2)] len(1,2) unat_dataPush [OF len(3,4)] len(3,4),
        of c "dataPush sig" "dataPush pk"] unfolding stepped_def by blast
  let ?vm = "vm\<lparr>vm_astack := dropAll (vm_astack vm), vm_numOps := 0, vm_opcodeIdx := 0, vm_scriptIdx := 1, vm_lastCodeSep := 0,
      vm_tokenizer := MakeScriptTokenizer 0 (p2pkhScript h)\<rparr>"
  have "executeLoop c vm = continue c (rbind (runTokens c ?toks vm) (finishScript c))"
    by (rule executeLoop_tokens) (use fields parse sig in \<open>simp_all add: tokens_def MakeScriptTokenizer_def\<close>)
  also have "\<dots> = executeLoop c (withItems [pk, sig] ?vm)"
    using fields by (simp add: run finish_first)
  finally have loop: "executeLoop c vm = executeLoop c (withItems [pk, sig] ?vm)" .
  have matches: "sigMatches c ?vm (p2pkhScript h) sig pk = sigMatches c vm (p2pkhScript h) sig pk"
    by (rule sigMatches_cong) simp_all
  have "\<exists>r. executeLoop c (withItems [pk, sig] ?vm) = Some r \<and>
    (rbind r (\<lambda>vm. rbind (CheckErrorCondition True vm) (\<lambda>_. Inr ())) = Inr () \<longleftrightarrow>
      ripemd160 c (Sum256 pk) = h \<and> sigMatches c ?vm (p2pkhScript h) sig pk)"
    by (rule p2pkh_second) (use fields h len(1) in \<open>auto simp: dropAll_ontop\<close>)
  then obtain r where "executeLoop c vm = Some r" "rbind r (\<lambda>vm. rbind (CheckErrorCondition True vm) (\<lambda>_. Inr ())) = Inr () \<longleftrightarrow>
      ripemd160 c (Sum256 pk) = h \<and> sigMatches c vm (p2pkhScript h) sig pk"
    unfolding loop matches by blast
  then show ?thesis using fields by (simp add: Execute_def sigMatches_def)
qed

text \<open>A transaction whose only input has these scripts.\<close>

definition sample_input :: "byte list \<Rightarrow> byte list list option \<Rightarrow> MsgTx" where
  "sample_input scriptSig witness =
     \<lparr>tx_Version = 2,
      tx_TxIn = [\<lparr>ti_PreviousOutPoint = \<lparr>op_Hash = replicate 32 7, op_Index = 1\<rparr>, ti_SignatureScript = scriptSig,
                  ti_Witness = witness, ti_Sequence = 5\<rparr>],
      tx_TxOut = [\<lparr>to_Value = 900, to_PkScript = [OP_1]\<rparr>], tx_LockTime = 0\<rparr>"

theorem p2pkh_spend_witness:
  "\<exists>vm. NewEngine (p2pkhScript (replicate 20 7)) (sample_input (dataPush [48, 1] @ dataPush [2, 5]) None) 0 0 None None 1000 None = Inr vm \<and>
     Execute sample_crypto vm = Some (Inr ())"
proof -
  let ?tx = "sample_input (dataPush [48, 1] @ dataPush [2, 5]) None"
  have facts: "checkScripts [dataPush [48, 1] @ dataPush [2, 5], p2pkhScript (replicate 20 7)] = Inr ()"
    "\<not> isScriptHashScript (p2pkhScript (replicate 20 7))"
    by code_simp+
  obtain vm where vm: "NewEngine (p2pkhScript (replicate 20 7)) ?tx 0 0 None None 1000 None = Inr vm" "vm_flags vm = 0"
    using facts by (simp add: NewEngine_def sample_input_def hasFlag_def emptyEngine_def Let_def del: checkScripts.simps)
  have "parseBaseSigAndPubkey sample_crypto [2, 5] [48, 1] vm = Inr ((), (), 1)"
    by (simp add: parseBaseSigAndPubkey_def checkHashTypeEncoding_def checkSignatureEncoding_def checkPubKeyEncoding_def
        parseSigByFlags_def hasFlag_def vm(2) sample_crypto_def)
  moreover have "\<exists>h. calcSignatureHash s 1 ?tx (nat 0) = Inr h" for s
    by (simp add: calcSignatureHash_def sample_input_def Let_def)
  moreover have "Execute sample_crypto vm = Some (Inr ()) \<longleftrightarrow> ripemd160 sample_crypto (Sum256 [2, 5]) = replicate 20 7 \<and>
    (\<exists>key s ht sigHash. parseBaseSigAndPubkey sample_crypto [2, 5] [48, 1] vm = Inr (key, s, ht) \<and>
       calcSignatureHash (removeOpcodeByData (p2pkhScript (replicate 20 7)) [48, 1]) ht ?tx (nat 0) = Inr sigHash \<and>
       ecdsaVerify sample_crypto s sigHash key)"
    by (rule p2pkh_spend [OF vm(1)]) (simp_all add: sample_input_def)
  ultimately have "Execute sample_crypto vm = Some (Inr ())" by (auto simp: sample_crypto_def)
  with vm(1) show ?thesis by blast
qed

end
