(* ===== verification/Script_Nested.thy ===== *)
theory Script_Nested
  imports Script_Trace
begin

unbundle bit_operations_syntax

text \<open>
  Spends of pay to script hash outputs: the run of the redeem script, and the two ways in which \<^verbatim>\<open>NewEngine\<close> treats
  a witness program nested in such an output that differ from what its comments say.\<close>

section \<open>Pay to script hash\<close>

abbreviation p2shScript :: "byte list \<Rightarrow> byte list" where
  "p2shScript h \<equiv> [OP_HASH160, OP_DATA_20] @ h @ [OP_EQUAL]"

definition p2shTokens :: "byte list \<Rightarrow> (byte \<times> byte list option \<times> byte list) list" where
  "p2shTokens h = [(OP_HASH160, None, [OP_HASH160]), (OP_DATA_20, Some h, OP_DATA_20 # h), (OP_EQUAL, None, [OP_EQUAL])]"

lemma parse_p2sh: "length h = 20 \<Longrightarrow> parseScript (p2shScript h) = p2shTokens h"
  using parseScript_data [of OP_DATA_20 h "[OP_EQUAL]"] by (simp add: p2shTokens_def parseScript_op opcodeLength_def)

lemma isScriptHash_p2sh: "length h = 20 \<Longrightarrow> isScriptHashScript (p2shScript h)"
  by (auto simp: isScriptHashScript_def extractScriptHash_iff)

lemma equal_items [simp]: "opcodeEqual (withItems (a # b # xs) vm) = Inr (withItems (fromBool (a = b) # xs) vm)"
  by (simp add: opcodeEqual_def)

lemma run_p2sh:
  assumes "vm_condStack vm = []" "stk (vm_astack vm) = []" "vm_taprootCtx vm = None" "vm_numOps vm = 0" "length h = 20"
    and "length xs < 998"
  shows "\<exists>t i n. runTokens c (p2shTokens h) (withItems (r # xs) vm) =
    Inr (withItems (fromBool (h = ripemd160 c (Sum256 r)) # xs) (vm\<lparr>vm_tokenizer := t, vm_numOps := n, vm_opcodeIdx := i\<rparr>))"
  using assms unfolding p2shTokens_def
  by (intro exI [of _ "snd (Next (snd (Next (snd (Next (vm_tokenizer vm))))))"]
      exI [of _ "Suc (Suc (Suc (vm_opcodeIdx vm)))"] exI [of _ "Suc (Suc 0)"])
    (simp add: run_op run_data Depth_def cong: if_cong)

lemma finish_p2sh:
  assumes "vm_condStack vm = []" "vm_bip16 vm" "vm_scriptIdx vm = 1" "length (vm_scripts vm) = 2" "vm_taprootCtx vm = None"
    and "vm_savedFirstStack vm = rev (r # xs)" "r \<noteq> []" "checkScriptParses (vm_version vm) r = None"
  shows "finishScript c (withItems (fromBool b # ys) vm) =
    (if b then Inr (False, withItems xs (vm\<lparr>vm_astack := dropAll (vm_astack vm), vm_numOps := 0, vm_opcodeIdx := 0,
       vm_scripts := vm_scripts vm @ [r], vm_scriptIdx := 2, vm_lastCodeSep := 0,
       vm_tokenizer := MakeScriptTokenizer (vm_version vm) r\<rparr>)) else Inl ErrEvalFalse)"
  using assms
  by (simp add: finishScript_def advanceScript_def CheckErrorCondition_def pushScript_def Let_def nth_append numeral_2_eq_2)

lemma finish_save:
  assumes "vm_condStack vm = []" "vm_bip16 vm" "vm_scriptIdx vm = 0" "length (vm_scripts vm) = 2" "vm_scripts vm ! 1 \<noteq> []"
  shows "finishScript c (withItems xs vm) = Inr (False, withItems xs (vm\<lparr>vm_astack := dropAll (vm_astack vm), vm_numOps := 0,
    vm_opcodeIdx := 0, vm_savedFirstStack := rev xs, vm_scriptIdx := 1, vm_lastCodeSep := 0,
    vm_tokenizer := MakeScriptTokenizer (vm_version vm) (vm_scripts vm ! 1)\<rparr>))"
  using assms by (simp add: finishScript_def advanceScript_def Let_def GetStack_def getStack_stk)

text \<open>
  A spend whose signature script leaves the redeem script \<open>r\<close> on top of the stack: if \<open>r\<close> has the hash of the output,
  it is run on the items below it.\<close>

lemma p2sh_redeem:
  assumes vm: "vm_condStack vm = []" "stk (vm_astack vm) = []" "vm_taprootCtx vm = None" "vm_numOps vm = 0" "vm_bip16 vm"
      "vm_scriptIdx vm = 1" "length (vm_scripts vm) = 2" "vm_version vm = 0" "vm_savedFirstStack vm = rev (r # xs)"
    and script: "length h = 20" "vm_tokenizer vm = MakeScriptTokenizer 0 (p2shScript h)"
    and r: "r \<noteq> []" "checkScriptParses 0 r = None" "length xs < 998"
  shows "executeLoop c (withItems (r # xs) vm) =
    (if h = ripemd160 c (Sum256 r) then executeLoop c (withItems xs (vm\<lparr>vm_astack := dropAll (vm_astack vm), vm_numOps := 0,
       vm_opcodeIdx := 0, vm_scripts := vm_scripts vm @ [r], vm_scriptIdx := 2, vm_lastCodeSep := 0,
       vm_tokenizer := MakeScriptTokenizer 0 r\<rparr>))
     else Some (Inl ErrEvalFalse))"
proof -
  obtain t i n where run: "runTokens c (p2shTokens h) (withItems (r # xs) vm) =
      Inr (withItems (fromBool (h = ripemd160 c (Sum256 r)) # xs) (vm\<lparr>vm_tokenizer := t, vm_numOps := n, vm_opcodeIdx := i\<rparr>))"
    using run_p2sh [OF vm(1-4) script(1) r(3)] by blast
  have "executeLoop c (withItems (r # xs) vm) =
      continue c (rbind (runTokens c (p2shTokens h) (withItems (r # xs) vm)) (finishScript c))"
    by (rule executeLoop_tokens)
      (use vm(6,7) script parse_p2sh [OF script(1)] in \<open>simp_all add: p2shTokens_def tokens_def MakeScriptTokenizer_def\<close>)
  then show ?thesis using vm r(1,2) by (simp add: run finish_p2sh)
qed

text \<open>The engine of such a spend, from the end of its signature script.\<close>

lemma p2sh_run:
  assumes vm: "vm_condStack vm = []" "stk (vm_astack vm) = []" "vm_taprootCtx vm = None" "vm_bip16 vm"
      "vm_scriptIdx vm = 0" "vm_scripts vm = [scriptSig, p2shScript h]" "vm_version vm = 0"
      "vm_tokenizer vm = MakeScriptTokenizer 0 scriptSig" "length h = 20"
    and sig: "scriptSig \<noteq> []" "rawBytes (parseScript scriptSig) = scriptSig"
      "runTokens c (parseScript scriptSig) vm = Inr (withItems (r # xs) (vm\<lparr>vm_tokenizer := t, vm_numOps := n, vm_opcodeIdx := i\<rparr>))"
    and r: "r \<noteq> []" "checkScriptParses 0 r = None" "length xs < 998"
  shows "executeLoop c vm =
    (if h = ripemd160 c (Sum256 r) then executeLoop c (withItems xs (vm\<lparr>vm_savedFirstStack := rev (r # xs),
       vm_astack := dropAll (vm_astack vm), vm_numOps := 0, vm_opcodeIdx := 0, vm_scripts := [scriptSig, p2shScript h, r], vm_scriptIdx := 2,
       vm_lastCodeSep := 0, vm_tokenizer := MakeScriptTokenizer 0 r\<rparr>))
     else Some (Inl ErrEvalFalse))"
proof -
  let ?vm = "vm\<lparr>vm_astack := dropAll (vm_astack vm), vm_numOps := 0, vm_opcodeIdx := 0,
      vm_savedFirstStack := rev (r # xs), vm_scriptIdx := 1, vm_lastCodeSep := 0, vm_tokenizer := MakeScriptTokenizer 0 (p2shScript h)\<rparr>"
  have "parseScript scriptSig \<noteq> []" using sig(1,2) by auto
  then have "executeLoop c vm = continue c (rbind (runTokens c (parseScript scriptSig) vm) (finishScript c))"
    by (intro executeLoop_tokens) (use vm sig in \<open>simp_all add: tokens_def MakeScriptTokenizer_def\<close>)
  also have "\<dots> = executeLoop c (withItems (r # xs) ?vm)" using vm by (simp add: sig(3) finish_save)
  also have "\<dots> = (if h = ripemd160 c (Sum256 r) then executeLoop c (withItems xs (?vm\<lparr>vm_astack := dropAll (vm_astack ?vm),
       vm_numOps := 0, vm_opcodeIdx := 0, vm_scripts := vm_scripts ?vm @ [r], vm_scriptIdx := 2, vm_lastCodeSep := 0,
       vm_tokenizer := MakeScriptTokenizer 0 r\<rparr>)) else Some (Inl ErrEvalFalse))"
    by (rule p2sh_redeem) (use vm r in \<open>simp_all add: dropAll_ontop\<close>)
  finally show ?thesis using vm(6) by (simp add: dropAll_ontop)
qed

section \<open>Witness programs nested in a pay to script hash output\<close>

lemma execute_one: "vm_condStack vm = [] \<Longrightarrow> executeOpcode c OP_1 [] (withItems xs vm) = Inr (withItems ([1] # xs) vm)"
proof -
  assume "vm_condStack vm = []"
  moreover have "opfunc c OP_1 [] = opcodeN OP_1" by (simp add: opfunc_def)
  moreover have "Bytes 1 = Some [1]" by code_simp
  then have "opcodeN OP_1 (withItems xs vm) = Inr (pushD [1] (withItems xs vm))"
    by (simp add: opcodeN_def onDstack_def PushInt_def pushD_def del: withItems_stack)
  ultimately show ?thesis by (simp add: executeOpcode_def isOpcodeDisabled_def isOpcodeAlwaysIllegal_def isBranchExecuting_def)
qed

lemma execute_zero: "vm_condStack vm = [] \<Longrightarrow> executeOpcode c OP_0 [] (withItems xs vm) = Inr (withItems ([] # xs) vm)"
  by (simp add: executeOpcode_def isOpcodeDisabled_def isOpcodeAlwaysIllegal_def isBranchExecuting_def checkMinimalDataPush_def
      opfunc_def opcodeFalse_def)

lemma run_one:
  assumes "vm_condStack vm = []" "stk (vm_astack vm) = []" "length xs < 1000"
  shows "runTokens c ((OP_1, None, raw) # toks) (withItems xs vm) =
    runTokens c toks (withItems ([1] # xs) ((nextToken vm)\<lparr>vm_opcodeIdx := vm_opcodeIdx vm + 1\<rparr>))"
  using assms by (simp add: runTokens.simps(2) execute_one Depth_def)

lemma run_zero:
  assumes "vm_condStack vm = []" "stk (vm_astack vm) = []" "length xs < 1000"
  shows "runTokens c ((OP_0, None, raw) # toks) (withItems xs vm) =
    runTokens c toks (withItems ([] # xs) ((nextToken vm)\<lparr>vm_opcodeIdx := vm_opcodeIdx vm + 1\<rparr>))"
  using assms by (simp add: runTokens.simps(2) execute_zero Depth_def)

text \<open>The test of \<^verbatim>\<open>NewEngine\<close> accepts these bytes as a push of the witness program that follows the first.\<close>

definition nestedRedeem :: "byte list" where
  "nestedRedeem = [OP_1, OP_1, OP_CHECKSIG]"

definition nestedSig :: "byte list" where
  "nestedSig = OP_1 # OP_1 # 3 # nestedRedeem"

lemma nestedSig_facts:
  "IsPushOnlyScript nestedSig" "isCanonicalPush (nestedSig ! 0) (Some (drop 1 nestedSig))" "2 < length nestedSig"
  "length nestedSig = 6" "extractWitnessProgramInfo (drop 1 nestedSig) = Some (1, nestedRedeem)"
  "isWitnessProgramScript (drop 1 nestedSig)"
  "parseScript nestedSig = [(OP_1, None, [OP_1]), (OP_1, None, [OP_1]), (3, Some nestedRedeem, 3 # nestedRedeem)]"
  "parseScript nestedRedeem = [(OP_1, None, [OP_1]), (OP_1, None, [OP_1]), (OP_CHECKSIG, None, [OP_CHECKSIG])]"
  by code_simp+

definition p2shEngine where
  "p2shEngine scriptSig h flags sigCache hashCache inputAmount fetcher tx txIdx =
     (emptyEngine flags sigCache hashCache inputAmount fetcher tx txIdx)
       \<lparr>vm_bip16 := True, vm_scripts := [scriptSig, p2shScript h], vm_scriptIdx := 0,
        vm_dstack := \<lparr>stk = [], verifyMinimalData = (flags AND ScriptVerifyMinimalData = ScriptVerifyMinimalData)\<rparr>,
        vm_astack := \<lparr>stk = [], verifyMinimalData = (flags AND ScriptVerifyMinimalData = ScriptVerifyMinimalData)\<rparr>\<rparr>"

lemma p2shEngine_fields [simp]:
  "vm_condStack (p2shEngine scriptSig h flags sigCache hashCache inputAmount fetcher tx i) = []"
  "stk (vm_astack (p2shEngine scriptSig h flags sigCache hashCache inputAmount fetcher tx i)) = []"
  "stk (vm_dstack (p2shEngine scriptSig h flags sigCache hashCache inputAmount fetcher tx i)) = []"
  "vm_taprootCtx (p2shEngine scriptSig h flags sigCache hashCache inputAmount fetcher tx i) = None"
  "vm_witnessProgram (p2shEngine scriptSig h flags sigCache hashCache inputAmount fetcher tx i) = None"
  "vm_bip16 (p2shEngine scriptSig h flags sigCache hashCache inputAmount fetcher tx i)"
  "vm_scriptIdx (p2shEngine scriptSig h flags sigCache hashCache inputAmount fetcher tx i) = 0"
  "vm_version (p2shEngine scriptSig h flags sigCache hashCache inputAmount fetcher tx i) = 0"
  "vm_scripts (p2shEngine scriptSig h flags sigCache hashCache inputAmount fetcher tx i) = [scriptSig, p2shScript h]"
  "vm_flags (p2shEngine scriptSig h flags sigCache hashCache inputAmount fetcher tx i) = flags"
  by (simp_all add: p2shEngine_def emptyEngine_def)

lemma NewEngine_p2sh:
  assumes idx: "0 \<le> txIdx" "nat txIdx < length (tx_TxIn tx)"
    and sig: "scriptSig = ti_SignatureScript (tx_TxIn tx ! nat txIdx)" "scriptSig \<noteq> []" "length scriptSig \<le> 10000"
      "IsPushOnlyScript scriptSig" "rawBytes (parseScript scriptSig) = scriptSig"
    and h: "length h = 20"
    and flags: "flags AND ScriptBip16 = ScriptBip16" "flags AND ScriptVerifyWitness = ScriptVerifyWitness"
  shows "NewEngine (p2shScript h) tx txIdx flags sigCache hashCache inputAmount fetcher =
    rbind (setWitnessProgram scriptSig (p2shScript h) (wit_items (ti_Witness (tx_TxIn tx ! nat txIdx)))
        (p2shEngine scriptSig h flags sigCache hashCache inputAmount fetcher tx (nat txIdx)))
      (\<lambda>vm. Inr (vm\<lparr>vm_tokenizer := MakeScriptTokenizer 0 (vm_scripts vm ! vm_scriptIdx vm)\<rparr>))"
proof -
  have flag: "hasFlag (emptyEngine flags sigCache hashCache inputAmount fetcher tx (nat txIdx)) f \<longleftrightarrow> flags AND f = f"
    "hasFlag (p2shEngine scriptSig h flags sigCache hashCache inputAmount fetcher tx (nat txIdx)) f \<longleftrightarrow> flags AND f = f" for f
    by (simp_all add: hasFlag_def emptyEngine_def p2shEngine_def)
  have parses: "checkScriptParses 0 (p2shScript h) = None" "checkScriptParses 0 scriptSig = None"
    using sig(5) parse_p2sh [OF h] by (simp_all add: checkScriptParses_iff p2shTokens_def)
  have scripts: "checkScripts [scriptSig, p2shScript h] = Inr ()"
    using sig(3) h parses by simp
  have c1: "\<not> (txIdx < 0 \<or> txIdx \<ge> int (length (tx_TxIn tx)))" using idx by simp
  show ?thesis
    unfolding NewEngine_def Let_def flag if_not_P [OF c1] sig(1) [symmetric]
    using sig(2,4) flags isScriptHash_p2sh [OF h] scripts flag(2)
    by (simp add: p2shEngine_def del: checkScripts.simps)
qed

lemma checkSig_nil:
  assumes "vm_taprootCtx vm = None" "vm_witnessProgram vm \<noteq> None" "vm_witnessVersion vm \<noteq> 0" "sig \<noteq> []"
  shows "opcodeCheckSig c (withItems (pk # sig # xs) vm) = Inl (Panic ''nil sigVerifier'')"
  using assms by (auto simp: opcodeCheckSig_def isWitnessVersionActive_def)

lemma nested_executeLoop:
  assumes vm: "vm = (p2shEngine nestedSig h flags sigCache hashCache inputAmount fetcher tx i)
    \<lparr>vm_witnessVersion := 1, vm_witnessProgram := Some nestedRedeem, vm_tokenizer := MakeScriptTokenizer 0 nestedSig\<rparr>"
    and h: "h = ripemd160 c (Sum256 nestedRedeem)" "length h = 20"
  shows "executeLoop c vm = Some (Inl (Panic ''nil sigVerifier''))"
proof -
  have fields: "vm_condStack vm = []" "stk (vm_astack vm) = []" "stk (vm_dstack vm) = []" "vm_taprootCtx vm = None" "vm_bip16 vm"
    "vm_scriptIdx vm = 0" "vm_scripts vm = [nestedSig, p2shScript h]" "vm_version vm = 0"
    "vm_tokenizer vm = MakeScriptTokenizer 0 nestedSig" "vm_witnessVersion vm = 1" "vm_witnessProgram vm = Some nestedRedeem"
    by (simp_all add: vm)
  have self: "vm = withItems [] vm" using withItems_self [of vm] fields(3) by simp
  have three: "unat (3 :: byte) = length nestedRedeem" "length nestedRedeem = 3" by (simp_all add: nestedRedeem_def)
  have "runTokens c (parseScript nestedSig) (withItems [] vm) = Inr (withItems [nestedRedeem, [1], [1]]
      (vm\<lparr>vm_tokenizer := snd (Next (snd (Next (snd (Next (vm_tokenizer vm)))))), vm_numOps := vm_numOps vm,
        vm_opcodeIdx := Suc (Suc (Suc (vm_opcodeIdx vm)))\<rparr>))"
    unfolding nestedSig_facts(7) using fields three by (simp add: run_one run_data)
  then have run: "runTokens c (parseScript nestedSig) vm = Inr (withItems [nestedRedeem, [1], [1]]
      (vm\<lparr>vm_tokenizer := snd (Next (snd (Next (snd (Next (vm_tokenizer vm)))))), vm_numOps := vm_numOps vm,
        vm_opcodeIdx := Suc (Suc (Suc (vm_opcodeIdx vm)))\<rparr>))" using self by simp
  let ?vm = "vm\<lparr>vm_savedFirstStack := rev [nestedRedeem, [1], [1]], vm_astack := dropAll (vm_astack vm), vm_numOps := 0,
      vm_opcodeIdx := 0, vm_scripts := [nestedSig, p2shScript h, nestedRedeem], vm_scriptIdx := 2, vm_lastCodeSep := 0,
      vm_tokenizer := MakeScriptTokenizer 0 nestedRedeem\<rparr>"
  have "executeLoop c vm = (if h = ripemd160 c (Sum256 nestedRedeem) then executeLoop c (withItems [[1], [1]] ?vm)
      else Some (Inl ErrEvalFalse))"
    by (rule p2sh_run [OF fields(1,2,4-9) h(2) _ _ run])
      (use nestedSig_facts(4,7,8) in \<open>auto simp: checkScriptParses_iff nestedSig_def nestedRedeem_def\<close>)
  also have "\<dots> = executeLoop c (withItems [[1], [1]] ?vm)" using h(1) by simp
  also have "\<dots> = continue c (rbind (runTokens c (parseScript nestedRedeem) (withItems [[1], [1]] ?vm)) (finishScript c))"
    by (rule executeLoop_tokens) (simp_all add: tokens_def MakeScriptTokenizer_def nestedSig_facts(8), simp add: nestedRedeem_def)
  also have "runTokens c (parseScript nestedRedeem) (withItems [[1], [1]] ?vm) = Inl (Panic ''nil sigVerifier'')"
    unfolding nestedSig_facts(8) using fields by (simp add: run_one run_op checkSig_nil dropAll_ontop)
  finally show ?thesis by simp
qed

text \<open>C13: A spend of a pay to script hash output can make the node panic: the check on a nested witness program takes the bytes after
  the first of the signature script for the program without testing that the first byte pushes them, so a redeem script with a
  signature check runs while a witness program of version 1 is set, for which no verifier is chosen.\<close>

theorem nested_program_panics:
  assumes "0 \<le> txIdx" "nat txIdx < length (tx_TxIn tx)" "ti_SignatureScript (tx_TxIn tx ! nat txIdx) = nestedSig"
    and "wit_items (ti_Witness (tx_TxIn tx ! nat txIdx)) \<noteq> []" "\<forall>b. length (ripemd160 c b) = 20"
    and flags: "flags AND ScriptBip16 = ScriptBip16" "flags AND ScriptVerifyWitness = ScriptVerifyWitness"
  shows "\<exists>vm. NewEngine (p2shScript (ripemd160 c (Sum256 nestedRedeem))) tx txIdx flags sigCache hashCache inputAmount fetcher = Inr vm \<and>
    Execute c vm = Some (Inl (Panic ''nil sigVerifier''))"
proof -
  let ?h = "ripemd160 c (Sum256 nestedRedeem)"
  let ?E = "p2shEngine nestedSig ?h flags sigCache hashCache inputAmount fetcher tx (nat txIdx)"
  let ?vm = "?E\<lparr>vm_witnessVersion := 1, vm_witnessProgram := Some nestedRedeem, vm_tokenizer := MakeScriptTokenizer 0 nestedSig\<rparr>"
  have h: "length ?h = 20" using assms(5) by blast
  have "\<not> isWitnessProgramScript (p2shScript ?h)" using scriptHash_no_program [OF isScriptHash_p2sh [OF h]] .
  then have "setWitnessProgram nestedSig (p2shScript ?h) (wit_items (ti_Witness (tx_TxIn tx ! nat txIdx))) ?E =
      Inr (?E\<lparr>vm_witnessVersion := 1, vm_witnessProgram := Some nestedRedeem\<rparr>)"
    using assms(4) flags(1) nestedSig_facts
    by (simp add: setWitnessProgram_def findWitnessProgram_def hasFlag_def ExtractWitnessProgramInfo_def)
  moreover have "NewEngine (p2shScript ?h) tx txIdx flags sigCache hashCache inputAmount fetcher =
    rbind (setWitnessProgram nestedSig (p2shScript ?h) (wit_items (ti_Witness (tx_TxIn tx ! nat txIdx))) ?E)
      (\<lambda>vm. Inr (vm\<lparr>vm_tokenizer := MakeScriptTokenizer 0 (vm_scripts vm ! vm_scriptIdx vm)\<rparr>))"
    by (rule NewEngine_p2sh [OF assms(1,2) assms(3) [symmetric] _ _ nestedSig_facts(1) _ h flags])
      (simp_all add: nestedSig_facts(4,7), simp_all add: nestedSig_def nestedRedeem_def)
  ultimately have new: "NewEngine (p2shScript ?h) tx txIdx flags sigCache hashCache inputAmount fetcher = Inr ?vm" by simp
  have "executeLoop c ?vm = Some (Inl (Panic ''nil sigVerifier''))" by (rule nested_executeLoop [OF refl refl h])
  then have "Execute c ?vm = Some (Inl (Panic ''nil sigVerifier''))" by (simp add: Execute_def)
  with new show ?thesis by blast
qed

theorem nested_program_panics_witness:
  "\<exists>vm. NewEngine (p2shScript (replicate 20 7)) (sample_input nestedSig (Some [[1]])) 0 (ScriptBip16 OR ScriptVerifyWitness) None None 1000 None =
     Inr vm \<and> Execute sample_crypto vm = Some (Inl (Panic ''nil sigVerifier''))"
proof -
  let ?tx = "sample_input nestedSig (Some [[1]])"
  have "\<exists>vm. NewEngine (p2shScript (ripemd160 sample_crypto (Sum256 nestedRedeem))) ?tx 0 (ScriptBip16 OR ScriptVerifyWitness) None None 1000 None =
      Inr vm \<and> Execute sample_crypto vm = Some (Inl (Panic ''nil sigVerifier''))"
    by (rule nested_program_panics) (simp_all add: sample_input_def sample_crypto_def)
  then show ?thesis by (simp add: sample_crypto_def)
qed

text \<open>A nested program of version 0, and no witness: nothing is verified.\<close>

abbreviation keyProgram :: "byte list \<Rightarrow> byte list" where
  "keyProgram keyHash \<equiv> OP_0 # OP_DATA_20 # keyHash"

lemma parse_keyProgram:
  assumes "length keyHash = 20"
  shows "parseScript (keyProgram keyHash) = [(OP_0, None, [OP_0]), (OP_DATA_20, Some keyHash, OP_DATA_20 # keyHash)]"
  using parseScript_data [of OP_DATA_20 keyHash "[]"] assms by (simp add: parseScript_op opcodeLength_def)

lemma pushOnly_loop:
  assumes "\<forall>(op, data, raw) \<in> set (tokens t). op \<le> OP_16"
  shows "tokenLoop (\<lambda>_ t. if the (tz_op t) > OP_16 then (False, True) else (True, False)) True t = (True, parseEnd t)"
  using assms
proof (induction "length (tz_script t) - tz_offset t" arbitrary: t rule: less_induct)
  case less
  obtain ok t' where N: "Next t = (ok, t')" by (cases "Next t")
  show ?case
  proof (cases ok)
    case True
    with N have "length (tz_script t') - tz_offset t' < length (tz_script t) - tz_offset t" by (intro Next_measure) simp
    moreover have "tokens t = (the (tz_op t'), tz_data t', slice (tz_offset t) (tz_offset t') (tz_script t)) # tokens t'"
      using N True by (intro tokens_step) simp
    ultimately show ?thesis using less N True by (simp add: tokenLoop.simps [of _ _ t] parseEnd_def not_le [symmetric])
  qed (simp add: N tokenLoop.simps [of _ _ t] parseEnd_def)
qed

lemma IsPushOnlyScript_tokens:
  assumes "\<forall>(op, data, raw) \<in> set (parseScript s). op \<le> OP_16" "rawBytes (parseScript s) = s"
  shows "IsPushOnlyScript s"
  using pushOnly_loop [of "MakeScriptTokenizer 0 s"] parseEnd_err [of "MakeScriptTokenizer 0 s"] assms
  by (simp add: IsPushOnlyScript_def MakeScriptTokenizer_def tokens_def)

lemma keyProgram_push:
  assumes "length keyHash = 20"
  shows "parseScript (dataPush (keyProgram keyHash)) =
      [(word_of_nat (length (keyProgram keyHash)), Some (keyProgram keyHash), dataPush (keyProgram keyHash))]"
    "IsPushOnlyScript (dataPush (keyProgram keyHash))"
proof -
  show parse: "parseScript (dataPush (keyProgram keyHash)) =
      [(word_of_nat (length (keyProgram keyHash)), Some (keyProgram keyHash), dataPush (keyProgram keyHash))]"
    using parse_dataPush [of "keyProgram keyHash" "[]"] assms by simp
  show "IsPushOnlyScript (dataPush (keyProgram keyHash))"
    by (rule IsPushOnlyScript_tokens; unfold parse) (use assms in simp_all)
qed

lemma finish_third:
  assumes "vm_condStack vm = []" "vm_bip16 vm" "vm_witnessProgram vm = None" "vm_scriptIdx vm = 2" "length (vm_scripts vm) = 3"
  shows "finishScript c vm = Inr (True, vm\<lparr>vm_astack := dropAll (vm_astack vm), vm_numOps := 0, vm_opcodeIdx := 0,
    vm_scriptIdx := 3, vm_lastCodeSep := 0\<rparr>)"
  using assms by (simp add: finishScript_def advanceScript_def Let_def numeral_3_eq_3)

lemma keyProgram_executeLoop:
  assumes vm: "vm = (p2shEngine (dataPush (keyProgram keyHash)) h flags sigCache hashCache inputAmount fetcher tx i)
      \<lparr>vm_tokenizer := MakeScriptTokenizer 0 (dataPush (keyProgram keyHash))\<rparr>"
    and h: "h = ripemd160 c (Sum256 (keyProgram keyHash))" "length h = 20" and len: "length keyHash = 20"
  shows "\<exists>vm'. executeLoop c vm = Some (Inr (withItems [keyHash, []] vm')) \<and> vm_flags vm' = flags \<and> vm_taprootCtx vm' = None \<and>
    vm_witnessProgram vm' = None \<and> length (vm_scripts vm') = 3 \<and> vm_scriptIdx vm' = 3"
proof -
  let ?p = "keyProgram keyHash"
  have fields: "vm_condStack vm = []" "stk (vm_astack vm) = []" "stk (vm_dstack vm) = []" "vm_taprootCtx vm = None" "vm_bip16 vm"
    "vm_scriptIdx vm = 0" "vm_scripts vm = [dataPush ?p, p2shScript h]" "vm_version vm = 0"
    "vm_tokenizer vm = MakeScriptTokenizer 0 (dataPush ?p)" "vm_witnessProgram vm = None" "vm_flags vm = flags"
    by (simp_all add: vm)
  have self: "vm = withItems [] vm" using withItems_self [of vm] fields(3) by simp
  have plen: "2 \<le> length ?p" "length ?p \<le> 75" using len by simp_all
  have "runTokens c (parseScript (dataPush ?p)) (withItems [] vm) = Inr (withItems [?p] (vm\<lparr>vm_tokenizer := snd (Next (vm_tokenizer vm)),
      vm_numOps := vm_numOps vm, vm_opcodeIdx := Suc (vm_opcodeIdx vm)\<rparr>))"
    unfolding keyProgram_push(1) [OF len] using fields run_data [OF fields(1,2) unat_dataPush [OF plen] plen, of "[]" c] by simp
  then have run: "runTokens c (parseScript (dataPush ?p)) vm = Inr (withItems [?p] (vm\<lparr>vm_tokenizer := snd (Next (vm_tokenizer vm)),
      vm_numOps := vm_numOps vm, vm_opcodeIdx := Suc (vm_opcodeIdx vm)\<rparr>))" using self by simp
  let ?vm = "vm\<lparr>vm_savedFirstStack := rev [?p], vm_astack := dropAll (vm_astack vm), vm_numOps := 0,
      vm_opcodeIdx := 0, vm_scripts := [dataPush ?p, p2shScript h, ?p], vm_scriptIdx := 2, vm_lastCodeSep := 0,
      vm_tokenizer := MakeScriptTokenizer 0 ?p\<rparr>"
  have "executeLoop c vm = (if h = ripemd160 c (Sum256 ?p) then executeLoop c (withItems [] ?vm) else Some (Inl ErrEvalFalse))"
    by (rule p2sh_run [OF fields(1,2,4-9) h(2) _ _ run])
      (use keyProgram_push(1) [OF len] parse_keyProgram [OF len] in \<open>auto simp: checkScriptParses_iff\<close>)
  also have "\<dots> = executeLoop c (withItems [] ?vm)" using h(1) by simp
  also have "\<dots> = continue c (rbind (runTokens c (parseScript ?p) (withItems [] ?vm)) (finishScript c))"
    by (rule executeLoop_tokens) (simp_all add: tokens_def MakeScriptTokenizer_def parse_keyProgram [OF len])
  also have "\<dots> = Some (Inr (withItems [keyHash, []] (vm\<lparr>vm_savedFirstStack := rev [?p],
      vm_scripts := [dataPush ?p, p2shScript h, ?p], vm_tokenizer := snd (Next (snd (Next (MakeScriptTokenizer 0 ?p)))),
      vm_astack := dropAll (vm_astack vm), vm_numOps := 0, vm_opcodeIdx := 0, vm_scriptIdx := 3, vm_lastCodeSep := 0\<rparr>)))"
    unfolding parse_keyProgram [OF len] using fields len
    by (simp add: run_zero run_data dropAll_ontop finish_third)
  finally have run: "executeLoop c vm = \<dots>" .
  show ?thesis by (intro exI conjI, rule run) (use fields in simp_all)
qed

text \<open>C14: An output that pays to a nested witness program of version 0 is spent without any signature: with an empty witness \<^verbatim>\<open>NewEngine\<close> does
  not look for a nested program, and the redeem script, two pushes, succeeds by itself.\<close>

theorem nested_program_unverified:
  assumes "0 \<le> txIdx" "nat txIdx < length (tx_TxIn tx)" "ti_SignatureScript (tx_TxIn tx ! nat txIdx) = dataPush (keyProgram keyHash)"
    and "wit_items (ti_Witness (tx_TxIn tx ! nat txIdx)) = []" "\<forall>b. length (ripemd160 c b) = 20"
    and key: "length keyHash = 20" "asBool keyHash"
    and flags: "flags AND ScriptBip16 = ScriptBip16" "flags AND ScriptVerifyWitness = ScriptVerifyWitness"
      "flags AND ScriptVerifyCleanStack \<noteq> ScriptVerifyCleanStack"
  shows "\<exists>vm. NewEngine (p2shScript (ripemd160 c (Sum256 (keyProgram keyHash)))) tx txIdx flags sigCache hashCache inputAmount fetcher =
      Inr vm \<and> Execute c vm = Some (Inr ())"
proof -
  let ?s = "dataPush (keyProgram keyHash)" and ?h = "ripemd160 c (Sum256 (keyProgram keyHash))"
  let ?E = "p2shEngine ?s ?h flags sigCache hashCache inputAmount fetcher tx (nat txIdx)"
  let ?vm = "?E\<lparr>vm_tokenizer := MakeScriptTokenizer 0 ?s\<rparr>"
  have h: "length ?h = 20" using assms(5) by blast
  have "\<not> isWitnessProgramScript (p2shScript ?h)" using scriptHash_no_program [OF isScriptHash_p2sh [OF h]] .
  then have "setWitnessProgram ?s (p2shScript ?h) (wit_items (ti_Witness (tx_TxIn tx ! nat txIdx))) ?E = Inr ?E"
    using assms(4) flags(1) by (simp add: setWitnessProgram_def findWitnessProgram_def hasFlag_def)
  moreover have "NewEngine (p2shScript ?h) tx txIdx flags sigCache hashCache inputAmount fetcher =
    rbind (setWitnessProgram ?s (p2shScript ?h) (wit_items (ti_Witness (tx_TxIn tx ! nat txIdx))) ?E)
      (\<lambda>vm. Inr (vm\<lparr>vm_tokenizer := MakeScriptTokenizer 0 (vm_scripts vm ! vm_scriptIdx vm)\<rparr>))"
    by (rule NewEngine_p2sh [OF assms(1,2) assms(3) [symmetric] _ _ keyProgram_push(2) [OF key(1)] _ h flags(1,2)])
      (use key(1) keyProgram_push(1) [OF key(1)] in simp_all)
  ultimately have new: "NewEngine (p2shScript ?h) tx txIdx flags sigCache hashCache inputAmount fetcher = Inr ?vm" by simp
  obtain vm' where vm': "executeLoop c ?vm = Some (Inr (withItems [keyHash, []] vm'))" "vm_flags vm' = flags"
    "vm_taprootCtx vm' = None" "vm_witnessProgram vm' = None" "length (vm_scripts vm') = 3" "vm_scriptIdx vm' = 3"
    using keyProgram_executeLoop [OF refl refl h key(1)] by blast
  have "CheckErrorCondition True (withItems [keyHash, []] vm') = Inr (withItems [[]] vm')"
    using vm' flags(3) key(2) by (simp add: CheckErrorCondition_def isWitnessVersionActive_def Let_def hasFlag_def)
  then have "Execute c ?vm = Some (Inr ())" using vm'(1) by (simp add: Execute_def)
  with new show ?thesis by blast
qed

theorem nested_program_unverified_witness:
  "\<exists>vm. NewEngine (p2shScript (replicate 20 7)) (sample_input (dataPush (keyProgram (replicate 20 9))) None) 0
     (ScriptBip16 OR ScriptVerifyWitness) None None 1000 None = Inr vm \<and> Execute sample_crypto vm = Some (Inr ())"
proof -
  let ?tx = "sample_input (dataPush (keyProgram (replicate 20 9))) None"
  have truthy: "asBool (replicate 20 9)" by code_simp
  have "\<exists>vm. NewEngine (p2shScript (ripemd160 sample_crypto (Sum256 (keyProgram (replicate 20 9))))) ?tx 0
      (ScriptBip16 OR ScriptVerifyWitness) None None 1000 None = Inr vm \<and> Execute sample_crypto vm = Some (Inr ())"
    by (rule nested_program_unverified) (simp_all add: truthy sample_input_def sample_crypto_def)
  then show ?thesis by (simp add: sample_crypto_def)
qed

end
