(* ===== verification/Wire_Block.thy ===== *)
theory Wire_Block
  imports Wire_Tx Sha256
begin

text \<open>
  Block headers and blocks (\<^verbatim>\<open>wire/blockheader.go\<close>, \<^verbatim>\<open>wire/msgblock.go\<close>).  A timestamp is its
  number of seconds since the epoch; on the wire it has 32 bits.
\<close>

section \<open>Headers\<close>

record BlockHeader =
  bh_Version :: uint32
  bh_PrevBlock :: hash
  bh_MerkleRoot :: hash
  bh_Timestamp :: int
  bh_Bits :: uint32
  bh_Nonce :: uint32

definition writeBlockHeader :: "BlockHeader \<Rightarrow> byte list" where
  "writeBlockHeader bh =
     (let sec = word_of_int (bh_Timestamp bh) in
      PutUint32 LittleEndian (bh_Version bh) @ bh_PrevBlock bh @ bh_MerkleRoot bh @
      PutUint32 LittleEndian sec @ PutUint32 LittleEndian (bh_Bits bh) @
      PutUint32 LittleEndian (bh_Nonce bh))"

definition readBlockHeader :: "byte list \<Rightarrow> BlockHeader read_result" where
  "readBlockHeader r =
     rbind (Uint32 LittleEndian r) (\<lambda>(version, r).
     rbind (ReadFull HashSize r) (\<lambda>(prev, r).
     rbind (ReadFull HashSize r) (\<lambda>(root, r).
     rbind (Uint32 LittleEndian r) (\<lambda>(sec, r).
     rbind (Uint32 LittleEndian r) (\<lambda>(bits, r).
     rbind (Uint32 LittleEndian r) (\<lambda>(nonce, r).
       Inr (\<lparr>bh_Version = version, bh_PrevBlock = prev, bh_MerkleRoot = root,
             bh_Timestamp = uint sec, bh_Bits = bits, bh_Nonce = nonce\<rparr>, r)))))))"

definition BlockHash :: "BlockHeader \<Rightarrow> hash" where
  "BlockHash h = DoubleHashH (writeBlockHeader h)"

abbreviation blockHeaderLen :: nat where
  "blockHeaderLen \<equiv> 80"

section \<open>Blocks\<close>

record MsgBlock =
  mb_Header :: BlockHeader
  mb_Transactions :: "MsgTx list"

definition maxTxPerBlock :: nat where
  "maxTxPerBlock = 4000000 div 10 + 1"

definition MsgBlock_BtcEncode :: "MessageEncoding \<Rightarrow> MsgBlock \<Rightarrow> byte list" where
  "MsgBlock_BtcEncode enc msg =
     writeBlockHeader (mb_Header msg) @
     WriteVarInt (word_of_nat (length (mb_Transactions msg))) @
     write_all (BtcEncode enc) (mb_Transactions msg)"

definition MsgBlock_BtcDecode :: "MessageEncoding \<Rightarrow> byte list \<Rightarrow> MsgBlock read_result" where
  "MsgBlock_BtcDecode enc r =
     rbind (readBlockHeader r) (\<lambda>(header, r).
     rbind (ReadVarInt r) (\<lambda>(txCount, r).
     if unat txCount > maxTxPerBlock then Inl (MessageError ''MsgBlock.BtcDecode'') else
     rbind (read_n (BtcDecode enc) (unat txCount) r) (\<lambda>(txs, r).
       Inr (\<lparr>mb_Header = header, mb_Transactions = txs\<rparr>, r))))"

definition MsgBlock_Serialize :: "MsgBlock \<Rightarrow> byte list" where
  "MsgBlock_Serialize msg = MsgBlock_BtcEncode WitnessEncoding msg"

definition MsgBlock_Deserialize :: "byte list \<Rightarrow> MsgBlock read_result" where
  "MsgBlock_Deserialize r = MsgBlock_BtcDecode WitnessEncoding r"

definition MsgBlock_SerializeNoWitness :: "MsgBlock \<Rightarrow> byte list" where
  "MsgBlock_SerializeNoWitness msg = MsgBlock_BtcEncode BaseEncoding msg"

definition MsgBlock_DeserializeNoWitness :: "byte list \<Rightarrow> MsgBlock read_result" where
  "MsgBlock_DeserializeNoWitness r = MsgBlock_BtcDecode BaseEncoding r"

record TxLoc =
  TxStart :: nat
  TxLen :: nat

fun readTxLocs :: "nat \<Rightarrow> nat \<Rightarrow> byte list \<Rightarrow> (MsgTx list \<times> TxLoc list) read_result" where
  "readTxLocs fullLen 0 r = Inr (([], []), r)"
| "readTxLocs fullLen (Suc n) r =
     (let start = fullLen - length r in
      rbind (Deserialize r) (\<lambda>(tx, r).
      let loc = \<lparr>TxStart = start, TxLen = (fullLen - length r) - start\<rparr> in
      rbind (readTxLocs fullLen n r) (\<lambda>((txs, locs), r). Inr ((tx # txs, loc # locs), r))))"

definition DeserializeTxLoc :: "byte list \<Rightarrow> (MsgBlock \<times> TxLoc list) read_result" where
  "DeserializeTxLoc r =
     (let fullLen = length r in
      rbind (readBlockHeader r) (\<lambda>(header, r).
      rbind (ReadVarInt r) (\<lambda>(txCount, r).
      if unat txCount > maxTxPerBlock then Inl (MessageError ''MsgBlock.DeserializeTxLoc'') else
      rbind (readTxLocs fullLen (unat txCount) r) (\<lambda>((txs, locs), r).
        Inr ((\<lparr>mb_Header = header, mb_Transactions = txs\<rparr>, locs), r)))))"

definition MsgBlock_SerializeSize :: "MsgBlock \<Rightarrow> nat" where
  "MsgBlock_SerializeSize msg =
     foldl (\<lambda>n tx. n + SerializeSize tx)
       (blockHeaderLen + VarIntSerializeSize (word_of_nat (length (mb_Transactions msg))))
       (mb_Transactions msg)"

definition MsgBlock_SerializeSizeStripped :: "MsgBlock \<Rightarrow> nat" where
  "MsgBlock_SerializeSizeStripped msg =
     foldl (\<lambda>n tx. n + SerializeSizeStripped tx)
       (blockHeaderLen + VarIntSerializeSize (word_of_nat (length (mb_Transactions msg))))
       (mb_Transactions msg)"

section \<open>Round trips\<close>

definition valid_BlockHeader :: "BlockHeader \<Rightarrow> bool" where
  "valid_BlockHeader bh \<longleftrightarrow>
     is_hash (bh_PrevBlock bh) \<and> is_hash (bh_MerkleRoot bh) \<and>
     0 \<le> bh_Timestamp bh \<and> bh_Timestamp bh < 2 ^ 32"

interpretation header: canonical_codec writeBlockHeader readBlockHeader valid_BlockHeader
proof unfold_locales
  show "readBlockHeader (writeBlockHeader bh @ rest) = Inr (bh, rest)" if "valid_BlockHeader bh" for bh rest
    using that
    by (simp add: writeBlockHeader_def readBlockHeader_def valid_BlockHeader_def is_hash_def Let_def
        unsigned_of_int take_bit_int_eq_self)
  show "valid_BlockHeader bh \<and> bs = writeBlockHeader bh @ rest"
    if "readBlockHeader bs = Inr (bh, rest)" for bs bh rest
  proof -
    have "uint w < 2 ^ 32" for w :: uint32 using unsigned_less [of w] by simp
    with that show ?thesis
      by (auto simp: writeBlockHeader_def readBlockHeader_def valid_BlockHeader_def is_hash_def Let_def
          rbind_eq_Inr uint32.get_iff ReadFull_eq_Inr)
  qed
qed

lemma length_writeBlockHeader: "valid_BlockHeader bh \<Longrightarrow> length (writeBlockHeader bh) = blockHeaderLen"
  by (simp add: writeBlockHeader_def valid_BlockHeader_def is_hash_def HashSize_def
      Let_def)

text \<open>
  A transaction that comes back unchanged: within the limits, with an input, and with the
  witnesses in the form the decoder gives them.
\<close>

definition valid_block_tx :: "MsgTx \<Rightarrow> bool" where
  "valid_block_tx tx \<longleftrightarrow> valid_MsgTx tx \<and> tx_TxIn tx \<noteq> [] \<and> normal_witness tx = tx"

definition valid_MsgBlock :: "MsgBlock \<Rightarrow> bool" where
  "valid_MsgBlock msg \<longleftrightarrow>
     valid_BlockHeader (mb_Header msg) \<and> length (mb_Transactions msg) \<le> maxTxPerBlock \<and>
     list_all valid_block_tx (mb_Transactions msg)"

lemma unat_txCount:
  "length txs \<le> maxTxPerBlock \<Longrightarrow> unat (word_of_nat (length txs) :: uint64) = length txs"
  by (simp add: maxTxPerBlock_def unat_of_nat)

lemma read_block_txs:
  "list_all valid_block_tx txs \<Longrightarrow>
     read_n (BtcDecode WitnessEncoding) (length txs) (write_all (BtcEncode WitnessEncoding) txs @ rest) =
     Inr (txs, rest)"
  using witnesstx.read_n_write_all [of txs rest] by (simp add: valid_block_tx_def [abs_def])

interpretation block: codec MsgBlock_Serialize MsgBlock_Deserialize valid_MsgBlock
proof unfold_locales
  fix msg rest
  assume "valid_MsgBlock msg"
  then show "MsgBlock_Deserialize (MsgBlock_Serialize msg @ rest) = Inr (msg, rest)"
    by (simp add: MsgBlock_Deserialize_def MsgBlock_Serialize_def MsgBlock_BtcDecode_def
        MsgBlock_BtcEncode_def valid_MsgBlock_def header.get_put ReadVarInt_WriteVarInt unat_txCount
        read_block_txs)
qed

lemma block_base_iff:
  "MsgBlock_DeserializeNoWitness bs = Inr (msg, rest) \<longleftrightarrow>
     valid_BlockHeader (mb_Header msg) \<and> length (mb_Transactions msg) \<le> maxTxPerBlock \<and>
     list_all (\<lambda>tx. valid_MsgTx tx \<and> strip_witness tx = tx) (mb_Transactions msg) \<and>
     bs = MsgBlock_SerializeNoWitness msg @ rest" (is "?get \<longleftrightarrow> ?put")
proof
  assume ?get
  then obtain h r1 c r2 txs where
    h: "readBlockHeader bs = Inr (h, r1)" and c: "ReadVarInt r1 = Inr (c, r2)" "unat c \<le> maxTxPerBlock"
    and txs: "read_n (BtcDecode BaseEncoding) (unat c) r2 = Inr (txs, rest)"
    and msg: "msg = \<lparr>mb_Header = h, mb_Transactions = txs\<rparr>"
    by (auto simp: MsgBlock_DeserializeNoWitness_def MsgBlock_BtcDecode_def rbind_eq_Inr not_less
        split: if_splits)
  from basetx.read_n_canonical [OF txs] h c show ?put
    by (auto simp: msg header.get_iff varint.get_iff MsgBlock_SerializeNoWitness_def MsgBlock_BtcEncode_def)
next
  assume ?put
  then show ?get
    by (simp add: MsgBlock_DeserializeNoWitness_def MsgBlock_BtcDecode_def MsgBlock_SerializeNoWitness_def
        MsgBlock_BtcEncode_def header.get_put ReadVarInt_WriteVarInt unat_txCount basetx.read_n_write_all)
qed

section \<open>Transaction locations\<close>

text \<open>The locations of transactions written one after another from offset \<open>off\<close> on.\<close>

fun locs_from :: "nat \<Rightarrow> MsgTx list \<Rightarrow> TxLoc list" where
  "locs_from off [] = []"
| "locs_from off (tx # txs) =
     \<lparr>TxStart = off, TxLen = length (Serialize tx)\<rparr> # locs_from (off + length (Serialize tx)) txs"

lemma readTxLocs_write:
  assumes "list_all valid_block_tx txs"
  shows "readTxLocs (off + length (write_all Serialize txs @ rest)) (length txs)
    (write_all Serialize txs @ rest) = Inr ((txs, locs_from off txs), rest)"
  using assms
proof (induction txs arbitrary: off)
  case Nil
  then show ?case by simp
next
  case (Cons tx txs)
  have "Deserialize (Serialize tx @ r) = Inr (tx, r)" for r
    using Cons.prems BtcDecode_witness [of tx r]
    by (simp add: valid_block_tx_def Deserialize_def Serialize_def)
  with Cons.IH [of "off + length (Serialize tx)"] Cons.prems show ?case
    by (simp add: Let_def add.assoc)
qed

lemma locs_from_slice:
  assumes "length pre = off" "i < length txs"
  shows "length (locs_from off txs) = length txs \<and>
    slice (TxStart (locs_from off txs ! i)) (TxStart (locs_from off txs ! i) + TxLen (locs_from off txs ! i))
      (pre @ write_all Serialize txs @ rest) = Serialize (txs ! i)"
  using assms
proof (induction txs arbitrary: pre off i)
  case Nil
  then show ?case by simp
next
  case (Cons tx txs)
  have len: "length (locs_from k ts) = length ts" for k ts
    by (induction k ts rule: locs_from.induct) simp_all
  show ?case
  proof (cases i)
    case 0
    with Cons.prems show ?thesis by (simp add: slice_append len)
  next
    case (Suc j)
    with Cons.IH [of "pre @ Serialize tx" "off + length (Serialize tx)" j] Cons.prems show ?thesis
      by (simp add: len)
  qed
qed

lemma Serialize_eq: "BtcEncode WitnessEncoding = Serialize"
  by (rule ext) (simp add: Serialize_def)

lemma DeserializeTxLoc_write:
  assumes "valid_MsgBlock msg"
  shows "DeserializeTxLoc (MsgBlock_Serialize msg @ rest) =
    Inr ((msg, locs_from (blockHeaderLen + VarIntSerializeSize (word_of_nat (length (mb_Transactions msg))))
      (mb_Transactions msg)), rest)"
proof -
  let ?txs = "mb_Transactions msg"
  let ?off = "blockHeaderLen + VarIntSerializeSize (word_of_nat (length ?txs))"
  have v: "valid_BlockHeader (mb_Header msg)" "length ?txs \<le> maxTxPerBlock" "list_all valid_block_tx ?txs"
    using assms by (simp_all add: valid_MsgBlock_def)
  have len: "length (MsgBlock_Serialize msg @ rest) = ?off + length (write_all Serialize ?txs @ rest)"
    using v by (simp add: MsgBlock_Serialize_def MsgBlock_BtcEncode_def length_writeBlockHeader
        length_WriteVarInt Serialize_eq)
  show ?thesis
    unfolding DeserializeTxLoc_def Let_def len
    using v readTxLocs_write [OF v(3), of ?off rest]
    by (simp add: MsgBlock_Serialize_def MsgBlock_BtcEncode_def header.get_put ReadVarInt_WriteVarInt
        unat_txCount Serialize_eq)
qed

section \<open>Properties\<close>

definition sample_header :: BlockHeader where
  "sample_header =
     \<lparr>bh_Version = 1, bh_PrevBlock = zeroHash, bh_MerkleRoot = zeroHash, bh_Timestamp = 1231006505,
      bh_Bits = 0x1d00ffff, bh_Nonce = 2083236893\<rparr>"

definition sample_block :: MsgBlock where
  "sample_block = \<lparr>mb_Header = sample_header, mb_Transactions = [sample_tx, sample_tx]\<rparr>"

lemma valid_sample_block: "valid_MsgBlock sample_block"
  by (simp add: valid_MsgBlock_def valid_BlockHeader_def sample_block_def sample_header_def
      maxTxPerBlock_def valid_block_tx_def sample_tx_simps normal_witness_def fill_TxIn_def)

text \<open>
  C29: blocks survive the wire.  Decoding a serialized block with its transactions and
  witnesses returns the block and leaves the bytes after it; decoding it with transaction
  locations returns the same block and, for every transaction, the range of bytes that is
  its serialization.
\<close>

theorem block_roundtrip_locs:
  assumes "valid_MsgBlock msg"
  shows "MsgBlock_Deserialize (MsgBlock_Serialize msg @ rest) = Inr (msg, rest) \<and>
    (\<exists>locs. DeserializeTxLoc (MsgBlock_Serialize msg @ rest) = Inr ((msg, locs), rest) \<and>
       length locs = length (mb_Transactions msg) \<and>
       (\<forall>i<length locs. slice (TxStart (locs ! i)) (TxStart (locs ! i) + TxLen (locs ! i))
          (MsgBlock_Serialize msg @ rest) = Serialize (mb_Transactions msg ! i)))"
proof -
  let ?txs = "mb_Transactions msg"
  let ?pre = "writeBlockHeader (mb_Header msg) @ WriteVarInt (word_of_nat (length ?txs))"
  let ?off = "blockHeaderLen + VarIntSerializeSize (word_of_nat (length ?txs))"
  have pre: "length ?pre = ?off"
    using assms by (simp add: valid_MsgBlock_def length_writeBlockHeader length_WriteVarInt)
  have ser: "MsgBlock_Serialize msg @ rest = ?pre @ write_all Serialize ?txs @ rest"
    by (simp add: MsgBlock_Serialize_def MsgBlock_BtcEncode_def Serialize_eq)
  have len: "length (locs_from k ts) = length ts" for k ts
    by (induction k ts rule: locs_from.induct) simp_all
  let ?locs = "locs_from ?off ?txs"
  have "\<forall>i<length ?locs. slice (TxStart (?locs ! i)) (TxStart (?locs ! i) + TxLen (?locs ! i))
      (MsgBlock_Serialize msg @ rest) = Serialize (?txs ! i)"
    unfolding ser using locs_from_slice [OF pre] by (simp add: len)
  with block.get_put [OF assms] DeserializeTxLoc_write [OF assms] show ?thesis
    by (auto simp: len)
qed

theorem block_roundtrip_locs_witness:
  "valid_MsgBlock sample_block \<and>
   MsgBlock_Deserialize (MsgBlock_Serialize sample_block) = Inr (sample_block, [])"
  using block_roundtrip_locs [OF valid_sample_block, of "[]"] valid_sample_block by simp

text \<open>
  C25: the header has one encoding of 80 bytes.  The reader accepts exactly the writer's
  output, so equal block hashes of different headers are collisions of the hash function.
\<close>

theorem header_canonical:
  "readBlockHeader bs = Inr (bh, rest) \<longleftrightarrow>
     valid_BlockHeader bh \<and> length (writeBlockHeader bh) = 80 \<and> bs = writeBlockHeader bh @ rest"
  using length_writeBlockHeader by (auto simp: header.get_iff)

text \<open>
  C26: block sizes.  The size computed for a block is the length of its serialization, with
  and without witnesses.
\<close>

theorem block_sizes:
  assumes "valid_MsgBlock msg"
  shows "length (MsgBlock_Serialize msg) = MsgBlock_SerializeSize msg \<and>
    length (MsgBlock_SerializeNoWitness msg) = MsgBlock_SerializeSizeStripped msg"
proof -
  have h: "list_all valid_hashes (mb_Transactions msg)"
    using assms
    by (auto simp: valid_MsgBlock_def valid_block_tx_def valid_MsgTx_def valid_TxIn_def valid_hashes_def
        list_all_iff)
  then have "length (write_all (BtcEncode WitnessEncoding) txs) = (\<Sum>tx\<leftarrow>txs. SerializeSize tx)"
    "length (write_all (BtcEncode BaseEncoding) txs) = (\<Sum>tx\<leftarrow>txs. SerializeSizeStripped tx)"
    if "txs = mb_Transactions msg" for txs
    using that
    by (simp_all add: length_write_all list_all_iff length_BtcEncode_witness length_BtcEncode_base
        cong: map_cong)
  with assms show ?thesis
    by (simp add: MsgBlock_Serialize_def MsgBlock_SerializeNoWitness_def MsgBlock_BtcEncode_def
        MsgBlock_SerializeSize_def MsgBlock_SerializeSizeStripped_def foldl_add valid_MsgBlock_def
        length_writeBlockHeader length_WriteVarInt)
qed

theorem block_sizes_witness:
  "length (MsgBlock_Serialize sample_block) = MsgBlock_SerializeSize sample_block \<and>
   length (MsgBlock_SerializeNoWitness sample_block) = MsgBlock_SerializeSizeStripped sample_block"
  by (rule block_sizes [OF valid_sample_block])

end
