(* ===== verification/Compact.thy ===== *)
theory Compact
  imports Prelude
begin

unbundle bit_operations_syntax

text \<open>
  The compact form of difficulty targets and the work of a block (first part of
  \<^verbatim>\<open>blockchain/difficulty.go\<close>).  A \<^verbatim>\<open>big.Int\<close> is an \<open>int\<close>; its right shift rounds towards minus
  infinity, as \<open>drop_bit\<close> does.
\<close>

section \<open>Definitions\<close>

definition HashToBig :: "hash \<Rightarrow> int" where
  "HashToBig h = int (le_nat h)"

definition CompactToBig :: "uint32 \<Rightarrow> int" where
  "CompactToBig compact =
     (let mantissa = compact AND 0x007fffff;
          isNegative = (compact AND 0x00800000 \<noteq> 0);
          exponent = unat (drop_bit 24 compact);
          bn = (if exponent \<le> 3 then uint (drop_bit (8 * (3 - exponent)) mantissa)
                else push_bit (8 * (exponent - 3)) (uint mantissa))
      in if isNegative then - bn else bn)"

text \<open>The number of bytes of the absolute value, \<^verbatim>\<open>len(n.Bytes())\<close>.\<close>

fun byteLen :: "nat \<Rightarrow> nat" where
  "byteLen n = (if n = 0 then 0 else byteLen (n div 256) + 1)"

declare byteLen.simps [simp del]

definition bigMantissa :: "int \<Rightarrow> nat \<Rightarrow> uint32" where
  "bigMantissa n exponent =
     (if exponent \<le> 3 then push_bit (8 * (3 - exponent)) (word_of_int \<bar>n\<bar>)
      else word_of_int \<bar>drop_bit (8 * (exponent - 3)) n\<bar>)"

definition BigToCompact :: "int \<Rightarrow> uint32" where
  "BigToCompact n =
     (if n = 0 then 0
      else
        let exponent = byteLen (nat \<bar>n\<bar>);
            mantissa = bigMantissa n exponent;
            (mantissa, exponent) =
              (if mantissa AND 0x00800000 \<noteq> 0 then (drop_bit 8 mantissa, exponent + 1)
               else (mantissa, exponent));
            compact = word_of_nat (push_bit 24 exponent) OR mantissa
        in if n < 0 then compact OR 0x00800000 else compact)"

definition CalcWork :: "uint32 \<Rightarrow> int" where
  "CalcWork bits =
     (let difficultyNum = CompactToBig bits in
      if difficultyNum \<le> 0 then 0 else 2 ^ 256 div (difficultyNum + 1))"

section \<open>The fields of a compact number\<close>

lemma compact_mantissa: "unat (c AND 0x007fffff :: uint32) = unat c mod 2 ^ 23"
proof -
  have m: "(0x007fffff :: uint32) = mask 23" by (simp add: mask_eq_exp_minus_1)
  show ?thesis
    unfolding m by (simp add: take_bit_eq_mask [symmetric] take_bit_eq_mod unat_mod_distrib)
qed

lemma compact_exponent: "unat (drop_bit 24 c :: uint32) = unat c div 2 ^ 24"
  by (simp add: drop_bit_eq_div unat_div_distrib)

lemma compact_sign: "(c AND 0x00800000 \<noteq> (0 :: uint32)) = odd (unat c div 2 ^ 23)"
proof -
  have m: "(0x00800000 :: uint32) = 2 ^ 23" by simp
  have "(c AND 2 ^ 23 \<noteq> 0) = bit c 23" by (simp only: and_exp_eq_0_iff_not_bit not_not)
  also have "\<dots> = bit (unat c) 23" by (simp add: bit_unsigned_iff)
  finally show ?thesis unfolding m by (simp add: bit_iff_odd)
qed

lemma shift_bytes: "(2 :: nat) ^ (8 * k) = 256 ^ k"
  by (simp add: power_mult)

lemma unat_drop_bytes: "unat (drop_bit (8 * k) m :: uint32) = unat m div 256 ^ k"
  by (simp only: unsigned_drop_bit_eq)
    (simp add: drop_bit_eq_div take_bit_nat_eq_self unat_bound [of m, simplified] shift_bytes)

lemma CompactToBig_nat:
  assumes "unat c = e * 2 ^ 24 + m" "m < 2 ^ 23"
  shows "CompactToBig c = int (if e \<le> 3 then m div 256 ^ (3 - e) else m * 256 ^ (e - 3))"
proof -
  have "unat c mod 2 ^ 23 = m" "unat c div 2 ^ 24 = e" "even (unat c div 2 ^ 23)"
  proof -
    have "unat c = 2 ^ 23 * (2 * e) + m" using assms by simp
    then show "unat c mod 2 ^ 23 = m" "even (unat c div 2 ^ 23)"
      using assms(2) by (simp_all only: mod_mult_self4 div_mult_self4) simp_all
    show "unat c div 2 ^ 24 = e" using assms by simp
  qed
  then have m: "unat (c AND 0x007fffff) = m" and e: "unat (drop_bit 24 c) = e"
    and s: "c AND 0x00800000 = 0"
    using compact_sign [of c] by (simp_all only: compact_mantissa compact_exponent) blast
  have lo: "uint (drop_bit (8 * k) (c AND 0x007fffff)) = int (m div 256 ^ k)" for k
    using unat_drop_bytes [of k "c AND 0x007fffff"] m by (metis uint_nat)
  have hi: "push_bit (8 * k) (uint (c AND 0x007fffff)) = int (m * 256 ^ k)" for k
  proof -
    have "uint (c AND 0x007fffff) = int m" using m by (metis uint_nat)
    then show ?thesis by (simp add: push_bit_eq_mult power_mult)
  qed
  show ?thesis by (simp only: CompactToBig_def Let_def e s lo hi) simp
qed

section \<open>Encoding a positive number\<close>

lemma byteLen_bounds: "n > 0 \<Longrightarrow> byteLen n > 0 \<and> 256 ^ (byteLen n - 1) \<le> n \<and> n < 256 ^ byteLen n"
proof (induction n rule: byteLen.induct)
  case (1 n)
  show ?case
  proof (cases "n div 256 = 0")
    case True
    with 1 show ?thesis by (simp add: byteLen.simps [of n] byteLen.simps [of 0] div_eq_0_iff)
  next
    case False
    with 1 have "byteLen (n div 256) > 0" "256 ^ (byteLen (n div 256) - 1) \<le> n div 256"
      "n div 256 < 256 ^ byteLen (n div 256)" by auto
    then have "256 * 256 ^ (byteLen (n div 256) - 1) \<le> n" "n < 256 * 256 ^ byteLen (n div 256)"
      by linarith+
    moreover have "(256 :: nat) * 256 ^ (byteLen (n div 256) - 1) = 256 ^ byteLen (n div 256)"
      using \<open>byteLen (n div 256) > 0\<close> by (simp add: power_eq_if)
    ultimately show ?thesis using 1 by (simp add: byteLen.simps [of n])
  qed
qed

text \<open>The three leading bytes of a number, and the exponent after making room for the sign bit.\<close>

definition lead :: "nat \<Rightarrow> nat" where
  "lead n = (if byteLen n \<le> 3 then n * 256 ^ (3 - byteLen n) else n div 256 ^ (byteLen n - 3))"

definition compactExp :: "nat \<Rightarrow> nat" where
  "compactExp n = (if lead n < 2 ^ 23 then byteLen n else byteLen n + 1)"

definition compactMant :: "nat \<Rightarrow> nat" where
  "compactMant n = (if lead n < 2 ^ 23 then lead n else lead n div 256)"

lemma lead_bounds:
  assumes "n > 0"
  shows "2 ^ 16 \<le> lead n \<and> lead n < 2 ^ 24"
proof -
  note b = byteLen_bounds [OF assms]
  show ?thesis
  proof (cases "byteLen n \<le> 3")
    case True
    have lo: "256 ^ (byteLen n - 1) * 256 ^ (3 - byteLen n) \<le> n * 256 ^ (3 - byteLen n)"
      and hi: "n * 256 ^ (3 - byteLen n) < 256 ^ byteLen n * 256 ^ (3 - byteLen n)"
      using b by simp_all
    have eq: "(256 :: nat) ^ (byteLen n - 1) * 256 ^ (3 - byteLen n) = 2 ^ 16"
      "(256 :: nat) ^ byteLen n * 256 ^ (3 - byteLen n) = 2 ^ 24"
      using b True by (simp_all flip: power_add)
    have "lead n = n * 256 ^ (3 - byteLen n)" using True by (simp add: lead_def)
    then show ?thesis using lo [unfolded eq] hi [unfolded eq] by (simp only:)
  next
    case False
    then obtain k where k: "byteLen n = 3 + k" using le_Suc_ex [of 3 "byteLen n"] by auto
    have "byteLen n - 1 = 2 + k" by (simp add: k)
    then have "(256 :: nat) ^ (byteLen n - 1) = 2 ^ 16 * 256 ^ k" "(256 :: nat) ^ byteLen n = 2 ^ 24 * 256 ^ k"
      by (simp_all add: k power_add)
    with b have lo: "2 ^ 16 * 256 ^ k \<le> n" and hi: "n < 2 ^ 24 * 256 ^ k" by simp_all
    have "2 ^ 16 \<le> n div 256 ^ k" using lo by (simp add: less_eq_div_iff_mult_less_eq)
    moreover have "n div 256 ^ k < 2 ^ 24" using hi by (rule less_mult_imp_div_less)
    moreover have "lead n = n div 256 ^ k" using False by (simp add: lead_def k)
    ultimately show ?thesis by simp
  qed
qed

lemma compactMant_bounds: "n > 0 \<Longrightarrow> compactMant n < 2 ^ 23"
  using lead_bounds [of n] by (auto simp: compactMant_def)

lemma unat_word_of_nat_32: "n < 2 ^ 32 \<Longrightarrow> unat (word_of_nat n :: uint32) = n"
  by (simp add: unat_of_nat)

lemma or_exponent:
  fixes m :: uint32
  assumes "unat m < 2 ^ 24" "e < 256"
  shows "unat (word_of_nat (push_bit 24 e) OR m) = e * 2 ^ 24 + unat m"
proof -
  have w: "(word_of_nat (push_bit 24 e) :: uint32) = push_bit 24 (word_of_nat e)"
    by (simp add: push_bit_eq_mult)
  have "\<not> bit m i" if "24 \<le> i" for i
  proof -
    have "unat m div 2 ^ i = 0"
      using assms(1) power_increasing [OF that, of "2::nat"] by simp
    then have "\<not> bit (unat m) i" by (simp add: bit_iff_odd)
    then show ?thesis by (auto simp: bit_unsigned_iff dest: bit_imp_le_length)
  qed
  then have "push_bit 24 (word_of_nat e) AND m = 0"
    by (intro bit_word_eqI) (auto simp: bit_simps)
  then have "word_of_nat (push_bit 24 e) OR m = word_of_nat (e * 2 ^ 24) + m"
    unfolding w by (simp add: disjunctive_add_eq_or [symmetric] push_bit_eq_mult)
  moreover have "unat (word_of_nat (e * 2 ^ 24) :: uint32) = e * 2 ^ 24"
    using assms(2) by (intro unat_word_of_nat_32) simp
  ultimately show ?thesis using assms by (simp add: unat_word_ariths del: of_nat_mult)
qed

lemma unat_bigMantissa:
  assumes "n > 0"
  shows "unat (bigMantissa (int n) (byteLen n)) = lead n"
proof -
  have "push_bit (8 * k) (word_of_nat n) = (word_of_nat (n * 256 ^ k) :: uint32)" for k
    by (simp add: push_bit_eq_mult power_mult)
  moreover have "word_of_int \<bar>drop_bit (8 * k) (int n)\<bar> = (word_of_nat (n div 256 ^ k) :: uint32)" for k
  proof -
    have "drop_bit (8 * k) (int n) = int (n div 256 ^ k)"
      by (simp add: drop_bit_eq_div power_mult zdiv_int)
    then show ?thesis by simp
  qed
  ultimately have "bigMantissa (int n) (byteLen n) = (word_of_nat (lead n) :: uint32)"
    by (simp add: bigMantissa_def lead_def)
  moreover have "unat (word_of_nat (lead n) :: uint32) = lead n"
    using lead_bounds [OF assms] by (intro unat_word_of_nat_32) simp
  ultimately show ?thesis by simp
qed

lemma BigToCompact_nat:
  assumes "n > 0" "byteLen n \<le> 254"
  shows "unat (BigToCompact (int n)) = compactExp n * 2 ^ 24 + compactMant n"
proof -
  define w where "w = bigMantissa (int n) (byteLen n)"
  have w: "unat w = lead n" unfolding w_def by (rule unat_bigMantissa [OF assms(1)])
  have lt: "lead n < 2 ^ 24" using lead_bounds [OF assms(1)] by simp
  have sign: "(w AND 0x00800000 \<noteq> 0) = (\<not> lead n < 2 ^ 23)"
  proof -
    have "odd (lead n div 2 ^ 23) = (\<not> lead n < 2 ^ 23)"
    proof (cases "lead n < 2 ^ 23")
      case False
      then have "lead n div 2 ^ 23 = 1" using lt by simp
      then show ?thesis using False by simp
    qed simp
    then show ?thesis by (simp add: compact_sign w)
  qed
  have half: "unat (drop_bit 8 w) = lead n div 256"
    using unat_drop_bytes [of 1 w] w by simp
  have "BigToCompact (int n) =
      (if lead n < 2 ^ 23 then word_of_nat (push_bit 24 (byteLen n)) OR w
       else word_of_nat (push_bit 24 (byteLen n + 1)) OR drop_bit 8 w)"
    using assms(1) sign
    by (simp add: BigToCompact_def Let_def w_def [symmetric])
  then show ?thesis
    using or_exponent [of w "byteLen n"] or_exponent [of "drop_bit 8 w" "byteLen n + 1"] w half lt assms(2)
    by (simp only: compactExp_def compactMant_def split: if_split) (simp add: less_imp_le)
qed

section \<open>Round trips\<close>

text \<open>Encoding keeps the leading digits: the low bytes below the exponent are cut off.\<close>

lemma CompactToBig_BigToCompact:
  assumes "n > 0" "byteLen n \<le> 254"
  shows "CompactToBig (BigToCompact (int n)) =
    int (n div 256 ^ (compactExp n - 3) * 256 ^ (compactExp n - 3))"
proof -
  have eq: "CompactToBig (BigToCompact (int n)) =
    int (if compactExp n \<le> 3 then compactMant n div 256 ^ (3 - compactExp n)
         else compactMant n * 256 ^ (compactExp n - 3))"
    by (rule CompactToBig_nat [OF BigToCompact_nat [OF assms] compactMant_bounds [OF assms(1)]])
  show ?thesis
  proof (cases "byteLen n \<le> 3")
    case True
    then obtain k where k: "byteLen n + k = 3" using le_Suc_ex by metis
    then have l: "lead n = n * 256 ^ k" by (auto simp: lead_def)
    show ?thesis
    proof (cases k)
      case 0
      with k l show ?thesis unfolding eq by (simp add: compactExp_def compactMant_def)
    next
      case (Suc j)
      have "3 - byteLen n = Suc j" "2 - byteLen n = j" using k Suc by simp_all
      with k l Suc show ?thesis unfolding eq by (auto simp: compactExp_def compactMant_def)
    qed
  next
    case False
    then obtain k where k: "byteLen n = 3 + Suc k" by (metis add_Suc_right less_imp_Suc_add not_le)
    then have "lead n = n div 256 ^ Suc k" by (simp add: lead_def)
    moreover have "n div 256 ^ Suc k div 256 = n div 256 ^ Suc (Suc k)"
      by (metis div_mult2_eq mult.commute power_Suc)
    ultimately show ?thesis unfolding eq using k by (simp add: compactExp_def compactMant_def)
  qed
qed

lemma byteLen_eqI:
  assumes "256 ^ k \<le> n" "n < 256 ^ Suc k"
  shows "byteLen n = Suc k"
proof -
  have "n > 0" using assms(1) by (metis gr0I le_zero_eq power_not_zero zero_neq_numeral)
  note b = byteLen_bounds [OF this]
  have "256 ^ (byteLen n - 1) < (256 :: nat) ^ Suc k" using b assms by linarith
  then have "byteLen n - 1 < Suc k" by (simp only: power_strict_increasing_iff)
  moreover have "(256 :: nat) ^ k < 256 ^ byteLen n" using b assms by linarith
  then have "k < byteLen n" by simp
  ultimately show ?thesis by simp
qed

text \<open>A normal compact number: sign clear, and a mantissa that fills its exponent.\<close>

definition normal_compact :: "uint32 \<Rightarrow> bool" where
  "normal_compact c \<longleftrightarrow> unat c mod 2 ^ 24 < 2 ^ 23 \<and> 2 ^ 15 \<le> unat c mod 2 ^ 24 \<and> 3 \<le> unat c div 2 ^ 24 \<and>
     unat c div 2 ^ 24 \<le> 254"

lemma compact_parts:
  assumes "2 ^ 15 \<le> m" "m < 2 ^ 23"
  shows "byteLen (m * 256 ^ j) \<le> 3 + j \<and> compactExp (m * 256 ^ j) = 3 + j \<and> compactMant (m * 256 ^ j) = m"
proof (cases "m < 2 ^ 16")
  case True
  have "256 ^ Suc j \<le> m * 256 ^ j" "m * 256 ^ j < 256 ^ Suc (Suc j)"
    using assms True by simp_all
  then have b: "byteLen (m * 256 ^ j) = Suc (Suc j)" by (rule byteLen_eqI)
  have "lead (m * 256 ^ j) = m * 256"
  proof (cases j)
    case 0
    with b show ?thesis by (simp add: lead_def)
  next
    case (Suc i)
    with b show ?thesis by (cases i) (simp_all add: lead_def mult.assoc [symmetric])
  qed
  with b assms show ?thesis by (simp add: compactExp_def compactMant_def)
next
  case False
  have "256 ^ Suc (Suc j) \<le> m * 256 ^ j" "m * 256 ^ j < 256 ^ Suc (Suc (Suc j))"
    using assms False by simp_all
  then have b: "byteLen (m * 256 ^ j) = Suc (Suc (Suc j))" by (rule byteLen_eqI)
  have "lead (m * 256 ^ j) = m"
    using b by (cases j) (simp_all add: lead_def)
  with b assms show ?thesis by (simp add: compactExp_def compactMant_def)
qed

lemma BigToCompact_CompactToBig:
  assumes "normal_compact c"
  shows "CompactToBig c > 0 \<and> BigToCompact (CompactToBig c) = c"
proof -
  define m where "m = unat c mod 2 ^ 24"
  obtain j where j: "unat c div 2 ^ 24 = 3 + j"
    using assms le_Suc_ex unfolding normal_compact_def by metis
  have c: "unat c = (3 + j) * 2 ^ 24 + m"
    using div_mult_mod_eq [of "unat c" "2 ^ 24"] by (simp only: j m_def)
  have m: "2 ^ 15 \<le> m" "m < 2 ^ 23" and le: "3 + j \<le> 254"
    using assms j by (simp_all add: normal_compact_def m_def)
  have big: "CompactToBig c = int (m * 256 ^ j)"
    using CompactToBig_nat [OF c m(2)] by simp
  note parts = compact_parts [OF m, of j]
  have pos: "m * 256 ^ j > 0" using m by simp
  have "unat (BigToCompact (int (m * 256 ^ j))) = unat c"
    using BigToCompact_nat [OF pos] parts le c by simp
  then show ?thesis using big pos by (simp add: word_unat_eq_iff)
qed

lemma CalcWork_antitone:
  assumes "0 < CompactToBig a" "CompactToBig a \<le> CompactToBig b"
  shows "CalcWork b \<le> CalcWork a"
  using assms by (simp add: CalcWork_def Let_def zdiv_mono2)

lemma CalcWork_nonneg: "0 \<le> CalcWork c"
  by (simp add: CalcWork_def Let_def pos_imp_zdiv_nonneg_iff)

lemma CalcWork_pos: "0 < CompactToBig c \<Longrightarrow> CompactToBig c < 2 ^ 256 \<Longrightarrow> 0 < CalcWork c"
  by (simp add: CalcWork_def Let_def pos_imp_zdiv_pos_iff)

section \<open>Properties\<close>

text \<open>
  C31: compact targets.  Every normal compact number stands for a positive integer and is
  what that integer encodes to; and encoding any positive integer of up to 254 bytes keeps
  its leading digits, cutting off whole low bytes only.
\<close>

theorem compact_roundtrip:
  "(normal_compact c \<longrightarrow> 0 < CompactToBig c \<and> BigToCompact (CompactToBig c) = c) \<and>
   (0 < n \<and> byteLen n \<le> 254 \<longrightarrow>
      CompactToBig (BigToCompact (int n)) =
        int (n div 256 ^ (compactExp n - 3) * 256 ^ (compactExp n - 3)))"
  using BigToCompact_CompactToBig CompactToBig_BigToCompact by blast

theorem compact_roundtrip_witness:
  "normal_compact 0x1d00ffff \<and> BigToCompact (CompactToBig 0x1d00ffff) = 0x1d00ffff \<and>
   CompactToBig (BigToCompact 0x12345678) = 0x12345600"
proof -
  have n: "normal_compact 0x1d00ffff" by (simp add: normal_compact_def)
  have "byteLen 0x12345678 = 4" by (simp add: byteLen.simps)
  then have "byteLen 0x12345678 \<le> 254" "compactExp 0x12345678 = 4"
    by (simp_all add: compactExp_def lead_def)
  with n show ?thesis using compact_roundtrip [of "0x1d00ffff" "0x12345678"] by simp
qed

text \<open>
  C28: work.  The work of a block is never negative, is positive for every target that a
  hash can meet, and does not decrease when the target gets smaller.
\<close>

theorem work_order:
  "0 \<le> CalcWork a \<and>
   (0 < CompactToBig a \<and> CompactToBig a < 2 ^ 256 \<longrightarrow> 0 < CalcWork a) \<and>
   (0 < CompactToBig a \<and> CompactToBig a \<le> CompactToBig b \<longrightarrow> CalcWork b \<le> CalcWork a)"
  using CalcWork_nonneg CalcWork_pos CalcWork_antitone by blast

theorem work_order_witness:
  "0 < CalcWork 0x1c7fff80 \<and> CalcWork 0x1d00ffff \<le> CalcWork 0x1c7fff80"
proof -
  have "0 < CompactToBig 0x1c7fff80" "CompactToBig 0x1c7fff80 < 2 ^ 256"
    "CompactToBig 0x1c7fff80 \<le> CompactToBig 0x1d00ffff"
    by (simp_all add: CompactToBig_def)
  then show ?thesis using work_order [of "0x1c7fff80" "0x1d00ffff"] by blast
qed

end
