(* ===== verification/Block_Index.thy ===== *)
theory Block_Index
  imports Wire_Block Compact "HOL-Library.Multiset"
begin

unbundle bit_operations_syntax

text \<open>
  Block nodes and the block index (\<^verbatim>\<open>blockchain/blockindex.go\<close>).  Nodes live in a store that
  maps addresses to nodes, so that two nodes are the same exactly if their addresses are.
  Following a dangling address, which Go excludes, and a loop that does not end are the
  value \<open>None\<close>; a nil pointer that is returned is \<open>Some None\<close>.  Heights are integers; the
  32 bit range of the source is never left by chains that exist.
\<close>

section \<open>Status\<close>

abbreviation statusDataStored :: byte where "statusDataStored \<equiv> 1"
abbreviation statusValid :: byte where "statusValid \<equiv> 2"
abbreviation statusValidateFailed :: byte where "statusValidateFailed \<equiv> 4"
abbreviation statusInvalidAncestor :: byte where "statusInvalidAncestor \<equiv> 8"
abbreviation statusNone :: byte where "statusNone \<equiv> 0"

definition HaveData :: "byte \<Rightarrow> bool" where
  "HaveData status \<longleftrightarrow> status AND statusDataStored \<noteq> 0"

definition KnownValid :: "byte \<Rightarrow> bool" where
  "KnownValid status \<longleftrightarrow> status AND statusValid \<noteq> 0"

definition KnownInvalid :: "byte \<Rightarrow> bool" where
  "KnownInvalid status \<longleftrightarrow> status AND (statusValidateFailed OR statusInvalidAncestor) \<noteq> 0"

definition KnownInvalidAncestor :: "byte \<Rightarrow> bool" where
  "KnownInvalidAncestor status \<longleftrightarrow> status AND statusInvalidAncestor \<noteq> 0"

definition KnownValidateFailed :: "byte \<Rightarrow> bool" where
  "KnownValidateFailed status \<longleftrightarrow> status AND statusValidateFailed \<noteq> 0"

section \<open>Nodes\<close>

type_synonym ptr = nat

record blockNode =
  bn_parent :: "ptr option"
  bn_ancestor :: "ptr option"
  bn_hash :: hash
  bn_workSum :: int
  bn_height :: int
  bn_version :: uint32
  bn_bits :: uint32
  bn_nonce :: uint32
  bn_timestamp :: int
  bn_merkleRoot :: hash
  bn_status :: byte

type_synonym heap = "ptr \<rightharpoonup> blockNode"

definition invertLowestOne :: "int \<Rightarrow> int" where
  "invertLowestOne n = n AND (n - 1)"

definition getAncestorHeight :: "int \<Rightarrow> int" where
  "getAncestorHeight height = invertLowestOne (invertLowestOne height)"

partial_function (option) ancestorLoop :: "heap \<Rightarrow> int \<Rightarrow> ptr option \<Rightarrow> ptr option option" where
  "ancestorLoop h height n =
     (case n of
        None \<Rightarrow> Some None
      | Some p \<Rightarrow>
          Option.bind (h p) (\<lambda>nd.
            if bn_height nd = height then Some (Some p)
            else if bn_ancestor nd \<noteq> None \<and> getAncestorHeight (bn_height nd) \<ge> height
            then ancestorLoop h height (bn_ancestor nd)
            else ancestorLoop h height (bn_parent nd)))"

definition Ancestor :: "heap \<Rightarrow> ptr \<Rightarrow> int \<Rightarrow> ptr option option" where
  "Ancestor h node height =
     Option.bind (h node) (\<lambda>nd.
       if height < 0 \<or> height > bn_height nd then Some None
       else ancestorLoop h height (Some node))"

definition RelativeAncestor :: "heap \<Rightarrow> ptr \<Rightarrow> int \<Rightarrow> ptr option option" where
  "RelativeAncestor h node distance =
     Option.bind (h node) (\<lambda>nd. Ancestor h node (bn_height nd - distance))"

definition IsAncestor :: "heap \<Rightarrow> ptr \<Rightarrow> ptr \<Rightarrow> bool option" where
  "IsAncestor h node otherNode =
     Option.bind (h otherNode) (\<lambda>other.
     Option.bind (Ancestor h node (bn_height other)) (\<lambda>ancestor.
       Some (if ancestor = Some node then False else ancestor = Some otherNode)))"

definition initBlockNode :: "heap \<Rightarrow> BlockHeader \<Rightarrow> ptr option \<Rightarrow> blockNode option" where
  "initBlockNode h blockHeader parent =
     (let node =
        \<lparr>bn_parent = None, bn_ancestor = None, bn_hash = BlockHash blockHeader,
         bn_workSum = CalcWork (bh_Bits blockHeader), bn_height = 0,
         bn_version = bh_Version blockHeader, bn_bits = bh_Bits blockHeader,
         bn_nonce = bh_Nonce blockHeader, bn_timestamp = bh_Timestamp blockHeader,
         bn_merkleRoot = bh_MerkleRoot blockHeader, bn_status = statusNone\<rparr>
      in case parent of
           None \<Rightarrow> Some node
         | Some q \<Rightarrow>
             Option.bind (h q) (\<lambda>par.
               let node = node\<lparr>bn_parent := Some q, bn_height := bn_height par + 1,
                               bn_workSum := bn_workSum par + bn_workSum node\<rparr>
               in Option.bind (Ancestor h q (getAncestorHeight (bn_height node))) (\<lambda>a.
                    Some (node\<lparr>bn_ancestor := a\<rparr>))))"

text \<open>The allocator returns an address \<open>p\<close> that is not in use.\<close>

definition newBlockNode :: "heap \<Rightarrow> BlockHeader \<Rightarrow> ptr option \<Rightarrow> ptr \<Rightarrow> heap option" where
  "newBlockNode h blockHeader parent p =
     Option.bind (initBlockNode h blockHeader parent) (\<lambda>node. Some (h(p \<mapsto> node)))"

definition Header :: "heap \<Rightarrow> ptr \<Rightarrow> BlockHeader option" where
  "Header h node =
     Option.bind (h node) (\<lambda>nd.
     Option.bind (case bn_parent nd of
         None \<Rightarrow> Some zeroHash | Some q \<Rightarrow> map_option bn_hash (h q)) (\<lambda>prevHash.
       Some \<lparr>bh_Version = bn_version nd, bh_PrevBlock = prevHash, bh_MerkleRoot = bn_merkleRoot nd,
             bh_Timestamp = bn_timestamp nd, bh_Bits = bn_bits nd, bh_Nonce = bn_nonce nd\<rparr>))"

abbreviation medianTimeBlocks :: nat where
  "medianTimeBlocks \<equiv> 11"

primrec collectTimes :: "nat \<Rightarrow> heap \<Rightarrow> ptr option \<Rightarrow> int list option" where
  "collectTimes 0 h iterNode = Some []"
| "collectTimes (Suc n) h iterNode =
     (case iterNode of
        None \<Rightarrow> Some []
      | Some p \<Rightarrow>
          Option.bind (h p) (\<lambda>nd.
          Option.bind (collectTimes n h (bn_parent nd)) (\<lambda>ts. Some (bn_timestamp nd # ts))))"

definition CalcPastMedianTime :: "heap \<Rightarrow> ptr \<Rightarrow> int option" where
  "CalcPastMedianTime h node =
     Option.bind (collectTimes medianTimeBlocks h (Some node)) (\<lambda>timestamps.
       let numNodes = length timestamps
       in Some (sort timestamps ! (numNodes div 2)))"

section \<open>The index\<close>

record blockIndex =
  bi_index :: "hash \<rightharpoonup> ptr"
  bi_dirty :: "ptr set"

definition newBlockIndex :: blockIndex where
  "newBlockIndex = \<lparr>bi_index = Map.empty, bi_dirty = {}\<rparr>"

definition HaveBlock :: "heap \<Rightarrow> blockIndex \<Rightarrow> hash \<Rightarrow> bool" where
  "HaveBlock h bi hash =
     (case bi_index bi hash of
        None \<Rightarrow> False
      | Some p \<Rightarrow> (case h p of None \<Rightarrow> False | Some nd \<Rightarrow> HaveData (bn_status nd)))"

definition LookupNode :: "blockIndex \<Rightarrow> hash \<Rightarrow> ptr option" where
  "LookupNode bi hash = bi_index bi hash"

definition addNode :: "heap \<Rightarrow> blockIndex \<Rightarrow> ptr \<Rightarrow> blockIndex" where
  "addNode h bi p =
     (case h p of None \<Rightarrow> bi | Some nd \<Rightarrow> bi\<lparr>bi_index := (bi_index bi)(bn_hash nd \<mapsto> p)\<rparr>)"

definition AddNode :: "heap \<Rightarrow> blockIndex \<Rightarrow> ptr \<Rightarrow> blockIndex" where
  "AddNode h bi p = (let bi = addNode h bi p in bi\<lparr>bi_dirty := insert p (bi_dirty bi)\<rparr>)"

definition NodeStatus :: "heap \<Rightarrow> ptr \<Rightarrow> byte option" where
  "NodeStatus h p = map_option bn_status (h p)"

definition SetStatusFlags :: "heap \<Rightarrow> blockIndex \<Rightarrow> ptr \<Rightarrow> byte \<Rightarrow> heap \<times> blockIndex" where
  "SetStatusFlags h bi p flags =
     (h(p := map_option (\<lambda>nd. nd\<lparr>bn_status := bn_status nd OR flags\<rparr>) (h p)),
      bi\<lparr>bi_dirty := insert p (bi_dirty bi)\<rparr>)"

definition UnsetStatusFlags :: "heap \<Rightarrow> blockIndex \<Rightarrow> ptr \<Rightarrow> byte \<Rightarrow> heap \<times> blockIndex" where
  "UnsetStatusFlags h bi p flags =
     (h(p := map_option (\<lambda>nd. nd\<lparr>bn_status := bn_status nd AND NOT flags\<rparr>) (h p)),
      bi\<lparr>bi_dirty := insert p (bi_dirty bi)\<rparr>)"

section \<open>The tree of blocks\<close>

text \<open>The reference for every shortcut: going back one parent at a time.\<close>

primrec up :: "nat \<Rightarrow> heap \<Rightarrow> ptr \<Rightarrow> ptr option" where
  "up 0 h p = Some p"
| "up (Suc k) h p = Option.bind (h p) (\<lambda>nd. Option.bind (bn_parent nd) (up k h))"

lemma up_numeral:
  "up (numeral k) h p = Option.bind (h p) (\<lambda>nd. Option.bind (bn_parent nd) (up (pred_numeral k) h))"
  by (simp add: numeral_eq_Suc)

definition wf_node :: "heap \<Rightarrow> ptr \<Rightarrow> blockNode \<Rightarrow> bool" where
  "wf_node h p nd \<longleftrightarrow>
     0 \<le> bn_height nd \<and>
     (case bn_parent nd of
        None \<Rightarrow> bn_height nd = 0
      | Some q \<Rightarrow> (case h q of None \<Rightarrow> False | Some m \<Rightarrow> bn_height nd = bn_height m + 1)) \<and>
     (case bn_ancestor nd of
        None \<Rightarrow> True
      | Some a \<Rightarrow> up (nat (bn_height nd - getAncestorHeight (bn_height nd))) h p = Some a)"

text \<open>
  The invariant of the node store: parents exist and are one lower, only nodes of height
  zero have none, and a skip pointer leads to the ancestor it stands for.
\<close>

definition wf_heap :: "heap \<Rightarrow> bool" where
  "wf_heap h \<longleftrightarrow> (\<forall>p nd. h p = Some nd \<longrightarrow> wf_node h p nd)"

lemma up_add: "up (j + k) h p = Option.bind (up j h p) (up k h)"
proof (induction j arbitrary: p)
  case (Suc j)
  then show ?case by (cases "h p") (auto split: bind_splits)
qed simp

lemma wf_heapD: "wf_heap h \<Longrightarrow> h p = Some nd \<Longrightarrow> wf_node h p nd"
  by (simp add: wf_heap_def)

lemma up_exists:
  assumes "wf_heap h" "h p = Some nd" "int k \<le> bn_height nd"
  shows "\<exists>q m. up k h p = Some q \<and> h q = Some m \<and> bn_height m = bn_height nd - int k"
  using assms(2,3)
proof (induction k arbitrary: p nd)
  case (Suc k)
  from wf_heapD [OF assms(1) Suc.prems(1)] Suc.prems(2) obtain q m where
    q: "bn_parent nd = Some q" "h q = Some m" "bn_height nd = bn_height m + 1"
    by (auto simp: wf_node_def split: option.splits)
  with Suc.IH [OF q(2)] Suc.prems show ?case by auto
qed simp

lemma up_beyond:
  assumes "wf_heap h" "h p = Some nd" "bn_height nd < int k"
  shows "up k h p = None"
  using assms(2,3)
proof (induction k arbitrary: p nd)
  case 0
  with wf_heapD [OF assms(1) 0(1)] show ?case by (simp add: wf_node_def)
next
  case (Suc k)
  show ?case
  proof (cases "bn_parent nd")
    case None
    with Suc.prems show ?thesis by simp
  next
    case (Some q)
    with wf_heapD [OF assms(1) Suc.prems(1)] obtain m where
      "h q = Some m" "bn_height nd = bn_height m + 1"
      by (auto simp: wf_node_def split: option.splits)
    with Some Suc show ?thesis by simp
  qed
qed

lemma up_heightD:
  assumes "wf_heap h" "h p = Some nd" "up k h p = Some q"
  shows "\<exists>m. h q = Some m \<and> bn_height m = bn_height nd - int k"
proof -
  have "int k \<le> bn_height nd" using up_beyond [OF assms(1,2), of k] assms(3) by (cases "int k \<le> bn_height nd") auto
  from up_exists [OF assms(1,2) this] assms(3) show ?thesis by auto
qed

section \<open>Skip pointers\<close>

lemma invertLowestOne_bounds:
  assumes "0 \<le> n"
  shows "0 \<le> invertLowestOne n \<and> invertLowestOne n \<le> n \<and> (0 < n \<longrightarrow> invertLowestOne n < n)"
proof (cases "n = 0")
  case False
  with assms have "0 \<le> n - 1" by simp
  then have "n AND (n - 1) \<le> n - 1" by (rule AND_upper2)
  moreover have "0 \<le> n AND (n - 1)" using assms by simp
  ultimately show ?thesis by (simp add: invertLowestOne_def)
qed (simp add: invertLowestOne_def)

lemma getAncestorHeight_bounds:
  assumes "0 \<le> n"
  shows "0 \<le> getAncestorHeight n \<and> getAncestorHeight n \<le> n \<and> (0 < n \<longrightarrow> getAncestorHeight n < n)"
  using invertLowestOne_bounds [OF assms] invertLowestOne_bounds [of "invertLowestOne n"]
  by (auto simp: getAncestorHeight_def)

lemma ancestorLoop_up:
  assumes "wf_heap h" "h p = Some nd" "0 \<le> height" "height \<le> bn_height nd"
  shows "ancestorLoop h height (Some p) = Some (up (nat (bn_height nd - height)) h p)"
  using assms(2-)
proof (induction "nat (bn_height nd)" arbitrary: p nd rule: less_induct)
  case less
  note wf = wf_heapD [OF assms(1) less.prems(1)]
  have step: "ancestorLoop h height (Some p) = Some (up (nat (bn_height nd - height)) h p)"
    if q: "up k h p = Some q" "0 < k" "int k \<le> bn_height nd - height"
      and loop: "ancestorLoop h height (Some p) = ancestorLoop h height (Some q)" for q k
  proof -
    obtain m where m: "h q = Some m" "bn_height m = bn_height nd - int k"
      using up_heightD [OF assms(1) less.prems(1) q(1)] by blast
    with q less.prems have "ancestorLoop h height (Some q) = Some (up (nat (bn_height m - height)) h q)"
      by (intro less.hyps) auto
    moreover have "nat (bn_height nd - height) = k + nat (bn_height m - height)" using m q(3) by simp
    ultimately show ?thesis using loop q(1) by (simp only: up_add) simp
  qed
  show ?case
  proof (cases "bn_height nd = height")
    case True
    with less.prems show ?thesis by (simp add: ancestorLoop.simps [of h height "Some p"])
  next
    case False
    then have pos: "0 < bn_height nd" using less.prems by simp
    show ?thesis
    proof (cases "bn_ancestor nd \<noteq> None \<and> getAncestorHeight (bn_height nd) \<ge> height")
      case True
      then obtain a where a: "bn_ancestor nd = Some a" by blast
      with wf have "up (nat (bn_height nd - getAncestorHeight (bn_height nd))) h p = Some a"
        by (simp add: wf_node_def)
      moreover have "ancestorLoop h height (Some p) = ancestorLoop h height (Some a)"
        using less.prems False True a by (simp add: ancestorLoop.simps [of h height "Some p"])
      ultimately show ?thesis
        using step getAncestorHeight_bounds [of "bn_height nd"] pos True by auto
    next
      case skip: False
      from wf pos obtain q where q: "bn_parent nd = Some q" by (auto simp: wf_node_def split: option.splits)
      with less.prems have "up 1 h p = Some q" by simp
      moreover have "ancestorLoop h height (Some p) = ancestorLoop h height (Some q)"
        using less.prems False skip q by (auto simp: ancestorLoop.simps [of h height "Some p"])
      ultimately show ?thesis using step [of 1 q] less.prems False by auto
    qed
  qed
qed

lemma Ancestor_up:
  assumes "wf_heap h" "h p = Some nd"
  shows "Ancestor h p height =
    Some (if 0 \<le> height \<and> height \<le> bn_height nd then up (nat (bn_height nd - height)) h p else None)"
  using assms by (auto simp: Ancestor_def ancestorLoop_up)

section \<open>New nodes\<close>

lemma up_fresh:
  assumes "wf_heap h" "h q = Some m" "h p = None"
  shows "up k (h(p \<mapsto> nd)) q = up k h q"
  using assms(2)
proof (induction k arbitrary: q m)
  case (Suc k)
  have ne: "q \<noteq> p" using Suc.prems assms(3) by auto
  show ?case
  proof (cases "bn_parent m")
    case None
    with ne Suc.prems show ?thesis by simp
  next
    case (Some r)
    with wf_heapD [OF assms(1) Suc.prems] obtain m' where "h r = Some m'"
      by (auto simp: wf_node_def split: option.splits)
    with Some ne Suc show ?thesis by simp
  qed
qed simp

lemma wf_node_fresh:
  assumes "wf_heap h" "h q = Some m" "h p = None"
  shows "wf_node (h(p \<mapsto> nd)) q m"
proof -
  have "wf_node h q m" by (rule wf_heapD [OF assms(1,2)])
  moreover have "r \<noteq> p" if "bn_parent m = Some r" for r
    using \<open>wf_node h q m\<close> that assms(3) by (auto simp: wf_node_def)
  ultimately show ?thesis
    using up_fresh [OF assms] by (auto simp: wf_node_def split: option.splits)
qed

text \<open>What a node made from a header and an existing parent looks like.\<close>

lemma initBlockNode_child:
  assumes "wf_heap h" "h q = Some par"
  obtains node where "initBlockNode h hdr (Some q) = Some node"
    "bn_parent node = Some q" "bn_height node = bn_height par + 1"
    "bn_workSum node = bn_workSum par + CalcWork (bh_Bits hdr)" "bn_hash node = BlockHash hdr"
    "bn_version node = bh_Version hdr" "bn_bits node = bh_Bits hdr" "bn_nonce node = bh_Nonce hdr"
    "bn_timestamp node = bh_Timestamp hdr" "bn_merkleRoot node = bh_MerkleRoot hdr"
    "bn_ancestor node = up (nat (bn_height par - getAncestorHeight (bn_height par + 1))) h q"
proof -
  have "0 \<le> bn_height par" using wf_heapD [OF assms] by (simp add: wf_node_def)
  then have "0 \<le> getAncestorHeight (bn_height par + 1)" "getAncestorHeight (bn_height par + 1) \<le> bn_height par"
    using getAncestorHeight_bounds [of "bn_height par + 1"] by auto
  then show thesis
    using assms by (intro that) (auto simp: initBlockNode_def Ancestor_up Let_def)
qed

lemma newBlockNode_wf:
  assumes "wf_heap h" "h p = None" "parent = None \<or> (\<exists>q par. parent = Some q \<and> h q = Some par)"
  shows "\<exists>node. initBlockNode h hdr parent = Some node \<and> newBlockNode h hdr parent p = Some (h(p \<mapsto> node)) \<and>
    wf_heap (h(p \<mapsto> node))"
proof -
  obtain node where node: "initBlockNode h hdr parent = Some node" and wf: "wf_node (h(p \<mapsto> node)) p node"
  proof (cases parent)
    case None
    then obtain node where n: "initBlockNode h hdr parent = Some node" "bn_parent node = None"
      "bn_ancestor node = None" "bn_height node = 0"
      by (simp add: initBlockNode_def Let_def)
    show thesis by (rule that [OF n(1)]) (simp add: wf_node_def n)
  next
    case (Some q)
    with assms(3) obtain par where q: "h q = Some par" by auto
    then have "q \<noteq> p" using assms(2) by auto
    obtain node where n: "initBlockNode h hdr (Some q) = Some node" "bn_parent node = Some q"
      "bn_height node = bn_height par + 1"
      "bn_ancestor node = up (nat (bn_height par - getAncestorHeight (bn_height par + 1))) h q"
      by (rule initBlockNode_child [OF assms(1) q])
    have ge: "0 \<le> bn_height par" using wf_heapD [OF assms(1) q] by (simp add: wf_node_def)
    then have gah: "getAncestorHeight (bn_height par + 1) \<le> bn_height par"
      using getAncestorHeight_bounds [of "bn_height par + 1"] by auto
    then have k: "nat (bn_height node - getAncestorHeight (bn_height node)) =
        Suc (nat (bn_height par - getAncestorHeight (bn_height par + 1)))"
      using n(3) by (simp add: nat_diff_distrib' Suc_nat_eq_nat_zadd1)
    have "wf_node (h(p \<mapsto> node)) p node"
      using n ge \<open>q \<noteq> p\<close> q up_fresh [OF assms(1) q assms(2)]
      unfolding wf_node_def k by (auto split: option.splits)
    with n(1) Some show thesis by (intro that) simp_all
  qed
  moreover have "wf_heap (h(p \<mapsto> node))"
    unfolding wf_heap_def
    using wf wf_node_fresh [OF assms(1) _ assms(2)] by auto
  ultimately show ?thesis by (auto simp: newBlockNode_def)
qed

lemma wf_heap_empty: "wf_heap Map.empty"
  by (simp add: wf_heap_def)

text \<open>Changing the status of a node keeps the tree.\<close>

definition status_only :: "(blockNode \<Rightarrow> blockNode) \<Rightarrow> bool" where
  "status_only f \<longleftrightarrow>
     (\<forall>nd. bn_parent (f nd) = bn_parent nd \<and> bn_ancestor (f nd) = bn_ancestor nd \<and> bn_height (f nd) = bn_height nd)"

lemma up_status:
  assumes "status_only f"
  shows "up k (h(p := map_option f (h p))) q = up k h q"
proof (induction k arbitrary: q)
  case (Suc k)
  then show ?case
    using assms by (cases "h q"; cases "q = p") (auto simp: status_only_def split: bind_splits)
qed simp

lemma wf_heap_status:
  assumes "status_only f" "wf_heap h"
  shows "wf_heap (h(p := map_option f (h p)))"
proof -
  have "wf_node (h(p := map_option f (h p))) q nd"
    if upd: "(h(p := map_option f (h p))) q = Some nd" for q nd
  proof -
    obtain nd0 where nd0: "h q = Some nd0" "bn_parent nd = bn_parent nd0" "bn_ancestor nd = bn_ancestor nd0"
      "bn_height nd = bn_height nd0"
      using upd assms(1) unfolding status_only_def by (cases "q = p") auto
    have "wf_node h q nd0" by (rule wf_heapD [OF assms(2) nd0(1)])
    then show ?thesis
      using assms(1) unfolding wf_node_def nd0(2-4) up_status [OF assms(1)]
      by (auto simp: status_only_def split: option.splits)
  qed
  then show ?thesis by (simp add: wf_heap_def del: fun_upd_apply)
qed

section \<open>Median time\<close>

lemma collectTimes_up:
  assumes "wf_heap h" "h p = Some nd"
  shows "\<exists>ts. collectTimes n h (Some p) = Some ts \<and> length ts = min n (nat (bn_height nd) + 1) \<and>
    (\<forall>i<length ts. \<exists>q m. up i h p = Some q \<and> h q = Some m \<and> ts ! i = bn_timestamp m)"
  using assms(2)
proof (induction n arbitrary: p nd)
  case (Suc n)
  note wf = wf_heapD [OF assms(1) Suc.prems]
  show ?case
  proof (cases "bn_parent nd")
    case None
    with wf have "bn_height nd = 0" by (simp add: wf_node_def)
    moreover have "collectTimes n h None = Some []" by (cases n) simp_all
    ultimately show ?thesis using None Suc.prems by simp
  next
    case (Some q)
    with wf obtain m where m: "h q = Some m" "bn_height nd = bn_height m + 1"
      by (auto simp: wf_node_def split: option.splits)
    have "0 \<le> bn_height m" using wf_heapD [OF assms(1) m(1)] by (simp add: wf_node_def)
    moreover obtain ts where "collectTimes n h (Some q) = Some ts" "length ts = min n (nat (bn_height m) + 1)"
      "\<forall>i<length ts. \<exists>r k. up i h q = Some r \<and> h r = Some k \<and> ts ! i = bn_timestamp k"
      using Suc.IH [OF m(1)] by blast
    ultimately show ?thesis
      using Some Suc.prems m by (auto simp: nth_Cons nat_add_distrib split: nat.splits)
  qed
qed simp

text \<open>In a sorted list at most half of the elements are on either side of the middle one.\<close>

lemma filter_less_nth:
  fixes xs :: "int list"
  assumes "sorted xs" "k < length xs"
  shows "length (filter (\<lambda>x. x < xs ! k) xs) \<le> k"
    and "length (filter (\<lambda>x. xs ! k < x) xs) \<le> length xs - Suc k"
proof -
  have above: "xs ! k \<le> x" if "x \<in> set (drop k xs)" for x
  proof -
    from that obtain j where "j < length xs - k" "x = xs ! (k + j)" by (auto simp: in_set_conv_nth)
    then show ?thesis using sorted_nth_mono [OF assms(1), of k "k + j"] by simp
  qed
  have below: "x \<le> xs ! k" if "x \<in> set (take (Suc k) xs)" for x
  proof -
    from that obtain j where "j < Suc k" "x = xs ! j" by (auto simp: in_set_conv_nth)
    then show ?thesis using sorted_nth_mono [OF assms(1), of j k] assms(2) by simp
  qed
  have "filter (\<lambda>x. x < xs ! k) (drop k xs) = []"
    using above by (auto simp: filter_empty_conv not_less)
  moreover have "xs = take k xs @ drop k xs" by simp
  ultimately have "filter (\<lambda>x. x < xs ! k) xs = filter (\<lambda>x. x < xs ! k) (take k xs)"
    by (metis append_Nil2 filter_append)
  then show "length (filter (\<lambda>x. x < xs ! k) xs) \<le> k"
    by (metis length_filter_le length_take min.cobounded2 order_trans)
  have "filter (\<lambda>x. xs ! k < x) (take (Suc k) xs) = []"
    using below by (auto simp: filter_empty_conv not_less)
  moreover have "xs = take (Suc k) xs @ drop (Suc k) xs" by simp
  ultimately have "filter (\<lambda>x. xs ! k < x) xs = filter (\<lambda>x. xs ! k < x) (drop (Suc k) xs)"
    by (metis append_Nil filter_append)
  then show "length (filter (\<lambda>x. xs ! k < x) xs) \<le> length xs - Suc k"
    by (metis length_filter_le length_drop)
qed

lemma median_sort:
  fixes ts :: "int list"
  assumes "ts \<noteq> []" "m = sort ts ! (length ts div 2)"
  shows "m \<in> set ts" "2 * length (filter (\<lambda>x. x < m) ts) \<le> length ts"
    "2 * length (filter (\<lambda>x. m < x) ts) \<le> length ts"
proof -
  let ?s = "sort ts" and ?k = "length ts div 2"
  have k: "?k < length ?s" using assms(1) by simp
  have same: "length (filter P ?s) = length (filter P ts)" for P :: "int \<Rightarrow> bool"
    by (metis mset_filter mset_sort size_mset)
  show "m \<in> set ts" using k assms(2) by (metis nth_mem set_sort)
  show "2 * length (filter (\<lambda>x. x < m) ts) \<le> length ts"
    using filter_less_nth(1) [OF sorted_sort k] by (simp add: assms(2) same)
  show "2 * length (filter (\<lambda>x. m < x) ts) \<le> length ts"
    using filter_less_nth(2) [OF sorted_sort k] by (simp add: assms(2) same)
qed

section \<open>Properties\<close>

text \<open>Five nodes: the chain \<open>0, 1, 2\<close> and the fork \<open>3, 4\<close> from node \<open>1\<close>.\<close>

definition sample_node :: "ptr option \<Rightarrow> int \<Rightarrow> nat \<Rightarrow> blockNode" where
  "sample_node parent height k =
     \<lparr>bn_parent = parent, bn_ancestor = (if height = 0 then None else Some 0),
      bn_hash = replicate 32 (word_of_nat k), bn_workSum = height + 1, bn_height = height, bn_version = 1,
      bn_bits = 0x1d00ffff, bn_nonce = 0, bn_timestamp = 600 * height, bn_merkleRoot = zeroHash,
      bn_status = statusNone\<rparr>"

definition sample_heap :: heap where
  "sample_heap =
     [0 \<mapsto> sample_node None 0 0, 1 \<mapsto> sample_node (Some 0) 1 1, 2 \<mapsto> sample_node (Some 1) 2 2,
      3 \<mapsto> sample_node (Some 1) 2 3, 4 \<mapsto> sample_node (Some 3) 3 4]"

lemma sample_node_simps [simp]:
  "bn_parent (sample_node q ht k) = q" "bn_height (sample_node q ht k) = ht"
  "bn_hash (sample_node q ht k) = replicate 32 (word_of_nat k)"
  "bn_timestamp (sample_node q ht k) = 600 * ht" "bn_bits (sample_node q ht k) = 0x1d00ffff"
  "bn_workSum (sample_node q ht k) = ht + 1"
  by (simp_all add: sample_node_def)

lemma sample_heap_at [simp]:
  "sample_heap 0 = Some (sample_node None 0 0)" "sample_heap (Suc 0) = Some (sample_node (Some 0) 1 1)"
  "sample_heap 2 = Some (sample_node (Some 1) 2 2)" "sample_heap 3 = Some (sample_node (Some 1) 2 3)"
  "sample_heap 4 = Some (sample_node (Some 3) 3 4)" "sample_heap 5 = None"
  by (simp_all add: sample_heap_def)

lemma wf_sample_heap: "wf_heap sample_heap"
proof -
  have "wf_node sample_heap p nd" if "sample_heap p = Some nd" for p nd
  proof -
    from that consider "p = 0" | "p = 1" | "p = 2" | "p = 3" | "p = 4"
      by (auto simp: sample_heap_def split: if_splits)
    then show ?thesis
      using that
      by cases (auto simp: wf_node_def sample_node_def getAncestorHeight_def invertLowestOne_def
          up_numeral)
  qed
  then show ?thesis by (simp add: wf_heap_def)
qed

text \<open>
  C28: the skip list finds the ancestor.  On a well-formed store, \<open>Ancestor\<close> returns for every
  height between zero and the node's own the node reached by following parents, and nil
  outside that range, although it jumps along skip pointers; it always terminates.
\<close>

theorem ancestor_skip_correct:
  assumes "wf_heap h" and "h node = Some nd"
  shows "Ancestor h node height =
    Some (if 0 \<le> height \<and> height \<le> bn_height nd then up (nat (bn_height nd - height)) h node else None)"
  by (rule Ancestor_up [OF assms])

theorem ancestor_skip_correct_witness:
  "Ancestor sample_heap 2 0 = Some (Some 0) \<and> Ancestor sample_heap 2 3 = Some None"
proof -
  have at: "sample_heap 2 = Some (sample_node (Some 1) 2 2)" by simp
  have "up 2 sample_heap 2 = Some 0" by (simp add: up_numeral)
  then show ?thesis
    using ancestor_skip_correct [OF wf_sample_heap at, of 0] ancestor_skip_correct [OF wf_sample_heap at, of 3]
    by simp
qed

text \<open>
  C30: adding a block keeps the tree well-formed.  A node made at a fresh address for a
  header, with no parent or an existing one, has its parent's height plus one and its
  parent's work plus its own, a skip pointer to the right ancestor, and the store stays
  well-formed; reading the header back from the node gives the header it was made from when
  that header names its parent's hash.
\<close>

theorem new_block_node_invariant:
  assumes "wf_heap h" and "h p = None" and "h q = Some par"
  shows "\<exists>h' node. newBlockNode h hdr (Some q) p = Some h' \<and> wf_heap h' \<and> h' p = Some node \<and>
    bn_parent node = Some q \<and> bn_height node = bn_height par + 1 \<and>
    bn_workSum node = bn_workSum par + CalcWork (bh_Bits hdr) \<and>
    (bh_PrevBlock hdr = bn_hash par \<longrightarrow> Header h' p = Some hdr)"
proof -
  obtain node where n: "initBlockNode h hdr (Some q) = Some node"
    "newBlockNode h hdr (Some q) p = Some (h(p \<mapsto> node))" "wf_heap (h(p \<mapsto> node))"
    using newBlockNode_wf [OF assms(1,2), of "Some q" hdr] assms(3) by auto
  have "q \<noteq> p" using assms(2,3) by auto
  moreover have "bn_parent node = Some q" "bn_height node = bn_height par + 1"
    "bn_workSum node = bn_workSum par + CalcWork (bh_Bits hdr)"
    "bn_version node = bh_Version hdr" "bn_bits node = bh_Bits hdr" "bn_nonce node = bh_Nonce hdr"
    "bn_timestamp node = bh_Timestamp hdr" "bn_merkleRoot node = bh_MerkleRoot hdr"
    using initBlockNode_child [OF assms(1,3), of hdr] n(1) by auto
  ultimately show ?thesis
    using n assms(3) by (intro exI [of _ "h(p \<mapsto> node)"] exI [of _ node]) (simp add: Header_def)
qed

theorem new_block_node_invariant_witness:
  "\<exists>h' node. newBlockNode sample_heap sample_header (Some 2) 5 = Some h' \<and> wf_heap h' \<and>
     h' 5 = Some node \<and> bn_height node = 3"
proof -
  have "sample_heap 5 = None" "sample_heap 2 = Some (sample_node (Some 1) 2 2)" by simp_all
  from new_block_node_invariant [OF wf_sample_heap this, of sample_header] show ?thesis by auto
qed

text \<open>
  C31: the past median time.  It is computed from the timestamps of the node and its up to
  ten predecessors, is one of them, and at most half of them lie below it and at most half
  above it.
\<close>

theorem past_median_time:
  assumes "wf_heap h" and "h node = Some nd"
  shows "\<exists>ts m. CalcPastMedianTime h node = Some m \<and> length ts = min 11 (nat (bn_height nd) + 1) \<and>
    (\<forall>i<length ts. \<exists>q k. up i h node = Some q \<and> h q = Some k \<and> ts ! i = bn_timestamp k) \<and>
    m \<in> set ts \<and> 2 * length (filter (\<lambda>t. t < m) ts) \<le> length ts \<and>
    2 * length (filter (\<lambda>t. m < t) ts) \<le> length ts"
proof -
  obtain ts where ts: "collectTimes 11 h (Some node) = Some ts" "length ts = min 11 (nat (bn_height nd) + 1)"
    "\<forall>i<length ts. \<exists>q k. up i h node = Some q \<and> h q = Some k \<and> ts ! i = bn_timestamp k"
    using collectTimes_up [OF assms] by blast
  have "ts \<noteq> []" using ts(2) by auto
  with median_sort [OF this refl] ts show ?thesis
    by (intro exI [of _ ts] exI [of _ "sort ts ! (length ts div 2)"])
      (simp add: CalcPastMedianTime_def Let_def)
qed

theorem past_median_time_witness:
  "\<exists>ts m. CalcPastMedianTime sample_heap 2 = Some m \<and> length ts = 3 \<and> m \<in> set ts \<and>
     2 * length (filter (\<lambda>t. t < m) ts) \<le> 3 \<and> 2 * length (filter (\<lambda>t. m < t) ts) \<le> 3"
proof -
  have "sample_heap 2 = Some (sample_node (Some 1) 2 2)" by simp
  from past_median_time [OF wf_sample_heap this] show ?thesis by auto
qed

lemma IsAncestor_iff:
  assumes "wf_heap h" "h node = Some nd" "h other = Some od"
  shows "IsAncestor h node other = Some (\<exists>k>0. up k h node = Some other)"
proof -
  have "(\<exists>k>0. up k h node = Some other) =
      (0 \<le> bn_height od \<and> bn_height od < bn_height nd \<and>
       up (nat (bn_height nd - bn_height od)) h node = Some other)" (is "?L = ?R")
  proof
    assume ?L
    then obtain k where k: "k > 0" "up k h node = Some other" by blast
    then have "bn_height od = bn_height nd - int k"
      using up_heightD [OF assms(1,2)] assms(3) by fastforce
    moreover have "0 \<le> bn_height od" using wf_heapD [OF assms(1,3)] by (simp add: wf_node_def)
    ultimately show ?R using k by simp
  next
    assume ?R
    then show ?L by (intro exI [of _ "nat (bn_height nd - bn_height od)"]) simp
  qed
  moreover have "bn_height od = bn_height nd" if "other = node" using that assms by simp
  moreover have "up (nat (bn_height nd - bn_height od)) h node \<noteq> Some node" if "bn_height od < bn_height nd"
    using up_heightD [OF assms(1,2), of "nat (bn_height nd - bn_height od)" node] that assms(2) by auto
  ultimately show ?thesis
    using assms by (auto simp: IsAncestor_def Ancestor_up)
qed

text \<open>
  C24: status flags.  Setting or clearing flags of a node changes nothing but its status,
  so the tree stays well-formed; setting turns exactly the given flags on, clearing turns
  exactly them off, and both remember the node as dirty.
\<close>

theorem status_flags:
  assumes "wf_heap h" and "h p = Some nd"
  shows "wf_heap (fst (SetStatusFlags h bi p flags)) \<and> wf_heap (fst (UnsetStatusFlags h bi p flags)) \<and>
    NodeStatus (fst (SetStatusFlags h bi p flags)) p = Some (bn_status nd OR flags) \<and>
    NodeStatus (fst (UnsetStatusFlags h bi p flags)) p = Some (bn_status nd AND NOT flags) \<and>
    (KnownInvalid flags \<longrightarrow> KnownInvalid (bn_status nd OR flags)) \<and>
    p \<in> bi_dirty (snd (SetStatusFlags h bi p flags)) \<and> p \<in> bi_dirty (snd (UnsetStatusFlags h bi p flags)) \<and>
    (\<forall>q. q \<noteq> p \<longrightarrow> fst (SetStatusFlags h bi p flags) q = h q \<and> fst (UnsetStatusFlags h bi p flags) q = h q)"
proof -
  have s: "status_only (\<lambda>nd. nd\<lparr>bn_status := bn_status nd OR flags\<rparr>)"
    "status_only (\<lambda>nd. nd\<lparr>bn_status := bn_status nd AND NOT flags\<rparr>)"
    by (simp_all add: status_only_def)
  have "KnownInvalid flags \<longrightarrow> KnownInvalid (bn_status nd OR flags)"
    by (auto simp: KnownInvalid_def bit_eq_iff bit_simps)
  then show ?thesis
    using wf_heap_status [OF s(1) assms(1), of p] wf_heap_status [OF s(2) assms(1), of p] assms(2)
    by (simp add: SetStatusFlags_def UnsetStatusFlags_def NodeStatus_def)
qed

theorem status_flags_witness:
  "NodeStatus (fst (SetStatusFlags sample_heap newBlockIndex 2 statusValidateFailed)) 2 =
     Some (bn_status (sample_node (Some 1) 2 2) OR statusValidateFailed) \<and>
   KnownInvalid (bn_status (sample_node (Some 1) 2 2) OR statusValidateFailed)"
proof -
  have "sample_heap 2 = Some (sample_node (Some 1) 2 2)" by simp
  moreover have "KnownInvalid statusValidateFailed"
    by (simp add: KnownInvalid_def)
  ultimately show ?thesis
    using status_flags [OF wf_sample_heap, of 2 _ newBlockIndex statusValidateFailed] by blast
qed

end
