(* ===== verification/Chain_View.thy ===== *)
theory Chain_View
  imports Block_Index
begin

unbundle bit_operations_syntax

text \<open>
  Flat views of a branch (\<^verbatim>\<open>blockchain/chainview.go\<close>) and the nodes to detach and attach in a
  reorganization (\<^verbatim>\<open>getReorganizeNodes\<close> of \<^verbatim>\<open>blockchain/chain.go\<close>).  A view is its slice of node
  pointers by height.  The mutex wrappers (\<^verbatim>\<open>SetTip\<close>, \<^verbatim>\<open>Contains\<close>, ...) call the functions modelled
  here.  An index out of range is the value \<open>None\<close>, like a dangling pointer.
\<close>

section \<open>Operations\<close>

type_synonym chainView = "ptr option list"

definition fastLog2Floor_step :: "uint32 \<Rightarrow> byte \<times> nat \<times> uint32 \<Rightarrow> byte \<times> nat \<times> uint32" where
  "fastLog2Floor_step mask_i = (\<lambda>(rv, exponent, n).
     if n AND mask_i \<noteq> 0 then (rv + word_of_nat exponent, exponent div 2, drop_bit exponent n)
     else (rv, exponent div 2, n))"

definition fastLog2Floor :: "uint32 \<Rightarrow> byte" where
  "fastLog2Floor n =
     fst (fold fastLog2Floor_step [0xffff0000, 0xff00, 0xf0, 0xc, 0x2] (0, 16, n))"

definition genesis :: "chainView \<Rightarrow> ptr option" where
  "genesis nodes = (if length nodes = 0 then None else nodes ! 0)"

definition tip :: "chainView \<Rightarrow> ptr option" where
  "tip nodes = (if length nodes = 0 then None else nodes ! (length nodes - 1))"

partial_function (option) setTipLoop :: "heap \<Rightarrow> chainView \<Rightarrow> ptr option \<Rightarrow> chainView option" where
  "setTipLoop h nodes node =
     (case node of
        None \<Rightarrow> Some nodes
      | Some p \<Rightarrow>
          Option.bind (h p) (\<lambda>nd.
            if bn_height nd < 0 \<or> bn_height nd \<ge> int (length nodes) then None
            else if nodes ! nat (bn_height nd) = Some p then Some nodes
            else setTipLoop h (nodes[nat (bn_height nd) := Some p]) (bn_parent nd)))"

text \<open>
  The slice is cut or extended with nil to the height of the new tip, whether or not its
  backing array is reused.
\<close>

definition setTip :: "heap \<Rightarrow> chainView \<Rightarrow> ptr option \<Rightarrow> chainView option" where
  "setTip h nodes node =
     (case node of
        None \<Rightarrow> Some []
      | Some p \<Rightarrow>
          Option.bind (h p) (\<lambda>nd.
            let needed = nat (bn_height nd + 1);
                nodes = take needed nodes @ replicate (needed - length nodes) None
            in setTipLoop h nodes node))"

definition newChainView :: "heap \<Rightarrow> ptr option \<Rightarrow> chainView option" where
  "newChainView h tipNode = setTip h [] tipNode"

definition view_height :: "chainView \<Rightarrow> int" where
  "view_height nodes = int (length nodes) - 1"

definition nodeByHeight :: "chainView \<Rightarrow> int \<Rightarrow> ptr option" where
  "nodeByHeight nodes height =
     (if height < 0 \<or> height \<ge> int (length nodes) then None else nodes ! nat height)"

definition view_Equals :: "chainView \<Rightarrow> chainView \<Rightarrow> bool" where
  "view_Equals nodes other \<longleftrightarrow> length nodes = length other \<and> tip nodes = tip other"

definition contains :: "heap \<Rightarrow> chainView \<Rightarrow> ptr \<Rightarrow> bool option" where
  "contains h nodes node =
     Option.bind (h node) (\<lambda>nd. Some (nodeByHeight nodes (bn_height nd) = Some node))"

definition view_next :: "heap \<Rightarrow> chainView \<Rightarrow> ptr option \<Rightarrow> ptr option option" where
  "view_next h nodes node =
     (case node of
        None \<Rightarrow> Some None
      | Some p \<Rightarrow>
          Option.bind (contains h nodes p) (\<lambda>c.
            if \<not> c then Some None
            else Option.bind (h p) (\<lambda>nd. Some (nodeByHeight nodes (bn_height nd + 1)))))"

partial_function (option) forkLoop :: "heap \<Rightarrow> chainView \<Rightarrow> ptr option \<Rightarrow> ptr option option" where
  "forkLoop h nodes node =
     (case node of
        None \<Rightarrow> Some None
      | Some p \<Rightarrow>
          Option.bind (contains h nodes p) (\<lambda>c.
            if c then Some (Some p)
            else Option.bind (h p) (\<lambda>nd. forkLoop h nodes (bn_parent nd))))"

definition findFork :: "heap \<Rightarrow> chainView \<Rightarrow> ptr option \<Rightarrow> ptr option option" where
  "findFork h nodes node =
     (case node of
        None \<Rightarrow> Some None
      | Some p \<Rightarrow>
          Option.bind (h p) (\<lambda>nd.
          let chainHeight = view_height nodes in
          Option.bind (if bn_height nd > chainHeight then Ancestor h p chainHeight else Some (Some p))
            (forkLoop h nodes)))"

text \<open>The loop of \<^verbatim>\<open>blockLocator\<close>; \<open>len\<close> is the number of hashes collected so far.\<close>

partial_function (option) locatorLoop ::
    "heap \<Rightarrow> chainView \<Rightarrow> nat \<Rightarrow> int \<Rightarrow> ptr option \<Rightarrow> ptr list option" where
  "locatorLoop h nodes len step node =
     (case node of
        None \<Rightarrow> Some []
      | Some p \<Rightarrow>
          Option.bind (h p) (\<lambda>nd.
            if bn_height nd = 0 then Some [p]
            else
              Option.bind (contains h nodes p) (\<lambda>c.
              Option.bind
                (let height = max 0 (bn_height nd - step) in
                 if c then Some (nodes ! nat height) else Ancestor h p height) (\<lambda>n.
              Option.bind
                (locatorLoop h nodes (len + 1) (if len + 1 > 10 then step * 2 else step) n)
                (\<lambda>ps. Some (p # ps))))))"

text \<open>The capacity that \<^verbatim>\<open>blockLocator\<close> reserves for its result.\<close>

definition maxEntries :: "int \<Rightarrow> byte" where
  "maxEntries height =
     (if height \<le> 12 then word_of_int height + 1
      else 12 + fastLog2Floor (word_of_int height - 10))"

definition blockLocator :: "heap \<Rightarrow> chainView \<Rightarrow> ptr option \<Rightarrow> hash list option" where
  "blockLocator h nodes node =
     (let node = (if node = None then tip nodes else node) in
      Option.bind (locatorLoop h nodes 0 1 node) (\<lambda>ps.
        Some (map (\<lambda>p. case h p of Some nd \<Rightarrow> bn_hash nd | None \<Rightarrow> zeroHash) ps)))"

section \<open>Reorganization\<close>

text \<open>
  The loop that walks from the new tip to the fork.  It returns whether a known invalid
  block was met, and the nodes pushed to the front so far.
\<close>

partial_function (option) attachLoop ::
    "heap \<Rightarrow> ptr option \<Rightarrow> ptr option \<Rightarrow> ptr list \<Rightarrow> (bool \<times> ptr list) option" where
  "attachLoop h forkNode n attachNodes =
     (if n = None \<or> n = forkNode then Some (False, attachNodes)
      else
        Option.bind (h (the n)) (\<lambda>nd.
          if KnownInvalid (bn_status nd) then Some (True, attachNodes)
          else attachLoop h forkNode (bn_parent nd) (the n # attachNodes)))"

partial_function (option) detachLoop ::
    "heap \<Rightarrow> ptr option \<Rightarrow> ptr option \<Rightarrow> ptr list \<Rightarrow> ptr list option" where
  "detachLoop h forkNode n detachNodes =
     (if n = None \<or> n = forkNode then Some detachNodes
      else
        Option.bind (h (the n)) (\<lambda>nd.
          detachLoop h forkNode (bn_parent nd) (detachNodes @ [the n])))"

definition getReorganizeNodes ::
    "heap \<Rightarrow> blockIndex \<Rightarrow> chainView \<Rightarrow> ptr \<Rightarrow> (heap \<times> blockIndex \<times> ptr list \<times> ptr list) option" where
  "getReorganizeNodes h bi nodes node =
     Option.bind (h node) (\<lambda>nd.
     Option.bind (bn_parent nd) (\<lambda>parent.
     Option.bind (NodeStatus h parent) (\<lambda>status.
       if KnownInvalid status then
         let (h, bi) = SetStatusFlags h bi node statusInvalidAncestor
         in Some (h, bi, [], [])
       else
         Option.bind (findFork h nodes (Some node)) (\<lambda>forkNode.
         Option.bind (attachLoop h forkNode (Some node) []) (\<lambda>(invalidChain, attachNodes).
           if invalidChain then
             let (h, bi) = foldl (\<lambda>(h, bi) n. SetStatusFlags h bi n statusInvalidAncestor) (h, bi) attachNodes
             in Some (h, bi, [], [])
           else
             Option.bind (detachLoop h forkNode (tip nodes) []) (\<lambda>detachNodes.
               Some (h, bi, detachNodes, attachNodes)))))))"

section \<open>Views of a branch\<close>

text \<open>The branch that ends in \<open>p\<close>, by height.\<close>

definition branch :: "heap \<Rightarrow> ptr \<Rightarrow> chainView" where
  "branch h p =
     (case h p of
        None \<Rightarrow> []
      | Some nd \<Rightarrow> map (\<lambda>i. up (nat (bn_height nd) - i) h p) [0..<Suc (nat (bn_height nd))])"

text \<open>The invariant of a view: it is empty or shows the branch of some node.\<close>

definition valid_view :: "heap \<Rightarrow> chainView \<Rightarrow> bool" where
  "valid_view h nodes \<longleftrightarrow> nodes = [] \<or> (\<exists>p. h p \<noteq> None \<and> nodes = branch h p)"

lemma length_branch: "h p = Some nd \<Longrightarrow> length (branch h p) = Suc (nat (bn_height nd))"
  by (simp add: branch_def)

lemma nth_branch:
  "h p = Some nd \<Longrightarrow> i \<le> nat (bn_height nd) \<Longrightarrow> branch h p ! i = up (nat (bn_height nd) - i) h p"
  by (simp add: branch_def del: upt_Suc)

text \<open>Below an entry of a branch are the ancestors of that entry.\<close>

definition down_closed :: "heap \<Rightarrow> chainView \<Rightarrow> nat \<Rightarrow> bool" where
  "down_closed h nodes n \<longleftrightarrow>
     (\<forall>i<n. i < length nodes \<longrightarrow>
        (\<forall>x. nodes ! i = Some x \<longrightarrow> (\<forall>j\<le>i. nodes ! j = up (i - j) h x)))"

lemma down_closedD:
  "down_closed h nodes n \<Longrightarrow> i < n \<Longrightarrow> i < length nodes \<Longrightarrow> nodes ! i = Some x \<Longrightarrow> j \<le> i \<Longrightarrow>
     nodes ! j = up (i - j) h x"
  by (simp add: down_closed_def)

lemma branch_down_closed:
  assumes "wf_heap h" "h p = Some nd"
  shows "down_closed h (branch h p) n"
  unfolding down_closed_def
proof (intro allI impI)
  fix i x j
  assume i: "i < length (branch h p)" "branch h p ! i = Some x" and j: "j \<le> i"
  let ?H = "nat (bn_height nd)"
  have "up (?H - i) h p = Some x" using i assms(2) by (simp add: nth_branch length_branch)
  moreover have H: "?H - j = (?H - i) + (i - j)" using i j assms(2) by (simp add: length_branch)
  moreover have "branch h p ! j = up (?H - j) h p"
    using i j assms(2) by (simp add: nth_branch length_branch)
  ultimately show "branch h p ! j = up (i - j) h x"
    unfolding H up_add by simp
qed

lemma down_closed_update:
  assumes "down_closed h L n" "n \<le> m"
  shows "down_closed h (L[m := v]) n"
  unfolding down_closed_def
proof (intro allI impI)
  fix i x j
  assume a: "i < n" "i < length (L[m := v])" "L[m := v] ! i = Some x" "j \<le> i"
  with assms(2) have "L[m := v] ! i = L ! i" "L[m := v] ! j = L ! j" by simp_all
  with a assms(1) show "L[m := v] ! j = up (i - j) h x" using down_closedD by fastforce
qed

lemma down_closed_mono: "down_closed h L n \<Longrightarrow> m \<le> n \<Longrightarrow> down_closed h L m"
  by (meson down_closed_def less_le_trans)

lemma setTipLoop_branch:
  assumes wf: "wf_heap h" and p: "h p = Some nd"
    and c: "up k h p = Some c" "h c = Some cn"
    and len: "length L = Suc (nat (bn_height nd))"
    and upper: "\<And>i. nat (bn_height cn) < i \<Longrightarrow> i \<le> nat (bn_height nd) \<Longrightarrow> L ! i = branch h p ! i"
    and closed: "down_closed h L (Suc (nat (bn_height cn)))"
  shows "setTipLoop h L (Some c) = Some (branch h p)"
  using c len upper closed
proof (induction "nat (bn_height cn)" arbitrary: k c cn L rule: less_induct)
  case less
  let ?H = "nat (bn_height nd)" and ?i = "nat (bn_height cn)"
  have hc: "bn_height cn = bn_height nd - int k"
    using up_heightD [OF wf p less.prems(1)] less.prems(2) by simp
  have pos: "0 \<le> bn_height cn" using wf_heapD [OF wf less.prems(2)] by (simp add: wf_node_def)
  then have k: "?H - ?i = k" "?i \<le> ?H" using hc by simp_all
  have at: "branch h p ! ?i = Some c" using k less.prems(1) p by (simp add: nth_branch)
  have in_range: "\<not> (bn_height cn < 0 \<or> bn_height cn \<ge> int (length L))"
    using pos hc less.prems(3) by simp
  show ?case
  proof (cases "L ! ?i = Some c")
    case True
    have "L = branch h p"
    proof (rule nth_equalityI)
      show "length L = length (branch h p)" using less.prems(3) p by (simp add: length_branch)
      fix j
      assume j: "j < length L"
      show "L ! j = branch h p ! j"
      proof (cases "j \<le> ?i")
        case le: True
        have "L ! j = up (?i - j) h c"
          using down_closedD [OF less.prems(5) lessI _ True le] k less.prems(3) by simp
        also have "\<dots> = branch h p ! j"
          using down_closedD [OF branch_down_closed [OF wf p] lessI _ at le] k p by (simp add: length_branch)
        finally show ?thesis .
      next
        case False
        with less.prems(3,4) j show ?thesis by simp
      qed
    qed
    moreover have "setTipLoop h L (Some c) = Some L"
      using True in_range less.prems(2) by (simp add: setTipLoop.simps [of h L "Some c"])
    ultimately show ?thesis by simp
  next
    case False
    let ?L = "L[?i := Some c]"
    have loop: "setTipLoop h L (Some c) = setTipLoop h ?L (bn_parent cn)"
      using False in_range less.prems(2) by (simp add: setTipLoop.simps [of h L "Some c"])
    have upper': "?L ! i = branch h p ! i" if "?i \<le> i" "i \<le> ?H" for i
      using that less.prems(3,4) at by (cases "i = ?i") simp_all
    show ?thesis
    proof (cases "bn_parent cn")
      case None
      then have "bn_height cn = 0" using wf_heapD [OF wf less.prems(2)] by (simp add: wf_node_def)
      then have "?L = branch h p"
        using upper' less.prems(3) p by (intro nth_equalityI) (simp_all add: length_branch)
      then show ?thesis using loop None by (simp add: setTipLoop.simps [of h _ None])
    next
      case (Some q)
      then obtain qn where q: "h q = Some qn" "bn_height cn = bn_height qn + 1"
        using wf_heapD [OF wf less.prems(2)] by (auto simp: wf_node_def split: option.splits)
      have qpos: "0 \<le> bn_height qn" using wf_heapD [OF wf q(1)] by (simp add: wf_node_def)
      have i: "?i = Suc (nat (bn_height qn))" using q(2) qpos by simp
      have "up (Suc k) h p = Some q"
        using up_add [of k 1 h p] less.prems(1,2) Some by simp
      moreover have "down_closed h ?L (Suc (nat (bn_height qn)))"
        using down_closed_update [OF down_closed_mono [OF less.prems(5)]] i by simp
      ultimately have "setTipLoop h ?L (Some q) = Some (branch h p)"
        using upper' less.prems(3) i q(1) by (intro less.hyps [where k = "Suc k"]) auto
      then show ?thesis using loop Some by simp
    qed
  qed
qed

lemma setTip_branch:
  assumes "wf_heap h" "valid_view h nodes" "h p = Some nd"
  shows "setTip h nodes (Some p) = Some (branch h p)"
proof -
  let ?n = "nat (bn_height nd + 1)"
  let ?L = "take ?n nodes @ replicate (?n - length nodes) None"
  have pos: "0 \<le> bn_height nd" using wf_heapD [OF assms(1,3)] by (simp add: wf_node_def)
  have closed: "down_closed h nodes k" for k
    using assms(1,2) branch_down_closed unfolding valid_view_def
    by (metis down_closed_def list.size(3) not_less_zero option.exhaust)
  have "down_closed h ?L (Suc (nat (bn_height nd)))"
    unfolding down_closed_def
  proof (intro allI impI)
    fix i x j
    assume i: "i < length ?L" "?L ! i = Some x" and j: "j \<le> i"
    then have "i < length nodes" "i < ?n" "nodes ! i = Some x"
      by (auto simp: nth_append split: if_splits)
    with down_closedD [OF closed lessI _ _ j] j show "?L ! j = up (i - j) h x"
      by (simp add: nth_append)
  qed
  then have "setTipLoop h ?L (Some p) = Some (branch h p)"
    using pos assms(1,3) by (intro setTipLoop_branch [of h p nd 0 p nd]) auto
  then show ?thesis using assms(3) by (simp add: setTip_def Let_def)
qed

lemma valid_view_branch: "h p = Some nd \<Longrightarrow> valid_view h (branch h p)"
  by (auto simp: valid_view_def)

section \<open>Membership and forks\<close>

lemma contains_branch:
  assumes "wf_heap h" "h t = Some tn" "h p = Some nd"
  shows "contains h (branch h t) p = Some (\<exists>k. up k h t = Some p)"
proof -
  have pos: "0 \<le> bn_height nd" "0 \<le> bn_height tn"
    using wf_heapD [OF assms(1,2)] wf_heapD [OF assms(1,3)] by (simp_all add: wf_node_def)
  have "(nodeByHeight (branch h t) (bn_height nd) = Some p) = (\<exists>k. up k h t = Some p)" (is "?L = ?R")
  proof
    assume ?L
    then have "bn_height nd \<le> bn_height tn" "branch h t ! nat (bn_height nd) = Some p"
      using assms(2) pos by (auto simp: nodeByHeight_def length_branch split: if_splits)
    then show ?R using assms(2) pos by (auto simp: nth_branch)
  next
    assume ?R
    then obtain k where k: "up k h t = Some p" by blast
    then have "bn_height nd = bn_height tn - int k"
      using up_heightD [OF assms(1,2) k] assms(3) by simp
    moreover from this pos have "nat (bn_height tn) - nat (bn_height nd) = k" by simp
    ultimately show ?L
      using k pos assms(2) by (simp add: nodeByHeight_def length_branch nth_branch del: nat_le_eq_zle)
  qed
  then show ?thesis using assms(3) by (simp add: contains_def)
qed

lemma contains_empty: "h p = Some nd \<Longrightarrow> contains h [] p = Some False"
  by (auto simp: contains_def nodeByHeight_def)

text \<open>The nodes a view shows.\<close>

definition in_view :: "heap \<Rightarrow> chainView \<Rightarrow> ptr \<Rightarrow> bool" where
  "in_view h nodes p \<longleftrightarrow> contains h nodes p = Some True"

lemma contains_total: "h p = Some nd \<Longrightarrow> contains h nodes p = Some (in_view h nodes p)"
  by (auto simp: in_view_def contains_def)

text \<open>A view that shows a node shows all its ancestors.\<close>

lemma in_view_up:
  assumes "wf_heap h" "valid_view h nodes" "h p = Some nd" "in_view h nodes p" "up k h p = Some q"
  shows "in_view h nodes q"
proof -
  obtain qn where q: "h q = Some qn" using up_heightD [OF assms(1,3,5)] by blast
  from assms(2,3,4) obtain t tn where t: "h t = Some tn" "nodes = branch h t"
    using contains_empty [of h p] by (auto simp: valid_view_def in_view_def)
  with assms(1,3,4) obtain j where "up j h t = Some p"
    by (auto simp: in_view_def contains_branch)
  then have "up (j + k) h t = Some q" using assms(5) by (simp only: up_add) simp
  then show ?thesis using t assms(1) q by (auto simp: in_view_def contains_branch)
qed

lemma forkLoop_first:
  assumes "wf_heap h" "h p = Some nd"
  shows "\<exists>r. forkLoop h nodes (Some p) = Some r \<and>
    (case r of
       None \<Rightarrow> \<forall>k q. up k h p = Some q \<longrightarrow> \<not> in_view h nodes q
     | Some f \<Rightarrow> in_view h nodes f \<and>
         (\<exists>k. up k h p = Some f \<and> (\<forall>j<k. \<forall>q. up j h p = Some q \<longrightarrow> \<not> in_view h nodes q)))"
  using assms(2)
proof (induction "nat (bn_height nd)" arbitrary: p nd rule: less_induct)
  case less
  note wf = wf_heapD [OF assms(1) less.prems]
  show ?case
  proof (cases "in_view h nodes p")
    case True
    with less.prems show ?thesis
      by (intro exI [of _ "Some p"])
        (auto simp: forkLoop.simps [of h nodes "Some p"] contains_total intro: exI [of _ 0])
  next
    case False
    have loop: "forkLoop h nodes (Some p) = forkLoop h nodes (bn_parent nd)"
      using False less.prems by (simp add: forkLoop.simps [of h nodes "Some p"] contains_total)
    show ?thesis
    proof (cases "bn_parent nd")
      case None
      have "\<not> in_view h nodes q" if "up k h p = Some q" for k q
        using that None less.prems False by (cases k) auto
      then show ?thesis
        using loop None by (intro exI [of _ None]) (auto simp: forkLoop.simps [of h nodes None])
    next
      case (Some q)
      then obtain qn where q: "h q = Some qn" "bn_height nd = bn_height qn + 1" "0 \<le> bn_height qn"
        using wf wf_heapD [OF assms(1)] by (fastforce simp: wf_node_def split: option.splits)
      have step: "up (Suc k) h p = up k h q" for k using Some less.prems by simp
      obtain r where r: "forkLoop h nodes (Some q) = Some r"
        "case r of None \<Rightarrow> \<forall>k x. up k h q = Some x \<longrightarrow> \<not> in_view h nodes x
         | Some f \<Rightarrow> in_view h nodes f \<and>
             (\<exists>k. up k h q = Some f \<and> (\<forall>j<k. \<forall>x. up j h q = Some x \<longrightarrow> \<not> in_view h nodes x))"
        using less.hyps [OF _ q(1)] q(2,3) by auto
      have shift: "\<not> in_view h nodes x" if "\<forall>j<k. \<forall>x. up j h q = Some x \<longrightarrow> \<not> in_view h nodes x"
        "j < Suc k" "up j h p = Some x" for j k x
        using that False step by (cases j) auto
      show ?thesis
      proof (cases r)
        case None
        have "\<not> in_view h nodes x" if "up k h p = Some x" for k x
          using that False step r(2) None by (cases k) auto
        then show ?thesis using loop r(1) Some None by auto
      next
        case (Some f)
        with r(2) obtain k where "in_view h nodes f" "up k h q = Some f"
          "\<forall>j<k. \<forall>x. up j h q = Some x \<longrightarrow> \<not> in_view h nodes x" by auto
        then show ?thesis
          using loop r(1) \<open>bn_parent nd = Some q\<close> Some shift step
          by (intro exI [of _ "Some f"]) (auto intro!: exI [of _ "Suc k"])
      qed
    qed
  qed
qed

text \<open>
  The fork of a node from a view: the first of the node and its ancestors that the view
  shows, or nil if it shows none of them.
\<close>

definition fork_point :: "heap \<Rightarrow> chainView \<Rightarrow> ptr \<Rightarrow> ptr option \<Rightarrow> bool" where
  "fork_point h nodes p r \<longleftrightarrow>
     (case r of
        None \<Rightarrow> \<forall>k q. up k h p = Some q \<longrightarrow> \<not> in_view h nodes q
      | Some f \<Rightarrow> in_view h nodes f \<and>
          (\<exists>k. up k h p = Some f \<and> (\<forall>j<k. \<forall>q. up j h p = Some q \<longrightarrow> \<not> in_view h nodes q)))"

lemma not_in_view_above:
  "h q = Some qn \<Longrightarrow> view_height nodes < bn_height qn \<Longrightarrow> \<not> in_view h nodes q"
  by (auto simp: in_view_def contains_def nodeByHeight_def view_height_def)

lemma findFork_fork_point:
  assumes wf: "wf_heap h" and p: "h p = Some nd"
  shows "\<exists>r. findFork h nodes (Some p) = Some r \<and> fork_point h nodes p r"
proof (cases "bn_height nd > view_height nodes")
  case False
  with p forkLoop_first [OF assms, of nodes] show ?thesis
    by (simp add: findFork_def fork_point_def Let_def)
next
  case True
  show ?thesis
  proof (cases "view_height nodes < 0")
    case neg: True
    have "\<not> in_view h nodes q" if upq: "up k h p = Some q" for k q
    proof -
      obtain qn where "h q = Some qn" using up_heightD [OF assms upq] by blast
      moreover from this have "0 \<le> bn_height qn" using wf_heapD [OF wf] by (auto simp: wf_node_def)
      ultimately show ?thesis using neg not_in_view_above by fastforce
    qed
    then show ?thesis
      using True neg p
      by (intro exI [of _ None])
        (simp add: findFork_def fork_point_def Let_def Ancestor_def forkLoop.simps [of h nodes None])
  next
    case False
    define k where "k = nat (bn_height nd - view_height nodes)"
    obtain a an where a: "up k h p = Some a" "h a = Some an" "bn_height an = view_height nodes"
      using up_exists [OF assms, of k] True False by (auto simp: k_def)
    obtain r where r: "forkLoop h nodes (Some a) = Some r" "fork_point h nodes a r"
      using forkLoop_first [OF wf a(2), of nodes] by (auto simp: fork_point_def)
    have find: "findFork h nodes (Some p) = Some r"
      using True False p r(1) a(1) Ancestor_up [OF assms, of "view_height nodes"]
      by (simp add: findFork_def Let_def k_def)
    have low: "\<not> in_view h nodes q" if upq: "up j h p = Some q" and jk: "j < k" for j q
    proof -
      obtain qn where qn: "h q = Some qn" "bn_height qn = bn_height nd - int j"
        using up_heightD [OF assms upq] by blast
      from jk True qn(2) show ?thesis by (intro not_in_view_above [where h = h and qn = qn, OF qn(1)]) (auto simp: k_def)
    qed
    have high: "up (k + j) h p = up j h a" for j using a(1) by (simp add: up_add)
    have split: "\<exists>i. j = k + i" if "\<not> j < k" for j using that le_Suc_ex by auto
    show ?thesis
    proof (cases r)
      case None
      have "\<not> in_view h nodes q" if "up j h p = Some q" for j q
      proof (cases "j < k")
        case False
        with split that high r(2) None show ?thesis by (fastforce simp: fork_point_def)
      qed (use low that in blast)
      with find None show ?thesis by (auto simp: fork_point_def)
    next
      case (Some f)
      with r(2) obtain m where m: "in_view h nodes f" "up m h a = Some f"
        "\<forall>j<m. \<forall>q. up j h a = Some q \<longrightarrow> \<not> in_view h nodes q"
        by (auto simp: fork_point_def)
      have "\<not> in_view h nodes q" if "j < k + m" "up j h p = Some q" for j q
      proof (cases "j < k")
        case False
        with split obtain i where "j = k + i" by blast
        with that m(3) high show ?thesis by auto
      qed (use low that in blast)
      with m high find Some show ?thesis by (auto simp: fork_point_def intro!: exI [of _ "k + m"])
    qed
  qed
qed

section \<open>Paths between nodes\<close>

text \<open>The nodes from \<open>p\<close> back, \<open>k\<close> of them.\<close>

definition path :: "heap \<Rightarrow> ptr \<Rightarrow> nat \<Rightarrow> ptr list" where
  "path h p k = map (\<lambda>j. the (up j h p)) [0..<k]"

lemma path_Suc:
  assumes "h p = Some nd"
  shows "path h p (Suc k) = p # (case bn_parent nd of None \<Rightarrow> map (\<lambda>j. the None) [0..<k] | Some q \<Rightarrow> path h q k)"
  using assms
  by (auto simp: path_def upt_conv_Cons map_Suc_upt [symmetric] simp del: upt_Suc split: option.splits)

lemma length_path [simp]: "length (path h p k) = k"
  by (simp add: path_def)

text \<open>Number of steps from \<open>p\<close> to the stop node, or past the root if there is none.\<close>

definition steps_to :: "heap \<Rightarrow> ptr option \<Rightarrow> ptr \<Rightarrow> nat \<Rightarrow> bool" where
  "steps_to h stop p k \<longleftrightarrow>
     (\<forall>j<k. up j h p \<noteq> None \<and> up j h p \<noteq> stop) \<and> up k h p = stop"

lemma steps_to_Suc:
  assumes "h p = Some nd" "steps_to h stop p (Suc k)"
  shows "Some p \<noteq> stop" and "case bn_parent nd of None \<Rightarrow> k = 0 \<and> stop = None | Some q \<Rightarrow> steps_to h stop q k"
proof -
  show "Some p \<noteq> stop" using assms(2) by (auto simp: steps_to_def)
  show "case bn_parent nd of None \<Rightarrow> k = 0 \<and> stop = None | Some q \<Rightarrow> steps_to h stop q k"
  proof (cases "bn_parent nd")
    case None
    have "up 1 h p = None" using None assms(1) by simp
    with assms(2) have "\<not> 1 < Suc k" by (auto simp: steps_to_def)
    with None assms show ?thesis by (simp add: steps_to_def)
  next
    case (Some q)
    have "up j h q \<noteq> None \<and> up j h q \<noteq> stop" if "j < k" for j
      using assms(2) that Some assms(1) unfolding steps_to_def by (metis Suc_less_eq up.simps(2) bind.bind_lunit)
    moreover have "up k h q = stop" using assms Some by (simp add: steps_to_def)
    ultimately show ?thesis using Some by (simp add: steps_to_def)
  qed
qed

lemma loops_None [simp]:
  "detachLoop h stop None acc = Some acc" "attachLoop h stop None acc = Some (False, acc)"
  by (subst detachLoop.simps attachLoop.simps, simp)+

lemma detachLoop_path:
  assumes "wf_heap h" "h p = Some nd" "steps_to h stop p k"
  shows "detachLoop h stop (Some p) acc = Some (acc @ path h p k)"
  using assms(2,3)
proof (induction k arbitrary: p nd acc)
  case 0
  then show ?case by (subst detachLoop.simps) (simp add: steps_to_def path_def)
next
  case (Suc k)
  note s = steps_to_Suc [OF Suc.prems]
  have loop: "detachLoop h stop (Some p) acc = detachLoop h stop (bn_parent nd) (acc @ [p])"
    using s(1) Suc.prems(1) by (simp add: detachLoop.simps [of h stop "Some p"])
  show ?case
  proof (cases "bn_parent nd")
    case None
    with s(2) loop Suc.prems(1) show ?thesis
      by (simp add: path_def)
  next
    case (Some q)
    then obtain qn where "h q = Some qn"
      using wf_heapD [OF assms(1) Suc.prems(1)] by (auto simp: wf_node_def split: option.splits)
    with Suc.IH [of q qn "acc @ [p]"] s(2) loop Some Suc.prems(1) show ?thesis
      by (simp add: path_Suc)
  qed
qed

lemma attachLoop_path:
  assumes "wf_heap h" "h p = Some nd" "steps_to h stop p k"
    and "list_all (\<lambda>q. \<not> KnownInvalid (bn_status (the (h q)))) (path h p k)"
  shows "attachLoop h stop (Some p) acc = Some (False, rev (path h p k) @ acc)"
  using assms(2-)
proof (induction k arbitrary: p nd acc)
  case 0
  then show ?case by (subst attachLoop.simps) (simp add: steps_to_def path_def)
next
  case (Suc k)
  note s = steps_to_Suc [OF Suc.prems(1,2)]
  have ok: "\<not> KnownInvalid (bn_status nd)"
    using Suc.prems(1,3) by (simp add: path_Suc)
  have loop: "attachLoop h stop (Some p) acc = attachLoop h stop (bn_parent nd) (p # acc)"
    using s(1) Suc.prems(1) ok by (simp add: attachLoop.simps [of h stop "Some p"])
  show ?case
  proof (cases "bn_parent nd")
    case None
    with s(2) loop Suc.prems(1) show ?thesis
      by (simp add: path_def)
  next
    case (Some q)
    then obtain qn where "h q = Some qn"
      using wf_heapD [OF assms(1) Suc.prems(1)] by (auto simp: wf_node_def split: option.splits)
    with Suc.IH [of q qn "p # acc"] s(2) loop Some Suc.prems show ?thesis
      by (simp add: path_Suc)
  qed
qed

lemma steps_to_fork:
  assumes "wf_heap h" "h p = Some nd" "fork_point h nodes p r"
  shows "\<exists>k. steps_to h r p k"
proof (cases r)
  case None
  let ?k = "Suc (nat (bn_height nd))"
  have pos: "0 \<le> bn_height nd" using wf_heapD [OF assms(1,2)] by (simp add: wf_node_def)
  have "up ?k h p = None" using pos by (intro up_beyond [OF assms(1,2)]) simp
  moreover have "up j h p \<noteq> None" if "j < ?k" for j
    using up_exists [OF assms(1,2), of j] that pos by fastforce
  ultimately have "steps_to h None p ?k" unfolding steps_to_def by blast
  then show ?thesis using None by blast
next
  case (Some f)
  with assms(3) obtain k where k: "in_view h nodes f" "up k h p = Some f"
    "\<forall>j<k. \<forall>q. up j h p = Some q \<longrightarrow> \<not> in_view h nodes q"
    by (auto simp: fork_point_def)
  have "int k \<le> bn_height nd"
    using up_beyond [OF assms(1,2), of k] k(2) by (cases "int k \<le> bn_height nd") auto
  then have "up j h p \<noteq> None" if "j < k" for j
    using up_exists [OF assms(1,2), of j] that by fastforce
  with k Some show ?thesis by (auto simp: steps_to_def)
qed

text \<open>Cutting a branch at a node on it and appending the path of the node to attach.\<close>

lemma branch_split:
  assumes "wf_heap h" "h p = Some nd" "k \<le> Suc (nat (bn_height nd))"
  shows "branch h p = take (Suc (nat (bn_height nd)) - k) (branch h p) @ map Some (rev (path h p k))"
proof -
  let ?N = "Suc (nat (bn_height nd))"
  have pos: "0 \<le> bn_height nd" using wf_heapD [OF assms(1,2)] by (simp add: wf_node_def)
  have "drop (?N - k) (branch h p) = map Some (rev (path h p k))"
  proof (rule nth_equalityI)
    show "length (drop (?N - k) (branch h p)) = length (map Some (rev (path h p k)))"
      using assms(2,3) by (simp add: length_branch)
    fix i
    assume "i < length (drop (?N - k) (branch h p))"
    then have i: "i < k" using assms(2,3) by (simp add: length_branch)
    then have ex: "up (k - Suc i) h p \<noteq> None"
      using up_exists [OF assms(1,2), of "k - Suc i"] assms(3) pos by fastforce
    have "drop (?N - k) (branch h p) ! i = branch h p ! (?N - k + i)"
      using assms(2,3) i by (simp add: length_branch)
    also have "\<dots> = up (nat (bn_height nd) - (?N - k + i)) h p"
      using i assms(2,3) by (intro nth_branch) simp_all
    also have "nat (bn_height nd) - (?N - k + i) = k - Suc i" using i assms(3) by simp
    also have "up (k - Suc i) h p = map Some (rev (path h p k)) ! i"
      using i ex by (simp add: rev_nth) (simp add: path_def)
    finally show "drop (?N - k) (branch h p) ! i = map Some (rev (path h p k)) ! i" .
  qed
  then show ?thesis by (metis append_take_drop_id)
qed

lemma branch_take_common:
  assumes "wf_heap h" "h p = Some nd" "h q = Some qn" "h f = Some fn"
    and "up k h p = Some f" "up m h q = Some f"
  shows "take (Suc (nat (bn_height fn))) (branch h p) = take (Suc (nat (bn_height fn))) (branch h q)"
proof -
  have pos: "0 \<le> bn_height fn" using wf_heapD [OF assms(1,4)] by (simp add: wf_node_def)
  have hp: "bn_height fn = bn_height nd - int k" "bn_height fn = bn_height qn - int m"
    using up_heightD [OF assms(1,2,5)] up_heightD [OF assms(1,3,6)] assms(4) by auto
  have at: "branch h x ! i = up (nat (bn_height fn) - i) h f"
    if x: "h x = Some xn" "up j h x = Some f" "bn_height fn = bn_height xn - int j" "i \<le> nat (bn_height fn)"
    for x xn j i
  proof -
    have H: "nat (bn_height xn) - i = j + (nat (bn_height fn) - i)" using x(3,4) pos by simp
    have "branch h x ! i = up (nat (bn_height xn) - i) h x"
      using x pos by (intro nth_branch) simp_all
    then show ?thesis unfolding H up_add using x(2) by simp
  qed
  show ?thesis
    using at [OF assms(2,5) hp(1)] at [OF assms(3,6) hp(2)] hp pos assms(2,3)
    by (intro nth_equalityI) (simp_all add: length_branch)
qed

lemma tip_branch:
  assumes "h t = Some tn"
  shows "tip (branch h t) = Some t"
proof -
  have "branch h t ! nat (bn_height tn) = up (nat (bn_height tn) - nat (bn_height tn)) h t"
    by (rule nth_branch [where h = h, OF assms order_refl])
  then show ?thesis using assms by (simp add: tip_def length_branch)
qed

lemma steps_to_unique:
  assumes "wf_heap h" "h t = Some tn" "up m h t = Some f"
  shows "steps_to h (Some f) t m"
proof -
  have hf: "\<exists>fn. h f = Some fn \<and> bn_height fn = bn_height tn - int m"
    by (rule up_heightD [OF assms])
  have le: "int m \<le> bn_height tn"
    using up_beyond [OF assms(1,2), of m] assms(3) by (cases "int m \<le> bn_height tn") auto
  have "up j h t \<noteq> None \<and> up j h t \<noteq> Some f" if "j < m" for j
    using up_exists [OF assms(1,2), of j] that le hf by fastforce
  then show ?thesis using assms(3) by (simp add: steps_to_def)
qed

text \<open>The two paths to the fork, and the prefix both branches share.\<close>

lemma fork_paths:
  assumes wf: "wf_heap h" and t: "h t = Some tn" and p: "h p = Some nd"
    and r: "fork_point h (branch h t) p r"
  obtains k m where "steps_to h r p k" "steps_to h r t m"
    "m \<le> length (branch h t)"
    "branch h t = take (length (branch h t) - m) (branch h t) @ map Some (rev (path h t m))"
    "branch h p = take (length (branch h t) - m) (branch h t) @ map Some (rev (path h p k))"
proof -
  have post: "0 \<le> bn_height tn" "0 \<le> bn_height nd"
    using wf_heapD [OF wf t] wf_heapD [OF wf p] by (simp_all add: wf_node_def)
  have len: "length (branch h x) = Suc (nat (bn_height xn))" if "h x = Some xn" for x xn
    using that by (simp add: length_branch)
  show thesis
  proof (cases r)
    case None
    have root: "steps_to h None x (Suc (nat (bn_height xn)))" if x: "h x = Some xn" "0 \<le> bn_height xn" for x xn
    proof -
      have "up (Suc (nat (bn_height xn))) h x = None" using x by (intro up_beyond [OF wf x(1)]) simp
      moreover have "up j h x \<noteq> None" if "j < Suc (nat (bn_height xn))" for j
        using up_exists [OF wf x(1), of j] that x(2) by fastforce
      ultimately show ?thesis unfolding steps_to_def by blast
    qed
    show thesis
      using that [OF root [OF p post(2), folded None] root [OF t post(1), folded None]]
        branch_split [OF wf t order_refl] branch_split [OF wf p order_refl] len [OF t]
      by simp
  next
    case (Some f)
    from r Some obtain k where k: "in_view h (branch h t) f" "up k h p = Some f"
      by (auto simp: fork_point_def)
    obtain fn where f: "h f = Some fn" "bn_height fn = bn_height nd - int k"
      using up_heightD [OF wf p k(2)] by blast
    from k(1) obtain m where m: "up m h t = Some f"
      using contains_branch [OF wf t f(1)] by (auto simp: in_view_def)
    have fm: "bn_height fn = bn_height tn - int m" using up_heightD [OF wf t m] f(1) by auto
    have fpos: "0 \<le> bn_height fn" using wf_heapD [OF wf f(1)] by (simp add: wf_node_def)
    have cut: "Suc (nat (bn_height tn)) - m = Suc (nat (bn_height fn))"
      "Suc (nat (bn_height nd)) - k = Suc (nat (bn_height fn))"
      using fm f(2) fpos by simp_all
    have le: "m \<le> Suc (nat (bn_height tn))" "k \<le> Suc (nat (bn_height nd))" using fm f(2) fpos by simp_all
    have common: "take (Suc (nat (bn_height fn))) (branch h p) = take (Suc (nat (bn_height fn))) (branch h t)"
      by (rule branch_take_common [OF wf p t f(1) k(2) m])
    show thesis
    proof (rule that [of k m])
      show "steps_to h r p k" "steps_to h r t m"
        unfolding Some by (rule steps_to_unique [OF wf p k(2)], rule steps_to_unique [OF wf t m])
      show "branch h t = take (length (branch h t) - m) (branch h t) @ map Some (rev (path h t m))"
        using branch_split [OF wf t le(1)] len [OF t] by simp
      show "branch h p = take (length (branch h t) - m) (branch h t) @ map Some (rev (path h p k))"
        using branch_split [OF wf p le(2)] len [OF t] cut common by simp
    qed (use le len [OF t] in simp)
  qed
qed

lemma getReorganizeNodes_spec:
  assumes wf: "wf_heap h" and t: "h t = Some tn" and p: "h node = Some nd"
    and par: "bn_parent nd = Some q" "h q = Some qn" "\<not> KnownInvalid (bn_status qn)"
    and ok: "\<And>k x xn. up k h node = Some x \<Longrightarrow> h x = Some xn \<Longrightarrow> \<not> in_view h (branch h t) x \<Longrightarrow>
      \<not> KnownInvalid (bn_status xn)"
  shows "\<exists>detach attach. getReorganizeNodes h bi (branch h t) node = Some (h, bi, detach, attach) \<and>
    (let base = take (length (branch h t) - length detach) (branch h t) in
     branch h t = base @ map Some (rev detach) \<and> branch h node = base @ map Some attach)"
proof -
  obtain r where r: "findFork h (branch h t) (Some node) = Some r" "fork_point h (branch h t) node r"
    using findFork_fork_point [OF wf p] by blast
  obtain k m where km: "steps_to h r node k" "steps_to h r t m"
    "branch h t = take (length (branch h t) - m) (branch h t) @ map Some (rev (path h t m))"
    "branch h node = take (length (branch h t) - m) (branch h t) @ map Some (rev (path h node k))"
    by (rule fork_paths [OF wf t p r(2)])
  have "list_all (\<lambda>x. \<not> KnownInvalid (bn_status (the (h x)))) (path h node k)"
  proof (clarsimp simp: list_all_length)
    fix j
    assume j: "j < k" "KnownInvalid (bn_status (the (h (path h node k ! j))))"
    from km(1) j(1) obtain x where x: "up j h node = Some x" "Some x \<noteq> r"
      by (auto simp: steps_to_def)
    obtain xn where xn: "h x = Some xn" using up_heightD [OF wf p x(1)] by blast
    have "\<not> in_view h (branch h t) x"
    proof (cases r)
      case None
      with r(2) x(1) show ?thesis by (auto simp: fork_point_def)
    next
      case (Some f)
      with r(2) obtain k' where k': "up k' h node = Some f"
        "\<forall>j<k'. \<forall>q. up j h node = Some q \<longrightarrow> \<not> in_view h (branch h t) q"
        by (auto simp: fork_point_def)
      have "j < k'"
      proof (rule ccontr)
        assume "\<not> j < k'"
        then have "k' < k \<or> k' = k" using j(1) by simp
        then show False using km(1) k'(1) Some \<open>\<not> j < k'\<close> j(1) by (auto simp: steps_to_def)
      qed
      with k'(2) x(1) show ?thesis by blast
    qed
    with ok [OF x(1) xn] j x xn show False by (simp add: path_def)
  qed
  then have "attachLoop h r (Some node) [] = Some (False, rev (path h node k))"
    using attachLoop_path [OF wf p km(1)] by simp
  moreover have "detachLoop h r (tip (branch h t)) [] = Some (path h t m)"
    using detachLoop_path [OF wf t km(2)] by (simp add: tip_branch [where h = h, OF t])
  ultimately have "getReorganizeNodes h bi (branch h t) node =
      Some (h, bi, path h t m, rev (path h node k))"
    using p par r(1) by (simp add: getReorganizeNodes_def NodeStatus_def)
  with km(3,4) show ?thesis by (simp add: Let_def)
qed

section \<open>Block locators\<close>

lemma and_high_mask:
  fixes m :: uint32
  assumes "unat m < 2 ^ (2 * e)"
  shows "(m AND push_bit e (mask e) = 0) = (drop_bit e m = 0)"
proof -
  have "unat (take_bit (2 * e) m) = unat m"
    using assms by (simp only: unsigned_take_bit_eq take_bit_nat_eq_self)
  then have m: "take_bit (2 * e) m = m" by (simp only: word_unat_eq_iff)
  have high: "bit m n \<Longrightarrow> n < 2 * e" for n by (metis bit_take_bit_iff m)
  show ?thesis
  proof
    assume z: "m AND push_bit e (mask e) = 0"
    show "drop_bit e m = 0"
    proof (rule bit_eqI)
      fix n
      have "\<not> bit m (e + n)"
      proof
        assume b: "bit m (e + n)"
        then have "bit (m AND push_bit e (mask e)) (e + n)"
          using high [OF b] bit_imp_le_length [OF b] by (simp add: bit_simps)
        then show False by (simp add: z)
      qed
      then show "bit (drop_bit e m) n = bit 0 n" by (simp add: bit_simps)
    qed
  next
    assume d: "drop_bit e m = 0"
    have "\<not> bit m n" if "e \<le> n" for n
    proof -
      have "bit (drop_bit e m) (n - e) = bit m n" using that by (simp add: bit_drop_bit_eq)
      then show ?thesis by (simp add: d)
    qed
    then show "m AND push_bit e (mask e) = 0" by (auto simp: bit_eq_iff bit_simps)
  qed
qed

text \<open>One test of the binary search keeps the quotient of \<open>n\<close> by the power found so far.\<close>

definition log2_inv :: "uint32 \<Rightarrow> nat \<Rightarrow> byte \<times> nat \<times> uint32 \<Rightarrow> bool" where
  "log2_inv n e s \<longleftrightarrow>
     (\<exists>rv. fst s = word_of_nat rv \<and> rv + 2 * e \<le> 32 \<and> fst (snd s) = e \<and> snd (snd s) = drop_bit rv n \<and>
        drop_bit rv n \<noteq> 0 \<and> unat (drop_bit rv n) < 2 ^ (2 * e))"

lemma fastLog2Floor_step_inv:
  assumes "mask_i = push_bit e (mask e)" "log2_inv n e s" "2 * e' = e \<or> e = 1 \<and> e' = 0"
  shows "\<exists>rv. fst (fastLog2Floor_step mask_i s) = word_of_nat rv \<and> rv + e \<le> 32 \<and>
    fst (snd (fastLog2Floor_step mask_i s)) = e' \<and>
    snd (snd (fastLog2Floor_step mask_i s)) = drop_bit rv n \<and>
    drop_bit rv n \<noteq> 0 \<and> unat (drop_bit rv n) < 2 ^ e"
proof -
  obtain rv where s: "s = (word_of_nat rv, e, drop_bit rv n)" "rv + 2 * e \<le> 32"
    "drop_bit rv n \<noteq> 0" "unat (drop_bit rv n) < 2 ^ (2 * e)"
    using assms(2) by (cases s) (auto simp: log2_inv_def)
  have e': "e div 2 = e'" using assms(3) by auto
  show ?thesis
  proof (cases "drop_bit e (drop_bit rv n) = 0")
    case True
    have "unat (drop_bit rv n) div 2 ^ e = 0"
      using arg_cong [OF True, of unat] by (simp only: unat_drop_bit [of e] unsigned_0)
    then have "unat (drop_bit rv n) < 2 ^ e" by (simp add: div_eq_0_iff)
    with True s e' and_high_mask [OF s(4)] assms(1) show ?thesis
      by (intro exI [of _ rv]) (simp add: fastLog2Floor_step_def)
  next
    case False
    have "unat (drop_bit e (drop_bit rv n)) = unat (drop_bit rv n) div 2 ^ e"
      by (rule unat_drop_bit)
    also have "\<dots> < 2 ^ e"
      using s(4) by (intro less_mult_imp_div_less) (simp add: mult_2 power_add)
    finally have lt: "unat (drop_bit e (drop_bit rv n)) < 2 ^ e" .
    show ?thesis
      using False lt s(1,2) e' and_high_mask [OF s(4)] assms(1)
      by (intro exI [of _ "rv + e"]) (simp add: fastLog2Floor_step_def add.commute)
  qed
qed

lemma fastLog2Floor_floor:
  assumes "n \<noteq> 0"
  shows "unat n div 2 ^ unat (fastLog2Floor n) = 1"
proof -
  have masks: "(0xffff0000 :: uint32) = push_bit 16 (mask 16)" "(0xff00 :: uint32) = push_bit 8 (mask 8)"
    "(0xf0 :: uint32) = push_bit 4 (mask 4)" "(0xc :: uint32) = push_bit 2 (mask 2)"
    "(0x2 :: uint32) = push_bit 1 (mask 1)"
    by (simp_all add: mask_eq_exp_minus_1 push_bit_eq_mult)
  define s where "s = (0 :: byte, 16 :: nat, n)"
  have "log2_inv n 16 s"
    using assms unsigned_less [of n] by (auto simp: log2_inv_def s_def intro!: exI [of _ 0])
  note s1 = fastLog2Floor_step_inv [OF masks(1) this, of 8]
  have "log2_inv n 8 (fastLog2Floor_step 0xffff0000 s)" using s1 by (simp add: log2_inv_def)
  note s2 = fastLog2Floor_step_inv [OF masks(2) this, of 4]
  define a where "a = fastLog2Floor_step 0xff00 (fastLog2Floor_step 0xffff0000 s)"
  have "log2_inv n 4 a" using s2 by (simp add: log2_inv_def a_def)
  note s3 = fastLog2Floor_step_inv [OF masks(3) this, of 2]
  define b where "b = fastLog2Floor_step 0xf0 a"
  have "log2_inv n 2 b" using s3 by (simp add: log2_inv_def b_def)
  note s4 = fastLog2Floor_step_inv [OF masks(4) this, of 1]
  have "log2_inv n 1 (fastLog2Floor_step 0xc b)" using s4 by (simp add: log2_inv_def)
  note s5 = fastLog2Floor_step_inv [OF masks(5) this, of 0]
  have "fastLog2Floor n = fst (fastLog2Floor_step 0x2 (fastLog2Floor_step 0xc b))"
    by (simp add: fastLog2Floor_def s_def a_def b_def)
  with s5 obtain rv where rv: "fastLog2Floor n = word_of_nat rv" "rv \<le> 31"
    "drop_bit rv n \<noteq> 0" "unat (drop_bit rv n) < 2" by auto
  have "unat (fastLog2Floor n) = rv" using rv(1,2) by (simp add: unat_of_nat)
  moreover have "unat (drop_bit rv n) = 1"
    using rv(3,4) by (metis One_nat_def less_2_cases unsigned_eq_0_iff)
  then have "unat n div 2 ^ rv = 1" by (simp only: unat_drop_bit)
  ultimately show ?thesis by simp
qed

text \<open>
  How far below the first hash the \<open>i\<close>-th hash of a locator lies: ten single steps, then
  steps that double, and last the genesis block.
\<close>

definition locator_depth :: "nat \<Rightarrow> nat \<Rightarrow> nat" where
  "locator_depth H i = min H (if i < 10 then i else 9 + 2 ^ (i - 10))"

definition locator_step :: "nat \<Rightarrow> nat" where
  "locator_step i = (if i \<le> 10 then 1 else 2 ^ (i - 10))"

lemma locator_depth_Suc:
  assumes "locator_depth H i < H"
  shows "locator_depth H (Suc i) = min H (locator_depth H i + locator_step i)"
proof (cases "i < 10")
  case True
  then show ?thesis using assms by (auto simp: locator_depth_def locator_step_def)
next
  case False
  then have "Suc i - 10 = Suc (i - 10)" by simp
  moreover have "locator_step i = 2 ^ (i - 10)" using False by (simp add: locator_step_def)
  ultimately show ?thesis using assms False by (simp add: locator_depth_def)
qed

lemma maxEntries_spec:
  assumes "H < 2 ^ 31" and N: "N = unat (maxEntries (int H))"
  shows "0 < N" and "locator_depth H (N - 1) = H" and "i < N - 1 \<Longrightarrow> locator_depth H i < H"
proof -
  have "0 < N \<and> locator_depth H (N - 1) = H \<and> (\<forall>i<N - 1. locator_depth H i < H)"
  proof (cases "H \<le> 12")
    case True
    then have "N = unat (word_of_nat (H + 1) :: byte)" by (simp add: N maxEntries_def add.commute)
    also have "\<dots> = H + 1" using True by (subst unat_of_nat) simp
    finally have "N = H + 1" .
    moreover have small: "(if i < 10 then i else 9 + 2 ^ (i - 10)) = i" if "i < 12" for i :: nat
    proof (cases "i < 10")
      case False
      with that have "i = 10 \<or> i = 11" by arith
      then show ?thesis by auto
    qed simp
    ultimately show ?thesis
      using True by (cases "H = 12") (auto simp: locator_depth_def small simp del: if_split)
  next
    case False
    define a where "a = H - 10"
    define L where "L = unat (fastLog2Floor (word_of_nat a))"
    have un: "unat (word_of_nat a :: uint32) = H - 10"
      using assms(1) by (subst unat_of_nat) (simp add: a_def)
    then have "(word_of_nat a :: uint32) \<noteq> 0" using False by (intro notI) simp
    from fastLog2Floor_floor [OF this] have L: "(H - 10) div 2 ^ L = 1" by (simp add: L_def un)
    then have lo: "2 ^ L \<le> H - 10" by (metis div_less not_less zero_neq_one)
    have hi: "H - 10 < 2 ^ Suc L"
      using L dividend_less_times_div [of "2 ^ L" "H - 10"] by simp
    have "(2::nat) ^ L < 2 ^ 31" using lo assms(1) by linarith
    then have "L < 31" by (simp only: power_strict_increasing_iff)
    moreover have "(word_of_int (int H) - 10 :: uint32) = word_of_nat a"
      using False by (simp add: a_def of_nat_diff)
    then have "maxEntries (int H) = 12 + fastLog2Floor (word_of_nat a)"
      using False by (simp add: maxEntries_def)
    ultimately have N12: "N = 12 + L" unfolding N L_def by (simp add: unat_word_ariths)
    have "9 + 2 ^ (i - 10) < H" if "\<not> i < 10" "i < 11 + L" for i
    proof -
      have "(2::nat) ^ (i - 10) \<le> 2 ^ L" using that by (intro power_increasing) auto
      then show ?thesis using lo False by linarith
    qed
    moreover have "\<not> H \<le> i" if "i < 10" for i using that False by linarith
    ultimately show ?thesis using N12 hi False by (auto simp: locator_depth_def)
  qed
  then show "0 < N" "locator_depth H (N - 1) = H" "i < N - 1 \<Longrightarrow> locator_depth H i < H" by auto
qed

lemma valid_view_down_closed:
  "wf_heap h \<Longrightarrow> valid_view h nodes \<Longrightarrow> down_closed h nodes k"
  using branch_down_closed unfolding valid_view_def
  by (metis down_closed_def list.size(3) not_less_zero option.exhaust)

text \<open>Both ways of looking an ancestor up, in the view or by the skip list, agree.\<close>

lemma locator_lookup:
  assumes wf: "wf_heap h" and v: "valid_view h nodes" and q: "h q = Some qn"
    and ht: "0 \<le> ht" "ht \<le> bn_height qn"
  shows "(if in_view h nodes q then Some (nodes ! nat ht) else Ancestor h q ht) =
    Some (up (nat (bn_height qn - ht)) h q)"
proof (cases "in_view h nodes q")
  case True
  then have "nat (bn_height qn) < length nodes" "nodes ! nat (bn_height qn) = Some q"
    using q by (auto simp: in_view_def contains_def nodeByHeight_def split: if_splits)
  from down_closedD [OF valid_view_down_closed [OF wf v] lessI this] ht True show ?thesis
    by (simp add: nat_diff_distrib)
next
  case False
  with ht show ?thesis by (simp add: Ancestor_up [OF wf q])
qed

lemma locatorLoop_spec:
  assumes wf: "wf_heap h" and v: "valid_view h nodes" and p: "h p = Some nd"
    and H: "H = nat (bn_height nd)" "H < 2 ^ 31" and N: "N = unat (maxEntries (int H))"
  shows "i < N \<Longrightarrow> locatorLoop h nodes i (int (locator_step i)) (up (locator_depth H i) h p) =
    Some (map (\<lambda>j. the (up (locator_depth H j) h p)) [i..<N])"
proof (induction "N - i" arbitrary: i)
  case (Suc n)
  have pos: "0 \<le> bn_height nd" using wf_heapD [OF wf p] by (simp add: wf_node_def)
  have le: "locator_depth H j \<le> H" for j by (simp add: locator_depth_def)
  obtain q qn where q: "up (locator_depth H i) h p = Some q" "h q = Some qn"
    "bn_height qn = int H - int (locator_depth H i)"
    using up_exists [OF wf p, of "locator_depth H i"] le [of i] H(1) pos by (auto simp: le_nat_iff)
  show ?case
  proof (cases "locator_depth H i = H")
    case True
    then have "\<not> i < N - 1" using maxEntries_spec(3) [OF H(2) N] by force
    with Suc.prems have "[i..<N] = [i]" using Suc.hyps(2) by (simp add: upt_rec)
    with True q show ?thesis by (simp add: locatorLoop.simps [of h nodes i _ "Some q"])
  next
    case False
    then have lt: "locator_depth H i < H" using le [of i] by simp
    have i: "Suc i < N"
      using False Suc.prems maxEntries_spec(2) [OF H(2) N] by (cases "i = N - 1") auto
    let ?ht = "max 0 (bn_height qn - int (locator_step i))"
    have nz: "bn_height qn \<noteq> 0" using q(3) lt by simp
    have "0 \<le> ?ht" "?ht \<le> bn_height qn" using q(3) lt by auto
    note nxt = locator_lookup [OF wf v q(2) this]
    have "locator_depth H (Suc i) = locator_depth H i + nat (bn_height qn - ?ht)"
      using lt q(3) by (simp add: locator_depth_Suc)
    then have up: "up (nat (bn_height qn - ?ht)) h q = up (locator_depth H (Suc i)) h p"
      using q(1) by (simp add: up_add)
    have step: "(if i + 1 > 10 then int (locator_step i) * 2 else int (locator_step i)) = int (locator_step (Suc i))"
    proof (cases "10 \<le> i")
      case True
      then have "Suc i - 10 = Suc (i - 10)" by simp
      with True show ?thesis by (auto simp: locator_step_def simp del: Suc_diff_Suc diff_Suc_Suc)
    qed (simp add: locator_step_def)
    have "locatorLoop h nodes (i + 1) (int (locator_step (Suc i))) (up (locator_depth H (Suc i)) h p) =
        Some (map (\<lambda>j. the (up (locator_depth H j) h p)) [Suc i..<N])"
      using Suc.hyps(1) [of "Suc i"] Suc.hyps(2) i by simp
    then show ?thesis
      using q(1,2) nz nxt [unfolded up] step Suc.prems
      by (simp add: locatorLoop.simps [of h nodes i _ "Some q"] contains_total [where h = h, OF q(2)] upt_conv_Cons
          Let_def split del: if_split)
  qed
qed simp

lemma blockLocator_spec:
  assumes "wf_heap h" "valid_view h nodes" "h p = Some nd" "bn_height nd < 2 ^ 31"
  shows "blockLocator h nodes (Some p) =
    Some (map (\<lambda>i. bn_hash (the (h (the (up (locator_depth (nat (bn_height nd)) i) h p)))))
      [0..<unat (maxEntries (bn_height nd))])"
proof -
  let ?H = "nat (bn_height nd)"
  have pos: "0 \<le> bn_height nd" using wf_heapD [OF assms(1,3)] by (simp add: wf_node_def)
  have H: "?H < 2 ^ 31" using pos assms(4) by (simp add: nat_less_iff)
  have "locatorLoop h nodes 0 1 (Some p) =
      Some (map (\<lambda>j. the (up (locator_depth ?H j) h p)) [0..<unat (maxEntries (int ?H))])"
    using locatorLoop_spec [OF assms(1-3) refl H refl, of 0] maxEntries_spec(1) [OF H refl]
    by (simp add: locator_step_def locator_depth_def)
  moreover have "int (locator_depth ?H j) \<le> bn_height nd" for j
  proof -
    have "locator_depth ?H j \<le> ?H" by (simp add: locator_depth_def)
    then show ?thesis using pos by linarith
  qed
  then have "\<exists>k. h (the (up (locator_depth ?H j) h p)) = Some k" for j
    using up_exists [OF assms(1,3), of "locator_depth ?H j"] by auto
  then have "(case h (the (up (locator_depth ?H j) h p)) of Some k \<Rightarrow> bn_hash k | None \<Rightarrow> zeroHash) =
      bn_hash (the (h (the (up (locator_depth ?H j) h p))))" for j
    by (metis option.sel option.simps(5))
  ultimately show ?thesis using pos by (simp add: blockLocator_def comp_def)
qed

lemma view_next_branch:
  assumes wf: "wf_heap h" and p: "h p = Some nd" and q: "up k h p = Some q"
  shows "view_next h (branch h p) (Some q) = Some (if k = 0 then None else up (k - 1) h p)"
proof -
  obtain qn where qn: "h q = Some qn" "bn_height qn = bn_height nd - int k"
    using up_heightD [OF wf p q] by blast
  have pos: "0 \<le> bn_height qn" using wf_heapD [OF wf qn(1)] by (simp add: wf_node_def)
  have c: "contains h (branch h p) q = Some True"
    using contains_branch [OF wf p qn(1)] q by auto
  have "nodeByHeight (branch h p) (bn_height qn + 1) = (if k = 0 then None else up (k - 1) h p)"
  proof (cases "k = 0")
    case True
    with qn p pos show ?thesis by (simp add: nodeByHeight_def length_branch)
  next
    case False
    then have "nat (bn_height nd) - nat (bn_height qn + 1) = k - 1" using qn(2) pos by linarith
    moreover have "nat (bn_height qn + 1) \<le> nat (bn_height nd)" using qn(2) False pos by simp
    ultimately show ?thesis
      using False qn pos p nth_branch [where h = h, OF p, of "nat (bn_height qn + 1)"]
      by (simp add: nodeByHeight_def length_branch)
  qed
  with c qn(1) show ?thesis by (simp add: view_next_def)
qed

lemma findFork_common:
  assumes wf: "wf_heap h" and t: "h t = Some tn" and p: "h p = Some nd"
  shows "\<exists>r. findFork h (branch h t) (Some p) = Some r \<and>
    (\<forall>f. r = Some f \<longrightarrow> (\<exists>k. up k h p = Some f) \<and> (\<exists>m. up m h t = Some f)) \<and>
    (\<forall>q k m. up k h p = Some q \<longrightarrow> up m h t = Some q \<longrightarrow>
      (\<exists>f j. r = Some f \<and> up j h f = Some q))"
proof -
  obtain r where r: "findFork h (branch h t) (Some p) = Some r" "fork_point h (branch h t) p r"
    using findFork_fork_point [OF wf p] by blast
  have view: "in_view h (branch h t) q \<longleftrightarrow> (\<exists>m. up m h t = Some q)" if "up k h p = Some q" for k q
    using up_heightD [OF wf p that] contains_branch [OF wf t] by (auto simp: in_view_def)
  have "\<exists>f j. r = Some f \<and> up j h f = Some q" if q: "up k h p = Some q" "up m h t = Some q" for q k m
  proof -
    have iv: "in_view h (branch h t) q" using view q by blast
    with r(2) q(1) obtain f k' where f: "r = Some f" "up k' h p = Some f"
      "\<forall>j<k'. \<forall>q. up j h p = Some q \<longrightarrow> \<not> in_view h (branch h t) q"
      by (cases r) (auto simp: fork_point_def)
    have "k' \<le> k" using f(3) q(1) iv by (meson not_le)
    then have "up (k - k') h f = Some q" using q(1) f(2) up_add [of k' "k - k'" h p] by simp
    with f(1) show ?thesis by blast
  qed
  moreover have "(\<exists>k. up k h p = Some f) \<and> (\<exists>m. up m h t = Some f)" if "r = Some f" for f
    using r(2) that view by (auto simp: fork_point_def)
  ultimately show ?thesis using r(1) by blast
qed

section \<open>Properties\<close>

text \<open>
  C21: setting the tip of a view.  From any view of a branch, reusing its entries, the view
  afterwards shows exactly the branch of the new tip: at each height the ancestor of that
  height.  It contains a node iff the node is the tip or an ancestor of it, the next node
  after an entry is the entry above it, and the tip has no next node.
\<close>

theorem set_tip_shows_branch:
  assumes "wf_heap h" and "valid_view h nodes" and "h p = Some nd"
  shows "\<exists>view. setTip h nodes (Some p) = Some view \<and> valid_view h view \<and> tip view = Some p \<and>
    view_height view = bn_height nd \<and>
    (\<forall>i. 0 \<le> i \<and> i \<le> bn_height nd \<longrightarrow> nodeByHeight view i = up (nat (bn_height nd - i)) h p) \<and>
    (\<forall>q. h q \<noteq> None \<longrightarrow> contains h view q = Some (\<exists>k. up k h p = Some q)) \<and>
    (\<forall>k q. up k h p = Some q \<longrightarrow>
      view_next h view (Some q) = Some (if k = 0 then None else up (k - 1) h p))"
proof -
  have pos: "0 \<le> bn_height nd" using wf_heapD [OF assms(1,3)] by (simp add: wf_node_def)
  have "nodeByHeight (branch h p) i = up (nat (bn_height nd - i)) h p" if "0 \<le> i" "i \<le> bn_height nd" for i
    using that assms(3) by (simp add: nodeByHeight_def length_branch nth_branch nat_diff_distrib)
  then show ?thesis
    using setTip_branch [OF assms] valid_view_branch [where h = h, OF assms(3)] tip_branch [where h = h, OF assms(3)]
      contains_branch [OF assms(1,3)] view_next_branch [OF assms(1,3)] pos assms(3)
    by (intro exI [of _ "branch h p"]) (auto simp: view_height_def length_branch)
qed

lemma sample_branch: "branch sample_heap 2 = [Some 0, Some 1, Some 2]"
  by (simp add: branch_def up_numeral numeral_2_eq_2 [symmetric] upt_rec)

theorem set_tip_shows_branch_witness:
  "\<exists>view. setTip sample_heap [Some 0, Some 1, Some 2] (Some 4) = Some view \<and> tip view = Some 4 \<and>
     nodeByHeight view 1 = Some 1"
proof -
  have at: "sample_heap 4 = Some (sample_node (Some 3) 3 4)" by simp
  have "valid_view sample_heap [Some 0, Some 1, Some 2]"
    using valid_view_branch [of sample_heap 2] by (simp add: sample_branch)
  from set_tip_shows_branch [OF wf_sample_heap this at] obtain view where
    "setTip sample_heap [Some 0, Some 1, Some 2] (Some 4) = Some view" "tip view = Some 4"
    "\<forall>i. 0 \<le> i \<and> i \<le> 3 \<longrightarrow> nodeByHeight view i = up (nat (3 - i)) sample_heap 4" by auto
  moreover have "up 2 sample_heap 4 = Some 1" by (simp add: up_numeral)
  ultimately show ?thesis by auto
qed

text \<open>
  C23: finding a fork.  Against the view of the branch of a tip, the result for a node is a
  common ancestor of node and tip that every other common ancestor is below, and nil only
  if there is no common ancestor.
\<close>

theorem find_fork_last_common:
  assumes "wf_heap h" and "h t = Some tn" and "h p = Some nd"
  shows "\<exists>r. findFork h (branch h t) (Some p) = Some r \<and>
    (\<forall>f. r = Some f \<longrightarrow> (\<exists>k. up k h p = Some f) \<and> (\<exists>m. up m h t = Some f)) \<and>
    (\<forall>q k m. up k h p = Some q \<longrightarrow> up m h t = Some q \<longrightarrow>
      (\<exists>f j. r = Some f \<and> up j h f = Some q))"
  by (rule findFork_common [OF assms])

theorem find_fork_last_common_witness:
  "\<exists>f. findFork sample_heap [Some 0, Some 1, Some 2] (Some 4) = Some (Some f) \<and>
     (\<exists>k. up k sample_heap 4 = Some f) \<and> (\<exists>m. up m sample_heap 2 = Some f)"
proof -
  have at: "sample_heap 2 = Some (sample_node (Some 1) 2 2)" "sample_heap 4 = Some (sample_node (Some 3) 3 4)"
    by simp_all
  have "up 2 sample_heap 4 = Some 1" "up 1 sample_heap 2 = Some 1" by (simp_all add: up_numeral)
  with find_fork_last_common [OF wf_sample_heap at] show ?thesis unfolding sample_branch by metis
qed

text \<open>
  C25: the nodes of a reorganization.  For a view of the branch of the current tip and a
  node with no invalid block between it and the view, the nodes to detach are the end of
  the view from the tip down, the nodes to attach continue what remains of it, and the
  result is the branch of the new node; nothing is marked.
\<close>

theorem reorganize_reaches_branch:
  assumes "wf_heap h" and "h t = Some tn" and "h node = Some nd"
    and "bn_parent nd = Some q" and "h q = Some qn" and "\<not> KnownInvalid (bn_status qn)"
    and "\<And>k x xn. up k h node = Some x \<Longrightarrow> h x = Some xn \<Longrightarrow> \<not> in_view h (branch h t) x \<Longrightarrow>
      \<not> KnownInvalid (bn_status xn)"
  shows "\<exists>detach attach. getReorganizeNodes h bi (branch h t) node = Some (h, bi, detach, attach) \<and>
    (let base = take (length (branch h t) - length detach) (branch h t) in
     branch h t = base @ map Some (rev detach) \<and> branch h node = base @ map Some attach)"
  by (rule getReorganizeNodes_spec [OF assms]) assumption+

lemma sample_heap_valid: "sample_heap x = Some xn \<Longrightarrow> \<not> KnownInvalid (bn_status xn)"
  by (auto simp: sample_heap_def sample_node_def KnownInvalid_def
      split: if_splits)

theorem reorganize_reaches_branch_witness:
  "\<exists>detach attach. getReorganizeNodes sample_heap newBlockIndex [Some 0, Some 1, Some 2] 4 =
     Some (sample_heap, newBlockIndex, detach, attach) \<and>
     [Some 0, Some 1, Some 3, Some 4] = take (3 - length detach) [Some 0, Some 1, Some 2] @ map Some attach"
proof -
  have at: "sample_heap 2 = Some (sample_node (Some 1) 2 2)" "sample_heap 4 = Some (sample_node (Some 3) 3 4)"
    "bn_parent (sample_node (Some 3) 3 4) = Some 3" "sample_heap 3 = Some (sample_node (Some 1) 2 3)"
    by simp_all
  have "branch sample_heap 4 = [Some 0, Some 1, Some 3, Some 4]"
    by (simp add: branch_def up_numeral numeral_2_eq_2 [symmetric] upt_rec)
  moreover have "\<exists>detach attach. getReorganizeNodes sample_heap newBlockIndex (branch sample_heap 2) 4 =
      Some (sample_heap, newBlockIndex, detach, attach) \<and>
      (let base = take (length (branch sample_heap 2) - length detach) (branch sample_heap 2) in
       branch sample_heap 2 = base @ map Some (rev detach) \<and> branch sample_heap 4 = base @ map Some attach)"
    by (rule reorganize_reaches_branch [OF wf_sample_heap at sample_heap_valid [OF at(4)]])
      (rule sample_heap_valid)
  ultimately show ?thesis unfolding sample_branch Let_def by (auto simp: numeral_3_eq_3)
qed

text \<open>
  C24: block locators.  From any node, on the view or off it, the locator has exactly as many
  hashes as the code reserves room for; the hashes are those of the node's ancestors at
  depths 0 to 10, then 11, 13, 17 and so on with the distance doubling, and last of the
  genesis block.
\<close>

theorem block_locator_hashes:
  assumes "wf_heap h" and "valid_view h nodes" and "h p = Some nd" and "bn_height nd < 2 ^ 31"
  shows "blockLocator h nodes (Some p) =
    Some (map (\<lambda>i. bn_hash (the (h (the
        (up (min (nat (bn_height nd)) (if i < 10 then i else 9 + 2 ^ (i - 10))) h p)))))
      [0..<unat (maxEntries (bn_height nd))])"
  using blockLocator_spec [OF assms] by (simp only: locator_depth_def)

theorem block_locator_hashes_witness:
  "blockLocator sample_heap [Some 0, Some 1, Some 2] (Some 4) =
     Some [replicate 32 4, replicate 32 3, replicate 32 1, replicate 32 0]"
proof -
  have at: "sample_heap 4 = Some (sample_node (Some 3) 3 4)" by simp
  have "valid_view sample_heap [Some 0, Some 1, Some 2]"
    using valid_view_branch [of sample_heap 2] by (simp add: sample_branch)
  from block_locator_hashes [OF wf_sample_heap this at] show ?thesis
    by (simp add: maxEntries_def upt_rec up_numeral)
qed

end
