(* ===== verification/Threshold_State.thy ===== *)
theory Threshold_State
  imports Chain_View
begin

unbundle bit_operations_syntax

text \<open>
  Voting on rule changes (\<^verbatim>\<open>blockchain/thresholdstate.go\<close>, \<^verbatim>\<open>blockchain/versionbits.go\<close>,
  \<^verbatim>\<open>chaincfg/deployment_time_frame.go\<close>): the state machine of BIP 9 with the changes for speedy
  trials, evaluated window by window and cached by block hash.  The interface of condition checkers is a
  record of its methods; the condition of the checker for unknown rules changes the caches of the known ones, so
  it takes and returns a state.  \<open>None\<close> is a panic or a loop without end.\<close>

section \<open>The state machine\<close>

datatype ThresholdState = ThresholdDefined | ThresholdStarted | ThresholdLockedIn | ThresholdActive | ThresholdFailed

datatype threshold_error = CacheLookupFailed | DeploymentError nat | ErrNoBlockClock | NoPreviousNode

record 's thresholdConditionChecker =
  HasStarted :: "ptr \<Rightarrow> bool option"
  HasEnded :: "ptr \<Rightarrow> bool option"
  RuleChangeActivationThreshold :: uint32
  MinerConfirmationWindow :: uint32
  EligibleToActivate :: "ptr \<Rightarrow> bool option"
  IsSpeedy :: bool
  Condition :: "ptr \<Rightarrow> 's \<Rightarrow> ('s \<times> (threshold_error + bool)) option"

type_synonym thresholdStateCache = "hash \<rightharpoonup> ThresholdState"

definition Lookup :: "thresholdStateCache \<Rightarrow> hash \<Rightarrow> ThresholdState option" where
  "Lookup c hash = c hash"

definition cache_Update :: "thresholdStateCache \<Rightarrow> hash \<Rightarrow> ThresholdState \<Rightarrow> thresholdStateCache" where
  "cache_Update c hash state = c(hash \<mapsto> state)"

definition newThresholdCaches :: "nat \<Rightarrow> thresholdStateCache list" where
  "newThresholdCaches numCaches = replicate numCaches Map.empty"

text \<open>The votes in a window, from its last block backwards; a chain that is too short is a nil pointer.\<close>

primrec countVotes ::
    "nat \<Rightarrow> heap \<Rightarrow> 's thresholdConditionChecker \<Rightarrow> ptr option \<Rightarrow> 's \<Rightarrow> uint32 \<Rightarrow> ('s \<times> (threshold_error + uint32)) option" where
  "countVotes 0 h checker countNode s votes = Some (s, Inr votes)"
| "countVotes (Suc n) h checker countNode s votes =
     Option.bind countNode (\<lambda>p.
     Option.bind (h p) (\<lambda>nd.
     Option.bind (Condition checker p s) (\<lambda>(s, r).
       case r of
         Inl err \<Rightarrow> Some (s, Inl err)
       | Inr condition \<Rightarrow> countVotes n h checker (bn_parent nd) s (if condition then votes + 1 else votes))))"

definition thresholdStateTransition ::
    "heap \<Rightarrow> ThresholdState \<Rightarrow> ptr \<Rightarrow> 's thresholdConditionChecker \<Rightarrow> int \<Rightarrow> 's \<Rightarrow>
      ('s \<times> (threshold_error + ThresholdState)) option" where
  "thresholdStateTransition h state prevNode checker confirmationWindow s =
     (case state of
        ThresholdDefined \<Rightarrow>
          Option.bind (if IsSpeedy checker then Some False else HasEnded checker prevNode) (\<lambda>ended.
          if ended then Some (s, Inr ThresholdFailed)
          else
            Option.bind (HasStarted checker prevNode) (\<lambda>started.
              Some (s, Inr (if started then ThresholdStarted else state))))
      | ThresholdStarted \<Rightarrow>
          Option.bind (if IsSpeedy checker then Some False else HasEnded checker prevNode) (\<lambda>ended.
          if ended then Some (s, Inr ThresholdFailed)
          else
            Option.bind (countVotes (nat confirmationWindow) h checker (Some prevNode) s 0) (\<lambda>(s, r).
            case r of
              Inl err \<Rightarrow> Some (s, Inl err)
            | Inr votes \<Rightarrow>
                if votes \<ge> RuleChangeActivationThreshold checker then Some (s, Inr ThresholdLockedIn)
                else
                  Option.bind (if IsSpeedy checker then HasEnded checker prevNode else Some False) (\<lambda>ended.
                    Some (s, Inr (if ended then ThresholdFailed else state)))))
      | ThresholdLockedIn \<Rightarrow>
          Option.bind (EligibleToActivate checker prevNode) (\<lambda>eligible.
            Some (s, Inr (if \<not> eligible then ThresholdLockedIn else ThresholdActive)))
      | ThresholdActive \<Rightarrow> Some (s, Inr state)
      | ThresholdFailed \<Rightarrow> Some (s, Inr state))"

text \<open>The loop back to the last window whose state is known.\<close>

partial_function (option) neededLoop ::
    "heap \<Rightarrow> 's thresholdConditionChecker \<Rightarrow> int \<Rightarrow> ptr option \<Rightarrow> thresholdStateCache \<Rightarrow> ptr list \<Rightarrow>
      (ptr option \<times> thresholdStateCache \<times> ptr list) option" where
  "neededLoop h checker confirmationWindow prevNode cache neededStates =
     (case prevNode of
        None \<Rightarrow> Some (None, cache, neededStates)
      | Some p \<Rightarrow>
          Option.bind (h p) (\<lambda>nd.
          if Lookup cache (bn_hash nd) \<noteq> None then Some (prevNode, cache, neededStates)
          else
            Option.bind (HasStarted checker p) (\<lambda>started.
            if \<not> started then Some (prevNode, cache_Update cache (bn_hash nd) ThresholdDefined, neededStates)
            else
              Option.bind (RelativeAncestor h p confirmationWindow) (\<lambda>q.
                neededLoop h checker confirmationWindow q cache (neededStates @ [p])))))"

declare neededLoop.simps [code]

text \<open>The loop over the needed states, given oldest first.\<close>

fun stateLoop ::
    "heap \<Rightarrow> 's thresholdConditionChecker \<Rightarrow> int \<Rightarrow> ptr list \<Rightarrow> ThresholdState \<Rightarrow> thresholdStateCache \<Rightarrow> 's \<Rightarrow>
      ('s \<times> thresholdStateCache \<times> (threshold_error + ThresholdState)) option" where
  "stateLoop h checker confirmationWindow [] state cache s = Some (s, cache, Inr state)"
| "stateLoop h checker confirmationWindow (prevNode # nodes) state cache s =
     Option.bind (thresholdStateTransition h state prevNode checker confirmationWindow s) (\<lambda>(s, r).
       case r of
         Inl err \<Rightarrow> Some (s, cache, Inl err)
       | Inr state \<Rightarrow>
           Option.bind (h prevNode) (\<lambda>nd.
             stateLoop h checker confirmationWindow nodes state (cache_Update cache (bn_hash nd) state) s))"

text \<open>
  The remainder by the window is the one of Go for a height that is not negative; a window of zero
  blocks is a division by zero.\<close>

definition thresholdState ::
    "heap \<Rightarrow> ptr option \<Rightarrow> 's thresholdConditionChecker \<Rightarrow> thresholdStateCache \<Rightarrow> 's \<Rightarrow>
      ('s \<times> thresholdStateCache \<times> (threshold_error + ThresholdState)) option" where
  "thresholdState h prevNode checker cache s =
     (let confirmationWindow = sint (MinerConfirmationWindow checker) in
      case prevNode of
        None \<Rightarrow> Some (s, cache, Inr ThresholdDefined)
      | Some p \<Rightarrow>
          Option.bind (h p) (\<lambda>nd.
          if bn_height nd + 1 < confirmationWindow then Some (s, cache, Inr ThresholdDefined)
          else if confirmationWindow = 0 then None
          else
            Option.bind (Ancestor h p (bn_height nd - (bn_height nd + 1) mod \<bar>confirmationWindow\<bar>)) (\<lambda>prevNode.
            Option.bind (neededLoop h checker confirmationWindow prevNode cache []) (\<lambda>(prevNode, cache, neededStates).
            case prevNode of
              None \<Rightarrow> stateLoop h checker confirmationWindow (rev neededStates) ThresholdDefined cache s
            | Some q \<Rightarrow>
                Option.bind (h q) (\<lambda>qd.
                case Lookup cache (bn_hash qd) of
                  None \<Rightarrow> Some (s, cache, Inl CacheLookupFailed)
                | Some state \<Rightarrow> stateLoop h checker confirmationWindow (rev neededStates) state cache s)))))"

section \<open>Deployments\<close>

text \<open>A time is a number of seconds; the zero time is \<open>None\<close>.  The clock is nil before it is synchronized.\<close>

type_synonym BlockClock = "BlockHeader \<Rightarrow> (threshold_error + int) option"

definition Starter_HasStarted :: "BlockClock option \<Rightarrow> int option \<Rightarrow> BlockHeader \<Rightarrow> (threshold_error + bool) option" where
  "Starter_HasStarted blockClock startTime blkHeader =
     (case blockClock of
        None \<Rightarrow> Some (Inl ErrNoBlockClock)
      | Some clock \<Rightarrow>
          case startTime of
            None \<Rightarrow> Some (Inr True)
          | Some t \<Rightarrow>
              Option.bind (clock blkHeader) (\<lambda>r.
                case r of Inl err \<Rightarrow> Some (Inl err) | Inr medianTime \<Rightarrow> Some (Inr (medianTime > t \<or> medianTime = t))))"

definition Ender_HasEnded :: "BlockClock option \<Rightarrow> int option \<Rightarrow> BlockHeader \<Rightarrow> (threshold_error + bool) option" where
  "Ender_HasEnded blockClock endTime blkHeader =
     (case blockClock of
        None \<Rightarrow> Some (Inl ErrNoBlockClock)
      | Some clock \<Rightarrow>
          case endTime of
            None \<Rightarrow> Some (Inr False)
          | Some t \<Rightarrow>
              Option.bind (clock blkHeader) (\<lambda>r.
                case r of Inl err \<Rightarrow> Some (Inl err) | Inr medianTime \<Rightarrow> Some (Inr (medianTime > t \<or> medianTime = t))))"

record ConsensusDeployment =
  BitNumber :: byte
  MinActivationHeight :: uint32
  CustomActivationThreshold :: uint32
  dp_startTime :: "int option"
  dp_endTime :: "int option"

text \<open>
  What the checkers use of the chain: the nodes, the index, an address for the temporary node of the
  median time, and the parameters.\<close>

record BlockChain =
  bc_heap :: heap
  bc_index :: blockIndex
  bc_new :: ptr
  bc_RuleChangeActivationThreshold :: uint32
  bc_MinerConfirmationWindow :: uint32
  bc_Deployments :: "ConsensusDeployment list"

definition PastMedianTime :: "BlockChain \<Rightarrow> BlockClock" where
  "PastMedianTime b blockHeader =
     (case LookupNode (bc_index b) (bh_PrevBlock blockHeader) of
        None \<Rightarrow> Some (Inl NoPreviousNode)
      | Some prevNode \<Rightarrow>
          Option.bind (newBlockNode (bc_heap b) blockHeader (Some prevNode) (bc_new b)) (\<lambda>h.
          Option.bind (CalcPastMedianTime h (bc_new b)) (\<lambda>t. Some (Inr t))))"

definition noError :: "(threshold_error + bool) option \<Rightarrow> bool option" where
  "noError r = map_option (\<lambda>r. case r of Inl err \<Rightarrow> False | Inr v \<Rightarrow> v) r"

definition vbTopBits :: uint32 where
  "vbTopBits = 0x20000000"

abbreviation vbTopMask :: uint32 where
  "vbTopMask \<equiv> 0xe0000000"

definition deploymentChecker :: "BlockChain \<Rightarrow> ConsensusDeployment \<Rightarrow> 's thresholdConditionChecker" where
  "deploymentChecker b deployment =
     \<lparr>HasStarted = \<lambda>blkNode. Option.bind (Header (bc_heap b) blkNode) (\<lambda>header.
        noError (Starter_HasStarted (Some (PastMedianTime b)) (dp_startTime deployment) header)),
      HasEnded = \<lambda>blkNode. Option.bind (Header (bc_heap b) blkNode) (\<lambda>header.
        noError (Ender_HasEnded (Some (PastMedianTime b)) (dp_endTime deployment) header)),
      RuleChangeActivationThreshold =
        (if CustomActivationThreshold deployment \<noteq> 0 then CustomActivationThreshold deployment
         else bc_RuleChangeActivationThreshold b),
      MinerConfirmationWindow = bc_MinerConfirmationWindow b,
      EligibleToActivate = \<lambda>blkNode.
        if MinActivationHeight deployment = 0 then Some True
        else Option.bind (bc_heap b blkNode) (\<lambda>nd. Some (word_of_int (bn_height nd) + 1 \<ge> MinActivationHeight deployment)),
      IsSpeedy = (MinActivationHeight deployment \<noteq> 0 \<or> CustomActivationThreshold deployment \<noteq> 0),
      Condition = \<lambda>node s. Option.bind (bc_heap b node) (\<lambda>nd.
        Some (s, Inr (bn_version nd AND vbTopMask = vbTopBits \<and>
                      bn_version nd AND push_bit (unat (BitNumber deployment)) 1 \<noteq> 0)))\<rparr>"

text \<open>\<^verbatim>\<open>calcNextBlockVersion\<close>: the caches of the deployments change; fewer caches than deployments are an index out of range.\<close>

fun calcVersionLoop ::
    "BlockChain \<Rightarrow> ptr option \<Rightarrow> ConsensusDeployment list \<Rightarrow> thresholdStateCache list \<Rightarrow> uint32 \<Rightarrow>
      (thresholdStateCache list \<times> (threshold_error + uint32)) option" where
  "calcVersionLoop b prevNode [] caches expectedVersion = Some (caches, Inr expectedVersion)"
| "calcVersionLoop b prevNode (deployment # ds) [] expectedVersion = None"
| "calcVersionLoop b prevNode (deployment # ds) (cache # caches) expectedVersion =
     Option.bind (thresholdState (bc_heap b) prevNode (deploymentChecker b deployment) cache ()) (\<lambda>(_, cache, r).
       case r of
         Inl err \<Rightarrow> Some (cache # caches, Inl err)
       | Inr state \<Rightarrow>
           Option.bind
             (calcVersionLoop b prevNode ds caches
               (if state = ThresholdStarted \<or> state = ThresholdLockedIn
                then expectedVersion OR push_bit (unat (BitNumber deployment)) 1 else expectedVersion))
             (\<lambda>(caches, r). Some (cache # caches, r)))"

definition calcNextBlockVersion ::
    "BlockChain \<Rightarrow> ptr option \<Rightarrow> thresholdStateCache list \<Rightarrow> (thresholdStateCache list \<times> (threshold_error + uint32)) option" where
  "calcNextBlockVersion b prevNode deploymentCaches = calcVersionLoop b prevNode (bc_Deployments b) deploymentCaches vbTopBits"

definition bitConditionChecker :: "BlockChain \<Rightarrow> nat \<Rightarrow> thresholdStateCache list thresholdConditionChecker" where
  "bitConditionChecker b bitNum =
     \<lparr>HasStarted = \<lambda>_. Some True,
      HasEnded = \<lambda>_. Some False,
      RuleChangeActivationThreshold = bc_RuleChangeActivationThreshold b,
      MinerConfirmationWindow = bc_MinerConfirmationWindow b,
      EligibleToActivate = \<lambda>_. Some True,
      IsSpeedy = False,
      Condition = \<lambda>node deploymentCaches. Option.bind (bc_heap b node) (\<lambda>nd.
        let conditionMask = push_bit bitNum 1; version = bn_version nd in
        if version AND vbTopMask \<noteq> vbTopBits then Some (deploymentCaches, Inr False)
        else if version AND conditionMask = 0 then Some (deploymentCaches, Inr False)
        else
          Option.bind (calcNextBlockVersion b (bn_parent nd) deploymentCaches) (\<lambda>(deploymentCaches, r).
            case r of
              Inl err \<Rightarrow> Some (deploymentCaches, Inl err)
            | Inr expectedVersion \<Rightarrow> Some (deploymentCaches, Inr (expectedVersion AND conditionMask = 0))))\<rparr>"

definition deploymentState ::
    "BlockChain \<Rightarrow> ptr option \<Rightarrow> nat \<Rightarrow> thresholdStateCache list \<Rightarrow> (thresholdStateCache list \<times> (threshold_error + ThresholdState)) option" where
  "deploymentState b prevNode deploymentID deploymentCaches =
     (if deploymentID > length (bc_Deployments b) then Some (deploymentCaches, Inl (DeploymentError deploymentID))
      else if deploymentID \<ge> length (bc_Deployments b) \<or> deploymentID \<ge> length deploymentCaches then None
      else
        Option.bind
          (thresholdState (bc_heap b) prevNode (deploymentChecker b (bc_Deployments b ! deploymentID))
            (deploymentCaches ! deploymentID) ())
          (\<lambda>(_, cache, r). Some (deploymentCaches[deploymentID := cache], r)))"

definition IsDeploymentActive ::
    "BlockChain \<Rightarrow> ptr option \<Rightarrow> nat \<Rightarrow> thresholdStateCache list \<Rightarrow> (thresholdStateCache list \<times> (threshold_error + bool)) option" where
  "IsDeploymentActive b tipNode deploymentID deploymentCaches =
     Option.bind (deploymentState b tipNode deploymentID deploymentCaches) (\<lambda>(caches, r).
       Some (caches, case r of Inl err \<Rightarrow> Inl err | Inr state \<Rightarrow> Inr (state = ThresholdActive)))"

text \<open>\<^verbatim>\<open>warnUnknownRuleActivations\<close>, without the log: the caches and whether a warning was given.\<close>

fun warnLoop ::
    "BlockChain \<Rightarrow> ptr option \<Rightarrow> nat list \<Rightarrow> thresholdStateCache list \<Rightarrow> thresholdStateCache list \<Rightarrow> bool \<Rightarrow>
      (thresholdStateCache list \<times> thresholdStateCache list \<times> bool \<times> threshold_error option) option" where
  "warnLoop b parent [] warningCaches deploymentCaches warned = Some (warningCaches, deploymentCaches, warned, None)"
| "warnLoop b parent (bitNum # bits) warningCaches deploymentCaches warned =
     (if bitNum \<ge> length warningCaches then None
      else
        Option.bind (thresholdState (bc_heap b) parent (bitConditionChecker b bitNum) (warningCaches ! bitNum) deploymentCaches)
          (\<lambda>(deploymentCaches, cache, r).
            case r of
              Inl err \<Rightarrow> Some (warningCaches[bitNum := cache], deploymentCaches, warned, Some err)
            | Inr state \<Rightarrow>
                warnLoop b parent bits (warningCaches[bitNum := cache]) deploymentCaches (warned \<or> state = ThresholdActive)))"

abbreviation vbNumBits :: nat where
  "vbNumBits \<equiv> 29"

definition warnUnknownRuleActivations ::
    "BlockChain \<Rightarrow> ptr \<Rightarrow> thresholdStateCache list \<Rightarrow> thresholdStateCache list \<Rightarrow> bool \<Rightarrow>
      (thresholdStateCache list \<times> thresholdStateCache list \<times> bool \<times> threshold_error option) option" where
  "warnUnknownRuleActivations b node warningCaches deploymentCaches unknownRulesWarned =
     Option.bind (bc_heap b node) (\<lambda>nd.
       warnLoop b (bn_parent nd) [0..<vbNumBits] warningCaches deploymentCaches unknownRulesWarned)"

section \<open>The states of BIP 9\<close>

text \<open>The reference: the state after each window, computed forward from the first one without a cache.\<close>

definition nextState :: "bool \<Rightarrow> nat \<Rightarrow> bool \<Rightarrow> bool \<Rightarrow> bool \<Rightarrow> nat \<Rightarrow> ThresholdState \<Rightarrow> ThresholdState" where
  "nextState speedy threshold started ended eligible votes state =
     (case state of
        ThresholdDefined \<Rightarrow>
          if \<not> speedy \<and> ended then ThresholdFailed else if started then ThresholdStarted else ThresholdDefined
      | ThresholdStarted \<Rightarrow>
          if \<not> speedy \<and> ended then ThresholdFailed
          else if threshold \<le> votes then ThresholdLockedIn
          else if ended then ThresholdFailed
          else ThresholdStarted
      | ThresholdLockedIn \<Rightarrow> if eligible then ThresholdActive else ThresholdLockedIn
      | _ \<Rightarrow> state)"

text \<open>The node of the chain of \<open>p\<close> at a height.\<close>

definition nodeAt :: "heap \<Rightarrow> ptr \<Rightarrow> nat \<Rightarrow> ptr" where
  "nodeAt h p height = the (up (nat (bn_height (the (h p))) - height) h p)"

definition nodeHeight :: "heap \<Rightarrow> ptr \<Rightarrow> nat" where
  "nodeHeight h p = nat (bn_height (the (h p)))"

definition votesIn :: "heap \<Rightarrow> (ptr \<Rightarrow> bool) \<Rightarrow> nat \<Rightarrow> ptr \<Rightarrow> nat" where
  "votesIn h voted window p = length (filter (\<lambda>k. voted (the (up k h p))) [0..<window])"

primrec windowState :: "heap \<Rightarrow> nat \<Rightarrow> (ptr \<Rightarrow> ThresholdState \<Rightarrow> ThresholdState) \<Rightarrow> ptr \<Rightarrow> nat \<Rightarrow> ThresholdState" where
  "windowState h window step p 0 = ThresholdDefined"
| "windowState h window step p (Suc m) = step (nodeAt h p (Suc m * window - 1)) (windowState h window step p m)"

definition chainState :: "heap \<Rightarrow> nat \<Rightarrow> (ptr \<Rightarrow> ThresholdState \<Rightarrow> ThresholdState) \<Rightarrow> ptr \<Rightarrow> ThresholdState" where
  "chainState h window step p = windowState h window step p ((nodeHeight h p + 1) div window)"

lemma nodeAt_height:
  assumes "wf_heap h" "h p = Some nd" "height \<le> nodeHeight h p"
  shows "\<exists>md. h (nodeAt h p height) = Some md \<and> bn_height md = int height \<and>
    up (nodeHeight h p - height) h p = Some (nodeAt h p height)"
proof -
  have "0 \<le> bn_height nd" using wf_heapD [OF assms(1,2)] by (simp add: wf_node_def)
  moreover from this have "\<exists>q m. up (nodeHeight h p - height) h p = Some q \<and> h q = Some m \<and>
      bn_height m = bn_height nd - int (nodeHeight h p - height)"
    by (intro up_exists [OF assms(1,2)]) (simp add: nodeHeight_def assms(2))
  ultimately show ?thesis using assms(2,3) by (auto simp: nodeAt_def nodeHeight_def)
qed

lemma nodeAt_self: "nodeAt h p (nodeHeight h p) = p"
  by (simp add: nodeAt_def nodeHeight_def)

lemma nodeAt_nodeAt:
  assumes "wf_heap h" "h p = Some nd" "i \<le> j" "j \<le> nodeHeight h p"
  shows "nodeAt h (nodeAt h p j) i = nodeAt h p i"
proof -
  from nodeAt_height [OF assms(1,2,4)] obtain md where
    md: "h (nodeAt h p j) = Some md" "bn_height md = int j" "up (nodeHeight h p - j) h p = Some (nodeAt h p j)" by blast
  then have "nodeHeight h (nodeAt h p j) = j" by (simp add: nodeHeight_def)
  with md nodeAt_height [OF assms(1) md(1), of i] assms(3)
  have "up (j - i) h (nodeAt h p j) = Some (nodeAt h (nodeAt h p j) i)" by auto
  with md(3) have "up ((nodeHeight h p - j) + (j - i)) h p = Some (nodeAt h (nodeAt h p j) i)" by (simp add: up_add)
  moreover have "(nodeHeight h p - j) + (j - i) = nodeHeight h p - i" using assms(3,4) by simp
  ultimately show ?thesis
    using nodeAt_height [OF assms(1,2), of i] assms(3,4) by auto
qed

lemma windowState_prefix:
  assumes "wf_heap h" "h p = Some nd" "j \<le> nodeHeight h p" "m * window \<le> Suc j"
  shows "windowState h window step (nodeAt h p j) m = windowState h window step p m"
  using assms(4)
proof (induction m)
  case (Suc m)
  then have "Suc m * window - 1 \<le> j" "m * window \<le> Suc j" by simp_all
  with Suc.IH nodeAt_nodeAt [OF assms(1,2) _ assms(3)] show ?case by simp
qed simp

section \<open>What the state machine relies on\<close>

text \<open>
  The interface of condition checkers.  An environment \<open>e\<close> that is \<open>ok\<close> has a well-formed tree of blocks with different
  hashes and a window; in it the methods return, what they return depends on the node only, a deployment
  that has started stays started, and one that has ended has started.  The state that the condition
  changes keeps an invariant.\<close>

locale threshold_checker =
  fixes ok :: "'e \<Rightarrow> bool" and nodes :: "'e \<Rightarrow> heap" and checker :: "'e \<Rightarrow> 's thresholdConditionChecker"
    and inv :: "'e \<Rightarrow> 's \<Rightarrow> bool"
    and started ended eligible voted :: "'e \<Rightarrow> ptr \<Rightarrow> bool"
  assumes wf: "ok e \<Longrightarrow> wf_heap (nodes e)"
    and window_pos: "ok e \<Longrightarrow> 0 < sint (MinerConfirmationWindow (checker e))"
    and unique: "ok e \<Longrightarrow> nodes e p = Some nd \<Longrightarrow> nodes e q = Some md \<Longrightarrow> bn_hash nd = bn_hash md \<Longrightarrow> p = q"
    and HasStarted: "ok e \<Longrightarrow> nodes e p = Some nd \<Longrightarrow> HasStarted (checker e) p = Some (started e p)"
    and HasEnded: "ok e \<Longrightarrow> nodes e p = Some nd \<Longrightarrow> HasEnded (checker e) p = Some (ended e p)"
    and EligibleToActivate: "ok e \<Longrightarrow> nodes e p = Some nd \<Longrightarrow> EligibleToActivate (checker e) p = Some (eligible e p)"
    and Condition: "ok e \<Longrightarrow> nodes e p = Some nd \<Longrightarrow> inv e s \<Longrightarrow>
      \<exists>s'. Condition (checker e) p s = Some (s', Inr (voted e p)) \<and> inv e s'"
    and started_mono: "ok e \<Longrightarrow> nodes e p = Some nd \<Longrightarrow> bn_parent nd = Some q \<Longrightarrow> started e q \<Longrightarrow> started e p"
    and ended_started: "ok e \<Longrightarrow> nodes e p = Some nd \<Longrightarrow> ended e p \<Longrightarrow> started e p"
begin

definition window :: "'e \<Rightarrow> nat" where
  "window e = nat (sint (MinerConfirmationWindow (checker e)))"

definition step :: "'e \<Rightarrow> ptr \<Rightarrow> ThresholdState \<Rightarrow> ThresholdState" where
  "step e p = nextState (IsSpeedy (checker e)) (unat (RuleChangeActivationThreshold (checker e))) (started e p) (ended e p)
     (eligible e p) (votesIn (nodes e) (voted e) (window e) p)"

definition state :: "'e \<Rightarrow> ptr \<Rightarrow> ThresholdState" where
  "state e p = chainState (nodes e) (window e) (step e) p"

text \<open>Every cached state is the state of the block that the hash names.\<close>

definition sound :: "'e \<Rightarrow> thresholdStateCache \<Rightarrow> bool" where
  "sound e cache \<longleftrightarrow> (\<forall>p nd st. nodes e p = Some nd \<longrightarrow> cache (bn_hash nd) = Some st \<longrightarrow> st = state e p)"

lemma sound_empty: "sound e Map.empty"
  by (simp add: sound_def)

lemma sound_update:
  assumes "ok e" "sound e cache" "nodes e p = Some nd" "st = state e p"
  shows "sound e (cache_Update cache (bn_hash nd) st)"
proof -
  have "st' = state e q"
    if "nodes e q = Some md" "(cache(bn_hash nd \<mapsto> st)) (bn_hash md) = Some st'" for q md st'
  proof (cases "bn_hash md = bn_hash nd")
    case True
    with unique [OF assms(1) that(1) assms(3)] that assms(4) show ?thesis by simp
  next
    case False
    with that assms(2) show ?thesis by (simp add: sound_def)
  qed
  then show ?thesis by (simp add: sound_def cache_Update_def del: fun_upd_apply)
qed

lemma window_gt0: "ok e \<Longrightarrow> 0 < window e"
  using window_pos [of e] by (simp add: window_def)

lemma window_int: "ok e \<Longrightarrow> sint (MinerConfirmationWindow (checker e)) = int (window e)"
  using window_pos [of e] by (simp add: window_def)

lemma countVotes_votesIn:
  assumes "ok e" "inv e s" "nodes e p = Some nd" "int n \<le> bn_height nd + 1"
  shows "\<exists>s'. inv e s' \<and> countVotes n (nodes e) (checker e) (Some p) s c =
    Some (s', Inr (c + word_of_nat (votesIn (nodes e) (voted e) n p)))"
proof -
  have "\<exists>s'. inv e s' \<and> countVotes n (nodes e) (checker e) (Some p) s c =
      Some (s', Inr (c + word_of_nat (length (filter (\<lambda>k. voted e (the (up k (nodes e) p))) [0..<n]))))"
    using assms(2-)
  proof (induction n arbitrary: p nd s c)
    case (Suc n)
    from Condition [OF assms(1) Suc.prems(2,1)] obtain s1 where
      s1: "Condition (checker e) p s = Some (s1, Inr (voted e p))" "inv e s1" by blast
    define c1 where "c1 = (if voted e p then c + 1 else c)"
    have up: "filter (\<lambda>k. voted e (the (up k (nodes e) p))) [0..<Suc n] =
        (if voted e p then [0] else []) @ map Suc (filter (\<lambda>k. voted e (the (up (Suc k) (nodes e) p))) [0..<n])"
      by (simp add: upt_conv_Cons filter_map comp_def flip: map_Suc_upt del: upt_Suc)
    have len: "length (filter (\<lambda>k. voted e (the (up k (nodes e) p))) [0..<Suc n]) =
        (if voted e p then 1 else 0) + length (filter (\<lambda>k. voted e (the (up (Suc k) (nodes e) p))) [0..<n])"
      unfolding up by simp
    show ?case
    proof (cases "bn_parent nd")
      case None
      then have "bn_height nd = 0" using wf_heapD [OF wf [OF assms(1)] Suc.prems(2)] by (simp add: wf_node_def)
      with Suc.prems(3) have "n = 0" by simp
      with Suc.prems s1 show ?thesis by (simp add: len del: upt_Suc)
    next
      case (Some q)
      with wf_heapD [OF wf [OF assms(1)] Suc.prems(2)] obtain md where
        md: "nodes e q = Some md" "bn_height nd = bn_height md + 1"
        by (auto simp: wf_node_def split: option.splits)
      have "int n \<le> bn_height md + 1" using Suc.prems(3) md(2) by simp
      from Suc.IH [OF s1(2) md(1) this, of c1] obtain s2 where
        s2: "inv e s2" "countVotes n (nodes e) (checker e) (Some q) s1 c1 =
          Some (s2, Inr (c1 + word_of_nat (length (filter (\<lambda>k. voted e (the (up k (nodes e) q))) [0..<n]))))" by blast
      have "up (Suc k) (nodes e) p = up k (nodes e) q" for k using Suc.prems(2) Some by simp
      with s2 s1(1) Suc.prems(2) Some show ?thesis
        by (intro exI [of _ s2]) (simp add: len c1_def del: upt_Suc up.simps)
    qed
  qed simp
  then show ?thesis by (simp add: votesIn_def)
qed

lemma window_bound: "window e < 2 ^ 32"
proof -
  have "sint (MinerConfirmationWindow (checker e)) < 2 ^ 31" using sint_lt [of "MinerConfirmationWindow (checker e)"] by simp
  then show ?thesis by (simp add: window_def nat_less_iff)
qed

lemma transition_step:
  assumes "ok e" "inv e s" "nodes e p = Some nd" "int (window e) \<le> bn_height nd + 1"
  shows "\<exists>s'. inv e s' \<and> thresholdStateTransition (nodes e) st p (checker e) (int (window e)) s = Some (s', Inr (step e p st))"
proof -
  from countVotes_votesIn [OF assms, of 0] obtain s1 where s1: "inv e s1"
    "countVotes (window e) (nodes e) (checker e) (Some p) s 0 = Some (s1, Inr (word_of_nat (votesIn (nodes e) (voted e) (window e) p)))"
    by auto
  have "votesIn (nodes e) (voted e) (window e) p \<le> window e"
    unfolding votesIn_def by (rule order_trans [OF length_filter_le]) simp
  then have "votesIn (nodes e) (voted e) (window e) p < 2 ^ 32" using window_bound [of e] by (rule le_less_trans)
  then have le: "RuleChangeActivationThreshold (checker e) \<le> word_of_nat (votesIn (nodes e) (voted e) (window e) p) \<longleftrightarrow>
      unat (RuleChangeActivationThreshold (checker e)) \<le> votesIn (nodes e) (voted e) (window e) p"
    by (simp add: word_le_nat_alt unat_of_nat)
  note laws = HasStarted [OF assms(1,3)] HasEnded [OF assms(1,3)] EligibleToActivate [OF assms(1,3)]
  show ?thesis
  proof (cases st)
    case ThresholdStarted
    with s1 laws le assms(2) show ?thesis
      by (cases "IsSpeedy (checker e)"; cases "ended e p") (auto simp: thresholdStateTransition_def step_def nextState_def)
  qed (use laws assms(2) in \<open>auto simp: thresholdStateTransition_def step_def nextState_def\<close>)
qed

text \<open>The last block of the \<open>m\<close>-th window of the chain of \<open>p\<close>.\<close>

definition windowEnd :: "'e \<Rightarrow> ptr \<Rightarrow> nat \<Rightarrow> ptr" where
  "windowEnd e p m = nodeAt (nodes e) p (m * window e - 1)"

lemma windowEnd_facts:
  assumes "ok e" "nodes e p = Some nd" "0 < m" "m * window e \<le> Suc (nodeHeight (nodes e) p)"
  shows "\<exists>md. nodes e (windowEnd e p m) = Some md \<and> bn_height md = int (m * window e) - 1"
    and "state e (windowEnd e p m) = windowState (nodes e) (window e) (step e) p m"
    and "int (window e) \<le> int (m * window e)"
    and "nodeHeight (nodes e) (windowEnd e p m) = m * window e - 1"
proof -
  note w = window_gt0 [OF assms(1)]
  with assms(3) have pos: "0 < m * window e" by simp
  have ht: "m * window e - 1 \<le> nodeHeight (nodes e) p" using assms(4) by simp
  from nodeAt_height [OF wf [OF assms(1)] assms(2) ht] obtain md where
    md: "nodes e (windowEnd e p m) = Some md" "bn_height md = int (m * window e - 1)" by (auto simp: windowEnd_def)
  with pos show "\<exists>md. nodes e (windowEnd e p m) = Some md \<and> bn_height md = int (m * window e) - 1"
    by (intro exI [of _ md]) (simp add: of_nat_diff)
  show "nodeHeight (nodes e) (windowEnd e p m) = m * window e - 1" using md by (simp add: nodeHeight_def)
  then have "(nodeHeight (nodes e) (windowEnd e p m) + 1) div window e = m" using pos w by simp
  then show "state e (windowEnd e p m) = windowState (nodes e) (window e) (step e) p m"
    using windowState_prefix [OF wf [OF assms(1)] assms(2) ht, of m "window e" "step e"] pos
    by (simp add: state_def chainState_def windowEnd_def)
  have "window e \<le> m * window e" using assms(3) by (cases m) simp_all
  then show "int (window e) \<le> int (m * window e)" by (simp only: of_nat_le_iff)
qed

lemma started_up:
  assumes "ok e" "nodes e p = Some nd" "up k (nodes e) p = Some q" "started e q"
  shows "started e p"
  using assms(2,3)
proof (induction k arbitrary: p nd)
  case 0
  then show ?case using assms(4) by simp
next
  case (Suc k)
  then obtain r where r: "bn_parent nd = Some r" "up k (nodes e) r = Some q" by (auto split: bind_splits)
  with wf_heapD [OF wf [OF assms(1)] Suc.prems(1)] obtain md where "nodes e r = Some md"
    by (auto simp: wf_node_def split: option.splits)
  from Suc.IH [OF this r(2)] started_mono [OF assms(1) Suc.prems(1) r(1)] show ?case by simp
qed

lemma not_started_defined:
  assumes "ok e" "nodes e p = Some nd" "\<not> started e p" "m * window e \<le> Suc (nodeHeight (nodes e) p)"
  shows "windowState (nodes e) (window e) (step e) p m = ThresholdDefined"
  using assms(4)
proof (induction m)
  case (Suc m)
  let ?q = "nodeAt (nodes e) p (Suc m * window e - 1)"
  have "Suc m * window e - 1 \<le> nodeHeight (nodes e) p" using Suc.prems by simp
  from nodeAt_height [OF wf [OF assms(1)] assms(2) this] obtain md where
    q: "nodes e ?q = Some md" "up (nodeHeight (nodes e) p - (Suc m * window e - 1)) (nodes e) p = Some ?q" by blast
  from started_up [OF assms(1,2) q(2)] assms(3) have "\<not> started e ?q" by blast
  moreover from this ended_started [OF assms(1) q(1)] have "\<not> ended e ?q" by blast
  ultimately show ?case using Suc by (simp add: step_def nextState_def)
qed simp

lemma previous_window:
  assumes "ok e" "nodes e p = Some nd" "Suc m * window e \<le> Suc (nodeHeight (nodes e) p)"
  shows "RelativeAncestor (nodes e) (windowEnd e p (Suc m)) (int (window e)) = Some (if m = 0 then None else Some (windowEnd e p m))"
proof -
  note w = window_gt0 [OF assms(1)]
  from windowEnd_facts(1) [OF assms(1,2) _ assms(3)] obtain md where
    md: "nodes e (windowEnd e p (Suc m)) = Some md" "bn_height md = int (Suc m * window e) - 1" by auto
  show ?thesis
  proof (cases m)
    case 0
    with md show ?thesis by (simp add: RelativeAncestor_def Ancestor_def)
  next
    case (Suc k)
    have ht: "Suc m * window e - 1 \<le> nodeHeight (nodes e) p" using assms(3) by simp
    have pos: "0 < m * window e" using Suc w by simp
    note self = windowEnd_facts(4) [OF assms(1,2) zero_less_Suc assms(3)]
    have "m * window e - 1 \<le> Suc m * window e - 1" by simp
    from nodeAt_nodeAt [OF wf [OF assms(1)] assms(2) this ht]
    have "nodeAt (nodes e) (windowEnd e p (Suc m)) (m * window e - 1) = windowEnd e p m" by (simp add: windowEnd_def)
    moreover have "m * window e - 1 \<le> nodeHeight (nodes e) (windowEnd e p (Suc m))" by (simp add: self)
    ultimately have "up (nodeHeight (nodes e) (windowEnd e p (Suc m)) - (m * window e - 1)) (nodes e) (windowEnd e p (Suc m)) = Some (windowEnd e p m)"
      using nodeAt_height [OF wf [OF assms(1)] md(1)] by metis
    moreover have "nodeHeight (nodes e) (windowEnd e p (Suc m)) - (m * window e - 1) = window e" using self pos by simp
    moreover have ht2: "bn_height md - int (window e) = int (m * window e) - 1" using md(2) by simp
    moreover have "nat (bn_height md - (int (m * window e) - 1)) = window e" using ht2 by simp
    moreover have "0 \<le> int (m * window e) - 1" "int (m * window e) - 1 \<le> bn_height md" using pos ht2 by linarith+
    ultimately have "Ancestor (nodes e) (windowEnd e p (Suc m)) (bn_height md - int (window e)) = Some (Some (windowEnd e p m))"
      unfolding Ancestor_up [OF wf [OF assms(1)] md(1)] by (simp del: mult_Suc of_nat_mult)
    then show ?thesis using md(1) Suc by (simp add: RelativeAncestor_def)
  qed
qed

lemma neededLoop_spec:
  assumes "ok e" "nodes e p = Some nd" "sound e cache" "m * window e \<le> Suc (nodeHeight (nodes e) p)"
  shows "\<exists>j cache'. j \<le> m \<and>
    neededLoop (nodes e) (checker e) (int (window e)) (if m = 0 then None else Some (windowEnd e p m)) cache ns =
      Some (if j = 0 then None else Some (windowEnd e p j), cache', ns @ map (windowEnd e p) (rev [Suc j..<Suc m])) \<and>
    sound e cache' \<and>
    (0 < j \<longrightarrow> (\<exists>md. nodes e (windowEnd e p j) = Some md \<and> cache' (bn_hash md) = Some (windowState (nodes e) (window e) (step e) p j)))"
  using assms(4)
proof (induction m arbitrary: ns)
  case 0
  then show ?case using assms(3) by (intro exI [of _ 0] exI [of _ cache]) (simp add: neededLoop.simps)
next
  case (Suc m)
  note we = windowEnd_facts [OF assms(1,2) zero_less_Suc Suc.prems]
  from we(1) obtain md where md: "nodes e (windowEnd e p (Suc m)) = Some md" by blast
  note st = HasStarted [OF assms(1) md]
  show ?case
  proof (cases "cache (bn_hash md)")
    case (Some state1)
    with assms(3) md we(2) have "state1 = windowState (nodes e) (window e) (step e) p (Suc m)" by (simp add: sound_def del: windowState.simps)
    with Some md assms(3) show ?thesis
      by (intro exI [of _ "Suc m"] exI [of _ cache]) (simp add: neededLoop.simps [of _ _ _ "Some (windowEnd e p (Suc m))"] Lookup_def del: windowState.simps upt_Suc)
  next
    case None
    show ?thesis
    proof (cases "started e (windowEnd e p (Suc m))")
      case False
      have nh: "Suc m * window e \<le> Suc (nodeHeight (nodes e) (windowEnd e p (Suc m)))" unfolding we(4) by simp
      have "windowState (nodes e) (window e) (step e) p (Suc m) = ThresholdDefined"
        using not_started_defined [OF assms(1) md False nh]
          windowState_prefix [OF wf [OF assms(1)] assms(2), of "Suc m * window e - 1" "Suc m" "window e" "step e"] Suc.prems
        by (simp add: windowEnd_def del: windowState.simps mult_Suc)
      then show ?thesis
        using None md st False sound_update [OF assms(1,3) md] we(2)
        by (intro exI [of _ "Suc m"] exI [of _ "cache_Update cache (bn_hash md) ThresholdDefined"])
          (simp add: neededLoop.simps [of _ _ _ "Some (windowEnd e p (Suc m))"] Lookup_def del: windowState.simps upt_Suc,
            simp add: cache_Update_def)
    next
      case True
      have "m * window e \<le> Suc (nodeHeight (nodes e) p)" using Suc.prems by simp
      from Suc.IH [OF this, of "ns @ [windowEnd e p (Suc m)]"] obtain j cache' where
        j: "j \<le> m" "sound e cache'"
          "0 < j \<longrightarrow> (\<exists>md. nodes e (windowEnd e p j) = Some md \<and> cache' (bn_hash md) = Some (windowState (nodes e) (window e) (step e) p j))"
        and loop: "neededLoop (nodes e) (checker e) (int (window e)) (if m = 0 then None else Some (windowEnd e p m)) cache (ns @ [windowEnd e p (Suc m)]) =
          Some (if j = 0 then None else Some (windowEnd e p j), cache', (ns @ [windowEnd e p (Suc m)]) @ map (windowEnd e p) (rev [Suc j..<Suc m]))"
        by blast
      have "neededLoop (nodes e) (checker e) (int (window e)) (Some (windowEnd e p (Suc m))) cache ns =
          neededLoop (nodes e) (checker e) (int (window e)) (if m = 0 then None else Some (windowEnd e p m)) cache (ns @ [windowEnd e p (Suc m)])"
        using None md st True previous_window [OF assms(1,2) Suc.prems]
        by (simp add: neededLoop.simps [of _ _ _ "Some (windowEnd e p (Suc m))"] Lookup_def)
      moreover have "[Suc j..<Suc (Suc m)] = [Suc j..<Suc m] @ [Suc m]" using j(1) by simp
      ultimately show ?thesis using j loop by (intro exI [of _ j] exI [of _ cache']) (simp del: upt_Suc)
    qed
  qed
qed

lemma stateLoop_spec:
  assumes "ok e" "nodes e p = Some nd" "m * window e \<le> Suc (nodeHeight (nodes e) p)"
    and "j \<le> m" "sound e cache" "inv e s"
  shows "\<exists>s' cache'. inv e s' \<and> sound e cache' \<and>
    stateLoop (nodes e) (checker e) (int (window e)) (map (windowEnd e p) [Suc j..<Suc m])
      (windowState (nodes e) (window e) (step e) p j) cache s =
    Some (s', cache', Inr (windowState (nodes e) (window e) (step e) p m))"
  using assms(4-)
proof (induction "m - j" arbitrary: j cache s)
  case 0
  then show ?case by (intro exI [of _ s] exI [of _ cache]) simp
next
  case (Suc d)
  then have jm: "Suc j \<le> m" by simp
  then have le: "Suc j * window e \<le> Suc (nodeHeight (nodes e) p)"
    using assms(3) mult_le_mono1 [OF jm, of "window e"] by simp
  note we = windowEnd_facts [OF assms(1,2) zero_less_Suc le]
  from we(1) obtain md where md: "nodes e (windowEnd e p (Suc j)) = Some md" "bn_height md = int (Suc j * window e) - 1" by blast
  have wst: "windowState (nodes e) (window e) (step e) p (Suc j) =
      step e (windowEnd e p (Suc j)) (windowState (nodes e) (window e) (step e) p j)"
    by (simp add: windowEnd_def)
  have "int (window e) \<le> bn_height md + 1" using we(3) md(2) by simp
  from transition_step [OF assms(1) Suc.prems(3) md(1) this, of "windowState (nodes e) (window e) (step e) p j"] obtain s1 where
    s1: "inv e s1" "thresholdStateTransition (nodes e) (windowState (nodes e) (window e) (step e) p j) (windowEnd e p (Suc j)) (checker e) (int (window e)) s =
      Some (s1, Inr (windowState (nodes e) (window e) (step e) p (Suc j)))" unfolding wst by blast
  define cache1 where "cache1 = cache_Update cache (bn_hash md) (windowState (nodes e) (window e) (step e) p (Suc j))"
  have "sound e cache1" using sound_update [OF assms(1) Suc.prems(2) md(1)] we(2) by (simp add: cache1_def del: windowState.simps)
  moreover have "d = m - Suc j" using Suc.hyps(2) by simp
  ultimately obtain s' cache' where
    "inv e s'" "sound e cache'" "stateLoop (nodes e) (checker e) (int (window e)) (map (windowEnd e p) [Suc (Suc j)..<Suc m])
      (windowState (nodes e) (window e) (step e) p (Suc j)) cache1 s1 = Some (s', cache', Inr (windowState (nodes e) (window e) (step e) p m))"
    using Suc.hyps(1) [OF _ jm _ s1(1)] by blast
  moreover have "[Suc j..<Suc m] = Suc j # [Suc (Suc j)..<Suc m]" using jm by (simp add: upt_conv_Cons del: upt_Suc)
  ultimately show ?case
    using s1(2) md(1) by (intro exI [of _ s'] exI [of _ cache']) (simp add: cache1_def del: windowState.simps upt_Suc)
qed

theorem thresholdState_spec:
  assumes "ok e" "nodes e p = Some nd" "sound e cache" "inv e s"
  shows "\<exists>s' cache'. inv e s' \<and> sound e cache' \<and>
    thresholdState (nodes e) (Some p) (checker e) cache s = Some (s', cache', Inr (state e p))"
proof -
  note w = window_gt0 [OF assms(1)]
  have h0: "0 \<le> bn_height nd" using wf_heapD [OF wf [OF assms(1)] assms(2)] by (simp add: wf_node_def)
  define H where "H = nodeHeight (nodes e) p"
  have H: "bn_height nd = int H" using assms(2) h0 by (simp add: H_def nodeHeight_def)
  define m where "m = Suc H div window e"
  have st: "state e p = windowState (nodes e) (window e) (step e) p m" by (simp add: state_def chainState_def m_def H_def)
  show ?thesis
  proof (cases "Suc H < window e")
    case True
    then have "m = 0" by (simp add: m_def)
    moreover have "bn_height nd + 1 < int (window e)" using True H by simp
    ultimately show ?thesis using assms st by (auto simp: thresholdState_def window_int)
  next
    case False
    have m: "0 < m" "m * window e \<le> Suc H" using False w by (simp_all add: m_def div_greater_zero_iff)
    have "bn_height nd - (bn_height nd + 1) mod int (window e) = int (m * window e) - 1"
    proof -
      have "int (Suc H) mod int (window e) = int (Suc H) - int (m * window e)"
        unfolding zmod_int [symmetric] using m(2)
        by (simp add: m_def minus_div_mult_eq_mod [symmetric] of_nat_diff del: of_nat_Suc of_nat_mult)
      then show ?thesis using H by (simp add: add.commute)
    qed
    moreover have "Ancestor (nodes e) p (int (m * window e) - 1) = Some (Some (windowEnd e p m))"
    proof -
      have pos: "0 < m * window e" using m(1) w by simp
      have le: "m * window e - 1 \<le> nodeHeight (nodes e) p" using m(2) by (simp add: H_def)
      from nodeAt_height [OF wf [OF assms(1)] assms(2) le]
      have "up (H - (m * window e - 1)) (nodes e) p = Some (windowEnd e p m)" by (auto simp: H_def windowEnd_def)
      moreover have "nat (bn_height nd - (int (m * window e) - 1)) = H - (m * window e - 1)" using H pos m(2) by linarith
      moreover have "0 \<le> int (m * window e) - 1" "int (m * window e) - 1 \<le> bn_height nd" using pos m(2) H by linarith+
      ultimately show ?thesis by (simp add: Ancestor_up [OF wf [OF assms(1)] assms(2)] del: of_nat_mult)
    qed
    moreover obtain j cache1 where j: "j \<le> m" "sound e cache1"
      "neededLoop (nodes e) (checker e) (int (window e)) (Some (windowEnd e p m)) cache [] =
        Some (if j = 0 then None else Some (windowEnd e p j), cache1, map (windowEnd e p) (rev [Suc j..<Suc m]))"
      "0 < j \<Longrightarrow> \<exists>md. nodes e (windowEnd e p j) = Some md \<and> cache1 (bn_hash md) = Some (windowState (nodes e) (window e) (step e) p j)"
      using neededLoop_spec [OF assms(1-3), of m "[]"] m by (auto simp: H_def simp del: upt_Suc)
    moreover obtain s' cache' where "inv e s'" "sound e cache'"
      "stateLoop (nodes e) (checker e) (int (window e)) (map (windowEnd e p) [Suc j..<Suc m])
        (windowState (nodes e) (window e) (step e) p j) cache1 s = Some (s', cache', Inr (state e p))"
      using stateLoop_spec [OF assms(1,2) _ j(1,2) assms(4)] m(2) by (auto simp: H_def st simp del: upt_Suc)
    ultimately show ?thesis
      using assms(2) False H w
      by (cases "j = 0") (auto simp: thresholdState_def window_int [OF assms(1)] rev_map Lookup_def simp del: upt_Suc of_nat_mult)
  qed
qed

end

section \<open>Median times do not decrease\<close>

definition median :: "int list \<Rightarrow> int" where
  "median ts = sort ts ! (length ts div 2)"

lemma median_geI:
  assumes "ts \<noteq> []" "length (filter (\<lambda>x. x < m) ts) \<le> length ts div 2"
  shows "m \<le> median ts"
proof (rule ccontr)
  assume "\<not> m \<le> median ts"
  then have less: "sort ts ! (length ts div 2) < m" by (simp add: median_def)
  let ?k = "length ts div 2"
  have k: "?k < length (sort ts)" using assms(1) by simp
  have "x < m" if "x \<in> set (take (Suc ?k) (sort ts))" for x
  proof -
    from that obtain j where "j < Suc ?k" "x = sort ts ! j" by (auto simp: in_set_conv_nth)
    with sorted_nth_mono [OF sorted_sort, of j ?k ts] k less show ?thesis by simp
  qed
  then have "filter (\<lambda>x. x < m) (take (Suc ?k) (sort ts)) = take (Suc ?k) (sort ts)" by (simp add: filter_id_conv)
  moreover have "length (filter (\<lambda>x. x < m) (take (Suc ?k) (sort ts))) \<le> length (filter (\<lambda>x. x < m) (sort ts))"
    by (metis append_take_drop_id filter_append le_add1 length_append)
  moreover have "length (filter (\<lambda>x. x < m) (sort ts)) = length (filter (\<lambda>x. x < m) ts)"
    by (metis mset_filter mset_sort size_mset)
  moreover have "length (take (Suc ?k) (sort ts)) = Suc ?k" using k by simp
  ultimately show False using assms(2) by (metis Suc_n_not_le_n order_trans)
qed

lemma median_mono:
  assumes "ts \<noteq> []" "length ts \<le> Suc n" "median ts \<le> t"
  shows "median ts \<le> median (t # take n ts)"
proof (rule median_geI)
  have "length (filter (\<lambda>x. x < median ts) (take n ts)) \<le> length (filter (\<lambda>x. x < median ts) ts)"
    by (metis append_take_drop_id filter_append le_add1 length_append)
  also have "\<dots> \<le> length ts div 2"
    using median_sort(2) [OF assms(1) refl] by (simp add: median_def)
  also have "\<dots> \<le> length (t # take n ts) div 2" using assms(2) by (intro div_le_mono) simp
  finally show "length (filter (\<lambda>x. x < median ts) (t # take n ts)) \<le> length (t # take n ts) div 2" using assms(3) by simp
qed simp

lemma collectTimes_take:
  "collectTimes m h x = Some ts \<Longrightarrow> n \<le> m \<Longrightarrow> collectTimes n h x = Some (take n ts)"
proof (induction n arbitrary: m x ts)
  case (Suc n)
  then obtain m' where m': "m = Suc m'" "n \<le> m'" by (cases m) auto
  show ?case
  proof (cases x)
    case (Some p)
    with Suc.prems(1) m' obtain nd ts' where "h p = Some nd" "collectTimes m' h (bn_parent nd) = Some ts'" "ts = bn_timestamp nd # ts'"
      by (auto split: bind_splits)
    with Suc.IH [OF _ m'(2)] Some show ?thesis by simp
  qed (use Suc.prems m' in simp)
qed simp

lemma collectTimes_fresh:
  assumes "wf_heap h" "h new = None" "\<And>p. x = Some p \<Longrightarrow> h p \<noteq> None"
  shows "collectTimes n (h(new \<mapsto> node)) x = collectTimes n h x"
  using assms(3)
proof (induction n arbitrary: x)
  case (Suc n)
  show ?case
  proof (cases x)
    case (Some p)
    with Suc.prems obtain nd where nd: "h p = Some nd" by auto
    then have "p \<noteq> new" using assms(2) by auto
    moreover have "collectTimes n (h(new \<mapsto> node)) (bn_parent nd) = collectTimes n h (bn_parent nd)"
      using wf_heapD [OF assms(1) nd] by (intro Suc.IH) (auto simp: wf_node_def split: option.splits)
    moreover have "(h(new \<mapsto> node)) p = Some nd" using nd \<open>p \<noteq> new\<close> by simp
    ultimately show ?thesis using nd Some by (simp del: fun_upd_apply)
  qed simp
qed simp

definition medianAt :: "heap \<Rightarrow> ptr \<Rightarrow> int" where
  "medianAt h p = the (CalcPastMedianTime h p)"

lemma CalcPastMedianTime_median:
  assumes "wf_heap h" "h p = Some nd"
  obtains ts where "collectTimes 11 h (Some p) = Some ts" "ts \<noteq> []" "length ts \<le> 11" "CalcPastMedianTime h p = Some (median ts)"
proof -
  from collectTimes_up [OF assms, of 11] obtain ts where ts: "collectTimes 11 h (Some p) = Some ts" "length ts = min 11 (nat (bn_height nd) + 1)" by blast
  then show thesis by (intro that [of ts]) (auto simp: CalcPastMedianTime_def median_def Let_def)
qed

lemma medianAt_mono:
  assumes "wf_heap h" "h p = Some nd" "bn_parent nd = Some q" "medianAt h q \<le> bn_timestamp nd"
  shows "medianAt h q \<le> medianAt h p"
proof -
  from wf_heapD [OF assms(1,2)] assms(3) obtain md where md: "h q = Some md" by (auto simp: wf_node_def split: option.splits)
  from CalcPastMedianTime_median [OF assms(1) md] obtain ts where ts: "collectTimes 11 h (Some q) = Some ts" "ts \<noteq> []" "length ts \<le> 11"
    "CalcPastMedianTime h q = Some (median ts)" by blast
  have "collectTimes 10 h (Some q) = Some (take 10 ts)" by (rule collectTimes_take [OF ts(1)]) simp
  then have "collectTimes (Suc 10) h (Some p) = Some (bn_timestamp nd # take 10 ts)"
    using assms(2,3) unfolding collectTimes.simps by simp
  then have "medianAt h p = median (bn_timestamp nd # take 10 ts)"
    by (simp add: medianAt_def CalcPastMedianTime_def median_def Let_def)
  then show ?thesis using median_mono [of ts 10 "bn_timestamp nd"] ts assms(4) by (simp add: medianAt_def)
qed

section \<open>Deployments meet the interface\<close>

text \<open>
  The chains a deployment is evaluated on: every node is in the index under its hash, no block hashes to
  zero, and a block is later than the median time of its parent, as block validation requires.\<close>

definition chain_ok :: "BlockChain \<Rightarrow> bool" where
  "chain_ok b \<longleftrightarrow>
     wf_heap (bc_heap b) \<and> bc_heap b (bc_new b) = None \<and> 0 < sint (bc_MinerConfirmationWindow b) \<and>
     (\<forall>p nd. bc_heap b p = Some nd \<longrightarrow> bi_index (bc_index b) (bn_hash nd) = Some p \<and> bn_height nd < 2 ^ 31 - 1 \<and>
       (\<forall>q. bn_parent nd = Some q \<longrightarrow> medianAt (bc_heap b) q < bn_timestamp nd)) \<and>
     bi_index (bc_index b) zeroHash = None"

definition times_ok :: "ConsensusDeployment \<Rightarrow> bool" where
  "times_ok d \<longleftrightarrow> (\<forall>t u. dp_startTime d = Some t \<longrightarrow> dp_endTime d = Some u \<longrightarrow> t \<le> u)"

definition reached :: "BlockChain \<Rightarrow> int \<Rightarrow> ptr \<Rightarrow> bool" where
  "reached b t p \<longleftrightarrow> bn_parent (the (bc_heap b p)) \<noteq> None \<and> t \<le> medianAt (bc_heap b) p"

definition startedAt :: "BlockChain \<Rightarrow> ConsensusDeployment \<Rightarrow> ptr \<Rightarrow> bool" where
  "startedAt b d p = (case dp_startTime d of None \<Rightarrow> True | Some t \<Rightarrow> reached b t p)"

definition endedAt :: "BlockChain \<Rightarrow> ConsensusDeployment \<Rightarrow> ptr \<Rightarrow> bool" where
  "endedAt b d p = (case dp_endTime d of None \<Rightarrow> False | Some t \<Rightarrow> reached b t p)"

definition eligibleAt :: "BlockChain \<Rightarrow> ConsensusDeployment \<Rightarrow> ptr \<Rightarrow> bool" where
  "eligibleAt b d p \<longleftrightarrow> unat (MinActivationHeight d) \<le> Suc (nodeHeight (bc_heap b) p)"

definition votedFor :: "BlockChain \<Rightarrow> ConsensusDeployment \<Rightarrow> ptr \<Rightarrow> bool" where
  "votedFor b d p \<longleftrightarrow>
     (let version = bn_version (the (bc_heap b p)) in
      version AND vbTopMask = vbTopBits \<and> version AND push_bit (unat (BitNumber d)) 1 \<noteq> 0)"

lemma PastMedianTime_header:
  assumes "chain_ok b" "bc_heap b p = Some nd"
  obtains header where "Header (bc_heap b) p = Some header"
    "PastMedianTime b header = Some (case bn_parent nd of None \<Rightarrow> Inl NoPreviousNode | Some q \<Rightarrow> Inr (medianAt (bc_heap b) p))"
proof -
  let ?h = "bc_heap b"
  have wf: "wf_heap ?h" and new: "?h (bc_new b) = None" using assms(1) by (simp_all add: chain_ok_def)
  show thesis
  proof (cases "bn_parent nd")
    case None
    then show thesis using assms by (intro that) (auto simp: Header_def PastMedianTime_def LookupNode_def chain_ok_def)
  next
    case (Some q)
    with wf_heapD [OF wf assms(2)] obtain par where par: "?h q = Some par" by (auto simp: wf_node_def split: option.splits)
    define header where "header = \<lparr>bh_Version = bn_version nd, bh_PrevBlock = bn_hash par, bh_MerkleRoot = bn_merkleRoot nd,
      bh_Timestamp = bn_timestamp nd, bh_Bits = bn_bits nd, bh_Nonce = bn_nonce nd\<rparr>"
    have hdr: "Header ?h p = Some header" using assms(2) Some par by (simp add: Header_def header_def)
    have look: "LookupNode (bc_index b) (bh_PrevBlock header) = Some q"
      using assms(1) par by (auto simp: chain_ok_def LookupNode_def header_def)
    obtain node where node: "initBlockNode ?h header (Some q) = Some node" "bn_parent node = Some q" "bn_timestamp node = bh_Timestamp header"
      using initBlockNode_child [OF wf par, of header] by metis
    have fresh: "collectTimes 10 (?h(bc_new b \<mapsto> node)) (Some q) = collectTimes 10 ?h (Some q)"
      by (rule collectTimes_fresh [OF wf new]) (use par in auto)
    have eq: "collectTimes (Suc 10) (?h(bc_new b \<mapsto> node)) (Some (bc_new b)) = collectTimes (Suc 10) ?h (Some p)"
      using fresh assms(2) Some node(2,3) unfolding collectTimes.simps by (simp add: header_def)
    then have "CalcPastMedianTime (?h(bc_new b \<mapsto> node)) (bc_new b) = CalcPastMedianTime ?h p"
      by (simp add: CalcPastMedianTime_def)
    moreover obtain ts where "CalcPastMedianTime ?h p = Some (median ts)" by (rule CalcPastMedianTime_median [OF wf assms(2)])
    ultimately show thesis
      using hdr look node(1) Some
      by (intro that [of header]) (simp_all add: PastMedianTime_def newBlockNode_def medianAt_def)
  qed
qed

lemma checker_times:
  assumes "chain_ok b" "bc_heap b p = Some nd"
  shows "HasStarted (deploymentChecker b d) p = Some (startedAt b d p)"
    and "HasEnded (deploymentChecker b d) p = Some (endedAt b d p)"
proof -
  obtain header where hdr: "Header (bc_heap b) p = Some header"
    "PastMedianTime b header = Some (case bn_parent nd of None \<Rightarrow> Inl NoPreviousNode | Some q \<Rightarrow> Inr (medianAt (bc_heap b) p))"
    by (rule PastMedianTime_header [OF assms])
  show "HasStarted (deploymentChecker b d) p = Some (startedAt b d p)"
    using hdr assms(2) by (cases "dp_startTime d"; cases "bn_parent nd")
      (auto simp: deploymentChecker_def noError_def Starter_HasStarted_def startedAt_def reached_def)
  show "HasEnded (deploymentChecker b d) p = Some (endedAt b d p)"
    using hdr assms(2) by (cases "dp_endTime d"; cases "bn_parent nd")
      (auto simp: deploymentChecker_def noError_def Ender_HasEnded_def endedAt_def reached_def)
qed

lemma reached_mono:
  assumes "chain_ok b" "bc_heap b p = Some nd" "bn_parent nd = Some q" "reached b t q"
  shows "reached b t p"
proof -
  have "wf_heap (bc_heap b)" "medianAt (bc_heap b) q \<le> bn_timestamp nd" using assms(1-3) by (force simp: chain_ok_def)+
  then have "medianAt (bc_heap b) q \<le> medianAt (bc_heap b) p" using assms(2,3) by (intro medianAt_mono)
  then show ?thesis using assms by (simp add: reached_def)
qed

lemma eligible_checker:
  assumes "chain_ok b" "bc_heap b p = Some nd"
  shows "EligibleToActivate (deploymentChecker b d) p = Some (eligibleAt b d p)"
proof -
  have wf: "wf_heap (bc_heap b)" using assms(1) by (simp add: chain_ok_def)
  have ht: "0 \<le> bn_height nd" "bn_height nd < 2 ^ 31 - 1"
    using assms wf_heapD [OF wf assms(2)] by (auto simp: chain_ok_def wf_node_def)
  have "unat (word_of_int (bn_height nd) + 1 :: uint32) = Suc (nat (bn_height nd))"
  proof -
    have "word_of_int (bn_height nd) + 1 = (word_of_nat (Suc (nat (bn_height nd))) :: uint32)" using ht by simp
    moreover have "Suc (nat (bn_height nd)) < 2 ^ 32" using ht by simp
    ultimately show ?thesis by (simp only: unat_of_nat len_of_numeral_defs) (simp add: unat_of_nat)
  qed
  then show ?thesis
    using assms(2) by (auto simp: deploymentChecker_def eligibleAt_def nodeHeight_def word_le_nat_alt unat_gt_0)
qed

interpretation deployment: threshold_checker "\<lambda>(b, d). chain_ok b \<and> times_ok d" "\<lambda>(b, d). bc_heap b"
  "\<lambda>(b, d). deploymentChecker b d :: unit thresholdConditionChecker" "\<lambda>_ _. True"
  "\<lambda>(b, d). startedAt b d" "\<lambda>(b, d). endedAt b d" "\<lambda>(b, d). eligibleAt b d" "\<lambda>(b, d). votedFor b d"
proof (unfold_locales, goal_cases)
  case (1 e)
  then show ?case by (auto simp: chain_ok_def)
next
  case (2 e)
  then show ?case by (auto simp: chain_ok_def deploymentChecker_def)
next
  case (3 e p nd q md)
  then show ?case by (cases e) (auto simp: chain_ok_def, metis option.inject)
next
  case (4 e p nd)
  then show ?case by (cases e) (simp add: checker_times)
next
  case (5 e p nd)
  then show ?case by (cases e) (simp add: checker_times)
next
  case (6 e p nd)
  then show ?case by (cases e) (simp add: eligible_checker)
next
  case (7 e p nd s)
  then show ?case by (cases e) (auto simp: deploymentChecker_def votedFor_def Let_def)
next
  case (8 e p nd q)
  then show ?case by (cases e) (auto simp: startedAt_def reached_mono split: option.splits)
next
  case (9 e p nd)
  then show ?case by (cases e) (auto simp: startedAt_def endedAt_def times_ok_def reached_def split: option.splits)
qed

definition deploymentStep :: "BlockChain \<Rightarrow> ConsensusDeployment \<Rightarrow> ptr \<Rightarrow> ThresholdState \<Rightarrow> ThresholdState" where
  "deploymentStep b d p =
     nextState (MinActivationHeight d \<noteq> 0 \<or> CustomActivationThreshold d \<noteq> 0)
       (unat (if CustomActivationThreshold d \<noteq> 0 then CustomActivationThreshold d else bc_RuleChangeActivationThreshold b))
       (startedAt b d p) (endedAt b d p) (eligibleAt b d p)
       (votesIn (bc_heap b) (votedFor b d) (nat (sint (bc_MinerConfirmationWindow b))) p)"

text \<open>The state of a deployment for the block after a node, by BIP 9.\<close>

definition stateAfter :: "BlockChain \<Rightarrow> ConsensusDeployment \<Rightarrow> ptr option \<Rightarrow> ThresholdState" where
  "stateAfter b d prevNode =
     (case prevNode of
        None \<Rightarrow> ThresholdDefined
      | Some p \<Rightarrow> chainState (bc_heap b) (nat (sint (bc_MinerConfirmationWindow b))) (deploymentStep b d) p)"

definition cacheSound :: "BlockChain \<Rightarrow> ConsensusDeployment \<Rightarrow> thresholdStateCache \<Rightarrow> bool" where
  "cacheSound b d cache \<longleftrightarrow>
     (\<forall>p nd st. bc_heap b p = Some nd \<longrightarrow> cache (bn_hash nd) = Some st \<longrightarrow> st = stateAfter b d (Some p))"

definition nodeOk :: "heap \<Rightarrow> ptr option \<Rightarrow> bool" where
  "nodeOk h prevNode \<longleftrightarrow> (case prevNode of None \<Rightarrow> True | Some p \<Rightarrow> h p \<noteq> None)"

lemma deployment_window: "deployment.window (b, d) = nat (sint (bc_MinerConfirmationWindow b))"
  unfolding deployment.window_def by (simp add: deploymentChecker_def)

lemma deployment_step: "deployment.step (b, d) = deploymentStep b d"
  by (rule ext) (simp add: deployment.step_def deployment_window deploymentStep_def, simp add: deploymentChecker_def)

lemma deployment_state: "deployment.state (b, d) p = stateAfter b d (Some p)"
  by (simp add: deployment.state_def deployment_window deployment_step stateAfter_def)

lemma deployment_sound: "deployment.sound (b, d) cache \<longleftrightarrow> cacheSound b d cache"
  by (simp add: deployment.sound_def cacheSound_def deployment_state)

lemma deployment_thresholdState:
  assumes "chain_ok b" "times_ok d" "nodeOk (bc_heap b) prevNode" "cacheSound b d cache"
  shows "\<exists>cache'. cacheSound b d cache' \<and>
    thresholdState (bc_heap b) prevNode (deploymentChecker b d) cache () = Some ((), cache', Inr (stateAfter b d prevNode))"
proof (cases prevNode)
  case None
  with assms(4) show ?thesis by (simp add: thresholdState_def stateAfter_def)
next
  case (Some p)
  with assms(3) obtain nd where "bc_heap b p = Some nd" by (auto simp: nodeOk_def)
  with deployment.thresholdState_spec [of "(b, d)" p nd cache "()"] assms Some show ?thesis
    by (auto simp: deployment_sound deployment_state)
qed

definition expectedVersion :: "BlockChain \<Rightarrow> ptr option \<Rightarrow> ConsensusDeployment list \<Rightarrow> uint32 \<Rightarrow> uint32" where
  "expectedVersion b prevNode =
     fold (\<lambda>d version. if stateAfter b d prevNode \<in> {ThresholdStarted, ThresholdLockedIn}
                       then version OR push_bit (unat (BitNumber d)) 1 else version)"

lemma calcVersionLoop_spec:
  assumes "chain_ok b" "nodeOk (bc_heap b) prevNode" "list_all times_ok ds" "list_all2 (cacheSound b) ds caches"
  shows "\<exists>caches'. list_all2 (cacheSound b) ds caches' \<and>
    calcVersionLoop b prevNode ds caches v = Some (caches', Inr (expectedVersion b prevNode ds v))"
  using assms(4,3)
proof (induction arbitrary: v rule: list_all2_induct)
  case (Cons d ds cache caches)
  from Cons.prems have d: "times_ok d" "list_all times_ok ds" by simp_all
  from deployment_thresholdState [OF assms(1) d(1) assms(2) Cons.hyps(1)] obtain cache' where
    c: "cacheSound b d cache'" "thresholdState (bc_heap b) prevNode (deploymentChecker b d) cache () = Some ((), cache', Inr (stateAfter b d prevNode))"
    by blast
  define v1 where "v1 = (if stateAfter b d prevNode = ThresholdStarted \<or> stateAfter b d prevNode = ThresholdLockedIn
    then v OR push_bit (unat (BitNumber d)) 1 else v)"
  from Cons.IH [OF d(2), of v1] obtain caches' where
    cs: "list_all2 (cacheSound b) ds caches'" "calcVersionLoop b prevNode ds caches v1 = Some (caches', Inr (expectedVersion b prevNode ds v1))"
    by blast
  from c cs show ?case
    by (intro exI [of _ "cache' # caches'"]) (simp add: v1_def expectedVersion_def)
qed (simp add: expectedVersion_def)

definition deploymentsOk :: "BlockChain \<Rightarrow> bool" where
  "deploymentsOk b \<longleftrightarrow> chain_ok b \<and> list_all times_ok (bc_Deployments b)"

definition cachesSound :: "BlockChain \<Rightarrow> thresholdStateCache list \<Rightarrow> bool" where
  "cachesSound b caches \<longleftrightarrow> list_all2 (cacheSound b) (bc_Deployments b) caches"

text \<open>A block signals an unknown rule with a bit that no known deployment asks for.\<close>

definition unknownVote :: "BlockChain \<Rightarrow> nat \<Rightarrow> ptr \<Rightarrow> bool" where
  "unknownVote b bitNum p \<longleftrightarrow>
     (let nd = the (bc_heap b p) in
      bn_version nd AND vbTopMask = vbTopBits \<and> bn_version nd AND push_bit bitNum 1 \<noteq> 0 \<and>
      expectedVersion b (bn_parent nd) (bc_Deployments b) vbTopBits AND push_bit bitNum 1 = 0)"

lemma bit_Condition:
  assumes "deploymentsOk b" "bc_heap b p = Some nd" "cachesSound b caches"
  shows "\<exists>caches'. Condition (bitConditionChecker b bitNum) p caches = Some (caches', Inr (unknownVote b bitNum p)) \<and> cachesSound b caches'"
proof -
  have wf: "wf_heap (bc_heap b)" using assms(1) by (simp add: deploymentsOk_def chain_ok_def)
  have "nodeOk (bc_heap b) (bn_parent nd)"
    using wf_heapD [OF wf assms(2)] by (auto simp: nodeOk_def wf_node_def split: option.splits)
  then obtain caches' where "cachesSound b caches'"
    "calcNextBlockVersion b (bn_parent nd) caches = Some (caches', Inr (expectedVersion b (bn_parent nd) (bc_Deployments b) vbTopBits))"
    using calcVersionLoop_spec [of b "bn_parent nd" "bc_Deployments b" caches vbTopBits] assms
    by (auto simp: deploymentsOk_def cachesSound_def calcNextBlockVersion_def)
  with assms(2,3) show ?thesis
    by (cases "bn_version nd AND vbTopMask = vbTopBits"; cases "bn_version nd AND push_bit bitNum 1 = 0")
      (auto simp: bitConditionChecker_def unknownVote_def Let_def)
qed

interpretation unknown: threshold_checker "\<lambda>(b, bitNum). deploymentsOk b" "\<lambda>(b, bitNum). bc_heap b"
  "\<lambda>(b, bitNum). bitConditionChecker b bitNum" "\<lambda>(b, bitNum). cachesSound b"
  "\<lambda>_ _. True" "\<lambda>_ _. False" "\<lambda>_ _. True" "\<lambda>(b, bitNum). unknownVote b bitNum"
proof (unfold_locales, goal_cases)
  case (1 e)
  then show ?case by (auto simp: deploymentsOk_def chain_ok_def)
next
  case (2 e)
  then show ?case by (auto simp: deploymentsOk_def chain_ok_def bitConditionChecker_def)
next
  case (3 e p nd q md)
  then show ?case by (cases e) (auto simp: deploymentsOk_def chain_ok_def, metis option.inject)
next
  case (7 e p nd s)
  then show ?case by (cases e) (simp add: bit_Condition)
qed (auto simp: bitConditionChecker_def)

section \<open>The life of a deployment\<close>

inductive rule_step :: "ThresholdState \<Rightarrow> ThresholdState \<Rightarrow> bool" where
  start: "rule_step ThresholdDefined ThresholdStarted"
| expire: "rule_step ThresholdDefined ThresholdFailed"
| lock_in: "rule_step ThresholdStarted ThresholdLockedIn"
| fail: "rule_step ThresholdStarted ThresholdFailed"
| activate: "rule_step ThresholdLockedIn ThresholdActive"

inductive_simps rule_step_final [simp]: "rule_step ThresholdActive st" "rule_step ThresholdFailed st"

lemma rule_steps_final:
  assumes "rule_step\<^sup>*\<^sup>* st st'" "st = ThresholdActive \<or> st = ThresholdFailed"
  shows "st' = st"
  using assms by (induction rule: rtranclp_induct) auto

lemma nextState_rule: "rule_step\<^sup>=\<^sup>= st (nextState speedy threshold started ended eligible votes st)"
  by (cases st) (auto simp: nextState_def intro: rule_step.intros)

lemma windowState_steps: "i \<le> j \<Longrightarrow> rule_step\<^sup>*\<^sup>* (windowState h w (deploymentStep b d) p i) (windowState h w (deploymentStep b d) p j)"
proof (induction j)
  case (Suc j)
  show ?case
  proof (cases "i = Suc j")
    case False
    with Suc have "rule_step\<^sup>*\<^sup>* (windowState h w (deploymentStep b d) p i) (windowState h w (deploymentStep b d) p j)" by simp
    moreover have "rule_step\<^sup>=\<^sup>= (windowState h w (deploymentStep b d) p j) (windowState h w (deploymentStep b d) p (Suc j))"
      using nextState_rule by (simp add: deploymentStep_def)
    ultimately show ?thesis by (auto dest: rtranclp.rtrancl_into_rtrancl)
  qed simp
qed simp

lemma up_nodeAt:
  assumes "wf_heap h" "h p = Some nd" "up k h p = Some q"
  shows "q = nodeAt h p (nodeHeight h q)" "nodeHeight h q \<le> nodeHeight h p"
proof -
  from up_heightD [OF assms] obtain md where md: "h q = Some md" "bn_height md = bn_height nd - int k" by blast
  have "0 \<le> bn_height md" "0 \<le> bn_height nd"
    using wf_heapD [OF assms(1) md(1)] wf_heapD [OF assms(1,2)] by (simp_all add: wf_node_def)
  with md assms(2) have "nodeHeight h p - nodeHeight h q = k" "nodeHeight h q \<le> nodeHeight h p" by (auto simp: nodeHeight_def)
  with assms show "q = nodeAt h p (nodeHeight h q)" "nodeHeight h q \<le> nodeHeight h p" by (auto simp: nodeAt_def nodeHeight_def)
qed

abbreviation "windowSize b \<equiv> nat (sint (bc_MinerConfirmationWindow b))"

lemma stateAfter_up:
  assumes "wf_heap (bc_heap b)" "bc_heap b p = Some nd" "up k (bc_heap b) p = Some q"
  shows "stateAfter b d (Some q) =
    windowState (bc_heap b) (windowSize b) (deploymentStep b d) p (Suc (nodeHeight (bc_heap b) q) div windowSize b)"
proof -
  let ?h = "bc_heap b" and ?w = "windowSize b"
  note up = up_nodeAt [OF assms]
  have "Suc (nodeHeight ?h q) div ?w * ?w \<le> Suc (nodeHeight ?h q)" by simp
  from windowState_prefix [OF assms(1,2) up(2) this, of "deploymentStep b d"] up(1) show ?thesis
    by (simp add: stateAfter_def chainState_def)
qed

lemma stateAfter_steps:
  assumes "wf_heap (bc_heap b)" "bc_heap b p = Some nd" "up k (bc_heap b) p = Some q"
  shows "rule_step\<^sup>*\<^sup>* (stateAfter b d (Some q)) (stateAfter b d (Some p))"
proof -
  have "nodeHeight (bc_heap b) q \<le> nodeHeight (bc_heap b) p" by (rule up_nodeAt [OF assms])
  then have "Suc (nodeHeight (bc_heap b) q) div windowSize b \<le> Suc (nodeHeight (bc_heap b) p) div windowSize b"
    by (intro div_le_mono) simp
  from windowState_steps [OF this] show ?thesis
    unfolding stateAfter_up [OF assms] by (simp add: stateAfter_def chainState_def)
qed

lemma ended_up:
  assumes "chain_ok b" "bc_heap b p = Some nd" "up k (bc_heap b) p = Some q" "endedAt b d q"
  shows "endedAt b d p"
  using assms(2,3)
proof (induction k arbitrary: p nd)
  case 0
  then show ?case using assms(4) by simp
next
  case (Suc k)
  then obtain r where r: "bn_parent nd = Some r" "up k (bc_heap b) r = Some q" by (auto split: bind_splits)
  have wf: "wf_heap (bc_heap b)" using assms(1) by (simp add: chain_ok_def)
  with wf_heapD [OF wf Suc.prems(1)] r(1) obtain md where "bc_heap b r = Some md"
    by (auto simp: wf_node_def split: option.splits)
  from Suc.IH [OF this r(2)] reached_mono [OF assms(1) Suc.prems(1) r(1)] show ?case
    by (auto simp: endedAt_def split: option.splits)
qed

text \<open>
  A window that ends after the end time: the deployment has been decided one window later, and is
  settled in the second window after it if it may be activated then.\<close>

lemma ended_window:
  assumes "chain_ok b" "times_ok d" "bc_heap b p = Some nd" "0 < m" "m \<le> n" "n * windowSize b \<le> Suc (nodeHeight (bc_heap b) p)"
    and "endedAt b d (nodeAt (bc_heap b) p (m * windowSize b - 1))"
  shows "n > m \<Longrightarrow> windowState (bc_heap b) (windowSize b) (deploymentStep b d) p n \<in> {ThresholdLockedIn, ThresholdActive, ThresholdFailed}"
proof -
  let ?h = "bc_heap b" and ?w = "windowSize b"
  define st where "st = windowState ?h ?w (deploymentStep b d) p"
  have wf: "wf_heap ?h" and w: "0 < ?w" using assms(1) by (simp_all add: chain_ok_def)
  have ended: "endedAt b d (nodeAt ?h p (i * ?w - 1))" if i: "m \<le> i" "i \<le> n" for i
  proof -
    have "m * ?w \<le> i * ?w" "i * ?w \<le> n * ?w" using i by simp_all
    then have le: "m * ?w - 1 \<le> i * ?w - 1" "i * ?w - 1 \<le> nodeHeight ?h p" using assms(6) by linarith+
    from nodeAt_height [OF wf assms(3) le(2)] obtain md where md: "?h (nodeAt ?h p (i * ?w - 1)) = Some md" "bn_height md = int (i * ?w - 1)" by blast
    then have "m * ?w - 1 \<le> nodeHeight ?h (nodeAt ?h p (i * ?w - 1))" using le(1) by (simp add: nodeHeight_def)
    from nodeAt_height [OF wf md(1) this] nodeAt_nodeAt [OF wf assms(3) le]
    have "up (nodeHeight ?h (nodeAt ?h p (i * ?w - 1)) - (m * ?w - 1)) ?h (nodeAt ?h p (i * ?w - 1)) = Some (nodeAt ?h p (m * ?w - 1))" by auto
    from ended_up [OF assms(1) md(1) this assms(7)] show ?thesis .
  qed
  have started: "startedAt b d (nodeAt ?h p (i * ?w - 1))" if "m \<le> i" "i \<le> n" for i
    using ended [OF that] assms(2) by (auto simp: startedAt_def endedAt_def times_ok_def reached_def split: option.splits)
  have step: "st (Suc i) = deploymentStep b d (nodeAt ?h p (Suc i * ?w - 1)) (st i)" for i by (simp add: st_def)
  obtain l where m: "m = Suc l" using assms(4) by (cases m) auto
  have first: "st m \<noteq> ThresholdDefined"
    using ended [of m] started [of m] assms(5) step [of l] m
    by (cases "st l") (auto simp: deploymentStep_def nextState_def)
  have next1: "st (Suc m) \<in> {ThresholdLockedIn, ThresholdActive, ThresholdFailed}" if "Suc m \<le> n"
    using first ended [of "Suc m"] that step [of m] by (cases "st m") (auto simp: deploymentStep_def nextState_def)
  assume "n > m"
  then have "rule_step\<^sup>*\<^sup>* (st (Suc m)) (st n)" unfolding st_def by (intro windowState_steps) simp
  then have "st n \<in> {ThresholdLockedIn, ThresholdActive, ThresholdFailed}"
  proof (induction rule: rtranclp_induct)
    case base
    then show ?case using next1 \<open>n > m\<close> by simp
  next
    case (step y z)
    from step(2,3) show ?case by (auto elim: rule_step.cases)
  qed
  then show "windowState ?h ?w (deploymentStep b d) p n \<in> {ThresholdLockedIn, ThresholdActive, ThresholdFailed}" by (simp add: st_def)
qed

lemma settled_window:
  assumes "chain_ok b" "times_ok d" "bc_heap b p = Some nd" "0 < m" "Suc (Suc m) \<le> n"
    and "n = Suc (nodeHeight (bc_heap b) p) div windowSize b"
    and "endedAt b d (nodeAt (bc_heap b) p (m * windowSize b - 1))" "unat (MinActivationHeight d) \<le> n * windowSize b"
  shows "stateAfter b d (Some p) \<in> {ThresholdActive, ThresholdFailed}"
proof -
  let ?h = "bc_heap b" and ?w = "windowSize b"
  obtain i where n: "n = Suc i" "m < i" using assms(5) by (cases n) auto
  have wf: "wf_heap ?h" and w: "0 < ?w" using assms(1) by (simp_all add: chain_ok_def)
  have le: "n * ?w \<le> Suc (nodeHeight ?h p)" by (simp add: assms(6))
  then have "i * ?w \<le> Suc (nodeHeight ?h p)" using n(1) by simp
  from ended_window [OF assms(1-4) _ this assms(7)] n(2)
  have st: "windowState ?h ?w (deploymentStep b d) p i \<in> {ThresholdLockedIn, ThresholdActive, ThresholdFailed}" by simp
  have "n * ?w - 1 \<le> nodeHeight ?h p" using le by simp
  from nodeAt_height [OF wf assms(3) this] have "nodeHeight ?h (nodeAt ?h p (n * ?w - 1)) = n * ?w - 1" by (auto simp: nodeHeight_def)
  moreover have "0 < n * ?w" using n(1) w by simp
  ultimately have "eligibleAt b d (nodeAt ?h p (n * ?w - 1))" using assms(8) by (simp add: eligibleAt_def)
  with st n(1) have "windowState ?h ?w (deploymentStep b d) p n \<in> {ThresholdActive, ThresholdFailed}"
    by (auto simp: deploymentStep_def nextState_def)
  then show ?thesis using assms(6) by (simp add: stateAfter_def chainState_def)
qed

section \<open>An example\<close>

text \<open>A chain of eight blocks that all vote with bit zero, in windows of two.\<close>

definition vote_node :: "nat \<Rightarrow> blockNode" where
  "vote_node i =
     \<lparr>bn_parent = (if i = 0 then None else Some (i - 1)), bn_ancestor = None, bn_hash = replicate 32 (word_of_nat (Suc i)),
      bn_workSum = int i + 1, bn_height = int i, bn_version = 0x20000001, bn_bits = 0x1d00ffff, bn_nonce = 0,
      bn_timestamp = 600 * int i, bn_merkleRoot = zeroHash, bn_status = statusNone\<rparr>"

definition vote_heap :: heap where
  "vote_heap i = (if i < 8 then Some (vote_node i) else None)"

definition vote_deployment :: ConsensusDeployment where
  "vote_deployment = \<lparr>BitNumber = 0, MinActivationHeight = 0, CustomActivationThreshold = 1, dp_startTime = None, dp_endTime = Some 0\<rparr>"

definition vote_chain :: BlockChain where
  "vote_chain = \<lparr>bc_heap = vote_heap,
     bc_index = \<lparr>bi_index = map_of (map (\<lambda>i. (bn_hash (vote_node i), i)) [0..<8]), bi_dirty = {}\<rparr>, bc_new = 8,
     bc_RuleChangeActivationThreshold = 2, bc_MinerConfirmationWindow = 2, bc_Deployments = [vote_deployment]\<rparr>"

lemma vote_heap_Some: "vote_heap i = Some nd \<longleftrightarrow> i < 8 \<and> nd = vote_node i"
  by (auto simp: vote_heap_def)

lemma vote_heap_up: "k \<le> i \<Longrightarrow> i < 8 \<Longrightarrow> up k vote_heap i = Some (i - k)"
  by (induction k arbitrary: i) (auto simp: vote_heap_def vote_node_def)

lemma wf_vote_heap: "wf_heap vote_heap"
  by (auto simp: wf_heap_def wf_node_def vote_heap_Some vote_node_def of_nat_diff) (simp add: vote_heap_def vote_node_def of_nat_diff)

lemma vote_median:
  assumes "i < 8"
  shows "0 \<le> medianAt vote_heap i \<and> medianAt vote_heap i \<le> 600 * int i"
proof -
  have nd: "vote_heap i = Some (vote_node i)" using assms by (simp add: vote_heap_def)
  from CalcPastMedianTime_median [OF wf_vote_heap nd] obtain ts where
    ts: "collectTimes 11 vote_heap (Some i) = Some ts" "ts \<noteq> []" "CalcPastMedianTime vote_heap i = Some (median ts)" by blast
  have "median ts \<in> set ts" using median_sort(1) [OF ts(2) refl] by (simp add: median_def)
  then obtain j where j: "j < length ts" "median ts = ts ! j" by (auto simp: in_set_conv_nth)
  with collectTimes_up [OF wf_vote_heap nd, of 11] ts(1) obtain q m where
    "up j vote_heap i = Some q" "vote_heap q = Some m" "ts ! j = bn_timestamp m" by auto
  with up_heightD [OF wf_vote_heap nd, of j q] have "ts ! j = 600 * int q" "int q \<le> int i"
    by (auto simp: vote_heap_Some vote_node_def)
  with j ts(3) show ?thesis by (simp add: medianAt_def)
qed

lemma vote_hash: "i < 8 \<Longrightarrow> j < 8 \<Longrightarrow> bn_hash (vote_node i) = bn_hash (vote_node j) \<longleftrightarrow> i = j"
  "i < 8 \<Longrightarrow> bn_hash (vote_node i) \<noteq> zeroHash"
proof -
  have eq: "(word_of_nat (Suc i) :: byte) = word_of_nat (Suc j) \<longleftrightarrow> i = j" if "i < 8" "j < 8" for i j
  proof
    assume "(word_of_nat (Suc i) :: byte) = word_of_nat (Suc j)"
    from arg_cong [OF this, of unat] that show "i = j" by (simp add: unat_of_nat del: of_nat_Suc)
  qed simp
  show "bn_hash (vote_node i) = bn_hash (vote_node j) \<longleftrightarrow> i = j" if "i < 8" "j < 8"
    using eq [OF that] by (simp add: vote_node_def del: of_nat_Suc)
  have "unat (word_of_nat (Suc i) :: byte) = Suc i" if "i < 8" using that by (simp add: unat_of_nat del: of_nat_Suc)
  then have "(word_of_nat (Suc i) :: byte) \<noteq> 0" if "i < 8" using that by (metis nat.distinct(1) unat_0)
  then show "bn_hash (vote_node i) \<noteq> zeroHash" if "i < 8"
    using that by (auto simp: vote_node_def zeroHash_def HashSize_def simp del: of_nat_Suc)
qed

lemma vote_chain_ok: "chain_ok vote_chain"
proof -
  have inj: "inj_on (\<lambda>i. bn_hash (vote_node i)) {0..<8}" by (rule inj_onI) (simp add: vote_hash)
  have look: "map_of (map (\<lambda>i. (bn_hash (vote_node i), i)) [0..<8]) (bn_hash (vote_node i)) = Some i" if "i < 8" for i
    using that inj by (intro map_of_is_SomeI) (auto simp: comp_def distinct_map)
  have "map_of (map (\<lambda>i. (bn_hash (vote_node i), i)) [0..<8]) zeroHash = None"
    using vote_hash(2) by (auto simp: map_of_eq_None_iff) metis
  moreover have "medianAt vote_heap q < bn_timestamp nd" if "vote_heap p = Some nd" "bn_parent nd = Some q" for p nd q
  proof -
    from that have "p < 8" "q = p - 1" "0 < p" "bn_timestamp nd = 600 * int p"
      by (auto simp: vote_heap_Some vote_node_def split: if_splits)
    moreover from this have "q < 8" by simp
    ultimately show ?thesis using vote_median [of q] by (simp add: of_nat_diff)
  qed
  moreover have "vote_heap 8 = None" by (simp add: vote_heap_def)
  ultimately show ?thesis
    using look wf_vote_heap
    by (auto simp: chain_ok_def vote_chain_def vote_heap_Some) (auto simp: vote_node_def vote_heap_def)
qed

section \<open>Properties\<close>

text \<open>C15: The cached evaluation of a deployment is the state machine of BIP 9.  On a chain that follows the time rule, with
  any cache whose entries are right, the state for the block after a node is the one computed forward window by
  window from the first block; the evaluation returns, without an error, and leaves a cache whose entries are right.\<close>

theorem threshold_state_bip9:
  assumes "chain_ok b" "times_ok d" "nodeOk (bc_heap b) prevNode" "cacheSound b d cache"
  shows "\<exists>cache'. thresholdState (bc_heap b) prevNode (deploymentChecker b d) cache () = Some ((), cache', Inr (stateAfter b d prevNode)) \<and>
    cacheSound b d cache'"
  using deployment_thresholdState [OF assms] by blast

theorem threshold_state_bip9_witness:
  "\<exists>cache'. thresholdState vote_heap (Some 7) (deploymentChecker vote_chain vote_deployment) Map.empty () =
     Some ((), cache', Inr (stateAfter vote_chain vote_deployment (Some 7))) \<and> cacheSound vote_chain vote_deployment cache'"
proof -
  have "times_ok vote_deployment" "nodeOk (bc_heap vote_chain) (Some 7)" "cacheSound vote_chain vote_deployment Map.empty"
    by (simp_all add: times_ok_def vote_deployment_def nodeOk_def vote_chain_def vote_heap_def cacheSound_def)
  from threshold_state_bip9 [OF vote_chain_ok this] show ?thesis by (simp add: vote_chain_def)
qed

text \<open>C17: A deployment only moves forward.  When the state is evaluated for the block after a node and then, with the cache that
  this leaves, for the block after a descendant, both evaluations answer, and the second answer is reached from the
  first by the transitions defined, started, locked in, active, or to failed before it is locked in.  A deployment
  that is active or has failed stays so for every later block.\<close>

theorem deployment_lifecycle:
  assumes "chain_ok b" "times_ok d" "bc_heap b p = Some nd" "up k (bc_heap b) p = Some q" "cacheSound b d cache"
  shows "\<exists>st cache1 st' cache2.
    thresholdState (bc_heap b) (Some q) (deploymentChecker b d) cache () = Some ((), cache1, Inr st) \<and>
    thresholdState (bc_heap b) (Some p) (deploymentChecker b d) cache1 () = Some ((), cache2, Inr st') \<and>
    rule_step\<^sup>*\<^sup>* st st' \<and> (st \<in> {ThresholdActive, ThresholdFailed} \<longrightarrow> st' = st)"
proof -
  have wf: "wf_heap (bc_heap b)" using assms(1) by (simp add: chain_ok_def)
  have nodes: "nodeOk (bc_heap b) (Some q)" "nodeOk (bc_heap b) (Some p)"
    using up_heightD [OF wf assms(3,4)] assms(3) by (auto simp: nodeOk_def)
  from deployment_thresholdState [OF assms(1,2) nodes(1) assms(5)] obtain cache1 where
    first: "thresholdState (bc_heap b) (Some q) (deploymentChecker b d) cache () = Some ((), cache1, Inr (stateAfter b d (Some q)))"
    and "cacheSound b d cache1" by blast
  from deployment_thresholdState [OF assms(1,2) nodes(2) this(2)] obtain cache2 where
    "thresholdState (bc_heap b) (Some p) (deploymentChecker b d) cache1 () = Some ((), cache2, Inr (stateAfter b d (Some p)))" by blast
  with first stateAfter_steps [OF wf assms(3,4), of d] rule_steps_final show ?thesis by blast
qed

theorem deployment_lifecycle_witness:
  "\<exists>st cache1 st' cache2.
    thresholdState vote_heap (Some 2) (deploymentChecker vote_chain vote_deployment) Map.empty () = Some ((), cache1, Inr st) \<and>
    thresholdState vote_heap (Some 7) (deploymentChecker vote_chain vote_deployment) cache1 () = Some ((), cache2, Inr st') \<and>
    rule_step\<^sup>*\<^sup>* st st'"
proof -
  have "bc_heap vote_chain = vote_heap" "times_ok vote_deployment" "cacheSound vote_chain vote_deployment Map.empty"
    by (simp_all add: vote_chain_def times_ok_def vote_deployment_def cacheSound_def)
  moreover have "vote_heap 7 = Some (vote_node 7)" "up 5 vote_heap 7 = Some 2" by (simp_all add: vote_heap_def [of 7] vote_heap_up)
  ultimately show ?thesis using deployment_lifecycle [OF vote_chain_ok, of vote_deployment 7 "vote_node 7" 5 2 Map.empty] by auto
qed

text \<open>C16: Every deployment that ends is decided.  When the median time reaches the end time at the last block of a window, then from the
  second window after it on, and from the minimum activation height on, the evaluation answers active or failed.\<close>

theorem deployment_settles:
  assumes "chain_ok b" "times_ok d" "bc_heap b p = Some nd" "cacheSound b d cache"
    and "0 < m" "Suc (Suc m) \<le> n" "n = Suc (nodeHeight (bc_heap b) p) div windowSize b"
    and "endedAt b d (nodeAt (bc_heap b) p (m * windowSize b - 1))" "unat (MinActivationHeight d) \<le> n * windowSize b"
  shows "\<exists>cache' st. thresholdState (bc_heap b) (Some p) (deploymentChecker b d) cache () = Some ((), cache', Inr st) \<and>
    (st = ThresholdActive \<or> st = ThresholdFailed)"
proof -
  have "nodeOk (bc_heap b) (Some p)" using assms(3) by (simp add: nodeOk_def)
  from deployment_thresholdState [OF assms(1,2) this assms(4)] settled_window [OF assms(1-3,5-9)] show ?thesis by auto
qed

theorem deployment_settles_witness:
  "\<exists>cache' st. thresholdState vote_heap (Some 7) (deploymentChecker vote_chain vote_deployment) Map.empty () = Some ((), cache', Inr st) \<and>
    (st = ThresholdActive \<or> st = ThresholdFailed)"
proof -
  have at: "times_ok vote_deployment" "bc_heap vote_chain 7 = Some (vote_node 7)" "cacheSound vote_chain vote_deployment Map.empty"
    by (simp_all add: times_ok_def vote_deployment_def vote_chain_def vote_heap_def cacheSound_def)
  have w: "windowSize vote_chain = 2" by (simp add: vote_chain_def)
  have ht: "nodeHeight (bc_heap vote_chain) 7 = 7" using at(2) by (simp add: nodeHeight_def vote_node_def)
  have "nodeAt (bc_heap vote_chain) 7 (1 * windowSize vote_chain - 1) = 1"
    using vote_heap_up [of 6 7] at(2) by (simp add: w nodeAt_def vote_node_def) (simp add: vote_chain_def)
  then have ended: "endedAt vote_chain vote_deployment (nodeAt (bc_heap vote_chain) 7 (1 * windowSize vote_chain - 1))"
    using vote_median [of 1] by (simp add: endedAt_def reached_def vote_deployment_def vote_chain_def vote_heap_def vote_node_def)
  have min: "unat (MinActivationHeight vote_deployment) \<le> 4 * windowSize vote_chain" by (simp add: vote_deployment_def)
  have n: "4 = Suc (nodeHeight (bc_heap vote_chain) 7) div windowSize vote_chain" unfolding ht w by simp
  have heap: "bc_heap vote_chain = vote_heap" by (simp add: vote_chain_def)
  from deployment_settles [OF vote_chain_ok at _ _ n ended min] show ?thesis unfolding heap by simp
qed

lemma bit_expectedVersion:
  "bit (expectedVersion b prevNode ds v) k \<longleftrightarrow>
     bit v k \<or> k < 32 \<and> (\<exists>d \<in> set ds. unat (BitNumber d) = k \<and> stateAfter b d prevNode \<in> {ThresholdStarted, ThresholdLockedIn})"
  by (induction ds arbitrary: v) (auto simp: expectedVersion_def bit_simps)

text \<open>The version that a miner is told to use.  Its bits are the top bits of the scheme and, for every deployment that is
  being voted on or locked in for the block after the given one, the bit of that deployment; computing it keeps the caches right.\<close>

theorem next_block_version:
  assumes "deploymentsOk b" "nodeOk (bc_heap b) prevNode" "cachesSound b caches"
  shows "\<exists>caches' version. calcNextBlockVersion b prevNode caches = Some (caches', Inr version) \<and> cachesSound b caches' \<and>
    (\<forall>k. bit version k \<longleftrightarrow> k = 29 \<or> k < 32 \<and> (\<exists>d \<in> set (bc_Deployments b). unat (BitNumber d) = k \<and>
      stateAfter b d prevNode \<in> {ThresholdStarted, ThresholdLockedIn}))"
proof -
  have top: "bit vbTopBits k \<longleftrightarrow> k = 29" for k
  proof -
    have top: "vbTopBits = push_bit 29 1" by (simp add: vbTopBits_def)
    show ?thesis unfolding top bit_push_bit_iff bit_1_iff by (auto simp: possible_bit_def)
  qed
  from calcVersionLoop_spec [of b prevNode "bc_Deployments b" caches vbTopBits] assms show ?thesis
    by (auto simp: deploymentsOk_def cachesSound_def calcNextBlockVersion_def bit_expectedVersion top)
qed

theorem next_block_version_witness:
  "\<exists>caches' version. calcNextBlockVersion vote_chain (Some 7) [Map.empty] = Some (caches', Inr version) \<and> bit version 29"
proof -
  have ds: "bc_Deployments vote_chain = [vote_deployment]" by (simp add: vote_chain_def)
  have "times_ok vote_deployment" by (simp add: times_ok_def vote_deployment_def)
  then have "deploymentsOk vote_chain" "cachesSound vote_chain [Map.empty]"
    using vote_chain_ok by (simp_all add: deploymentsOk_def cachesSound_def cacheSound_def ds)
  moreover have "nodeOk (bc_heap vote_chain) (Some 7)" by (simp add: nodeOk_def vote_chain_def vote_heap_def)
  ultimately have "deploymentsOk vote_chain" "nodeOk (bc_heap vote_chain) (Some 7)" "cachesSound vote_chain [Map.empty]" by blast+
  from next_block_version [OF this] show ?thesis by blast
qed

end
