(* ===== verification/Treap_Common.thy ===== *)
theory Treap_Common
  imports Prelude "HOL-Library.List_Lexorder" "HOL-Library.Tree"
begin

text \<open>
  The nodes, the node pool and the parent stack of \<^verbatim>\<open>database/internal/treap/common.go\<close>, and the
  tools the proofs on both treaps share.  Nodes live in an explicit store because both treaps
  change nodes in place and compare pointers; the immutable treap also shares nodes between
  versions.  A dangling pointer or a nil dereference is the value \<open>None\<close>.
\<close>

section \<open>Byte string comparison\<close>

text \<open>\<^verbatim>\<open>bytes.Compare\<close>.\<close>

fun Compare :: "byte list \<Rightarrow> byte list \<Rightarrow> int" where
  "Compare [] [] = 0"
| "Compare [] (b # bs) = -1"
| "Compare (a # as) [] = 1"
| "Compare (a # as) (b # bs) = (if a < b then -1 else if a > b then 1 else Compare as bs)"

lemma Compare_less [simp]: "Compare a b < 0 \<longleftrightarrow> a < b"
  by (induction a b rule: Compare.induct) auto

lemma Compare_greater [simp]: "0 < Compare a b \<longleftrightarrow> b < a"
  by (induction a b rule: Compare.induct) auto

section \<open>Nodes and their pool\<close>

type_synonym nptr = nat

record treapNode =
  tn_key :: "byte list"
  tn_value :: "byte list"
  tn_priority :: int
  tn_left :: "nptr option"
  tn_right :: "nptr option"

text \<open>
  The store: the nodes by address, the recycled nodes that \<^verbatim>\<open>treapNodePool\<close> hands out again, and
  the first address never used.
\<close>

record store =
  st_cells :: "nptr \<rightharpoonup> treapNode"
  st_pool :: "nptr list"
  st_next :: nptr

definition nodeFieldsSize :: nat where
  "nodeFieldsSize = 72"

definition nodeSize :: "treapNode \<Rightarrow> uint64" where
  "nodeSize node = word_of_nat (nodeFieldsSize + (length (tn_key node) + length (tn_value node)))"

definition poolGet :: "store \<Rightarrow> nptr \<times> store" where
  "poolGet st =
     (case st_pool st of
        p # ps \<Rightarrow> (p, st\<lparr>st_pool := ps\<rparr>)
      | [] \<Rightarrow> (st_next st, st\<lparr>st_next := st_next st + 1\<rparr>))"

definition recycle :: "store \<Rightarrow> nptr \<Rightarrow> store" where
  "recycle st n =
     st\<lparr>st_cells := (st_cells st)
          (n \<mapsto> \<lparr>tn_key = [], tn_value = [], tn_priority = 0, tn_left = None, tn_right = None\<rparr>),
        st_pool := n # st_pool st\<rparr>"

definition newTreapNode :: "store \<Rightarrow> byte list \<Rightarrow> byte list \<Rightarrow> int \<Rightarrow> nptr \<times> store" where
  "newTreapNode st key val priority =
     (let (n, st) = poolGet st
      in (n, st\<lparr>st_cells := (st_cells st)
          (n \<mapsto> \<lparr>tn_key = key, tn_value = val, tn_priority = priority, tn_left = None, tn_right = None\<rparr>)\<rparr>))"

definition cloneTreapNode :: "store \<Rightarrow> treapNode \<Rightarrow> nptr \<times> store" where
  "cloneTreapNode st node =
     (let (n, st) = poolGet st in (n, st\<lparr>st_cells := (st_cells st)(n \<mapsto> node)\<rparr>))"

section \<open>The parent stack\<close>

definition staticDepth :: nat where
  "staticDepth = 128"

record parentStack =
  ps_index :: nat
  ps_items :: "nptr option list"
  ps_overflow :: "nptr option list"

definition newStack :: parentStack where
  "newStack = \<lparr>ps_index = 0, ps_items = replicate staticDepth None, ps_overflow = []\<rparr>"

definition Len :: "parentStack \<Rightarrow> nat" where
  "Len s = ps_index s"

definition At :: "parentStack \<Rightarrow> nat \<Rightarrow> nptr option" where
  "At s n =
     (if ps_index s < n + 1 then None
      else
        let index = ps_index s - n - 1 in
        if index < staticDepth then ps_items s ! index
        else ps_overflow s ! (index - staticDepth))"

definition Pop :: "parentStack \<Rightarrow> nptr option \<times> parentStack" where
  "Pop s =
     (if ps_index s = 0 then (None, s)
      else
        let index = ps_index s - 1 in
        if index < staticDepth then
          (ps_items s ! index, s\<lparr>ps_index := index, ps_items := (ps_items s)[index := None]\<rparr>)
        else
          (ps_overflow s ! (index - staticDepth),
           s\<lparr>ps_index := index, ps_overflow := (ps_overflow s)[index - staticDepth := None]\<rparr>))"

text \<open>The overflow slice is only made by \<^verbatim>\<open>Push\<close>, so its capacity is its length.\<close>

definition Push :: "parentStack \<Rightarrow> nptr \<Rightarrow> parentStack" where
  "Push s node =
     (if ps_index s < staticDepth then
        s\<lparr>ps_items := (ps_items s)[ps_index s := Some node], ps_index := ps_index s + 1\<rparr>
      else
        let index = ps_index s - staticDepth;
            overflow =
              (if index + 1 > length (ps_overflow s) then
                 ps_overflow s @ replicate (index + 1 - length (ps_overflow s)) None
               else ps_overflow s)
        in s\<lparr>ps_overflow := overflow[index := Some node], ps_index := ps_index s + 1\<rparr>)"

text \<open>The stack holds \<open>xs\<close>, topmost first.\<close>

definition stacked :: "parentStack \<Rightarrow> nptr list \<Rightarrow> bool" where
  "stacked s xs \<longleftrightarrow>
     ps_index s = length xs \<and> length (ps_items s) = staticDepth \<and>
     length xs - staticDepth \<le> length (ps_overflow s) \<and>
     (\<forall>i<length xs. (if i < staticDepth then ps_items s ! i else ps_overflow s ! (i - staticDepth)) =
        Some (rev xs ! i))"

lemma stacked_nth:
  assumes "stacked s xs" "i < length xs"
  shows "i < staticDepth \<Longrightarrow> ps_items s ! i = Some (rev xs ! i)"
    and "\<not> i < staticDepth \<Longrightarrow> ps_overflow s ! (i - staticDepth) = Some (rev xs ! i)"
  using assms by (auto simp: stacked_def dest: spec [of _ i])

lemma stacked_new: "stacked newStack []"
  by (simp add: stacked_def newStack_def)

lemma stacked_Len: "stacked s xs \<Longrightarrow> Len s = length xs"
  by (simp add: stacked_def Len_def)

lemma stacked_At: "stacked s xs \<Longrightarrow> At s n = (if n < length xs then Some (xs ! n) else None)"
  by (auto simp: stacked_def At_def Let_def rev_nth)

lemma stacked_Push:
  assumes "stacked s xs"
  shows "stacked (Push s x) (x # xs)"
proof (cases "length xs < staticDepth")
  case True
  with assms show ?thesis
    by (auto simp: stacked_def Push_def nth_append nth_list_update less_Suc_eq)
next
  case False
  let ?i = "length xs - staticDepth"
  let ?ov = "if ?i + 1 > length (ps_overflow s)
     then ps_overflow s @ replicate (?i + 1 - length (ps_overflow s)) None else ps_overflow s"
  have "(?ov[?i := Some x]) ! (j - staticDepth) = Some ((rev xs @ [x]) ! j)"
    if "j < Suc (length xs)" "\<not> j < staticDepth" for j
    using that assms False by (auto simp: stacked_def nth_append nth_list_update less_Suc_eq)
  moreover have "ps_items s ! j = Some ((rev xs @ [x]) ! j)" if "j < staticDepth" for j
  proof -
    have "j < length xs" using that False by simp
    then show ?thesis using that stacked_nth(1) [OF assms] by (simp add: nth_append)
  qed
  ultimately show ?thesis
    using assms False by (auto simp: stacked_def Push_def Let_def)
qed

lemma stacked_Pop:
  assumes "stacked s (x # xs)"
  shows "\<exists>s'. Pop s = (Some x, s') \<and> stacked s' xs"
proof -
  have len: "ps_index s = Suc (length xs)" "length (ps_items s) = staticDepth"
    "Suc (length xs) - staticDepth \<le> length (ps_overflow s)"
    using assms by (auto simp: stacked_def)
  have old: "rev (x # xs) ! i = rev xs ! i" if "i < length xs" for i
    using that by (simp add: nth_append)
  have top: "rev (x # xs) ! length xs = x" by (simp add: nth_append)
  show ?thesis
  proof (cases "length xs < staticDepth")
    case True
    then show ?thesis
      using len stacked_nth [OF assms] old top by (auto simp: stacked_def Pop_def Let_def)
  next
    case False
    have "ps_items s ! i = Some (rev xs ! i)" if "i < staticDepth" for i
      using stacked_nth(1) [OF assms, of i] that False old [of i] by simp
    with False show ?thesis
      using len stacked_nth(2) [OF assms] old top by (auto simp: stacked_def Pop_def Let_def nth_list_update)
  qed
qed

lemmas stack_simps = stacked_new stacked_Len stacked_At stacked_Push

section \<open>Fresh addresses\<close>

text \<open>An address is live if it was handed out and not recycled since.\<close>

definition live :: "store \<Rightarrow> nptr \<Rightarrow> bool" where
  "live st a \<longleftrightarrow> a < st_next st \<and> a \<notin> set (st_pool st)"

definition wf_store :: "store \<Rightarrow> bool" where
  "wf_store st \<longleftrightarrow> distinct (st_pool st) \<and> (\<forall>a\<in>set (st_pool st). a < st_next st)"

lemma live_cells [simp]: "live (st\<lparr>st_cells := c\<rparr>) = live st" "wf_store (st\<lparr>st_cells := c\<rparr>) = wf_store st"
  by (auto simp: live_def wf_store_def)

lemma poolGet_fresh:
  assumes "wf_store st" "poolGet st = (p, st')"
  shows "\<not> live st p" "live st' a \<longleftrightarrow> live st a \<or> a = p" "wf_store st'" "st_cells st' = st_cells st"
  using assms by (auto simp: poolGet_def live_def wf_store_def split: list.splits)

lemma cloneTreapNode_fresh:
  assumes "wf_store st" "cloneTreapNode st nd = (p, st')"
  shows "\<not> live st p" "live st' a \<longleftrightarrow> live st a \<or> a = p" "wf_store st'"
    "st_cells st' = (st_cells st)(p \<mapsto> nd)"
proof -
  obtain st1 where g: "poolGet st = (p, st1)" and st': "st' = st1\<lparr>st_cells := (st_cells st1)(p \<mapsto> nd)\<rparr>"
    using assms(2) by (auto simp: cloneTreapNode_def split: prod.splits)
  note f = poolGet_fresh [OF assms(1) g]
  show "\<not> live st p" "live st' a \<longleftrightarrow> live st a \<or> a = p" "wf_store st'"
    "st_cells st' = (st_cells st)(p \<mapsto> nd)"
    using f by (simp_all add: st')
qed

lemma newTreapNode_clone:
  "newTreapNode st k v pr =
     cloneTreapNode st \<lparr>tn_key = k, tn_value = v, tn_priority = pr, tn_left = None, tn_right = None\<rparr>"
  by (simp add: newTreapNode_def cloneTreapNode_def)

section \<open>Trees in the store\<close>

text \<open>A tree whose nodes carry their address, key, value and priority.\<close>

type_synonym entry = "nptr \<times> byte list \<times> byte list \<times> int"
type_synonym atree = "entry tree"

fun addr :: "atree \<Rightarrow> nptr option" where
  "addr Leaf = None"
| "addr (Node l (a, k, v, pr) r) = Some a"

definition cell :: "entry \<Rightarrow> nptr option \<Rightarrow> nptr option \<Rightarrow> treapNode" where
  "cell x pl pr =
     (case x of (a, k, v, p) \<Rightarrow>
        \<lparr>tn_key = k, tn_value = v, tn_priority = p, tn_left = pl, tn_right = pr\<rparr>)"

text \<open>The cells hold the tree.\<close>

fun holds :: "(nptr \<rightharpoonup> treapNode) \<Rightarrow> atree \<Rightarrow> bool" where
  "holds c Leaf = True"
| "holds c (Node l x r) = (c (fst x) = Some (cell x (addr l) (addr r)) \<and> holds c l \<and> holds c r)"

abbreviation addrs :: "atree \<Rightarrow> nptr set" where
  "addrs t \<equiv> fst ` set_tree t"

definition separate :: "atree \<Rightarrow> bool" where
  "separate t \<longleftrightarrow> distinct (map fst (inorder t))"

definition entries :: "atree \<Rightarrow> (byte list \<times> byte list) list" where
  "entries t = map (\<lambda>(a, k, v, p). (k, v)) (inorder t)"

lemma addr_Node [simp]: "addr (Node l x r) = Some (fst x)"
  by (cases x) simp

lemma addr_eq_None [simp]: "addr t = None \<longleftrightarrow> t = Leaf" "None = addr t \<longleftrightarrow> t = Leaf"
  by (cases t; simp)+

lemma addr_SomeD: "addr t = Some a \<Longrightarrow> \<exists>l x r. t = Node l x r \<and> fst x = a"
  by (cases t) auto

lemma addr_in_addrs: "addr t = Some a \<Longrightarrow> a \<in> addrs t"
  by (cases t) auto

lemma holds_frame: "(\<And>a. a \<in> addrs t \<Longrightarrow> c' a = c a) \<Longrightarrow> holds c' t = holds c t"
  by (induction t) auto

lemma holds_upd [simp]: "a \<notin> addrs t \<Longrightarrow> holds (c(a \<mapsto> nd)) t = holds c t"
  by (rule holds_frame) auto

lemma separate_Node:
  "separate (Node l x r) \<longleftrightarrow> separate l \<and> separate r \<and> fst x \<notin> addrs l \<and> fst x \<notin> addrs r \<and>
     addrs l \<inter> addrs r = {}"
  by (auto simp: separate_def)

lemma separate_Leaf [simp]: "separate Leaf"
  by (simp add: separate_def)

lemma cell_simps [simp]:
  "tn_key (cell (a, k, v, p) l r) = k" "tn_value (cell (a, k, v, p) l r) = v"
  "tn_priority (cell (a, k, v, p) l r) = p"
  "tn_left (cell x l r) = l" "tn_right (cell x l r) = r"
  "(cell x l r)\<lparr>tn_left := l'\<rparr> = cell x l' r" "(cell x l r)\<lparr>tn_right := r'\<rparr> = cell x l r'"
  by (simp_all add: cell_def split: prod.splits)

section \<open>Contexts\<close>

text \<open>
  A context is the path from a subtree up to the root: for each node on it the side the path
  comes from and the subtree on the other side.
\<close>

datatype frame =
    InLeft entry atree   \<comment> \<open>the hole is the left child; the right subtree\<close>
  | InRight entry atree  \<comment> \<open>the hole is the right child; the left subtree\<close>

fun frame_entry :: "frame \<Rightarrow> entry" where
  "frame_entry (InLeft x t) = x"
| "frame_entry (InRight x t) = x"

fun frame_other :: "frame \<Rightarrow> atree" where
  "frame_other (InLeft x t) = t"
| "frame_other (InRight x t) = t"

fun in_left :: "frame \<Rightarrow> bool" where
  "in_left (InLeft x t) = True"
| "in_left (InRight x t) = False"

abbreviation frame_addr :: "frame \<Rightarrow> nptr" where
  "frame_addr f \<equiv> fst (frame_entry f)"

fun plug1 :: "frame \<Rightarrow> atree \<Rightarrow> atree" where
  "plug1 (InLeft x r) t = Node t x r"
| "plug1 (InRight x l) t = Node l x t"

fun plug :: "frame list \<Rightarrow> atree \<Rightarrow> atree" where
  "plug [] t = t"
| "plug (f # fs) t = plug fs (plug1 f t)"

fun frame_cell :: "frame \<Rightarrow> nptr option \<Rightarrow> treapNode" where
  "frame_cell (InLeft x r) p = cell x p (addr r)"
| "frame_cell (InRight x l) p = cell x (addr l) p"

text \<open>The cells hold the context around a hole with address \<open>p\<close>.\<close>

fun holds_ctx :: "(nptr \<rightharpoonup> treapNode) \<Rightarrow> frame list \<Rightarrow> nptr option \<Rightarrow> bool" where
  "holds_ctx c [] p = True"
| "holds_ctx c (f # fs) p =
     (c (frame_addr f) = Some (frame_cell f p) \<and> holds c (frame_other f) \<and>
      holds_ctx c fs (Some (frame_addr f)))"

definition ctx_addrs :: "frame list \<Rightarrow> nptr set" where
  "ctx_addrs fs = (\<Union>f\<in>set fs. insert (frame_addr f) (addrs (frame_other f)))"

fun left_of :: "frame list \<Rightarrow> entry list" where
  "left_of [] = []"
| "left_of (InLeft x r # fs) = left_of fs"
| "left_of (InRight x l # fs) = left_of fs @ inorder l @ [x]"

fun right_of :: "frame list \<Rightarrow> entry list" where
  "right_of [] = []"
| "right_of (InLeft x r # fs) = x # inorder r @ right_of fs"
| "right_of (InRight x l # fs) = right_of fs"

lemma plug1_entry: "frame_entry f \<in> set_tree (plug1 f t)"
  by (cases f) auto

lemma addr_plug1 [simp]: "addr (plug1 f t) = Some (frame_addr f)"
  by (cases f) auto

lemma ctx_addrs_simps [simp]:
  "ctx_addrs [] = {}"
  "ctx_addrs (f # fs) = insert (frame_addr f) (addrs (frame_other f) \<union> ctx_addrs fs)"
  by (auto simp: ctx_addrs_def)

lemma addrs_plug1: "addrs (plug1 f t) = insert (frame_addr f) (addrs (frame_other f) \<union> addrs t)"
  by (cases f) auto

lemma addrs_plug: "addrs (plug fs t) = addrs t \<union> ctx_addrs fs"
  by (induction fs arbitrary: t) (auto simp: addrs_plug1)

lemma holds_plug1:
  "holds c (plug1 f t) \<longleftrightarrow>
     c (frame_addr f) = Some (frame_cell f (addr t)) \<and> holds c (frame_other f) \<and> holds c t"
  by (cases f) auto

lemma holds_plug: "holds c (plug fs t) \<longleftrightarrow> holds c t \<and> holds_ctx c fs (addr t)"
  by (induction fs arbitrary: t) (auto simp: holds_plug1)

lemma inorder_plug: "inorder (plug fs t) = left_of fs @ inorder t @ right_of fs"
proof (induction fs arbitrary: t)
  case (Cons f fs)
  then show ?case by (cases f) auto
qed simp

lemma ctx_addrs_eq: "ctx_addrs fs = fst ` set (left_of fs) \<union> fst ` set (right_of fs)"
proof (induction fs)
  case (Cons f fs)
  then show ?case by (cases f) auto
qed simp

abbreviation path_addrs :: "frame list \<Rightarrow> nptr set" where
  "path_addrs fs \<equiv> frame_addr ` set fs"

lemma path_in_ctx: "a \<in> path_addrs fs \<Longrightarrow> a \<in> ctx_addrs fs"
  by (auto simp: ctx_addrs_def)

lemma ctx_addrs_append: "ctx_addrs fs = set (map fst (left_of fs @ right_of fs))"
  by (auto simp: ctx_addrs_eq)

lemma separate_plug:
  "separate (plug fs t) \<longleftrightarrow> distinct (map fst (left_of fs @ inorder t @ right_of fs))"
  by (simp add: separate_def inorder_plug)

definition separate_ctx :: "frame list \<Rightarrow> bool" where
  "separate_ctx fs \<longleftrightarrow> distinct (map fst (left_of fs @ right_of fs))"

lemma separate_plug_iff:
  "separate (plug fs t) \<longleftrightarrow> separate t \<and> separate_ctx fs \<and> addrs t \<inter> ctx_addrs fs = {}"
  unfolding separate_def separate_ctx_def ctx_addrs_eq inorder_plug by simp blast

lemma separate_plug1_iff:
  "separate (plug1 f t) \<longleftrightarrow> separate t \<and> separate (frame_other f) \<and> frame_addr f \<notin> addrs t \<and>
     frame_addr f \<notin> addrs (frame_other f) \<and> addrs t \<inter> addrs (frame_other f) = {}"
  by (cases f) (auto simp: separate_Node)

lemma separate_ctx_Nil [simp]: "separate_ctx []"
  by (simp add: separate_ctx_def)

lemma separate_ctx_Cons:
  "separate_ctx (f # fs) \<longleftrightarrow> separate_ctx fs \<and> separate (frame_other f) \<and>
     frame_addr f \<notin> addrs (frame_other f) \<and> frame_addr f \<notin> ctx_addrs fs \<and>
     addrs (frame_other f) \<inter> ctx_addrs fs = {}"
proof -
  have "separate_ctx (f # fs) \<longleftrightarrow> separate (plug (f # fs) Leaf)"
    by (simp only: separate_plug_iff) simp
  also have "\<dots> \<longleftrightarrow> separate (plug fs (plug1 f Leaf))" by simp
  also have "\<dots> \<longleftrightarrow> separate (plug1 f Leaf) \<and> separate_ctx fs \<and> addrs (plug1 f Leaf) \<inter> ctx_addrs fs = {}"
    by (rule separate_plug_iff)
  finally show ?thesis by (simp add: separate_plug1_iff addrs_plug1) blast
qed

lemma holds_ctx_frame:
  "(\<And>a. a \<in> ctx_addrs fs \<Longrightarrow> c' a = c a) \<Longrightarrow> holds_ctx c' fs p = holds_ctx c fs p"
proof (induction fs arbitrary: p)
  case (Cons f fs)
  have "holds c' (frame_other f) = holds c (frame_other f)"
    by (rule holds_frame) (use Cons.prems in simp)
  with Cons show ?case by simp
qed simp

lemma holds_ctx_upd [simp]: "a \<notin> ctx_addrs fs \<Longrightarrow> holds_ctx (c(a \<mapsto> nd)) fs p = holds_ctx c fs p"
  by (rule holds_ctx_frame) auto

section \<open>Search order\<close>

definition ekey :: "entry \<Rightarrow> byte list" where
  "ekey x = fst (snd x)"

definition eprio :: "entry \<Rightarrow> int" where
  "eprio x = snd (snd (snd x))"

lemma ekey_eprio [simp]: "ekey (a, k, v, p) = k" "eprio (a, k, v, p) = p"
  by (simp_all add: ekey_def eprio_def)

lemma tn_priority_cell [simp]: "tn_priority (cell x l r) = eprio x" "tn_key (cell x l r) = ekey x"
  by (cases x; simp)+

abbreviation ordered :: "entry list \<Rightarrow> bool" where
  "ordered xs \<equiv> sorted_wrt (<) (map ekey xs)"

text \<open>The search for a key, with the context of the place it ends in.\<close>

fun descend :: "byte list \<Rightarrow> atree \<Rightarrow> frame list \<Rightarrow> frame list \<times> atree" where
  "descend key Leaf fs = (fs, Leaf)"
| "descend key (Node l x r) fs =
     (if key < ekey x then descend key l (InLeft x r # fs)
      else if ekey x < key then descend key r (InRight x l # fs)
      else (fs, Node l x r))"

lemma descend_plug: "descend key t fs = (fs', t') \<Longrightarrow> plug fs' t' = plug fs t"
  by (induction key t fs rule: descend.induct) (auto split: if_splits)

lemma descend_end: "descend key t fs = (fs', t') \<Longrightarrow> t' = Leaf \<or> (\<exists>l x r. t' = Node l x r \<and> ekey x = key)"
  by (induction key t fs rule: descend.induct) (auto split: if_splits)

lemma descend_subtree:
  "ordered (inorder t) \<Longrightarrow> Node l x r \<in> subtrees t \<Longrightarrow> \<exists>fs'. descend (ekey x) t fs = (fs', Node l x r)"
proof (induction t arbitrary: fs)
  case (Node tl y tr)
  have o: "ordered (inorder tl)" "ordered (inorder tr)" "\<forall>z\<in>set_tree tl. ekey z < ekey y" "\<forall>z\<in>set_tree tr. ekey y < ekey z"
    using Node.prems(1) by (auto simp: sorted_wrt_append)
  from Node.prems(2) consider "Node l x r = Node tl y tr" | "Node l x r \<in> subtrees tl" | "Node l x r \<in> subtrees tr" by auto
  then show ?case
  proof cases
    case 2
    have "ekey x < ekey y" by (rule bspec [OF o(3) in_set_tree_if [OF 2]])
    with Node.IH(1) [OF o(1) 2] show ?thesis by simp
  next
    case 3
    have "ekey y < ekey x" by (rule bspec [OF o(4) in_set_tree_if [OF 3]])
    then have "\<not> ekey x < ekey y" by (rule less_not_sym)
    with \<open>ekey y < ekey x\<close> Node.IH(2) [OF o(2) 3] show ?thesis by simp
  qed simp
qed simp

lemma descend_sides:
  assumes "descend key t fs = (fs', t')" "ordered (inorder t)"
    and "\<forall>x\<in>set (left_of fs). ekey x < key" "\<forall>x\<in>set (right_of fs). key < ekey x"
  shows "(\<forall>x\<in>set (left_of fs'). ekey x < key) \<and> (\<forall>x\<in>set (right_of fs'). key < ekey x)"
  using assms
proof (induction key t fs rule: descend.induct)
  case (2 key l x r fs)
  have o: "ordered (inorder l)" "ordered (inorder r)" "\<forall>y\<in>set (inorder l). ekey y < ekey x"
    "\<forall>y\<in>set (inorder r). ekey x < ekey y"
    using "2.prems"(2) by (auto simp: sorted_wrt_append)
  consider "key < ekey x" | "ekey x < key" "\<not> key < ekey x" | "\<not> ekey x < key" "\<not> key < ekey x" by blast
  then show ?case
  proof cases
    case lt: 1
    have "\<forall>y\<in>set (right_of (InLeft x r # fs)). key < ekey y" using lt o(4) "2.prems"(4) by fastforce
    with lt "2.IH"(1) [OF lt] "2.prems"(1,3) o(1) show ?thesis by simp
  next
    case gt: 2
    have "\<forall>y\<in>set (left_of (InRight x l # fs)). ekey y < key" using gt(1) o(3) "2.prems"(3) by fastforce
    with gt "2.IH"(2) [OF gt(2,1)] "2.prems"(1,4) o(2) show ?thesis by simp
  next
    case 3
    with "2.prems" show ?thesis by simp
  qed
qed simp

section \<open>Heap order\<close>

fun heap_ctx :: "frame list \<Rightarrow> int set \<Rightarrow> bool" where
  "heap_ctx [] S = True"
| "heap_ctx (f # fs) S =
     ((\<forall>p\<in>S. eprio (frame_entry f) \<le> p) \<and>
      (\<forall>x\<in>set_tree (frame_other f). eprio (frame_entry f) \<le> eprio x) \<and>
      heap (map_tree eprio (frame_other f)) \<and>
      heap_ctx fs (insert (eprio (frame_entry f)) (S \<union> eprio ` set_tree (frame_other f))))"

lemma heap_plug:
  "heap (map_tree eprio (plug fs t)) \<longleftrightarrow> heap (map_tree eprio t) \<and> heap_ctx fs (eprio ` set_tree t)"
proof (induction fs arbitrary: t)
  case (Cons f fs)
  have "eprio ` set_tree (plug1 f t) =
      insert (eprio (frame_entry f)) (eprio ` set_tree t \<union> eprio ` set_tree (frame_other f))"
    by (cases f) auto
  moreover have "heap (map_tree eprio (plug1 f t)) \<longleftrightarrow> heap (map_tree eprio t) \<and>
      (\<forall>x\<in>set_tree t. eprio (frame_entry f) \<le> eprio x) \<and>
      (\<forall>x\<in>set_tree (frame_other f). eprio (frame_entry f) \<le> eprio x) \<and> heap (map_tree eprio (frame_other f))"
    by (cases f) (auto simp: tree.set_map)
  ultimately show ?case by (auto simp: Cons.IH)
qed simp

lemma heap_ctx_mono: "heap_ctx fs S \<Longrightarrow> S' \<subseteq> S \<Longrightarrow> heap_ctx fs S'"
proof (induction fs arbitrary: S S')
  case (Cons f fs)
  have "insert (eprio (frame_entry f)) (S' \<union> eprio ` set_tree (frame_other f)) \<subseteq>
      insert (eprio (frame_entry f)) (S \<union> eprio ` set_tree (frame_other f))" using Cons.prems by blast
  with Cons show ?case by auto
qed simp

lemma heap_ctx_above:
  "heap_ctx fs S \<Longrightarrow> p \<in> S \<Longrightarrow> \<forall>q\<in>S'. p \<le> q \<Longrightarrow> heap_ctx fs (S \<union> S')"
proof (induction fs arbitrary: S)
  case (Cons f fs)
  let ?S = "insert (eprio (frame_entry f)) (S \<union> eprio ` set_tree (frame_other f))"
  have "heap_ctx fs (?S \<union> S')" using Cons.IH [of ?S] Cons.prems by simp
  moreover have "insert (eprio (frame_entry f)) (S \<union> S' \<union> eprio ` set_tree (frame_other f)) = ?S \<union> S'" by blast
  moreover have "\<forall>q\<in>S'. eprio (frame_entry f) \<le> q" using Cons.prems by force
  ultimately show ?case using Cons.prems by auto
qed simp

text \<open>Rotating a subtree up while its priority is below that of its parent.\<close>

fun up :: "frame list \<Rightarrow> atree \<Rightarrow> entry \<Rightarrow> atree \<Rightarrow> atree" where
  "up [] l x r = Node l x r"
| "up (f # fs) l x r =
     (if eprio x \<ge> eprio (frame_entry f) then plug (f # fs) (Node l x r)
      else (case f of
              InLeft y s \<Rightarrow> up fs l x (Node r y s)
            | InRight y s \<Rightarrow> up fs (Node s y l) x r))"

lemma up_step:
  "\<not> eprio x \<ge> eprio (frame_entry f) \<Longrightarrow>
     up (f # fs) l x r =
       up fs (if in_left f then l else Node (frame_other f) (frame_entry f) l) x
         (if in_left f then Node r (frame_entry f) (frame_other f) else r)"
  by (cases f) simp_all

lemma inorder_up: "inorder (up fs l x r) = left_of fs @ inorder l @ [x] @ inorder r @ right_of fs"
  by (induction fs l x r rule: up.induct) (auto simp: inorder_plug split: frame.splits)

lemma heap_up:
  assumes "heap (map_tree eprio (Node l x r))" "heap (map_tree eprio (plug fs l))" "heap (map_tree eprio (plug fs r))"
  shows "heap (map_tree eprio (up fs l x r))"
  using assms
proof (induction fs l x r rule: up.induct)
  case (2 f fs l x r)
  let ?p = "eprio (frame_entry f)" and ?o = "eprio ` set_tree (frame_other f)"
  have ctx: "heap_ctx fs (insert ?p (eprio ` set_tree t \<union> ?o))" "\<forall>x\<in>set_tree t. ?p \<le> eprio x"
    "\<forall>x\<in>set_tree (frame_other f). ?p \<le> eprio x" "heap (map_tree eprio (frame_other f))"
    if "t = l \<or> t = r" for t
    using that "2.prems"(2,3) by (auto simp only: heap_plug heap_ctx.simps ball_simps)
  show ?case
  proof (cases "eprio x \<ge> ?p")
    case True
    have "heap_ctx fs (insert ?p (eprio ` set_tree l \<union> ?o) \<union> eprio ` set_tree (Node l x r))"
      using ctx True by (intro heap_ctx_above [where p = ?p]) auto
    then have "heap_ctx (f # fs) (eprio ` set_tree (Node l x r))"
      using ctx(2-4) [of l] ctx(2) [of r] True by (auto elim!: heap_ctx_mono)
    with "2.prems"(1) True show ?thesis by (simp only: up.simps heap_plug if_True)
  next
    case False
    have mono: "heap (map_tree eprio (plug fs t'))" if "heap (map_tree eprio t')" "t' = l \<or> t' = r" for t'
      using that ctx(1) [of t'] by (auto simp: heap_plug elim: heap_ctx_mono)
    have h: "heap (map_tree eprio l)" "heap (map_tree eprio r)"
      "\<forall>z\<in>set_tree l \<union> set_tree r. eprio x \<le> eprio z"
      using "2.prems"(1) by (auto simp: tree.set_map)
    show ?thesis
    proof (cases f)
      case (InLeft y s)
      have "heap (map_tree eprio (Node l x (Node r y s)))"
        using h False ctx(2-4) [of r] InLeft by (auto simp: tree.set_map)
      moreover have "heap (map_tree eprio (plug fs (Node r y s)))" using "2.prems"(3) InLeft by simp
      ultimately show ?thesis using "2.IH"(1) [OF False InLeft] mono [OF h(1)] InLeft False by simp
    next
      case (InRight y s)
      have "heap (map_tree eprio (Node (Node s y l) x r))"
        using h False ctx(2-4) [of l] InRight by (auto simp: tree.set_map)
      moreover have "heap (map_tree eprio (plug fs (Node s y l)))" using "2.prems"(2) InRight by simp
      ultimately show ?thesis using "2.IH"(2) [OF False InRight] mono [OF h(2)] InRight False by simp
    qed
  qed
qed simp

section \<open>Sorted association lists\<close>

text \<open>What a treap stands for: its keys and values in ascending order of the keys.\<close>

fun insert_kv :: "'k :: linorder \<Rightarrow> 'v \<Rightarrow> ('k \<times> 'v) list \<Rightarrow> ('k \<times> 'v) list" where
  "insert_kv k v [] = [(k, v)]"
| "insert_kv k v ((a, b) # xs) =
     (if k < a then (k, v) # (a, b) # xs
      else if a < k then (a, b) # insert_kv k v xs
      else (k, v) # xs)"

definition delete_kv :: "'k \<Rightarrow> ('k \<times> 'v) list \<Rightarrow> ('k \<times> 'v) list" where
  "delete_kv k xs = filter (\<lambda>(a, b). a \<noteq> k) xs"

abbreviation sorted_kv :: "('k :: linorder \<times> 'v) list \<Rightarrow> bool" where
  "sorted_kv xs \<equiv> sorted_wrt (<) (map fst xs)"

lemma insert_kv_new:
  "\<forall>x\<in>set xs. fst x < k \<Longrightarrow> \<forall>y\<in>set ys. k < fst y \<Longrightarrow> insert_kv k v (xs @ ys) = xs @ (k, v) # ys"
proof (induction xs)
  case Nil
  then show ?case by (cases ys) auto
next
  case (Cons a xs)
  then show ?case by (cases a) auto
qed

lemma insert_kv_old:
  "\<forall>x\<in>set xs. fst x < k \<Longrightarrow> insert_kv k v (xs @ (k, w) # ys) = xs @ (k, v) # ys"
proof (induction xs)
  case (Cons a xs)
  then show ?case by (cases a) auto
qed simp

lemma map_of_insert_kv: "map_of (insert_kv k v xs) = (map_of xs)(k \<mapsto> v)"
  by (induction k v xs rule: insert_kv.induct) (auto simp: fun_eq_iff)

lemma set_keys_insert_kv: "fst ` set (insert_kv k v xs) = insert k (fst ` set xs)"
  by (induction k v xs rule: insert_kv.induct) auto

lemma sorted_insert_kv: "sorted_kv xs \<Longrightarrow> sorted_kv (insert_kv k v xs)"
proof (induction k v xs rule: insert_kv.induct)
  case (2 k v a b xs)
  then show ?case using set_keys_insert_kv [of k v xs] by force
qed simp

lemma map_of_delete_kv: "map_of (delete_kv k xs) = (map_of xs)(k := None)"
  by (induction xs) (auto simp: delete_kv_def fun_eq_iff)

lemma sorted_delete_kv: "sorted_kv xs \<Longrightarrow> sorted_kv (delete_kv k xs)"
  by (induction xs) (auto simp: delete_kv_def)

lemma delete_kv_absent: "\<forall>x\<in>set xs. fst x \<noteq> k \<Longrightarrow> delete_kv k xs = xs"
  by (auto simp: delete_kv_def intro!: filter_True)

lemma delete_kv_mid:
  fixes k :: "'k :: linorder"
  assumes "\<forall>x\<in>set xs. fst x < k" "\<forall>y\<in>set ys. k < fst y"
  shows "delete_kv k (xs @ (k, v) # ys) = xs @ ys"
proof -
  have "delete_kv k xs = xs" "delete_kv k ys = ys"
    using assms by (auto intro!: delete_kv_absent)
  then show ?thesis by (simp add: delete_kv_def)
qed

lemma map_of_mid:
  "\<forall>x\<in>set xs. fst x < (k :: 'k :: linorder) \<Longrightarrow> map_of (xs @ (k, v) # ys) k = Some v"
  by (induction xs) auto

section \<open>Trees and their contents\<close>

definition ekv :: "entry \<Rightarrow> byte list \<times> byte list" where
  "ekv x = (ekey x, fst (snd (snd x)))"

definition esize :: "entry \<Rightarrow> nat" where
  "esize x = nodeFieldsSize + (length (ekey x) + length (fst (snd (snd x))))"

definition tsize :: "atree \<Rightarrow> nat" where
  "tsize t = sum_list (map esize (inorder t))"

lemma entries_ekv: "entries t = map ekv (inorder t)"
  by (auto simp: entries_def ekv_def ekey_def)

lemma fst_ekv [simp]: "fst (ekv x) = ekey x"
  by (simp add: ekv_def)

lemma nodeSize_cell: "nodeSize (cell x l r) = word_of_nat (esize x)"
  by (cases x) (simp add: nodeSize_def esize_def cell_def)

lemma ordered_sorted_kv: "sorted_kv (map ekv xs) = ordered xs"
  by (simp add: comp_def)

section \<open>Treaps\<close>

text \<open>The struct that \<^verbatim>\<open>Mutable\<close> and \<^verbatim>\<open>Immutable\<close> share field by field.\<close>

record Treap =
  tr_root :: "nptr option"
  tr_count :: int
  tr_totalSize :: uint64

text \<open>The treap stands for a search tree of live nodes, with its count and size.\<close>

definition represents :: "store \<Rightarrow> Treap \<Rightarrow> atree \<Rightarrow> bool" where
  "represents st t T \<longleftrightarrow>
     wf_store st \<and> tr_root t = addr T \<and> holds (st_cells st) T \<and> separate T \<and> (\<forall>a\<in>addrs T. live st a) \<and>
     ordered (inorder T) \<and> tr_count t = int (size T) \<and> tr_totalSize t = word_of_nat (tsize T)"

lemma representsD:
  assumes "represents st t T"
  shows "wf_store st" "tr_root t = addr T" "holds (st_cells st) T" "separate T" "\<And>a. a \<in> addrs T \<Longrightarrow> live st a"
    "ordered (inorder T)" "tr_count t = int (size T)" "tr_totalSize t = word_of_nat (tsize T)"
  using assms by (auto simp: represents_def)

lemma represents_live: "represents st t T \<Longrightarrow> inorder T = xs \<Longrightarrow> \<forall>z\<in>set xs. live st (fst z)"
  by (auto simp: represents_def)

lemma descend_split:
  assumes "represents st t T" "descend key T [] = (fs, t')"
  shows "T = plug fs t'" "\<forall>x\<in>set (left_of fs). ekey x < key" "\<forall>x\<in>set (right_of fs). key < ekey x"
  using descend_plug [OF assms(2)] descend_sides [OF assms(2) representsD(6) [OF assms(1)]] by auto

text \<open>The addresses of a list of entries determine everything but the shape.\<close>

lemma addrs_inorder: "addrs t = set (map fst (inorder t))"
  by (metis image_set set_inorder)

lemma represents_sized:
  assumes "wf_store st" "tr_root t = addr T" "holds (st_cells st) T" "inorder T = xs"
    and "distinct (map fst xs)" "\<forall>x\<in>set xs. live st (fst x)" "ordered xs"
    and "tr_count t = int (length xs)" "tr_totalSize t = word_of_nat (sum_list (map esize xs))"
  shows "represents st t T"
  using assms unfolding represents_def separate_def tsize_def addrs_inorder by (auto simp flip: length_inorder)

text \<open>Copying nodes changes addresses only.\<close>

lemma same_data:
  assumes "map snd xs' = map snd xs"
  shows "map ekv xs' = map ekv xs" "map ekey xs' = map ekey xs" "map esize xs' = map esize xs"
    "length xs' = length xs" "ekey ` set xs' = ekey ` set xs"
proof -
  have f: "ekv = (\<lambda>y. (fst y, fst (snd y))) \<circ> snd" "ekey = fst \<circ> snd"
    "esize = (\<lambda>y. nodeFieldsSize + (length (fst y) + length (fst (snd y)))) \<circ> snd"
    by (auto simp: ekv_def ekey_def esize_def)
  show e: "map ekv xs' = map ekv xs" "map ekey xs' = map ekey xs" "map esize xs' = map esize xs"
    unfolding f map_map [symmetric] assms by (rule refl)+
  show "length xs' = length xs" using assms map_eq_imp_length_eq by blast
  show "ekey ` set xs' = ekey ` set xs" using arg_cong [OF e(2), of set] by simp
qed

lemma represents_insert:
  assumes rep: "represents st t T" "inorder T = L @ R" "\<forall>y\<in>set L. ekey y < key" "\<forall>y\<in>set R. key < ekey y"
    and T': "inorder T' = L' @ x # R'" "map snd L' = map snd L" "map snd R' = map snd R" "snd x = (key, v, pr)"
    and st': "wf_store st'" "holds (st_cells st') T'" "distinct (map fst (L' @ x # R'))"
      "\<forall>y\<in>set (L' @ x # R'). live st' (fst y)"
    and t': "t' = \<lparr>tr_root = addr T', tr_count = tr_count t + 1, tr_totalSize = tr_totalSize t + word_of_nat (esize x)\<rparr>"
  shows "represents st' t' T' \<and> entries T' = insert_kv key v (entries T)"
proof
  note r = representsD [OF rep(1)] and L = same_data [OF T'(2)] and R = same_data [OF T'(3)]
  have x: "ekey x = key" "ekv x = (key, v)" using T'(4) by (simp_all add: ekey_def ekv_def)
  have "ordered (L' @ x # R')"
    using r(6) rep(2-4) x by (simp add: sorted_wrt_append L R)
  moreover have "size T = length L + length R" using arg_cong [OF rep(2), of length] by simp
  ultimately show "represents st' t' T'"
    using r(7,8) st' t' L R
    by (intro represents_sized [OF st'(1) _ st'(2) T'(1)]) (simp_all add: tsize_def rep(2))
  show "entries T' = insert_kv key v (entries T)"
    using rep(3,4) x by (simp add: entries_ekv rep(2) T'(1) L R insert_kv_new)
qed

lemma represents_update:
  assumes rep: "represents st t T" "inorder T = L @ y # R" "\<forall>z\<in>set L. ekey z < key" "ekey y = key"
    and T': "inorder T' = L' @ x # R'" "map snd L' = map snd L" "map snd R' = map snd R" "snd x = (key, v, pr)"
    and st': "wf_store st'" "holds (st_cells st') T'" "distinct (map fst (L' @ x # R'))"
      "\<forall>z\<in>set (L' @ x # R'). live st' (fst z)"
    and t': "t' = \<lparr>tr_root = addr T', tr_count = tr_count t,
      tr_totalSize = tr_totalSize t - word_of_nat (length (snd (ekv y))) + word_of_nat (length v)\<rparr>"
  shows "represents st' t' T' \<and> entries T' = insert_kv key v (entries T)"
proof
  note r = representsD [OF rep(1)] and L = same_data [OF T'(2)] and R = same_data [OF T'(3)]
  have x: "ekey x = key" "ekv x = (key, v)" "esize x = nodeFieldsSize + (length key + length v)"
    "ekv y = (key, snd (ekv y))" "esize y = nodeFieldsSize + (length key + length (snd (ekv y)))"
    using T'(4) rep(4) by (simp_all add: ekey_def ekv_def esize_def)
  have "ordered (L' @ x # R')"
    using r(6) rep(2-4) x(1) by (simp add: sorted_wrt_append L R)
  moreover have "size T = Suc (length L + length R)" using arg_cong [OF rep(2), of length] by simp
  ultimately show "represents st' t' T'"
    using r(7,8) st' t' L R x(3,5)
    by (intro represents_sized [OF st'(1) _ st'(2) T'(1)]) (simp_all add: tsize_def rep(2))
  show "entries T' = insert_kv key v (entries T)"
    using insert_kv_old [of "map ekv L" key v "snd (ekv y)" "map ekv R"] rep(3) x(2,4)
    by (simp add: entries_ekv rep(2) T'(1) L R)
qed

lemma represents_delete:
  assumes rep: "represents st t T" "inorder T = L @ y # R" "ekey y = key"
    and T': "inorder T' = xs" "map snd xs = map snd (L @ R)"
    and st': "wf_store st'" "holds (st_cells st') T'" "distinct (map fst xs)" "\<forall>z\<in>set xs. live st' (fst z)"
    and t': "t' = \<lparr>tr_root = addr T', tr_count = tr_count t - 1, tr_totalSize = tr_totalSize t - word_of_nat (esize y)\<rparr>"
  shows "represents st' t' T' \<and> entries T' = delete_kv key (entries T)"
proof
  note r = representsD [OF rep(1)] and X = same_data [OF T'(2)]
  have sides: "\<forall>z\<in>set L. ekey z < key" "\<forall>z\<in>set R. key < ekey z" "ordered (L @ R)"
    using r(6) rep(2,3) by (auto simp: sorted_wrt_append)
  have sz: "size T = Suc (length L + length R)" using arg_cong [OF rep(2), of length] by simp
  show "represents st' t' T'"
    using r(7,8) st' t' X sides(3) sz
    by (intro represents_sized [OF st'(1) _ st'(2) T'(1)]) (simp_all add: tsize_def rep(2))
  have y: "ekv y = (key, snd (ekv y))" using rep(3) by (simp add: ekv_def)
  show "entries T' = delete_kv key (entries T)"
    using sides(1,2) delete_kv_mid [of "map ekv L" key "map ekv R" "snd (ekv y)"] y
    by (simp add: entries_ekv rep(2) T'(1) X)
qed

section \<open>The contract of an ordered map\<close>

fun run_each :: "('s \<Rightarrow> byte list \<Rightarrow> byte list \<Rightarrow> 's \<times> bool) \<Rightarrow> 's \<Rightarrow> (byte list \<times> byte list) list \<Rightarrow> 's" where
  "run_each fn s [] = s"
| "run_each fn s ((k, v) # xs) = (case fn s k v of (s, ok) \<Rightarrow> if ok then run_each fn s xs else s)"

datatype map_op =
    OpPut "byte list" "byte list option" int  \<comment> \<open>key, value and the random priority\<close>
  | OpDelete "byte list"

fun spec_op :: "map_op \<Rightarrow> (byte list \<times> byte list) list \<Rightarrow> (byte list \<times> byte list) list" where
  "spec_op (OpPut k v pr) m = insert_kv k (case v of None \<Rightarrow> [] | Some v \<Rightarrow> v) m"
| "spec_op (OpDelete k) m = delete_kv k m"

fun do_op :: "('s \<Rightarrow> byte list \<Rightarrow> byte list option \<Rightarrow> int \<Rightarrow> 's option) \<Rightarrow> ('s \<Rightarrow> byte list \<Rightarrow> 's option) \<Rightarrow>
    map_op \<Rightarrow> 's \<Rightarrow> 's option" where
  "do_op put delete (OpPut k v pr) s = put s k v pr"
| "do_op put delete (OpDelete k) s = delete s k"

fun do_ops :: "('s \<Rightarrow> byte list \<Rightarrow> byte list option \<Rightarrow> int \<Rightarrow> 's option) \<Rightarrow> ('s \<Rightarrow> byte list \<Rightarrow> 's option) \<Rightarrow>
    map_op list \<Rightarrow> 's \<Rightarrow> 's option" where
  "do_ops put delete [] s = Some s"
| "do_ops put delete (p # ps) s = Option.bind (do_op put delete p s) (do_ops put delete ps)"

locale ordered_map =
  fixes models :: "'s \<Rightarrow> (byte list \<times> byte list) list \<Rightarrow> bool"
    and get :: "'s \<Rightarrow> byte list \<Rightarrow> byte list option option"
    and put :: "'s \<Rightarrow> byte list \<Rightarrow> byte list option \<Rightarrow> int \<Rightarrow> 's option"
    and delete :: "'s \<Rightarrow> byte list \<Rightarrow> 's option"
  assumes sorted: "models s m \<Longrightarrow> sorted_kv m"
    and get_models: "models s m \<Longrightarrow> get s k = Some (map_of m k)"
    and put_models: "models s m \<Longrightarrow>
      \<exists>s'. put s k v pr = Some s' \<and> models s' (insert_kv k (case v of None \<Rightarrow> [] | Some v \<Rightarrow> v) m)"
    and delete_models: "models s m \<Longrightarrow> \<exists>s'. delete s k = Some s' \<and> models s' (delete_kv k m)"
begin

lemma do_op_models: "models s m \<Longrightarrow> \<exists>s'. do_op put delete p s = Some s' \<and> models s' (spec_op p m)"
  by (cases p) (auto dest: put_models delete_models)

text \<open>No sequence of operations gets stuck, and it does what it does to the sorted list.\<close>

lemma do_ops_models: "models s m \<Longrightarrow> \<exists>s'. do_ops put delete ps s = Some s' \<and> models s' (fold spec_op ps m)"
proof (induction ps arbitrary: s m)
  case (Cons p ps)
  obtain s1 where "do_op put delete p s = Some s1" "models s1 (spec_op p m)"
    using do_op_models [OF Cons.prems] by blast
  with Cons.IH [of s1] show ?case by simp
qed simp

lemma get_after_put:
  assumes "models s m" "put s k v pr = Some s'"
  shows "get s' j = (if j = k then Some (Some (case v of None \<Rightarrow> [] | Some v \<Rightarrow> v)) else get s j)"
  using put_models [OF assms(1), of k v pr] assms get_models by (auto simp: map_of_insert_kv)

lemma get_after_delete:
  assumes "models s m" "delete s k = Some s'"
  shows "get s' j = (if j = k then Some None else get s j)"
  using delete_models [OF assms(1), of k] assms get_models by (auto simp: map_of_delete_kv)

end

end
