(* ===== verification/Treap_Mutable.thy ===== *)
theory Treap_Mutable
  imports Treap_Common
begin

text \<open>
  The mutable treap of \<^verbatim>\<open>database/internal/treap/mutable.go\<close> over the store of nodes.  The
  priority that \<^verbatim>\<open>rand.Int\<close> returns is an argument of \<^verbatim>\<open>Put\<close>; a nil value is \<open>None\<close>.
\<close>

section \<open>Operations\<close>

definition NewMutable :: Treap where
  "NewMutable = \<lparr>tr_root = None, tr_count = 0, tr_totalSize = 0\<rparr>"

partial_function (option) getLoop ::
    "(nptr \<rightharpoonup> treapNode) \<Rightarrow> byte list \<Rightarrow> nptr option \<Rightarrow> nptr option \<Rightarrow> (nptr option \<times> nptr option) option" where
  "getLoop c key node parent =
     (case node of
        None \<Rightarrow> Some (None, None)
      | Some p \<Rightarrow>
          Option.bind (c p) (\<lambda>nd.
            let compareResult = Compare key (tn_key nd) in
            if compareResult < 0 then getLoop c key (tn_left nd) node
            else if compareResult > 0 then getLoop c key (tn_right nd) node
            else Some (node, parent)))"

definition Mutable_get :: "store \<Rightarrow> Treap \<Rightarrow> byte list \<Rightarrow> (nptr option \<times> nptr option) option" where
  "Mutable_get st t key = getLoop (st_cells st) key (tr_root t) None"

definition Mutable_Has :: "store \<Rightarrow> Treap \<Rightarrow> byte list \<Rightarrow> bool option" where
  "Mutable_Has st t key = map_option (\<lambda>(node, parent). node \<noteq> None) (Mutable_get st t key)"

definition Mutable_Get :: "store \<Rightarrow> Treap \<Rightarrow> byte list \<Rightarrow> byte list option option" where
  "Mutable_Get st t key =
     Option.bind (Mutable_get st t key) (\<lambda>(node, parent).
       case node of
         None \<Rightarrow> Some None
       | Some p \<Rightarrow> map_option (\<lambda>nd. Some (tn_value nd)) (st_cells st p))"

definition relinkGrandparent ::
    "(nptr \<rightharpoonup> treapNode) \<Rightarrow> nptr option \<Rightarrow> nptr \<Rightarrow> nptr \<Rightarrow> nptr option \<Rightarrow>
     ((nptr \<rightharpoonup> treapNode) \<times> nptr option) option" where
  "relinkGrandparent c root node parent grandparent =
     (case grandparent of
        None \<Rightarrow> Some (c, Some node)
      | Some g \<Rightarrow>
          Option.bind (c g) (\<lambda>gn.
            if tn_left gn = Some parent then Some (c(g \<mapsto> gn\<lparr>tn_left := Some node\<rparr>), root)
            else Some (c(g \<mapsto> gn\<lparr>tn_right := Some node\<rparr>), root)))"

text \<open>The search loop of \<^verbatim>\<open>Put\<close>: the parents, the last comparison and the node found.\<close>

partial_function (option) insertLoop ::
    "(nptr \<rightharpoonup> treapNode) \<Rightarrow> byte list \<Rightarrow> nptr option \<Rightarrow> parentStack \<Rightarrow> int \<Rightarrow>
     (parentStack \<times> int \<times> nptr option) option" where
  "insertLoop c key node parents compareResult =
     (case node of
        None \<Rightarrow> Some (parents, compareResult, None)
      | Some p \<Rightarrow>
          Option.bind (c p) (\<lambda>nd.
            let parents = Push parents p;
                compareResult = Compare key (tn_key nd)
            in
            if compareResult < 0 then insertLoop c key (tn_left nd) parents compareResult
            else if compareResult > 0 then insertLoop c key (tn_right nd) parents compareResult
            else Some (parents, compareResult, node)))"

text \<open>\<^verbatim>\<open>parent.left = node\<close> or \<^verbatim>\<open>parent.right = node\<close>.\<close>

definition linkChild ::
    "(nptr \<rightharpoonup> treapNode) \<Rightarrow> nptr option \<Rightarrow> int \<Rightarrow> nptr \<Rightarrow> (nptr \<rightharpoonup> treapNode) option" where
  "linkChild c parent compareResult node =
     Option.bind parent (\<lambda>p. Option.bind (c p) (\<lambda>pn.
       if compareResult < 0 then Some (c(p \<mapsto> pn\<lparr>tn_left := Some node\<rparr>))
       else Some (c(p \<mapsto> pn\<lparr>tn_right := Some node\<rparr>))))"

partial_function (option) rotateLoop ::
    "(nptr \<rightharpoonup> treapNode) \<Rightarrow> nptr option \<Rightarrow> nptr \<Rightarrow> parentStack \<Rightarrow>
     ((nptr \<rightharpoonup> treapNode) \<times> nptr option) option" where
  "rotateLoop c root node parents =
     (if Len parents = 0 then Some (c, root)
      else
        (case Pop parents of (parent, parents) \<Rightarrow>
          Option.bind parent (\<lambda>parent.
          Option.bind (c node) (\<lambda>nn.
          Option.bind (c parent) (\<lambda>pn.
            if tn_priority nn \<ge> tn_priority pn then Some (c, root)
            else
              Option.bind
                (relinkGrandparent
                  (if tn_left pn = Some node then
                     c(node \<mapsto> nn\<lparr>tn_right := Some parent\<rparr>, parent \<mapsto> pn\<lparr>tn_left := tn_right nn\<rparr>)
                   else
                     c(node \<mapsto> nn\<lparr>tn_left := Some parent\<rparr>, parent \<mapsto> pn\<lparr>tn_right := tn_left nn\<rparr>))
                  root node parent (At parents 0))
                (\<lambda>(c, root). rotateLoop c root node parents))))))"

definition Mutable_Put ::
    "store \<Rightarrow> Treap \<Rightarrow> byte list \<Rightarrow> byte list option \<Rightarrow> int \<Rightarrow> (store \<times> Treap) option" where
  "Mutable_Put st t key val priority =
     (let val = (case val of None \<Rightarrow> [] | Some v \<Rightarrow> v) in
      if tr_root t = None then
        let (node, st) = newTreapNode st key val priority in
        Option.bind (st_cells st node) (\<lambda>nd.
          Some (st, \<lparr>tr_root = Some node, tr_count = 1, tr_totalSize = nodeSize nd\<rparr>))
      else
        Option.bind (insertLoop (st_cells st) key (tr_root t) newStack 0)
          (\<lambda>(parents, compareResult, found).
            case found of
              Some p \<Rightarrow>
                Option.bind (st_cells st p) (\<lambda>nd.
                  Some
                    (st\<lparr>st_cells := (st_cells st)(p \<mapsto> nd\<lparr>tn_value := val\<rparr>)\<rparr>,
                     t\<lparr>tr_totalSize := tr_totalSize t - word_of_nat (length (tn_value nd)) +
                         word_of_nat (length val)\<rparr>))
            | None \<Rightarrow>
                let (node, st) = newTreapNode st key val priority in
                Option.bind (st_cells st node) (\<lambda>nd.
                Option.bind (linkChild (st_cells st) (At parents 0) compareResult node) (\<lambda>c.
                Option.bind (rotateLoop c (tr_root t) node parents) (\<lambda>(c, root).
                  Some
                    (st\<lparr>st_cells := c\<rparr>,
                     \<lparr>tr_root = root, tr_count = tr_count t + 1,
                      tr_totalSize = tr_totalSize t + nodeSize nd\<rparr>))))))"

text \<open>The child that \<^verbatim>\<open>Delete\<close> rotates up, and whether it is the left one.\<close>

definition chooseChild :: "(nptr \<rightharpoonup> treapNode) \<Rightarrow> treapNode \<Rightarrow> (nptr \<times> bool) option" where
  "chooseChild c node =
     (case tn_left node of
        None \<Rightarrow> map_option (\<lambda>r. (r, False)) (tn_right node)
      | Some l \<Rightarrow>
          (case tn_right node of
             None \<Rightarrow> Some (l, True)
           | Some r \<Rightarrow>
               Option.bind (c l) (\<lambda>ln. Option.bind (c r) (\<lambda>rn.
                 if tn_priority ln \<ge> tn_priority rn then Some (l, True) else Some (r, False)))))"

partial_function (option) sinkLoop ::
    "(nptr \<rightharpoonup> treapNode) \<Rightarrow> nptr option \<Rightarrow> nptr \<Rightarrow> nptr option \<Rightarrow>
     ((nptr \<rightharpoonup> treapNode) \<times> nptr option \<times> nptr option) option" where
  "sinkLoop c root node parent =
     Option.bind (c node) (\<lambda>nn.
       if tn_left nn = None \<and> tn_right nn = None then Some (c, root, parent)
       else
         Option.bind (chooseChild c nn) (\<lambda>(child, isLeft).
         Option.bind (c child) (\<lambda>cn.
         Option.bind
           (relinkGrandparent
             (if isLeft then
                c(child \<mapsto> cn\<lparr>tn_right := Some node\<rparr>, node \<mapsto> nn\<lparr>tn_left := tn_right cn\<rparr>)
              else
                c(child \<mapsto> cn\<lparr>tn_left := Some node\<rparr>, node \<mapsto> nn\<lparr>tn_right := tn_left cn\<rparr>))
             root child node parent)
           (\<lambda>(c, root). sinkLoop c root node (Some child)))))"

definition unlinkLeaf ::
    "(nptr \<rightharpoonup> treapNode) \<Rightarrow> nptr option \<Rightarrow> nptr \<Rightarrow> (nptr \<rightharpoonup> treapNode) option" where
  "unlinkLeaf c parent node =
     Option.bind parent (\<lambda>p. Option.bind (c p) (\<lambda>pn.
       if tn_right pn = Some node then Some (c(p \<mapsto> pn\<lparr>tn_right := None\<rparr>))
       else Some (c(p \<mapsto> pn\<lparr>tn_left := None\<rparr>))))"

definition Mutable_Delete :: "store \<Rightarrow> Treap \<Rightarrow> byte list \<Rightarrow> (store \<times> Treap) option" where
  "Mutable_Delete st t key =
     Option.bind (Mutable_get st t key) (\<lambda>(node, parent).
       case node of
         None \<Rightarrow> Some (st, t)
       | Some n \<Rightarrow>
           Option.bind (st_cells st n) (\<lambda>nd.
             if parent = None \<and> tn_left nd = None \<and> tn_right nd = None then
               Some (st, \<lparr>tr_root = None, tr_count = 0, tr_totalSize = 0\<rparr>)
             else
               Option.bind (sinkLoop (st_cells st) (tr_root t) n parent) (\<lambda>(c, root, parent).
               Option.bind (unlinkLeaf c parent n) (\<lambda>c.
               Option.bind (c n) (\<lambda>nd.
                 Some
                   (st\<lparr>st_cells := c\<rparr>,
                    \<lparr>tr_root = root, tr_count = tr_count t - 1,
                     tr_totalSize = tr_totalSize t - nodeSize nd\<rparr>))))))"

partial_function (option) pushLeft ::
    "(nptr \<rightharpoonup> treapNode) \<Rightarrow> nptr option \<Rightarrow> parentStack \<Rightarrow> parentStack option" where
  "pushLeft c node parents =
     (case node of
        None \<Rightarrow> Some parents
      | Some p \<Rightarrow> Option.bind (c p) (\<lambda>nd. pushLeft c (tn_left nd) (Push parents p)))"

text \<open>The callback has a state of its own and says whether to go on.\<close>

partial_function (option) eachLoop ::
    "(nptr \<rightharpoonup> treapNode) \<Rightarrow> ('s \<Rightarrow> byte list \<Rightarrow> byte list \<Rightarrow> 's \<times> bool) \<Rightarrow> 's \<Rightarrow> parentStack \<Rightarrow> 's option" where
  "eachLoop c fn s parents =
     (if Len parents = 0 then Some s
      else
        (case Pop parents of (node, parents) \<Rightarrow>
          Option.bind node (\<lambda>p.
          Option.bind (c p) (\<lambda>nd.
            case fn s (tn_key nd) (tn_value nd) of (s, ok) \<Rightarrow>
              if \<not> ok then Some s
              else
                Option.bind (pushLeft c (tn_right nd) parents) (\<lambda>parents. eachLoop c fn s parents)))))"

definition ForEach ::
    "store \<Rightarrow> Treap \<Rightarrow> ('s \<Rightarrow> byte list \<Rightarrow> byte list \<Rightarrow> 's \<times> bool) \<Rightarrow> 's \<Rightarrow> 's option" where
  "ForEach st t fn s =
     Option.bind (pushLeft (st_cells st) (tr_root t) newStack) (eachLoop (st_cells st) fn s)"

definition Reset :: "Treap \<Rightarrow> Treap" where
  "Reset t = \<lparr>tr_root = None, tr_count = 0, tr_totalSize = 0\<rparr>"

declare getLoop.simps [code] insertLoop.simps [code] rotateLoop.simps [code] sinkLoop.simps [code]
  pushLeft.simps [code] eachLoop.simps [code]

section \<open>Searching\<close>

lemma getLoop_descend:
  assumes "holds c t" "descend key t fs = (fs', t')"
    and "parent = (case fs of [] \<Rightarrow> None | f # _ \<Rightarrow> Some (frame_addr f))"
  shows "getLoop c key (addr t) parent =
    Some (if t' = Leaf then (None, None)
          else (addr t', case fs' of [] \<Rightarrow> None | f # _ \<Rightarrow> Some (frame_addr f)))"
  using assms
proof (induction key t fs arbitrary: parent rule: descend.induct)
  case (1 key fs)
  then show ?case by (simp add: getLoop.simps [of c key None])
next
  case (2 key l x r fs)
  have eq: "getLoop c key (addr (Node l x r)) parent =
      (if key < ekey x then getLoop c key (addr l) (Some (fst x))
       else if ekey x < key then getLoop c key (addr r) (Some (fst x)) else Some (Some (fst x), parent))"
    using "2.prems"(1) by (simp add: getLoop.simps [of c key "Some (fst x)"] Let_def)
  show ?case
    unfolding eq using "2.prems" "2.IH"(1) [of "Some (fst x)"] "2.IH"(2) [of "Some (fst x)"]
    by (auto split: if_splits list.splits)
qed

definition side_ok :: "int \<Rightarrow> frame list \<Rightarrow> bool" where
  "side_ok cr fs \<longleftrightarrow> (case fs of [] \<Rightarrow> True | f # _ \<Rightarrow> cr < 0 \<longleftrightarrow> in_left f)"

lemma insertLoop_descend:
  assumes "holds c t" "descend key t fs = (fs', t')" "stacked parents (map frame_addr fs)" "side_ok cr fs"
  shows "\<exists>parents' cmp. insertLoop c key (addr t) parents cr = Some (parents', cmp, addr t') \<and>
    (t' = Leaf \<longrightarrow> stacked parents' (map frame_addr fs') \<and> side_ok cmp fs') \<and>
    (\<forall>a. addr t' = Some a \<longrightarrow> stacked parents' (a # map frame_addr fs'))"
  using assms
proof (induction key t fs arbitrary: parents cr rule: descend.induct)
  case (1 key fs)
  then show ?case by (simp add: insertLoop.simps [of c key None])
next
  case (2 key l x r fs)
  let ?cr = "Compare key (ekey x)"
  have eq: "insertLoop c key (addr (Node l x r)) parents cr =
      (if key < ekey x then insertLoop c key (addr l) (Push parents (fst x)) ?cr
       else if ekey x < key then insertLoop c key (addr r) (Push parents (fst x)) ?cr
       else Some (Push parents (fst x), ?cr, Some (fst x)))"
    using "2.prems"(1) by (simp add: insertLoop.simps [of c key "Some (fst x)"] Let_def)
  have st: "stacked (Push parents (fst x)) (fst x # map frame_addr fs)"
    using "2.prems"(3) by (rule stacked_Push)
  consider "key < ekey x" | "ekey x < key" "\<not> key < ekey x" | "\<not> ekey x < key" "\<not> key < ekey x" by blast
  then show ?case
  proof cases
    case lt: 1
    have "side_ok ?cr (InLeft x r # fs)" using lt by (simp add: side_ok_def)
    with lt "2.IH"(1) [of "Push parents (fst x)" ?cr] "2.prems" st show ?thesis unfolding eq by simp
  next
    case gt: 2
    have "side_ok ?cr (InRight x l # fs)" using gt by (simp add: side_ok_def)
    with gt "2.IH"(2) [of "Push parents (fst x)" ?cr] "2.prems" st show ?thesis unfolding eq by simp
  next
    case eq3: 3
    with "2.prems" st show ?thesis unfolding eq by auto
  qed
qed

section \<open>Rotations\<close>

abbreviation top_addr :: "frame list \<Rightarrow> nptr option" where
  "top_addr fs \<equiv> (case fs of [] \<Rightarrow> None | f # _ \<Rightarrow> Some (frame_addr f))"

text \<open>Relinking puts a new child in the hole of the context and changes nothing else.\<close>

lemma relinkGrandparent_ctx:
  assumes "holds_ctx c fs (Some old)" "separate_ctx fs" "old \<notin> ctx_addrs fs"
  shows "\<exists>c'. relinkGrandparent c root new old (top_addr fs) =
      Some (c', if fs = [] then Some new else root) \<and>
    holds_ctx c' fs (Some new) \<and> (\<forall>a. a \<notin> path_addrs fs \<longrightarrow> c' a = c a)"
proof (cases fs)
  case Nil
  then show ?thesis by (simp add: relinkGrandparent_def)
next
  case (Cons g gs)
  show ?thesis
  proof (cases g)
    case (InLeft y s)
    with assms Cons show ?thesis
      by (auto simp: relinkGrandparent_def separate_ctx_Cons)
  next
    case (InRight y s)
    have "addr s \<noteq> Some old" using assms(3) Cons InRight addr_in_addrs by auto
    with assms Cons InRight show ?thesis
      by (auto simp: relinkGrandparent_def separate_ctx_Cons)
  qed
qed

lemma addr_plug_cong: "fs \<noteq> [] \<Longrightarrow> addr (plug fs t) = addr (plug fs t')"
proof (induction fs arbitrary: t t')
  case (Cons f fs)
  then show ?case by (cases "fs = []") auto
qed simp

lemma relink_subtree:
  assumes "holds c t'" "addr t' = Some new" "holds_ctx c fs (Some old)" "separate_ctx fs"
    and "addrs t' \<inter> ctx_addrs fs = {}" "old \<notin> ctx_addrs fs"
  shows "\<exists>c'. relinkGrandparent c (addr (plug fs t)) new old (top_addr fs) = Some (c', addr (plug fs t')) \<and>
    holds c' (plug fs t') \<and> (\<forall>a. a \<notin> path_addrs fs \<longrightarrow> c' a = c a)"
proof -
  obtain c' where c': "relinkGrandparent c (addr (plug fs t)) new old (top_addr fs) =
      Some (c', if fs = [] then Some new else addr (plug fs t))"
    "holds_ctx c' fs (Some new)" "\<forall>a. a \<notin> path_addrs fs \<longrightarrow> c' a = c a"
    using relinkGrandparent_ctx [OF assms(3,4,6)] by blast
  moreover have "(if fs = [] then Some new else addr (plug fs t)) = addr (plug fs t')"
    using assms(2) addr_plug_cong [of fs t t'] by simp
  moreover have "holds c' t'"
    using assms(1,5) c'(3) path_in_ctx by (subst holds_frame [of _ c' c]) blast+
  ultimately show ?thesis using assms(2) by (auto simp: holds_plug)
qed

lemma rotateLoop_up:
  assumes "holds c (plug fs (Node l x r))" "separate (plug fs (Node l x r))"
    and "stacked parents (map frame_addr fs)"
  shows "\<exists>c'. rotateLoop c (addr (plug fs (Node l x r))) (fst x) parents = Some (c', addr (up fs l x r)) \<and>
    holds c' (up fs l x r) \<and> (\<forall>a. a \<notin> insert (fst x) (path_addrs fs) \<longrightarrow> c' a = c a)"
  using assms
proof (induction fs l x r arbitrary: c parents rule: up.induct)
  case (1 l x r)
  then show ?case by (simp add: rotateLoop.simps [of c _ _ parents] stacked_Len)
next
  case (2 f fs l x r)
  obtain parents' where pop: "Pop parents = (Some (frame_addr f), parents')" "stacked parents' (map frame_addr fs)"
    using stacked_Pop "2.prems"(3) by fastforce
  have len: "Len parents \<noteq> 0" using "2.prems"(3) by (simp add: stacked_Len)
  have h: "c (fst x) = Some (cell x (addr l) (addr r))" "holds c l" "holds c r"
    "c (frame_addr f) = Some (frame_cell f (Some (fst x)))" "holds c (frame_other f)"
    "holds_ctx c fs (Some (frame_addr f))"
    using "2.prems"(1) by (auto simp: holds_plug holds_plug1)
  note d = "2.prems"(2) [unfolded separate_plug_iff separate_ctx_Cons separate_Node ctx_addrs_simps]
  have sets: "fst x \<notin> addrs l" "fst x \<notin> addrs r" "fst x \<noteq> frame_addr f" "fst x \<notin> addrs (frame_other f)"
    "fst x \<notin> ctx_addrs fs" "frame_addr f \<notin> addrs l" "frame_addr f \<notin> addrs r"
    "frame_addr f \<notin> addrs (frame_other f)" "frame_addr f \<notin> ctx_addrs fs"
    using d by auto
  have top: "At parents' 0 = top_addr fs"
    using pop(2) by (cases fs) (simp_all add: stacked_At)
  show ?case
  proof (cases "eprio x \<ge> eprio (frame_entry f)")
    case True
    have "tn_priority (frame_cell f p) = eprio (frame_entry f)" for p by (cases f) simp_all
    with True "2.prems"(1) h pop len show ?thesis
      by (simp add: rotateLoop.simps [of c _ _ parents])
  next
    case False
    let ?y = "frame_entry f" and ?s = "frame_other f"
    define l' where "l' = (if in_left f then l else Node ?s ?y l)"
    define r' where "r' = (if in_left f then Node r ?y ?s else r)"
    define c1 where "c1 = (if in_left f
        then c(fst x \<mapsto> cell x (addr l) (Some (fst ?y)), fst ?y \<mapsto> cell ?y (addr r) (addr ?s))
        else c(fst x \<mapsto> cell x (Some (fst ?y)) (addr r), fst ?y \<mapsto> cell ?y (addr ?s) (addr l)))"
    have ctx1: "holds_ctx c1 fs (Some (fst ?y))" "separate_ctx fs" "fst ?y \<notin> ctx_addrs fs"
      using h(6) sets d by (simp_all add: c1_def)
    let ?root = "addr (plug (f # fs) (Node l x r))" and ?t = "Node l' x r'"
    have t: "holds c1 ?t" "addr ?t = Some (fst x)"
      using h(2,3,5) sets by (cases f; simp add: c1_def l'_def r'_def)+
    have "inorder ?t = inorder (plug1 f (Node l x r))" by (cases f) (simp_all add: l'_def r'_def)
    then have sep: "separate (plug fs ?t)" using "2.prems"(2) by (simp add: separate_def inorder_plug)
    then have disj: "addrs ?t \<inter> ctx_addrs fs = {}" by (simp only: separate_plug_iff)
    obtain c2 where c2: "relinkGrandparent c1 ?root (fst x) (fst ?y) (top_addr fs) = Some (c2, addr (plug fs ?t))"
      "holds c2 (plug fs ?t)" "\<forall>a. a \<notin> path_addrs fs \<longrightarrow> c2 a = c1 a"
      using relink_subtree [OF t ctx1(1,2) disj ctx1(3), of "plug1 f (Node l x r)"] by auto
    have "\<exists>c'. rotateLoop c2 (addr (plug fs ?t)) (fst x) parents' = Some (c', addr (up fs l' x r')) \<and>
        holds c' (up fs l' x r') \<and> (\<forall>a. a \<notin> insert (fst x) (path_addrs fs) \<longrightarrow> c' a = c2 a)"
      using "2.IH" [OF False _ _ _ pop(2)] c2(2) sep by (cases f) (auto simp: l'_def r'_def)
    then obtain c3 where c3: "rotateLoop c2 (addr (plug fs ?t)) (fst x) parents' = Some (c3, addr (up fs l' x r'))"
      "holds c3 (up fs l' x r')" "\<forall>a. a \<notin> insert (fst x) (path_addrs fs) \<longrightarrow> c3 a = c2 a" by blast
    have pn: "tn_left (frame_cell f (Some (fst x))) = Some (fst x) \<longleftrightarrow> in_left f"
      "tn_priority (frame_cell f (Some (fst x))) = eprio ?y"
      using sets(4) addr_in_addrs [of ?s "fst x"] by (cases f; auto)+
    have "rotateLoop c ?root (fst x) parents = rotateLoop c2 (addr (plug fs ?t)) (fst x) parents'"
      using False h(1,4) pop(1) len c2(1) top pn
      by (cases f) (simp_all add: rotateLoop.simps [of c _ _ parents] c1_def split del: if_split)
    moreover have "up (f # fs) l x r = up fs l' x r'" using up_step [OF False] by (simp add: l'_def r'_def)
    moreover have "c3 a = c a" if "a \<notin> insert (fst x) (path_addrs (f # fs))" for a
      using that c3(3) c2(3) by (simp add: c1_def)
    ultimately show ?thesis using c3(1,2) by auto
  qed
qed

section \<open>The operations on trees\<close>

lemma Mutable_Get_spec:
  assumes "represents st t T"
  shows "Mutable_Get st t key = Some (map_of (entries T) key)"
    and "Mutable_Has st t key = Some (map_of (entries T) key \<noteq> None)"
proof -
  obtain fs t' where d: "descend key T [] = (fs, t')" by fastforce
  note sp = descend_split [OF assms d]
  have get: "Mutable_get st t key = Some (if t' = Leaf then (None, None) else (addr t', top_addr fs))"
    using getLoop_descend [OF representsD(3) [OF assms] d refl] representsD(2) [OF assms]
    by (simp add: Mutable_get_def)
  have "Mutable_Get st t key = Some (map_of (entries T) key) \<and>
    Mutable_Has st t key = Some (map_of (entries T) key \<noteq> None)"
  proof (cases t')
    case Leaf
    then have "map_of (entries T) key = None"
      using sp by (force simp: entries_ekv inorder_plug map_of_eq_None_iff)
    with get Leaf show ?thesis by (simp add: Mutable_Get_def Mutable_Has_def)
  next
    case (Node l x r)
    then have k: "ekey x = key" using descend_end [OF d] by auto
    obtain a v p where x: "x = (a, key, v, p)" using k by (cases x) auto
    have hc: "st_cells st a = Some (cell x (addr l) (addr r))"
      using representsD(3) [OF assms] sp(1) Node x by (simp add: holds_plug)
    have ord: "\<forall>y\<in>set (inorder l). ekey y < key"
      using representsD(6) [OF assms] sp(1) Node k by (auto simp: inorder_plug sorted_wrt_append)
    have "map_of (map ekv ((left_of fs @ inorder l) @ x # inorder r @ right_of fs)) key = Some v"
      unfolding map_append list.map
      by (subst x, simp only: ekv_def ekey_eprio fst_conv snd_conv)
        (rule map_of_mid, use sp(2) ord in auto)
    with get Node hc x sp(1) show ?thesis
      by (simp add: Mutable_Get_def Mutable_Has_def entries_ekv inorder_plug)
  qed
  then show "Mutable_Get st t key = Some (map_of (entries T) key)"
    "Mutable_Has st t key = Some (map_of (entries T) key \<noteq> None)" by auto
qed

lemma linkChild_ctx:
  assumes "holds_ctx c fs None" "separate_ctx fs" "side_ok cr fs" "fs \<noteq> []"
  shows "\<exists>c'. linkChild c (top_addr fs) cr node = Some c' \<and> holds_ctx c' fs (Some node) \<and>
    (\<forall>a. a \<notin> path_addrs fs \<longrightarrow> c' a = c a)"
proof -
  obtain f gs where fs: "fs = f # gs" using assms(4) by (cases fs) auto
  with assms show ?thesis
    by (cases f) (auto simp: linkChild_def side_ok_def separate_ctx_Cons)
qed

lemma descend_Leaf: "descend key T fs = (fs, Leaf) \<Longrightarrow> T = Leaf"
proof -
  assume "descend key T fs = (fs, Leaf)"
  then have "plug fs T = plug fs Leaf" by (metis descend_plug)
  then have "length (inorder T) = length (inorder (Leaf :: atree))"
    by (metis add_diff_cancel_left' add_diff_cancel_right' inorder_plug length_append)
  then show ?thesis by (simp add: length_inorder)
qed

text \<open>Linking a fresh node at the end of the search and rotating it up.\<close>

lemma insert_fresh:
  assumes c: "holds c (plug fs Leaf)" "separate (plug fs Leaf)" "fs \<noteq> []"
    and x: "fst x \<notin> ctx_addrs fs" "c (fst x) = Some (cell x None None)"
    and p: "stacked parents (map frame_addr fs)" "side_ok cr fs"
  shows "\<exists>c1 c2. linkChild c (At parents 0) cr (fst x) = Some c1 \<and>
    rotateLoop c1 (addr (plug fs Leaf)) (fst x) parents = Some (c2, addr (up fs Leaf x Leaf)) \<and>
    holds c2 (up fs Leaf x Leaf) \<and> (\<forall>a. a \<notin> insert (fst x) (path_addrs fs) \<longrightarrow> c2 a = c a)"
proof -
  have top: "At parents 0 = top_addr fs" using p(1) by (cases fs) (simp_all add: stacked_At)
  have ctx: "holds_ctx c fs None" "separate_ctx fs" using c by (simp_all add: holds_plug separate_plug_iff)
  obtain c1 where c1: "linkChild c (top_addr fs) cr (fst x) = Some c1" "holds_ctx c1 fs (Some (fst x))"
    "\<forall>a. a \<notin> path_addrs fs \<longrightarrow> c1 a = c a"
    using linkChild_ctx [OF ctx p(2) c(3)] by blast
  let ?t = "Node Leaf x Leaf :: atree"
  have "c1 (fst x) = c (fst x)" using c1(3) x(1) path_in_ctx by blast
  then have "holds c1 (plug fs ?t)" using c1(2) x by (simp add: holds_plug)
  moreover have "separate (plug fs ?t)" using ctx(2) x(1) by (simp add: separate_plug_iff separate_Node)
  ultimately obtain c2 where c2: "rotateLoop c1 (addr (plug fs ?t)) (fst x) parents = Some (c2, addr (up fs Leaf x Leaf))"
    "holds c2 (up fs Leaf x Leaf)" "\<forall>a. a \<notin> insert (fst x) (path_addrs fs) \<longrightarrow> c2 a = c1 a"
    using rotateLoop_up [OF _ _ p(1)] by blast
  moreover have "addr (plug fs ?t) = addr (plug fs Leaf)" by (rule addr_plug_cong [OF c(3)])
  ultimately show ?thesis using c1 top by auto
qed

lemma Put_new_spec:
  assumes rep: "represents st t T" and "T \<noteq> Leaf" and d: "descend key T [] = (fs, Leaf)"
    and v: "v = (case val of None \<Rightarrow> [] | Some v \<Rightarrow> v)"
  shows "\<exists>st' t' T'. Mutable_Put st t key val priority = Some (st', t') \<and> represents st' t' T' \<and>
    entries T' = insert_kv key v (entries T) \<and> (heap (map_tree eprio T) \<longrightarrow> heap (map_tree eprio T')) \<and>
    (\<forall>a. live st a \<and> a \<notin> addrs T \<longrightarrow> live st' a \<and> st_cells st' a = st_cells st a)"
proof -
  note r = representsD [OF rep] and sp = descend_split [OF rep d]
  obtain node st1 where new: "newTreapNode st key v priority = (node, st1)" by fastforce
  define x where "x = (node, key, v, priority)"
  note f = cloneTreapNode_fresh [OF r(1) new [unfolded newTreapNode_clone]]
  have cells1: "st_cells st1 = (st_cells st)(node \<mapsto> cell x None None)" by (simp add: f(4) x_def cell_def)
  have "side_ok 0 []" "stacked newStack (map frame_addr [])" by (simp_all add: side_ok_def stacked_new)
  then obtain parents cmp where ins: "insertLoop (st_cells st) key (addr T) newStack 0 = Some (parents, cmp, None)"
    "stacked parents (map frame_addr fs)" "side_ok cmp fs"
    using insertLoop_descend [OF r(3) d, of newStack 0] by auto
  have fs: "fs \<noteq> []" using d assms(2) descend_Leaf by auto
  have T: "inorder T = left_of fs @ right_of fs" using sp(1) by (simp add: inorder_plug)
  have fresh: "fst x \<notin> ctx_addrs fs" using f(1) r(5) sp(1) by (auto simp: x_def addrs_plug)
  have "holds (st_cells st1) (plug fs Leaf)" "separate (plug fs Leaf)"
    using r(3,4) fresh sp(1) by (auto simp: cells1 addrs_plug x_def)
  from insert_fresh [OF this fs fresh _ ins(2,3)] cells1
  obtain c1 c2 where c: "linkChild (st_cells st1) (At parents 0) cmp node = Some c1"
    "rotateLoop c1 (addr T) node parents = Some (c2, addr (up fs Leaf x Leaf))"
    "holds c2 (up fs Leaf x Leaf)" "\<forall>a. a \<notin> insert node (path_addrs fs) \<longrightarrow> c2 a = st_cells st1 a"
    by (auto simp: x_def sp(1))
  define t' where "t' = \<lparr>tr_root = addr (up fs Leaf x Leaf), tr_count = tr_count t + 1,
    tr_totalSize = tr_totalSize t + word_of_nat (esize x)\<rparr>"
  have put: "Mutable_Put st t key val priority = Some (st1\<lparr>st_cells := c2\<rparr>, t')"
    using assms(2) r(2) ins(1) new cells1 c by (simp add: Mutable_Put_def v t'_def nodeSize_cell)
  have "distinct (map fst (left_of fs @ x # right_of fs))"
    using r(4) fresh unfolding separate_def T ctx_addrs_eq by auto
  moreover have "\<forall>y\<in>set (left_of fs @ x # right_of fs). live (st1\<lparr>st_cells := c2\<rparr>) (fst y)"
    using represents_live [OF rep T] f(2) by (simp add: x_def)
  ultimately have "represents (st1\<lparr>st_cells := c2\<rparr>) t' (up fs Leaf x Leaf) \<and>
      entries (up fs Leaf x Leaf) = insert_kv key v (entries T)"
    using f(3) c(3)
    by (intro represents_insert [OF rep T sp(2,3) _ refl refl _ _ _ _ _ t'_def]) (auto simp: inorder_up x_def)
  moreover have "heap (map_tree eprio (up fs Leaf x Leaf))" if "heap (map_tree eprio T)"
    using that sp(1) by (intro heap_up) simp_all
  moreover have "live st1 a \<and> c2 a = st_cells st a" if "live st a \<and> a \<notin> addrs T" for a
  proof -
    have "a \<noteq> node" using that f(1) by auto
    moreover have "a \<notin> path_addrs fs" using that path_in_ctx unfolding sp(1) addrs_plug by blast
    ultimately show ?thesis using that f(2) c(4) cells1 by simp
  qed
  ultimately show ?thesis
    using put by (intro exI [of _ "st1\<lparr>st_cells := c2\<rparr>"] exI [of _ t'] exI [of _ "up fs Leaf x Leaf"]) simp
qed

lemma Put_old_spec:
  assumes rep: "represents st t T" and d: "descend key T [] = (fs, Node l y rt)"
    and v: "v = (case val of None \<Rightarrow> [] | Some v \<Rightarrow> v)"
  shows "\<exists>st' t' T'. Mutable_Put st t key val priority = Some (st', t') \<and> represents st' t' T' \<and>
    entries T' = insert_kv key v (entries T) \<and> (heap (map_tree eprio T) \<longrightarrow> heap (map_tree eprio T')) \<and>
    (\<forall>a. live st a \<and> a \<notin> addrs T \<longrightarrow> live st' a \<and> st_cells st' a = st_cells st a)"
proof -
  note r = representsD [OF rep] and sp = descend_split [OF rep d]
  have "side_ok 0 []" "stacked newStack (map frame_addr [])" by (simp_all add: side_ok_def stacked_new)
  then obtain parents cmp where ins: "insertLoop (st_cells st) key (addr T) newStack 0 = Some (parents, cmp, Some (fst y))"
    using insertLoop_descend [OF r(3) d, of newStack 0] by auto
  have k: "ekey y = key" using descend_end [OF d] by auto
  then obtain a w p where y: "y = (a, key, w, p)" by (cases y) auto
  define x where "x = (a, key, v, p)"
  let ?L = "left_of fs @ inorder l" and ?R = "inorder rt @ right_of fs"
  have T: "inorder T = ?L @ y # ?R" using sp(1) by (simp add: inorder_plug)
  have hc: "st_cells st a = Some (cell y (addr l) (addr rt))" using r(3) sp(1) y by (simp add: holds_plug)
  define c where "c = (st_cells st)(a \<mapsto> cell x (addr l) (addr rt))"
  define T' where "T' = plug fs (Node l x rt)"
  have sep: "a \<notin> addrs l" "a \<notin> addrs rt" "a \<notin> ctx_addrs fs"
    using r(4) y unfolding sp(1) by (auto simp: separate_plug_iff separate_Node)
  have root: "addr T = addr T'"
    using y sp(1) addr_plug_cong [of fs "Node l y rt" "Node l x rt"] by (cases fs) (auto simp: T'_def x_def)
  define t' where "t' = \<lparr>tr_root = addr T', tr_count = tr_count t,
      tr_totalSize = tr_totalSize t - word_of_nat (length (snd (ekv y))) + word_of_nat (length v)\<rparr>"
  have "T \<noteq> Leaf" "T' \<noteq> Leaf" using d root by auto
  then have put: "Mutable_Put st t key val priority = Some (st\<lparr>st_cells := c\<rparr>, t')"
    using r(2) ins hc y root by (cases t) (simp add: Mutable_Put_def v c_def t'_def x_def cell_def ekv_def Let_def)
  let ?st = "st\<lparr>st_cells := c\<rparr>"
  have new: "holds (st_cells ?st) T'" "distinct (map fst (?L @ x # ?R))" "\<forall>z\<in>set (?L @ x # ?R). live ?st (fst z)"
    "inorder T' = ?L @ x # ?R" "snd x = (key, v, p)" "wf_store ?st"
    using r(1,3,4) y sep represents_live [OF rep T] unfolding sp(1) separate_def T [unfolded sp(1)]
    by (simp_all add: holds_plug T'_def c_def x_def inorder_plug)
  have "\<forall>z\<in>set ?L. ekey z < key" using r(6) k unfolding T by (auto simp: sorted_wrt_append)
  from represents_update [OF rep T this k new(4) refl refl new(5,6,1-3) t'_def]
  have "represents ?st t' T' \<and> entries T' = insert_kv key v (entries T)" .
  moreover have "heap (map_tree eprio T')" if "heap (map_tree eprio T)"
    using that y unfolding sp(1) by (simp add: heap_plug T'_def x_def)
  moreover have "\<forall>b. live st b \<and> b \<notin> addrs T \<longrightarrow> live st b \<and> c b = st_cells st b"
    using y unfolding sp(1) addrs_plug by (auto simp: c_def)
  ultimately show ?thesis
    using put by (intro exI [of _ "st\<lparr>st_cells := c\<rparr>"] exI [of _ t'] exI [of _ T']) simp
qed

lemma Mutable_Put_spec:
  assumes rep: "represents st t T"
  shows "\<exists>st' t' T'. Mutable_Put st t key val priority = Some (st', t') \<and> represents st' t' T' \<and>
    entries T' = insert_kv key (case val of None \<Rightarrow> [] | Some v \<Rightarrow> v) (entries T) \<and>
    (heap (map_tree eprio T) \<longrightarrow> heap (map_tree eprio T')) \<and>
    (\<forall>a. live st a \<and> a \<notin> addrs T \<longrightarrow> live st' a \<and> st_cells st' a = st_cells st a)"
proof (cases "T = Leaf")
  case True
  note r = representsD [OF rep]
  define v where "v = (case val of None \<Rightarrow> [] | Some v \<Rightarrow> v)"
  obtain node st1 where new: "newTreapNode st key v priority = (node, st1)" by fastforce
  define x where "x = (node, key, v, priority)"
  note f = cloneTreapNode_fresh [OF r(1) new [unfolded newTreapNode_clone]]
  have cells1: "st_cells st1 = (st_cells st)(node \<mapsto> cell x None None)" by (simp add: f(4) x_def cell_def)
  let ?t' = "\<lparr>tr_root = Some node, tr_count = 1, tr_totalSize = nodeSize (cell x None None)\<rparr>"
  have "Mutable_Put st t key val priority = Some (st1, ?t')"
    using True r(2) new cells1 by (simp add: Mutable_Put_def v_def)
  moreover have "represents st1 ?t' (Node Leaf x Leaf)"
    using f cells1 by (simp add: represents_def x_def separate_Node tsize_def nodeSize_cell)
  ultimately show ?thesis
    using True f cells1
    by (intro exI [of _ st1] exI [of _ ?t'] exI [of _ "Node Leaf x Leaf"]) (auto simp: entries_def x_def v_def)
next
  case False
  obtain fs t' where d: "descend key T [] = (fs, t')" by fastforce
  then show ?thesis
    using Put_new_spec [OF rep False _ refl] Put_old_spec [OF rep _ refl] by (cases t') blast+
qed

section \<open>Deletion\<close>

lemma sinkLoop_step:
  assumes "holds c (plug fs (Node l x r))" "separate (plug fs (Node l x r))"
    and "c1 = (if in_left g then c(fst y \<mapsto> cell y (Some (fst x)) (addr s), fst x \<mapsto> cell x (addr l') (addr r'))
               else c(fst y \<mapsto> cell y (addr s) (Some (fst x)), fst x \<mapsto> cell x (addr l') (addr r')))"
    and g: "frame_entry g = y" "frame_other g = s" "holds c s" "holds c l'" "holds c r'"
      "inorder (plug1 g (Node l' x r')) = inorder (Node l x r)"
  shows "\<exists>c2. relinkGrandparent c1 (addr (plug fs (Node l x r))) (fst y) (fst x) (top_addr fs) =
      Some (c2, addr (plug (g # fs) (Node l' x r'))) \<and>
    holds c2 (plug (g # fs) (Node l' x r')) \<and> separate (plug (g # fs) (Node l' x r')) \<and>
    (\<forall>a. a \<notin> insert (fst x) (insert (fst y) (path_addrs fs)) \<longrightarrow> c2 a = c a)"
proof -
  let ?t = "plug1 g (Node l' x r')"
  have sep: "separate (plug fs ?t)"
    using assms(2) g(6) by (simp add: separate_def inorder_plug)
  have addrs: "addrs ?t = addrs (Node l x r)" using g(6) by (simp only: addrs_inorder)
  have d: "fst y \<notin> addrs s" "fst x \<notin> addrs s" "fst y \<notin> addrs l'" "fst x \<notin> addrs l'" "fst y \<notin> addrs r'"
    "fst x \<notin> addrs r'" "fst x \<noteq> fst y" "separate_ctx fs" "addrs ?t \<inter> ctx_addrs fs = {}"
    "fst x \<notin> ctx_addrs fs" "fst y \<notin> ctx_addrs fs"
    using sep g(1,2) by (auto simp: separate_plug_iff separate_plug1_iff separate_Node addrs_plug1)
  have "holds c1 ?t" using g d assms(3) by (cases g) simp_all
  moreover have "holds_ctx c1 fs (Some (fst x))" using assms(1,3) d by (simp add: holds_plug)
  moreover have "addr ?t = Some (fst y)" using g(1) by simp
  ultimately obtain c2 where c2: "relinkGrandparent c1 (addr (plug fs (Node l x r))) (fst y) (fst x) (top_addr fs) =
      Some (c2, addr (plug fs ?t))" "holds c2 (plug fs ?t)" "\<forall>a. a \<notin> path_addrs fs \<longrightarrow> c2 a = c1 a"
    using relink_subtree [of c1 ?t "fst y" fs "fst x" "Node l x r"] d by blast
  then show ?thesis using sep assms(3) by (intro exI [of _ c2]) simp
qed

text \<open>
  Sinking a node until it is a leaf merges its two subtrees: the root with the larger priority ends up on
  top, where a min-heap would need the smaller one.\<close>

fun merged :: "atree \<Rightarrow> atree \<Rightarrow> atree" where
  "merged Leaf r = r"
| "merged (Node ll y lr) Leaf = Node ll y lr"
| "merged (Node ll y lr) (Node rl z rr) =
     (if eprio y \<ge> eprio z then Node ll y (merged lr (Node rl z rr)) else Node (merged (Node ll y lr) rl) z rr)"

lemma merged_Leaf [simp]: "merged l Leaf = l"
  by (cases l) simp_all

lemma set_merged: "set_tree (merged l r) = set_tree l \<union> set_tree r"
  by (induction l r rule: merged.induct) auto

lemma chooseChild_merged:
  assumes "holds c (Node l x r)" "l \<noteq> Leaf \<or> r \<noteq> Leaf"
  shows "(\<exists>ll y lr. l = Node ll y lr \<and> chooseChild c (cell x (addr l) (addr r)) = Some (fst y, True) \<and>
      merged l r = Node ll y (merged lr r)) \<or>
    (\<exists>rl y rr. r = Node rl y rr \<and> chooseChild c (cell x (addr l) (addr r)) = Some (fst y, False) \<and>
      merged l r = Node (merged l rl) y rr)"
  using assms by (cases l; cases r) (auto simp: chooseChild_def)

lemma chooseChild_Node:
  assumes "holds c (Node l x r)" "l \<noteq> Leaf \<or> r \<noteq> Leaf"
  shows "(\<exists>ll y lr. l = Node ll y lr \<and> chooseChild c (cell x (addr l) (addr r)) = Some (fst y, True)) \<or>
    (\<exists>rl y rr. r = Node rl y rr \<and> chooseChild c (cell x (addr l) (addr r)) = Some (fst y, False))"
  using chooseChild_merged [OF assms] by blast

lemma sinkLoop_leaf:
  assumes "holds c (plug fs (Node l x r))" "separate (plug fs (Node l x r))"
  shows "\<exists>c' fs'. sinkLoop c (addr (plug fs (Node l x r))) (fst x) (top_addr fs) =
      Some (c', addr (plug fs' (Node Leaf x Leaf)), top_addr fs') \<and>
    holds c' (plug fs' (Node Leaf x Leaf)) \<and> (fs' = [] \<longrightarrow> fs = [] \<and> l = Leaf \<and> r = Leaf) \<and>
    plug fs' Leaf = plug fs (merged l r) \<and>
    left_of fs' @ right_of fs' = left_of fs @ inorder l @ inorder r @ right_of fs \<and>
    (\<forall>a. a \<notin> addrs (plug fs (Node l x r)) \<longrightarrow> c' a = c a)"
  using assms
proof (induction "size l + size r" arbitrary: c fs l r rule: less_induct)
  case less
  have h: "c (fst x) = Some (cell x (addr l) (addr r))" "holds c l" "holds c r" "holds c (Node l x r)"
    using less.prems(1) by (auto simp: holds_plug)
  show ?case
  proof (cases "l = Leaf \<and> r = Leaf")
    case True
    with less.prems h show ?thesis
      by (intro exI [of _ c] exI [of _ fs]) (auto simp: sinkLoop.simps [of c _ "fst x"])
  next
    case False
    obtain g y s l' r' isLeft where choose: "chooseChild c (cell x (addr l) (addr r)) = Some (fst y, isLeft)"
      "c (fst y) = Some (cell y (if isLeft then addr s else addr r') (if isLeft then addr l' else addr s))"
      "isLeft \<longleftrightarrow> \<not> in_left g" "isLeft \<longrightarrow> r' = r" "\<not> isLeft \<longrightarrow> l' = l"
      and g: "frame_entry g = y" "frame_other g = s" "holds c s" "holds c l'" "holds c r'"
        "inorder (plug1 g (Node l' x r')) = inorder (Node l x r)" "size l' + size r' < size l + size r"
        "left_of (g # fs) @ inorder l' @ inorder r' @ right_of (g # fs) = left_of fs @ inorder l @ inorder r @ right_of fs"
        "plug1 g (merged l' r') = merged l r"
    proof -
      consider ll y lr where "l = Node ll y lr" "chooseChild c (cell x (addr l) (addr r)) = Some (fst y, True)"
          "merged l r = Node ll y (merged lr r)"
        | rl y rr where "r = Node rl y rr" "chooseChild c (cell x (addr l) (addr r)) = Some (fst y, False)"
          "merged l r = Node (merged l rl) y rr"
        using chooseChild_merged [OF h(4)] False by blast
      then show thesis
      proof cases
        case (1 ll y lr)
        with h show thesis by (intro that [where g = "InRight y ll" and y = y and s = ll and l' = lr and r' = r and isLeft = True]) simp_all
      next
        case (2 rl y rr)
        with h show thesis by (intro that [where g = "InLeft y rr" and y = y and s = rr and l' = l and r' = rl and isLeft = False]) simp_all
      qed
    qed
    obtain c2 where c2: "relinkGrandparent
        (if in_left g then c(fst y \<mapsto> cell y (Some (fst x)) (addr s), fst x \<mapsto> cell x (addr l') (addr r'))
         else c(fst y \<mapsto> cell y (addr s) (Some (fst x)), fst x \<mapsto> cell x (addr l') (addr r')))
        (addr (plug fs (Node l x r))) (fst y) (fst x) (top_addr fs) = Some (c2, addr (plug (g # fs) (Node l' x r')))"
      "holds c2 (plug (g # fs) (Node l' x r'))" "separate (plug (g # fs) (Node l' x r'))"
      "\<forall>a. a \<notin> insert (fst x) (insert (fst y) (path_addrs fs)) \<longrightarrow> c2 a = c a"
      using sinkLoop_step [OF less.prems refl g(1-6)] by blast
    have y: "fst y \<in> addrs (plug fs (Node l x r))"
      using arg_cong [OF g(6), of set] g(1) by (auto simp: addrs_plug plug1_entry)
    have outer: "c2 a = c a" if "a \<notin> addrs (plug fs (Node l x r))" for a
    proof -
      have "a \<notin> path_addrs fs" "a \<noteq> fst x" using that path_in_ctx unfolding addrs_plug by auto
      then show ?thesis using that y c2(4) by auto
    qed
    let ?nn = "cell x (addr l) (addr r)"
    let ?cn = "cell y (if isLeft then addr s else addr r') (if isLeft then addr l' else addr s)"
    have c1: "(if isLeft then c(fst y \<mapsto> ?cn\<lparr>tn_right := Some (fst x)\<rparr>, fst x \<mapsto> ?nn\<lparr>tn_left := tn_right ?cn\<rparr>)
        else c(fst y \<mapsto> ?cn\<lparr>tn_left := Some (fst x)\<rparr>, fst x \<mapsto> ?nn\<lparr>tn_right := tn_left ?cn\<rparr>)) =
      (if in_left g then c(fst y \<mapsto> cell y (Some (fst x)) (addr s), fst x \<mapsto> cell x (addr l') (addr r'))
         else c(fst y \<mapsto> cell y (addr s) (Some (fst x)), fst x \<mapsto> cell x (addr l') (addr r')))"
      using choose(3-5) by (cases isLeft) simp_all
    have nl: "\<not> (tn_left ?nn = None \<and> tn_right ?nn = None)" using False by simp
    have "sinkLoop c (addr (plug fs (Node l x r))) (fst x) (top_addr fs) =
        sinkLoop c2 (addr (plug (g # fs) (Node l' x r'))) (fst x) (top_addr (g # fs))"
      by (subst sinkLoop.simps)
        (simp only: h(1) choose(1,2) nl c1 c2(1) g(1) bind.bind_lunit if_False prod.case list.case)
    moreover have "addrs (plug (g # fs) (Node l' x r')) = addrs (plug fs (Node l x r))"
      using g(6) by (simp only: addrs_inorder inorder_plug plug.simps)
    moreover obtain c' fs' where "sinkLoop c2 (addr (plug (g # fs) (Node l' x r'))) (fst x) (top_addr (g # fs)) =
        Some (c', addr (plug fs' (Node Leaf x Leaf)), top_addr fs')" "holds c' (plug fs' (Node Leaf x Leaf))"
      "fs' \<noteq> []" "plug fs' Leaf = plug (g # fs) (merged l' r')" "left_of fs' @ right_of fs' = left_of (g # fs) @ inorder l' @ inorder r' @ right_of (g # fs)"
      "\<forall>a. a \<notin> addrs (plug (g # fs) (Node l' x r')) \<longrightarrow> c' a = c2 a"
      using less.hyps [OF g(7) c2(2,3)] by blast
    ultimately show ?thesis using outer g(8,9) by (intro exI [of _ c'] exI [of _ fs']) simp
  qed
qed

lemma unlinkLeaf_ctx:
  assumes "holds_ctx c fs (Some n)" "separate_ctx fs" "n \<notin> ctx_addrs fs" "fs \<noteq> []"
  shows "\<exists>c'. unlinkLeaf c (top_addr fs) n = Some c' \<and> holds_ctx c' fs None \<and>
    (\<forall>a. a \<notin> path_addrs fs \<longrightarrow> c' a = c a)"
proof -
  obtain f gs where fs: "fs = f # gs" using assms(4) by (cases fs) auto
  have "addr (frame_other f) \<noteq> Some n" using assms(3) fs addr_in_addrs [of "frame_other f" n] by auto
  with assms fs show ?thesis
    by (cases f) (auto simp: unlinkLeaf_def separate_ctx_Cons)
qed

lemma Delete_present_spec:
  assumes rep: "represents st t T" and d: "descend key T [] = (fs, Node l x r)" and "\<not> (fs = [] \<and> l = Leaf \<and> r = Leaf)"
  shows "\<exists>st' t' T'. Mutable_Delete st t key = Some (st', t') \<and> represents st' t' T' \<and>
    T' = plug fs (merged l r) \<and> entries T' = delete_kv key (entries T) \<and>
    (\<forall>a. live st a \<and> a \<notin> addrs T \<longrightarrow> live st' a \<and> st_cells st' a = st_cells st a)"
proof -
  note rD = representsD [OF rep] and sp = descend_split [OF rep d]
  have k: "ekey x = key" using descend_end [OF d] by auto
  let ?L = "left_of fs @ inorder l" and ?R = "inorder r @ right_of fs"
  have T: "inorder T = ?L @ x # ?R" using sp(1) by (simp add: inorder_plug)
  obtain c1 fs' where c1: "sinkLoop (st_cells st) (addr T) (fst x) (top_addr fs) =
      Some (c1, addr (plug fs' (Node Leaf x Leaf)), top_addr fs')" "holds c1 (plug fs' (Node Leaf x Leaf))"
    "fs' \<noteq> []" "left_of fs' @ right_of fs' = ?L @ ?R" "\<forall>a. a \<notin> addrs T \<longrightarrow> c1 a = st_cells st a"
    "plug fs' Leaf = plug fs (merged l r)"
    using sinkLoop_leaf [of "st_cells st" fs l x r] rD(3,4) assms(3) unfolding sp(1) append_assoc by blast
  have sep: "distinct (map fst (left_of fs' @ right_of fs'))" "fst x \<notin> ctx_addrs fs'"
    using rD(4) unfolding separate_def T ctx_addrs_append c1(4) by auto
  obtain c2 where c2: "unlinkLeaf c1 (top_addr fs') (fst x) = Some c2" "holds_ctx c2 fs' None"
    "\<forall>a. a \<notin> path_addrs fs' \<longrightarrow> c2 a = c1 a"
    using unlinkLeaf_ctx [of c1 fs' "fst x"] c1(2,3) sep by (auto simp: holds_plug separate_ctx_def)
  have "c2 (fst x) = c1 (fst x)" using c2(3) sep(2) path_in_ctx by blast
  define t' where "t' = \<lparr>tr_root = addr (plug fs' Leaf), tr_count = tr_count t - 1,
    tr_totalSize = tr_totalSize t - word_of_nat (esize x)\<rparr>"
  have get: "Mutable_get st t key = Some (Some (fst x), top_addr fs)"
    using getLoop_descend [OF rD(3) d refl] rD(2) by (simp add: Mutable_get_def)
  have root: "addr (plug fs' (Node Leaf x Leaf)) = addr (plug fs' Leaf)" by (rule addr_plug_cong [OF c1(3)])
  have cx: "st_cells st (fst x) = Some (cell x (addr l) (addr r))" "c2 (fst x) = Some (cell x None None)"
    using rD(3) c1(2) \<open>c2 (fst x) = c1 (fst x)\<close> sp(1) by (simp_all add: holds_plug)
  have nl: "\<not> (top_addr fs = None \<and> addr l = None \<and> addr r = None)"
    using assms(3) by (cases fs) auto
  let ?st = "st\<lparr>st_cells := c2\<rparr>"
  have del: "Mutable_Delete st t key = Some (?st, t')"
    using get cx nl c1(1) c2(1) root rD(2) by (auto simp: Mutable_Delete_def t'_def nodeSize_cell)
  have live: "\<forall>z\<in>set (left_of fs' @ right_of fs'). live ?st (fst z)"
    using represents_live [OF rep T] unfolding c1(4) by simp
  have new: "inorder (plug fs' Leaf) = left_of fs' @ right_of fs'" "wf_store ?st" "holds (st_cells ?st) (plug fs' Leaf)"
    using rD(1) c2(2) by (simp_all add: inorder_plug holds_plug)
  have "map snd (left_of fs' @ right_of fs') = map snd (?L @ ?R)" by (simp only: c1(4))
  from represents_delete [OF rep T k new(1) this new(2,3) sep(1) live t'_def]
  have "represents ?st t' (plug fs' Leaf) \<and> entries (plug fs' Leaf) = delete_kv key (entries T)" .
  moreover have sub: "ctx_addrs fs' \<subseteq> addrs T"
    unfolding ctx_addrs_append addrs_inorder T c1(4) by auto
  have "c2 a = st_cells st a" if a: "a \<notin> addrs T" for a
  proof -
    have "a \<notin> path_addrs fs'" using contra_subsetD [OF sub a] path_in_ctx by blast
    then show ?thesis using c1(5) c2(3) a by simp
  qed
  then have "\<forall>a. live st a \<and> a \<notin> addrs T \<longrightarrow> live ?st a \<and> st_cells ?st a = st_cells st a"
    by simp
  ultimately show ?thesis using del c1(6) by blast
qed

lemma Mutable_Delete_spec:
  assumes rep: "represents st t T"
  shows "\<exists>st' t' T'. Mutable_Delete st t key = Some (st', t') \<and> represents st' t' T' \<and>
    entries T' = delete_kv key (entries T) \<and>
    (\<forall>a. live st a \<and> a \<notin> addrs T \<longrightarrow> live st' a \<and> st_cells st' a = st_cells st a)"
proof -
  note r = representsD [OF rep]
  obtain fs t' where d: "descend key T [] = (fs, t')" by fastforce
  note sp = descend_split [OF rep d]
  have get: "Mutable_get st t key = Some (if t' = Leaf then (None, None) else (addr t', top_addr fs))"
    using getLoop_descend [OF r(3) d refl] r(2) by (simp add: Mutable_get_def)
  consider "t' = Leaf" | x where "t' = Node Leaf x Leaf" "fs = []"
    | l x rt where "t' = Node l x rt" "\<not> (fs = [] \<and> l = Leaf \<and> rt = Leaf)"
    by (cases t') auto
  then show ?thesis
  proof cases
    case 1
    have "delete_kv key (entries T) = entries T"
      using sp 1 by (intro delete_kv_absent) (auto simp: entries_ekv inorder_plug)
    with 1 get rep show ?thesis by (auto simp: Mutable_Delete_def)
  next
    case (2 x)
    then have "ekey x = key" "T = Node Leaf x Leaf" using descend_end [OF d] sp(1) by auto
    with 2 get r show ?thesis
      by (intro exI [of _ st] exI [of _ "\<lparr>tr_root = None, tr_count = 0, tr_totalSize = 0\<rparr>"] exI [of _ Leaf])
        (simp add: Mutable_Delete_def represents_def entries_ekv delete_kv_def ekv_def tsize_def)
  next
    case (3 l x rt)
    with Delete_present_spec [OF rep] d show ?thesis by blast
  qed
qed

section \<open>Iteration\<close>

fun spine :: "atree \<Rightarrow> atree list \<Rightarrow> atree list" where
  "spine Leaf ts = ts"
| "spine (Node l x r) ts = spine l (Node l x r # ts)"

fun after :: "atree \<Rightarrow> entry list" where
  "after Leaf = []"
| "after (Node l x r) = x # inorder r"

definition pending :: "atree list \<Rightarrow> entry list" where
  "pending ts = concat (map after ts)"

lemma pending_spine: "pending (spine t ts) = inorder t @ pending ts"
  by (induction t ts rule: spine.induct) (auto simp: pending_def)

definition waiting :: "(nptr \<rightharpoonup> treapNode) \<Rightarrow> parentStack \<Rightarrow> atree list \<Rightarrow> bool" where
  "waiting c s ts \<longleftrightarrow> stacked s (map (the \<circ> addr) ts) \<and> (\<forall>t\<in>set ts. t \<noteq> Leaf \<and> holds c t)"

lemma pushLeft_spine:
  "holds c t \<Longrightarrow> waiting c s ts \<Longrightarrow> \<exists>s'. pushLeft c (addr t) s = Some s' \<and> waiting c s' (spine t ts)"
proof (induction t ts arbitrary: s rule: spine.induct)
  case (1 ts)
  then show ?case by (simp add: pushLeft.simps [of c None])
next
  case (2 l x r ts)
  have "waiting c (Push s (fst x)) (Node l x r # ts)"
    using "2.prems" stacked_Push by (auto simp: waiting_def)
  with 2 show ?case by (simp add: pushLeft.simps [of c "Some (fst x)"])
qed

lemma eachLoop_pending:
  "waiting c s ts \<Longrightarrow> eachLoop c fn z s = Some (run_each fn z (map ekv (pending ts)))"
proof (induction "length (pending ts)" arbitrary: z s ts rule: less_induct)
  case less
  show ?case
  proof (cases ts)
    case Nil
    with less.prems show ?thesis
      by (simp add: eachLoop.simps [of c] waiting_def stacked_Len pending_def)
  next
    case (Cons t us)
    then obtain l x r where t: "t = Node l x r" "holds c t" using less.prems by (cases t) (auto simp: waiting_def)
    obtain s' where pop: "Pop s = (Some (fst x), s')" "waiting c s' us"
      using less.prems Cons t stacked_Pop [of s "fst x"] by (fastforce simp: waiting_def)
    obtain s'' where push: "pushLeft c (addr r) s' = Some s''" "waiting c s'' (spine r us)"
      using pushLeft_spine [OF _ pop(2), of r] t by auto
    have p: "pending ts = x # pending (spine r us)"
      using Cons t by (simp add: pending_spine) (simp add: pending_def)
    have len: "Len s \<noteq> 0" using less.prems Cons by (auto simp: waiting_def stacked_Len)
    have v: "tn_value (cell x (addr l) (addr r)) = snd (ekv x)" by (cases x) (simp add: ekv_def)
    have "ekv x = (ekey x, snd (ekv x))" by (simp add: ekv_def)
    then have run: "run_each fn z (map ekv (pending ts)) =
        (case fn z (ekey x) (snd (ekv x)) of (z, ok) \<Rightarrow>
           if ok then run_each fn z (map ekv (pending (spine r us))) else z)"
      unfolding p by (metis list.simps(9) run_each.simps(2))
    have "eachLoop c fn z' s'' = Some (run_each fn z' (map ekv (pending (spine r us))))" for z'
      using less.hyps [OF _ push(2)] p by simp
    with t pop len push v run show ?thesis
      by (simp add: eachLoop.simps [of c fn z s] split: prod.splits)
  qed
qed

lemma ForEach_spec:
  assumes "represents st t T"
  shows "ForEach st t fn s = Some (run_each fn s (entries T))"
proof -
  have "waiting (st_cells st) newStack []" by (simp add: waiting_def stacked_new)
  then obtain s' where "pushLeft (st_cells st) (addr T) newStack = Some s'" "waiting (st_cells st) s' (spine T [])"
    using pushLeft_spine representsD(3) [OF assms] by blast
  with eachLoop_pending [of "st_cells st" s' "spine T []" fn s] show ?thesis
    by (simp add: ForEach_def representsD(2) [OF assms] entries_ekv pending_spine) (simp add: pending_def)
qed

section \<open>The mutable treap as an ordered map\<close>

definition models :: "store \<times> Treap \<Rightarrow> (byte list \<times> byte list) list \<Rightarrow> bool" where
  "models s m \<longleftrightarrow> (\<exists>T. represents (fst s) (snd s) T \<and> entries T = m)"

interpretation mutable: ordered_map models
  "\<lambda>s. Mutable_Get (fst s) (snd s)" "\<lambda>s. Mutable_Put (fst s) (snd s)" "\<lambda>s. Mutable_Delete (fst s) (snd s)"
proof unfold_locales
  fix s :: "store \<times> Treap" and m k v pr
  assume "models s m"
  then obtain T where T: "represents (fst s) (snd s) T" "entries T = m" by (auto simp: models_def)
  show "sorted_kv m" using T representsD(6) [OF T(1)] by (simp add: entries_ekv ordered_sorted_kv [symmetric])
  show "Mutable_Get (fst s) (snd s) k = Some (map_of m k)" using Mutable_Get_spec(1) [OF T(1)] T(2) by simp
  show "\<exists>s'. Mutable_Put (fst s) (snd s) k v pr = Some s' \<and> models s' (insert_kv k (case v of None \<Rightarrow> [] | Some v \<Rightarrow> v) m)"
    using Mutable_Put_spec [OF T(1), of k v pr] T(2) by (auto simp: models_def)
  show "\<exists>s'. Mutable_Delete (fst s) (snd s) k = Some s' \<and> models s' (delete_kv k m)"
    using Mutable_Delete_spec [OF T(1), of k] T(2) by (auto simp: models_def)
qed

lemma models_new: "wf_store st \<Longrightarrow> models (st, NewMutable) []"
  by (auto simp: models_def NewMutable_def represents_def tsize_def entries_ekv intro!: exI [of _ Leaf])

lemma models_observed:
  assumes "models s m"
  shows "ForEach (fst s) (snd s) fn acc = Some (run_each fn acc m)" "tr_count (snd s) = int (length m)"
    "tr_totalSize (snd s) = word_of_nat (sum_list (map (\<lambda>(k, v). nodeFieldsSize + (length k + length v)) m))"
proof -
  obtain T where T: "represents (fst s) (snd s) T" "entries T = m" using assms by (auto simp: models_def)
  note r = representsD [OF T(1)]
  show "ForEach (fst s) (snd s) fn acc = Some (run_each fn acc m)" using ForEach_spec [OF T(1)] T(2) by simp
  show "tr_count (snd s) = int (length m)" using r(7) T(2) by (auto simp: entries_ekv)
  have "tsize T = sum_list (map (\<lambda>(k, v). nodeFieldsSize + (length k + length v)) m)"
    using T(2) by (auto simp: tsize_def entries_ekv esize_def [abs_def] ekv_def comp_def split_beta)
  then show "tr_totalSize (snd s) = word_of_nat (sum_list (map (\<lambda>(k, v). nodeFieldsSize + (length k + length v)) m))"
    using r(8) by simp
qed

abbreviation mutable_run :: "map_op list \<Rightarrow> store \<times> Treap \<Rightarrow> (store \<times> Treap) option" where
  "mutable_run \<equiv> do_ops (\<lambda>s. Mutable_Put (fst s) (snd s)) (\<lambda>s. Mutable_Delete (fst s) (snd s))"

text \<open>C23: a mutable treap that starts empty and is changed by any sequence of \<^verbatim>\<open>Put\<close> and
\<^verbatim>\<open>Delete\<close> calls, with any priorities, never reaches a nil or dangling pointer and is the sorted
list of pairs that the same sequence gives: \<^verbatim>\<open>Get\<close> is the lookup, \<^verbatim>\<open>ForEach\<close> visits the
pairs in ascending order until the callback stops, and the count and the size are those of the list.\<close>

theorem mutable_refines_sorted_map:
  assumes "wf_store st" and "m = fold spec_op ops []"
  shows "sorted_kv m \<and> (\<exists>st' t. mutable_run ops (st, NewMutable) = Some (st', t) \<and>
    (\<forall>k. Mutable_Get st' t k = Some (map_of m k)) \<and>
    (\<forall>fn acc. ForEach st' t fn (acc :: 's) = Some (run_each fn acc m)) \<and>
    tr_count t = int (length m) \<and>
    tr_totalSize t = word_of_nat (sum_list (map (\<lambda>(k, v). nodeFieldsSize + (length k + length v)) m)))"
proof -
  obtain s where s: "mutable_run ops (st, NewMutable) = Some s" "models s m"
    using mutable.do_ops_models [OF models_new [OF assms(1)]] assms(2) by blast
  obtain st' t where s': "s = (st', t)" by (cases s)
  from s show ?thesis
    using mutable.sorted [OF s(2)] mutable.get_models [OF s(2)] models_observed [OF s(2)] unfolding s' by auto
qed

theorem mutable_refines_sorted_map_witness:
  "\<exists>st t. mutable_run [OpPut [2] (Some [7]) 5, OpPut [1] None 9, OpPut [3] (Some [8]) 1, OpDelete [2]]
      (\<lparr>st_cells = Map.empty, st_pool = [], st_next = 0\<rparr>, NewMutable) = Some (st, t) \<and>
    Mutable_Get st t [3] = Some (Some [8]) \<and> Mutable_Get st t [2] = Some None \<and>
    ForEach st t (\<lambda>xs k v. (xs @ [k], True)) [] = Some [[1], [3]] \<and> tr_count t = 2 \<and> tr_totalSize t = 147"
  using mutable_refines_sorted_map [where st = "\<lparr>st_cells = Map.empty, st_pool = [], st_next = 0\<rparr>" and
      ops = "[OpPut [2] (Some [7]) 5, OpPut [1] None 9, OpPut [3] (Some [8]) 1, OpDelete [2]]" and 's = "byte list list"]
  by (force simp: wf_store_def delete_kv_def nodeFieldsSize_def)

text \<open>\<^verbatim>\<open>Put\<close> keeps the min-heap on the priorities: the treap of a mutable treap whose
priorities grow from the root down still has this order after any insertion or update.\<close>

theorem put_keeps_heap:
  assumes "represents st t T" "heap (map_tree eprio T)" "Mutable_Put st t key val priority = Some (st', t')"
  shows "\<exists>T'. represents st' t' T' \<and> heap (map_tree eprio T')"
  using Mutable_Put_spec [OF assms(1), of key val priority] assms(2,3) by auto

theorem put_keeps_heap_witness:
  "\<exists>st t T. Mutable_Put \<lparr>st_cells = Map.empty, st_pool = [], st_next = 0\<rparr> NewMutable [1] None 4 = Some (st, t) \<and>
    represents st t T \<and> heap (map_tree eprio T)"
proof -
  let ?st = "\<lparr>st_cells = Map.empty, st_pool = [], st_next = 0\<rparr> :: store"
  have "represents ?st NewMutable Leaf" by (simp add: represents_def NewMutable_def wf_store_def tsize_def)
  moreover obtain st t where "Mutable_Put ?st NewMutable [1] None 4 = Some (st, t)"
    using Mutable_Put_spec [OF calculation] by blast
  ultimately show ?thesis using put_keeps_heap [of ?st NewMutable Leaf "[1]" None 4 st t] by auto
qed

text \<open>C35: \<^verbatim>\<open>Delete\<close> does not keep it, against its comments: it rotates the child with the larger priority above the other
one.  In any mutable treap whose priorities grow from the root down, deleting any node that has two children of different
priorities gives a treap in which the priorities no longer grow.\<close>

theorem delete_breaks_heap:
  assumes "represents st t T" "heap (map_tree eprio T)"
    and "Node (Node ll y lr) x (Node rl z rr) \<in> subtrees T" "eprio y \<noteq> eprio z"
  shows "\<exists>st' t' T'. Mutable_Delete st t (ekey x) = Some (st', t') \<and> represents st' t' T' \<and>
    entries T' = delete_kv (ekey x) (entries T) \<and> \<not> heap (map_tree eprio T')"
proof -
  let ?m = "merged (Node ll y lr) (Node rl z rr)"
  obtain fs where "descend (ekey x) T [] = (fs, Node (Node ll y lr) x (Node rl z rr))"
    using descend_subtree [OF representsD(6) [OF assms(1)] assms(3)] by blast
  from Delete_present_spec [OF assms(1) this] obtain st' t' T' where
    "Mutable_Delete st t (ekey x) = Some (st', t')" "represents st' t' T'" "T' = plug fs ?m"
    "entries T' = delete_kv (ekey x) (entries T)" by auto
  moreover have "\<not> heap (map_tree eprio ?m)"
    using assms(4) by (auto simp: tree.set_map set_merged)
  ultimately show ?thesis by (auto simp: heap_plug)
qed

definition heap_store :: store where
  "heap_store = \<lparr>st_cells = [0 \<mapsto> cell (0, [2], [], 1) (Some 1) (Some 2), 1 \<mapsto> cell (1, [1], [], 2) None None,
     2 \<mapsto> cell (2, [3], [], 3) None None], st_pool = [], st_next = 3\<rparr>"

definition heap_tree :: atree where
  "heap_tree = Node (Node Leaf (1, [1], [], 2) Leaf) (0, [2], [], 1) (Node Leaf (2, [3], [], 3) Leaf)"

theorem delete_breaks_heap_witness:
  "\<exists>t st' t' T'. represents heap_store t heap_tree \<and> heap (map_tree eprio heap_tree) \<and>
    Mutable_Delete heap_store t [2] = Some (st', t') \<and> represents st' t' T' \<and> \<not> heap (map_tree eprio T')"
proof -
  let ?t = "\<lparr>tr_root = Some 0, tr_count = 3, tr_totalSize = word_of_nat (tsize heap_tree)\<rparr>"
  have "represents heap_store ?t heap_tree"
    by (simp add: represents_def heap_store_def heap_tree_def wf_store_def live_def separate_def)
  moreover have "heap (map_tree eprio heap_tree)" by (simp add: heap_tree_def)
  ultimately show ?thesis
    using delete_breaks_heap [of heap_store ?t heap_tree Leaf "(1, [1], [], 2)" Leaf "(0, [2], [], 1)" Leaf "(2, [3], [], 3)" Leaf]
    by (force simp: heap_tree_def)
qed

end
