(* ===== verification/Treap_Immutable.thy ===== *)
theory Treap_Immutable
  imports Treap_Mutable
begin

text \<open>
  The immutable treap of \<^verbatim>\<open>database/internal/treap/immutable.go\<close>.  An operation copies the nodes
  on the path it changes and shares the rest with the old version; \<^verbatim>\<open>Put\<close> gives copies that no
  version needs any more back to the pool.  The loops it has in common with the mutable treap
  are the same definitions.
\<close>

section \<open>Operations\<close>

definition NewImmutable :: Treap where
  "NewImmutable = \<lparr>tr_root = None, tr_count = 0, tr_totalSize = 0\<rparr>"

definition newImmutable :: "nptr option \<Rightarrow> int \<Rightarrow> uint64 \<Rightarrow> Treap" where
  "newImmutable root count totalSize = \<lparr>tr_root = root, tr_count = count, tr_totalSize = totalSize\<rparr>"

definition Immutable_get :: "store \<Rightarrow> Treap \<Rightarrow> byte list \<Rightarrow> nptr option option" where
  "Immutable_get st t key = map_option fst (getLoop (st_cells st) key (tr_root t) None)"

definition Immutable_Has :: "store \<Rightarrow> Treap \<Rightarrow> byte list \<Rightarrow> bool option" where
  "Immutable_Has st t key = map_option (\<lambda>node. node \<noteq> None) (Immutable_get st t key)"

definition Immutable_Get :: "store \<Rightarrow> Treap \<Rightarrow> byte list \<Rightarrow> byte list option option" where
  "Immutable_Get st t key =
     Option.bind (Immutable_get st t key) (\<lambda>node.
       case node of
         None \<Rightarrow> Some None
       | Some p \<Rightarrow> map_option (\<lambda>nd. Some (tn_value nd)) (st_cells st p))"

text \<open>Linking the copy of a node to the copy of its parent, if it has one.\<close>

definition linkCopy ::
    "(nptr \<rightharpoonup> treapNode) \<Rightarrow> nptr option \<Rightarrow> nptr \<Rightarrow> nptr \<Rightarrow> (nptr \<rightharpoonup> treapNode) option" where
  "linkCopy c oldParent node nodeCopy =
     (case oldParent of
        None \<Rightarrow> Some c
      | Some g \<Rightarrow>
          Option.bind (c g) (\<lambda>gn.
            if tn_left gn = Some node then Some (c(g \<mapsto> gn\<lparr>tn_left := Some nodeCopy\<rparr>))
            else Some (c(g \<mapsto> gn\<lparr>tn_right := Some nodeCopy\<rparr>))))"

text \<open>The array of new nodes, filled while there is room.\<close>

definition remember :: "nptr list \<Rightarrow> nptr \<Rightarrow> nptr list" where
  "remember recycled node = (if length recycled < staticDepth then recycled @ [node] else recycled)"

text \<open>
  The search loop of \<^verbatim>\<open>put\<close>: the parents (copies), the last comparison, the new nodes, and the
  node found with its copy.
\<close>

partial_function (option) putLoop ::
    "store \<Rightarrow> byte list \<Rightarrow> nptr option \<Rightarrow> parentStack \<Rightarrow> int \<Rightarrow> nptr list \<Rightarrow>
     (store \<times> parentStack \<times> int \<times> nptr list \<times> (nptr \<times> nptr) option) option" where
  "putLoop st key node parents compareResult recycled =
     (case node of
        None \<Rightarrow> Some (st, parents, compareResult, recycled, None)
      | Some p \<Rightarrow>
          Option.bind (st_cells st p) (\<lambda>nd.
            case cloneTreapNode st nd of (nodeCopy, st) \<Rightarrow>
            Option.bind (linkCopy (st_cells st) (At parents 0) p nodeCopy) (\<lambda>c.
              let recycled = remember recycled nodeCopy;
                  st = st\<lparr>st_cells := c\<rparr>;
                  parents = Push parents nodeCopy;
                  compareResult = Compare key (tn_key nd)
              in
              if compareResult < 0 then putLoop st key (tn_left nd) parents compareResult recycled
              else if compareResult > 0 then putLoop st key (tn_right nd) parents compareResult recycled
              else Some (st, parents, compareResult, recycled, Some (p, nodeCopy)))))"

definition Immutable_put ::
    "store \<Rightarrow> Treap \<Rightarrow> byte list \<Rightarrow> byte list option \<Rightarrow> int \<Rightarrow> (store \<times> Treap \<times> nptr list) option" where
  "Immutable_put st t key val priority =
     (let val = (case val of None \<Rightarrow> [] | Some v \<Rightarrow> v) in
      if tr_root t = None then
        let (root, st) = newTreapNode st key val priority in
        Option.bind (st_cells st root) (\<lambda>nd.
          Some (st, newImmutable (Some root) 1 (nodeSize nd), [root]))
      else
        Option.bind (putLoop st key (tr_root t) newStack 0 [])
          (\<lambda>(st, parents, compareResult, recycled, found).
            case found of
              Some (node, nodeCopy) \<Rightarrow>
                Option.bind (st_cells st nodeCopy) (\<lambda>cn.
                Option.bind (st_cells st node) (\<lambda>nd.
                  Some
                    (st\<lparr>st_cells := (st_cells st)(nodeCopy \<mapsto> cn\<lparr>tn_value := val\<rparr>)\<rparr>,
                     newImmutable (At parents (Len parents - 1)) (tr_count t)
                       (tr_totalSize t - word_of_nat (length (tn_value nd)) + word_of_nat (length val)),
                     recycled)))
            | None \<Rightarrow>
                let (node, st) = newTreapNode st key val priority;
                    recycled = remember recycled node
                in
                Option.bind (st_cells st node) (\<lambda>nd.
                Option.bind (linkChild (st_cells st) (At parents 0) compareResult node) (\<lambda>c.
                Option.bind (rotateLoop c (At parents (Len parents - 1)) node parents) (\<lambda>(c, newRoot).
                  Some
                    (st\<lparr>st_cells := c\<rparr>,
                     newImmutable newRoot (tr_count t + 1) (tr_totalSize t + nodeSize nd),
                     recycled))))))"

text \<open>The loop of \<^verbatim>\<open>Put\<close> over the nodes made by the previous insertion.\<close>

fun recycleUnused :: "store \<Rightarrow> Treap \<Rightarrow> nptr list \<Rightarrow> store option" where
  "recycleUnused st newTreap [] = Some st"
| "recycleUnused st newTreap (node # nodes) =
     Option.bind (st_cells st node) (\<lambda>nd.
     Option.bind (Immutable_get st newTreap (tn_key nd)) (\<lambda>got.
       recycleUnused (if got = Some node then st else recycle st node) newTreap nodes))"

text \<open>The pairs come with the priority that a new node of each gets.\<close>

fun putPairs :: "store \<Rightarrow> Treap \<Rightarrow> nptr list \<Rightarrow> (byte list \<times> byte list option \<times> int) list \<Rightarrow> (store \<times> Treap) option" where
  "putPairs st treap prevTreapNodes [] = Some (st, treap)"
| "putPairs st treap prevTreapNodes ((key, val, priority) # kvPairs) =
     Option.bind (Immutable_put st treap key val priority) (\<lambda>(st, newTreap, newTreapNodes).
     Option.bind (recycleUnused st newTreap prevTreapNodes) (\<lambda>st.
       putPairs st newTreap newTreapNodes kvPairs))"

definition Immutable_Put :: "store \<Rightarrow> Treap \<Rightarrow> (byte list \<times> byte list option \<times> int) list \<Rightarrow> (store \<times> Treap) option" where
  "Immutable_Put st t kvPairs = putPairs st t [] kvPairs"

text \<open>The copies of the parents and of the node to delete, from the root down.\<close>

primrec copyPath :: "nat \<Rightarrow> store \<Rightarrow> parentStack \<Rightarrow> parentStack \<Rightarrow> (store \<times> parentStack) option" where
  "copyPath 0 st parents newParents = Some (st, newParents)"
| "copyPath (Suc i) st parents newParents =
     Option.bind (At parents i) (\<lambda>node.
     Option.bind (st_cells st node) (\<lambda>nd.
       case cloneTreapNode st nd of (nodeCopy, st) \<Rightarrow>
       Option.bind (linkCopy (st_cells st) (At newParents 0) node nodeCopy) (\<lambda>c.
         copyPath i (st\<lparr>st_cells := c\<rparr>) parents (Push newParents nodeCopy))))"

partial_function (option) sinkCopyLoop ::
    "store \<Rightarrow> nptr option \<Rightarrow> nptr \<Rightarrow> nptr option \<Rightarrow> (store \<times> nptr option \<times> nptr option) option" where
  "sinkCopyLoop st newRoot delNode parent =
     Option.bind (st_cells st delNode) (\<lambda>dn.
       if tn_left dn = None \<and> tn_right dn = None then Some (st, newRoot, parent)
       else
         Option.bind (chooseChild (st_cells st) dn) (\<lambda>(oldChild, isLeft).
         Option.bind (st_cells st oldChild) (\<lambda>cn.
           case cloneTreapNode st cn of (child, st) \<Rightarrow>
           Option.bind
             (relinkGrandparent
               (if isLeft then
                  (st_cells st)(child \<mapsto> cn\<lparr>tn_right := Some delNode\<rparr>, delNode \<mapsto> dn\<lparr>tn_left := tn_right cn\<rparr>)
                else
                  (st_cells st)(child \<mapsto> cn\<lparr>tn_left := Some delNode\<rparr>, delNode \<mapsto> dn\<lparr>tn_right := tn_left cn\<rparr>))
               newRoot child delNode parent)
             (\<lambda>(c, newRoot). sinkCopyLoop (st\<lparr>st_cells := c\<rparr>) newRoot delNode (Some child)))))"

text \<open>\<^verbatim>\<open>At(Len - 1)\<close> of an empty stack reads the first slot, which holds nil then: \<open>None\<close> as well.\<close>

definition Immutable_Delete :: "store \<Rightarrow> Treap \<Rightarrow> byte list \<Rightarrow> (store \<times> Treap) option" where
  "Immutable_Delete st t key =
     Option.bind (insertLoop (st_cells st) key (tr_root t) newStack 0) (\<lambda>(parents, compareResult, delNode).
       case delNode of
         None \<Rightarrow> Some (st, t)
       | Some n \<Rightarrow>
           Option.bind (st_cells st n) (\<lambda>nd.
             if At parents 1 = None \<and> tn_left nd = None \<and> tn_right nd = None then
               Some (st, newImmutable None 0 0)
             else
               Option.bind (copyPath (Len parents) st parents newStack) (\<lambda>(st, newParents).
               case Pop newParents of (delNode, newParents) \<Rightarrow>
               Option.bind delNode (\<lambda>delNode.
               Option.bind
                 (sinkCopyLoop st (At newParents (Len newParents - 1)) delNode (At newParents 0))
                 (\<lambda>(st, newRoot, parent).
               Option.bind (unlinkLeaf (st_cells st) parent delNode) (\<lambda>c.
               Option.bind (c delNode) (\<lambda>dn.
                 Some
                   (st\<lparr>st_cells := c\<rparr>,
                    newImmutable newRoot (tr_count t - 1) (tr_totalSize t - nodeSize dn)))))))))"

definition Immutable_ForEach ::
    "store \<Rightarrow> Treap \<Rightarrow> ('s \<Rightarrow> byte list \<Rightarrow> byte list \<Rightarrow> 's \<times> bool) \<Rightarrow> 's \<Rightarrow> 's option" where
  "Immutable_ForEach st t fn s =
     Option.bind (pushLeft (st_cells st) (tr_root t) newStack) (eachLoop (st_cells st) fn s)"

section \<open>Copied paths\<close>

text \<open>Every live node of the first store is still live in the second, with the same contents.\<close>

definition extends :: "store \<Rightarrow> store \<Rightarrow> bool" where
  "extends st0 st \<longleftrightarrow> (\<forall>a. live st0 a \<longrightarrow> live st a \<and> st_cells st a = st_cells st0 a)"

lemma extends_refl [simp]: "extends st st"
  by (simp add: extends_def)

lemma extends_trans: "extends a b \<Longrightarrow> extends b c \<Longrightarrow> extends a c"
  by (simp add: extends_def)

lemma extends_upd:
  assumes "extends st0 st" "\<And>a. live st a \<Longrightarrow> live st' a" "\<And>a. a \<notin> S \<Longrightarrow> c a = st_cells st a"
    and "\<And>a. a \<in> S \<Longrightarrow> \<not> live st0 a"
  shows "extends st0 (st'\<lparr>st_cells := c\<rparr>)"
  unfolding extends_def
proof (intro allI impI)
  fix a
  assume "live st0 a"
  with assms(4) have "a \<notin> S" by blast
  with assms(1-3) \<open>live st0 a\<close> show "live (st'\<lparr>st_cells := c\<rparr>) a \<and> st_cells (st'\<lparr>st_cells := c\<rparr>) a = st_cells st0 a"
    by (simp add: extends_def)
qed

text \<open>Versions survive: what a treap stands for does not change when the store is extended.\<close>

lemma represents_extends: "represents st t T \<Longrightarrow> extends st st' \<Longrightarrow> wf_store st' \<Longrightarrow> represents st' t T"
  unfolding represents_def extends_def using holds_frame [of T "st_cells st'" "st_cells st"] by auto

definition copy_of :: "frame \<Rightarrow> frame \<Rightarrow> bool" where
  "copy_of f f' \<longleftrightarrow>
     in_left f' = in_left f \<and> frame_other f' = frame_other f \<and> snd (frame_entry f') = snd (frame_entry f)"

lemma copy_of_simps [simp]:
  "copy_of (InLeft x r) (InLeft y s) \<longleftrightarrow> s = r \<and> snd y = snd x"
  "copy_of (InRight x r) (InRight y s) \<longleftrightarrow> s = r \<and> snd y = snd x"
  by (auto simp: copy_of_def)

lemma copies_data:
  "list_all2 copy_of fs fs' \<Longrightarrow>
     map snd (left_of fs') = map snd (left_of fs) \<and> map snd (right_of fs') = map snd (right_of fs)"
proof (induction fs fs' rule: list_all2_induct)
  case (Cons f fs f' fs')
  then show ?case by (cases f; cases f') (auto simp: copy_of_def)
qed simp

text \<open>
  The store \<open>st\<close> extends \<open>st0\<close> and holds a tree whose path down to a subtree consists of new
  nodes.
\<close>

definition copying :: "store \<Rightarrow> store \<Rightarrow> frame list \<Rightarrow> atree \<Rightarrow> bool" where
  "copying st0 st fs t \<longleftrightarrow>
     wf_store st \<and> extends st0 st \<and> holds (st_cells st) (plug fs t) \<and> separate (plug fs t) \<and>
     (\<forall>a\<in>addrs (plug fs t). live st a) \<and> (\<forall>a\<in>path_addrs fs. \<not> live st0 a)"

lemma copyingD:
  assumes "copying st0 st fs t"
  shows "wf_store st" "extends st0 st" "holds (st_cells st) (plug fs t)" "separate (plug fs t)"
    "\<And>a. a \<in> addrs (plug fs t) \<Longrightarrow> live st a" "\<And>a. a \<in> path_addrs fs \<Longrightarrow> \<not> live st0 a"
  using assms by (auto simp: copying_def)

lemma copying_left: "copying st0 st fs (Node l x r) \<Longrightarrow> \<not> live st0 (fst x) \<Longrightarrow> copying st0 st (InLeft x r # fs) l"
  by (auto simp: copying_def)

lemma copying_right: "copying st0 st fs (Node l x r) \<Longrightarrow> \<not> live st0 (fst x) \<Longrightarrow> copying st0 st (InRight x l # fs) r"
  by (auto simp: copying_def)

lemma linkCopy_relink: "linkCopy c p old new = map_option fst (relinkGrandparent c None new old p)"
  by (auto simp: linkCopy_def relinkGrandparent_def split: option.splits bind_splits)

lemma copy_node:
  assumes cp: "copying st0 st fs (Node l x r)" and cl: "cloneTreapNode st (cell x (addr l) (addr r)) = (a, st1)"
  shows "\<exists>c. linkCopy (st_cells st1) (top_addr fs) (fst x) a = Some c \<and>
    copying st0 (st1\<lparr>st_cells := c\<rparr>) fs (Node l (a, snd x) r) \<and> \<not> live st a \<and> \<not> live st0 a \<and>
    extends st0 (st1\<lparr>st_cells := c\<rparr>) \<and> (\<forall>b. live (st1\<lparr>st_cells := c\<rparr>) b \<longleftrightarrow> live st b \<or> b = a)"
proof -
  note D = copyingD [OF cp] and f = cloneTreapNode_fresh [OF copyingD(1) [OF cp] cl]
  let ?x = "(a, snd x)" and ?t = "Node l (a, snd x) r"
  have cx: "cell ?x p q = cell x p q" for p q by (cases x) (simp add: cell_def)
  have fresh: "a \<notin> addrs (plug fs (Node l x r))" using f(1) D(5) by blast
  then have fr: "a \<notin> addrs l" "a \<notin> addrs r" "a \<notin> ctx_addrs fs" by (auto simp: addrs_plug)
  have sep: "separate_ctx fs" "addrs (Node l x r) \<inter> ctx_addrs fs = {}" "separate (Node l x r)"
    using D(4) by (simp_all add: separate_plug_iff)
  have h: "holds (st_cells st1) ?t" "holds_ctx (st_cells st1) fs (Some (fst x))"
    using D(3) fr f(4) by (auto simp: holds_plug cx)
  have disj: "addrs ?t \<inter> ctx_addrs fs = {}" "fst x \<notin> ctx_addrs fs" using sep(2) fr by auto
  obtain c root where c: "relinkGrandparent (st_cells st1) None a (fst x) (top_addr fs) = Some (c, root)"
    "holds_ctx c fs (Some a)" "\<forall>b. b \<notin> path_addrs fs \<longrightarrow> c b = st_cells st1 b"
    using relinkGrandparent_ctx [OF h(2) sep(1) disj(2), of None a] by blast
  have "holds c ?t"
    using h(1) disj(1) c(3) path_in_ctx by (subst holds_frame [of _ c "st_cells st1"]) blast+
  then have hold: "holds c (plug fs ?t)" using c(2) by (simp add: holds_plug)
  have "separate ?t" using sep(3) fr by (simp add: separate_Node)
  then have sep': "separate (plug fs ?t)" using sep(1) disj(1) by (simp add: separate_plug_iff)
  have nl: "\<not> live st0 a" using f(1) D(2) by (auto simp: extends_def)
  have ext: "extends st0 (st1\<lparr>st_cells := c\<rparr>)"
    using D(2,6) f(2,4) c(3) nl by (intro extends_upd [where S = "insert a (path_addrs fs)"]) auto
  have "live st1 b" if "b \<in> addrs (plug fs ?t)" for b
    using that D(5) [of b] f(2) [of b] by (auto simp: addrs_plug)
  then have "copying st0 (st1\<lparr>st_cells := c\<rparr>) fs ?t"
    using hold sep' ext f(3) D(6) by (simp add: copying_def)
  then show ?thesis using c(1) f(1,2) nl ext by (simp add: linkCopy_relink)
qed

lemma remember_subset:
  "distinct ns \<Longrightarrow> set ns \<subseteq> S \<Longrightarrow> a \<notin> S \<Longrightarrow> distinct (remember ns a) \<and> set (remember ns a) \<subseteq> insert a S"
  by (auto simp: remember_def)

text \<open>What the search loop of \<^verbatim>\<open>put\<close> ends with, at a free place or at a node with the key.\<close>

definition search_end :: "store \<Rightarrow> store \<Rightarrow> frame list \<Rightarrow> atree \<Rightarrow> parentStack \<Rightarrow> int \<Rightarrow> (nptr \<times> nptr) option \<Rightarrow> bool" where
  "search_end st0 st gs t parents cmp found \<longleftrightarrow>
     (case t of
        Leaf \<Rightarrow> found = None \<and> copying st0 st gs Leaf \<and> stacked parents (map frame_addr gs) \<and> side_ok cmp gs
      | Node l x r \<Rightarrow>
          (\<exists>a. found = Some (fst x, a) \<and> copying st0 st gs (Node l (a, snd x) r) \<and> \<not> live st0 a \<and>
             stacked parents (a # map frame_addr gs)))"

lemma top_At: "stacked parents (map frame_addr fs) \<Longrightarrow> At parents 0 = top_addr fs"
  by (cases fs) (simp_all add: stacked_At)

lemma putLoop_spec:
  assumes "copying st0 st fs' t" "list_all2 copy_of fs fs'" "descend key t fs = (gs, t')"
    and "stacked parents (map frame_addr fs')" "side_ok cr fs'" "distinct ns" "set ns \<subseteq> path_addrs fs'"
  shows "\<exists>st' parents' cmp ns' found gs'. putLoop st key (addr t) parents cr ns = Some (st', parents', cmp, ns', found) \<and>
    list_all2 copy_of gs gs' \<and> search_end st0 st' gs' t' parents' cmp found \<and>
    distinct ns' \<and> set ns' \<subseteq> set_option (map_option snd found) \<union> path_addrs gs'"
  using assms
proof (induction key t fs arbitrary: st fs' parents cr ns rule: descend.induct)
  case (1 key fs)
  then show ?case by (auto simp: putLoop.simps [of _ _ None] search_end_def)
next
  case (2 key l x r fs)
  obtain a st1 where cl: "cloneTreapNode st (cell x (addr l) (addr r)) = (a, st1)" by fastforce
  obtain c where c: "linkCopy (st_cells st1) (top_addr fs') (fst x) a = Some c"
    "copying st0 (st1\<lparr>st_cells := c\<rparr>) fs' (Node l (a, snd x) r)" "\<not> live st a" "\<not> live st0 a"
    "\<forall>b. live (st1\<lparr>st_cells := c\<rparr>) b \<longleftrightarrow> live st b \<or> b = a"
    using copy_node [OF "2.prems"(1) cl] by blast
  let ?st = "st1\<lparr>st_cells := c\<rparr>" and ?x = "(a, snd x)" and ?cr = "Compare key (ekey x)"
  have cx: "st_cells st (fst x) = Some (cell x (addr l) (addr r))"
    using copyingD(3) [OF "2.prems"(1)] by (simp add: holds_plug)
  have eq: "putLoop st key (addr (Node l x r)) parents cr ns =
      (if key < ekey x then putLoop ?st key (addr l) (Push parents a) ?cr (remember ns a)
       else if ekey x < key then putLoop ?st key (addr r) (Push parents a) ?cr (remember ns a)
       else Some (?st, Push parents a, ?cr, remember ns a, Some (fst x, a)))"
    using cx cl c(1) top_At [OF "2.prems"(4)]
    by (simp add: putLoop.simps [of st key "Some (fst x)"] Let_def)
  have "a \<notin> path_addrs fs'"
    using c(3) copyingD(5) [OF "2.prems"(1)] path_in_ctx unfolding addrs_plug by blast
  then have ns: "distinct (remember ns a) \<and> set (remember ns a) \<subseteq> insert a (path_addrs fs')"
    using "2.prems"(6,7) by (rule remember_subset [rotated 2])
  have st: "stacked (Push parents a) (a # map frame_addr fs')" using "2.prems"(4) by (rule stacked_Push)
  consider "key < ekey x" | "ekey x < key" "\<not> key < ekey x" | "\<not> ekey x < key" "\<not> key < ekey x" by blast
  then show ?case
  proof cases
    case lt: 1
    have "copying st0 ?st (InLeft ?x r # fs') l" using copying_left [OF c(2)] c(4) by simp
    moreover have "list_all2 copy_of (InLeft x r # fs) (InLeft ?x r # fs')"
      using "2.prems"(2) by simp
    moreover have "side_ok ?cr (InLeft ?x r # fs')" using lt by (simp add: side_ok_def)
    ultimately show ?thesis
      using "2.IH"(1) [OF lt] "2.prems"(3) st ns lt unfolding eq by simp
  next
    case gt: 2
    have "copying st0 ?st (InRight ?x l # fs') r" using copying_right [OF c(2)] c(4) by simp
    moreover have "list_all2 copy_of (InRight x l # fs) (InRight ?x l # fs')"
      using "2.prems"(2) by simp
    moreover have "side_ok ?cr (InRight ?x l # fs')" using gt by (simp add: side_ok_def)
    ultimately show ?thesis
      using "2.IH"(2) [OF gt(2,1)] "2.prems"(3) st ns gt unfolding eq by simp
  next
    case eq3: 3
    with "2.prems"(2,3) c(2,4) ns st show ?thesis unfolding eq by (auto simp: search_end_def)
  qed
qed

lemma addr_plug_last: "fs \<noteq> [] \<Longrightarrow> addr (plug fs t) = Some (frame_addr (last fs))"
proof (induction fs arbitrary: t)
  case (Cons f fs)
  then show ?case by (cases "fs = []") auto
qed simp

lemma root_At:
  assumes "stacked parents (map frame_addr fs)" "fs \<noteq> []"
  shows "At parents (Len parents - 1) = addr (plug fs t)"
  using assms by (simp add: stacked_At stacked_Len addr_plug_last last_conv_nth)

lemma copying_start: "represents st t T \<Longrightarrow> copying st st [] T"
  by (auto simp: copying_def dest: representsD)

lemma copies_heap:
  assumes "list_all2 copy_of fs fs'"
  shows "map_tree eprio t' = map_tree eprio t \<Longrightarrow> map_tree eprio (plug fs' t') = map_tree eprio (plug fs t)"
  using assms
proof (induction fs fs' arbitrary: t t' rule: list_all2_induct)
  case (Cons f fs f' fs')
  have "eprio (frame_entry f') = eprio (frame_entry f)" using Cons.hyps(1) by (simp add: copy_of_def eprio_def)
  then have "map_tree eprio (plug1 f' t') = map_tree eprio (plug1 f t)"
    using Cons.hyps(1) Cons.prems by (cases f; cases f') (auto simp: copy_of_def)
  then show ?case using Cons.IH by simp
qed simp

section \<open>Insertion\<close>

text \<open>What an insertion into a treap that stands for \<open>T\<close> does to the store.\<close>

definition put_result :: "store \<Rightarrow> atree \<Rightarrow> byte list \<Rightarrow> byte list \<Rightarrow> store \<Rightarrow> Treap \<Rightarrow> nptr list \<Rightarrow> bool" where
  "put_result st T key v st' t' ns \<longleftrightarrow>
     extends st st' \<and> distinct ns \<and> (\<forall>a\<in>set ns. \<not> live st a) \<and>
     (\<exists>T'. represents st' t' T' \<and> entries T' = insert_kv key v (entries T) \<and> set ns \<subseteq> addrs T' \<and>
        (heap (map_tree eprio T) \<longrightarrow> heap (map_tree eprio T')))"

lemma put_new:
  assumes rep: "represents st t T" "T \<noteq> Leaf" "descend key T [] = (gs, Leaf)"
    and v: "v = (case val of None \<Rightarrow> [] | Some v \<Rightarrow> v)"
  shows "\<exists>st' t' ns. Immutable_put st t key val priority = Some (st', t', ns) \<and> put_result st T key v st' t' ns"
proof -
  note r = representsD [OF rep(1)] and sp = descend_split [OF rep(1,3)]
  have "side_ok 0 []" "stacked newStack (map frame_addr [])"
    by (simp_all add: side_ok_def stacked_new)
  then obtain st1 parents cmp ns gs' where
    loop: "putLoop st key (addr T) newStack 0 [] = Some (st1, parents, cmp, ns, None)"
    "list_all2 copy_of gs gs'" "distinct ns \<and> set ns \<subseteq> path_addrs gs'" "copying st st1 gs' Leaf"
    "stacked parents (map frame_addr gs')" "side_ok cmp gs'"
    using putLoop_spec [OF copying_start [OF rep(1)] list_all2_Nil2 [THEN iffD2, OF refl] rep(3), of newStack 0 "[]"]
    by (auto simp: search_end_def)
  note D = copyingD [OF loop(4)]
  have ne: "gs' \<noteq> []" using descend_Leaf rep(2,3) loop(2) by auto
  obtain node st2 where new: "newTreapNode st1 key v priority = (node, st2)" by fastforce
  define x where "x = (node, key, v, priority)"
  note f = cloneTreapNode_fresh [OF D(1) new [unfolded newTreapNode_clone]]
  have cells2: "st_cells st2 = (st_cells st1)(node \<mapsto> cell x None None)" by (simp add: f(4) x_def cell_def)
  have fresh: "fst x \<notin> ctx_addrs gs'" using f(1) D(5) [of node] by (auto simp: x_def addrs_plug)
  have "holds (st_cells st2) (plug gs' Leaf)" using D(3) fresh by (simp add: cells2 addrs_plug x_def)
  from insert_fresh [OF this D(4) ne fresh _ loop(5,6)] cells2
  obtain c1 c2 where c: "linkChild (st_cells st2) (At parents 0) cmp node = Some c1"
    "rotateLoop c1 (addr (plug gs' Leaf)) node parents = Some (c2, addr (up gs' Leaf x Leaf))"
    "holds c2 (up gs' Leaf x Leaf)" "\<forall>a. a \<notin> insert node (path_addrs gs') \<longrightarrow> c2 a = st_cells st2 a"
    by (auto simp: x_def)
  let ?st = "st2\<lparr>st_cells := c2\<rparr>"
  define t' where "t' = \<lparr>tr_root = addr (up gs' Leaf x Leaf), tr_count = tr_count t + 1,
    tr_totalSize = tr_totalSize t + word_of_nat (esize x)\<rparr>"
  have put: "Immutable_put st t key val priority = Some (?st, t', remember ns node)"
    using rep(2) r(2) loop(1) new cells2 c root_At [OF loop(5) ne, of Leaf]
    by (simp add: Immutable_put_def v t'_def nodeSize_cell newImmutable_def)
  have T: "inorder T = left_of gs @ right_of gs" using sp(1) by (simp add: inorder_plug)
  have live: "\<forall>y\<in>set (left_of gs' @ x # right_of gs'). live ?st (fst y)"
    using D(5) f(2) by (auto simp: addrs_plug ctx_addrs_eq x_def)
  have dist: "distinct (map fst (left_of gs' @ x # right_of gs'))"
    using D(4) fresh unfolding separate_plug ctx_addrs_eq by auto
  have new': "inorder (up gs' Leaf x Leaf) = left_of gs' @ x # right_of gs'" "snd x = (key, v, priority)"
    "wf_store ?st" "holds (st_cells ?st) (up gs' Leaf x Leaf)"
    using f(3) c(3) by (simp_all add: inorder_up x_def)
  note cp = conjunct1 [OF copies_data [OF loop(2)]] conjunct2 [OF copies_data [OF loop(2)]]
  from represents_insert [OF rep(1) T sp(2,3) new'(1) cp new'(2-4) dist live t'_def]
  have "represents ?st t' (up gs' Leaf x Leaf) \<and> entries (up gs' Leaf x Leaf) = insert_kv key v (entries T)" .
  moreover have "heap (map_tree eprio (up gs' Leaf x Leaf))" if "heap (map_tree eprio T)"
    using that sp(1) copies_heap [OF loop(2), of Leaf Leaf] by (intro heap_up) simp_all
  moreover have "\<not> live st node" using f(1) D(2) by (auto simp: extends_def)
  moreover from this have "extends st ?st"
    using D(2,6) f(2) c(4) cells2 by (intro extends_upd [where S = "insert node (path_addrs gs')"]) auto
  moreover have ns: "distinct (remember ns node) \<and> set (remember ns node) \<subseteq> insert node (path_addrs gs')"
    using loop(3) fresh path_in_ctx by (intro remember_subset) (auto simp: x_def)
  moreover from this have "\<forall>a\<in>set (remember ns node). \<not> live st a"
    using D(6) \<open>\<not> live st node\<close> by blast
  moreover have "insert node (path_addrs gs') \<subseteq> addrs (up gs' Leaf x Leaf)"
    unfolding addrs_inorder inorder_up using path_in_ctx [of _ gs'] by (auto simp: ctx_addrs_eq x_def)
  ultimately show ?thesis
    using put unfolding put_result_def
    by (intro exI [of _ ?st] exI [of _ t'] exI [of _ "remember ns node"] conjI exI [of _ "up gs' Leaf x Leaf"]) blast+
qed

lemma put_old:
  assumes rep: "represents st t T" "descend key T [] = (gs, Node l y rt)"
    and v: "v = (case val of None \<Rightarrow> [] | Some v \<Rightarrow> v)"
  shows "\<exists>st' t' ns. Immutable_put st t key val priority = Some (st', t', ns) \<and> put_result st T key v st' t' ns"
proof -
  note r = representsD [OF rep(1)] and sp = descend_split [OF rep]
  have "side_ok 0 []" "stacked newStack (map frame_addr [])"
    by (simp_all add: side_ok_def stacked_new)
  then obtain st1 parents cmp ns gs' a where
    loop: "putLoop st key (addr T) newStack 0 [] = Some (st1, parents, cmp, ns, Some (fst y, a))"
    "list_all2 copy_of gs gs'" "distinct ns \<and> set ns \<subseteq> insert a (path_addrs gs')"
    "copying st st1 gs' (Node l (a, snd y) rt)"
    "\<not> live st a" "stacked parents (a # map frame_addr gs')"
    using putLoop_spec [OF copying_start [OF rep(1)] list_all2_Nil2 [THEN iffD2, OF refl] rep(2), of newStack 0 "[]"]
    by (auto simp: search_end_def)
  note D = copyingD [OF loop(4)]
  have k: "ekey y = key" using descend_end [OF rep(2)] by auto
  then obtain b w p where y: "y = (b, key, w, p)" by (cases y) auto
  define x where "x = (a, key, v, p)"
  define T' where "T' = plug gs' (Node l x rt)"
  let ?L = "left_of gs @ inorder l" and ?R = "inorder rt @ right_of gs"
  let ?L' = "left_of gs' @ inorder l" and ?R' = "inorder rt @ right_of gs'"
  have T: "inorder T = ?L @ y # ?R" using sp(1) by (simp add: inorder_plug)
  have ca: "st_cells st1 a = Some (cell (a, snd y) (addr l) (addr rt))" using D(3) by (simp add: holds_plug)
  have cb: "st_cells st1 b = Some (cell y (addr l) (addr rt))"
    using D(2) r(3,5) sp(1) y by (auto simp: extends_def holds_plug addrs_plug)
  have sep: "a \<notin> addrs l" "a \<notin> addrs rt" "a \<notin> ctx_addrs gs'"
    using D(4) by (auto simp: separate_plug_iff separate_Node)
  let ?st = "st1\<lparr>st_cells := (st_cells st1)(a \<mapsto> cell x (addr l) (addr rt))\<rparr>"
  define t' where "t' = \<lparr>tr_root = addr T', tr_count = tr_count t,
      tr_totalSize = tr_totalSize t - word_of_nat (length (snd (ekv y))) + word_of_nat (length v)\<rparr>"
  have root: "At parents (Len parents - 1) = addr T'"
    using loop(6) by (cases "gs' = []")
      (simp_all add: T'_def stacked_At stacked_Len addr_plug_last last_conv_nth x_def nth_Cons')
  have "T \<noteq> Leaf" using rep(2) by auto
  then have put: "Immutable_put st t key val priority = Some (?st, t', ns)"
    using r(2) loop(1) ca cb y root
    by (simp add: Immutable_put_def v t'_def x_def cell_def ekv_def newImmutable_def Let_def)
  have dist: "distinct (map fst (?L' @ x # ?R'))" using D(4) unfolding separate_plug by (simp add: x_def)
  have live: "\<forall>z\<in>set (?L' @ x # ?R'). live ?st (fst z)"
  proof -
    have "\<forall>z\<in>set (inorder (plug gs' (Node l (a, snd y) rt))). live st1 (fst z)" using D(5) by simp
    then show ?thesis unfolding inorder_plug by (simp add: x_def)
  qed
  have new: "inorder T' = ?L' @ x # ?R'" "snd x = (key, v, p)" "wf_store ?st" "holds (st_cells ?st) T'"
    using D(1,3) sep by (simp_all add: T'_def inorder_plug x_def holds_plug)
  have cp: "map snd ?L' = map snd ?L" "map snd ?R' = map snd ?R" using copies_data [OF loop(2)] by simp_all
  have "\<forall>z\<in>set ?L. ekey z < key" using r(6) k unfolding T by (auto simp: sorted_wrt_append)
  from represents_update [OF rep(1) T this k new(1) cp new(2-4) dist live t'_def]
  have "represents ?st t' T' \<and> entries T' = insert_kv key v (entries T)" .
  moreover have "heap (map_tree eprio T')" if "heap (map_tree eprio T)"
    using that y copies_heap [OF loop(2), of "Node l x rt" "Node l y rt"] unfolding sp(1) T'_def by (simp add: x_def)
  moreover have "extends st ?st" using D(2) loop(5) by (auto simp: extends_def)
  moreover have "\<forall>b\<in>set ns. \<not> live st b" using loop(3,5) D(6) by blast
  moreover have "insert a (path_addrs gs') \<subseteq> addrs T'"
    unfolding T'_def addrs_plug using path_in_ctx [of _ gs'] by (auto simp: x_def)
  ultimately show ?thesis
    using put loop(3) unfolding put_result_def
    by (intro exI [of _ ?st] exI [of _ t'] exI [of _ ns] conjI exI [of _ T']) blast+
qed

lemma Immutable_put_spec:
  assumes rep: "represents st t T"
  shows "\<exists>st' t' ns. Immutable_put st t key val priority = Some (st', t', ns) \<and>
    put_result st T key (case val of None \<Rightarrow> [] | Some v \<Rightarrow> v) st' t' ns"
proof (cases "T = Leaf")
  case True
  note r = representsD [OF rep]
  define v where "v = (case val of None \<Rightarrow> [] | Some v \<Rightarrow> v)"
  obtain node st1 where new: "newTreapNode st key v priority = (node, st1)" by fastforce
  define x where "x = (node, key, v, priority)"
  note f = cloneTreapNode_fresh [OF r(1) new [unfolded newTreapNode_clone]]
  have cells1: "st_cells st1 = (st_cells st)(node \<mapsto> cell x None None)" by (simp add: f(4) x_def cell_def)
  let ?t' = "newImmutable (Some node) 1 (nodeSize (cell x None None))"
  have "Immutable_put st t key val priority = Some (st1, ?t', [node])"
    using True r(2) new cells1 by (simp add: Immutable_put_def v_def)
  moreover have "represents st1 ?t' (Node Leaf x Leaf)"
    using f cells1 by (simp add: represents_def x_def separate_Node tsize_def nodeSize_cell newImmutable_def)
  moreover have "extends st st1" using f cells1 by (auto simp: extends_def)
  ultimately show ?thesis
    using True f(1) unfolding put_result_def v_def [symmetric]
    by (intro exI [of _ st1] exI [of _ ?t'] exI [of _ "[node]"] conjI exI [of _ "Node Leaf x Leaf"])
      (auto simp: entries_def x_def)
next
  case False
  obtain fs t' where d: "descend key T [] = (fs, t')" by fastforce
  then show ?thesis
    using put_new [OF rep False _ refl] put_old [OF rep _ refl] by (cases t') blast+
qed

lemma Immutable_get_descend:
  assumes "represents st t T" "descend key T [] = (fs, t')"
  shows "Immutable_get st t key = Some (addr t')"
  using getLoop_descend [OF representsD(3) [OF assms(1)] assms(2) refl] representsD(2) [OF assms(1)]
  by (simp add: Immutable_get_def)

lemma Immutable_Get_eq:
  assumes "represents st t T"
  shows "Immutable_Get st t key = Some (map_of (entries T) key)"
    and "Immutable_Has st t key = Some (map_of (entries T) key \<noteq> None)"
proof -
  obtain fs t' where d: "descend key T [] = (fs, t')" by fastforce
  have "Mutable_get st t key = Some (if t' = Leaf then (None, None) else (addr t', top_addr fs))"
    using getLoop_descend [OF representsD(3) [OF assms] d refl] representsD(2) [OF assms] by (simp add: Mutable_get_def)
  then have "Immutable_Get st t key = Mutable_Get st t key" "Immutable_Has st t key = Mutable_Has st t key"
    using Immutable_get_descend [OF assms d]
    by (auto simp: Immutable_Get_def Mutable_Get_def Immutable_Has_def Mutable_Has_def)
  then show "Immutable_Get st t key = Some (map_of (entries T) key)"
    "Immutable_Has st t key = Some (map_of (entries T) key \<noteq> None)"
    using Mutable_Get_spec [OF assms] by simp_all
qed

text \<open>A search by the key of a node of the tree finds that node.\<close>

lemma get_member:
  assumes rep: "represents st t T" and x: "x \<in> set (inorder T)"
  shows "Immutable_get st t (ekey x) = Some (Some (fst x))"
proof -
  obtain fs t' where d: "descend (ekey x) T [] = (fs, t')" by fastforce
  note sp = descend_split [OF rep d]
  have "x \<notin> set (left_of fs)" "x \<notin> set (right_of fs)" using sp(2,3) by auto
  then have xt: "x \<in> set (inorder t')" using x sp(1) by (auto simp: inorder_plug)
  then obtain l y r where t': "t' = Node l y r" "ekey y = ekey x" using descend_end [OF d] by auto
  have "distinct (map ekey (inorder T))"
    using representsD(6) [OF rep] strict_sorted_iff by blast
  moreover have "x \<in> set (inorder T)" "y \<in> set (inorder T)" using x sp(1) t' by (simp_all add: inorder_plug)
  ultimately have "x = y" using t'(2) by (metis distinct_map inj_onD)
  then show ?thesis using Immutable_get_descend [OF rep d] t'(1) by simp
qed

section \<open>Recycling\<close>

lemma holds_cell: "holds c t \<Longrightarrow> a \<in> addrs t \<Longrightarrow> c a \<noteq> None"
  by (induction t) auto

lemma recycle_keeps:
  assumes rep: "represents st t T" and n: "live st n" "n \<notin> addrs T"
  shows "represents (recycle st n) t T" "live (recycle st n) a \<longleftrightarrow> live st a \<and> a \<noteq> n"
    "a \<noteq> n \<Longrightarrow> st_cells (recycle st n) a = st_cells st a"
proof -
  show l: "live (recycle st n) a \<longleftrightarrow> live st a \<and> a \<noteq> n" for a by (auto simp: live_def recycle_def)
  have "wf_store (recycle st n)"
    using representsD(1) [OF rep] n(1) by (auto simp: wf_store_def live_def recycle_def)
  moreover have "holds (st_cells (recycle st n)) T"
    using representsD(3) [OF rep] n(2) by (simp add: recycle_def)
  moreover have "\<forall>a\<in>addrs T. live (recycle st n) a" using representsD(5) [OF rep] n(2) l by auto
  ultimately show "represents (recycle st n) t T" using rep unfolding represents_def by blast
  show "a \<noteq> n \<Longrightarrow> st_cells (recycle st n) a = st_cells st a" by (simp add: recycle_def)
qed

lemma recycleUnused_spec:
  assumes "represents st t T" "extends st0 st" "distinct ns"
    and "\<forall>a\<in>set ns. live st a \<and> \<not> live st0 a \<and> st_cells st a \<noteq> None"
  shows "\<exists>st'. recycleUnused st t ns = Some st' \<and> represents st' t T \<and> extends st0 st' \<and>
    (\<forall>a. live st a \<and> a \<notin> set ns \<longrightarrow> live st' a \<and> st_cells st' a = st_cells st a) \<and>
    (\<forall>a\<in>addrs T. live st' a \<and> st_cells st' a = st_cells st a)"
  using assms
proof (induction ns arbitrary: st)
  case Nil
  then show ?case by (auto dest: representsD(5))
next
  case (Cons n ns)
  obtain nd where nd: "st_cells st n = Some nd" using Cons.prems(4) by auto
  obtain got where got: "Immutable_get st t (tn_key nd) = Some got"
    using Immutable_get_descend [OF Cons.prems(1)] by (metis surj_pair)
  show ?case
  proof (cases "got = Some n")
    case True
    with Cons.IH [OF Cons.prems(1,2)] Cons.prems(3,4) nd got show ?thesis by fastforce
  next
    case False
    have "n \<notin> addrs T"
    proof
      assume "n \<in> addrs T"
      then obtain x where x: "x \<in> set (inorder T)" "fst x = n" by auto
      then have "\<exists>l r. st_cells st n = Some (cell x l r)"
        using representsD(3) [OF Cons.prems(1)] by (induction T) auto
      then have "tn_key nd = ekey x" using nd by auto
      with get_member [OF Cons.prems(1) x(1)] got x(2) False show False by simp
    qed
    then have k: "represents (recycle st n) t T" "\<And>a. live (recycle st n) a \<longleftrightarrow> live st a \<and> a \<noteq> n"
      "\<And>a. a \<noteq> n \<Longrightarrow> st_cells (recycle st n) a = st_cells st a"
      using recycle_keeps [OF Cons.prems(1)] Cons.prems(4) by auto
    have "a \<noteq> n" if "live st0 a" for a using that Cons.prems(4) by auto
    then have "extends st0 (recycle st n)" using Cons.prems(2) k(2,3) by (simp add: extends_def)
    moreover have "\<forall>a\<in>set ns. live (recycle st n) a \<and> \<not> live st0 a \<and> st_cells (recycle st n) a \<noteq> None"
    proof
      fix a
      assume a: "a \<in> set ns"
      then have "a \<noteq> n" using Cons.prems(3) by auto
      then show "live (recycle st n) a \<and> \<not> live st0 a \<and> st_cells (recycle st n) a \<noteq> None"
        using a Cons.prems(4) k(2) k(3) [OF \<open>a \<noteq> n\<close>] by simp
    qed
    ultimately obtain st' where st': "recycleUnused (recycle st n) t ns = Some st'" "represents st' t T" "extends st0 st'"
      "\<forall>a. live (recycle st n) a \<and> a \<notin> set ns \<longrightarrow> live st' a \<and> st_cells st' a = st_cells (recycle st n) a"
      "\<forall>a\<in>addrs T. live st' a \<and> st_cells st' a = st_cells (recycle st n) a"
      using Cons.IH [OF k(1)] Cons.prems(3) by auto
    have "st_cells (recycle st n) a = st_cells st a" if "a \<in> addrs T" for a
      using that \<open>n \<notin> addrs T\<close> k(3) by metis
    with st' k nd got False show ?thesis by (intro exI [of _ st']) auto
  qed
qed

fun spec_pairs :: "(byte list \<times> byte list option \<times> int) list \<Rightarrow> (byte list \<times> byte list) list \<Rightarrow> (byte list \<times> byte list) list" where
  "spec_pairs [] m = m"
| "spec_pairs ((key, val, priority) # kvs) m =
     spec_pairs kvs (insert_kv key (case val of None \<Rightarrow> [] | Some v \<Rightarrow> v) m)"

lemma putPairs_spec:
  assumes "represents st t T" "extends st0 st" "distinct ns"
    and "\<forall>a\<in>set ns. live st a \<and> \<not> live st0 a \<and> st_cells st a \<noteq> None"
  shows "\<exists>st' t' T'. putPairs st t ns kvs = Some (st', t') \<and> represents st' t' T' \<and> extends st0 st' \<and>
    entries T' = spec_pairs kvs (entries T) \<and> (heap (map_tree eprio T) \<longrightarrow> heap (map_tree eprio T'))"
  using assms
proof (induction kvs arbitrary: st t T ns)
  case Nil
  then show ?case by auto
next
  case (Cons kv kvs)
  obtain key val pr where kv: "kv = (key, val, pr)" by (cases kv) auto
  obtain st1 t1 ns1 where put: "Immutable_put st t key val pr = Some (st1, t1, ns1)"
    "put_result st T key (case val of None \<Rightarrow> [] | Some v \<Rightarrow> v) st1 t1 ns1"
    using Immutable_put_spec [OF Cons.prems(1)] by blast
  then obtain T1 where T1: "represents st1 t1 T1"
    "entries T1 = insert_kv key (case val of None \<Rightarrow> [] | Some v \<Rightarrow> v) (entries T)" "set ns1 \<subseteq> addrs T1"
    "heap (map_tree eprio T) \<longrightarrow> heap (map_tree eprio T1)" "extends st st1" "distinct ns1" "\<forall>a\<in>set ns1. \<not> live st a"
    unfolding put_result_def by blast
  have "extends st0 st1" using extends_trans Cons.prems(2) T1(5) .
  moreover have "\<forall>a\<in>set ns. live st1 a \<and> \<not> live st0 a \<and> st_cells st1 a \<noteq> None"
    using Cons.prems(4) T1(5) by (auto simp: extends_def)
  ultimately obtain st2 where st2: "recycleUnused st1 t1 ns = Some st2" "represents st2 t1 T1" "extends st0 st2"
    "\<forall>a\<in>addrs T1. live st2 a \<and> st_cells st2 a = st_cells st1 a"
    using recycleUnused_spec [OF T1(1) _ Cons.prems(3)] by blast
  have "live st2 a \<and> \<not> live st0 a \<and> st_cells st2 a \<noteq> None" if a: "a \<in> set ns1" for a
  proof -
    have "a \<in> addrs T1" using a T1(3) by blast
    then have "live st2 a" "st_cells st2 a \<noteq> None" using st2(2,4) holds_cell by (blast dest: representsD(3))+
    moreover have "\<not> live st0 a" using a T1(7) Cons.prems(2) by (auto simp: extends_def)
    ultimately show ?thesis by blast
  qed
  with Cons.IH [OF st2(2,3) T1(6)] obtain st' t' T' where "putPairs st2 t1 ns1 kvs = Some (st', t')"
    "represents st' t' T'" "extends st0 st'" "entries T' = spec_pairs kvs (entries T1)"
    "heap (map_tree eprio T1) \<longrightarrow> heap (map_tree eprio T')" by blast
  then show ?case using kv put(1) st2(1) T1(2,4) by auto
qed

lemma Immutable_Put_spec:
  assumes "represents st t T"
  shows "\<exists>st' t' T'. Immutable_Put st t kvs = Some (st', t') \<and> represents st' t' T' \<and> extends st st' \<and>
    entries T' = spec_pairs kvs (entries T) \<and> (heap (map_tree eprio T) \<longrightarrow> heap (map_tree eprio T'))"
  using putPairs_spec [OF assms extends_refl, of "[]" kvs] by (simp add: Immutable_Put_def)

section \<open>Deletion\<close>

lemma plug_append: "plug (fs @ gs) t = plug gs (plug fs t)"
  by (induction fs arbitrary: t) simp_all

lemma copyPath_spec:
  assumes "copying st0 st fs' (plug hs (Node l x r))" "list_all2 copy_of fs fs'"
    and "stacked parents (fst x # map frame_addr (hs @ fs))" "stacked newParents (map frame_addr fs')"
  shows "\<exists>st' newParents' gs' a. copyPath (Suc (length hs)) st parents newParents = Some (st', newParents') \<and>
    list_all2 copy_of (hs @ fs) gs' \<and> copying st0 st' gs' (Node l (a, snd x) r) \<and> \<not> live st0 a \<and>
    stacked newParents' (a # map frame_addr gs')"
  using assms
proof (induction hs arbitrary: st fs fs' newParents rule: rev_induct)
  case Nil
  obtain a st1 where cl: "cloneTreapNode st (cell x (addr l) (addr r)) = (a, st1)" by fastforce
  obtain c where c: "linkCopy (st_cells st1) (top_addr fs') (fst x) a = Some c"
    "copying st0 (st1\<lparr>st_cells := c\<rparr>) fs' (Node l (a, snd x) r)" "\<not> live st0 a"
    using copy_node [OF Nil.prems(1) [unfolded plug.simps] cl] by blast
  have "st_cells st (fst x) = Some (cell x (addr l) (addr r))" "At parents 0 = Some (fst x)"
    using copyingD(3) [OF Nil.prems(1)] Nil.prems(3) by (simp_all add: holds_plug stacked_At)
  then have "copyPath (Suc (length [])) st parents newParents = Some (st1\<lparr>st_cells := c\<rparr>, Push newParents a)"
    using cl c(1) top_At [OF Nil.prems(4)] by simp
  moreover have "stacked (Push newParents a) (a # map frame_addr fs')" using Nil.prems(4) by (rule stacked_Push)
  ultimately show ?case using c(2,3) Nil.prems(2) by auto
next
  case (snoc f hs)
  let ?y = "frame_entry f" and ?t = "plug hs (Node l x r)"
  obtain l' r' where t: "plug1 f ?t = Node l' ?y r'" by (cases f) auto
  have cp: "copying st0 st fs' (Node l' ?y r')" using snoc.prems(1) t by (simp add: plug_append)
  obtain a st1 where cl: "cloneTreapNode st (cell ?y (addr l') (addr r')) = (a, st1)" by fastforce
  obtain c where c: "linkCopy (st_cells st1) (top_addr fs') (fst ?y) a = Some c"
    "copying st0 (st1\<lparr>st_cells := c\<rparr>) fs' (Node l' (a, snd ?y) r')" "\<not> live st0 a"
    using copy_node [OF cp cl] by blast
  let ?st = "st1\<lparr>st_cells := c\<rparr>"
  obtain f' where f': "copy_of f f'" "frame_addr f' = a" "copying st0 ?st (f' # fs') ?t"
  proof (cases f)
    case (InLeft y s)
    with t c that [of "InLeft (a, snd y) s"] copying_left [OF c(2)] show thesis by simp
  next
    case (InRight y s)
    with t c that [of "InRight (a, snd y) s"] copying_right [OF c(2)] show thesis by simp
  qed
  have "At parents (Suc (length hs)) = Some (fst ?y)"
    using snoc.prems(3) by (simp add: stacked_At nth_append)
  moreover have "st_cells st (fst ?y) = Some (cell ?y (addr l') (addr r'))"
    using copyingD(3) [OF cp] by (simp add: holds_plug)
  ultimately have "copyPath (Suc (length (hs @ [f]))) st parents newParents =
      copyPath (Suc (length hs)) ?st parents (Push newParents a)"
    using cl c(1) top_At [OF snoc.prems(4)] by simp
  moreover have "list_all2 copy_of (f # fs) (f' # fs')" using snoc.prems(2) f'(1) by simp
  moreover have "stacked (Push newParents a) (map frame_addr (f' # fs'))"
    using stacked_Push [OF snoc.prems(4)] f'(2) by simp
  ultimately show ?case
    using snoc.IH [OF f'(3), of "f # fs"] snoc.prems(3) by simp
qed

text \<open>The child that moves up, copied before the rotation.\<close>

lemma copy_child:
  assumes cp: "copying st0 st fs (Node l x r)" "\<not> live st0 (fst x)"
    and y: "if isLeft then l = Node p y q else r = Node p y q"
    and cl: "cloneTreapNode st (cell y (addr p) (addr q)) = (a, st1)"
    and t: "t = (if isLeft then Node (Node p (a, snd y) q) x r else Node l x (Node p (a, snd y) q))"
  shows "copying st0 (st1\<lparr>st_cells := (st_cells st1)(fst x \<mapsto>
      (if isLeft then cell x (Some a) (addr r) else cell x (addr l) (Some a)))\<rparr>) fs t \<and> \<not> live st0 a"
proof -
  note D = copyingD [OF cp(1)] and f = cloneTreapNode_fresh [OF copyingD(1) [OF cp(1)] cl]
  have fresh: "a \<notin> addrs (plug fs (Node l x r))" using f(1) D(5) by blast
  have fr: "a \<notin> addrs l" "a \<notin> addrs r" "a \<noteq> fst x" "a \<notin> ctx_addrs fs" using fresh by (auto simp: addrs_plug)
  have cx: "cell (a, snd y) u v = cell y u v" for u v by (cases y) (simp add: cell_def)
  have sep: "separate_ctx fs" "fst x \<notin> ctx_addrs fs" "addrs l \<inter> ctx_addrs fs = {}" "addrs r \<inter> ctx_addrs fs = {}"
    "separate l" "separate r" "fst x \<notin> addrs l" "fst x \<notin> addrs r" "addrs l \<inter> addrs r = {}"
    using D(4) by (auto simp: separate_plug_iff separate_Node)
  let ?c = "(st_cells st1)(fst x \<mapsto> (if isLeft then cell x (Some a) (addr r) else cell x (addr l) (Some a)))"
  have "holds ?c (plug fs t)"
  proof (cases isLeft)
    case True
    with y fr sep have "a \<notin> addrs p" "a \<notin> addrs q" "fst x \<notin> addrs p" "fst x \<notin> addrs q" by (auto simp: image_Un)
    then show ?thesis using True D(3) fr sep y t f(4) by (simp add: holds_plug cx)
  next
    case False
    with y fr sep have "a \<notin> addrs p" "a \<notin> addrs q" "fst x \<notin> addrs p" "fst x \<notin> addrs q" by (auto simp: image_Un)
    then show ?thesis using False D(3) fr sep y t f(4) by (simp add: holds_plug cx)
  qed
  moreover have "separate t" "addrs t \<inter> ctx_addrs fs = {}"
    using sep fr y t by (cases isLeft; auto simp: separate_Node)+
  then have "separate (plug fs t)" using sep(1) by (simp add: separate_plug_iff)
  moreover have "live st1 b" if "b \<in> addrs (plug fs t)" for b
    using that D(5) [of b] f(2) [of b] y t by (cases isLeft) (auto simp: addrs_plug)
  moreover have nl: "\<not> live st0 a" using f(1) D(2) by (auto simp: extends_def)
  moreover have "extends st0 (st1\<lparr>st_cells := ?c\<rparr>)"
    using D(2) f(2,4) nl cp(2) by (intro extends_upd [where S = "{a, fst x}"]) auto
  ultimately show ?thesis using f(3) D(6) by (simp add: copying_def)
qed

lemma relinkGrandparent_root: "relinkGrandparent c root new old None = relinkGrandparent c root' new old None"
  by (simp add: relinkGrandparent_def)

lemma sinkCopyLoop_step:
  assumes cp: "copying st0 st fs (Node l x r)" "\<not> live st0 (fst x)" "l \<noteq> Leaf \<or> r \<noteq> Leaf"
    and root: "fs \<noteq> [] \<longrightarrow> root = addr (plug fs (Node l x r))"
  shows "\<exists>st' g l' r'. sinkCopyLoop st root (fst x) (top_addr fs) =
      sinkCopyLoop st' (addr (plug (g # fs) (Node l' x r'))) (fst x) (top_addr (g # fs)) \<and>
    copying st0 st' (g # fs) (Node l' x r') \<and> size l' + size r' < size l + size r \<and>
    map snd (left_of (g # fs) @ inorder l' @ inorder r' @ right_of (g # fs)) =
      map snd (left_of fs @ inorder l @ inorder r @ right_of fs)"
proof -
  note D = copyingD [OF cp(1)]
  have h: "st_cells st (fst x) = Some (cell x (addr l) (addr r))" "holds (st_cells st) (Node l x r)"
    using D(3) by (auto simp: holds_plug)
  obtain p y q isLeft where y: "if isLeft then l = Node p y q else r = Node p y q"
    "chooseChild (st_cells st) (cell x (addr l) (addr r)) = Some (fst y, isLeft)"
    using chooseChild_Node [OF h(2) cp(3)] by (metis (full_types))
  have hy: "st_cells st (fst y) = Some (cell y (addr p) (addr q))" using h(2) y(1) by (cases isLeft) auto
  obtain a st1 where cl: "cloneTreapNode st (cell y (addr p) (addr q)) = (a, st1)" by fastforce
  define y' where "y' = (a, snd y)"
  define t where "t = (if isLeft then Node (Node p y' q) x r else Node l x (Node p y' q))"
  let ?c0 = "(st_cells st1)(fst x \<mapsto> (if isLeft then cell x (Some a) (addr r) else cell x (addr l) (Some a)))"
  have c0: "copying st0 (st1\<lparr>st_cells := ?c0\<rparr>) fs t" "\<not> live st0 a"
    using copy_child [OF cp(1,2) y(1) cl] unfolding t_def y'_def by blast+
  note D0 = copyingD [OF c0(1)]
  define g where "g = (if isLeft then InRight y' p else InLeft y' q)"
  define l' where "l' = (if isLeft then q else l)"
  define r' where "r' = (if isLeft then r else p)"
  define s where "s = (if isLeft then p else q)"
  define t1 where "t1 = (if isLeft then Node p y' q else l)"
  define t2 where "t2 = (if isLeft then r else Node p y' q)"
  have t12: "t = Node t1 x t2" by (simp add: t_def t1_def t2_def)
  have pieces: "frame_entry g = y'" "frame_other g = s" "holds ?c0 s" "holds ?c0 l'" "holds ?c0 r'"
    "inorder (plug1 g (Node l' x r')) = inorder (Node t1 x t2)"
    using D0(3) by (cases isLeft; auto simp: g_def l'_def r'_def s_def t1_def t2_def t_def holds_plug)+
  let ?c1 = "if in_left g then ?c0(fst y' \<mapsto> cell y' (Some (fst x)) (addr s), fst x \<mapsto> cell x (addr l') (addr r'))
               else ?c0(fst y' \<mapsto> cell y' (addr s) (Some (fst x)), fst x \<mapsto> cell x (addr l') (addr r'))"
  have step: "holds ?c0 (plug fs (Node t1 x t2))" "separate (plug fs (Node t1 x t2))"
    using D0(3,4) by (simp_all add: t12)
  obtain c2 where c2: "relinkGrandparent ?c1 (addr (plug fs (Node t1 x t2))) (fst y') (fst x) (top_addr fs) =
      Some (c2, addr (plug (g # fs) (Node l' x r')))"
    "holds c2 (plug (g # fs) (Node l' x r'))" "separate (plug (g # fs) (Node l' x r'))"
    "\<forall>b. b \<notin> insert (fst x) (insert (fst y') (path_addrs fs)) \<longrightarrow> c2 b = ?c0 b"
    using sinkLoop_step [OF step refl pieces] by blast
  have same_root: "relinkGrandparent c root (fst y') (fst x) (top_addr fs) =
      relinkGrandparent c (addr (plug fs (Node t1 x t2))) (fst y') (fst x) (top_addr fs)" for c
    using root addr_plug_last [of fs "Node l x r"] addr_plug_last [of fs "Node t1 x t2"] relinkGrandparent_root
    by (cases "fs = []") simp_all
  have cell': "cell y' u v = cell y u v" for u v by (cases y) (simp add: y'_def cell_def)
  have xa: "fst x \<noteq> a" using step(2) by (auto simp: separate_plug_iff separate_Node t1_def t2_def y'_def split: if_splits)
  have c1: "(if isLeft
      then (st_cells st1)(a \<mapsto> (cell y (addr p) (addr q))\<lparr>tn_right := Some (fst x)\<rparr>,
        fst x \<mapsto> (cell x (addr l) (addr r))\<lparr>tn_left := tn_right (cell y (addr p) (addr q))\<rparr>)
      else (st_cells st1)(a \<mapsto> (cell y (addr p) (addr q))\<lparr>tn_left := Some (fst x)\<rparr>,
        fst x \<mapsto> (cell x (addr l) (addr r))\<lparr>tn_right := tn_left (cell y (addr p) (addr q))\<rparr>)) = ?c1"
    using xa by (cases isLeft) (auto simp: g_def l'_def r'_def s_def cell' y'_def [THEN arg_cong [of _ _ fst]] fun_upd_twist)
  let ?st = "st1\<lparr>st_cells := c2\<rparr>"
  have nl: "\<not> (tn_left (cell x (addr l) (addr r)) = None \<and> tn_right (cell x (addr l) (addr r)) = None)"
    using cp(3) by simp
  have fy: "fst y' = a" by (simp add: y'_def)
  have eq: "sinkCopyLoop st root (fst x) (top_addr fs) =
      sinkCopyLoop ?st (addr (plug (g # fs) (Node l' x r'))) (fst x) (top_addr (g # fs))"
    by (subst sinkCopyLoop.simps)
      (simp only: h(1) y(2) hy nl cl c1 same_root [unfolded fy] c2(1) [unfolded fy] pieces(1) fy
        bind.bind_lunit if_False prod.case list.case)
  have "extends st0 ?st"
  proof (rule extends_upd [OF D0(2), where S = "insert (fst x) (insert (fst y') (path_addrs fs))"])
    show "live (st1\<lparr>st_cells := ?c0\<rparr>) b \<Longrightarrow> live st1 b" for b by simp
    show "b \<notin> insert (fst x) (insert (fst y') (path_addrs fs)) \<Longrightarrow> c2 b = st_cells (st1\<lparr>st_cells := ?c0\<rparr>) b" for b
      using c2(4) by simp
    show "b \<in> insert (fst x) (insert (fst y') (path_addrs fs)) \<Longrightarrow> \<not> live st0 b" for b
      using D0(6) c0(2) cp(2) fy by blast
  qed
  moreover have "addrs (plug (g # fs) (Node l' x r')) = addrs (plug fs t)"
    using pieces(6) by (simp only: addrs_inorder inorder_plug plug.simps t12)
  ultimately have "copying st0 ?st (g # fs) (Node l' x r')"
    using c2(2,3) D0(1,5,6) c0(2) by (simp add: copying_def pieces(1) y'_def)
  moreover have "size l' + size r' < size l + size r" using y(1) by (cases isLeft) (simp_all add: l'_def r'_def)
  moreover have "map snd (left_of (g # fs) @ inorder l' @ inorder r' @ right_of (g # fs)) =
      map snd (left_of fs @ inorder l @ inorder r @ right_of fs)"
    using y(1) by (cases isLeft) (simp_all add: g_def l'_def r'_def y'_def)
  ultimately show ?thesis using eq by blast
qed

lemma sinkCopyLoop_leaf:
  assumes "copying st0 st fs (Node l x r)" "\<not> live st0 (fst x)" "\<not> (fs = [] \<and> l = Leaf \<and> r = Leaf)"
    and "fs \<noteq> [] \<longrightarrow> root = addr (plug fs (Node l x r))"
  shows "\<exists>st' fs'. sinkCopyLoop st root (fst x) (top_addr fs) = Some (st', addr (plug fs' (Node Leaf x Leaf)), top_addr fs') \<and>
    copying st0 st' fs' (Node Leaf x Leaf) \<and> fs' \<noteq> [] \<and>
    map snd (left_of fs' @ right_of fs') = map snd (left_of fs @ inorder l @ inorder r @ right_of fs)"
  using assms
proof (induction "size l + size r" arbitrary: st fs l r root rule: less_induct)
  case less
  show ?case
  proof (cases "l = Leaf \<and> r = Leaf")
    case True
    moreover from this have "st_cells st (fst x) = Some (cell x None None)"
      using copyingD(3) [OF less.prems(1)] by (simp add: holds_plug)
    ultimately have "sinkCopyLoop st root (fst x) (top_addr fs) = Some (st, addr (plug fs (Node Leaf x Leaf)), top_addr fs)"
      using less.prems(3,4) by (subst sinkCopyLoop.simps) simp
    then show ?thesis using less.prems True by fastforce
  next
    case False
    then have "l \<noteq> Leaf \<or> r \<noteq> Leaf" by blast
    from sinkCopyLoop_step [OF less.prems(1,2) this less.prems(4)] obtain st1 g l' r' where s: "sinkCopyLoop st root (fst x) (top_addr fs) =
        sinkCopyLoop st1 (addr (plug (g # fs) (Node l' x r'))) (fst x) (top_addr (g # fs))"
      "copying st0 st1 (g # fs) (Node l' x r')" "size l' + size r' < size l + size r"
      "map snd (left_of (g # fs) @ inorder l' @ inorder r' @ right_of (g # fs)) =
        map snd (left_of fs @ inorder l @ inorder r @ right_of fs)"
      by blast
    have "\<not> (g # fs = [] \<and> l' = Leaf \<and> r' = Leaf)" by simp
    from less.hyps [OF s(3,2) less.prems(2) this impI [OF refl]] show ?thesis
      unfolding s(1,4) .
  qed
qed

lemma Immutable_Delete_present:
  assumes rep: "represents st t T" and d: "descend key T [] = (gs, Node l x r)" and ne: "\<not> (gs = [] \<and> l = Leaf \<and> r = Leaf)"
  shows "\<exists>st' t' T'. Immutable_Delete st t key = Some (st', t') \<and> represents st' t' T' \<and> extends st st' \<and>
    entries T' = delete_kv key (entries T)"
proof -
  note r = representsD [OF rep] and sp = descend_split [OF rep d]
  have k: "ekey x = key" using descend_end [OF d] by auto
  let ?L = "left_of gs @ inorder l" and ?R = "inorder r @ right_of gs"
  have T: "inorder T = ?L @ x # ?R" using sp(1) by (simp add: inorder_plug)
  have "side_ok 0 []" "stacked newStack (map frame_addr [])" by (simp_all add: side_ok_def stacked_new)
  from insertLoop_descend [OF r(3) d this(2,1)] obtain parents cmp where
    find: "insertLoop (st_cells st) key (addr T) newStack 0 = Some (parents, cmp, Some (fst x))"
    "stacked parents (fst x # map frame_addr gs)" by auto
  have cx: "st_cells st (fst x) = Some (cell x (addr l) (addr r))" using r(3) sp(1) by (simp add: holds_plug)
  have start: "copying st st [] (plug gs (Node l x r))" "list_all2 copy_of [] []"
    "stacked parents (fst x # map frame_addr (gs @ []))" "stacked newStack (map frame_addr [])"
    using copying_start [OF rep] sp(1) find(2) by (simp_all add: stacked_new)
  have "Len parents = Suc (length gs)" using find(2) by (simp add: stacked_Len)
  with copyPath_spec [OF start] obtain st1 newParents fs a where cp: "copyPath (Len parents) st parents newStack = Some (st1, newParents)"
    "list_all2 copy_of gs fs" "copying st st1 fs (Node l (a, snd x) r)" "\<not> live st a"
    "stacked newParents (a # map frame_addr fs)"
    by (metis append_Nil2)
  obtain ps where ps: "Pop newParents = (Some a, ps)" "stacked ps (map frame_addr fs)"
    using stacked_Pop [OF cp(5)] by blast
  let ?x = "(a, snd x)"
  have empty: "fs = [] \<longleftrightarrow> gs = []" using cp(2) by auto
  have "\<not> (fs = [] \<and> l = Leaf \<and> r = Leaf)" "fs \<noteq> [] \<longrightarrow> At ps (Len ps - 1) = addr (plug fs (Node l ?x r))"
    "\<not> live st (fst ?x)"
    using ne empty root_At [OF ps(2)] cp(4) by simp_all
  from sinkCopyLoop_leaf [OF cp(3) this(3,1,2)] obtain st2 fs' where
    sink: "sinkCopyLoop st1 (At ps (Len ps - 1)) a (At ps 0) = Some (st2, addr (plug fs' (Node Leaf ?x Leaf)), top_addr fs')"
    "copying st st2 fs' (Node Leaf ?x Leaf)" "fs' \<noteq> []"
    "map snd (left_of fs' @ right_of fs') = map snd (left_of fs @ inorder l @ inorder r @ right_of fs)"
    using top_At [OF ps(2)] by auto
  note D = copyingD [OF sink(2)]
  have sep: "separate_ctx fs'" "a \<notin> ctx_addrs fs'" using D(4) by (simp_all add: separate_plug_iff)
  obtain c where c: "unlinkLeaf (st_cells st2) (top_addr fs') a = Some c" "holds_ctx c fs' None"
    "\<forall>b. b \<notin> path_addrs fs' \<longrightarrow> c b = st_cells st2 b"
    using unlinkLeaf_ctx [of "st_cells st2" fs' a] D(3) sep sink(3) by (auto simp: holds_plug)
  have "c a = st_cells st2 a" using c(3) sep(2) path_in_ctx by blast
  then have ca: "c a = Some (cell ?x None None)" using D(3) by (simp add: holds_plug)
  let ?st = "st2\<lparr>st_cells := c\<rparr>"
  define t' where "t' = \<lparr>tr_root = addr (plug fs' Leaf), tr_count = tr_count t - 1,
    tr_totalSize = tr_totalSize t - word_of_nat (esize x)\<rparr>"
  have nz: "nodeSize (cell ?x None None) = word_of_nat (esize x)" using nodeSize_cell [of ?x] by (cases x) (simp add: esize_def)
  have root: "addr (plug fs' (Node Leaf ?x Leaf)) = addr (plug fs' Leaf)" by (rule addr_plug_cong [OF sink(3)])
  have nl: "\<not> (At parents 1 = None \<and> tn_left (cell x (addr l) (addr r)) = None \<and> tn_right (cell x (addr l) (addr r)) = None)"
    using ne find(2) by (auto simp: stacked_At)
  have del: "Immutable_Delete st t key = Some (?st, t')"
    unfolding Immutable_Delete_def r(2) find(1)
    by (simp only: bind.bind_lunit prod.case option.case cx nl if_False cp(1) ps(1) sink(1) c(1) ca nz root
      newImmutable_def t'_def)
  have cd: "map snd (left_of fs) = map snd (left_of gs)" "map snd (right_of fs) = map snd (right_of gs)"
    using copies_data [OF cp(2)] by simp_all
  have data: "map snd (left_of fs' @ right_of fs') = map snd (?L @ ?R)"
    using sink(4) cd by simp
  have "\<forall>b\<in>addrs (plug fs' (Node Leaf ?x Leaf)). live st2 b" "distinct (map fst (inorder (plug fs' (Node Leaf ?x Leaf))))"
    using D(4,5) by (simp_all add: separate_def)
  then have live: "\<forall>z\<in>set (left_of fs' @ right_of fs'). live ?st (fst z)" "distinct (map fst (left_of fs' @ right_of fs'))"
    unfolding addrs_inorder inorder_plug by auto
  have new: "inorder (plug fs' Leaf) = left_of fs' @ right_of fs'" "wf_store ?st" "holds (st_cells ?st) (plug fs' Leaf)"
    using D(1) c(2) by (simp_all add: inorder_plug holds_plug)
  have "represents ?st t' (plug fs' Leaf) \<and> entries (plug fs' Leaf) = delete_kv key (entries T)"
    by (rule represents_delete [OF rep T k new(1) data new(2,3) live(2,1) t'_def])
  moreover have "extends st ?st"
    using D(2,6) c(3) by (intro extends_upd [where S = "path_addrs fs'"]) simp_all
  ultimately show ?thesis using del by blast
qed

lemma Immutable_Delete_spec:
  assumes rep: "represents st t T"
  shows "\<exists>st' t' T'. Immutable_Delete st t key = Some (st', t') \<and> represents st' t' T' \<and> extends st st' \<and>
    entries T' = delete_kv key (entries T)"
proof -
  note r = representsD [OF rep]
  obtain gs t' where d: "descend key T [] = (gs, t')" by fastforce
  note sp = descend_split [OF rep d]
  have "side_ok 0 []" "stacked newStack (map frame_addr [])" by (simp_all add: side_ok_def stacked_new)
  from insertLoop_descend [OF r(3) d this(2,1)] obtain parents cmp where
    find: "insertLoop (st_cells st) key (addr T) newStack 0 = Some (parents, cmp, addr t')"
    "\<And>a. addr t' = Some a \<Longrightarrow> stacked parents (a # map frame_addr gs)" by auto
  consider "t' = Leaf" | x where "t' = Node Leaf x Leaf" "gs = []"
    | l x r where "t' = Node l x r" "\<not> (gs = [] \<and> l = Leaf \<and> r = Leaf)"
    by (cases t') auto
  then show ?thesis
  proof cases
    case 1
    then have "Immutable_Delete st t key = Some (st, t)" using find r(2) by (simp add: Immutable_Delete_def)
    moreover have "delete_kv key (entries T) = entries T"
      using sp 1 by (intro delete_kv_absent) (auto simp: entries_ekv inorder_plug)
    ultimately show ?thesis using rep by auto
  next
    case 2
    then have T: "T = Node Leaf x Leaf" using sp(1) by simp
    have "st_cells st (fst x) = Some (cell x None None)" using r(3) T by simp
    moreover have "At parents 1 = None" using find(2) [of "fst x"] 2 by (simp add: stacked_At)
    ultimately have "Immutable_Delete st t key = Some (st, newImmutable None 0 0)"
      using find(1) r(2) 2 by (simp add: Immutable_Delete_def)
    moreover have "represents st (newImmutable None 0 0) Leaf"
      using r(1) by (simp add: represents_def newImmutable_def tsize_def)
    moreover have "entries Leaf = delete_kv key (entries T)"
      using T descend_end [OF d] 2 by (auto simp: entries_ekv ekv_def delete_kv_def)
    ultimately show ?thesis by (metis extends_refl)
  next
    case 3
    then show ?thesis using Immutable_Delete_present [OF rep _ 3(2)] d by simp
  qed
qed

section \<open>The immutable treap as an ordered map\<close>

interpretation immutable: ordered_map models
  "\<lambda>s. Immutable_Get (fst s) (snd s)" "\<lambda>s k v pr. Immutable_Put (fst s) (snd s) [(k, v, pr)]"
  "\<lambda>s. Immutable_Delete (fst s) (snd s)"
proof unfold_locales
  fix s :: "store \<times> Treap" and m k v pr
  assume s: "models s m"
  then obtain T where T: "represents (fst s) (snd s) T" "entries T = m" by (auto simp: models_def)
  show "sorted_kv m" using mutable.sorted [OF s] .
  show "Immutable_Get (fst s) (snd s) k = Some (map_of m k)" using Immutable_Get_eq(1) [OF T(1)] T(2) by simp
  show "\<exists>s'. Immutable_Put (fst s) (snd s) [(k, v, pr)] = Some s' \<and>
      models s' (insert_kv k (case v of None \<Rightarrow> [] | Some v \<Rightarrow> v) m)"
    using Immutable_Put_spec [OF T(1), of "[(k, v, pr)]"] T(2) by (auto simp: models_def)
  show "\<exists>s'. Immutable_Delete (fst s) (snd s) k = Some s' \<and> models s' (delete_kv k m)"
    using Immutable_Delete_spec [OF T(1), of k] T(2) by (auto simp: models_def)
qed

lemma models_extends: "models (st, old) m \<Longrightarrow> extends st st' \<Longrightarrow> wf_store st' \<Longrightarrow> models (st', old) m"
  using represents_extends by (fastforce simp: models_def)

datatype version_op =
    PutPairs "(byte list \<times> byte list option \<times> int) list"
  | DeleteKey "byte list"

fun version_step :: "version_op \<Rightarrow> store \<times> Treap \<Rightarrow> (store \<times> Treap) option" where
  "version_step (PutPairs kvs) s = Immutable_Put (fst s) (snd s) kvs"
| "version_step (DeleteKey k) s = Immutable_Delete (fst s) (snd s) k"

fun version_run :: "version_op list \<Rightarrow> store \<times> Treap \<Rightarrow> (store \<times> Treap) option" where
  "version_run [] s = Some s"
| "version_run (p # ps) s = Option.bind (version_step p s) (version_run ps)"

fun version_spec :: "version_op \<Rightarrow> (byte list \<times> byte list) list \<Rightarrow> (byte list \<times> byte list) list" where
  "version_spec (PutPairs kvs) m = spec_pairs kvs m"
| "version_spec (DeleteKey k) m = delete_kv k m"

lemma version_step_spec:
  assumes "models s m"
  shows "\<exists>s'. version_step p s = Some s' \<and> models s' (version_spec p m) \<and> extends (fst s) (fst s') \<and> wf_store (fst s')"
proof -
  obtain T where T: "represents (fst s) (snd s) T" "entries T = m" using assms by (auto simp: models_def)
  show ?thesis
    using Immutable_Put_spec [OF T(1)] Immutable_Delete_spec [OF T(1)] T(2)
    by (cases p) (fastforce simp: models_def dest: representsD(1))+
qed

lemma version_run_spec:
  assumes "models s m"
  shows "\<exists>s'. version_run ps s = Some s' \<and> models s' (fold version_spec ps m) \<and> extends (fst s) (fst s') \<and> wf_store (fst s')"
  using assms
proof (induction ps arbitrary: s m)
  case Nil
  then show ?case by (auto simp: models_def dest: representsD(1))
next
  case (Cons p ps)
  obtain s1 where s1: "version_step p s = Some s1" "models s1 (version_spec p m)" "extends (fst s) (fst s1)"
    using version_step_spec [OF Cons.prems] by blast
  from Cons.IH [OF s1(2)] s1(1,3) show ?case by (auto intro: extends_trans)
qed

text \<open>C24: versions of an immutable treap persist.  From any version, any sequence of
\<^verbatim>\<open>Put\<close> batches, which recycle the nodes of their intermediate treaps, and of \<^verbatim>\<open>Delete\<close>
calls succeeds and gives the version whose pairs are those of the sorted list; and every other version
that shares nodes with it still has the same pairs, read through \<^verbatim>\<open>Get\<close> and through
\<^verbatim>\<open>ForEach\<close>.\<close>

theorem immutable_versions_persist:
  assumes "models (st, t) m" "models (st, old) m0"
  shows "\<exists>st' t'. version_run ops (st, t) = Some (st', t') \<and> models (st', t') (fold version_spec ops m) \<and>
    (\<forall>k. Immutable_Get st' t' k = Some (map_of (fold version_spec ops m) k)) \<and>
    (\<forall>k. Immutable_Get st' old k = Immutable_Get st old k) \<and>
    (\<forall>fn acc. Immutable_ForEach st' old fn (acc :: 's) = Immutable_ForEach st old fn acc)"
proof -
  obtain st' t' where s: "version_run ops (st, t) = Some (st', t')" "models (st', t') (fold version_spec ops m)"
    "extends st st'" "wf_store st'"
    using version_run_spec [OF assms(1)] by (metis prod.collapse fst_conv)
  have old: "models (st', old) m0" by (rule models_extends [OF assms(2) s(3,4)])
  have "Immutable_ForEach st' old fn (acc :: 's) = Immutable_ForEach st old fn acc" for fn acc
    using models_observed(1) [OF old, of fn acc] models_observed(1) [OF assms(2), of fn acc]
    by (simp add: Immutable_ForEach_def ForEach_def)
  then show ?thesis
    using s(1,2) immutable.get_models [OF s(2)] immutable.get_models [OF old] immutable.get_models [OF assms(2)]
    by auto
qed

theorem immutable_versions_persist_witness:
  "\<exists>st t. version_run [PutPairs [([1], None, 7), ([2], Some [9], 3)]]
      (\<lparr>st_cells = Map.empty, st_pool = [], st_next = 0\<rparr>, NewImmutable) = Some (st, t) \<and>
    (\<exists>st' t'. version_run [PutPairs [([2], Some [5], 1), ([0], None, 1)], DeleteKey [1]] (st, t) = Some (st', t') \<and>
      Immutable_Get st' t' [2] = Some (Some [5]) \<and> Immutable_Get st' t' [1] = Some None \<and>
      Immutable_Get st' t [2] = Immutable_Get st t [2])"
proof -
  let ?st = "\<lparr>st_cells = Map.empty, st_pool = [], st_next = 0\<rparr> :: store"
  have "models (?st, NewImmutable) []"
    using models_new [of ?st] by (simp add: NewMutable_def NewImmutable_def wf_store_def)
  from immutable_versions_persist [OF this this, of "[PutPairs [([1], None, 7), ([2], Some [9], 3)]]"]
  obtain st t where st: "version_run [PutPairs [([1], None, 7), ([2], Some [9], 3)]] (?st, NewImmutable) = Some (st, t)"
    "models (st, t) (fold version_spec [PutPairs [([1], None, 7), ([2], Some [9], 3)]] [])" by blast
  from immutable_versions_persist [OF st(2) st(2), of "[PutPairs [([2], Some [5], 1), ([0], None, 1)], DeleteKey [1]]"] st(1)
  show ?thesis by (force simp: delete_kv_def)
qed

end
