(* ===== verification/Sha512.thy ===== *)
theory Sha512
  imports Sha256
begin

unbundle bit_operations_syntax

text \<open>
  SHA-512 and SHA-512/256 as specified in FIPS 180-4 (Go's \<^verbatim>\<open>crypto/sha512\<close>, of which the program
  uses \<^verbatim>\<open>New512_256\<close>).  The initial state of SHA-512/256 is computed by the generation function of
  the standard; Go keeps its value as a table.\<close>

section \<open>Constants\<close>

definition root_frac64 :: "nat \<Rightarrow> nat \<Rightarrow> uint64" where
  "root_frac64 k p = word_of_nat (int_root 67 k (p * 2 ^ (64 * k)) 0)"

definition sha512_K :: "uint64 list" where
  "sha512_K =
     map (root_frac64 3)
       (sha_primes @ [313, 317, 331, 337, 347, 349, 353, 359, 367, 373, 379, 383, 389, 397, 401, 409])"

definition sha512_H0 :: "uint64 list" where
  "sha512_H0 = map (root_frac64 2) (take 8 sha_primes)"

section \<open>The compression function\<close>

definition rotr64 :: "nat \<Rightarrow> uint64 \<Rightarrow> uint64" where
  "rotr64 n x = drop_bit n x OR push_bit (64 - n) x"

text \<open>The two state functions are the exclusive or of three rotations; the schedule functions shift in the third.\<close>

definition three_rotr :: "nat \<Rightarrow> nat \<Rightarrow> nat \<Rightarrow> uint64 \<Rightarrow> uint64" where
  "three_rotr i j k x = rotr64 i x XOR rotr64 j x XOR rotr64 k x"

definition two_rotr :: "nat \<Rightarrow> nat \<Rightarrow> nat \<Rightarrow> uint64 \<Rightarrow> uint64" where
  "two_rotr i j k x = rotr64 i x XOR rotr64 j x XOR drop_bit k x"

primrec sha512_schedule :: "nat \<Rightarrow> uint64 list \<Rightarrow> uint64 list" where
  "sha512_schedule 0 ws = ws"
| "sha512_schedule (Suc n) ws =
     sha512_schedule n ((two_rotr 19 61 6 (ws ! 1) + ws ! 6 + two_rotr 1 8 7 (ws ! 14) + ws ! 15) # ws)"

fun sha512_round :: "uint64 list \<Rightarrow> uint64 \<times> uint64 \<Rightarrow> uint64 list" where
  "sha512_round [a, b, c, d, e, f, g, h] (k, w) =
     (let chosen = (e AND f) XOR (NOT e AND g);
          majority = (a AND b) XOR (a AND c) XOR (b AND c);
          t1 = h + three_rotr 14 18 41 e + chosen + k + w
      in [t1 + (three_rotr 28 34 39 a + majority), a, b, c, d + t1, e, f, g])"
| "sha512_round s _ = s"

primrec be_words64 :: "nat \<Rightarrow> byte list \<Rightarrow> uint64 list" where
  "be_words64 0 bs = []"
| "be_words64 (Suc n) bs = word_of_nat (le_nat (rev (take 8 bs))) # be_words64 n (drop 8 bs)"

definition sha512_block :: "uint64 list \<Rightarrow> byte list \<Rightarrow> uint64 list" where
  "sha512_block st block =
     map2 (+) st
       (foldl sha512_round st (zip sha512_K (rev (sha512_schedule 64 (rev (be_words64 16 block))))))"

primrec sha512_blocks :: "nat \<Rightarrow> uint64 list \<Rightarrow> byte list \<Rightarrow> uint64 list" where
  "sha512_blocks 0 st bs = st"
| "sha512_blocks (Suc n) st bs = sha512_blocks n (sha512_block st (take 128 bs)) (drop 128 bs)"

definition sha512_pad :: "byte list \<Rightarrow> byte list" where
  "sha512_pad msg =
     msg @ [0x80] @ replicate ((239 - length msg mod 128) mod 128) 0 @ rev (le_bytes 16 (8 * length msg))"

definition sha512_state :: "uint64 list \<Rightarrow> byte list \<Rightarrow> uint64 list" where
  "sha512_state iv msg = sha512_blocks (length (sha512_pad msg) div 128) iv (sha512_pad msg)"

definition be_bytes64 :: "uint64 list \<Rightarrow> byte list" where
  "be_bytes64 ws = concat (map (\<lambda>w. rev (le_bytes 8 (unat w))) ws)"

definition Sum512 :: "byte list \<Rightarrow> byte list" where
  "Sum512 msg = be_bytes64 (sha512_state sha512_H0 msg)"

text \<open>The bytes of \<^verbatim>\<open>SHA-512/256\<close>, the name hashed by the generation function.\<close>

definition sha512_256_IV :: "uint64 list" where
  "sha512_256_IV =
     sha512_state (map (\<lambda>h. h XOR 0xa5a5a5a5a5a5a5a5) sha512_H0)
       [0x53, 0x48, 0x41, 0x2d, 0x35, 0x31, 0x32, 0x2f, 0x32, 0x35, 0x36]"

definition Sum512_256 :: "byte list \<Rightarrow> hash" where
  "Sum512_256 msg = be_bytes64 (take 4 (sha512_state sha512_256_IV msg))"

section \<open>The result is a hash\<close>

lemma length_sha512_round: "length (sha512_round st kw) = length st"
  by (cases "(st, kw)" rule: sha512_round.cases) (simp_all add: Let_def)

lemma length_sha512_rounds: "length (foldl sha512_round st kws) = length st"
  by (induction kws arbitrary: st) (simp_all add: length_sha512_round)

lemma length_sha512_blocks: "length (sha512_blocks n st bs) = length st"
  by (induction n arbitrary: st bs) (simp_all add: sha512_block_def length_sha512_rounds)

lemma length_be_bytes64: "length (be_bytes64 ws) = 8 * length ws"
  by (induction ws) (simp_all add: be_bytes64_def)

lemma is_hash_Sum512_256 [simp]: "is_hash (Sum512_256 msg)"
  by (simp add: is_hash_def HashSize_def Sum512_256_def length_be_bytes64 sha512_state_def
      length_sha512_blocks sha512_256_IV_def sha512_H0_def sha_primes_def)

end
