(* ===== verification/Wire_Leaf.thy ===== *)
theory Wire_Leaf
  imports Wire_Tx Sha512
begin

unbundle bit_operations_syntax

text \<open>
  The leaves of the utreexo accumulator (\<^verbatim>\<open>wire/leaf.go\<close>): the full serialization, the compact one
  that leaves out what the block already has, and the leaf hash.  The signed fields are kept as the
  words they are written as.  A nil public key script is \<open>None\<close>, which the source distinguishes from
  an empty one.  A writer that fails returns the error only: what it wrote before is dropped by every
  caller.  The JSON form and the logging strings are not modelled.\<close>

section \<open>Leaves\<close>

definition MaxScriptSize :: uint32 where
  "MaxScriptSize = 10000"

type_synonym PkType = byte

abbreviation OtherTy :: PkType where
  "OtherTy \<equiv> 0"

abbreviation PubKeyHashTy :: PkType where
  "PubKeyHashTy \<equiv> 1"

abbreviation WitnessV0PubKeyHashTy :: PkType where
  "WitnessV0PubKeyHashTy \<equiv> 2"

abbreviation ScriptHashTy :: PkType where
  "ScriptHashTy \<equiv> 3"

abbreviation WitnessV0ScriptHashTy :: PkType where
  "WitnessV0ScriptHashTy \<equiv> 4"

record LeafData =
  ld_BlockHash :: hash
  ld_OutPoint :: OutPoint
  ld_Height :: uint32
  ld_IsCoinBase :: bool
  ld_Amount :: uint64
  ld_ReconstructablePkType :: PkType
  ld_PkScript :: "byte list option"

definition NewLeafData :: LeafData where
  "NewLeafData =
     \<lparr>ld_BlockHash = zeroHash, ld_OutPoint = \<lparr>op_Hash = zeroHash, op_Index = 0\<rparr>, ld_Height = 0,
      ld_IsCoinBase = False, ld_Amount = 0, ld_ReconstructablePkType = OtherTy, ld_PkScript = None\<rparr>"

text \<open>The bytes of a slice that may be nil.\<close>

definition slice_bytes :: "byte list option \<Rightarrow> byte list" where
  "slice_bytes s = (case s of None \<Rightarrow> [] | Some bs \<Rightarrow> bs)"

lemma slice_bytes_simps [simp]: "slice_bytes None = []" "slice_bytes (Some bs) = bs"
  by (simp_all add: slice_bytes_def)

definition LeafData_Equal :: "LeafData \<Rightarrow> LeafData \<Rightarrow> bool" where
  "LeafData_Equal l other \<longleftrightarrow>
     ld_BlockHash l = ld_BlockHash other \<and> ld_OutPoint l = ld_OutPoint other \<and>
     ld_Height l = ld_Height other \<and> ld_IsCoinBase l = ld_IsCoinBase other \<and>
     ld_Amount l = ld_Amount other \<and>
     ld_ReconstructablePkType l = ld_ReconstructablePkType other \<and>
     slice_bytes (ld_PkScript l) = slice_bytes (ld_PkScript other)"

text \<open>The copy has a script of its own, never nil.\<close>

definition LeafData_Copy :: "LeafData \<Rightarrow> LeafData" where
  "LeafData_Copy l = l\<lparr>ld_PkScript := Some (slice_bytes (ld_PkScript l))\<rparr>"

definition IsUnconfirmed :: "LeafData \<Rightarrow> bool" where
  "IsUnconfirmed l \<longleftrightarrow> ld_Height l = -1"

definition SetUnconfirmed :: "LeafData \<Rightarrow> LeafData" where
  "SetUnconfirmed l = l\<lparr>ld_Height := -1\<rparr>"

definition IsCompact :: "LeafData \<Rightarrow> bool" where
  "IsCompact l \<longleftrightarrow>
     ld_BlockHash l = zeroHash \<and> op_Hash (ld_OutPoint l) = zeroHash \<and> op_Index (ld_OutPoint l) = 0"

text \<open>The height and the coinbase flag in one 32 bit word; the top bit of the height is shifted out.\<close>

definition headerCode :: "LeafData \<Rightarrow> uint32" where
  "headerCode l = (let hcb = push_bit 1 (ld_Height l) in if ld_IsCoinBase l then hcb OR 1 else hcb)"

section \<open>Full serialization\<close>

text \<open>The slice of names has one entry for each of the five types; the bound is checked with \<open>>\<close>.\<close>

definition PkType_String :: "PkType \<Rightarrow> string option" where
  "PkType_String ty =
     (let pkTypeToName =
        [''other'', ''pubkeyhash'', ''witness_v0_keyhash'', ''scripthash'', ''witness_v0_scripthash'']
      in if unat ty > length pkTypeToName then Some ''Invalid''
         else if unat ty < length pkTypeToName then Some (pkTypeToName ! unat ty) else None)"

definition LeafData_SerializeSize :: "LeafData \<Rightarrow> nat" where
  "LeafData_SerializeSize l =
     VarIntSerializeSize (word_of_nat (length (slice_bytes (ld_PkScript l)))) +
     length (slice_bytes (ld_PkScript l)) + 80"

definition LeafData_Serialize :: "LeafData \<Rightarrow> read_error + byte list" where
  "LeafData_Serialize l =
     (if ld_BlockHash l = zeroHash then Inl (PlainError ''LeafData.Serialize'')
      else
        let w = ld_BlockHash l @ WriteOutPoint (ld_OutPoint l) @ PutUint32 LittleEndian (headerCode l) @
                PutUint64 LittleEndian (ld_Amount l)
        in
        if (word_of_nat (length (slice_bytes (ld_PkScript l))) :: uint32) > MaxScriptSize then
          Inl (MessageError ''LeafData Serialize'')
        else if ld_ReconstructablePkType l \<noteq> OtherTy \<and> ld_PkScript l = None then
          (case PkType_String (ld_ReconstructablePkType l) of
             None \<Rightarrow> Inl (RuntimePanic ''PkType.String'')
           | Some name \<Rightarrow> Inl (MessageError ''LeafData Serialize''))
        else Inr (w @ WriteVarBytes (slice_bytes (ld_PkScript l))))"

text \<open>The receiver is the first argument; its coinbase flag is set and never cleared.\<close>

definition setHeaderCode :: "LeafData \<Rightarrow> uint32 \<Rightarrow> LeafData" where
  "setHeaderCode l height =
     (let l = l\<lparr>ld_Height := height\<rparr>;
          l = (if ld_Height l AND 1 = 1 then l\<lparr>ld_IsCoinBase := True\<rparr> else l)
      in l\<lparr>ld_Height := signed_drop_bit 1 (ld_Height l)\<rparr>)"

definition LeafData_Deserialize :: "LeafData \<Rightarrow> byte list \<Rightarrow> LeafData read_result" where
  "LeafData_Deserialize l r =
     rbind (ReadFull HashSize r) (\<lambda>(h, r).
     rbind (readOutPoint r) (\<lambda>(op, r).
     rbind (Uint32 LittleEndian r) (\<lambda>(height, r).
     rbind (Uint64 LittleEndian r) (\<lambda>(amt, r).
     rbind (ReadVarBytes MaxScriptSize r) (\<lambda>(script, r).
       Inr ((setHeaderCode (l\<lparr>ld_BlockHash := h, ld_OutPoint := op\<rparr>) height)
              \<lparr>ld_Amount := amt, ld_PkScript := Some script\<rparr>, r))))))"

section \<open>Leaf hashes\<close>

definition UTREEXO_TAG_V1 :: "byte list" where
  "UTREEXO_TAG_V1 =
    [0x5b, 0x83, 0x2d, 0xb8, 0xca, 0x26, 0xc2, 0x5b, 0xe1, 0xc5, 0x42, 0xd6, 0xcc, 0xed, 0xdd, 0xa8,
     0xc1, 0x45, 0x61, 0x5c, 0xff, 0x5c, 0x35, 0x72, 0x7f, 0xb3, 0x46, 0x26, 0x10, 0x80, 0x7e, 0x20,
     0xae, 0x53, 0x4d, 0xc3, 0xf6, 0x42, 0x99, 0x19, 0x99, 0x31, 0x77, 0x2e, 0x03, 0x78, 0x7d, 0x18,
     0x15, 0x6e, 0xb3, 0x15, 0x1e, 0x0e, 0xd1, 0xb3, 0x09, 0x8b, 0xdc, 0x84, 0x45, 0x86, 0x18, 0x85]"

definition UTREEXO_TAG_V1_APPEND :: "byte list" where
  "UTREEXO_TAG_V1_APPEND = UTREEXO_TAG_V1 @ UTREEXO_TAG_V1"

definition LeafHasher_writeVarInt :: "uint64 \<Rightarrow> byte list" where
  "LeafHasher_writeVarInt val =
     (if val < 0xfd then [ucast val]
      else if val \<le> 0xffff then 0xfd # le_bytes 2 (unat (ucast val :: uint16))
      else if val \<le> 0xffffffff then 0xfe # le_bytes 4 (unat (ucast val :: uint32))
      else [0xff] @ le_bytes 8 (unat val))"

text \<open>What \<^verbatim>\<open>HashLeaf\<close> writes into the digest.\<close>

definition leafPreimage :: "LeafData \<Rightarrow> byte list" where
  "leafPreimage l =
     UTREEXO_TAG_V1_APPEND @ ld_BlockHash l @ op_Hash (ld_OutPoint l) @
     le_bytes 4 (unat (op_Index (ld_OutPoint l))) @ le_bytes 4 (unat (headerCode l)) @
     le_bytes 8 (unat (ld_Amount l)) @
     LeafHasher_writeVarInt (word_of_nat (length (slice_bytes (ld_PkScript l)))) @ slice_bytes (ld_PkScript l)"

definition HashLeaf :: "LeafData \<Rightarrow> hash" where
  "HashLeaf l = Sum512_256 (leafPreimage l)"

definition LeafHash :: "LeafData \<Rightarrow> hash" where
  "LeafHash l = HashLeaf l"

section \<open>Compact serialization\<close>

definition PkScriptSerializeSizeCompact :: "PkType \<Rightarrow> byte list option \<Rightarrow> nat" where
  "PkScriptSerializeSizeCompact ty pkScript =
     (if ty = OtherTy then
        1 + VarIntSerializeSize (word_of_nat (length (slice_bytes pkScript))) + length (slice_bytes pkScript)
      else 1)"

text \<open>A type outside the list writes nothing.\<close>

definition PkScriptSerializeCompact :: "PkType \<Rightarrow> byte list option \<Rightarrow> byte list" where
  "PkScriptSerializeCompact ty pkscript =
     (if ty = OtherTy then [0] @ WriteVarBytes (slice_bytes pkscript)
      else if ty = PubKeyHashTy then [1]
      else if ty = WitnessV0PubKeyHashTy then [2]
      else if ty = ScriptHashTy then [3]
      else if ty = WitnessV0ScriptHashTy then [4]
      else [])"

definition PkScriptDeserializeCompact :: "byte list \<Rightarrow> (PkType \<times> byte list option) read_result" where
  "PkScriptDeserializeCompact r =
     rbind (ReadFull 1 r) (\<lambda>(buf, r).
       if hd buf = 0 then
         rbind (ReadVarBytes MaxScriptSize r) (\<lambda>(pkScript, r). Inr ((OtherTy, Some pkScript), r))
       else if hd buf = 1 then Inr ((PubKeyHashTy, None), r)
       else if hd buf = 2 then Inr ((WitnessV0PubKeyHashTy, None), r)
       else if hd buf = 3 then Inr ((ScriptHashTy, None), r)
       else if hd buf = 4 then Inr ((WitnessV0ScriptHashTy, None), r)
       else Inl (PlainError ''PkScriptDeserializeCompact''))"

definition SerializeSizeCompact :: "LeafData \<Rightarrow> nat" where
  "SerializeSizeCompact l =
     (if IsUnconfirmed l then 0
      else 12 + PkScriptSerializeSizeCompact (ld_ReconstructablePkType l) (ld_PkScript l))"

definition SerializeCompact :: "LeafData \<Rightarrow> read_error + byte list" where
  "SerializeCompact l =
     (if IsUnconfirmed l then Inr []
      else if (word_of_nat (length (slice_bytes (ld_PkScript l))) :: uint32) > MaxScriptSize then
        Inl (MessageError ''LeafData SerializeCompact'')
      else
        Inr (PutUint32 LittleEndian (headerCode l) @ PutUint64 LittleEndian (ld_Amount l) @
             PkScriptSerializeCompact (ld_ReconstructablePkType l) (ld_PkScript l)))"

definition DeserializeCompact :: "LeafData \<Rightarrow> byte list \<Rightarrow> LeafData read_result" where
  "DeserializeCompact l r =
     rbind (Uint32 LittleEndian r) (\<lambda>(height, r).
     rbind (Uint64 LittleEndian r) (\<lambda>(amt, r).
     rbind (PkScriptDeserializeCompact r) (\<lambda>((ty, pkScript), r).
       Inr ((setHeaderCode l height)
              \<lparr>ld_Amount := amt, ld_ReconstructablePkType := ty, ld_PkScript := pkScript\<rparr>, r))))"

section \<open>The header code\<close>

text \<open>The heights that survive the header code: 31 signed bits.\<close>

definition height_ok :: "uint32 \<Rightarrow> bool" where
  "height_ok h \<longleftrightarrow> - (2 ^ 30) \<le> sint h \<and> sint h < 2 ^ 30"

lemma height_ok_bits:
  assumes "height_ok h"
  shows "bit h 31 = bit h 30"
proof -
  have "signed_take_bit 30 (sint h) = sint h"
    using assms by (intro signed_take_bit_int_eq_self) (simp_all add: height_ok_def)
  then have "bit (sint h) 31 = bit (signed_take_bit 30 (sint h)) 31" by simp
  also have "\<dots> = bit (sint h) 30" by (simp only: bit_signed_take_bit_iff) simp
  finally show ?thesis by (simp add: bit_sint_iff)
qed

lemma bit_headerCode:
  "bit (headerCode l) k = (if k = 0 then ld_IsCoinBase l else k < 32 \<and> bit (ld_Height l) (k - 1))"
proof -
  have "bit (push_bit 1 (ld_Height l)) k = (1 \<le> k \<and> k < 32 \<and> bit (ld_Height l) (k - 1))"
    by (simp only: bit_push_bit_iff possible_bit_word) auto
  then show ?thesis
    by (auto simp only: headerCode_def Let_def bit_or_iff bit_1_iff possible_bit_word split: if_splits)
qed

lemma headerCode_flag: "headerCode l AND 1 = 1 \<longleftrightarrow> ld_IsCoinBase l"
  using bit_headerCode [of l 0] by (simp add: and_one_eq bit_0 odd_iff_mod_2_eq_one)

lemma headerCode_height:
  assumes "height_ok (ld_Height l)"
  shows "signed_drop_bit 1 (headerCode l) = ld_Height l"
proof (rule bit_word_eqI)
  fix n assume n: "n < LENGTH(32)"
  have "bit (signed_drop_bit 1 (headerCode l)) n = bit (headerCode l) (if n < 31 then Suc n else 31)"
    using n by (simp add: bit_signed_drop_bit_iff)
  also have "\<dots> = bit (ld_Height l) n"
    using n height_ok_bits [OF assms] by (cases "n = 31") (auto simp: bit_headerCode)
  finally show "bit (signed_drop_bit 1 (headerCode l)) n = bit (ld_Height l) n" .
qed

lemma setHeaderCode_headerCode:
  assumes "height_ok (ld_Height l)" "\<not> ld_IsCoinBase l0"
  shows "setHeaderCode l0 (headerCode l) = l0\<lparr>ld_Height := ld_Height l, ld_IsCoinBase := ld_IsCoinBase l\<rparr>"
  using assms headerCode_flag [of l] headerCode_height [OF assms(1)]
  by (cases l0) (simp add: setHeaderCode_def Let_def)

section \<open>Round trips\<close>

definition valid_leaf :: "LeafData \<Rightarrow> bool" where
  "valid_leaf l \<longleftrightarrow>
     is_hash (ld_BlockHash l) \<and> valid_OutPoint (ld_OutPoint l) \<and> height_ok (ld_Height l) \<and>
     length (slice_bytes (ld_PkScript l)) \<le> unat MaxScriptSize"

definition leafBytes :: "LeafData \<Rightarrow> byte list" where
  "leafBytes l =
     ld_BlockHash l @ WriteOutPoint (ld_OutPoint l) @ PutUint32 LittleEndian (headerCode l) @
     PutUint64 LittleEndian (ld_Amount l) @ WriteVarBytes (slice_bytes (ld_PkScript l))"

text \<open>The leaf that reading the full serialization gives: the script type is not part of it.\<close>

definition full_leaf :: "LeafData \<Rightarrow> LeafData" where
  "full_leaf l = l\<lparr>ld_ReconstructablePkType := OtherTy, ld_PkScript := Some (slice_bytes (ld_PkScript l))\<rparr>"

lemma LeafData_Deserialize_leafBytes:
  assumes "valid_leaf l"
  shows "LeafData_Deserialize NewLeafData (leafBytes l @ rest) = Inr (full_leaf l, rest)"
  using assms
  by (cases l)
    (simp add: LeafData_Deserialize_def leafBytes_def valid_leaf_def is_hash_def outpoint.get_put
      ReadVarBytes_WriteVarBytes setHeaderCode_headerCode NewLeafData_def full_leaf_def)

lemma LeafData_Serialize_iff:
  assumes "length (slice_bytes (ld_PkScript l)) \<le> unat MaxScriptSize"
  shows "LeafData_Serialize l = Inr bs \<longleftrightarrow>
    ld_BlockHash l \<noteq> zeroHash \<and> (ld_ReconstructablePkType l = OtherTy \<or> ld_PkScript l \<noteq> None) \<and> bs = leafBytes l"
proof -
  have "unat (word_of_nat (length (slice_bytes (ld_PkScript l))) :: uint32) = length (slice_bytes (ld_PkScript l))"
    using assms by (simp add: unat_of_nat MaxScriptSize_def)
  then have "\<not> (word_of_nat (length (slice_bytes (ld_PkScript l))) :: uint32) > MaxScriptSize"
    using assms by (simp add: word_less_nat_alt)
  then show ?thesis by (auto simp: LeafData_Serialize_def leafBytes_def split: option.splits)
qed

lemma LeafHasher_writeVarInt_eq: "LeafHasher_writeVarInt val = WriteVarInt val"
  by (simp add: LeafHasher_writeVarInt_def WriteVarInt_def PutUint8_def PutUint16_def PutUint32_def PutUint64_def)

lemma leafPreimage_leafBytes: "leafPreimage l = UTREEXO_TAG_V1_APPEND @ leafBytes l"
  by (simp add: leafPreimage_def leafBytes_def WriteOutPoint_def WriteVarBytes_def LeafHasher_writeVarInt_eq
      PutUint32_def PutUint64_def)

lemma length_leafBytes: "is_hash (ld_BlockHash l) \<Longrightarrow> valid_OutPoint (ld_OutPoint l) \<Longrightarrow>
    length (leafBytes l) = LeafData_SerializeSize l"
  by (simp add: leafBytes_def LeafData_SerializeSize_def is_hash_def valid_OutPoint_def HashSize_def
      WriteOutPoint_def length_WriteVarBytes)

text \<open>
  A leaf as it comes out of the compact form: the type and the script agree and nothing that the
  block has is set.\<close>

definition compact_leaf :: "LeafData \<Rightarrow> LeafData" where
  "compact_leaf l =
     l\<lparr>ld_BlockHash := zeroHash, ld_OutPoint := \<lparr>op_Hash = zeroHash, op_Index = 0\<rparr>,
       ld_PkScript := (if ld_ReconstructablePkType l = OtherTy
                       then Some (slice_bytes (ld_PkScript l)) else None)\<rparr>"

definition valid_compact :: "LeafData \<Rightarrow> bool" where
  "valid_compact l \<longleftrightarrow>
     height_ok (ld_Height l) \<and> \<not> IsUnconfirmed l \<and> ld_ReconstructablePkType l \<le> WitnessV0ScriptHashTy \<and>
     length (slice_bytes (ld_PkScript l)) \<le> unat MaxScriptSize"

lemma PkType_cases:
  assumes "ty \<le> WitnessV0ScriptHashTy"
  obtains "ty = OtherTy" | "ty = PubKeyHashTy" | "ty = WitnessV0PubKeyHashTy" | "ty = ScriptHashTy"
    | "ty = WitnessV0ScriptHashTy"
proof -
  have "unat ty \<le> 4" using assms by (simp add: word_le_nat_alt)
  then have "unat ty = 0 \<or> unat ty = 1 \<or> unat ty = 2 \<or> unat ty = 3 \<or> unat ty = 4" by linarith
  then show ?thesis using that by (auto simp: word_unat_eq_iff)
qed

lemma PkScriptDeserializeCompact_put:
  assumes "ty \<le> WitnessV0ScriptHashTy" "length (slice_bytes s) \<le> unat MaxScriptSize"
  shows "PkScriptDeserializeCompact (PkScriptSerializeCompact ty s @ rest) =
    Inr ((ty, if ty = OtherTy then Some (slice_bytes s) else None), rest)"
  using assms(1)
  by (cases rule: PkType_cases)
    (simp_all add: PkScriptDeserializeCompact_def PkScriptSerializeCompact_def ReadFull_def
      ReadVarBytes_WriteVarBytes assms(2))

definition compactBytes :: "LeafData \<Rightarrow> byte list" where
  "compactBytes l =
     PutUint32 LittleEndian (headerCode l) @ PutUint64 LittleEndian (ld_Amount l) @
     PkScriptSerializeCompact (ld_ReconstructablePkType l) (ld_PkScript l)"

lemma SerializeCompact_ok:
  assumes "valid_compact l"
  shows "SerializeCompact l = Inr (compactBytes l)"
proof -
  have "unat (word_of_nat (length (slice_bytes (ld_PkScript l))) :: uint32) = length (slice_bytes (ld_PkScript l))"
    using assms by (simp add: unat_of_nat MaxScriptSize_def valid_compact_def)
  then show ?thesis
    using assms by (simp add: SerializeCompact_def valid_compact_def compactBytes_def word_less_nat_alt)
qed

lemma DeserializeCompact_compactBytes:
  assumes "valid_compact l" "\<not> ld_IsCoinBase l0"
  shows "DeserializeCompact l0 (compactBytes l @ rest) =
    Inr ((compact_leaf l)\<lparr>ld_BlockHash := ld_BlockHash l0, ld_OutPoint := ld_OutPoint l0\<rparr>, rest)"
  using assms
  by (cases l; cases l0)
    (simp add: DeserializeCompact_def compactBytes_def valid_compact_def PkScriptDeserializeCompact_put
      setHeaderCode_headerCode compact_leaf_def)

lemma length_compactBytes:
  assumes "valid_compact l"
  shows "length (compactBytes l) = SerializeSizeCompact l"
proof -
  have ty: "ld_ReconstructablePkType l \<le> WitnessV0ScriptHashTy" using assms by (simp add: valid_compact_def)
  then have "length (PkScriptSerializeCompact (ld_ReconstructablePkType l) (ld_PkScript l)) =
      PkScriptSerializeSizeCompact (ld_ReconstructablePkType l) (ld_PkScript l)"
    by (cases rule: PkType_cases)
      (simp_all add: PkScriptSerializeCompact_def PkScriptSerializeSizeCompact_def length_WriteVarBytes)
  then show ?thesis
    using assms by (simp add: compactBytes_def SerializeSizeCompact_def valid_compact_def)
qed

section \<open>Properties\<close>

definition sample_leaf :: LeafData where
  "sample_leaf =
     \<lparr>ld_BlockHash = replicate 32 7, ld_OutPoint = \<lparr>op_Hash = replicate 32 9, op_Index = 1\<rparr>, ld_Height = 170,
      ld_IsCoinBase = True, ld_Amount = 5000000000, ld_ReconstructablePkType = PubKeyHashTy,
      ld_PkScript = Some [0x76, 0xa9]\<rparr>"

lemma valid_sample_leaf: "valid_leaf sample_leaf" "valid_compact sample_leaf"
  by (simp_all add: valid_leaf_def valid_compact_def sample_leaf_def is_hash_def HashSize_def valid_OutPoint_def
      height_ok_def MaxScriptSize_def IsUnconfirmed_def)

text \<open>
  C18: a leaf hash commits to the leaf.  The inlined hasher hashes the version tag and the full
  serialization, whose length is the computed size and which reads back as the leaf; and two leaves
  with heights of 31 bits give the hasher the same bytes only if they agree in every field except the
  type of the script, which is not part of the commitment.\<close>

theorem leaf_hash_commits:
  assumes "valid_leaf l" "valid_leaf l'"
  shows "(\<forall>bs. LeafData_Serialize l = Inr bs \<longrightarrow>
      LeafHash l = Sum512_256 (UTREEXO_TAG_V1_APPEND @ bs) \<and> length bs = LeafData_SerializeSize l \<and>
      LeafData_Deserialize NewLeafData bs = Inr (full_leaf l, [])) \<and>
    (leafPreimage l = leafPreimage l' \<longleftrightarrow>
       LeafData_Equal (l\<lparr>ld_ReconstructablePkType := OtherTy\<rparr>) (l'\<lparr>ld_ReconstructablePkType := OtherTy\<rparr>))"
proof (intro conjI allI impI)
  fix bs assume "LeafData_Serialize l = Inr bs"
  then have bs: "bs = leafBytes l" using LeafData_Serialize_iff [of l bs] assms(1) by (simp add: valid_leaf_def)
  then show "LeafHash l = Sum512_256 (UTREEXO_TAG_V1_APPEND @ bs)"
    by (simp add: LeafHash_def HashLeaf_def leafPreimage_leafBytes)
  show "length bs = LeafData_SerializeSize l" using bs assms(1) by (simp add: valid_leaf_def length_leafBytes)
  show "LeafData_Deserialize NewLeafData bs = Inr (full_leaf l, [])"
    using LeafData_Deserialize_leafBytes [OF assms(1), of "[]"] bs by simp
next
  have "leafPreimage l = leafPreimage l' \<longleftrightarrow> leafBytes l = leafBytes l'" by (simp add: leafPreimage_leafBytes)
  also have "\<dots> \<longleftrightarrow> full_leaf l = full_leaf l'"
  proof
    assume "leafBytes l = leafBytes l'"
    then show "full_leaf l = full_leaf l'"
      using LeafData_Deserialize_leafBytes [OF assms(1), of "[]"] LeafData_Deserialize_leafBytes [OF assms(2), of "[]"]
      by simp
  next
    have "leafBytes k = leafBytes (full_leaf k)" for k by (simp add: leafBytes_def full_leaf_def headerCode_def)
    then show "full_leaf l = full_leaf l' \<Longrightarrow> leafBytes l = leafBytes l'" by metis
  qed
  also have "\<dots> \<longleftrightarrow> LeafData_Equal (l\<lparr>ld_ReconstructablePkType := OtherTy\<rparr>) (l'\<lparr>ld_ReconstructablePkType := OtherTy\<rparr>)"
    by (cases l; cases l') (auto simp: full_leaf_def LeafData_Equal_def)
  finally show "leafPreimage l = leafPreimage l' \<longleftrightarrow>
    LeafData_Equal (l\<lparr>ld_ReconstructablePkType := OtherTy\<rparr>) (l'\<lparr>ld_ReconstructablePkType := OtherTy\<rparr>)" .
qed

theorem leaf_hash_commits_witness:
  "valid_leaf sample_leaf \<and>
   leafPreimage sample_leaf \<noteq> leafPreimage (sample_leaf\<lparr>ld_Height := 171\<rparr>) \<and>
   LeafData_Deserialize NewLeafData (leafBytes sample_leaf) = Inr (full_leaf sample_leaf, [])"
proof -
  have v: "valid_leaf (sample_leaf\<lparr>ld_Height := 171\<rparr>)"
    using valid_sample_leaf by (simp add: valid_leaf_def height_ok_def)
  have "ld_BlockHash sample_leaf \<noteq> zeroHash" by (simp add: sample_leaf_def zeroHash_def HashSize_def)
  then have "LeafData_Serialize sample_leaf = Inr (leafBytes sample_leaf)"
    using valid_sample_leaf LeafData_Serialize_iff [of sample_leaf] by (simp add: valid_leaf_def sample_leaf_def)
  with leaf_hash_commits [OF valid_sample_leaf(1) v] valid_sample_leaf show ?thesis
    by (auto simp: LeafData_Equal_def sample_leaf_def)
qed

end
