(* ===== verification/Wire_Utreexo.thy ===== *)
theory Wire_Utreexo
  imports Wire_Leaf
begin

unbundle bit_operations_syntax

text \<open>
  The utreexo data and messages: accumulator proofs (\<^verbatim>\<open>wire/batchproof.go\<close>), the data of a block
  (\<^verbatim>\<open>wire/udata.go\<close>), block summaries, times to live, and the messages that carry them
  (\<^verbatim>\<open>wire/msgutreexo*.go\<close>, \<^verbatim>\<open>wire/msggetutreexo*.go\<close>).  A message is decoded from the
  buffer that holds its payload.\<close>

section \<open>Slices on the wire\<close>

text \<open>
  \<^verbatim>\<open>make([]T, n)\<close> panics when the slice would be larger than the address space that the run-time
  system can use, \<open>2 ^ 48\<close> bytes on a 64 bit platform.  Several decoders take \<open>n\<close> from the message.\<close>

definition makeslice :: "nat \<Rightarrow> nat \<Rightarrow> read_error + unit" where
  "makeslice elemSize n = (if elemSize * n \<le> 2 ^ 48 then Inr () else Inl (RuntimePanic ''makeslice''))"

definition readSlice :: "nat \<Rightarrow> (byte list \<Rightarrow> 'a read_result) \<Rightarrow> byte list \<Rightarrow> 'a list read_result" where
  "readSlice elemSize get r =
     rbind (ReadVarInt r) (\<lambda>(count, r).
     rbind (makeslice elemSize (unat count)) (\<lambda>_. read_n get (unat count) r))"

definition writeSlice :: "('a \<Rightarrow> byte list) \<Rightarrow> 'a list \<Rightarrow> byte list" where
  "writeSlice put xs = WriteVarInt (word_of_nat (length xs)) @ write_all put xs"

text \<open>
  \<^verbatim>\<open>Read\<close> of a buffer fills what it can and fails only when nothing is left to fill a non-empty
  slice; the rest of the slice, freshly allocated, stays zero.\<close>

definition BufferRead :: "nat \<Rightarrow> byte list \<Rightarrow> byte list read_result" where
  "BufferRead n r =
     (if r = [] \<and> n \<noteq> 0 then Inl EOF
      else Inr (take n r @ replicate (n - length r) 0, drop n r))"

section \<open>Accumulator proofs\<close>

text \<open>The proof of the accumulator library, of which the code uses the two fields.\<close>

record Proof =
  pf_Targets :: "uint64 list"
  pf_Proof :: "hash list"

definition BatchProofSerializeTargetSize :: "Proof \<Rightarrow> nat" where
  "BatchProofSerializeTargetSize bp =
     foldl (\<lambda>size target. size + VarIntSerializeSize target)
       (VarIntSerializeSize (word_of_nat (length (pf_Targets bp)))) (pf_Targets bp)"

definition BatchProofSerializeAccProofSize :: "Proof \<Rightarrow> nat" where
  "BatchProofSerializeAccProofSize bp =
     VarIntSerializeSize (word_of_nat (length (pf_Proof bp))) + HashSize * length (pf_Proof bp)"

definition BatchProofSerializeSize :: "Proof \<Rightarrow> nat" where
  "BatchProofSerializeSize bp = BatchProofSerializeTargetSize bp + BatchProofSerializeAccProofSize bp"

definition ProofTargetsSerialize :: "uint64 list \<Rightarrow> byte list" where
  "ProofTargetsSerialize targets = writeSlice WriteVarInt targets"

definition ProofHashesSerialize :: "hash list \<Rightarrow> byte list" where
  "ProofHashesSerialize hashes = writeSlice id hashes"

definition BatchProofSerialize :: "Proof \<Rightarrow> byte list" where
  "BatchProofSerialize bp = ProofTargetsSerialize (pf_Targets bp) @ ProofHashesSerialize (pf_Proof bp)"

definition ProofTargetsDeserialize :: "byte list \<Rightarrow> uint64 list read_result" where
  "ProofTargetsDeserialize r =
     rbind (ReadVarInt r) (\<lambda>(targetCount, r).
       if targetCount = 0 then Inr ([], r)
       else rbind (makeslice 8 (unat targetCount)) (\<lambda>_. read_n ReadVarInt (unat targetCount) r))"

definition ProofHashesDeserialize :: "byte list \<Rightarrow> hash list read_result" where
  "ProofHashesDeserialize r =
     rbind (ReadVarInt r) (\<lambda>(proofCount, r).
       if proofCount = 0 then Inr ([], r)
       else rbind (makeslice 32 (unat proofCount)) (\<lambda>_. read_n (ReadFull HashSize) (unat proofCount) r))"

definition BatchProofDeserialize :: "byte list \<Rightarrow> Proof read_result" where
  "BatchProofDeserialize r =
     rbind (ProofTargetsDeserialize r) (\<lambda>(targets, r).
     rbind (ProofHashesDeserialize r) (\<lambda>(proof, r).
       Inr (\<lparr>pf_Targets = targets, pf_Proof = proof\<rparr>, r)))"

section \<open>Utreexo data\<close>

abbreviation MaxPossibleInputsPerBlock :: nat where
  "MaxPossibleInputsPerBlock \<equiv> 24386"

record UData =
  ud_AccProof :: Proof
  ud_LeafDatas :: "LeafData list"

definition SerializeUtxoDataSize :: "UData \<Rightarrow> nat" where
  "SerializeUtxoDataSize ud =
     foldl (\<lambda>size l. size + SerializeSizeCompact l)
       (VarIntSerializeSize (word_of_nat (length (ud_LeafDatas ud)))) (ud_LeafDatas ud)"

definition UData_SerializeSize :: "UData \<Rightarrow> nat" where
  "UData_SerializeSize ud = BatchProofSerializeSize (ud_AccProof ud) + SerializeUtxoDataSize ud"

text \<open>The loop that writes leaves stops at the first error.\<close>

fun serializeLeaves :: "LeafData list \<Rightarrow> read_error + byte list" where
  "serializeLeaves [] = Inr []"
| "serializeLeaves (ld # lds) =
     rbind (SerializeCompact ld) (\<lambda>bs. rbind (serializeLeaves lds) (\<lambda>bs'. Inr (bs @ bs')))"

definition SerializeUtxoData :: "LeafData list \<Rightarrow> read_error + byte list" where
  "SerializeUtxoData leafDatas =
     rbind (serializeLeaves leafDatas) (\<lambda>bs. Inr (WriteVarInt (word_of_nat (length leafDatas)) @ bs))"

definition UData_Serialize :: "UData \<Rightarrow> read_error + byte list" where
  "UData_Serialize ud =
     rbind (SerializeUtxoData (ud_LeafDatas ud)) (\<lambda>bs. Inr (BatchProofSerialize (ud_AccProof ud) @ bs))"

definition DeserializeUtxoData :: "byte list \<Rightarrow> LeafData list read_result" where
  "DeserializeUtxoData r =
     rbind (ReadVarInt r) (\<lambda>(txInCount, r).
       if txInCount = 0 then Inr ([], r)
       else if unat txInCount > MaxPossibleInputsPerBlock then Inl (MessageError ''DeserializeUtxoData'')
       else read_n (DeserializeCompact NewLeafData) (unat txInCount) r)"

definition UData_Deserialize :: "byte list \<Rightarrow> UData read_result" where
  "UData_Deserialize r =
     rbind (BatchProofDeserialize r) (\<lambda>(proof, r).
     rbind (DeserializeUtxoData r) (\<lambda>(leafDatas, r).
       Inr (\<lparr>ud_AccProof = proof, ud_LeafDatas = leafDatas\<rparr>, r)))"

fun HashesFromLeafDatas :: "LeafData list \<Rightarrow> read_error + hash list" where
  "HashesFromLeafDatas [] = Inr []"
| "HashesFromLeafDatas (ld # lds) =
     (if IsCompact ld then Inl (PlainError ''HashesFromLeafDatas'')
      else rbind (HashesFromLeafDatas lds) (\<lambda>hs. Inr (LeafHash ld # hs)))"

text \<open>
  \<open>prove\<close> is the accumulator's proof of a list of leaf hashes.  When the batch fails, every hash is
  proved alone to name the one at fault; the error variable is reused, so that when each of them
  succeeds the function returns a nil proof and no error: \<open>Inr None\<close>.\<close>

fun proveEach :: "(hash list \<Rightarrow> 'e + Proof) \<Rightarrow> hash list \<Rightarrow> 'e option" where
  "proveEach prove [] = None"
| "proveEach prove (h # hs) = (case prove [h] of Inl e \<Rightarrow> Some e | Inr _ \<Rightarrow> proveEach prove hs)"

definition GenerateUData ::
    "(hash list \<Rightarrow> read_error + Proof) \<Rightarrow> LeafData list \<Rightarrow> read_error + UData option" where
  "GenerateUData prove txIns =
     rbind (HashesFromLeafDatas txIns) (\<lambda>delHashes.
       case prove delHashes of
         Inr proof \<Rightarrow> Inr (Some \<lparr>ud_AccProof = proof, ud_LeafDatas = txIns\<rparr>)
       | Inl err \<Rightarrow>
           (if delHashes = [] then Inl err
            else case proveEach prove delHashes of
                Some _ \<Rightarrow> Inl (PlainError ''GenerateUData'')
              | None \<Rightarrow> Inr None))"

section \<open>Block summaries and times to live\<close>

record UtreexoBlockSummary =
  bs_BlockHash :: hash
  bs_NumAdds :: uint64
  bs_BlockTargets :: "uint64 list"

definition BlockSummary_SerializeSize :: "UtreexoBlockSummary \<Rightarrow> nat" where
  "BlockSummary_SerializeSize h =
     foldl (\<lambda>n target. n + VarIntSerializeSize target)
       (HashSize + VarIntSerializeSize (bs_NumAdds h) +
        VarIntSerializeSize (word_of_nat (length (bs_BlockTargets h))))
       (bs_BlockTargets h)"

definition readUtreexoBlockSummary :: "byte list \<Rightarrow> UtreexoBlockSummary read_result" where
  "readUtreexoBlockSummary r =
     rbind (ReadFull HashSize r) (\<lambda>(h, r).
     rbind (ReadVarInt r) (\<lambda>(numAdds, r).
     rbind (readSlice 8 ReadVarInt r) (\<lambda>(targets, r).
       Inr (\<lparr>bs_BlockHash = h, bs_NumAdds = numAdds, bs_BlockTargets = targets\<rparr>, r))))"

definition writeUtreexoBlockSummary :: "UtreexoBlockSummary \<Rightarrow> byte list" where
  "writeUtreexoBlockSummary bh =
     bs_BlockHash bh @ WriteVarInt (bs_NumAdds bh) @ writeSlice WriteVarInt (bs_BlockTargets bh)"

record TTLInfo =
  DeathHeight :: uint32
  DeathBlkIndex :: uint32

record UtreexoTTL =
  BlockHeight :: uint32
  TTLs :: "TTLInfo list"

definition UtreexoTTL_SerializeSize :: "UtreexoTTL \<Rightarrow> nat" where
  "UtreexoTTL_SerializeSize ut =
     4 + VarIntSerializeSize (word_of_nat (length (TTLs ut))) + length (TTLs ut) * (4 + 4)"

definition readTTLInfo :: "byte list \<Rightarrow> TTLInfo read_result" where
  "readTTLInfo r =
     rbind (Uint32 LittleEndian r) (\<lambda>(height, r).
     rbind (Uint32 LittleEndian r) (\<lambda>(index, r).
       Inr (\<lparr>DeathHeight = height, DeathBlkIndex = index\<rparr>, r)))"

definition writeTTLInfo :: "TTLInfo \<Rightarrow> byte list" where
  "writeTTLInfo ttl = PutUint32 LittleEndian (DeathHeight ttl) @ PutUint32 LittleEndian (DeathBlkIndex ttl)"

definition UtreexoTTL_Deserialize :: "byte list \<Rightarrow> UtreexoTTL read_result" where
  "UtreexoTTL_Deserialize r =
     rbind (Uint32 LittleEndian r) (\<lambda>(height, r).
     rbind (readSlice 8 readTTLInfo r) (\<lambda>(ttls, r).
       Inr (\<lparr>BlockHeight = height, TTLs = ttls\<rparr>, r)))"

definition UtreexoTTL_Serialize :: "UtreexoTTL \<Rightarrow> byte list" where
  "UtreexoTTL_Serialize ut = PutUint32 LittleEndian (BlockHeight ut) @ writeSlice writeTTLInfo (TTLs ut)"

section \<open>Messages\<close>

record MsgUtreexoProof =
  up_BlockHash :: hash
  up_ProofHashes :: "hash list"
  up_Targets :: "uint64 list"
  up_LeafDatas :: "LeafData list"

definition MsgUtreexoProof_BtcDecode :: "byte list \<Rightarrow> MsgUtreexoProof read_result" where
  "MsgUtreexoProof_BtcDecode r =
     rbind (BufferRead HashSize r) (\<lambda>(h, r).
     rbind (readSlice 32 (ReadFull HashSize) r) (\<lambda>(hashes, r).
     rbind (readSlice 8 ReadVarInt r) (\<lambda>(targets, r).
     rbind (readSlice 120 (DeserializeCompact NewLeafData) r) (\<lambda>(leafDatas, r).
       Inr (\<lparr>up_BlockHash = h, up_ProofHashes = hashes, up_Targets = targets, up_LeafDatas = leafDatas\<rparr>, r)))))"

definition MsgUtreexoProof_BtcEncode :: "MsgUtreexoProof \<Rightarrow> read_error + byte list" where
  "MsgUtreexoProof_BtcEncode msg =
     rbind (serializeLeaves (up_LeafDatas msg)) (\<lambda>bs.
       Inr (up_BlockHash msg @ writeSlice id (up_ProofHashes msg) @ writeSlice WriteVarInt (up_Targets msg) @
            WriteVarInt (word_of_nat (length (up_LeafDatas msg))) @ bs))"

record MsgUtreexoRoot =
  ur_NumLeaves :: uint64
  ur_Target :: uint64
  ur_BlockHash :: hash
  ur_Roots :: "hash list"
  ur_Proof :: "hash list"

definition MsgUtreexoRoot_BtcDecode :: "byte list \<Rightarrow> MsgUtreexoRoot read_result" where
  "MsgUtreexoRoot_BtcDecode r =
     rbind (ReadVarInt r) (\<lambda>(numLeaves, r).
     rbind (ReadVarInt r) (\<lambda>(target, r).
     rbind (BufferRead HashSize r) (\<lambda>(h, r).
     rbind (readSlice 32 (ReadFull HashSize) r) (\<lambda>(roots, r).
     rbind (readSlice 32 (ReadFull HashSize) r) (\<lambda>(proof, r).
       Inr (\<lparr>ur_NumLeaves = numLeaves, ur_Target = target, ur_BlockHash = h, ur_Roots = roots,
             ur_Proof = proof\<rparr>, r))))))"

definition MsgUtreexoRoot_BtcEncode :: "MsgUtreexoRoot \<Rightarrow> byte list" where
  "MsgUtreexoRoot_BtcEncode msg =
     WriteVarInt (ur_NumLeaves msg) @ WriteVarInt (ur_Target msg) @ ur_BlockHash msg @
     writeSlice id (ur_Roots msg) @ writeSlice id (ur_Proof msg)"

abbreviation MaxUtreexoTTLExponent :: nat where
  "MaxUtreexoTTLExponent \<equiv> 5"

abbreviation MaxUtreexoTTLsPerMsg :: nat where
  "MaxUtreexoTTLsPerMsg \<equiv> 2 ^ MaxUtreexoTTLExponent"

record MsgUtreexoTTLs =
  um_TTLs :: "UtreexoTTL list"
  um_ProofHashes :: "hash list"

definition MsgUtreexoTTLs_BtcDecode :: "byte list \<Rightarrow> MsgUtreexoTTLs read_result" where
  "MsgUtreexoTTLs_BtcDecode r =
     rbind (ReadVarInt r) (\<lambda>(count, r).
     if unat count > MaxUtreexoTTLsPerMsg then Inl (MessageError ''MsgUtreexoTTLs.BtcDecode'') else
     rbind (read_n UtreexoTTL_Deserialize (unat count) r) (\<lambda>(ttls, r).
     rbind (readSlice 32 (ReadFull HashSize) r) (\<lambda>(hashes, r).
       Inr (\<lparr>um_TTLs = ttls, um_ProofHashes = hashes\<rparr>, r))))"

definition MsgUtreexoTTLs_BtcEncode :: "MsgUtreexoTTLs \<Rightarrow> read_error + byte list" where
  "MsgUtreexoTTLs_BtcEncode msg =
     (if length (um_TTLs msg) > MaxUtreexoTTLsPerMsg then Inl (MessageError ''MsgUtreexoTTLs.BtcEncode'')
      else Inr (writeSlice UtreexoTTL_Serialize (um_TTLs msg) @ writeSlice id (um_ProofHashes msg)))"

record MsgGetUtreexoTTLs =
  gt_Version :: uint32
  gt_StartHeight :: uint32
  gt_MaxReceiveExponent :: byte

definition MsgGetUtreexoTTLs_BtcDecode :: "byte list \<Rightarrow> MsgGetUtreexoTTLs read_result" where
  "MsgGetUtreexoTTLs_BtcDecode r =
     rbind (Uint32 LittleEndian r) (\<lambda>(version, r).
     rbind (Uint32 LittleEndian r) (\<lambda>(startHeight, r).
     rbind (Uint8 r) (\<lambda>(exponent, r).
     if version < startHeight then Inl (MessageError ''MsgGetUtreexoTTLs.BtcDecode'')
     else if unat exponent > MaxUtreexoTTLExponent then Inl (MessageError ''MsgGetUtreexoTTLs.BtcDecode'')
     else Inr (\<lparr>gt_Version = version, gt_StartHeight = startHeight, gt_MaxReceiveExponent = exponent\<rparr>, r))))"

definition MsgGetUtreexoTTLs_BtcEncode :: "MsgGetUtreexoTTLs \<Rightarrow> read_error + byte list" where
  "MsgGetUtreexoTTLs_BtcEncode msg =
     (if unat (gt_MaxReceiveExponent msg) > MaxUtreexoTTLExponent then
        Inl (MessageError ''MsgGetUtreexoTTLs.BtcEncode'')
      else if gt_Version msg < gt_StartHeight msg then Inl (MessageError ''MsgGetUtreexoTTLs.BtcEncode'')
      else
        Inr (PutUint32 LittleEndian (gt_Version msg) @ PutUint32 LittleEndian (gt_StartHeight msg) @
             PutUint8 (gt_MaxReceiveExponent msg)))"

text \<open>
  The heights served for a request.  \<open>subtree\<close> is the tree of the accumulator that the library's
  \<^verbatim>\<open>DetectOffset\<close> finds for a position and a number of leaves; the arithmetic on heights is on
  32 bits and wraps.\<close>

fun ttlHeights :: "(uint64 \<Rightarrow> uint64 \<Rightarrow> 'r) \<Rightarrow> uint64 \<Rightarrow> 'r \<Rightarrow> uint32 \<Rightarrow> uint32 \<Rightarrow> nat \<Rightarrow> uint32 list" where
  "ttlHeights subtree numLeaves want position bestHeight 0 = []"
| "ttlHeights subtree numLeaves want position bestHeight (Suc n) =
     (if sint position > sint bestHeight then []
      else if subtree (scast position) numLeaves \<noteq> want then []
      else position # ttlHeights subtree numLeaves want (position + 1) bestHeight n)"

definition GetUtreexoTTLHeights :: "(uint64 \<Rightarrow> uint64 \<Rightarrow> 'r) \<Rightarrow> uint32 \<Rightarrow> uint32 \<Rightarrow> byte \<Rightarrow> uint32 list" where
  "GetUtreexoTTLHeights subtree startBlock bestHeight exponent =
     (let count = (push_bit (unat exponent) 1 :: uint32);
          numLeaves = scast (bestHeight + 1)
      in ttlHeights subtree numLeaves (subtree (scast startBlock) numLeaves) startBlock bestHeight
           (nat (sint count)))"

text \<open>\<open>exponentLoop n e\<close> is the loop from exponent \<open>e\<close> on, with \<open>n\<close> exponents left.\<close>

fun exponentLoop :: "(uint64 \<Rightarrow> uint64 \<Rightarrow> 'r) \<Rightarrow> uint64 \<Rightarrow> 'r \<Rightarrow> uint32 \<Rightarrow> uint32 \<Rightarrow> nat \<Rightarrow> nat \<Rightarrow> nat" where
  "exponentLoop subtree numLeaves want startBlock endHeight 0 exponent = exponent"
| "exponentLoop subtree numLeaves want startBlock endHeight (Suc n) exponent =
     (let height = (scast (startBlock + push_bit exponent 1) :: uint64) in
      if height > scast endHeight then exponent
      else if subtree height numLeaves \<noteq> want then exponent
      else exponentLoop subtree numLeaves want startBlock endHeight n (exponent + 1))"

definition getUtreexoExponent :: "(uint64 \<Rightarrow> uint64 \<Rightarrow> 'r) \<Rightarrow> uint32 \<Rightarrow> uint32 \<Rightarrow> uint32 \<Rightarrow> nat \<Rightarrow> nat" where
  "getUtreexoExponent subtree startBlock endHeight bestHeight maxExp =
     (let numLeaves = scast (bestHeight + 1) in
      exponentLoop subtree numLeaves (subtree (scast startBlock) numLeaves) startBlock endHeight maxExp 0)"

definition GetUtreexoTTLsExponent :: "(uint64 \<Rightarrow> uint64 \<Rightarrow> 'r) \<Rightarrow> uint32 \<Rightarrow> uint32 \<Rightarrow> uint32 \<Rightarrow> nat" where
  "GetUtreexoTTLsExponent subtree startBlock endHeight bestHeight =
     getUtreexoExponent subtree startBlock endHeight bestHeight MaxUtreexoTTLExponent"

definition CalculateGetUtreexoTTLMsgs ::
    "(uint64 \<Rightarrow> uint64 \<Rightarrow> 'r) \<Rightarrow> uint32 \<Rightarrow> uint32 \<Rightarrow> uint32 \<Rightarrow> MsgGetUtreexoTTLs" where
  "CalculateGetUtreexoTTLMsgs subtree version startHeight endHeight =
     \<lparr>gt_Version = version, gt_StartHeight = startHeight,
      gt_MaxReceiveExponent = word_of_nat (GetUtreexoTTLsExponent subtree startHeight endHeight (version - 1))\<rparr>"

record MsgGetUtreexoRoot =
  gr_BlockHash :: hash

definition MsgGetUtreexoRoot_BtcDecode :: "byte list \<Rightarrow> MsgGetUtreexoRoot read_result" where
  "MsgGetUtreexoRoot_BtcDecode r = rbind (ReadFull HashSize r) (\<lambda>(h, r). Inr (\<lparr>gr_BlockHash = h\<rparr>, r))"

definition MsgGetUtreexoRoot_BtcEncode :: "MsgGetUtreexoRoot \<Rightarrow> byte list" where
  "MsgGetUtreexoRoot_BtcEncode msg = gr_BlockHash msg"

section \<open>Proof requests\<close>

record MsgGetUtreexoProof =
  gp_BlockHash :: hash
  gp_RequestBitMap :: byte
  gp_ProofIndexBitMap :: "byte list"
  gp_LeafIndexBitMap :: "byte list"

definition readBitMap :: "byte list \<Rightarrow> byte list read_result" where
  "readBitMap r =
     rbind (ReadVarInt r) (\<lambda>(count, r).
     rbind (makeslice 1 (unat count)) (\<lambda>_. BufferRead (unat count) r))"

definition MsgGetUtreexoProof_BtcDecode :: "byte list \<Rightarrow> MsgGetUtreexoProof read_result" where
  "MsgGetUtreexoProof_BtcDecode r =
     rbind (BufferRead HashSize r) (\<lambda>(h, r).
     rbind (BufferRead 1 r) (\<lambda>(b, r).
     rbind (readBitMap r) (\<lambda>(proofIndexes, r).
     rbind (readBitMap r) (\<lambda>(leafIndexes, r).
       Inr (\<lparr>gp_BlockHash = h, gp_RequestBitMap = hd b, gp_ProofIndexBitMap = proofIndexes,
             gp_LeafIndexBitMap = leafIndexes\<rparr>, r)))))"

definition MsgGetUtreexoProof_BtcEncode :: "MsgGetUtreexoProof \<Rightarrow> byte list" where
  "MsgGetUtreexoProof_BtcEncode msg =
     gp_BlockHash msg @ [gp_RequestBitMap msg] @
     WriteVarInt (word_of_nat (length (gp_ProofIndexBitMap msg))) @ gp_ProofIndexBitMap msg @
     WriteVarInt (word_of_nat (length (gp_LeafIndexBitMap msg))) @ gp_LeafIndexBitMap msg"

definition SetTargetRequestBit :: "MsgGetUtreexoProof \<Rightarrow> MsgGetUtreexoProof" where
  "SetTargetRequestBit msg = msg\<lparr>gp_RequestBitMap := gp_RequestBitMap msg OR 1\<rparr>"

definition SetProofHashRequestBit :: "MsgGetUtreexoProof \<Rightarrow> MsgGetUtreexoProof" where
  "SetProofHashRequestBit msg = msg\<lparr>gp_RequestBitMap := gp_RequestBitMap msg OR push_bit 1 1\<rparr>"

definition SetLeafDataRequestBit :: "MsgGetUtreexoProof \<Rightarrow> MsgGetUtreexoProof" where
  "SetLeafDataRequestBit msg = msg\<lparr>gp_RequestBitMap := gp_RequestBitMap msg OR push_bit 2 1\<rparr>"

definition isBitSet :: "byte list \<Rightarrow> nat \<Rightarrow> bool" where
  "isBitSet bitmap idx =
     (let bytesIdx = idx div 8 in
      if length bitmap \<le> bytesIdx then False
      else bitmap ! bytesIdx AND push_bit (idx mod 8) 1 \<noteq> 0)"

definition IsLeafDataRequestedAtIdx :: "MsgGetUtreexoProof \<Rightarrow> nat \<Rightarrow> bool" where
  "IsLeafDataRequestedAtIdx msg idx = isBitSet (gp_LeafIndexBitMap msg) idx"

definition IsProofRequestedAtIdx :: "MsgGetUtreexoProof \<Rightarrow> nat \<Rightarrow> bool" where
  "IsProofRequestedAtIdx msg idx = isBitSet (gp_ProofIndexBitMap msg) idx"

definition AreTargetsRequested :: "MsgGetUtreexoProof \<Rightarrow> bool" where
  "AreTargetsRequested msg = isBitSet [gp_RequestBitMap msg] 0"

definition IsEntireProofRequested :: "MsgGetUtreexoProof \<Rightarrow> bool" where
  "IsEntireProofRequested msg = isBitSet [gp_RequestBitMap msg] 1"

definition IsEntireLeafDataRequested :: "MsgGetUtreexoProof \<Rightarrow> bool" where
  "IsEntireLeafDataRequested msg = isBitSet [gp_RequestBitMap msg] 2"

text \<open>The loop of \<^verbatim>\<open>createBitmap\<close> keeps the index of the byte being filled.\<close>

fun fillBitmap :: "bool list \<Rightarrow> nat \<Rightarrow> nat \<Rightarrow> byte list \<Rightarrow> byte list" where
  "fillBitmap [] idx bitMapIdx bitMap = bitMap"
| "fillBitmap (include # includes) idx bitMapIdx bitMap =
     (let bitPlace = idx mod 8;
          bitMapIdx = (if idx \<noteq> 0 \<and> bitPlace = 0 then bitMapIdx + 1 else bitMapIdx);
          bitMap = (if include then bitMap[bitMapIdx := bitMap ! bitMapIdx OR push_bit bitPlace 1] else bitMap)
      in fillBitmap includes (idx + 1) bitMapIdx bitMap)"

definition createBitmap :: "bool list \<Rightarrow> byte list" where
  "createBitmap includes =
     (let count = length includes div 8;
          count = (if length includes mod 8 \<noteq> 0 then count + 1 else count)
      in fillBitmap includes 0 0 (replicate count 0))"

section \<open>Transactions with proofs\<close>

record MsgUtreexoTx =
  ut_MsgTx :: MsgTx
  ut_AccProof :: Proof
  ut_LeafDatas :: "LeafData list"

text \<open>
  The encoder marks the inputs in place: each output index is shifted left and its low bit says that
  the input is unconfirmed.  An input without a leaf is an index out of range.\<close>

definition markInput :: "LeafData \<Rightarrow> TxIn \<Rightarrow> TxIn" where
  "markInput ld txIn =
     (let op = ti_PreviousOutPoint txIn;
          index = push_bit 1 (op_Index op);
          index = (if IsUnconfirmed ld then index OR 1 else index)
      in txIn\<lparr>ti_PreviousOutPoint := op\<lparr>op_Index := index\<rparr>\<rparr>)"

fun markInputs :: "LeafData list \<Rightarrow> TxIn list \<Rightarrow> read_error + TxIn list" where
  "markInputs lds [] = Inr []"
| "markInputs [] (txIn # txIns) = Inl (RuntimePanic ''MsgUtreexoTx.BtcEncode'')"
| "markInputs (ld # lds) (txIn # txIns) =
     rbind (markInputs lds txIns) (\<lambda>txIns. Inr (markInput ld txIn # txIns))"

text \<open>The bytes written, and the message after the call.\<close>

definition MsgUtreexoTx_BtcEncode ::
    "MessageEncoding \<Rightarrow> MsgUtreexoTx \<Rightarrow> read_error + byte list \<times> MsgUtreexoTx" where
  "MsgUtreexoTx_BtcEncode enc msg =
     rbind (markInputs (ut_LeafDatas msg) (tx_TxIn (ut_MsgTx msg))) (\<lambda>txIns.
       let msg = msg\<lparr>ut_MsgTx := (ut_MsgTx msg)\<lparr>tx_TxIn := txIns\<rparr>\<rparr> in
       rbind (serializeLeaves (ut_LeafDatas msg)) (\<lambda>bs.
         Inr (BatchProofSerialize (ut_AccProof msg) @ BtcEncode enc (ut_MsgTx msg) @ bs, msg)))"

fun readInputLeaves :: "TxIn list \<Rightarrow> byte list \<Rightarrow> (TxIn list \<times> LeafData list) read_result" where
  "readInputLeaves [] r = Inr (([], []), r)"
| "readInputLeaves (txIn # txIns) r =
     (let op = ti_PreviousOutPoint txIn;
          isUnconfirmed = (op_Index op AND 1 = 1);
          txIn = txIn\<lparr>ti_PreviousOutPoint := op\<lparr>op_Index := drop_bit 1 (op_Index op)\<rparr>\<rparr>;
          ld = NewLeafData\<lparr>ld_OutPoint := ti_PreviousOutPoint txIn\<rparr>
      in
      rbind (if isUnconfirmed then Inr (SetUnconfirmed ld, r) else DeserializeCompact ld r) (\<lambda>(ld, r).
      rbind (readInputLeaves txIns r) (\<lambda>((txIns, lds), r).
        Inr ((txIn # txIns, ld # lds), r))))"

definition MsgUtreexoTx_BtcDecode :: "MessageEncoding \<Rightarrow> byte list \<Rightarrow> MsgUtreexoTx read_result" where
  "MsgUtreexoTx_BtcDecode enc r =
     rbind (BatchProofDeserialize r) (\<lambda>(proof, r).
     rbind (BtcDecode enc r) (\<lambda>(msgTx, r).
     rbind (readInputLeaves (tx_TxIn msgTx) r) (\<lambda>((txIns, lds), r).
       Inr (\<lparr>ut_MsgTx = msgTx\<lparr>tx_TxIn := txIns\<rparr>, ut_AccProof = proof, ut_LeafDatas = lds\<rparr>, r))))"

section \<open>Slices and proofs come back\<close>

lemma readSlice_put:
  assumes "codec put get valid" "list_all valid xs" "elemSize * length xs \<le> 2 ^ 48" "0 < elemSize"
  shows "readSlice elemSize get (writeSlice put xs @ rest) = Inr (xs, rest)"
proof -
  have "1 * length xs \<le> elemSize * length xs" using assms(4) by (intro mult_le_mono1) linarith
  also note assms(3)
  finally have "unat (word_of_nat (length xs) :: uint64) = length xs" by (intro unat_word_of_nat_small) simp
  then show ?thesis
    using assms(3) codec.read_n_write_all [OF assms(1,2)]
    by (simp add: readSlice_def writeSlice_def ReadVarInt_WriteVarInt makeslice_def)
qed

lemma readSlice_canonical:
  assumes "canonical_codec put get valid" "readSlice elemSize get bs = Inr (xs, rest)"
  shows "list_all valid xs \<and> elemSize * length xs \<le> 2 ^ 48 \<and> bs = writeSlice put xs @ rest"
proof -
  obtain count r where c: "bs = WriteVarInt count @ r" "elemSize * unat count \<le> 2 ^ 48"
    "read_n get (unat count) r = Inr (xs, rest)"
    using assms(2) by (auto simp: readSlice_def rbind_eq_Inr varint.get_iff makeslice_def split: if_splits)
  from canonical_codec.read_n_canonical [OF assms(1) c(3)] c show ?thesis by (auto simp: writeSlice_def)
qed

lemma readSlice_iff:
  assumes "canonical_codec put get valid" "0 < elemSize"
  shows "readSlice elemSize get bs = Inr (xs, rest) \<longleftrightarrow>
    list_all valid xs \<and> elemSize * length xs \<le> 2 ^ 48 \<and> bs = writeSlice put xs @ rest"
  using readSlice_canonical [OF assms(1)] readSlice_put [OF canonical_codec.axioms(1) [OF assms(1)] _ _ assms(2)]
  by blast

text \<open>A count that does not fit in memory is not an error but a panic, whatever follows it.\<close>

lemma readSlice_panic:
  "elemSize * unat count > 2 ^ 48 \<Longrightarrow>
     readSlice elemSize get (WriteVarInt count @ rest) = Inl (RuntimePanic ''makeslice'')"
  by (simp add: readSlice_def ReadVarInt_WriteVarInt makeslice_def)

interpretation hash32: canonical_codec id "ReadFull HashSize" is_hash
  by unfold_locales (auto simp: is_hash_def ReadFull_eq_Inr)

lemmas hash_slice = readSlice_iff [OF hash32.canonical_codec_axioms, simplified]
lemmas varint_slice = readSlice_iff [OF varint.canonical_codec_axioms, simplified]

lemma ProofTargetsDeserialize_eq: "ProofTargetsDeserialize r = readSlice 8 ReadVarInt r"
  by (auto simp: ProofTargetsDeserialize_def readSlice_def makeslice_def intro!: rbind_cong)

lemma ProofHashesDeserialize_eq: "ProofHashesDeserialize r = readSlice 32 (ReadFull HashSize) r"
  by (auto simp: ProofHashesDeserialize_def readSlice_def makeslice_def intro!: rbind_cong)

definition valid_Proof :: "Proof \<Rightarrow> bool" where
  "valid_Proof bp \<longleftrightarrow>
     8 * length (pf_Targets bp) \<le> 2 ^ 48 \<and> 32 * length (pf_Proof bp) \<le> 2 ^ 48 \<and> list_all is_hash (pf_Proof bp)"

lemma list_all_True [simp]: "list_all (\<lambda>_. True) xs"
  by (simp add: list_all_iff)

interpretation batchproof: canonical_codec BatchProofSerialize BatchProofDeserialize valid_Proof
proof unfold_locales
  show "BatchProofDeserialize (BatchProofSerialize bp @ rest) = Inr (bp, rest)" if "valid_Proof bp" for bp rest
  proof -
    let ?t = "writeSlice WriteVarInt (pf_Targets bp) @ writeSlice id (pf_Proof bp) @ rest"
    have "readSlice 8 ReadVarInt ?t = Inr (pf_Targets bp, writeSlice id (pf_Proof bp) @ rest)"
      "readSlice 32 (ReadFull HashSize) (writeSlice id (pf_Proof bp) @ rest) = Inr (pf_Proof bp, rest)"
      using that by (simp_all add: valid_Proof_def varint_slice hash_slice)
    then show ?thesis
      by (simp add: BatchProofDeserialize_def BatchProofSerialize_def ProofTargetsSerialize_def ProofHashesSerialize_def
          ProofTargetsDeserialize_eq ProofHashesDeserialize_eq)
  qed
  show "valid_Proof bp \<and> bs = BatchProofSerialize bp @ rest" if "BatchProofDeserialize bs = Inr (bp, rest)" for bs bp rest
    using that
    by (auto simp: BatchProofDeserialize_def BatchProofSerialize_def ProofTargetsSerialize_def ProofHashesSerialize_def
        ProofTargetsDeserialize_eq ProofHashesDeserialize_eq rbind_eq_Inr varint_slice hash_slice valid_Proof_def)
qed

lemma length_writeSlice: "length (writeSlice put xs) =
    VarIntSerializeSize (word_of_nat (length xs)) + (\<Sum>x\<leftarrow>xs. length (put x))"
  by (simp add: writeSlice_def length_WriteVarInt length_write_all)

lemma sum_is_hash: "list_all is_hash hs \<Longrightarrow> (\<Sum>h\<leftarrow>hs. length h) = HashSize * length hs"
  by (induction hs) (simp_all add: is_hash_def)

lemma length_BatchProofSerialize:
  "valid_Proof bp \<Longrightarrow> length (BatchProofSerialize bp) = BatchProofSerializeSize bp"
  by (simp add: BatchProofSerialize_def ProofTargetsSerialize_def ProofHashesSerialize_def length_writeSlice
      BatchProofSerializeSize_def BatchProofSerializeTargetSize_def BatchProofSerializeAccProofSize_def
      foldl_add length_WriteVarInt valid_Proof_def sum_is_hash)

section \<open>Leaves come back\<close>

lemma serializeLeaves_ok: "list_all valid_compact lds \<Longrightarrow> serializeLeaves lds = Inr (write_all compactBytes lds)"
  by (induction lds) (simp_all add: SerializeCompact_ok)

lemma DeserializeCompact_new:
  "valid_compact l \<Longrightarrow> DeserializeCompact NewLeafData (compactBytes l @ rest) = Inr (compact_leaf l, rest)"
  using DeserializeCompact_compactBytes [of l NewLeafData rest]
  by (cases l) (simp add: NewLeafData_def compact_leaf_def)

lemma read_compact_leaves:
  "list_all valid_compact lds \<Longrightarrow>
     read_n (DeserializeCompact NewLeafData) (length lds) (write_all compactBytes lds @ rest) =
     Inr (map compact_leaf lds, rest)"
  by (induction lds) (simp_all add: DeserializeCompact_new)

definition valid_UData :: "UData \<Rightarrow> bool" where
  "valid_UData ud \<longleftrightarrow>
     valid_Proof (ud_AccProof ud) \<and> list_all valid_compact (ud_LeafDatas ud) \<and>
     length (ud_LeafDatas ud) \<le> MaxPossibleInputsPerBlock"

lemma DeserializeUtxoData_put:
  assumes "list_all valid_compact lds" "length lds \<le> MaxPossibleInputsPerBlock"
  shows "DeserializeUtxoData (WriteVarInt (word_of_nat (length lds)) @ write_all compactBytes lds @ rest) =
    Inr (map compact_leaf lds, rest)"
proof -
  have n: "unat (word_of_nat (length lds) :: uint64) = length lds"
    using assms(2) by (intro unat_word_of_nat_small) simp
  then have "word_of_nat (length lds) = (0 :: uint64) \<longleftrightarrow> lds = []" by (simp add: word_unat_eq_iff)
  with n assms show ?thesis
    by (simp add: DeserializeUtxoData_def ReadVarInt_WriteVarInt read_compact_leaves)
qed

section \<open>Bitmaps\<close>

lemma bit_set_push: "(w :: byte) AND 2 ^ k \<noteq> 0 \<longleftrightarrow> k < 8 \<and> bit w k"
proof -
  have "bit (w AND 2 ^ k) j \<longleftrightarrow> j = k \<and> k < 8 \<and> bit w k" for j
    by (auto simp: bit_and_iff bit_exp_iff)
  then show ?thesis by (metis bit_0_eq bit_eq_iff bot_apply bot_bool_def)
qed

lemma isBitSet_bit: "isBitSet bm i \<longleftrightarrow> i div 8 < length bm \<and> bit (bm ! (i div 8)) (i mod 8)"
  by (simp add: isBitSet_def Let_def bit_set_push not_le)

lemma fillBitmap_spec:
  assumes "bi = (idx - 1) div 8" "(idx + length incs + 7) div 8 \<le> length bm"
  shows "length (fillBitmap incs idx bi bm) = length bm \<and>
    (\<forall>i. isBitSet (fillBitmap incs idx bi bm) i \<longleftrightarrow>
       isBitSet bm i \<or> (idx \<le> i \<and> i < idx + length incs \<and> incs ! (i - idx)))"
  using assms
proof (induction incs idx bi bm rule: fillBitmap.induct)
  case (1 idx bi bm)
  then show ?case by auto
next
  case (2 inc incs idx bi bm)
  define bi' where "bi' = (if idx \<noteq> 0 \<and> idx mod 8 = 0 then bi + 1 else bi)"
  define bm' where "bm' = (if inc then bm[bi' := bm ! bi' OR push_bit (idx mod 8) 1] else bm)"
  have bi': "bi' = idx div 8" using 2(2) by (cases idx) (auto simp: bi'_def div_Suc mod_Suc)
  have len: "length bm' = length bm" by (simp add: bm'_def)
  have "idx div 8 < (idx + length (inc # incs) + 7) div 8" by (simp add: less_eq_div_iff_mult_less_eq Suc_le_eq [symmetric])
  then have lt: "bi' < length bm" using 2(3) bi' by linarith
  have IH: "length (fillBitmap incs (idx + 1) bi' bm') = length bm' \<and>
    (\<forall>i. isBitSet (fillBitmap incs (idx + 1) bi' bm') i \<longleftrightarrow>
       isBitSet bm' i \<or> (idx + 1 \<le> i \<and> i < idx + 1 + length incs \<and> incs ! (i - (idx + 1))))"
    using 2(1) [OF refl bi'_def bm'_def] 2(3) bi' len by simp
  have "isBitSet bm' i \<longleftrightarrow> isBitSet bm i \<or> (i = idx \<and> inc)" for i
  proof (cases "i div 8 = bi'")
    case True
    then have "i mod 8 = idx mod 8 \<longleftrightarrow> i = idx" using bi' by (metis div_mult_mod_eq)
    then show ?thesis using True lt bi'
      by (auto simp: isBitSet_bit bm'_def bit_or_iff bit_exp_iff)
  next
    case False
    then show ?thesis using lt bi' by (auto simp: isBitSet_bit bm'_def)
  qed
  then have "isBitSet bm' i \<or> (idx + 1 \<le> i \<and> i < idx + 1 + length incs \<and> incs ! (i - (idx + 1))) \<longleftrightarrow>
      isBitSet bm i \<or> (idx \<le> i \<and> i < idx + length (inc # incs) \<and> (inc # incs) ! (i - idx))" for i
    by (auto simp: nth_Cons' not_le)
  moreover have "fillBitmap (inc # incs) idx bi bm = fillBitmap incs (idx + 1) bi' bm'"
    by (simp add: bi'_def bm'_def Let_def)
  ultimately show ?case using IH len by simp
qed

lemma createBitmap_spec:
  "isBitSet (createBitmap incs) i \<longleftrightarrow> i < length incs \<and> incs ! i"
  "length (createBitmap incs) = (length incs + 7) div 8"
proof -
  define n where "n = (if length incs mod 8 \<noteq> 0 then length incs div 8 + 1 else length incs div 8)"
  have "(length incs mod 8 + 7) div 8 = 1" if "length incs mod 8 \<noteq> 0"
    using that mod_less_divisor [of 8 "length incs"] by (intro div_nat_eqI) simp_all
  then have n: "n = (length incs + 7) div 8" by (simp add: n_def div_add1_eq [of "length incs" 7])
  have z: "\<not> isBitSet (replicate n 0) i" for i by (simp add: isBitSet_bit)
  have "length (fillBitmap incs 0 0 (replicate n 0)) = length (replicate n (0 :: byte)) \<and>
    (\<forall>i. isBitSet (fillBitmap incs 0 0 (replicate n 0)) i \<longleftrightarrow>
       isBitSet (replicate n 0) i \<or> (0 \<le> i \<and> i < 0 + length incs \<and> incs ! (i - 0)))"
    by (rule fillBitmap_spec) (simp_all add: n)
  then show "isBitSet (createBitmap incs) i \<longleftrightarrow> i < length incs \<and> incs ! i"
    "length (createBitmap incs) = (length incs + 7) div 8"
    using z n by (simp_all add: createBitmap_def Let_def n_def)
qed

section \<open>Transactions with proofs come back\<close>

text \<open>What the decoder makes of an input and its leaf.\<close>

definition decoded_leaf :: "LeafData \<Rightarrow> TxIn \<Rightarrow> LeafData" where
  "decoded_leaf ld txIn =
     (if IsUnconfirmed ld then SetUnconfirmed (NewLeafData\<lparr>ld_OutPoint := ti_PreviousOutPoint txIn\<rparr>)
      else (compact_leaf ld)\<lparr>ld_OutPoint := ti_PreviousOutPoint txIn\<rparr>)"

definition valid_input :: "LeafData \<Rightarrow> TxIn \<Rightarrow> bool" where
  "valid_input ld txIn \<longleftrightarrow>
     unat (op_Index (ti_PreviousOutPoint txIn)) < 2 ^ 31 \<and> (IsUnconfirmed ld \<or> valid_compact ld)"

definition input_bytes :: "LeafData \<Rightarrow> byte list" where
  "input_bytes ld = (if IsUnconfirmed ld then [] else compactBytes ld)"

lemma SerializeCompact_input: "valid_input ld txIn \<Longrightarrow> SerializeCompact ld = Inr (input_bytes ld)"
  by (cases "IsUnconfirmed ld") (simp_all add: valid_input_def input_bytes_def SerializeCompact_ok, simp add: SerializeCompact_def)

lemma serializeLeaves_inputs:
  "list_all2 valid_input lds txIns \<Longrightarrow> serializeLeaves lds = Inr (write_all input_bytes lds)"
  by (induction rule: list_all2_induct) (simp_all add: SerializeCompact_input)

lemma bit_marked:
  fixes w :: uint32
  assumes "unat w < 2 ^ 31"
  shows "(push_bit 1 w OR 1) AND 1 = 1" "push_bit 1 w AND 1 \<noteq> 1"
    "drop_bit 1 (push_bit 1 w OR 1) = w" "drop_bit 1 (push_bit 1 w) = w"
proof -
  have "take_bit 31 (unat w) = unat w" using assms by (simp add: take_bit_nat_eq_self)
  then have "bit (unat w) 31 = bit (take_bit 31 (unat w)) 31" by simp
  then have top: "\<not> bit w 31" by (simp only: bit_take_bit_iff bit_unsigned_iff) simp
  have "bit (push_bit 1 w) n = (1 \<le> n \<and> n < 32 \<and> bit w (n - 1))" for n
    by (simp only: bit_push_bit_iff possible_bit_word) auto
  note b = this
  show "(push_bit 1 w OR 1) AND 1 = 1" by (rule bit_word_eqI) (auto simp only: bit_and_iff bit_or_iff bit_1_iff)
  show "push_bit 1 w AND 1 \<noteq> 1"
  proof
    assume "push_bit 1 w AND 1 = 1"
    then have "bit (push_bit 1 w AND 1) 0" by (simp only:) simp
    then show False by (simp only: bit_and_iff b) simp
  qed
  have d: "bit (drop_bit 1 v) n = bit v (1 + n)" for v :: uint32 and n by (simp add: bit_drop_bit_eq)
  have hi: "n < 32 \<and> 1 + n < 32 \<or> n = 31" if "n < 32" for n :: nat using that by linarith
  show "drop_bit 1 (push_bit 1 w OR 1) = w"
  proof (rule bit_word_eqI)
    fix n assume "n < LENGTH(32)"
    then show "bit (drop_bit 1 (push_bit 1 w OR 1)) n = bit w n"
      using hi [of n] top by (auto simp only: d bit_or_iff b bit_1_iff) auto
  qed
  show "drop_bit 1 (push_bit 1 w) = w"
  proof (rule bit_word_eqI)
    fix n assume "n < LENGTH(32)"
    then show "bit (drop_bit 1 (push_bit 1 w)) n = bit w n"
      using hi [of n] top by (auto simp only: d b) auto
  qed
qed

lemma markInputs_ok:
  "list_all2 valid_input lds txIns \<Longrightarrow> markInputs lds txIns = Inr (map2 markInput lds txIns)"
  by (induction rule: list_all2_induct) simp_all

lemma mark_unmark:
  assumes "valid_input ld txIn"
  shows "readInputLeaves (markInput ld txIn # txIns) (input_bytes ld @ r) =
    rbind (readInputLeaves txIns r) (\<lambda>((txIns, lds), r). Inr ((txIn # txIns, decoded_leaf ld txIn # lds), r))"
proof (cases "IsUnconfirmed ld")
  case True
  then show ?thesis
    using assms bit_marked [of "op_Index (ti_PreviousOutPoint txIn)"]
    by (simp add: markInput_def input_bytes_def decoded_leaf_def valid_input_def Let_def del: push_bit_Suc push_bit_of_1)
next
  case False
  then have v: "valid_compact ld" using assms by (simp add: valid_input_def)
  let ?l0 = "NewLeafData\<lparr>ld_OutPoint := ti_PreviousOutPoint txIn\<rparr>"
  have "DeserializeCompact ?l0 (compactBytes ld @ r) = Inr (decoded_leaf ld txIn, r)"
    using DeserializeCompact_compactBytes [OF v, of ?l0 r] False
    by (cases ld) (simp add: NewLeafData_def compact_leaf_def decoded_leaf_def)
  with False show ?thesis
    using assms bit_marked [of "op_Index (ti_PreviousOutPoint txIn)"]
    by (simp add: markInput_def input_bytes_def valid_input_def Let_def)
qed

lemma readInputLeaves_put:
  "list_all2 valid_input lds txIns \<Longrightarrow>
     readInputLeaves (map2 markInput lds txIns) (write_all input_bytes lds @ rest) =
     Inr ((txIns, map2 decoded_leaf lds txIns), rest)"
  by (induction rule: list_all2_induct) (simp_all add: mark_unmark del: readInputLeaves.simps(2))

lemma map_fix: "map f xs = xs \<longleftrightarrow> (\<forall>x\<in>set xs. f x = x)"
  by (induction xs) auto

lemma normal_witness_fix:
  "normal_witness tx = tx \<longleftrightarrow>
     (if HasWitness tx then \<forall>ti\<in>set (tx_TxIn tx). ti_Witness ti \<noteq> None else \<forall>ti\<in>set (tx_TxIn tx). ti_Witness ti = None)"
proof -
  have "fill_TxIn ti = ti \<longleftrightarrow> ti_Witness ti \<noteq> None" "strip_TxIn ti = ti \<longleftrightarrow> ti_Witness ti = None" for ti
    by (cases ti; force simp: fill_TxIn_def strip_TxIn_def wit_items_def split: option.splits)+
  then show ?thesis by (cases tx) (auto simp: normal_witness_def strip_witness_def map_fix)
qed

lemma markInput_simps [simp]:
  "ti_Witness (markInput ld txIn) = ti_Witness txIn"
  "valid_TxIn (markInput ld txIn) = valid_TxIn txIn"
  by (simp_all add: markInput_def Let_def valid_TxIn_def valid_OutPoint_def)

definition marked :: "MsgUtreexoTx \<Rightarrow> MsgTx" where
  "marked msg = (ut_MsgTx msg)\<lparr>tx_TxIn := map2 markInput (ut_LeafDatas msg) (tx_TxIn (ut_MsgTx msg))\<rparr>"

lemma map2_markInput:
  assumes "length lds = length txIns" "\<And>ld ti. P (markInput ld ti) = P ti"
  shows "list_all P (map2 markInput lds txIns) = list_all P txIns" "list_ex P (map2 markInput lds txIns) = list_ex P txIns"
  using assms by (induction lds txIns rule: list_induct2) simp_all

lemma marked_valid:
  assumes "length (ut_LeafDatas msg) = length (tx_TxIn (ut_MsgTx msg))"
  shows "valid_MsgTx (marked msg) = valid_MsgTx (ut_MsgTx msg)"
    "normal_witness (marked msg) = marked msg \<longleftrightarrow> normal_witness (ut_MsgTx msg) = ut_MsgTx msg"
    "tx_TxIn (marked msg) = [] \<longleftrightarrow> tx_TxIn (ut_MsgTx msg) = []"
proof -
  note m = map2_markInput [OF assms]
  have hw: "HasWitness (marked msg) = HasWitness (ut_MsgTx msg)"
    using m(2) [of "\<lambda>ti. length (wit_items (ti_Witness ti)) \<noteq> 0"] by (simp add: marked_def HasWitness_def)
  show "valid_MsgTx (marked msg) = valid_MsgTx (ut_MsgTx msg)"
    using m(1) [of valid_TxIn] m(1) [of "\<lambda>ti. valid_witness (ti_Witness ti)"] assms
    by (simp add: marked_def valid_MsgTx_def)
  show "normal_witness (marked msg) = marked msg \<longleftrightarrow> normal_witness (ut_MsgTx msg) = ut_MsgTx msg"
    using m(1) [of "\<lambda>ti. ti_Witness ti \<noteq> None"] m(1) [of "\<lambda>ti. ti_Witness ti = None"]
    unfolding normal_witness_fix hw by (simp add: marked_def list_all_iff)
  show "tx_TxIn (marked msg) = [] \<longleftrightarrow> tx_TxIn (ut_MsgTx msg) = []"
    using assms by (auto simp: marked_def zip_eq_Nil_iff)
qed

lemma markInput_index:
  assumes "unat (op_Index (ti_PreviousOutPoint ti)) < 2 ^ 31"
  shows "unat (op_Index (ti_PreviousOutPoint (markInput ld ti))) =
    2 * unat (op_Index (ti_PreviousOutPoint ti)) + (if IsUnconfirmed ld then 1 else 0)"
proof -
  let ?w = "op_Index (ti_PreviousOutPoint ti)"
  have d: "unat (push_bit 1 ?w) = 2 * unat ?w"
    using assms by (simp add: unat_word_ariths)
  have "push_bit 1 ?w OR 1 = push_bit 1 ?w + 1"
    by (simp add: or_one_eq)
  with d assms show ?thesis
    by (simp add: markInput_def Let_def unat_word_ariths)
qed

section \<open>Messages come back\<close>

lemma BufferRead_then:
  assumes "\<And>y. f [] \<noteq> Inr y"
  shows "rbind (BufferRead HashSize r) (\<lambda>(h, r). rbind (f r) (g h)) = Inr y \<longleftrightarrow>
    (\<exists>h r'. is_hash h \<and> r = h @ r' \<and> rbind (f r') (g h) = Inr y)" (is "?read \<longleftrightarrow> ?ex")
proof
  assume ?read
  then have r: "r \<noteq> []" and c: "rbind (f (drop HashSize r)) (g (take HashSize r @ replicate (HashSize - length r) 0)) = Inr y"
    by (auto simp: BufferRead_def HashSize_def split: if_splits)
  then have "drop HashSize r \<noteq> []" using assms by (auto simp: rbind_eq_Inr)
  then have "is_hash (take HashSize r)" "HashSize - length r = 0" by (simp_all add: is_hash_def)
  with c show ?ex by (intro exI [of _ "take HashSize r"] exI [of _ "drop HashSize r"]) simp
next
  assume ?ex
  then obtain h r' where h: "is_hash h" "r = h @ r'" "rbind (f r') (g h) = Inr y" by blast
  then have "h \<noteq> []" by (auto simp: is_hash_def HashSize_def)
  with h show ?read by (simp add: BufferRead_def is_hash_def)
qed

definition valid_Root :: "MsgUtreexoRoot \<Rightarrow> bool" where
  "valid_Root msg \<longleftrightarrow>
     is_hash (ur_BlockHash msg) \<and> list_all is_hash (ur_Roots msg) \<and> list_all is_hash (ur_Proof msg) \<and>
     32 * length (ur_Roots msg) \<le> 2 ^ 48 \<and> 32 * length (ur_Proof msg) \<le> 2 ^ 48"

lemma readSlice_Nil: "readSlice n get [] \<noteq> Inr y"
  by (simp add: readSlice_def ReadVarInt_def Uint8_def ReadFull_def)

lemmas hash_then_slice = BufferRead_then [where f = "readSlice 32 (ReadFull HashSize)", OF readSlice_Nil]

interpretation utreexoroot: canonical_codec MsgUtreexoRoot_BtcEncode MsgUtreexoRoot_BtcDecode valid_Root
proof -
  have iff: "MsgUtreexoRoot_BtcDecode bs = Inr (msg, rest) \<longleftrightarrow>
      valid_Root msg \<and> bs = MsgUtreexoRoot_BtcEncode msg @ rest" for bs msg rest
    unfolding MsgUtreexoRoot_BtcDecode_def hash_then_slice rbind_eq_Inr [of "ReadVarInt _"] split_paired_Ex prod.case
    by (cases msg)
      (auto simp: rbind_eq_Inr varint.get_iff hash_slice valid_Root_def MsgUtreexoRoot_BtcEncode_def)
  show "canonical_codec MsgUtreexoRoot_BtcEncode MsgUtreexoRoot_BtcDecode valid_Root"
    by unfold_locales (simp_all add: iff)
qed

interpretation ttlinfo: canonical_codec writeTTLInfo readTTLInfo "\<lambda>_. True"
  by unfold_locales (auto simp: writeTTLInfo_def readTTLInfo_def rbind_eq_Inr uint32.get_iff)

interpretation ttl: canonical_codec UtreexoTTL_Serialize UtreexoTTL_Deserialize "\<lambda>ut. 8 * length (TTLs ut) \<le> 2 ^ 48"
proof -
  have iff: "UtreexoTTL_Deserialize bs = Inr (ut, rest) \<longleftrightarrow>
      8 * length (TTLs ut) \<le> 2 ^ 48 \<and> bs = UtreexoTTL_Serialize ut @ rest" for bs ut rest
    by (cases ut)
      (auto simp: UtreexoTTL_Deserialize_def UtreexoTTL_Serialize_def rbind_eq_Inr uint32.get_iff
        readSlice_iff [OF ttlinfo.canonical_codec_axioms])
  show "canonical_codec UtreexoTTL_Serialize UtreexoTTL_Deserialize (\<lambda>ut. 8 * length (TTLs ut) \<le> 2 ^ 48)"
    by unfold_locales (simp_all add: iff)
qed

lemma MsgUtreexoTTLs_iff:
  "MsgUtreexoTTLs_BtcDecode bs = Inr (msg, rest) \<longleftrightarrow>
     list_all (\<lambda>ut. 8 * length (TTLs ut) \<le> 2 ^ 48) (um_TTLs msg) \<and> list_all is_hash (um_ProofHashes msg) \<and>
     32 * length (um_ProofHashes msg) \<le> 2 ^ 48 \<and>
     (\<exists>out. MsgUtreexoTTLs_BtcEncode msg = Inr out \<and> bs = out @ rest)" (is "?get \<longleftrightarrow> ?put")
proof
  assume ?get
  then obtain count r ttls r' hashes where c: "bs = WriteVarInt count @ r" "unat count \<le> MaxUtreexoTTLsPerMsg"
    "read_n UtreexoTTL_Deserialize (unat count) r = Inr (ttls, r')"
    "readSlice 32 (ReadFull HashSize) r' = Inr (hashes, rest)" "msg = \<lparr>um_TTLs = ttls, um_ProofHashes = hashes\<rparr>"
    by (auto simp: MsgUtreexoTTLs_BtcDecode_def rbind_eq_Inr varint.get_iff not_less split: if_splits)
  from ttl.read_n_canonical [OF c(3)] c(1,2,4,5) show ?put
    by (auto simp: MsgUtreexoTTLs_BtcEncode_def hash_slice writeSlice_def)
next
  assume p: ?put
  then have n: "length (um_TTLs msg) \<le> MaxUtreexoTTLsPerMsg"
    by (auto simp: MsgUtreexoTTLs_BtcEncode_def split: if_splits)
  then have u: "unat (word_of_nat (length (um_TTLs msg)) :: uint64) = length (um_TTLs msg)"
    by (intro unat_word_of_nat_small) simp
  have "read_n UtreexoTTL_Deserialize (length (um_TTLs msg)) (write_all UtreexoTTL_Serialize (um_TTLs msg) @ s) =
      Inr (um_TTLs msg, s)" for s
    using ttl.read_n_write_all p by blast
  moreover have "readSlice 32 (ReadFull HashSize) (writeSlice id (um_ProofHashes msg) @ rest) = Inr (um_ProofHashes msg, rest)"
    using p by (simp add: hash_slice)
  ultimately show ?get
    using p n u
    by (auto simp: MsgUtreexoTTLs_BtcDecode_def MsgUtreexoTTLs_BtcEncode_def ReadVarInt_WriteVarInt
        writeSlice_def [of UtreexoTTL_Serialize])
qed

section \<open>Properties\<close>

definition sample_proof :: Proof where
  "sample_proof = \<lparr>pf_Targets = [3, 300], pf_Proof = [replicate 32 5]\<rparr>"

definition sample_utreexo_tx :: MsgUtreexoTx where
  "sample_utreexo_tx = \<lparr>ut_MsgTx = sample_tx, ut_AccProof = sample_proof, ut_LeafDatas = [sample_leaf]\<rparr>"

lemma valid_sample_proof: "valid_Proof sample_proof"
  by (simp add: valid_Proof_def sample_proof_def is_hash_def HashSize_def)

lemma UData_put:
  assumes "valid_UData ud"
  shows "\<exists>bs. UData_Serialize ud = Inr bs \<and> length bs = UData_SerializeSize ud \<and>
    UData_Deserialize (bs @ rest) = Inr (ud\<lparr>ud_LeafDatas := map compact_leaf (ud_LeafDatas ud)\<rparr>, rest)"
proof -
  have v: "valid_Proof (ud_AccProof ud)" "list_all valid_compact (ud_LeafDatas ud)"
    "length (ud_LeafDatas ud) \<le> MaxPossibleInputsPerBlock"
    using assms by (simp_all add: valid_UData_def)
  let ?n = "WriteVarInt (word_of_nat (length (ud_LeafDatas ud)))"
  let ?bs = "BatchProofSerialize (ud_AccProof ud) @ ?n @ write_all compactBytes (ud_LeafDatas ud)"
  have "UData_Serialize ud = Inr ?bs"
    using v(2) by (simp add: UData_Serialize_def SerializeUtxoData_def serializeLeaves_ok)
  moreover have "(\<Sum>l\<leftarrow>ud_LeafDatas ud. length (compactBytes l)) = (\<Sum>l\<leftarrow>ud_LeafDatas ud. SerializeSizeCompact l)"
    using v(2) by (intro arg_cong [where f = sum_list] map_cong) (simp_all add: list_all_iff length_compactBytes)
  then have "length ?bs = UData_SerializeSize ud"
    using v(1) by (simp add: length_BatchProofSerialize length_WriteVarInt length_write_all UData_SerializeSize_def
        SerializeUtxoDataSize_def foldl_add)
  moreover have "UData_Deserialize (?bs @ rest) = Inr (ud\<lparr>ud_LeafDatas := map compact_leaf (ud_LeafDatas ud)\<rparr>, rest)"
    using batchproof.get_put [OF v(1)] DeserializeUtxoData_put [OF v(2,3)]
    by (cases ud) (simp add: UData_Deserialize_def)
  ultimately show ?thesis by blast
qed

text \<open>
  C19: the utreexo data of a block survives the wire in compact form.  Serializing and reading it back
  returns the proof and, for each confirmed leaf, its height, coinbase flag, amount and script type,
  with the script itself only when it cannot be reconstructed; the bytes after it are left and the
  computed size is the length written.\<close>

theorem udata_roundtrip:
  assumes "valid_UData ud"
  shows "\<exists>bs. UData_Serialize ud = Inr bs \<and> length bs = UData_SerializeSize ud \<and>
    UData_Deserialize (bs @ rest) = Inr (ud\<lparr>ud_LeafDatas := map compact_leaf (ud_LeafDatas ud)\<rparr>, rest)"
  using UData_put [OF assms] .

theorem udata_roundtrip_witness:
  "\<exists>bs. UData_Serialize \<lparr>ud_AccProof = sample_proof, ud_LeafDatas = [sample_leaf]\<rparr> = Inr bs \<and>
    UData_Deserialize bs = Inr (\<lparr>ud_AccProof = sample_proof, ud_LeafDatas = [compact_leaf sample_leaf]\<rparr>, [])"
proof -
  have "valid_UData \<lparr>ud_AccProof = sample_proof, ud_LeafDatas = [sample_leaf]\<rparr>"
    using valid_sample_proof valid_sample_leaf by (simp add: valid_UData_def)
  from udata_roundtrip [OF this, of "[]"] show ?thesis by auto
qed

text \<open>
  C20: a transaction with its utreexo proof survives the wire, and encoding it changes the message.
  For every input the decoder returns the outpoint and the leaf, or an unconfirmed leaf that takes no
  bytes; but after the call the message that was encoded spends other outputs: its output indexes are
  doubled, and odd for the unconfirmed inputs.\<close>

theorem utreexo_tx_roundtrip:
  assumes "valid_Proof (ut_AccProof msg)" "valid_MsgTx (ut_MsgTx msg)" "tx_TxIn (ut_MsgTx msg) \<noteq> []"
    and "normal_witness (ut_MsgTx msg) = ut_MsgTx msg"
    and inputs: "list_all2 valid_input (ut_LeafDatas msg) (tx_TxIn (ut_MsgTx msg))"
  shows "\<exists>bs msg'. MsgUtreexoTx_BtcEncode WitnessEncoding msg = Inr (bs, msg') \<and>
    MsgUtreexoTx_BtcDecode WitnessEncoding (bs @ rest) =
      Inr (msg\<lparr>ut_LeafDatas := map2 decoded_leaf (ut_LeafDatas msg) (tx_TxIn (ut_MsgTx msg))\<rparr>, rest) \<and>
    (\<forall>i<length (tx_TxIn (ut_MsgTx msg)).
       unat (op_Index (ti_PreviousOutPoint (tx_TxIn (ut_MsgTx msg') ! i))) =
       2 * unat (op_Index (ti_PreviousOutPoint (tx_TxIn (ut_MsgTx msg) ! i))) +
         (if IsUnconfirmed (ut_LeafDatas msg ! i) then 1 else 0))"
proof -
  let ?lds = "ut_LeafDatas msg" and ?ins = "tx_TxIn (ut_MsgTx msg)"
  note len = list_all2_lengthD [OF inputs]
  let ?msg = "msg\<lparr>ut_MsgTx := marked msg\<rparr>"
  let ?bs = "BatchProofSerialize (ut_AccProof msg) @ BtcEncode WitnessEncoding (marked msg) @ write_all input_bytes ?lds"
  have "MsgUtreexoTx_BtcEncode WitnessEncoding msg = Inr (?bs, ?msg)"
    using markInputs_ok [OF inputs] serializeLeaves_inputs [OF inputs]
    by (simp add: MsgUtreexoTx_BtcEncode_def marked_def)
  moreover have "BtcDecode WitnessEncoding (BtcEncode WitnessEncoding (marked msg) @ r) = Inr (marked msg, r)" for r
    using BtcDecode_witness [of "marked msg" r] marked_valid [OF len] assms(2-4) by simp
  then have "MsgUtreexoTx_BtcDecode WitnessEncoding (?bs @ rest) = Inr (msg\<lparr>ut_LeafDatas := map2 decoded_leaf ?lds ?ins\<rparr>, rest)"
    using batchproof.get_put [OF assms(1)] readInputLeaves_put [OF inputs, of rest]
    by (cases msg) (simp add: MsgUtreexoTx_BtcDecode_def marked_def)
  moreover have "unat (op_Index (ti_PreviousOutPoint (tx_TxIn (marked msg) ! i))) =
      2 * unat (op_Index (ti_PreviousOutPoint (?ins ! i))) + (if IsUnconfirmed (?lds ! i) then 1 else 0)"
    if "i < length ?ins" for i
  proof -
    have "valid_input (?lds ! i) (?ins ! i)" using list_all2_nthD2 [OF inputs that] .
    then show ?thesis using that len markInput_index [of "?ins ! i" "?lds ! i"] by (simp add: marked_def valid_input_def)
  qed
  ultimately show ?thesis by (intro exI [of _ ?bs] exI [of _ ?msg]) simp
qed

theorem utreexo_tx_roundtrip_witness:
  "\<exists>bs msg'. MsgUtreexoTx_BtcEncode WitnessEncoding sample_utreexo_tx = Inr (bs, msg') \<and>
    MsgUtreexoTx_BtcDecode WitnessEncoding bs =
      Inr (sample_utreexo_tx\<lparr>ut_LeafDatas := [decoded_leaf sample_leaf (tx_TxIn sample_tx ! 0)]\<rparr>, []) \<and>
    unat (op_Index (ti_PreviousOutPoint (tx_TxIn (ut_MsgTx msg') ! 0))) = 14"
proof -
  have v: "valid_Proof (ut_AccProof sample_utreexo_tx)" "valid_MsgTx (ut_MsgTx sample_utreexo_tx)"
    "tx_TxIn (ut_MsgTx sample_utreexo_tx) \<noteq> []"
    "normal_witness (ut_MsgTx sample_utreexo_tx) = ut_MsgTx sample_utreexo_tx"
    "list_all2 valid_input (ut_LeafDatas sample_utreexo_tx) (tx_TxIn (ut_MsgTx sample_utreexo_tx))"
    using valid_sample_proof valid_sample_leaf
    by (simp_all add: sample_utreexo_tx_def sample_tx_simps normal_witness_def fill_TxIn_def valid_input_def)
  have "\<not> IsUnconfirmed sample_leaf" using valid_sample_leaf by (simp add: valid_compact_def)
  with utreexo_tx_roundtrip [OF v, of "[]"] show ?thesis by (force simp: sample_utreexo_tx_def sample_tx_def)
qed

text \<open>
  C21: a proof message can stop the node.  The decoder allocates the number of proof hashes that the
  message names before it reads any of them: a count above \<open>2 ^ 43\<close> panics instead of returning an
  error, whatever follows it, and the shortest such message has 41 bytes.\<close>

theorem utreexo_proof_count_panics:
  assumes "is_hash h" "2 ^ 43 < unat count"
  shows "MsgUtreexoProof_BtcDecode (h @ WriteVarInt count @ rest) = Inl (RuntimePanic ''makeslice'') \<and>
    length (h @ WriteVarInt count) = 41"
proof -
  have "h \<noteq> []" using assms(1) by (auto simp: is_hash_def HashSize_def)
  then have "BufferRead HashSize (h @ WriteVarInt count @ rest) = Inr (h, WriteVarInt count @ rest)"
    using assms(1) by (simp add: BufferRead_def is_hash_def)
  moreover have "\<not> count < 253" "\<not> count \<le> 65535" "\<not> count \<le> 4294967295"
    using assms(2) by (simp_all add: word_less_nat_alt word_le_nat_alt)
  ultimately show ?thesis
    using assms readSlice_panic [of 32 count "ReadFull HashSize" rest]
    by (simp add: MsgUtreexoProof_BtcDecode_def length_WriteVarInt VarIntSerializeSize_def is_hash_def HashSize_def)
qed

theorem utreexo_proof_count_panics_witness:
  "MsgUtreexoProof_BtcDecode (zeroHash @ WriteVarInt 0x100000000000) = Inl (RuntimePanic ''makeslice'')"
  using utreexo_proof_count_panics [of zeroHash "0x100000000000" "[]"] by simp

text \<open>
  C36: the bitmaps of a proof request.  The bitmap made for a list of choices has one bit per choice,
  in the least number of bytes, and reading it at any index gives the choice, or no for an index past
  the end.\<close>

theorem request_bitmap:
  "length (createBitmap includes) = (length includes + 7) div 8 \<and>
   isBitSet (createBitmap includes) i = (if i < length includes then includes ! i else False)"
  by (simp add: createBitmap_spec)

text \<open>
  C22: the messages with roots and times to live have one encoding per value.  A root message and a
  message with times to live are accepted if and only if the input starts with what the encoder gives
  for them, although the block hash is read without checking that all of it arrived; the second never
  holds more than 32 blocks.\<close>

theorem utreexo_messages_canonical:
  "(MsgUtreexoRoot_BtcDecode bs = Inr (root, rest) \<longleftrightarrow>
      valid_Root root \<and> bs = MsgUtreexoRoot_BtcEncode root @ rest) \<and>
   (MsgUtreexoTTLs_BtcDecode bs = Inr (ttls, rest) \<longleftrightarrow>
      list_all (\<lambda>ut. 8 * length (TTLs ut) \<le> 2 ^ 48) (um_TTLs ttls) \<and> list_all is_hash (um_ProofHashes ttls) \<and>
      32 * length (um_ProofHashes ttls) \<le> 2 ^ 48 \<and> length (um_TTLs ttls) \<le> 32 \<and>
      (\<exists>out. MsgUtreexoTTLs_BtcEncode ttls = Inr out \<and> bs = out @ rest))"
  unfolding utreexoroot.get_iff MsgUtreexoTTLs_iff
  by (auto simp: MsgUtreexoTTLs_BtcEncode_def split: if_splits)

end
