(* ===== verification/Aggregator.thy ===== *)
theory Aggregator
  imports Prelude
begin

text \<open>
  The 512-bit aggregator of swift sync (\<^verbatim>\<open>blockchain/internal/aggregator/aggregator.go\<close>): eight
  limbs of 64 bits, lowest first.  Hashes of outputs marked as spent are added, hashes of what blocks
  spend are subtracted; the aggregator is zero when both have the same sum.\<close>

section \<open>The aggregator\<close>

record Agg512 =
  limbs :: "uint64 list"

definition newAgg512 :: Agg512 where
  "newAgg512 = \<lparr>limbs = replicate 8 0\<rparr>"

definition IsAggZero :: "Agg512 \<Rightarrow> bool" where
  "IsAggZero a \<longleftrightarrow>
     limbs a ! 0 = 0 \<and> limbs a ! 1 = 0 \<and> limbs a ! 2 = 0 \<and> limbs a ! 3 = 0 \<and>
     limbs a ! 4 = 0 \<and> limbs a ! 5 = 0 \<and> limbs a ! 6 = 0 \<and> limbs a ! 7 = 0"

text \<open>\<^verbatim>\<open>binary.LittleEndian.Uint64(b[i:j])\<close>.\<close>

definition limb :: "nat \<Rightarrow> nat \<Rightarrow> byte list \<Rightarrow> uint64" where
  "limb i j b = word_of_nat (le_nat (slice i j b))"

definition InitFromBytes :: "byte list \<Rightarrow> Agg512" where
  "InitFromBytes b =
     \<lparr>limbs = [limb 0 8 b, limb 8 16 b, limb 16 24 b, limb 24 32 b, limb 32 40 b, limb 40 48 b, limb 48 56 b, limb 56 64 b]\<rparr>"

definition Agg512_Bytes :: "Agg512 \<Rightarrow> byte list" where
  "Agg512_Bytes a = concat (map (\<lambda>l. le_bytes 8 (unat l)) (limbs a))"

text \<open>\<^verbatim>\<open>bits.Add64\<close> and \<^verbatim>\<open>bits.Sub64\<close> of the standard library.\<close>

definition Add64 :: "uint64 \<Rightarrow> uint64 \<Rightarrow> uint64 \<Rightarrow> uint64 \<times> uint64" where
  "Add64 x y carry = (x + y + carry, if 2 ^ 64 \<le> unat x + unat y + unat carry then 1 else 0)"

definition Sub64 :: "uint64 \<Rightarrow> uint64 \<Rightarrow> uint64 \<Rightarrow> uint64 \<times> uint64" where
  "Sub64 x y borrow = (x - y - borrow, if unat x < unat y + unat borrow then 1 else 0)"

text \<open>The eight lines of additions, respectively subtractions, each with the carry of the one before.\<close>

fun carryLimbs :: "(uint64 \<Rightarrow> uint64 \<Rightarrow> uint64 \<Rightarrow> uint64 \<times> uint64) \<Rightarrow> uint64 list \<Rightarrow> uint64 list \<Rightarrow> uint64 \<Rightarrow> uint64 list" where
  "carryLimbs f (x # xs) (y # ys) carry = (case f x y carry of (z, carry) \<Rightarrow> z # carryLimbs f xs ys carry)"
| "carryLimbs f _ _ carry = []"

definition Add256 :: "byte list \<Rightarrow> Agg512 \<Rightarrow> Agg512" where
  "Add256 h a = a\<lparr>limbs := carryLimbs Add64 (limbs a) [limb 0 8 h, limb 8 16 h, limb 16 24 h, limb 24 32 h, 0, 0, 0, 0] 0\<rparr>"

definition Sub256 :: "byte list \<Rightarrow> Agg512 \<Rightarrow> Agg512" where
  "Sub256 h a = a\<lparr>limbs := carryLimbs Sub64 (limbs a) [limb 0 8 h, limb 8 16 h, limb 16 24 h, limb 24 32 h, 0, 0, 0, 0] 0\<rparr>"

section \<open>The number held\<close>

fun limbsVal :: "uint64 list \<Rightarrow> int" where
  "limbsVal [] = 0"
| "limbsVal (x # xs) = uint x + 2 ^ 64 * limbsVal xs"

lemma uint64_bounds: "0 \<le> uint (x :: uint64)" "uint (x :: uint64) < 2 ^ 64"
  using unsigned_less [of x, where 'a = int] by simp_all

lemma unat_sum_le: "N \<le> unat x + unat y + unat z \<longleftrightarrow> int N \<le> uint x + uint y + uint z"
proof -
  have "int (unat x + unat y + unat z) = uint x + uint y + uint z" by simp
  then show ?thesis by (metis of_nat_le_iff)
qed

lemma mod_once:
  fixes s m :: int
  assumes "- m \<le> s" "s < 2 * m"
  shows "s mod m = (if m \<le> s then s - m else if 0 \<le> s then s else s + m)"
proof -
  have "(s - m) mod m = s mod m" "(s + m) mod m = s mod m" by simp_all
  moreover have "m \<le> s \<Longrightarrow> (s - m) mod m = s - m" "0 \<le> s \<Longrightarrow> s < m \<Longrightarrow> s mod m = s"
      "s < 0 \<Longrightarrow> (s + m) mod m = s + m"
    using assms by (simp_all only: mod_pos_pos_trivial)
  ultimately show ?thesis by (metis not_le)
qed

lemma mod_0_iff:
  fixes s m :: int
  assumes "\<bar>s\<bar> < m"
  shows "s mod m = 0 \<longleftrightarrow> s = 0"
proof -
  have "s mod m = (if m \<le> s then s - m else if 0 \<le> s then s else s + m)" using assms by (intro mod_once) linarith+
  with assms show ?thesis by (auto split: if_splits)
qed

lemma limbsVal_bounds: "0 \<le> limbsVal xs \<and> limbsVal xs < 2 ^ (64 * length xs)"
proof (induction xs)
  case (Cons x xs)
  have x: "0 \<le> uint x" "uint x < 2 ^ 64" by (rule uint64_bounds)+
  have "limbsVal xs + 1 \<le> 2 ^ (64 * length xs)" using Cons by simp
  then have "2 ^ 64 * (limbsVal xs + 1) \<le> 2 ^ 64 * 2 ^ (64 * length xs)" by (rule mult_left_mono) simp
  with x Cons show ?case by (simp add: power_add)
qed simp

lemma limbsVal_0: "limbsVal xs = 0 \<longleftrightarrow> list_all (\<lambda>x. x = 0) xs"
proof (induction xs)
  case (Cons x xs)
  have "0 \<le> uint x" "0 \<le> limbsVal xs" using limbsVal_bounds [of xs] by simp_all
  with Cons show ?case by (auto simp: add_nonneg_eq_0_iff uint_0_iff)
qed simp

lemma length_carryLimbs: "length (carryLimbs f xs ys c) = min (length xs) (length ys)"
  by (induction f xs ys c rule: carryLimbs.induct) (auto split: prod.splits)

lemma limbsVal_add:
  "length ys = length xs \<Longrightarrow> c \<le> 1 \<Longrightarrow>
     \<exists>k. limbsVal (carryLimbs Add64 xs ys c) = limbsVal xs + limbsVal ys + uint c - k * 2 ^ (64 * length xs)"
proof (induction xs arbitrary: ys c)
  case Nil
  then show ?case by (intro exI [of _ "uint c"]) simp
next
  case (Cons x xs)
  then obtain y ys' where ys: "ys = y # ys'" "length ys' = length xs" by (cases ys) auto
  define d :: uint64 where "d = (if 2 ^ 64 \<le> unat x + unat y + unat c then 1 else 0)"
  have d1: "d \<le> 1" by (simp add: d_def)
  have c: "uint c \<le> 1" using Cons.prems(2) by (simp add: word_le_def)
  have "uint (x + y + c) = uint x + uint y + uint c - 2 ^ 64 * uint d"
  proof -
    have "uint (x + y + c) = (uint x + uint y + uint c) mod 2 ^ 64" by (simp add: uint_word_ariths mod_simps)
    also have "\<dots> = (if 2 ^ 64 \<le> uint x + uint y + uint c then uint x + uint y + uint c - 2 ^ 64 else uint x + uint y + uint c)"
      using uint64_bounds [of x] uint64_bounds [of y] uint64_bounds [of c] c by (subst mod_once) (linarith, linarith, simp)
    finally show ?thesis unfolding d_def unat_sum_le by simp
  qed
  moreover obtain k where "limbsVal (carryLimbs Add64 xs ys' d) = limbsVal xs + limbsVal ys' + uint d - k * 2 ^ (64 * length xs)"
    using Cons.IH [OF ys(2) d1] by blast
  moreover have "carryLimbs Add64 (x # xs) ys c = (x + y + c) # carryLimbs Add64 xs ys' d"
    by (simp add: ys(1) Add64_def [of x y c] d_def)
  ultimately show ?case
    by (intro exI [of _ k]) (simp add: ys(1) power_add algebra_simps)
qed

lemma limbsVal_sub:
  "length ys = length xs \<Longrightarrow> c \<le> 1 \<Longrightarrow>
     \<exists>k. limbsVal (carryLimbs Sub64 xs ys c) = limbsVal xs - limbsVal ys - uint c + k * 2 ^ (64 * length xs)"
proof (induction xs arbitrary: ys c)
  case Nil
  then show ?case by (intro exI [of _ "uint c"]) simp
next
  case (Cons x xs)
  then obtain y ys' where ys: "ys = y # ys'" "length ys' = length xs" by (cases ys) auto
  define d :: uint64 where "d = (if unat x < unat y + unat c then 1 else 0)"
  have d1: "d \<le> 1" by (simp add: d_def)
  have c: "uint c \<le> 1" using Cons.prems(2) by (simp add: word_le_def)
  have lt: "unat x < unat y + unat c \<longleftrightarrow> uint x - uint y - uint c < 0"
  proof -
    have "int (unat x) < int (unat y + unat c) \<longleftrightarrow> uint x - uint y - uint c < 0" by auto
    then show ?thesis by (simp only: of_nat_less_iff)
  qed
  have "uint (x - y - c) = uint x - uint y - uint c + 2 ^ 64 * uint d"
  proof -
    have "uint (x - y - c) = (uint x - uint y - uint c) mod 2 ^ 64" by (simp add: uint_word_ariths mod_simps)
    moreover have "\<not> 2 ^ 64 \<le> uint x - uint y - uint c"
      using uint64_bounds [of x] uint64_bounds [of y] uint64_bounds [of c] by linarith
    then have "(uint x - uint y - uint c) mod 2 ^ 64 = (if 0 \<le> uint x - uint y - uint c then uint x - uint y - uint c else uint x - uint y - uint c + 2 ^ 64)"
      using uint64_bounds [of x] uint64_bounds [of y] uint64_bounds [of c] c by (subst mod_once) (linarith, linarith, simp only: if_False)
    ultimately show ?thesis unfolding d_def lt by simp
  qed
  moreover obtain k where "limbsVal (carryLimbs Sub64 xs ys' d) = limbsVal xs - limbsVal ys' - uint d + k * 2 ^ (64 * length xs)"
    using Cons.IH [OF ys(2) d1] by blast
  moreover have "carryLimbs Sub64 (x # xs) ys c = (x - y - c) # carryLimbs Sub64 xs ys' d"
    by (simp add: ys(1) Sub64_def [of x y c] d_def)
  ultimately show ?case
    by (intro exI [of _ k]) (simp add: ys(1) power_add algebra_simps)
qed

lemma slice_join: "i \<le> j \<Longrightarrow> j \<le> k \<Longrightarrow> slice i j h @ slice j k h = slice i k h"
  using take_add [of "j - i" "k - j" "drop i h"] by (simp add: slice_def)

lemma limbsVal_hash:
  assumes "length h = 32"
  shows "limbsVal [limb 0 8 h, limb 8 16 h, limb 16 24 h, limb 24 32 h, 0, 0, 0, 0] = int (le_nat h)"
proof -
  have b: "uint (limb i (i + 8) h) = int (le_nat (slice i (i + 8) h))" if "i + 8 \<le> 32" for i
  proof -
    have "le_nat (slice i (i + 8) h) < 256 ^ 8" using le_nat_less [of "slice i (i + 8) h"] that assms by (simp add: length_slice)
    then show ?thesis by (simp add: limb_def uint_nat unat_of_nat)
  qed
  have l: "length (slice i (i + 8) h) = 8" if "i + 8 \<le> 32" for i using that assms by (simp add: length_slice)
  have "h = slice 0 32 h" using assms by (simp add: slice_def)
  also have "\<dots> = slice 0 8 h @ slice 8 16 h @ slice 16 24 h @ slice 24 32 h" by (simp add: slice_join)
  finally have "le_nat h = le_nat (slice 0 8 h @ slice 8 16 h @ slice 16 24 h @ slice 24 32 h)" by simp
  also have "\<dots> = le_nat (slice 0 8 h) + 256 ^ 8 * (le_nat (slice 8 16 h) + 256 ^ 8 * (le_nat (slice 16 24 h) + 256 ^ 8 * le_nat (slice 24 32 h)))"
    using l [of 0] l [of 8] l [of 16] by (simp add: le_nat_append)
  finally have "le_nat h = \<dots>" .
  then show ?thesis using b [of 0] b [of 8] b [of 16] b [of 24] by simp
qed

section \<open>The aggregator as a number\<close>

text \<open>The invariant: there are eight limbs; the number held is taken modulo \<open>2 ^ 512\<close>.\<close>

definition wf_agg :: "Agg512 \<Rightarrow> bool" where
  "wf_agg a \<longleftrightarrow> length (limbs a) = 8"

definition aggVal :: "Agg512 \<Rightarrow> int" where
  "aggVal a = limbsVal (limbs a)"

lemma aggVal_bounds: "wf_agg a \<Longrightarrow> 0 \<le> aggVal a \<and> aggVal a < 2 ^ 512"
  using limbsVal_bounds [of "limbs a"] by (simp add: wf_agg_def aggVal_def)

lemma aggVal_mod: "wf_agg a \<Longrightarrow> aggVal a = x - k * 2 ^ 512 \<Longrightarrow> aggVal a = x mod 2 ^ 512"
proof -
  assume a: "wf_agg a" "aggVal a = x - k * 2 ^ 512"
  then have "x = aggVal a + k * 2 ^ 512" by simp
  then have "x mod 2 ^ 512 = aggVal a mod 2 ^ 512" by (simp only: mod_mult_self1)
  with aggVal_bounds [OF a(1)] show ?thesis by (simp only: mod_pos_pos_trivial)
qed

lemma Add256_val:
  assumes "wf_agg a" "length h = 32"
  shows "wf_agg (Add256 h a)" "aggVal (Add256 h a) = (aggVal a + int (le_nat h)) mod 2 ^ 512"
proof -
  let ?ys = "[limb 0 8 h, limb 8 16 h, limb 16 24 h, limb 24 32 h, 0, 0, 0, 0]"
  show wf: "wf_agg (Add256 h a)" using assms by (simp add: wf_agg_def Add256_def length_carryLimbs)
  have "length ?ys = length (limbs a)" using assms by (simp add: wf_agg_def)
  then obtain k where "limbsVal (carryLimbs Add64 (limbs a) ?ys 0) = limbsVal (limbs a) + limbsVal ?ys + uint (0 :: uint64) - k * 2 ^ (64 * length (limbs a))"
    using limbsVal_add [of ?ys "limbs a" 0] by auto
  then have "aggVal (Add256 h a) = aggVal a + int (le_nat h) - k * 2 ^ 512"
    unfolding limbsVal_hash [OF assms(2)] using assms(1) by (simp add: aggVal_def Add256_def wf_agg_def)
  then show "aggVal (Add256 h a) = (aggVal a + int (le_nat h)) mod 2 ^ 512" by (rule aggVal_mod [OF wf])
qed

lemma Sub256_val:
  assumes "wf_agg a" "length h = 32"
  shows "wf_agg (Sub256 h a)" "aggVal (Sub256 h a) = (aggVal a - int (le_nat h)) mod 2 ^ 512"
proof -
  let ?ys = "[limb 0 8 h, limb 8 16 h, limb 16 24 h, limb 24 32 h, 0, 0, 0, 0]"
  show wf: "wf_agg (Sub256 h a)" using assms by (simp add: wf_agg_def Sub256_def length_carryLimbs)
  have "length ?ys = length (limbs a)" using assms by (simp add: wf_agg_def)
  then obtain k where "limbsVal (carryLimbs Sub64 (limbs a) ?ys 0) = limbsVal (limbs a) - limbsVal ?ys - uint (0 :: uint64) + k * 2 ^ (64 * length (limbs a))"
    using limbsVal_sub [of ?ys "limbs a" 0] by auto
  then have "aggVal (Sub256 h a) = aggVal a - int (le_nat h) - (- k) * 2 ^ 512"
    unfolding limbsVal_hash [OF assms(2)] using assms(1) by (simp add: aggVal_def Sub256_def wf_agg_def)
  then show "aggVal (Sub256 h a) = (aggVal a - int (le_nat h)) mod 2 ^ 512" by (rule aggVal_mod [OF wf])
qed

lemma IsAggZero_val: "wf_agg a \<Longrightarrow> IsAggZero a \<longleftrightarrow> aggVal a = 0"
proof -
  assume "wf_agg a"
  then obtain l0 l1 l2 l3 l4 l5 l6 l7 where "limbs a = [l0, l1, l2, l3, l4, l5, l6, l7]"
    by (auto simp: wf_agg_def length_Suc_conv numeral_eq_Suc)
  then show ?thesis by (simp add: IsAggZero_def aggVal_def limbsVal_0 del: limbsVal.simps)
qed

lemma agg_bytes_roundtrip: "wf_agg a \<Longrightarrow> InitFromBytes (Agg512_Bytes a) = a"
proof -
  assume "wf_agg a"
  then obtain l0 l1 l2 l3 l4 l5 l6 l7 where l: "limbs a = [l0, l1, l2, l3, l4, l5, l6, l7]"
    by (auto simp: wf_agg_def length_Suc_conv numeral_eq_Suc)
  have le: "word_of_nat (le_nat (le_bytes 8 (unat x))) = (x :: uint64)" for x
  proof -
    have "unat x < 18446744073709551616" using unsigned_less [of x] by simp
    then show ?thesis by (simp add: le_nat_le_bytes)
  qed
  have "limbs (InitFromBytes (Agg512_Bytes a)) = limbs a"
    using le by (simp add: l Agg512_Bytes_def InitFromBytes_def limb_def slice_def del: le_bytes.simps)
  then show ?thesis by simp
qed

section \<open>Sequences of additions and subtractions\<close>

datatype agg_op = AggAdd hash | AggSub hash

fun aggStep :: "agg_op \<Rightarrow> Agg512 \<Rightarrow> Agg512" where
  "aggStep (AggAdd h) a = Add256 h a"
| "aggStep (AggSub h) a = Sub256 h a"

fun opHash :: "agg_op \<Rightarrow> hash" where
  "opHash (AggAdd h) = h"
| "opHash (AggSub h) = h"

fun opVal :: "agg_op \<Rightarrow> int" where
  "opVal (AggAdd h) = int (le_nat h)"
| "opVal (AggSub h) = - int (le_nat h)"

lemma fold_aggStep:
  "wf_agg a \<Longrightarrow> list_all (\<lambda>x. length (opHash x) = 32) xs \<Longrightarrow>
     wf_agg (fold aggStep xs a) \<and> aggVal (fold aggStep xs a) = (aggVal a + sum_list (map opVal xs)) mod 2 ^ 512"
proof (induction xs arbitrary: a)
  case Nil
  then show ?case using aggVal_bounds [of a] by (simp add: mod_pos_pos_trivial)
next
  case (Cons x xs)
  have "wf_agg (aggStep x a) \<and> aggVal (aggStep x a) = (aggVal a + opVal x) mod 2 ^ 512"
    using Cons.prems by (cases x) (simp_all add: Add256_val Sub256_val)
  with Cons show ?case by (simp add: mod_add_left_eq add.assoc)
qed

lemma opVal_bound: "length (opHash x) = 32 \<Longrightarrow> \<bar>opVal x\<bar> < 2 ^ 256"
proof (cases x)
  case (AggAdd h)
  assume "length (opHash x) = 32"
  with AggAdd le_nat_less [of h] have "le_nat h < 2 ^ 256" by simp
  then have "int (le_nat h) < 2 ^ 256" by (metis of_nat_less_iff of_nat_numeral of_nat_power)
  with AggAdd show ?thesis by simp
next
  case (AggSub h)
  assume "length (opHash x) = 32"
  with AggSub le_nat_less [of h] have "le_nat h < 2 ^ 256" by simp
  then have "int (le_nat h) < 2 ^ 256" by (metis of_nat_less_iff of_nat_numeral of_nat_power)
  with AggSub show ?thesis by simp
qed

lemma sum_opVal_bound:
  "list_all (\<lambda>x. length (opHash x) = 32) xs \<Longrightarrow> \<bar>sum_list (map opVal xs)\<bar> \<le> int (length xs) * 2 ^ 256"
proof (induction xs)
  case (Cons x xs)
  then have "\<bar>opVal x\<bar> < 2 ^ 256" "\<bar>sum_list (map opVal xs)\<bar> \<le> int (length xs) * 2 ^ 256" using opVal_bound [of x] by simp_all
  then show ?case by (simp add: algebra_simps)
qed simp

lemma sum_opVal:
  "sum_list (map opVal xs) =
     int (sum_list [le_nat h. AggAdd h \<leftarrow> xs]) - int (sum_list [le_nat h. AggSub h \<leftarrow> xs])"
  by (induction xs) (auto split: agg_op.splits)

text \<open>After any sequence of fewer than \<open>2 ^ 256\<close> additions and subtractions of hashes, in any order, the aggregator
  is zero exactly when the hashes added and the hashes subtracted have the same sum; it survives being written and
  read as bytes.\<close>

lemma aggregator_zero_iff:
  assumes "list_all (\<lambda>x. length (opHash x) = 32) xs" "length xs < 2 ^ 256"
  shows "(IsAggZero (fold aggStep xs newAgg512) \<longleftrightarrow>
      sum_list [le_nat h. AggAdd h \<leftarrow> xs] = sum_list [le_nat h. AggSub h \<leftarrow> xs]) \<and>
    InitFromBytes (Agg512_Bytes (fold aggStep xs newAgg512)) = fold aggStep xs newAgg512"
proof -
  define S where "S = sum_list (map opVal xs)"
  have new: "wf_agg newAgg512" "aggVal newAgg512 = 0" by (simp_all add: wf_agg_def newAgg512_def aggVal_def numeral_eq_Suc)
  from fold_aggStep [OF new(1) assms(1)] new(2)
  have run: "wf_agg (fold aggStep xs newAgg512)" "aggVal (fold aggStep xs newAgg512) = S mod 2 ^ 512" by (simp_all add: S_def)
  have "int (length xs) < 2 ^ 256" using assms(2) by (metis of_nat_less_iff of_nat_numeral of_nat_power)
  then have "int (length xs) * 2 ^ 256 < 2 ^ 256 * 2 ^ 256" by (intro mult_strict_right_mono) simp_all
  then have "\<bar>S\<bar> < 2 ^ 256 * 2 ^ 256" using sum_opVal_bound [OF assms(1)] unfolding S_def by (rule order.strict_trans1 [rotated])
  then have "\<bar>S\<bar> < 2 ^ 512" by simp
  then have "S mod 2 ^ 512 = 0 \<longleftrightarrow> S = 0" by (rule mod_0_iff)
  then have "IsAggZero (fold aggStep xs newAgg512) \<longleftrightarrow> S = 0" using run by (simp add: IsAggZero_val)
  moreover have "S = 0 \<longleftrightarrow> sum_list [le_nat h. AggAdd h \<leftarrow> xs] = sum_list [le_nat h. AggSub h \<leftarrow> xs]"
    unfolding S_def sum_opVal by linarith
  ultimately show ?thesis using agg_bytes_roundtrip [OF run(1)] by blast
qed

end
