(* ===== verification/Utreexo_View.thy ===== *)
theory Utreexo_View
  imports Script_Std Wire_Utreexo Chain_View Merkle Aggregator
begin

text \<open>
  The utreexo view of the chain state (\<^verbatim>\<open>blockchain/utreexoviewpoint.go\<close>): which outputs of a
  block need a proof and which become leaves, how the compact leaves that come with a block are filled
  in again, and how a block is verified against and applied to the accumulator.  The accumulator is a
  third-party package, given by the record of its operations.  Functions that change their arguments
  return them, also together with an error, since the code leaves them changed.  The counters of inputs
  and outputs of a block are natural numbers: a block has fewer than \<open>2 ^ 32\<close> of either.\<close>

section \<open>Blocks with utreexo data\<close>

record 'u blockUtreexoData =
  bu_updateData :: "'u option"
  bu_adds :: "hash list"
  bu_leafTTLs :: "UtreexoTTL option"
  bu_leafDatas :: "LeafData list"
  bu_proofData :: "Proof option"

record 'u Block =
  bk_msgBlock :: MsgBlock
  bk_blockHeight :: uint32
  bk_utreexoData :: "'u blockUtreexoData option"

definition NewBlock :: "MsgBlock \<Rightarrow> 'u Block" where
  "NewBlock msgBlock = \<lparr>bk_msgBlock = msgBlock, bk_blockHeight = -1, bk_utreexoData = None\<rparr>"

definition Block_Hash :: "'u Block \<Rightarrow> hash" where
  "Block_Hash b = BlockHash (mb_Header (bk_msgBlock b))"

definition Transactions :: "'u Block \<Rightarrow> MsgTx list" where
  "Transactions b = mb_Transactions (bk_msgBlock b)"

definition ensureUtreexoData :: "'u Block \<Rightarrow> 'u blockUtreexoData" where
  "ensureUtreexoData b =
     (case bk_utreexoData b of
        None \<Rightarrow> \<lparr>bu_updateData = None, bu_adds = [], bu_leafTTLs = None, bu_leafDatas = [], bu_proofData = None\<rparr>
      | Some d \<Rightarrow> d)"

definition UtreexoData :: "'u Block \<Rightarrow> UData option" where
  "UtreexoData b =
     Option.bind (bk_utreexoData b) (\<lambda>d.
       map_option (\<lambda>p. \<lparr>ud_AccProof = p, ud_LeafDatas = bu_leafDatas d\<rparr>) (bu_proofData d))"

text \<open>Setting nil data dereferences a nil pointer when the block has none: \<open>None\<close>.\<close>

definition SetUtreexoData :: "UData option \<Rightarrow> 'u Block \<Rightarrow> 'u Block option" where
  "SetUtreexoData data b =
     (case data of
        None \<Rightarrow> map_option (\<lambda>d. b\<lparr>bk_utreexoData := Some (d\<lparr>bu_proofData := None, bu_leafDatas := []\<rparr>)\<rparr>) (bk_utreexoData b)
      | Some ud \<Rightarrow>
          Some (b\<lparr>bk_utreexoData := Some ((ensureUtreexoData b)\<lparr>bu_proofData := Some (ud_AccProof ud),
                                           bu_leafDatas := ud_LeafDatas ud\<rparr>)\<rparr>))"

definition UtreexoTTLs :: "'u Block \<Rightarrow> UtreexoTTL option" where
  "UtreexoTTLs b = Option.bind (bk_utreexoData b) bu_leafTTLs"

definition SetUtreexoTTLs :: "UtreexoTTL option \<Rightarrow> 'u Block \<Rightarrow> 'u Block" where
  "SetUtreexoTTLs ttls b = b\<lparr>bk_utreexoData := Some ((ensureUtreexoData b)\<lparr>bu_leafTTLs := ttls\<rparr>)\<rparr>"

definition SetUtreexoUpdateData :: "'u option \<Rightarrow> 'u Block \<Rightarrow> 'u Block" where
  "SetUtreexoUpdateData data b = b\<lparr>bk_utreexoData := Some ((ensureUtreexoData b)\<lparr>bu_updateData := data\<rparr>)\<rparr>"

definition SetUtreexoAdds :: "(hash \<times> bool) list \<Rightarrow> 'u Block \<Rightarrow> 'u Block" where
  "SetUtreexoAdds adds b = b\<lparr>bk_utreexoData := Some ((ensureUtreexoData b)\<lparr>bu_adds := map fst adds\<rparr>)\<rparr>"

text \<open>The leaves of the block are a slice shared with what \<^verbatim>\<open>UtreexoData\<close> returns.\<close>

definition setLeafDatas :: "LeafData list \<Rightarrow> 'u Block \<Rightarrow> 'u Block" where
  "setLeafDatas lds b = b\<lparr>bk_utreexoData := map_option (\<lambda>d. d\<lparr>bu_leafDatas := lds\<rparr>) (bk_utreexoData b)\<rparr>"

section \<open>Errors\<close>

datatype view_error =
    NilUtreexoData
  | NilChainView
  | NoBlockNode
  | NotInMainChain
  | ScriptFailure script_error
  | ProofSanityCount
  | ProofSanityMismatch
  | TargetCount
  | UnspendableLeaf
  | AccumulatorFailure string
  | ViewPanic

section \<open>Spending within a block\<close>

text \<open>
  \<^verbatim>\<open>DedupeBlock\<close>: the inputs by the output they spend, then the outputs that such an input spends.
  The inputs and outputs of the first transaction only count.\<close>

definition dedupeInput :: "TxIn \<Rightarrow> nat \<times> (OutPoint \<rightharpoonup> nat) \<Rightarrow> nat \<times> (OutPoint \<rightharpoonup> nat)" where
  "dedupeInput txIn st = (case st of (i, inmap) \<Rightarrow> (i + 1, inmap(ti_PreviousOutPoint txIn \<mapsto> i)))"

definition dedupeOutput ::
    "(OutPoint \<rightharpoonup> nat) \<Rightarrow> MsgTx \<Rightarrow> nat \<Rightarrow> nat \<times> nat list \<times> nat list \<Rightarrow> nat \<times> nat list \<times> nat list" where
  "dedupeOutput inmap tx outidx st =
     (case st of
        (i, inskip, outskip) \<Rightarrow>
          case inmap \<lparr>op_Hash = TxHash tx, op_Index = word_of_nat outidx\<rparr> of
            Some inpos \<Rightarrow> (i + 1, inskip @ [inpos], outskip @ [i])
          | None \<Rightarrow> (i + 1, inskip, outskip))"

definition DedupeBlock :: "'u Block \<Rightarrow> nat \<times> nat \<times> nat list \<times> nat list" where
  "DedupeBlock blk =
     (case Transactions blk of
        [] \<Rightarrow> (0, 0, [], [])
      | coinbase # txs \<Rightarrow>
          case fold (\<lambda>tx. fold dedupeInput (tx_TxIn tx)) txs (length (tx_TxIn coinbase), Map.empty) of
            (inCount, inmap) \<Rightarrow>
          case fold (\<lambda>tx. fold (dedupeOutput inmap tx) [0..<length (tx_TxOut tx)]) txs
                 (length (tx_TxOut coinbase), [], []) of
            (outCount, inskip, outskip) \<Rightarrow> (inCount, outCount, sort inskip, outskip))"

text \<open>
  The loop over the inputs of a block that skips the coinbase and the inputs on the skip list, with
  the index of the input in the block.  A body that fails stops it.\<close>

fun inputsLoop ::
    "(nat \<Rightarrow> TxIn \<Rightarrow> 's \<Rightarrow> 's \<times> view_error option) \<Rightarrow> TxIn list \<Rightarrow> nat list \<Rightarrow> nat \<Rightarrow> 's \<Rightarrow>
      nat list \<times> nat \<times> 's \<times> view_error option" where
  "inputsLoop body [] inskip blockInIdx s = (inskip, blockInIdx, s, None)"
| "inputsLoop body (txIn # txIns) inskip blockInIdx s =
     (if length inskip > 0 \<and> inskip ! 0 = blockInIdx then inputsLoop body txIns (tl inskip) (blockInIdx + 1) s
      else
        case body blockInIdx txIn s of
          (s, Some err) \<Rightarrow> (inskip, blockInIdx, s, Some err)
        | (s, None) \<Rightarrow> inputsLoop body txIns inskip (blockInIdx + 1) s)"

fun txsLoop ::
    "(nat \<Rightarrow> TxIn \<Rightarrow> 's \<Rightarrow> 's \<times> view_error option) \<Rightarrow> MsgTx list \<Rightarrow> nat list \<Rightarrow> nat \<Rightarrow> 's \<Rightarrow> 's \<times> view_error option" where
  "txsLoop body [] inskip blockInIdx s = (s, None)"
| "txsLoop body (tx # txs) inskip blockInIdx s =
     (case inputsLoop body (tx_TxIn tx) inskip blockInIdx s of
        (_, _, s, Some err) \<Rightarrow> (s, Some err)
      | (inskip, blockInIdx, s, None) \<Rightarrow> txsLoop body txs inskip blockInIdx s)"

definition blockInputs ::
    "(nat \<Rightarrow> TxIn \<Rightarrow> 's \<Rightarrow> 's \<times> view_error option) \<Rightarrow> 'u Block \<Rightarrow> nat list \<Rightarrow> 's \<Rightarrow> 's \<times> view_error option" where
  "blockInputs body block inskip s =
     (case Transactions block of
        [] \<Rightarrow> (s, None)
      | coinbase # txs \<Rightarrow> txsLoop body txs inskip (length (tx_TxIn coinbase)) s)"

text \<open>
  The capacity of the slice is the number of inputs less the number of those skipped: a skip list that is
  longer, as a block with repeated transactions can have, makes it negative, which panics.\<close>

definition BlockToDelOPs :: "'u Block \<Rightarrow> view_error + OutPoint list" where
  "BlockToDelOPs blk =
     (case DedupeBlock blk of
        (inCount, _, inskip, _) \<Rightarrow>
          if int inCount - int (length inskip) < 0 then Inl ViewPanic
          else Inr (fst (blockInputs (\<lambda>_ txin delOPs. (delOPs @ [ti_PreviousOutPoint txin], None)) blk inskip [])))"

section \<open>New leaves\<close>

definition TxOut_IsUnspendable :: "TxOut \<Rightarrow> bool" where
  "TxOut_IsUnspendable out =
     (if length (to_PkScript out) > 10000 then True
      else if length (to_PkScript out) > 0 \<and> to_PkScript out ! 0 = 0x6a then True
      else False)"

fun addLeavesTx ::
    "'u Block \<Rightarrow> bool \<Rightarrow> MsgTx \<Rightarrow> (nat \<times> TxOut) list \<Rightarrow> nat list \<Rightarrow> nat \<Rightarrow> LeafData list \<Rightarrow> nat list \<times> nat \<times> LeafData list" where
  "addLeavesTx block coinbase tx [] skiplist txonum leaves = (skiplist, txonum, leaves)"
| "addLeavesTx block coinbase tx ((outIdx, txOut) # outs) skiplist txonum leaves =
     (if TxOut_IsUnspendable txOut then addLeavesTx block coinbase tx outs skiplist (txonum + 1) leaves
      else if length skiplist > 0 \<and> skiplist ! 0 = txonum then
        addLeavesTx block coinbase tx outs (tl skiplist) (txonum + 1) leaves
      else
        let leaf =
          \<lparr>ld_BlockHash = Block_Hash block, ld_OutPoint = \<lparr>op_Hash = TxHash tx, op_Index = word_of_nat outIdx\<rparr>,
           ld_Height = bk_blockHeight block, ld_IsCoinBase = coinbase, ld_Amount = to_Value txOut,
           ld_ReconstructablePkType = OtherTy, ld_PkScript = Some (to_PkScript txOut)\<rparr>
        in addLeavesTx block coinbase tx outs skiplist (txonum + 1) (leaves @ [leaf]))"

fun addLeavesLoop :: "'u Block \<Rightarrow> bool \<Rightarrow> MsgTx list \<Rightarrow> nat list \<Rightarrow> nat \<Rightarrow> LeafData list \<Rightarrow> LeafData list" where
  "addLeavesLoop block coinbase [] skiplist txonum leaves = leaves"
| "addLeavesLoop block coinbase (tx # txs) skiplist txonum leaves =
     (case addLeavesTx block coinbase tx (enumerate 0 (tx_TxOut tx)) skiplist txonum leaves of
        (skiplist, txonum, leaves) \<Rightarrow> addLeavesLoop block False txs skiplist txonum leaves)"

text \<open>
  The third argument of \<^verbatim>\<open>BlockToAddLeaves\<close> only sets the capacity of the result, the number of outputs less the
  number of those skipped.  It is never negative for the skip list of \<^verbatim>\<open>DedupeBlock\<close> (\<open>outskip_fits\<close> below).\<close>

definition BlockToAddLeaves :: "'u Block \<Rightarrow> nat list \<Rightarrow> LeafData list" where
  "BlockToAddLeaves block skiplist = addLeavesLoop block True (Transactions block) skiplist 0 []"

definition ExtractAccumulatorAdds :: "'u Block \<Rightarrow> LeafData list" where
  "ExtractAccumulatorAdds block =
     (case DedupeBlock block of (_, outCount, _, outskip) \<Rightarrow> BlockToAddLeaves block outskip)"

section \<open>Filling in the compact leaves\<close>

definition ProofSanity :: "UData \<Rightarrow> OutPoint list \<Rightarrow> view_error option" where
  "ProofSanity ud outPoints =
     (if length outPoints \<noteq> length (ud_LeafDatas ud) then Some ProofSanityCount
      else if list_ex (\<lambda>(outPoint, ld). op_Hash outPoint \<noteq> op_Hash (ld_OutPoint ld) \<or>
                op_Index outPoint \<noteq> op_Index (ld_OutPoint ld)) (zip outPoints (ud_LeafDatas ud))
      then Some ProofSanityMismatch
      else None)"

text \<open>The class of a stored type; the zero value for an unknown one.\<close>

definition pkTypeClass :: "PkType \<Rightarrow> ScriptClass" where
  "pkTypeClass ty =
     (if ty = Wire_Leaf.PubKeyHashTy then ScriptClass.PubKeyHashTy
      else if ty = Wire_Leaf.ScriptHashTy then ScriptClass.ScriptHashTy
      else if ty = Wire_Leaf.WitnessV0PubKeyHashTy then ScriptClass.WitnessV0PubKeyHashTy
      else if ty = Wire_Leaf.WitnessV0ScriptHashTy then ScriptClass.WitnessV0ScriptHashTy
      else NonStandardTy)"

text \<open>A node of the view that the heap does not have is a dangling pointer: a panic.\<close>

definition reconstructLeafData ::
    "(byte list \<Rightarrow> byte list) \<Rightarrow> heap \<Rightarrow> chainView \<Rightarrow> LeafData \<Rightarrow> TxIn \<Rightarrow> LeafData \<times> view_error option" where
  "reconstructLeafData ripemd160 h view ld txIn =
     (case nodeByHeight view (sint (ld_Height ld)) of
        None \<Rightarrow> (ld, Some NoBlockNode)
      | Some blockNode \<Rightarrow>
          case h blockNode of
            None \<Rightarrow> (ld, Some ViewPanic)
          | Some nd \<Rightarrow>
              let ld = ld\<lparr>ld_BlockHash := bn_hash nd, ld_OutPoint := ti_PreviousOutPoint txIn\<rparr> in
              if ld_ReconstructablePkType ld \<noteq> OtherTy \<and> ld_PkScript ld = None then
                (case ReconstructScript ripemd160 (ti_SignatureScript txIn) (ti_Witness txIn)
                        (pkTypeClass (ld_ReconstructablePkType ld)) of
                   Inl err \<Rightarrow> (ld, Some (ScriptFailure err))
                 | Inr scriptToUse \<Rightarrow> (ld\<lparr>ld_PkScript := Some scriptToUse\<rparr>, None))
              else (ld, None))"

text \<open>
  The leaves are indexed without a check, so too few of them are an index out of range: a panic.\<close>

definition reconstructBody ::
    "(byte list \<Rightarrow> byte list) \<Rightarrow> heap \<Rightarrow> chainView \<Rightarrow> nat \<Rightarrow> TxIn \<Rightarrow> nat \<times> LeafData list \<times> hash list \<Rightarrow>
      (nat \<times> LeafData list \<times> hash list) \<times> view_error option" where
  "reconstructBody ripemd160 h view _ txIn st =
     (case st of
        (ldIdx, lds, delHashes) \<Rightarrow>
          if ldIdx \<ge> length lds then (st, Some ViewPanic)
          else
            case reconstructLeafData ripemd160 h view (lds ! ldIdx) txIn of
              (ld, Some err) \<Rightarrow> ((ldIdx, lds[ldIdx := ld], delHashes), Some err)
            | (ld, None) \<Rightarrow> ((ldIdx + 1, lds[ldIdx := ld], delHashes @ [LeafHash ld]), None))"

definition reconstructUData ::
    "(byte list \<Rightarrow> byte list) \<Rightarrow> heap \<Rightarrow> UData \<Rightarrow> 'u Block \<Rightarrow> chainView option \<Rightarrow> nat list \<Rightarrow>
      LeafData list \<times> (view_error + hash list)" where
  "reconstructUData ripemd160 h ud block chainView inskip =
     (case chainView of
        None \<Rightarrow> (ud_LeafDatas ud, Inl NilChainView)
      | Some view \<Rightarrow>
          case blockInputs (reconstructBody ripemd160 h view) block inskip (0, ud_LeafDatas ud, []) of
            ((_, lds, delHashes), Some err) \<Rightarrow> (lds, Inl err)
          | ((_, lds, delHashes), None) \<Rightarrow> (lds, Inr delHashes))"

definition ExtractAccumulatorDels ::
    "(byte list \<Rightarrow> byte list) \<Rightarrow> heap \<Rightarrow> 'u Block \<Rightarrow> chainView option \<Rightarrow> 'u Block \<times> (view_error + hash list)" where
  "ExtractAccumulatorDels ripemd160 h block bestChain =
     (case UtreexoData block of
        None \<Rightarrow> (block, Inl NilUtreexoData)
      | Some ud \<Rightarrow>
          case DedupeBlock block of (_, _, inskip, _) \<Rightarrow>
          case (if length (ud_LeafDatas ud) > 0 then reconstructUData ripemd160 h ud block bestChain inskip
                else (ud_LeafDatas ud, Inr [])) of
            (lds, Inl err) \<Rightarrow> (setLeafDatas lds block, Inl err)
          | (lds, Inr delHashes) \<Rightarrow>
              let ud = ud\<lparr>ud_LeafDatas := lds\<rparr> in
              case BlockToDelOPs block of
                Inl err \<Rightarrow> (setLeafDatas lds block, Inl err)
              | Inr OPsToProve \<Rightarrow>
                  case ProofSanity ud OPsToProve of
                    Some err \<Rightarrow> (setLeafDatas lds block, Inl err)
                  | None \<Rightarrow> (setLeafDatas lds block, Inr delHashes))"

section \<open>Leaves for the inputs of a block\<close>

record SpentTxOut =
  st_Amount :: uint64
  st_PkScript :: "byte list"
  st_Height :: uint32
  st_IsCoinBase :: bool

definition BlockHashByHeight :: "heap \<Rightarrow> chainView \<Rightarrow> uint32 \<Rightarrow> view_error + hash" where
  "BlockHashByHeight h bestChain blockHeight =
     (case nodeByHeight bestChain (sint blockHeight) of
        None \<Rightarrow> Inl NotInMainChain
      | Some node \<Rightarrow> (case h node of None \<Rightarrow> Inl ViewPanic | Some nd \<Rightarrow> Inr (bn_hash nd)))"

definition classPkType :: "ScriptClass \<Rightarrow> PkType" where
  "classPkType scriptType =
     (case scriptType of
        ScriptClass.PubKeyHashTy \<Rightarrow> Wire_Leaf.PubKeyHashTy
      | ScriptClass.WitnessV0PubKeyHashTy \<Rightarrow> Wire_Leaf.WitnessV0PubKeyHashTy
      | ScriptClass.ScriptHashTy \<Rightarrow> Wire_Leaf.ScriptHashTy
      | ScriptClass.WitnessV0ScriptHashTy \<Rightarrow> Wire_Leaf.WitnessV0ScriptHashTy
      | _ \<Rightarrow> OtherTy)"

text \<open>The spent output is the one before the index of the input: the coinbase has one input.\<close>

definition delLeavesBody ::
    "(byte list \<Rightarrow> byte list) \<Rightarrow> heap \<Rightarrow> chainView \<Rightarrow> SpentTxOut list \<Rightarrow> nat \<Rightarrow> TxIn \<Rightarrow> LeafData list \<Rightarrow>
      LeafData list \<times> view_error option" where
  "delLeavesBody ripemd160 h bestChain stxos blockInIdx txIn delLeaves =
     (if blockInIdx = 0 \<or> blockInIdx - 1 \<ge> length stxos then (delLeaves, Some ViewPanic)
      else
        let stxo = stxos ! (blockInIdx - 1) in
        case BlockHashByHeight h bestChain (st_Height stxo) of
          Inl err \<Rightarrow> (delLeaves, Some err)
        | Inr blockHash \<Rightarrow>
            let scriptType = (case GetReconstructScriptType ripemd160 (ti_SignatureScript txIn) (st_PkScript stxo) (ti_Witness txIn) of
                  Inl err \<Rightarrow> NonStandardTy
                | Inr class \<Rightarrow> class);
                leaf = \<lparr>ld_BlockHash = blockHash, ld_OutPoint = ti_PreviousOutPoint txIn, ld_Height = st_Height stxo,
                  ld_IsCoinBase = st_IsCoinBase stxo, ld_Amount = st_Amount stxo,
                  ld_ReconstructablePkType = classPkType scriptType, ld_PkScript = Some (st_PkScript stxo)\<rparr>
            in (delLeaves @ [leaf], None))"

definition BlockToDelLeaves ::
    "(byte list \<Rightarrow> byte list) \<Rightarrow> heap \<Rightarrow> SpentTxOut list \<Rightarrow> chainView option \<Rightarrow> 'u Block \<Rightarrow> nat list \<Rightarrow>
      view_error + LeafData list" where
  "BlockToDelLeaves ripemd160 h stxos chain block inskip =
     (case chain of
        None \<Rightarrow> Inl NilChainView
      | Some bestChain \<Rightarrow>
          case blockInputs (delLeavesBody ripemd160 h bestChain stxos) block inskip [] of
            (delLeaves, Some err) \<Rightarrow> Inl err
          | (delLeaves, None) \<Rightarrow> Inr delLeaves)"

section \<open>The view\<close>

text \<open>The operations of the accumulator package; a failure is its text.\<close>

record ('acc, 'stump, 'u) AccOps =
  acc_Verify :: "'acc \<Rightarrow> hash list \<Rightarrow> Proof \<Rightarrow> bool \<Rightarrow> string + 'acc"
  acc_GetStump :: "'acc \<Rightarrow> 'stump"
  acc_Ingest :: "'acc \<Rightarrow> hash list \<Rightarrow> Proof \<Rightarrow> string + 'acc"
  acc_Modify :: "'acc \<Rightarrow> (hash \<times> bool) list \<Rightarrow> hash list \<Rightarrow> Proof \<Rightarrow> string + 'acc"
  stump_Add :: "'stump \<Rightarrow> hash list \<Rightarrow> 'stump"
  stump_Update :: "'stump \<Rightarrow> hash list \<Rightarrow> hash list \<Rightarrow> Proof \<Rightarrow> string + 'u"
  acc_InitWithStump :: "'stump \<Rightarrow> 'acc"

record 'acc UtreexoViewpoint =
  uv_accumulator :: 'acc
  uv_agg :: Agg512

definition block91722UnspendableUtreexoLeafHash :: hash where
  "block91722UnspendableUtreexoLeafHash =
     [0x84, 0xb3, 0xaf, 0x07, 0x83, 0xb4, 0x10, 0xb4, 0x56, 0x4c, 0x5d, 0x1f, 0x36, 0x18, 0x68, 0x55,
      0x9f, 0x7c, 0xf7, 0x7c, 0xfc, 0x65, 0xce, 0x2b, 0xe9, 0x51, 0x21, 0x03, 0x57, 0x02, 0x2f, 0xe3]"

definition block91812UnspendableUtreexoLeafHash :: hash where
  "block91812UnspendableUtreexoLeafHash =
     [0xbc, 0x6b, 0x4b, 0xf7, 0xce, 0xbb, 0xd3, 0x3a, 0x18, 0xd6, 0xb0, 0xfe, 0x1f, 0x8e, 0xcc, 0x7a,
      0xa5, 0x40, 0x30, 0x83, 0xc3, 0x9e, 0xe3, 0x43, 0xb9, 0x85, 0xd5, 0x1f, 0xd0, 0x29, 0x5a, 0xd8]"

text \<open>Verification does not remember the leaves, so the accumulator it returns is dropped.\<close>

definition VerifyUData ::
    "(byte list \<Rightarrow> byte list) \<Rightarrow> heap \<Rightarrow> ('acc, 'stump, 'u) AccOps \<Rightarrow> 'acc UtreexoViewpoint \<Rightarrow> 'u Block \<Rightarrow>
      chainView option \<Rightarrow> UData \<Rightarrow> 'u Block \<times> view_error option" where
  "VerifyUData ripemd160 h ops uview block bestChain ud =
     (case ExtractAccumulatorDels ripemd160 h block bestChain of
        (block, Inl err) \<Rightarrow> (block, Some err)
      | (block, Inr dels) \<Rightarrow>
          if length dels \<noteq> length (pf_Targets (ud_AccProof ud)) then (block, Some TargetCount)
          else if list_ex (\<lambda>del. del = block91722UnspendableUtreexoLeafHash \<or>
                    del = block91812UnspendableUtreexoLeafHash) dels
          then (block, Some UnspendableLeaf)
          else
            case acc_Verify ops (uv_accumulator uview) dels (ud_AccProof ud) False of
              Inl err \<Rightarrow> (block, Some (AccumulatorFailure err))
            | Inr _ \<Rightarrow> (block, None))"

definition AddProof ::
    "('acc, 'stump, 'u) AccOps \<Rightarrow> 'acc UtreexoViewpoint \<Rightarrow> hash list \<Rightarrow> Proof \<Rightarrow> 'acc UtreexoViewpoint \<times> view_error option" where
  "AddProof ops uview delHashes accProof =
     (case acc_Verify ops (uv_accumulator uview) delHashes accProof True of
        Inl err \<Rightarrow> (uview, Some (AccumulatorFailure err))
      | Inr acc \<Rightarrow> (uview\<lparr>uv_accumulator := acc\<rparr>, None))"

definition uview_Modify ::
    "('acc, 'stump, 'u) AccOps \<Rightarrow> 'acc UtreexoViewpoint \<Rightarrow> UData \<Rightarrow> (hash \<times> bool) list \<Rightarrow> hash list \<Rightarrow>
      'acc UtreexoViewpoint \<times> (view_error + 'u)" where
  "uview_Modify ops uview ud adds dels =
     (let addHashes = map fst adds in
      case stump_Update ops (acc_GetStump ops (uv_accumulator uview)) dels addHashes (ud_AccProof ud) of
        Inl err \<Rightarrow> (uview, Inl (AccumulatorFailure err))
      | Inr updateData \<Rightarrow>
          case acc_Ingest ops (uv_accumulator uview) dels (ud_AccProof ud) of
            Inl err \<Rightarrow> (uview, Inl (AccumulatorFailure err))
          | Inr acc \<Rightarrow>
              case acc_Modify ops acc adds dels (ud_AccProof ud) of
                Inl err \<Rightarrow> (uview\<lparr>uv_accumulator := acc\<rparr>, Inl (AccumulatorFailure err))
              | Inr acc \<Rightarrow> (uview\<lparr>uv_accumulator := acc\<rparr>, Inr updateData))"

text \<open>
  With times to live, an output that is spent later is added as the empty hash and put in the
  aggregator.  Too few times to live are an index out of range: \<open>None\<close>.\<close>

fun ttlLoop :: "TTLInfo list \<Rightarrow> LeafData list \<Rightarrow> hash list \<Rightarrow> Agg512 \<Rightarrow> Agg512 \<times> hash list option" where
  "ttlLoop ttls [] addHashes agg = (agg, Some addHashes)"
| "ttlLoop [] (add # adds) addHashes agg = (agg, None)"
| "ttlLoop (ttl # ttls) (add # adds) addHashes agg =
     (let addHash = LeafHash add in
      if DeathHeight ttl = 0 then ttlLoop ttls adds (addHashes @ [addHash]) agg
      else ttlLoop ttls adds (addHashes @ [replicate 32 0]) (Add256 addHash agg))"

definition ProcessUData ::
    "(byte list \<Rightarrow> byte list) \<Rightarrow> heap \<Rightarrow> ('acc, 'stump, 'u) AccOps \<Rightarrow> 'acc UtreexoViewpoint \<Rightarrow> 'u Block \<Rightarrow>
      chainView option \<Rightarrow> UData \<Rightarrow> 'acc UtreexoViewpoint \<times> 'u Block \<times> view_error option" where
  "ProcessUData ripemd160 h ops uview block bestChain ud =
     (let adds = ExtractAccumulatorAdds block in
      case UtreexoTTLs block of
        Some ttls \<Rightarrow>
          (case ttlLoop (TTLs ttls) adds [] (uv_agg uview) of
             (agg, None) \<Rightarrow> (uview\<lparr>uv_agg := agg\<rparr>, block, Some ViewPanic)
           | (agg, Some addHashes) \<Rightarrow>
               case (if length (ud_LeafDatas ud) > 0 then
                       (case DedupeBlock block of (_, _, inskip, _) \<Rightarrow> reconstructUData ripemd160 h ud block bestChain inskip)
                     else (ud_LeafDatas ud, Inr [])) of
                 (lds, Inl err) \<Rightarrow> (uview\<lparr>uv_agg := agg\<rparr>, setLeafDatas lds block, Some err)
               | (lds, Inr delHashes) \<Rightarrow>
                   (\<lparr>uv_accumulator = acc_InitWithStump ops (stump_Add ops (acc_GetStump ops (uv_accumulator uview)) addHashes),
                     uv_agg = fold Sub256 delHashes agg\<rparr>,
                    setLeafDatas lds block, None))
      | None \<Rightarrow>
          case ExtractAccumulatorDels ripemd160 h block bestChain of
            (block, Inl err) \<Rightarrow> (uview, block, Some err)
          | (block, Inr dels) \<Rightarrow>
              let addHashes = map (\<lambda>add. (LeafHash add, False)) adds in
              case uview_Modify ops uview ud addHashes dels of
                (uview, Inl err) \<Rightarrow> (uview, block, Some err)
              | (uview, Inr updateData) \<Rightarrow>
                  (uview, SetUtreexoAdds addHashes (SetUtreexoUpdateData (Some updateData) block), None))"

section \<open>Chain tip proofs\<close>

record ChainTipProof =
  ctp_ProvedAtHash :: hash
  ctp_AccProof :: Proof
  ctp_HashesProven :: "hash list"

definition ChainTipProof_Serialize :: "ChainTipProof \<Rightarrow> byte list" where
  "ChainTipProof_Serialize ctp =
     ctp_ProvedAtHash ctp @ BatchProofSerialize (ctp_AccProof ctp) @
     le_bytes 4 (length (ctp_HashesProven ctp)) @ concat (ctp_HashesProven ctp)"

text \<open>The reader is a byte reader: a short read leaves the rest of the buffer zero.\<close>

definition ChainTipProof_Deserialize :: "byte list \<Rightarrow> ChainTipProof read_result" where
  "ChainTipProof_Deserialize r =
     rbind (BufferRead 32 r) (\<lambda>(provedAtHash, r).
     rbind (BatchProofDeserialize r) (\<lambda>(bp, r).
     rbind (BufferRead 4 r) (\<lambda>(countBuf, r).
     rbind (read_n (BufferRead 32) (le_nat countBuf) r) (\<lambda>(hashesProven, r).
       Inr (\<lparr>ctp_ProvedAtHash = provedAtHash, ctp_AccProof = bp, ctp_HashesProven = hashesProven\<rparr>, r)))))"

section \<open>The loop over the inputs\<close>

text \<open>A body run on the inputs that are not skipped.\<close>

fun bodyLoop :: "(nat \<Rightarrow> TxIn \<Rightarrow> 's \<Rightarrow> 's \<times> view_error option) \<Rightarrow> (nat \<times> TxIn) list \<Rightarrow> 's \<Rightarrow> 's \<times> view_error option" where
  "bodyLoop body [] s = (s, None)"
| "bodyLoop body ((i, txIn) # xs) s =
     (case body i txIn s of (s, Some err) \<Rightarrow> (s, Some err) | (s, None) \<Rightarrow> bodyLoop body xs s)"

text \<open>The inputs of a loop that are not on the skip list.\<close>

fun unskipped :: "TxIn list \<Rightarrow> nat list \<Rightarrow> nat \<Rightarrow> (nat \<times> TxIn) list" where
  "unskipped [] inskip i = []"
| "unskipped (txIn # txIns) inskip i =
     (if length inskip > 0 \<and> inskip ! 0 = i then unskipped txIns (tl inskip) (i + 1)
      else (i, txIn) # unskipped txIns inskip (i + 1))"

lemma inputsLoop_append:
  "inputsLoop body (xs @ ys) sk i s =
     (case inputsLoop body xs sk i s of
        (sk, i, s, Some err) \<Rightarrow> (sk, i, s, Some err)
      | (sk, i, s, None) \<Rightarrow> inputsLoop body ys sk i s)"
  by (induction body xs sk i s rule: inputsLoop.induct) (auto split: prod.splits option.splits)

lemma txsLoop_eq: "txsLoop body txs sk i s = snd (snd (inputsLoop body (concat (map tx_TxIn txs)) sk i s))"
  by (induction body txs sk i s rule: txsLoop.induct) (auto simp: inputsLoop_append split: prod.splits option.splits)

lemma inputsLoop_eq: "snd (snd (inputsLoop body xs sk i s)) = bodyLoop body (unskipped xs sk i) s"
  by (induction body xs sk i s rule: inputsLoop.induct) (auto split: prod.splits option.splits)

definition blockIns :: "'u Block \<Rightarrow> TxIn list" where
  "blockIns b = concat (map tx_TxIn (tl (Transactions b)))"

definition coinbaseIns :: "'u Block \<Rightarrow> nat" where
  "coinbaseIns b = (case Transactions b of [] \<Rightarrow> 0 | coinbase # txs \<Rightarrow> length (tx_TxIn coinbase))"

lemma blockInputs_eq: "blockInputs body b sk s = bodyLoop body (unskipped (blockIns b) sk (coinbaseIns b)) s"
  by (simp add: blockInputs_def txsLoop_eq inputsLoop_eq blockIns_def coinbaseIns_def split: list.split)

lemma upt_length_Cons: "[i..<i + length (x # xs)] = i # [Suc i..<Suc i + length xs]"
  by (simp add: upt_conv_Cons del: upt_Suc)

lemma unskipped_filter:
  "unskipped xs (filter P [i..<i + length xs]) i = filter (\<lambda>(j, x). \<not> P j) (enumerate i xs)"
proof (induction xs arbitrary: i)
  case (Cons x xs)
  note up = upt_length_Cons [of i x xs]
  show ?case
  proof (cases "P i")
    case True
    then show ?thesis using Cons [of "Suc i"] unfolding up by (simp del: upt_Suc)
  next
    case False
    have "\<not> (length (filter P [Suc i..<Suc i + length xs]) > 0 \<and> filter P [Suc i..<Suc i + length xs] ! 0 = i)"
    proof
      assume *: "length (filter P [Suc i..<Suc i + length xs]) > 0 \<and> filter P [Suc i..<Suc i + length xs] ! 0 = i"
      then have "i \<in> set (filter P [Suc i..<Suc i + length xs])" by (metis nth_mem)
      then show False by (auto simp del: upt_Suc)
    qed
    then show ?thesis using False Cons [of "Suc i"] unfolding up by (auto simp del: upt_Suc)
  qed
qed simp

section \<open>Spending within a block\<close>

definition spentOps :: "'u Block \<Rightarrow> OutPoint list" where
  "spentOps b = map ti_PreviousOutPoint (blockIns b)"

definition txOps :: "MsgTx \<Rightarrow> OutPoint list" where
  "txOps tx = map (\<lambda>j. \<lparr>op_Hash = TxHash tx, op_Index = word_of_nat j\<rparr>) [0..<length (tx_TxOut tx)]"

definition createdOps :: "'u Block \<Rightarrow> OutPoint list" where
  "createdOps b = concat (map txOps (tl (Transactions b)))"

definition coinbaseOuts :: "'u Block \<Rightarrow> nat" where
  "coinbaseOuts b = (case Transactions b of [] \<Rightarrow> 0 | coinbase # txs \<Rightarrow> length (tx_TxOut coinbase))"

lemma fold_concat_map: "fold (\<lambda>x. fold f (g x)) xs s = fold f (concat (map g xs)) s"
  by (induction xs arbitrary: s) simp_all

lemma fold_dedupeInput:
  "distinct (map ti_PreviousOutPoint ins) \<Longrightarrow> set (map ti_PreviousOutPoint ins) \<inter> dom m = {} \<Longrightarrow>
     fold dedupeInput ins (n, m) = (n + length ins, m ++ map_of (zip (map ti_PreviousOutPoint ins) [n..<n + length ins]))"
proof (induction ins arbitrary: n m)
  case (Cons x ins)
  note up = upt_length_Cons [of n x ins]
  have "fold dedupeInput ins (Suc n, m(ti_PreviousOutPoint x \<mapsto> n)) =
      (Suc n + length ins, m(ti_PreviousOutPoint x \<mapsto> n) ++ map_of (zip (map ti_PreviousOutPoint ins) [Suc n..<Suc n + length ins]))"
  proof (rule Cons.IH)
    have "ti_PreviousOutPoint x \<notin> set (map ti_PreviousOutPoint ins)" using Cons.prems(1) by simp
    then show "set (map ti_PreviousOutPoint ins) \<inter> dom (m(ti_PreviousOutPoint x \<mapsto> n)) = {}"
      using Cons.prems(2) unfolding dom_fun_upd by auto
  qed (use Cons.prems(1) in simp)
  moreover have "m(ti_PreviousOutPoint x \<mapsto> n) ++ map_of (zip (map ti_PreviousOutPoint ins) [Suc n..<Suc n + length ins]) =
      m ++ map_of (zip (map ti_PreviousOutPoint (x # ins)) [n..<n + length (x # ins)])"
  proof -
    have "ti_PreviousOutPoint x \<notin> dom (map_of (zip (map ti_PreviousOutPoint ins) [Suc n..<Suc n + length ins]))"
      using Cons.prems(1) by (simp add: dom_map_of_zip del: upt_Suc)
    then show ?thesis unfolding up by (simp add: map_add_upd_left del: upt_Suc)
  qed
  ultimately show ?case by (simp add: dedupeInput_def [of x] del: upt_Suc)
qed simp

lemma fold_dedupeOps:
  "fold (\<lambda>p st. case st of (i, a, b) \<Rightarrow> (case inmap p of Some pos \<Rightarrow> (i + 1, a @ [pos], b @ [i]) | None \<Rightarrow> (i + 1, a, b))) ps (n, a, b) =
     (n + length ps, a @ map (the \<circ> inmap) (filter (\<lambda>p. inmap p \<noteq> None) ps),
      b @ filter (\<lambda>k. inmap (ps ! (k - n)) \<noteq> None) [n..<n + length ps])"
proof (induction ps arbitrary: n a b)
  case (Cons p ps)
  note up = upt_length_Cons [of n p ps]
  have sh: "filter (\<lambda>k. inmap ((p # ps) ! (k - n)) \<noteq> None) [Suc n..<Suc n + length ps] =
      filter (\<lambda>k. inmap (ps ! (k - Suc n)) \<noteq> None) [Suc n..<Suc n + length ps]"
    by (rule filter_cong) (auto simp: nth_Cons' Suc_le_eq)
  show ?case unfolding up using Cons.IH [of "Suc n"] sh by (auto simp del: upt_Suc split: option.split)
qed simp

lemma fold_dedupeOutput:
  "fold (\<lambda>tx. fold (dedupeOutput inmap tx) [0..<length (tx_TxOut tx)]) txs st =
     fold (\<lambda>p st. case st of (i, a, b) \<Rightarrow> (case inmap p of Some pos \<Rightarrow> (i + 1, a @ [pos], b @ [i]) | None \<Rightarrow> (i + 1, a, b)))
       (concat (map txOps txs)) st"
  unfolding fold_concat_map [symmetric] txOps_def fold_map
  by (rule fold_cong) (auto simp: dedupeOutput_def [abs_def] comp_def)

lemma inmap_spec:
  fixes b :: "'u Block"
  assumes "distinct (spentOps b)"
  defines "inmap \<equiv> map_of (zip (spentOps b) [coinbaseIns b..<coinbaseIns b + length (blockIns b)])"
  shows "inmap p \<noteq> None \<longleftrightarrow> p \<in> set (spentOps b)"
    and "k < length (blockIns b) \<Longrightarrow> inmap (spentOps b ! k) = Some (coinbaseIns b + k)"
proof -
  have len: "length (spentOps b) = length [coinbaseIns b..<coinbaseIns b + length (blockIns b)]" by (simp add: spentOps_def)
  then show "inmap p \<noteq> None \<longleftrightarrow> p \<in> set (spentOps b)"
    unfolding inmap_def by (metis domIff dom_map_of_zip)
  show "inmap (spentOps b ! k) = Some (coinbaseIns b + k)" if "k < length (blockIns b)"
    using map_of_zip_nth [OF len assms(1), of k] that by (simp add: inmap_def spentOps_def)
qed

definition dedupe_ok :: "'u Block \<Rightarrow> bool" where
  "dedupe_ok b \<longleftrightarrow> distinct (spentOps b) \<and> distinct (createdOps b)"

lemma DedupeBlock_eq:
  assumes "dedupe_ok b"
  shows "DedupeBlock b =
    (coinbaseIns b + length (blockIns b), coinbaseOuts b + length (createdOps b),
     filter (\<lambda>i. spentOps b ! (i - coinbaseIns b) \<in> set (createdOps b)) [coinbaseIns b..<coinbaseIns b + length (blockIns b)],
     filter (\<lambda>k. createdOps b ! (k - coinbaseOuts b) \<in> set (spentOps b)) [coinbaseOuts b..<coinbaseOuts b + length (createdOps b)])"
proof (cases "Transactions b")
  case Nil
  then show ?thesis by (simp add: DedupeBlock_def coinbaseIns_def coinbaseOuts_def blockIns_def createdOps_def)
next
  case (Cons coinbase txs)
  define n m where "n = coinbaseIns b" and "m = coinbaseOuts b"
  define inmap where "inmap = map_of (zip (spentOps b) [n..<n + length (blockIns b)])"
  have spent: "distinct (spentOps b)" and created: "distinct (createdOps b)" using assms by (simp_all add: dedupe_ok_def)
  note im = inmap_spec [OF spent, folded n_def, folded inmap_def]
  have ins: "fold (\<lambda>tx. fold dedupeInput (tx_TxIn tx)) txs (length (tx_TxIn coinbase), Map.empty) = (n + length (blockIns b), inmap)"
    using fold_dedupeInput [of "blockIns b" Map.empty n] spent Cons
    by (simp add: fold_concat_map blockIns_def spentOps_def n_def coinbaseIns_def inmap_def)
  have "concat (map txOps txs) = createdOps b" by (simp add: createdOps_def Cons)
  note outs = fold_dedupeOutput [of inmap txs "(length (tx_TxOut coinbase), [], [])", unfolded this fold_dedupeOps]
  have "sort (map (the \<circ> inmap) (filter (\<lambda>p. inmap p \<noteq> None) (createdOps b))) =
      filter (\<lambda>i. spentOps b ! (i - n) \<in> set (createdOps b)) [n..<n + length (blockIns b)]"
  proof (rule sorted_distinct_set_unique)
    have "inj_on (the \<circ> inmap) (set (spentOps b))"
    proof (rule inj_onI)
      fix p q assume pq: "p \<in> set (spentOps b)" "q \<in> set (spentOps b)" "(the \<circ> inmap) p = (the \<circ> inmap) q"
      then obtain j k where "j < length (blockIns b)" "k < length (blockIns b)" "p = spentOps b ! j" "q = spentOps b ! k"
        by (metis in_set_conv_nth length_map spentOps_def)
      with pq(3) im(2) show "p = q" by simp
    qed
    then have "inj_on (the \<circ> inmap) (set (filter (\<lambda>p. inmap p \<noteq> None) (createdOps b)))"
      by (rule inj_on_subset) (use im(1) in auto)
    then show "distinct (sort (map (the \<circ> inmap) (filter (\<lambda>p. inmap p \<noteq> None) (createdOps b))))"
      using created by (simp add: distinct_map del: comp_apply)
    have "(the \<circ> inmap) ` {p \<in> set (createdOps b). inmap p \<noteq> None} =
        {i \<in> {n..<n + length (blockIns b)}. spentOps b ! (i - n) \<in> set (createdOps b)}" (is "?l = ?r")
    proof
      show "?l \<subseteq> ?r"
      proof
        fix i assume "i \<in> ?l"
        then obtain p where p: "p \<in> set (createdOps b)" "p \<in> set (spentOps b)" "i = the (inmap p)" using im(1) by auto
        then obtain k where "k < length (blockIns b)" "p = spentOps b ! k" by (metis in_set_conv_nth length_map spentOps_def)
        with p im(2) show "i \<in> ?r" by simp
      qed
      show "?r \<subseteq> ?l"
      proof
        fix i assume i: "i \<in> ?r"
        define p where "p = spentOps b ! (i - n)"
        from i have "inmap p = Some i" using im(2) [of "i - n"] by (simp add: p_def less_diff_conv2 add.commute)
        with i show "i \<in> ?l" by (intro image_eqI [of _ _ p]) (simp_all add: p_def)
      qed
    qed
    then show "set (sort (map (the \<circ> inmap) (filter (\<lambda>p. inmap p \<noteq> None) (createdOps b)))) =
        set (filter (\<lambda>i. spentOps b ! (i - n) \<in> set (createdOps b)) [n..<n + length (blockIns b)])"
      by simp
  qed (simp_all add: sorted_wrt_filter)
  with ins outs Cons im(1) show ?thesis
    by (simp add: DedupeBlock_def n_def [symmetric] m_def [symmetric] coinbaseOuts_def)
qed

text \<open>
  Without a condition on what is spent: each entry of the map is the position of an input, so the skip list
  for inputs fits when the outputs created are distinct, and the one for outputs always fits.\<close>

lemma dedupeInput_range:
  assumes "\<And>p i. m p = Some i \<Longrightarrow> i < n" "\<And>p q i. m p = Some i \<Longrightarrow> m q = Some i \<Longrightarrow> p = q"
  shows "case fold dedupeInput ins (n, m) of
    (n', m') \<Rightarrow> (\<forall>p i. m' p = Some i \<longrightarrow> i < n') \<and> (\<forall>p q i. m' p = Some i \<longrightarrow> m' q = Some i \<longrightarrow> p = q)"
  using assms
proof (induction ins arbitrary: n m)
  case (Cons x ins)
  let ?m = "m(ti_PreviousOutPoint x \<mapsto> n)"
  have range: "i < Suc n" if "?m p = Some i" for p i
    using that Cons.prems(1) [of p i] by (auto split: if_splits)
  have inj: "p = q" if "?m p = Some i" "?m q = Some i" for p q i
    using that Cons.prems(1) [of p n] Cons.prems(1) [of q n] Cons.prems(2) [of p i q] by (auto split: if_splits)
  have "fold dedupeInput (x # ins) (n, m) = fold dedupeInput ins (Suc n, ?m)" by (simp add: dedupeInput_def [of x])
  with Cons.IH [OF range inj] show ?case by (simp only:)
qed auto

lemma outskip_fits: "DedupeBlock b = (inCount, outCount, inskip, outskip) \<Longrightarrow> length outskip \<le> outCount"
proof (cases "Transactions b")
  case (Cons coinbase txs)
  assume "DedupeBlock b = (inCount, outCount, inskip, outskip)"
  then show ?thesis
    by (auto simp: DedupeBlock_def Cons fold_dedupeOutput fold_dedupeOps split: prod.splits
        intro!: order_trans [OF length_filter_le])
qed (simp add: DedupeBlock_def)

lemma inskip_fits:
  assumes "distinct (createdOps b)" "DedupeBlock b = (inCount, outCount, inskip, outskip)"
  shows "length inskip \<le> inCount"
proof (cases "Transactions b")
  case (Cons coinbase txs)
  obtain n m where ins: "fold (\<lambda>tx. fold dedupeInput (tx_TxIn tx)) txs (length (tx_TxIn coinbase), Map.empty) = (n, m)"
    by (metis surj_pair)
  then have range: "m p = Some i \<Longrightarrow> i < n" "m p = Some i \<Longrightarrow> m q = Some i \<Longrightarrow> p = q" for p q i
    using dedupeInput_range [of Map.empty "length (tx_TxIn coinbase)" "concat (map tx_TxIn txs)"]
    by (auto simp: fold_concat_map)
  let ?sk = "map (the \<circ> m) (filter (\<lambda>p. m p \<noteq> None) (concat (map txOps txs)))"
  have sk: "inskip = sort ?sk" "inCount = n"
    using assms(2) ins by (auto simp: DedupeBlock_def Cons fold_dedupeOutput fold_dedupeOps)
  have "inj_on (the \<circ> m) {p. m p \<noteq> None}" using range(2) by (auto intro!: inj_onI)
  then have "distinct ?sk"
    using assms(1) unfolding createdOps_def Cons list.sel
    by (auto simp: distinct_map intro: inj_on_subset)
  moreover have "set ?sk \<subseteq> {..<n}" using range(1) by auto
  ultimately have "length ?sk \<le> n" by (metis card_lessThan card_mono distinct_card finite_lessThan)
  with sk show ?thesis by simp
qed (use assms(2) in \<open>simp add: DedupeBlock_def\<close>)

lemma BlockToDelOPs_loop:
  "bodyLoop (\<lambda>_ txin delOPs. (delOPs @ [ti_PreviousOutPoint txin], None)) xs ops = (ops @ map (ti_PreviousOutPoint \<circ> snd) xs, None)"
  by (induction xs arbitrary: ops) auto

lemma filter_enumerate: "map snd (filter (\<lambda>(j, x). Q (xs ! (j - i))) (enumerate i xs)) = filter Q xs"
proof -
  have "filter (\<lambda>(j, x). Q (xs ! (j - i))) (enumerate i xs) = filter (\<lambda>(j, x). Q x) (enumerate i xs)"
    by (rule filter_cong) (auto simp: in_set_enumerate_eq)
  moreover have "map snd (filter (\<lambda>(j, x). Q x) (enumerate i xs)) = filter Q xs"
    by (induction xs arbitrary: i) auto
  ultimately show ?thesis by simp
qed

lemma BlockToDelOPs_eq:
  "BlockToDelOPs b =
     (if fst (DedupeBlock b) < length (fst (snd (snd (DedupeBlock b)))) then Inl ViewPanic
      else Inr (map (ti_PreviousOutPoint \<circ> snd) (unskipped (blockIns b) (fst (snd (snd (DedupeBlock b)))) (coinbaseIns b))))"
  by (simp add: BlockToDelOPs_def blockInputs_eq BlockToDelOPs_loop split: prod.split)

lemma BlockToDelOPs_filter:
  assumes "dedupe_ok b"
  shows "BlockToDelOPs b = Inr (filter (\<lambda>p. p \<notin> set (createdOps b)) (spentOps b))"
proof -
  have "length (filter (\<lambda>i. spentOps b ! (i - coinbaseIns b) \<in> set (createdOps b)) [coinbaseIns b..<coinbaseIns b + length (blockIns b)])
      \<le> length (blockIns b)"
    by (rule order_trans [OF length_filter_le]) simp
  then have fits: "\<not> fst (DedupeBlock b) < length (fst (snd (snd (DedupeBlock b))))" by (simp add: DedupeBlock_eq [OF assms])
  have "map snd (unskipped (blockIns b) (fst (snd (snd (DedupeBlock b)))) (coinbaseIns b)) =
      filter (\<lambda>x. ti_PreviousOutPoint x \<notin> set (createdOps b)) (blockIns b)"
  proof -
    have "unskipped (blockIns b) (fst (snd (snd (DedupeBlock b)))) (coinbaseIns b) =
        filter (\<lambda>(j, x). ti_PreviousOutPoint (blockIns b ! (j - coinbaseIns b)) \<notin> set (createdOps b)) (enumerate (coinbaseIns b) (blockIns b))"
      unfolding DedupeBlock_eq [OF assms] fst_conv snd_conv unskipped_filter
      by (rule filter_cong) (auto simp: in_set_enumerate_eq spentOps_def)
    then show ?thesis using filter_enumerate [of "\<lambda>x. ti_PreviousOutPoint x \<notin> set (createdOps b)" "blockIns b"] by simp
  qed
  from arg_cong [OF this, of "map ti_PreviousOutPoint"] show ?thesis
    using fits by (simp add: BlockToDelOPs_eq spentOps_def filter_map comp_def)
qed

section \<open>New leaves\<close>

text \<open>The outputs of a block: whether the transaction is the coinbase, the transaction, the index and the output.\<close>

type_synonym blockOut = "bool \<times> MsgTx \<times> nat \<times> TxOut"

definition outsOf :: "bool \<Rightarrow> MsgTx \<Rightarrow> blockOut list" where
  "outsOf cb tx = map (\<lambda>(j, out). (cb, tx, j, out)) (enumerate 0 (tx_TxOut tx))"

definition blockOuts :: "'u Block \<Rightarrow> blockOut list" where
  "blockOuts b = (case Transactions b of [] \<Rightarrow> [] | coinbase # txs \<Rightarrow> outsOf True coinbase @ concat (map (outsOf False) txs))"

fun outOp :: "blockOut \<Rightarrow> OutPoint" where
  "outOp (cb, tx, j, out) = \<lparr>op_Hash = TxHash tx, op_Index = word_of_nat j\<rparr>"

fun outLeaf :: "'u Block \<Rightarrow> blockOut \<Rightarrow> LeafData" where
  "outLeaf b (cb, tx, j, out) =
     \<lparr>ld_BlockHash = Block_Hash b, ld_OutPoint = \<lparr>op_Hash = TxHash tx, op_Index = word_of_nat j\<rparr>,
      ld_Height = bk_blockHeight b, ld_IsCoinBase = cb, ld_Amount = to_Value out,
      ld_ReconstructablePkType = OtherTy, ld_PkScript = Some (to_PkScript out)\<rparr>"

fun addOuts :: "'u Block \<Rightarrow> blockOut list \<Rightarrow> nat list \<Rightarrow> nat \<Rightarrow> LeafData list" where
  "addOuts b [] sk n = []"
| "addOuts b ((cb, tx, j, out) # outs) sk n =
     (if TxOut_IsUnspendable out then addOuts b outs sk (n + 1)
      else if length sk > 0 \<and> sk ! 0 = n then addOuts b outs (tl sk) (n + 1)
      else outLeaf b (cb, tx, j, out) # addOuts b outs sk (n + 1))"

lemma addLeavesTx_eq:
  "addLeavesTx b cb tx outs sk n leaves = (sk', n', leaves') \<Longrightarrow>
     leaves' @ addOuts b rest sk' n' = leaves @ addOuts b (map (\<lambda>(j, out). (cb, tx, j, out)) outs @ rest) sk n"
proof (induction outs arbitrary: sk n leaves)
  case (Cons x outs)
  obtain j out where x: "x = (j, out)" by (cases x)
  consider "TxOut_IsUnspendable out" | "\<not> TxOut_IsUnspendable out" "length sk > 0 \<and> sk ! 0 = n"
    | "\<not> TxOut_IsUnspendable out" "\<not> (length sk > 0 \<and> sk ! 0 = n)" by blast
  then show ?case
  proof cases
    case 1
    with Cons.prems Cons.IH [of sk "n + 1" leaves] show ?thesis by (simp add: x)
  next
    case 2
    with Cons.prems Cons.IH [of "tl sk" "n + 1" leaves] show ?thesis by (simp add: x)
  next
    case 3
    with Cons.prems Cons.IH [of sk "n + 1" "leaves @ [outLeaf b (cb, tx, j, out)]"] show ?thesis
      by (auto simp: x Let_def)
  qed
qed simp

lemma addLeavesLoop_False:
  "addLeavesLoop b False txs sk n leaves = leaves @ addOuts b (concat (map (outsOf False) txs)) sk n"
proof (induction txs arbitrary: sk n leaves)
  case (Cons tx txs)
  obtain sk' n' leaves' where tx: "addLeavesTx b False tx (enumerate 0 (tx_TxOut tx)) sk n leaves = (sk', n', leaves')"
    by (metis prod_cases3)
  have "leaves' @ addOuts b (concat (map (outsOf False) txs)) sk' n' =
      leaves @ addOuts b (outsOf False tx @ concat (map (outsOf False) txs)) sk n"
    using addLeavesTx_eq [OF tx, of "concat (map (outsOf False) txs)"]
    by (simp add: outsOf_def)
  with tx Cons show ?case by simp
qed simp

lemma BlockToAddLeaves_eq: "BlockToAddLeaves b sk = addOuts b (blockOuts b) sk 0"
proof (cases "Transactions b")
  case (Cons tx txs)
  obtain sk' n' leaves' where tx: "addLeavesTx b True tx (enumerate 0 (tx_TxOut tx)) sk 0 [] = (sk', n', leaves')"
    by (metis prod_cases3)
  have "leaves' @ addOuts b (concat (map (outsOf False) txs)) sk' n' =
      addOuts b (outsOf True tx @ concat (map (outsOf False) txs)) sk 0"
    using addLeavesTx_eq [OF tx, of "concat (map (outsOf False) txs)"]
    by (simp add: outsOf_def)
  with tx Cons show ?thesis by (simp add: BlockToAddLeaves_def blockOuts_def addLeavesLoop_False)
qed (simp add: BlockToAddLeaves_def blockOuts_def)

abbreviation "spendableOut x \<equiv> \<not> TxOut_IsUnspendable (snd (snd (snd (x :: blockOut))))"

lemma addOuts_filter:
  assumes "\<And>k. n \<le> k \<Longrightarrow> k < n + length outs \<Longrightarrow> Q k \<Longrightarrow> spendableOut (outs ! (k - n))"
  shows "addOuts b outs (filter Q [n..<n + length outs]) n =
    map (outLeaf b \<circ> snd) (filter (\<lambda>(k, x). spendableOut x \<and> \<not> Q k) (enumerate n outs))"
  using assms
proof (induction outs arbitrary: n)
  case (Cons x outs)
  obtain cb tx j out where x: "x = (cb, tx, j, out)" by (cases x)
  note up = upt_length_Cons [of n x outs]
  have IH: "addOuts b outs (filter Q [Suc n..<Suc n + length outs]) (Suc n) =
      map (outLeaf b \<circ> snd) (filter (\<lambda>(k, x). spendableOut x \<and> \<not> Q k) (enumerate (Suc n) outs))"
  proof (rule Cons.IH)
    fix k assume "Suc n \<le> k" "k < Suc n + length outs" "Q k"
    with Cons.prems [of k] show "spendableOut (outs ! (k - Suc n))" by (simp add: nth_Cons')
  qed
  have no: "\<not> (length (filter Q [Suc n..<Suc n + length outs]) > 0 \<and> filter Q [Suc n..<Suc n + length outs] ! 0 = n)"
  proof
    assume "length (filter Q [Suc n..<Suc n + length outs]) > 0 \<and> filter Q [Suc n..<Suc n + length outs] ! 0 = n"
    then have "n \<in> set (filter Q [Suc n..<Suc n + length outs])" by (metis nth_mem)
    then show False by (auto simp del: upt_Suc)
  qed
  show ?case
  proof (cases "Q n")
    case True
    with Cons.prems [of n] x have "\<not> TxOut_IsUnspendable out" by simp
    with True IH show ?thesis unfolding up by (simp add: x del: upt_Suc)
  next
    case False
    with IH no show ?thesis unfolding up by (auto simp add: x simp del: upt_Suc)
  qed
qed simp

lemma outsOf_txOps: "map outOp (outsOf cb tx) = txOps tx"
  by (rule nth_equalityI) (simp_all add: outsOf_def txOps_def nth_enumerate_eq)

lemma length_outsOf: "length (outsOf cb tx) = length (tx_TxOut tx)"
  by (simp add: outsOf_def)

lemma outsOf_coinbase: "x \<in> set (outsOf cb tx) \<Longrightarrow> fst x = cb"
  by (auto simp: outsOf_def)

lemma createdOps_outs: "createdOps b = map outOp (drop (coinbaseOuts b) (blockOuts b))"
  by (simp add: createdOps_def coinbaseOuts_def blockOuts_def map_concat comp_def outsOf_txOps length_outsOf split: list.split)

lemma length_blockOuts: "length (blockOuts b) = coinbaseOuts b + length (createdOps b)"
  using createdOps_outs [of b] by (auto simp: coinbaseOuts_def blockOuts_def length_outsOf split: list.split)

lemma blockOuts_coinbase:
  assumes "k < length (blockOuts b)"
  shows "fst (blockOuts b ! k) \<longleftrightarrow> k < coinbaseOuts b"
proof (cases "Transactions b")
  case (Cons coinbase txs)
  then have outs: "blockOuts b = outsOf True coinbase @ concat (map (outsOf False) txs)"
    and len: "coinbaseOuts b = length (outsOf True coinbase)"
    by (simp_all add: blockOuts_def coinbaseOuts_def length_outsOf)
  show ?thesis
  proof (cases "k < coinbaseOuts b")
    case True
    then show ?thesis using outsOf_coinbase [OF nth_mem, of k True coinbase] by (simp add: outs len nth_append)
  next
    case False
    then have "concat (map (outsOf False) txs) ! (k - coinbaseOuts b) \<in> set (concat (map (outsOf False) txs))"
      using assms by (intro nth_mem) (simp add: outs len)
    then show ?thesis using False outsOf_coinbase by (fastforce simp add: outs len nth_append)
  qed
qed (use assms in \<open>simp add: blockOuts_def\<close>)

text \<open>The outputs of the block that one of its inputs spends; an unspendable output is never spent.\<close>

definition spentHere :: "'u Block \<Rightarrow> blockOut \<Rightarrow> bool" where
  "spentHere b x \<longleftrightarrow> \<not> fst x \<and> outOp x \<in> set (spentOps b)"

lemma filter_upt_shift:
  "filter Q [m..<m + n] = filter (\<lambda>k. m \<le> k \<and> Q k) [0..<m + n]"
proof -
  have "[0..<m + n] = [0..<m] @ [m..<m + n]" by (metis le0 upt_add_eq_append)
  moreover have "filter (\<lambda>k. m \<le> k \<and> Q k) [0..<m] = []" by (simp add: filter_empty_conv)
  moreover have "filter (\<lambda>k. m \<le> k \<and> Q k) [m..<m + n] = filter Q [m..<m + n]" by (rule filter_cong) auto
  ultimately show ?thesis by simp
qed

lemma map_filter_enumerate: "map (f \<circ> snd) (filter (\<lambda>(k, x). P x) (enumerate i xs)) = map f (filter P xs)"
  by (induction xs arbitrary: i) auto

lemma ExtractAccumulatorAdds_filter:
  assumes ok: "dedupe_ok b" and sp: "\<forall>x \<in> set (blockOuts b). spentHere b x \<longrightarrow> spendableOut x"
  shows "ExtractAccumulatorAdds b = map (outLeaf b) (filter (\<lambda>x. spendableOut x \<and> \<not> spentHere b x) (blockOuts b))"
proof -
  define Q where "Q k \<longleftrightarrow> coinbaseOuts b \<le> k \<and> createdOps b ! (k - coinbaseOuts b) \<in> set (spentOps b)" for k
  have Q: "Q k \<longleftrightarrow> spentHere b (blockOuts b ! k)" if "k < length (blockOuts b)" for k
  proof (cases "coinbaseOuts b \<le> k")
    case True
    with that have "createdOps b ! (k - coinbaseOuts b) = outOp (blockOuts b ! k)" by (simp add: createdOps_outs)
    with True that show ?thesis by (simp add: Q_def spentHere_def blockOuts_coinbase)
  qed (use that in \<open>simp add: Q_def spentHere_def blockOuts_coinbase\<close>)
  have "ExtractAccumulatorAdds b = addOuts b (blockOuts b) (filter Q [0..<0 + length (blockOuts b)]) 0"
    by (simp add: ExtractAccumulatorAdds_def DedupeBlock_eq [OF ok] BlockToAddLeaves_eq length_blockOuts Q_def [abs_def]
        filter_upt_shift [of _ "coinbaseOuts b" "length (createdOps b)"] del: upt_Suc)
  also have "\<dots> = map (outLeaf b \<circ> snd) (filter (\<lambda>(k, x). spendableOut x \<and> \<not> Q k) (enumerate 0 (blockOuts b)))"
    by (rule addOuts_filter) (use Q sp in auto)
  also have "filter (\<lambda>(k, x). spendableOut x \<and> \<not> Q k) (enumerate 0 (blockOuts b)) =
      filter (\<lambda>(k, x). spendableOut x \<and> \<not> spentHere b x) (enumerate 0 (blockOuts b))"
    by (rule filter_cong) (use Q in \<open>auto simp: in_set_enumerate_eq\<close>)
  finally show ?thesis unfolding map_filter_enumerate .
qed

text \<open>A block with a transaction that spends the output of another one.\<close>

definition parent_tx :: MsgTx where
  "parent_tx = sample_tx\<lparr>
     tx_TxIn := map (\<lambda>i. \<lparr>ti_PreviousOutPoint = \<lparr>op_Hash = zeroHash, op_Index = i\<rparr>,
       ti_SignatureScript = [], ti_Witness = Some [[1], [2, 3]], ti_Sequence = 0\<rparr>) [7, 8],
     tx_TxOut := [\<lparr>to_Value = 5000, to_PkScript = [0x51]\<rparr>, \<lparr>to_Value = 9, to_PkScript = [0x52]\<rparr>]\<rparr>"

definition child_tx :: MsgTx where
  "child_tx = sample_tx\<lparr>tx_TxIn := [\<lparr>ti_PreviousOutPoint = \<lparr>op_Hash = TxHash parent_tx, op_Index = 0\<rparr>,
     ti_SignatureScript = [], ti_Witness = None, ti_Sequence = 0\<rparr>], tx_TxOut := []\<rparr>"

definition family_block :: "unit Block" where
  "family_block = NewBlock \<lparr>mb_Header = sample_header, mb_Transactions = [sample_tx, parent_tx, child_tx]\<rparr>"

lemma family_block_ops:
  "spentOps family_block = [\<lparr>op_Hash = zeroHash, op_Index = 7\<rparr>, \<lparr>op_Hash = zeroHash, op_Index = 8\<rparr>, \<lparr>op_Hash = TxHash parent_tx, op_Index = 0\<rparr>]"
  "createdOps family_block = [\<lparr>op_Hash = TxHash parent_tx, op_Index = 0\<rparr>, \<lparr>op_Hash = TxHash parent_tx, op_Index = 1\<rparr>]"
  by (simp_all add: spentOps_def blockIns_def createdOps_def txOps_def Transactions_def family_block_def NewBlock_def
      parent_tx_def [THEN arg_cong [where f = tx_TxIn]] parent_tx_def [THEN arg_cong [where f = tx_TxOut]]
      child_tx_def sample_tx_def)

lemma family_block_outs:
  "blockOuts family_block =
     [(True, sample_tx, 0, \<lparr>to_Value = 5000, to_PkScript = [0x6a, 0x00]\<rparr>),
      (False, parent_tx, 0, \<lparr>to_Value = 5000, to_PkScript = [0x51]\<rparr>),
      (False, parent_tx, 1, \<lparr>to_Value = 9, to_PkScript = [0x52]\<rparr>)]"
  by (simp add: blockOuts_def outsOf_def Transactions_def family_block_def NewBlock_def
      parent_tx_def [THEN arg_cong [where f = tx_TxOut]] child_tx_def sample_tx_def [THEN arg_cong [where f = tx_TxOut]])

text \<open>C3: What a block does to the accumulator.  The outputs that need a proof are the ones its inputs spend, in order, without
  the coinbase and without those that a transaction of the block creates; the leaves it adds are its
  spendable outputs, in order, without those that an input of the block spends.  The skip lists of the
  code, positions in the block found by hashing outpoints and consumed in order, compute just that.\<close>

theorem block_update_spec:
  assumes "dedupe_ok b" "\<forall>x \<in> set (blockOuts b). spentHere b x \<longrightarrow> spendableOut x"
  shows "BlockToDelOPs b = Inr (filter (\<lambda>p. p \<notin> set (createdOps b)) (spentOps b)) \<and>
    ExtractAccumulatorAdds b = map (outLeaf b) (filter (\<lambda>x. spendableOut x \<and> \<not> spentHere b x) (blockOuts b))"
  using BlockToDelOPs_filter [OF assms(1)] ExtractAccumulatorAdds_filter [OF assms] by simp

theorem block_update_spec_witness:
  "BlockToDelOPs family_block = Inr [\<lparr>op_Hash = zeroHash, op_Index = 7\<rparr>, \<lparr>op_Hash = zeroHash, op_Index = 8\<rparr>] \<and>
   ExtractAccumulatorAdds family_block = [outLeaf family_block (False, parent_tx, 1, \<lparr>to_Value = 9, to_PkScript = [0x52]\<rparr>)]"
proof -
  have "dedupe_ok family_block" by (simp add: dedupe_ok_def family_block_ops)
  moreover have "\<forall>x \<in> set (blockOuts family_block). spentHere family_block x \<longrightarrow> spendableOut x"
    by (simp add: family_block_outs spentHere_def TxOut_IsUnspendable_def)
  ultimately show ?thesis
    using block_update_spec [of family_block] by (simp add: family_block_outs family_block_ops spentHere_def TxOut_IsUnspendable_def)
qed

end
