(* ===== verification/Utreexo_Sync.thy ===== *)
theory Utreexo_Sync
  imports Utreexo_View
begin

text \<open>
  How the nodes that serve proofs and the nodes that check them agree: the leaves of a bridge node come
  back from the compact form on the wire, a verified block is the block that is applied, and the
  aggregator accounts for the leaves that are left out of the accumulator.\<close>

section \<open>A leaf is filled in as it was\<close>

lemma pkTypeClass_classPkType: "reconstructable c \<Longrightarrow> pkTypeClass (classPkType c) = c"
  by (cases c) (simp_all add: classPkType_def pkTypeClass_def)

lemma classPkType_OtherTy: "classPkType c \<noteq> OtherTy \<Longrightarrow> c \<noteq> NonStandardTy"
  by (auto simp: classPkType_def)

lemma classPkType_le: "classPkType c \<le> Wire_Leaf.WitnessV0ScriptHashTy"
  by (cases c) (simp_all add: classPkType_def)

definition delLeaf :: "(byte list \<Rightarrow> byte list) \<Rightarrow> hash \<Rightarrow> SpentTxOut \<Rightarrow> TxIn \<Rightarrow> LeafData" where
  "delLeaf ripemd160 blockHash stxo txIn =
     \<lparr>ld_BlockHash = blockHash, ld_OutPoint = ti_PreviousOutPoint txIn, ld_Height = st_Height stxo,
      ld_IsCoinBase = st_IsCoinBase stxo, ld_Amount = st_Amount stxo,
      ld_ReconstructablePkType = classPkType (case GetReconstructScriptType ripemd160 (ti_SignatureScript txIn) (st_PkScript stxo) (ti_Witness txIn) of
                  Inl err \<Rightarrow> NonStandardTy | Inr class \<Rightarrow> class),
      ld_PkScript = Some (st_PkScript stxo)\<rparr>"

text \<open>The leaf that a bridge node makes for an input, and the node of the chain it names.\<close>

definition bridgeLeaf :: "(byte list \<Rightarrow> byte list) \<Rightarrow> heap \<Rightarrow> chainView \<Rightarrow> TxIn \<Rightarrow> LeafData \<Rightarrow> bool" where
  "bridgeLeaf ripemd160 h view txIn leaf \<longleftrightarrow>
     (\<exists>stxo hash. BlockHashByHeight h view (st_Height stxo) = Inr hash \<and> leaf = delLeaf ripemd160 hash stxo txIn)"

lemma BlockHashByHeight_Inr:
  "BlockHashByHeight h view height = Inr hash \<longleftrightarrow>
     (\<exists>n nd. nodeByHeight view (sint height) = Some n \<and> h n = Some nd \<and> hash = bn_hash nd)"
  by (auto simp: BlockHashByHeight_def split: option.splits)

lemma reconstruct_bridgeLeaf:
  assumes "bridgeLeaf ripemd160 h view txIn leaf"
  shows "reconstructLeafData ripemd160 h view (compact_leaf leaf) txIn = (leaf, None)"
proof -
  from assms obtain stxo hash where bh: "BlockHashByHeight h view (st_Height stxo) = Inr hash"
    and leaf: "leaf = delLeaf ripemd160 hash stxo txIn" by (auto simp: bridgeLeaf_def)
  from bh obtain n nd where n: "nodeByHeight view (sint (st_Height stxo)) = Some n" "h n = Some nd" "hash = bn_hash nd"
    by (auto simp: BlockHashByHeight_Inr)
  define c where "c = (case GetReconstructScriptType ripemd160 (ti_SignatureScript txIn) (st_PkScript stxo) (ti_Witness txIn) of
      Inl err \<Rightarrow> NonStandardTy | Inr class \<Rightarrow> class)"
  show ?thesis
  proof (cases "classPkType c = OtherTy")
    case True
    with n show ?thesis
      by (simp add: reconstructLeafData_def leaf delLeaf_def compact_leaf_def c_def [symmetric] Let_def)
  next
    case False
    then have "c \<noteq> NonStandardTy" by (rule classPkType_OtherTy)
    then have "GetReconstructScriptType ripemd160 (ti_SignatureScript txIn) (st_PkScript stxo) (ti_Witness txIn) = Inr c"
      by (auto simp: c_def split: sum.splits)
    with \<open>c \<noteq> NonStandardTy\<close> have "reconstructable c"
      "ReconstructScript ripemd160 (ti_SignatureScript txIn) (ti_Witness txIn) c = Inr (st_PkScript stxo)"
      by (simp_all add: GetReconstructScriptType_iff)
    with n False show ?thesis
      by (simp add: reconstructLeafData_def leaf delLeaf_def compact_leaf_def c_def [symmetric] Let_def pkTypeClass_classPkType)
  qed
qed

lemma delLeavesBody_eq:
  "delLeavesBody ripemd160 h view stxos i txIn lds =
     (if i = 0 \<or> i - 1 \<ge> length stxos then (lds, Some ViewPanic)
      else case BlockHashByHeight h view (st_Height (stxos ! (i - 1))) of
          Inl err \<Rightarrow> (lds, Some err)
        | Inr hash \<Rightarrow> (lds @ [delLeaf ripemd160 hash (stxos ! (i - 1)) txIn], None))"
  by (simp add: delLeavesBody_def Let_def delLeaf_def cong: sum.case_cong)

lemma delLeavesBody_ok:
  "delLeavesBody ripemd160 h view stxos i txIn lds = (lds', None) \<Longrightarrow> \<exists>leaf. lds' = lds @ [leaf] \<and> bridgeLeaf ripemd160 h view txIn leaf"
  unfolding delLeavesBody_eq bridgeLeaf_def by (auto split: if_splits sum.splits)

lemma delLeaves_loop:
  "bodyLoop (delLeavesBody ripemd160 h view stxos) xs lds = (lds', None) \<Longrightarrow>
     \<exists>dels. lds' = lds @ dels \<and> list_all2 (\<lambda>x leaf. bridgeLeaf ripemd160 h view (snd x) leaf) xs dels"
proof (induction xs arbitrary: lds)
  case (Cons x xs)
  obtain i txIn where x: "x = (i, txIn)" by (cases x)
  with Cons.prems obtain lds1 where body: "delLeavesBody ripemd160 h view stxos i txIn lds = (lds1, None)"
    and rest: "bodyLoop (delLeavesBody ripemd160 h view stxos) xs lds1 = (lds', None)"
    by (auto split: prod.splits option.splits)
  from delLeavesBody_ok [OF body] obtain leaf where leaf: "lds1 = lds @ [leaf]" "bridgeLeaf ripemd160 h view txIn leaf" by blast
  from Cons.IH [OF rest] obtain dels where "lds' = lds1 @ dels" "list_all2 (\<lambda>x leaf. bridgeLeaf ripemd160 h view (snd x) leaf) xs dels" by blast
  with leaf x show ?case by (intro exI [of _ "leaf # dels"]) simp
qed simp

text \<open>Filling in a list of leaves that each come back as a known one.\<close>

lemma reconstruct_loop:
  "list_all2 (\<lambda>x leaf. reconstructLeafData ripemd160 h view (g leaf) (snd x) = (leaf, None)) xs dels \<Longrightarrow>
     bodyLoop (reconstructBody ripemd160 h view) xs (length pre, pre @ map g dels @ post, hs) =
       ((length pre + length dels, pre @ dels @ post, hs @ map LeafHash dels), None)"
proof (induction arbitrary: pre hs rule: list_all2_induct)
  case (Cons x xs leaf dels)
  obtain i txIn where x: "x = (i, txIn)" by (cases x)
  with Cons(1) have "reconstructBody ripemd160 h view i txIn (length pre, pre @ map g (leaf # dels) @ post, hs) =
      ((length (pre @ [leaf]), (pre @ [leaf]) @ map g dels @ post, hs @ [LeafHash leaf]), None)"
    by (simp add: reconstructBody_def)
  with Cons.IH [of "pre @ [leaf]" "hs @ [LeafHash leaf]"] x show ?case by simp
qed simp

section \<open>Filling in the leaves of a block\<close>

text \<open>The inputs of a block that need a proof, with their index.\<close>

definition provenIns :: "'u Block \<Rightarrow> (nat \<times> TxIn) list" where
  "provenIns b = unskipped (blockIns b) (fst (snd (snd (DedupeBlock b)))) (coinbaseIns b)"

lemma BlockToDelOPs_ins:
  "BlockToDelOPs b =
     (if fst (DedupeBlock b) < length (fst (snd (snd (DedupeBlock b)))) then Inl ViewPanic
      else Inr (map (ti_PreviousOutPoint \<circ> snd) (provenIns b)))"
  by (simp add: BlockToDelOPs_eq provenIns_def)

lemma BlockToDelOPs_proven: "BlockToDelOPs b = Inr ops \<Longrightarrow> ops = map (ti_PreviousOutPoint \<circ> snd) (provenIns b)"
  by (simp add: BlockToDelOPs_ins split: if_splits)

lemma BlockToDelOPs_distinct:
  assumes "distinct (createdOps b)"
  shows "BlockToDelOPs b = Inr (map (ti_PreviousOutPoint \<circ> snd) (provenIns b))"
proof -
  obtain inCount outCount inskip outskip where dd: "DedupeBlock b = (inCount, outCount, inskip, outskip)" by (metis prod_cases4)
  with inskip_fits [OF assms this] show ?thesis by (simp add: BlockToDelOPs_ins)
qed

lemma reconstructLeafData_Some:
  assumes "reconstructLeafData ripemd160 h view ld txIn = (ld', None)"
  shows "ld_OutPoint ld' = ti_PreviousOutPoint txIn"
    and "BlockHashByHeight h view (ld_Height ld') = Inr (ld_BlockHash ld')"
    and "reconstructLeafData ripemd160 h view ld' txIn = (ld', None)"
proof -
  from assms obtain n nd where n: "nodeByHeight view (sint (ld_Height ld)) = Some n" "h n = Some nd"
    by (auto simp: reconstructLeafData_def split: option.splits)
  define ld1 where "ld1 = ld\<lparr>ld_BlockHash := bn_hash nd, ld_OutPoint := ti_PreviousOutPoint txIn\<rparr>"
  have "ld' = ld1 \<and> (ld_ReconstructablePkType ld1 = OtherTy \<or> ld_PkScript ld1 \<noteq> None) \<or> (\<exists>pk. ld' = ld1\<lparr>ld_PkScript := Some pk\<rparr>)"
    using assms n by (auto simp: reconstructLeafData_def Let_def ld1_def split: if_splits sum.splits)
  then show "ld_OutPoint ld' = ti_PreviousOutPoint txIn" "BlockHashByHeight h view (ld_Height ld') = Inr (ld_BlockHash ld')"
    "reconstructLeafData ripemd160 h view ld' txIn = (ld', None)"
    using n by (auto simp: ld1_def BlockHashByHeight_Inr reconstructLeafData_def Let_def)
qed

lemma bodyLoop_append:
  "bodyLoop body (xs @ ys) s = (case bodyLoop body xs s of (s, Some err) \<Rightarrow> (s, Some err) | (s, None) \<Rightarrow> bodyLoop body ys s)"
  by (induction body xs s rule: bodyLoop.induct) (auto split: prod.splits option.splits)

lemma reconstructBody_at:
  "reconstructBody ripemd160 h view i txIn (length pre, pre @ ld # lds, hs) =
     (case reconstructLeafData ripemd160 h view ld txIn of
        (ld, Some err) \<Rightarrow> ((length pre, pre @ ld # lds, hs), Some err)
      | (ld, None) \<Rightarrow> ((length (pre @ [ld]), (pre @ [ld]) @ lds, hs @ [LeafHash ld]), None))"
  by (simp add: reconstructBody_def split: prod.split option.split)

lemma reconstruct_loop_inv:
  "bodyLoop (reconstructBody ripemd160 h view) xs (length pre, pre @ lds, hs) = ((n, lds', hs'), None) \<Longrightarrow>
     \<exists>dels post. lds' = pre @ dels @ post \<and> length lds = length (dels @ post) \<and> hs' = hs @ map LeafHash dels \<and>
       list_all2 (\<lambda>x (ld, ld'). reconstructLeafData ripemd160 h view ld (snd x) = (ld', None)) xs (zip (take (length dels) lds) dels) \<and>
       length xs = length dels"
proof (induction xs arbitrary: pre lds hs)
  case (Cons x xs)
  obtain i txIn where x: "x = (i, txIn)" by (cases x)
  from Cons.prems have "lds \<noteq> []" by (auto simp: x reconstructBody_def)
  then obtain ld lds1 where lds: "lds = ld # lds1" by (cases lds) auto
  from Cons.prems obtain ld' where ld: "reconstructLeafData ripemd160 h view ld txIn = (ld', None)"
    and rest: "bodyLoop (reconstructBody ripemd160 h view) xs (length (pre @ [ld']), (pre @ [ld']) @ lds1, hs @ [LeafHash ld']) = ((n, lds', hs'), None)"
    unfolding x lds bodyLoop.simps reconstructBody_at by (auto split: prod.splits option.splits)
  from Cons.IH [OF rest] obtain dels post where "lds' = (pre @ [ld']) @ dels @ post" "length lds1 = length (dels @ post)"
    "hs' = (hs @ [LeafHash ld']) @ map LeafHash dels"
    "list_all2 (\<lambda>x (ld, ld'). reconstructLeafData ripemd160 h view ld (snd x) = (ld', None)) xs (zip (take (length dels) lds1) dels)"
    "length xs = length dels" by blast
  with ld show ?case by (intro exI [of _ "ld' # dels"] exI [of _ post]) (simp add: x lds)
qed auto

lemma Transactions_setLeafDatas [simp]:
  "Transactions (setLeafDatas lds b) = Transactions b" "Block_Hash (setLeafDatas lds b) = Block_Hash b"
  "bk_blockHeight (setLeafDatas lds b) = bk_blockHeight b"
  by (simp_all add: Transactions_def setLeafDatas_def Block_Hash_def)

lemma addOuts_setLeafDatas: "addOuts (setLeafDatas lds b) outs sk n = addOuts b outs sk n"
  by (induction b outs sk n rule: addOuts.induct) auto

lemma setLeafDatas_simps [simp]:
  "DedupeBlock (setLeafDatas lds b) = DedupeBlock b" "provenIns (setLeafDatas lds b) = provenIns b"
  "UtreexoTTLs (setLeafDatas lds b) = UtreexoTTLs b" "setLeafDatas lds (setLeafDatas lds' b) = setLeafDatas lds b"
  by (simp_all add: DedupeBlock_def provenIns_def blockIns_def coinbaseIns_def)
    (simp_all add: UtreexoTTLs_def setLeafDatas_def option.map_comp comp_def split: bind_splits)

lemma setLeafDatas_updates [simp]:
  "BlockToDelOPs (setLeafDatas lds b) = BlockToDelOPs b" "ExtractAccumulatorAdds (setLeafDatas lds b) = ExtractAccumulatorAdds b"
  by (simp_all add: BlockToDelOPs_ins ExtractAccumulatorAdds_def BlockToAddLeaves_eq addOuts_setLeafDatas blockOuts_def)

lemma UtreexoData_setLeafDatas [simp]:
  "UtreexoData (setLeafDatas lds b) = map_option (\<lambda>ud. ud\<lparr>ud_LeafDatas := lds\<rparr>) (UtreexoData b)"
  by (cases "bk_utreexoData b") (auto simp: UtreexoData_def setLeafDatas_def option.map_comp comp_def split: option.splits)

lemma BlockToDelOPs_loopless: "fst (snd (snd (DedupeBlock b))) = sk \<Longrightarrow> blockInputs body b sk s = bodyLoop body (provenIns b) s"
  by (simp add: blockInputs_eq provenIns_def)

lemma reconstructUData_eq:
  "DedupeBlock b = (i, j, inskip, outskip) \<Longrightarrow>
     reconstructUData ripemd160 h ud b (Some view) inskip =
       (case bodyLoop (reconstructBody ripemd160 h view) (provenIns b) (0, ud_LeafDatas ud, []) of
          ((_, lds, hs), Some err) \<Rightarrow> (lds, Inl err) | ((_, lds, hs), None) \<Rightarrow> (lds, Inr hs))"
  by (simp add: reconstructUData_def BlockToDelOPs_loopless)

lemma ProofSanity_None: "ProofSanity ud ops = None \<longleftrightarrow> ops = map ld_OutPoint (ud_LeafDatas ud)"
proof
  assume ok: "ProofSanity ud ops = None"
  then have len: "length ops = length (ud_LeafDatas ud)" by (simp add: ProofSanity_def split: if_splits)
  show "ops = map ld_OutPoint (ud_LeafDatas ud)"
  proof (rule nth_equalityI)
    fix i assume i: "i < length ops"
    then have "(ops ! i, ud_LeafDatas ud ! i) \<in> set (zip ops (ud_LeafDatas ud))" using len by (auto simp: set_zip)
    with ok len i show "ops ! i = map ld_OutPoint (ud_LeafDatas ud) ! i"
      by (auto simp: ProofSanity_def list_ex_iff split: if_splits)
  qed (use len in simp)
qed (auto simp: ProofSanity_def list_ex_iff set_zip)

text \<open>The leaves of a block all come back: the hashes are theirs.\<close>

lemma ExtractAccumulatorDels_ok:
  assumes ud: "UtreexoData b = Some ud" and lds: "ud_LeafDatas ud = map g dels" and ops: "BlockToDelOPs b = Inr ops"
    and rec: "list_all2 (\<lambda>x leaf. reconstructLeafData ripemd160 h view (g leaf) (snd x) = (leaf, None)) (provenIns b) dels"
  shows "ExtractAccumulatorDels ripemd160 h b (Some view) = (setLeafDatas dels b, Inr (map LeafHash dels))"
proof -
  obtain i j inskip outskip where dd: "DedupeBlock b = (i, j, inskip, outskip)" by (metis prod_cases4)
  have "reconstructUData ripemd160 h ud b (Some view) inskip = (dels, Inr (map LeafHash dels))"
    using reconstruct_loop [OF rec, of "[]" "[]" "[]"] by (simp add: reconstructUData_eq [OF dd] lds)
  moreover have "ops = map ld_OutPoint dels"
    using rec reconstructLeafData_Some(1) unfolding BlockToDelOPs_proven [OF ops]
    by (induction rule: list_all2_induct) (simp, fastforce)
  moreover have "ProofSanity (ud\<lparr>ud_LeafDatas := dels\<rparr>) (map ld_OutPoint dels) = None" by (simp add: ProofSanity_None)
  ultimately show ?thesis using dd ud lds ops by (cases "dels = []") (simp_all add: ExtractAccumulatorDels_def)
qed

text \<open>What it means that the leaves of a block were filled in: they are the outputs that need a proof, each names the block of
  the chain at its height, and filling them in again changes nothing.\<close>

lemma ExtractAccumulatorDels_inv:
  assumes run: "ExtractAccumulatorDels ripemd160 h b (Some view) = (b', Inr hs)"
  obtains ud lds where "UtreexoData b = Some ud" "b' = setLeafDatas lds b" "hs = map LeafHash lds"
    "BlockToDelOPs b = Inr (map ld_OutPoint lds)"
    "list_all2 (\<lambda>x ld. reconstructLeafData ripemd160 h view ld (snd x) = (ld, None)) (provenIns b) lds"
    "\<forall>ld \<in> set lds. BlockHashByHeight h view (ld_Height ld) = Inr (ld_BlockHash ld)"
proof -
  obtain i j inskip outskip where dd: "DedupeBlock b = (i, j, inskip, outskip)" by (metis prod_cases4)
  from run obtain ud where ud: "UtreexoData b = Some ud" by (auto simp: ExtractAccumulatorDels_def split: option.splits)
  show ?thesis
  proof (cases "ud_LeafDatas ud = []")
    case True
    with run ud dd have "b' = setLeafDatas [] b" "hs = []" "BlockToDelOPs b = Inr []"
      by (auto simp: ExtractAccumulatorDels_def ProofSanity_None split: option.splits sum.splits)
    then show ?thesis using that [OF ud, of "[]"] BlockToDelOPs_proven [of b "[]"] by simp
  next
    case False
    with run ud dd obtain n lds where
      loop: "bodyLoop (reconstructBody ripemd160 h view) (provenIns b) (0, ud_LeafDatas ud, []) = ((n, lds, hs), None)"
      and b': "b' = setLeafDatas lds b" and ops: "BlockToDelOPs b = Inr (map ld_OutPoint lds)"
      by (auto simp: ExtractAccumulatorDels_def ProofSanity_None reconstructUData_eq [OF dd] Let_def split: option.splits prod.splits sum.splits)
    from reconstruct_loop_inv [of ripemd160 h view "provenIns b" "[]" "ud_LeafDatas ud" "[]"] loop
    obtain dels post where d: "lds = dels @ post" "hs = map LeafHash dels" "length (provenIns b) = length dels"
      "list_all2 (\<lambda>x (ld, ld'). reconstructLeafData ripemd160 h view ld (snd x) = (ld', None)) (provenIns b) (zip (take (length dels) (ud_LeafDatas ud)) dels)"
      "length (ud_LeafDatas ud) = length (dels @ post)"
      by auto
    from arg_cong [OF BlockToDelOPs_proven [OF ops], of length] d(1,3) have post: "post = []" by simp
    have each: "reconstructLeafData ripemd160 h view (ud_LeafDatas ud ! k) (snd (provenIns b ! k)) = (dels ! k, None)" if "k < length dels" for k
      using list_all2_nthD [OF d(4), of k] that d(3,5) post by simp
    show ?thesis
    proof (rule that [OF ud b'])
      show "list_all2 (\<lambda>x ld. reconstructLeafData ripemd160 h view ld (snd x) = (ld, None)) (provenIns b) lds"
        using d(1,3) post reconstructLeafData_Some(3) [OF each] by (simp add: list_all2_conv_all_nth)
      show "\<forall>ld \<in> set lds. BlockHashByHeight h view (ld_Height ld) = Inr (ld_BlockHash ld)"
        using d(1) post reconstructLeafData_Some(2) [OF each] by (simp add: all_set_conv_all_nth)
    qed (use d(1,2) post ops in simp_all)
  qed
qed

lemma ExtractAccumulatorDels_again:
  assumes "ExtractAccumulatorDels ripemd160 h b (Some view) = (b', Inr hs)"
  shows "ExtractAccumulatorDels ripemd160 h b' (Some view) = (b', Inr hs)"
proof -
  from assms obtain ud lds where "UtreexoData b = Some ud" "b' = setLeafDatas lds b" "hs = map LeafHash lds"
    "BlockToDelOPs b = Inr (map ld_OutPoint lds)"
    "list_all2 (\<lambda>x ld. reconstructLeafData ripemd160 h view ld (snd x) = (ld, None)) (provenIns b) lds"
    by (rule ExtractAccumulatorDels_inv)
  with ExtractAccumulatorDels_ok [of b' "ud\<lparr>ud_LeafDatas := lds\<rparr>" "\<lambda>x. x" lds] show ?thesis by simp
qed

lemma provenIns_cong: "Transactions b = Transactions b' \<Longrightarrow> provenIns b = provenIns b'"
  by (simp add: provenIns_def blockIns_def coinbaseIns_def DedupeBlock_def)

lemma SetUtreexoData_Some:
  assumes "SetUtreexoData (Some ud) b = Some b'"
  shows "Transactions b' = Transactions b" "UtreexoData b' = Some ud"
  using assms by (auto simp: SetUtreexoData_def Transactions_def UtreexoData_def)

lemma BlockToDelLeaves_ok:
  assumes "DedupeBlock b = (inCount, outCount, inskip, outskip)" "BlockToDelLeaves ripemd160 h stxos (Some view) b inskip = Inr dels"
  shows "list_all2 (\<lambda>x leaf. bridgeLeaf ripemd160 h view (snd x) leaf) (provenIns b) dels"
proof -
  from assms have "bodyLoop (delLeavesBody ripemd160 h view stxos) (provenIns b) [] = (dels, None)"
    by (auto simp: BlockToDelLeaves_def BlockToDelOPs_loopless split: prod.splits option.splits)
  from delLeaves_loop [OF this] show ?thesis by simp
qed

section \<open>An example\<close>

text \<open>The block spends two outputs of the genesis block of the chain.\<close>

definition family_stxos :: "SpentTxOut list" where
  "family_stxos = [\<lparr>st_Amount = 5000, st_PkScript = [0, 0x14] @ replicate 20 7, st_Height = 1, st_IsCoinBase = True\<rparr>,
     \<lparr>st_Amount = 9, st_PkScript = [0x51], st_Height = 0, st_IsCoinBase = False\<rparr>]"

definition family_ripemd :: "byte list \<Rightarrow> byte list" where
  "family_ripemd bs = replicate 20 7"

definition family_view :: chainView where
  "family_view = [Some 0, Some 1]"

definition family_dels :: "LeafData list" where
  "family_dels = [delLeaf family_ripemd (bn_hash (sample_node (Some 0) 1 1)) (family_stxos ! 0) (tx_TxIn parent_tx ! 0),
     delLeaf family_ripemd (bn_hash (sample_node None 0 0)) (family_stxos ! 1) (tx_TxIn parent_tx ! 1)]"

lemma parent_TxIn: "length (tx_TxIn parent_tx) = 2" "tx_TxIn parent_tx = [tx_TxIn parent_tx ! 0, tx_TxIn parent_tx ! 1]"
  by (simp_all add: parent_tx_def)

lemma family_counts: "coinbaseIns family_block = 1" "coinbaseOuts family_block = 1"
  "blockIns family_block = [tx_TxIn parent_tx ! 0, tx_TxIn parent_tx ! 1, tx_TxIn child_tx ! 0]"
proof -
  have "tx_TxIn child_tx = [tx_TxIn child_tx ! 0]" by (simp add: child_tx_def)
  then show "blockIns family_block = [tx_TxIn parent_tx ! 0, tx_TxIn parent_tx ! 1, tx_TxIn child_tx ! 0]"
    using parent_TxIn(2) by (simp add: blockIns_def Transactions_def family_block_def NewBlock_def)
qed (simp_all add: coinbaseIns_def coinbaseOuts_def Transactions_def family_block_def NewBlock_def sample_tx_def)

lemma DedupeBlock_family: "DedupeBlock family_block = (4, 3, [3], [1])"
proof -
  have "dedupe_ok family_block" by (simp add: dedupe_ok_def family_block_ops)
  moreover have "[1..<4] = [1, 2, 3::nat]" "[1..<3] = [1, 2::nat]" by code_simp+
  ultimately show ?thesis by (simp add: DedupeBlock_eq family_block_ops family_counts)
qed

lemma provenIns_family: "provenIns family_block = [(1, tx_TxIn parent_tx ! 0), (2, tx_TxIn parent_tx ! 1)]"
  by (simp add: provenIns_def DedupeBlock_family family_counts)

lemma BlockToDelLeaves_family:
  "BlockToDelLeaves family_ripemd sample_heap family_stxos (Some family_view) family_block [3] = Inr family_dels"
  by (simp add: BlockToDelLeaves_def BlockToDelOPs_loopless DedupeBlock_family provenIns_family delLeavesBody_eq
      BlockHashByHeight_def nodeByHeight_def family_view_def family_stxos_def family_dels_def)

lemma valid_family: "valid_UData \<lparr>ud_AccProof = sample_proof, ud_LeafDatas = family_dels\<rparr>"
  by (simp add: valid_UData_def valid_sample_proof family_dels_def valid_compact_def delLeaf_def
      family_stxos_def height_ok_def IsUnconfirmed_def classPkType_le MaxScriptSize_def)

text \<open>C1: A proof made by a bridge node is understood by the node that receives it.  When a bridge node makes the leaves for a block
  from the outputs it spends and sends them in compact form, without block hashes, outpoints and the
  scripts that the spending inputs imply, then the receiver with the same chain fills in the very same leaves and
  hashes, and its sanity check passes.  The outputs that the block creates are distinct: no transaction occurs twice.\<close>

theorem bridge_leaves_accepted:
  assumes "DedupeBlock b = (inCount, outCount, inskip, outskip)"
    and "BlockToDelLeaves ripemd160 h stxos (Some view) b inskip = Inr dels"
    and "valid_UData \<lparr>ud_AccProof = proof, ud_LeafDatas = dels\<rparr>" "distinct (createdOps b)"
  shows "\<exists>bs ud b1. UData_Serialize \<lparr>ud_AccProof = proof, ud_LeafDatas = dels\<rparr> = Inr bs \<and>
    UData_Deserialize (bs @ rest) = Inr (ud, rest) \<and> SetUtreexoData (Some ud) b = Some b1 \<and>
    ExtractAccumulatorDels ripemd160 h b1 (Some view) = (setLeafDatas dels b1, Inr (map LeafHash dels)) \<and>
    UtreexoData (setLeafDatas dels b1) = Some \<lparr>ud_AccProof = proof, ud_LeafDatas = dels\<rparr>"
proof -
  define ud where "ud = \<lparr>ud_AccProof = proof, ud_LeafDatas = map compact_leaf dels\<rparr>"
  from UData_put [OF assms(3), of rest] obtain bs where
    bs: "UData_Serialize \<lparr>ud_AccProof = proof, ud_LeafDatas = dels\<rparr> = Inr bs" "UData_Deserialize (bs @ rest) = Inr (ud, rest)"
    by (auto simp: ud_def)
  obtain b1 where b1: "SetUtreexoData (Some ud) b = Some b1" by (auto simp: SetUtreexoData_def)
  note set = SetUtreexoData_Some [OF b1]
  from BlockToDelLeaves_ok [OF assms(1,2)]
  have "list_all2 (\<lambda>x leaf. reconstructLeafData ripemd160 h view (compact_leaf leaf) (snd x) = (leaf, None)) (provenIns b1) dels"
    unfolding provenIns_cong [OF set(1)] by (rule list_all2_mono) (rule reconstruct_bridgeLeaf)
  moreover have "createdOps b1 = createdOps b" by (simp add: createdOps_def set(1))
  with assms(4) have "BlockToDelOPs b1 = Inr (map (ti_PreviousOutPoint \<circ> snd) (provenIns b1))" by (intro BlockToDelOPs_distinct) simp
  ultimately have "ExtractAccumulatorDels ripemd160 h b1 (Some view) = (setLeafDatas dels b1, Inr (map LeafHash dels))"
    by (intro ExtractAccumulatorDels_ok [OF set(2), of compact_leaf]) (simp_all add: ud_def)
  moreover have "UtreexoData (setLeafDatas dels b1) = Some \<lparr>ud_AccProof = proof, ud_LeafDatas = dels\<rparr>"
    using set(2) by (simp add: ud_def)
  ultimately show ?thesis using bs b1 by blast
qed

theorem bridge_leaves_accepted_witness:
  "\<exists>bs ud b1. UData_Serialize \<lparr>ud_AccProof = sample_proof, ud_LeafDatas = family_dels\<rparr> = Inr bs \<and>
    UData_Deserialize (bs @ []) = Inr (ud, []) \<and> SetUtreexoData (Some ud) family_block = Some b1 \<and>
    ExtractAccumulatorDels family_ripemd sample_heap b1 (Some family_view) = (setLeafDatas family_dels b1, Inr (map LeafHash family_dels)) \<and>
    UtreexoData (setLeafDatas family_dels b1) = Some \<lparr>ud_AccProof = sample_proof, ud_LeafDatas = family_dels\<rparr>"
  by (rule bridge_leaves_accepted [OF DedupeBlock_family BlockToDelLeaves_family valid_family]) (simp add: family_block_ops)

text \<open>C5: A block that comes with some but too few leaves crashes the node: when the leaves of a bridge node are cut short, filling
  them in runs past their end, before the check that would reject the block.\<close>

theorem short_leaves_panic:
  assumes "DedupeBlock b = (inCount, outCount, inskip, outskip)"
    and "BlockToDelLeaves ripemd160 h stxos (Some view) b inskip = Inr dels"
    and "0 < k" "k < length dels"
    and "SetUtreexoData (Some \<lparr>ud_AccProof = proof, ud_LeafDatas = map compact_leaf (take k dels)\<rparr>) b = Some b1"
  shows "ExtractAccumulatorDels ripemd160 h b1 (Some view) = (setLeafDatas (take k dels) b1, Inl ViewPanic)"
proof -
  note set = SetUtreexoData_Some [OF assms(5)]
  from BlockToDelLeaves_ok [OF assms(1,2)]
  have all: "list_all2 (\<lambda>x leaf. reconstructLeafData ripemd160 h view (compact_leaf leaf) (snd x) = (leaf, None)) (provenIns b1) dels"
    unfolding provenIns_cong [OF set(1)] by (rule list_all2_mono) (rule reconstruct_bridgeLeaf)
  have "k < length (provenIns b1)" using list_all2_lengthD [OF all] assms(4) by simp
  then obtain x xs where xs: "provenIns b1 = take k (provenIns b1) @ x # xs" by (metis id_take_nth_drop)
  have "bodyLoop (reconstructBody ripemd160 h view) (take k (provenIns b1)) (0, map compact_leaf (take k dels), []) =
      ((k, take k dels, map LeafHash (take k dels)), None)"
    using reconstruct_loop [OF list_all2_takeI [OF all], of k "[]" "[]" "[]"] assms(4) by simp
  then have "bodyLoop (reconstructBody ripemd160 h view) (provenIns b1) (0, map compact_leaf (take k dels), []) =
      ((k, take k dels, map LeafHash (take k dels)), Some ViewPanic)"
    using assms(4) by (subst xs) (cases x, simp add: bodyLoop_append reconstructBody_def)
  moreover obtain i j sk outskip' where "DedupeBlock b1 = (i, j, sk, outskip')" by (metis prod_cases4)
  ultimately show ?thesis using set(2) assms(3,4)
    by (auto simp: ExtractAccumulatorDels_def reconstructUData_eq)
qed

theorem short_leaves_panic_witness:
  "\<exists>b1. SetUtreexoData (Some \<lparr>ud_AccProof = sample_proof, ud_LeafDatas = map compact_leaf (take 1 family_dels)\<rparr>) family_block = Some b1 \<and>
    ExtractAccumulatorDels family_ripemd sample_heap b1 (Some family_view) = (setLeafDatas (take 1 family_dels) b1, Inl ViewPanic)"
proof -
  obtain b1 where b1: "SetUtreexoData (Some \<lparr>ud_AccProof = sample_proof, ud_LeafDatas = map compact_leaf (take 1 family_dels)\<rparr>) family_block = Some b1"
    by (auto simp: SetUtreexoData_def)
  have "1 < length family_dels" by (simp add: family_dels_def)
  from short_leaves_panic [OF DedupeBlock_family BlockToDelLeaves_family _ this b1] b1 show ?thesis by (intro exI [of _ b1]) simp
qed

section \<open>A verified block is the block that is applied\<close>

lemma VerifyUData_inv:
  assumes "VerifyUData ripemd160 h ops uview b (Some view) ud = (b', None)"
  obtains hs acc where "ExtractAccumulatorDels ripemd160 h b (Some view) = (b', Inr hs)"
    "length hs = length (pf_Targets (ud_AccProof ud))" "acc_Verify ops (uv_accumulator uview) hs (ud_AccProof ud) False = Inr acc"
    "block91722UnspendableUtreexoLeafHash \<notin> set hs" "block91812UnspendableUtreexoLeafHash \<notin> set hs"
  using assms by (auto simp: VerifyUData_def list_ex_iff split: prod.splits sum.splits if_splits)

text \<open>C2: What a node verified is what it applies, for a block without times to live.  When it passes verification, its leaves are the outputs that its inputs
  spend, in order, and each carries the hash of the block of the best chain at its height; there are as
  many as targets, the accumulator accepted their hashes, and none of them is one of the two coinbase
  outputs lost to duplication.  Applying that block then fills in the same leaves again and presents the
  very same hashes to the accumulator, together with the leaves of its own outputs.\<close>

theorem verified_block_applied:
  assumes "VerifyUData ripemd160 h ops uview b (Some view) ud = (b', None)" "UtreexoTTLs b = None"
  shows "\<exists>lds acc. b' = setLeafDatas lds b \<and> BlockToDelOPs b = Inr (map ld_OutPoint lds) \<and>
    (\<forall>ld \<in> set lds. BlockHashByHeight h view (ld_Height ld) = Inr (ld_BlockHash ld)) \<and>
    length lds = length (pf_Targets (ud_AccProof ud)) \<and>
    block91722UnspendableUtreexoLeafHash \<notin> LeafHash ` set lds \<and> block91812UnspendableUtreexoLeafHash \<notin> LeafHash ` set lds \<and>
    acc_Verify ops (uv_accumulator uview) (map LeafHash lds) (ud_AccProof ud) False = Inr acc \<and>
    ProcessUData ripemd160 h ops uview' b' (Some view) ud =
      (let adds = map (\<lambda>add. (LeafHash add, False)) (ExtractAccumulatorAdds b) in
       case uview_Modify ops uview' ud adds (map LeafHash lds) of
         (uview', Inl err) \<Rightarrow> (uview', b', Some err)
       | (uview', Inr updateData) \<Rightarrow> (uview', SetUtreexoAdds adds (SetUtreexoUpdateData (Some updateData) b'), None))"
proof -
  from assms(1) obtain hs acc where dels: "ExtractAccumulatorDels ripemd160 h b (Some view) = (b', Inr hs)"
    and v: "length hs = length (pf_Targets (ud_AccProof ud))" "acc_Verify ops (uv_accumulator uview) hs (ud_AccProof ud) False = Inr acc"
    "block91722UnspendableUtreexoLeafHash \<notin> set hs" "block91812UnspendableUtreexoLeafHash \<notin> set hs"
    by (rule VerifyUData_inv)
  from dels obtain lds where b': "b' = setLeafDatas lds b" and hs: "hs = map LeafHash lds" and ops: "BlockToDelOPs b = Inr (map ld_OutPoint lds)"
    and chain: "\<forall>ld \<in> set lds. BlockHashByHeight h view (ld_Height ld) = Inr (ld_BlockHash ld)"
    by (rule ExtractAccumulatorDels_inv)
  have "UtreexoTTLs b' = None" "ExtractAccumulatorAdds b' = ExtractAccumulatorAdds b" using assms(2) by (simp_all add: b')
  then have "ProcessUData ripemd160 h ops uview' b' (Some view) ud =
      (let adds = map (\<lambda>add. (LeafHash add, False)) (ExtractAccumulatorAdds b) in
       case uview_Modify ops uview' ud adds (map LeafHash lds) of
         (uview', Inl err) \<Rightarrow> (uview', b', Some err)
       | (uview', Inr updateData) \<Rightarrow> (uview', SetUtreexoAdds adds (SetUtreexoUpdateData (Some updateData) b'), None))"
    using ExtractAccumulatorDels_again [OF dels] by (simp add: ProcessUData_def Let_def hs)
  with b' hs ops chain v show ?thesis by (intro exI [of _ lds] exI [of _ acc]) simp
qed

text \<open>An accumulator that keeps its leaves in a list, and a block with only a coinbase.\<close>

definition list_ops :: "(hash list, hash list, unit) AccOps" where
  "list_ops =
     \<lparr>acc_Verify = \<lambda>acc dels proof remember. if set dels \<subseteq> set acc then Inr acc else Inl ''missing'',
      acc_GetStump = \<lambda>acc. acc, acc_Ingest = \<lambda>acc dels proof. Inr acc,
      acc_Modify = \<lambda>acc adds dels proof. Inr (filter (\<lambda>x. x \<notin> set dels) acc @ map fst adds),
      stump_Add = \<lambda>acc adds. acc @ adds, stump_Update = \<lambda>acc adds dels proof. Inr (), acc_InitWithStump = \<lambda>acc. acc\<rparr>"

definition empty_view :: "hash list UtreexoViewpoint" where
  "empty_view = \<lparr>uv_accumulator = [], uv_agg = newAgg512\<rparr>"

definition no_proof :: UData where
  "no_proof = \<lparr>ud_AccProof = \<lparr>pf_Targets = [], pf_Proof = []\<rparr>, ud_LeafDatas = []\<rparr>"

definition coinbase_block :: "unit Block" where
  "coinbase_block = (the (SetUtreexoData (Some no_proof) (NewBlock \<lparr>mb_Header = sample_header, mb_Transactions = [parent_tx]\<rparr>)))
     \<lparr>bk_blockHeight := 1\<rparr>"

theorem verified_block_applied_witness:
  "\<exists>uview b. ProcessUData family_ripemd sample_heap list_ops empty_view coinbase_block (Some family_view) no_proof = (uview, b, None) \<and>
     length (uv_accumulator uview) = 2"
proof -
  have txs: "Transactions coinbase_block = [parent_tx]" and ttl: "UtreexoTTLs coinbase_block = None"
    and ud: "UtreexoData coinbase_block = Some no_proof"
    by (simp_all add: coinbase_block_def NewBlock_def SetUtreexoData_def Transactions_def UtreexoTTLs_def UtreexoData_def
        ensureUtreexoData_def no_proof_def)
  have dedupe: "DedupeBlock coinbase_block = (2, 2, [], [])"
    by (simp add: DedupeBlock_def txs parent_TxIn(1)) (simp add: parent_tx_def)
  then have ops: "BlockToDelOPs coinbase_block = Inr []" by (simp add: BlockToDelOPs_def blockInputs_def txs)
  have "VerifyUData family_ripemd sample_heap list_ops empty_view coinbase_block (Some family_view) no_proof =
      (setLeafDatas [] coinbase_block, None)"
    by (simp add: VerifyUData_def ExtractAccumulatorDels_def ud dedupe ops no_proof_def list_ops_def ProofSanity_def)
  from verified_block_applied [OF this ttl, of empty_view] obtain lds where
    "lds = []" and run: "ProcessUData family_ripemd sample_heap list_ops empty_view (setLeafDatas [] coinbase_block) (Some family_view) no_proof =
      (let adds = map (\<lambda>add. (LeafHash add, False)) (ExtractAccumulatorAdds coinbase_block) in
       case uview_Modify list_ops empty_view no_proof adds (map LeafHash lds) of
         (uview', Inl err) \<Rightarrow> (uview', setLeafDatas [] coinbase_block, Some err)
       | (uview', Inr updateData) \<Rightarrow>
           (uview', SetUtreexoAdds adds (SetUtreexoUpdateData (Some updateData) (setLeafDatas [] coinbase_block)), None))"
    by (auto simp: no_proof_def)
  moreover have "length (ExtractAccumulatorAdds coinbase_block) = 2"
    by (simp add: ExtractAccumulatorAdds_def dedupe BlockToAddLeaves_def txs)
      (simp add: parent_tx_def TxOut_IsUnspendable_def)
  moreover have "setLeafDatas [] coinbase_block = coinbase_block"
    by (simp add: coinbase_block_def setLeafDatas_def SetUtreexoData_def no_proof_def)
  ultimately show ?thesis by (simp add: uview_Modify_def list_ops_def empty_view_def Let_def)
qed

section \<open>Synchronizing with times to live\<close>

lemma ttlLoop_eq:
  "length adds \<le> length ttls \<Longrightarrow>
     ttlLoop ttls adds hs agg =
       (fold aggStep (map (AggAdd \<circ> LeafHash \<circ> snd) (filter (\<lambda>(ttl, add). DeathHeight ttl \<noteq> 0) (zip ttls adds))) agg,
        Some (hs @ map (\<lambda>(ttl, add). if DeathHeight ttl = 0 then LeafHash add else replicate 32 0) (zip ttls adds)))"
  by (induction ttls adds hs agg rule: ttlLoop.induct) (simp_all add: Let_def)

lemma ttlLoop_short: "length ttls < length adds \<Longrightarrow> snd (ttlLoop ttls adds hs agg) = None"
  by (induction ttls adds hs agg rule: ttlLoop.induct) (simp_all add: Let_def)

text \<open>The hashes that a block with times to live puts into the aggregator, and the ones it takes out.\<close>

definition ttlAdds :: "'u Block \<Rightarrow> hash list" where
  "ttlAdds b = (case UtreexoTTLs b of None \<Rightarrow> []
     | Some ttls \<Rightarrow> map (LeafHash \<circ> snd) (filter (\<lambda>(ttl, add). DeathHeight ttl \<noteq> 0) (zip (TTLs ttls) (ExtractAccumulatorAdds b))))"

definition ttlDels :: "(byte list \<Rightarrow> byte list) \<Rightarrow> heap \<Rightarrow> 'u Block \<Rightarrow> chainView option \<Rightarrow> UData \<Rightarrow> hash list" where
  "ttlDels ripemd160 h b bestChain ud =
     (if ud_LeafDatas ud = [] then []
      else case reconstructUData ripemd160 h ud b bestChain (fst (snd (snd (DedupeBlock b)))) of
        (lds, Inl err) \<Rightarrow> [] | (lds, Inr hs) \<Rightarrow> hs)"

lemma ProcessUData_ttls:
  assumes ttls: "UtreexoTTLs b = Some ttls" and run: "ProcessUData ripemd160 h ops uview b bestChain ud = (uview', b', None)"
  shows "uv_agg uview' = fold aggStep (map AggAdd (ttlAdds b) @ map AggSub (ttlDels ripemd160 h b bestChain ud)) (uv_agg uview)"
    and "uv_accumulator uview' = acc_InitWithStump ops (stump_Add ops (acc_GetStump ops (uv_accumulator uview))
      (map (\<lambda>(ttl, add). if DeathHeight ttl = 0 then LeafHash add else replicate 32 0) (zip (TTLs ttls) (ExtractAccumulatorAdds b))))"
proof -
  define adds where "adds = ExtractAccumulatorAdds b"
  have len: "length adds \<le> length (TTLs ttls)"
  proof (rule ccontr)
    assume "\<not> length adds \<le> length (TTLs ttls)"
    then have "snd (ttlLoop (TTLs ttls) adds [] (uv_agg uview)) = None" by (intro ttlLoop_short) simp
    with run ttls show False by (auto simp: ProcessUData_def adds_def split: prod.splits)
  qed
  have sub: "fold aggStep (map AggSub hs) agg = fold Sub256 hs agg" for hs agg
    by (induction hs arbitrary: agg) simp_all
  obtain i j inskip outskip where dd: "DedupeBlock b = (i, j, inskip, outskip)" by (metis prod_cases4)
  show "uv_agg uview' = fold aggStep (map AggAdd (ttlAdds b) @ map AggSub (ttlDels ripemd160 h b bestChain ud)) (uv_agg uview)"
    "uv_accumulator uview' = acc_InitWithStump ops (stump_Add ops (acc_GetStump ops (uv_accumulator uview))
      (map (\<lambda>(ttl, add). if DeathHeight ttl = 0 then LeafHash add else replicate 32 0) (zip (TTLs ttls) (ExtractAccumulatorAdds b))))"
    using run ttls len dd
    by (auto simp: ProcessUData_def Let_def ttlAdds_def ttlDels_def ttlLoop_eq adds_def [symmetric] sub comp_def
        split: prod.splits sum.splits if_splits)
qed

text \<open>A run over blocks with times to live, each with the chain it extends and its data.\<close>

fun syncBlocks ::
    "(byte list \<Rightarrow> byte list) \<Rightarrow> heap \<Rightarrow> ('acc, 'stump, 'u) AccOps \<Rightarrow> ('u Block \<times> chainView option \<times> UData) list \<Rightarrow>
      'acc UtreexoViewpoint \<Rightarrow> 'acc UtreexoViewpoint option" where
  "syncBlocks ripemd160 h ops [] uview = Some uview"
| "syncBlocks ripemd160 h ops ((b, bestChain, ud) # bs) uview =
     (case ProcessUData ripemd160 h ops uview b bestChain ud of
        (uview, _, None) \<Rightarrow> syncBlocks ripemd160 h ops bs uview
      | (_, _, Some err) \<Rightarrow> None)"

definition syncOps :: "(byte list \<Rightarrow> byte list) \<Rightarrow> heap \<Rightarrow> ('u Block \<times> chainView option \<times> UData) list \<Rightarrow> agg_op list" where
  "syncOps ripemd160 h bs =
     concat (map (\<lambda>(b, bestChain, ud). map AggAdd (ttlAdds b) @ map AggSub (ttlDels ripemd160 h b bestChain ud)) bs)"

lemma syncBlocks_agg:
  "syncBlocks ripemd160 h ops bs uview = Some uview' \<Longrightarrow> \<forall>(b, bestChain, ud) \<in> set bs. UtreexoTTLs b \<noteq> None \<Longrightarrow>
     uv_agg uview' = fold aggStep (syncOps ripemd160 h bs) (uv_agg uview)"
proof (induction bs arbitrary: uview)
  case (Cons x bs)
  obtain b bestChain ud where x: "x = (b, bestChain, ud)" by (cases x)
  from Cons.prems(1) obtain uview1 b1 where step: "ProcessUData ripemd160 h ops uview b bestChain ud = (uview1, b1, None)"
    and rest: "syncBlocks ripemd160 h ops bs uview1 = Some uview'"
    by (auto simp: x split: prod.splits option.splits)
  from Cons.prems(2) obtain ttls where "UtreexoTTLs b = Some ttls" by (auto simp: x)
  from ProcessUData_ttls(1) [OF this step] Cons.IH [OF rest] Cons.prems(2) show ?case by (simp add: x syncOps_def)
qed (simp add: syncOps_def)

lemma is_hash_LeafHash: "length (LeafHash l) = 32"
  using is_hash_Sum512_256 by (simp add: LeafHash_def HashLeaf_def is_hash_def HashSize_def)

lemma length_ttlDels: "list_all (\<lambda>hash. length hash = 32) (ttlDels ripemd160 h b bestChain ud)"
proof (cases "bestChain = None \<or> ud_LeafDatas ud = []")
  case True
  then show ?thesis by (auto simp: ttlDels_def reconstructUData_def split: option.splits)
next
  case False
  then obtain view where view: "bestChain = Some view" "ud_LeafDatas ud \<noteq> []" by auto
  obtain i j inskip outskip where dd: "DedupeBlock b = (i, j, inskip, outskip)" by (metis prod_cases4)
  obtain n lds hs err where loop: "bodyLoop (reconstructBody ripemd160 h view) (provenIns b) (0, ud_LeafDatas ud, []) = ((n, lds, hs), err)"
    by (metis prod_cases4 surj_pair)
  show ?thesis
  proof (cases err)
    case None
    with reconstruct_loop_inv [of ripemd160 h view "provenIns b" "[]" "ud_LeafDatas ud" "[]" n lds hs] loop
    obtain dels where "hs = map LeafHash dels" by auto
    with None loop view dd show ?thesis by (simp add: ttlDels_def reconstructUData_eq is_hash_LeafHash list_all_iff)
  qed (use loop view dd in \<open>simp add: ttlDels_def reconstructUData_eq\<close>)
qed

lemma length_ttlAdds: "list_all (\<lambda>hash. length hash = 32) (ttlAdds b)"
  by (auto simp: ttlAdds_def is_hash_LeafHash list_all_iff split: option.splits)

lemma syncOps_parts:
  "[le_nat hash. AggAdd hash \<leftarrow> syncOps ripemd160 h bs] = map le_nat (concat (map (\<lambda>(b, _). ttlAdds b) bs))"
  "[le_nat hash. AggSub hash \<leftarrow> syncOps ripemd160 h bs] =
     map le_nat (concat (map (\<lambda>(b, bestChain, ud). ttlDels ripemd160 h b bestChain ud) bs))"
  "length (syncOps ripemd160 h bs) = length (concat (map (\<lambda>(b, _). ttlAdds b) bs)) +
     length (concat (map (\<lambda>(b, bestChain, ud). ttlDels ripemd160 h b bestChain ud) bs))"
  "list_all (\<lambda>x. length (opHash x) = 32) (syncOps ripemd160 h bs)"
proof -
  have add: "[le_nat hash. AggAdd hash \<leftarrow> map AggAdd hs] = map le_nat hs" "[le_nat hash. AggAdd hash \<leftarrow> map AggSub hs] = []"
    "[le_nat hash. AggSub hash \<leftarrow> map AggSub hs] = map le_nat hs" "[le_nat hash. AggSub hash \<leftarrow> map AggAdd hs] = []" for hs
    by (induction hs) simp_all
  show "[le_nat hash. AggAdd hash \<leftarrow> syncOps ripemd160 h bs] = map le_nat (concat (map (\<lambda>(b, _). ttlAdds b) bs))"
    "[le_nat hash. AggSub hash \<leftarrow> syncOps ripemd160 h bs] =
       map le_nat (concat (map (\<lambda>(b, bestChain, ud). ttlDels ripemd160 h b bestChain ud) bs))"
    "length (syncOps ripemd160 h bs) = length (concat (map (\<lambda>(b, _). ttlAdds b) bs)) +
       length (concat (map (\<lambda>(b, bestChain, ud). ttlDels ripemd160 h b bestChain ud) bs))"
    by (induction bs) (auto simp: syncOps_def add [simplified])
  show "list_all (\<lambda>x. length (opHash x) = 32) (syncOps ripemd160 h bs)"
    using length_ttlAdds length_ttlDels by (fastforce simp: syncOps_def list_all_iff)
qed

text \<open>C4: Synchronizing with times to live.  Over any sequence of blocks that are all processed with times to live, starting from the
  empty aggregator, the aggregator at the end is zero exactly when the hashes of the outputs announced
  as spent later and the hashes of the leaves that the blocks spend have the same sum.\<close>

theorem swift_sync_zero_iff:
  assumes "syncBlocks ripemd160 h ops bs uview = Some uview'" "\<forall>(b, bestChain, ud) \<in> set bs. UtreexoTTLs b \<noteq> None"
    and "uv_agg uview = newAgg512"
    and "length (concat (map (\<lambda>(b, _). ttlAdds b) bs)) +
      length (concat (map (\<lambda>(b, bestChain, ud). ttlDels ripemd160 h b bestChain ud) bs)) < 2 ^ 256"
  shows "IsAggZero (uv_agg uview') \<longleftrightarrow>
    sum_list (map le_nat (concat (map (\<lambda>(b, _). ttlAdds b) bs))) =
    sum_list (map le_nat (concat (map (\<lambda>(b, bestChain, ud). ttlDels ripemd160 h b bestChain ud) bs)))"
proof -
  from syncBlocks_agg [OF assms(1,2)] assms(3) have "uv_agg uview' = fold aggStep (syncOps ripemd160 h bs) newAgg512" by simp
  moreover have "length (syncOps ripemd160 h bs) < 2 ^ 256" using assms(4) by (simp only: syncOps_parts(3))
  note aggregator_zero_iff [OF syncOps_parts(4) this, THEN conjunct1, unfolded syncOps_parts(1,2)]
  ultimately show ?thesis by simp
qed

text \<open>A block whose two outputs the next block spends.\<close>

definition early_block :: "unit Block" where
  "early_block = SetUtreexoTTLs (Some \<lparr>BlockHeight = 1, TTLs = [\<lparr>DeathHeight = 2, DeathBlkIndex = 0\<rparr>, \<lparr>DeathHeight = 2, DeathBlkIndex = 1\<rparr>]\<rparr>) coinbase_block"

definition late_tx :: MsgTx where
  "late_tx = sample_tx\<lparr>
     tx_TxIn := map (\<lambda>i. \<lparr>ti_PreviousOutPoint = \<lparr>op_Hash = TxHash parent_tx, op_Index = i\<rparr>,
       ti_SignatureScript = [], ti_Witness = None, ti_Sequence = 0\<rparr>) [0, 1], tx_TxOut := []\<rparr>"

definition late_data :: UData where
  "late_data = no_proof\<lparr>ud_LeafDatas := map compact_leaf (ExtractAccumulatorAdds early_block)\<rparr>"

definition late_block :: "unit Block" where
  "late_block = SetUtreexoTTLs (Some \<lparr>BlockHeight = 2, TTLs = []\<rparr>)
     (the (SetUtreexoData (Some late_data) (NewBlock \<lparr>mb_Header = sample_header, mb_Transactions = [sample_tx, late_tx]\<rparr>)))"

definition sync_heap :: heap where
  "sync_heap = [0 \<mapsto> sample_node None 0 0, 1 \<mapsto> (sample_node (Some 0) 1 1)\<lparr>bn_hash := Block_Hash early_block\<rparr>]"

lemma early_adds:
  "ExtractAccumulatorAdds early_block =
     [outLeaf early_block (True, parent_tx, 0, \<lparr>to_Value = 5000, to_PkScript = [0x51]\<rparr>),
      outLeaf early_block (True, parent_tx, 1, \<lparr>to_Value = 9, to_PkScript = [0x52]\<rparr>)]"
proof -
  have txs: "Transactions early_block = [parent_tx]"
    by (simp add: early_block_def SetUtreexoTTLs_def coinbase_block_def NewBlock_def SetUtreexoData_def Transactions_def)
  then have "DedupeBlock early_block = (2, 2, [], [])"
    by (simp add: DedupeBlock_def parent_TxIn(1)) (simp add: parent_tx_def)
  with txs show ?thesis
    by (simp add: ExtractAccumulatorAdds_def BlockToAddLeaves_def)
      (simp add: parent_tx_def [THEN arg_cong [where f = tx_TxOut]] TxOut_IsUnspendable_def)
qed

lemma early_facts: "Block_Hash early_block = BlockHash sample_header" "bk_blockHeight early_block = 1"
  "UtreexoTTLs early_block = Some \<lparr>BlockHeight = 1, TTLs = [\<lparr>DeathHeight = 2, DeathBlkIndex = 0\<rparr>, \<lparr>DeathHeight = 2, DeathBlkIndex = 1\<rparr>]\<rparr>"
  by (simp_all add: early_block_def SetUtreexoTTLs_def coinbase_block_def NewBlock_def SetUtreexoData_def Block_Hash_def UtreexoTTLs_def)

lemma late_facts: "Transactions late_block = [sample_tx, late_tx]" "UtreexoTTLs late_block = Some \<lparr>BlockHeight = 2, TTLs = []\<rparr>"
  by (simp_all add: late_block_def SetUtreexoTTLs_def NewBlock_def SetUtreexoData_def Transactions_def UtreexoTTLs_def)

lemma late_dedupe: "DedupeBlock late_block = (3, 1, [], [])" "ExtractAccumulatorAdds late_block = []"
  "provenIns late_block = [(1, tx_TxIn late_tx ! 0), (2, tx_TxIn late_tx ! 1)]"
proof -
  show dd: "DedupeBlock late_block = (3, 1, [], [])"
    by (simp add: DedupeBlock_def late_facts late_tx_def sample_tx_def dedupeInput_def)
  have "tx_TxOut sample_tx = [\<lparr>to_Value = 5000, to_PkScript = [0x6a, 0]\<rparr>]" "tx_TxOut late_tx = []"
    by (simp_all add: sample_tx_def late_tx_def)
  with dd show "ExtractAccumulatorAdds late_block = []"
    by (simp add: ExtractAccumulatorAdds_def BlockToAddLeaves_def late_facts TxOut_IsUnspendable_def)
  from dd show "provenIns late_block = [(1, tx_TxIn late_tx ! 0), (2, tx_TxIn late_tx ! 1)]"
    by (simp add: provenIns_def blockIns_def coinbaseIns_def late_facts) (simp add: late_tx_def sample_tx_def)
qed

lemma late_reconstruct:
  "reconstructUData family_ripemd sync_heap late_data late_block (Some family_view) [] =
     (ExtractAccumulatorAdds early_block, Inr (map LeafHash (ExtractAccumulatorAdds early_block)))"
proof -
  have "list_all2 (\<lambda>x leaf. reconstructLeafData family_ripemd sync_heap family_view (compact_leaf leaf) (snd x) = (leaf, None))
      (provenIns late_block) (ExtractAccumulatorAdds early_block)"
    by (simp add: late_dedupe early_adds reconstructLeafData_def nodeByHeight_def family_view_def sync_heap_def compact_leaf_def
        early_facts Let_def late_tx_def)
  from reconstruct_loop [OF this, of "[]" "[]" "[]"] show ?thesis
    by (simp add: reconstructUData_eq [OF late_dedupe(1)] late_data_def no_proof_def)
qed

theorem swift_sync_zero_iff_witness:
  "\<exists>uview. syncBlocks family_ripemd sync_heap list_ops [(early_block, Some [Some 0], no_proof), (late_block, Some family_view, late_data)]
      empty_view = Some uview \<and> IsAggZero (uv_agg uview)"
proof -
  define bs where "bs = [(early_block, Some [Some 0], no_proof), (late_block, Some family_view, late_data)]"
  have late_lds: "ud_LeafDatas late_data \<noteq> []" by (simp add: late_data_def early_adds)
  have no_lds: "ud_LeafDatas no_proof = []" by (simp add: no_proof_def)
  obtain uview where run: "syncBlocks family_ripemd sync_heap list_ops bs empty_view = Some uview"
    using late_lds no_lds by (simp add: bs_def ProcessUData_def early_facts late_facts late_dedupe late_reconstruct Let_def) (simp add: early_adds)
  have adds: "concat (map (\<lambda>(b, _). ttlAdds b) bs) = map LeafHash (ExtractAccumulatorAdds early_block)"
    by (simp add: bs_def ttlAdds_def early_facts late_facts early_adds)
  have dels: "concat (map (\<lambda>(b, bestChain, ud). ttlDels family_ripemd sync_heap b bestChain ud) bs) = map LeafHash (ExtractAccumulatorAdds early_block)"
    using late_lds no_lds by (simp add: bs_def ttlDels_def late_dedupe late_reconstruct)
  have "\<forall>(b, bestChain, ud) \<in> set bs. UtreexoTTLs b \<noteq> None" by (simp add: bs_def early_facts late_facts)
  moreover have "uv_agg empty_view = newAgg512" by (simp add: empty_view_def)
  moreover have "length (ExtractAccumulatorAdds early_block) = 2" by (simp add: early_adds)
  ultimately have "IsAggZero (uv_agg uview)"
    using swift_sync_zero_iff [OF run, unfolded adds dels] by simp
  with run show ?thesis unfolding bs_def by blast
qed

end
