(* ===== verification/Spec2Isabelle.thy ===== *)
theory Spec2Isabelle
  imports Compress Merkle Script_Nested Threshold_State Treap_Immutable Utreexo_Sync
begin

text \<open>
  \<^bold>\<open>utreexod\<close> is a Bitcoin node in Go that keeps the set of unspent outputs as a utreexo accumulator.
  Nodes without the set (compact state nodes) receive with every block the leaves of the outputs it spends and
  a proof for them, made by nodes that have it (bridge nodes).  This development models the parts of
  the node that decide what a block, a transaction, a leaf, a script and a chain \<^emph>\<open>are\<close>, and proves
  their correctness properties.  It is a shallow embedding: a Go function is a function with the same name,
  a struct a record, a block of constants an enumeration, and the models are translated from the
  files under \<^verbatim>\<open>src/\<close> that are named below.

  \<^bold>\<open>Conventions.\<close>  Bytes and fixed-width integers are words of their width, so that arithmetic wraps as in Go;
  \<^verbatim>\<open>big.Int\<close>, heights of nodes and timestamps are integers; lengths and indexes are natural numbers.  A hash is a list of 32 bytes.
  A function that returns an error is a function into a sum with the error on the left; a nil pointer is \<open>None\<close>.
  A panic, a dangling pointer or a loop without end is an outer \<open>None\<close> or an error of its own (\<open>RuntimePanic\<close>,
  \<open>ViewPanic\<close>, \<open>Panic\<close>), so that the theorems that a function returns exclude them.  A reader is a function on the bytes that are left.
  Objects that are shared and changed live in an explicit store: the nodes of the block tree (\<open>heap\<close>) and of the
  treaps (\<open>store\<close>).  Loops whose end depends on such a store are partial functions into options and
  are proved to return; the others are structural or have a measure.  No fuel is used, except that the
  rounds of a loop with a number of turns known beforehand are counted.

  \<^bold>\<open>Foundations.\<close>
  \<^item> \<^verbatim>\<open>Prelude\<close>: integer types, results, byte streams, byte orders.
  \<^item> \<^verbatim>\<open>Codec\<close>: the contract of serializers as locales: \<open>codec\<close> (what is written reads back),
    \<open>canonical_codec\<close> (only what is written is read), \<open>sized_codec\<close> (the computed size is the length); closed under
    pairs and counted lists, and interpreted for every serializer that meets it.
  \<^item> \<^verbatim>\<open>Sha1\<close>, \<^verbatim>\<open>Sha256\<close>, \<^verbatim>\<open>Sha512\<close>: the hash functions of Go's standard library after FIPS 180-4.

  \<^bold>\<open>Messages\<close> (\<^verbatim>\<open>wire/\<close>).
  \<^item> \<^verbatim>\<open>Wire_Common\<close> (\<^verbatim>\<open>common.go\<close>): integers, variable-length integers, strings and byte slices.
  \<^item> \<^verbatim>\<open>Wire_Tx\<close> (\<^verbatim>\<open>msgtx.go\<close>): transactions in base and witness form, sizes, script locations; both decoders
    accept what the encoder writes, and what they accept is an encoding.
  \<^item> \<^verbatim>\<open>Wire_Block\<close> (\<^verbatim>\<open>blockheader.go\<close>, \<^verbatim>\<open>msgblock.go\<close>): headers, blocks and transaction locations.
  \<^item> \<^verbatim>\<open>Wire_Leaf\<close> (\<^verbatim>\<open>leaf.go\<close>): leaves in full and compact form, and their hash, which commits to every field.
  \<^item> \<^verbatim>\<open>Wire_Utreexo\<close> (\<^verbatim>\<open>batchproof.go\<close>, \<^verbatim>\<open>udata.go\<close>, \<^verbatim>\<open>utreexo*.go\<close>, \<^verbatim>\<open>msgutreexo*.go\<close>, \<^verbatim>\<open>msggetutreexo*.go\<close>):
    proofs, block data, summaries, times to live and the messages that carry and request them.

  \<^bold>\<open>Scripts\<close> (\<^verbatim>\<open>txscript/\<close>).
  \<^item> \<^verbatim>\<open>Opcode\<close> (\<^verbatim>\<open>opcode.go\<close>), \<^verbatim>\<open>Script_Num\<close> (\<^verbatim>\<open>scriptnum.go\<close>): opcode values and the minimal encoding of numbers.
  \<^item> \<^verbatim>\<open>Script_Token\<close> (\<^verbatim>\<open>tokenizer.go\<close>, \<^verbatim>\<open>script.go\<close>): the tokenizer refines a parser of one opcode, and the loops over it
    (checks, removal of opcodes, counts of signature operations) are folds over the parsed script.
  \<^item> \<^verbatim>\<open>Script_Build\<close> (\<^verbatim>\<open>scriptbuilder.go\<close>): the builder writes canonical pushes that parse back.
  \<^item> \<^verbatim>\<open>Script_Std\<close> (\<^verbatim>\<open>standard.go\<close>): script classes, payment scripts, and scripts implied by the input that spends them.

  \<^bold>\<open>Script engine\<close> (\<^verbatim>\<open>txscript/\<close>).  An engine holds the scripts of one input, two stacks and the position in the script that runs.
  \<^verbatim>\<open>NewEngine\<close> makes it, \<^verbatim>\<open>Step\<close> runs one opcode and enters the next script at the end of one (redeem script, witness script
  or tapscript), and \<^verbatim>\<open>Execute\<close> steps until the end and checks the final stack.
  \<^item> \<^verbatim>\<open>Script_Stack\<close> (\<^verbatim>\<open>stack.go\<close>, \<^verbatim>\<open>error.go\<close>): the stacks; the operations on several items move whole blocks.
  \<^item> \<^verbatim>\<open>Sighash\<close> (\<^verbatim>\<open>sighash.go\<close>, \<^verbatim>\<open>hashcache.go\<close>): the three signature hashes.  The legacy one is the hash of the serialized transaction that
    the original algorithm signs, and the one with cached midstates is that of BIP 143.
  \<^item> \<^verbatim>\<open>Taproot\<close> (\<^verbatim>\<open>taproot.go\<close>): control blocks, leaf hashes and the check of a commitment.
  \<^item> \<^verbatim>\<open>Script_Engine\<close> (\<^verbatim>\<open>engine.go\<close>, \<^verbatim>\<open>sigvalidate.go\<close>, \<^verbatim>\<open>sigcache.go\<close>): the state of the engine, encoding checks and the four signature verifiers.
  \<^item> \<^verbatim>\<open>Script_Opcode\<close> (\<^verbatim>\<open>opcode.go\<close>): the handlers, their table and the checks around a handler.
  \<^item> \<^verbatim>\<open>Script_Exec\<close> (\<^verbatim>\<open>engine.go\<close>): witness programs, \<^verbatim>\<open>Step\<close>, \<^verbatim>\<open>Execute\<close> and \<^verbatim>\<open>NewEngine\<close>.
  \<^item> \<^verbatim>\<open>Script_Frame\<close>: what a handler leaves unchanged (\<open>keeps\<close>) and the measure by which \<^verbatim>\<open>Execute\<close> ends for every engine: each step consumes
    bytes of the current script or moves to a later script, and at most two scripts are added.
  \<^item> \<^verbatim>\<open>Script_Safety\<close>: every handler meets a weakest precondition without panics (\<open>safe\<close>).
  \<^item> \<^verbatim>\<open>Script_Run\<close>: the invariant of a run (\<open>runOk\<close>), kept by \<^verbatim>\<open>Step\<close> through every kind of script.
  \<^item> \<^verbatim>\<open>Script_Spend\<close>: \<^verbatim>\<open>NewEngine\<close> establishes the invariant, so a run never panics and stays within the limits.
  \<^item> \<^verbatim>\<open>Script_Trace\<close>: a run refines the fold of the handlers over the parsed opcodes of \<^verbatim>\<open>Script_Token\<close>; spending a
    public key hash output is characterized by it.
  \<^item> \<^verbatim>\<open>Script_Nested\<close>: the two cases in which nested witness programs are treated otherwise than the comments say.

  \<^bold>\<open>Chain\<close> (\<^verbatim>\<open>blockchain/\<close>).
  \<^item> \<^verbatim>\<open>Compress\<close> (\<^verbatim>\<open>compress.go\<close>): amounts, scripts and outputs as stored on disk.
  \<^item> \<^verbatim>\<open>Merkle\<close> (\<^verbatim>\<open>merkle.go\<close>, \<^verbatim>\<open>rolling_merkle.go\<close>): the array, the rolling and the textbook tree have one root.
  \<^item> \<^verbatim>\<open>Compact\<close> (\<^verbatim>\<open>difficulty.go\<close>): compact targets and work.
  \<^item> \<^verbatim>\<open>Block_Index\<close> (\<^verbatim>\<open>blockindex.go\<close>): the tree of block nodes with its well-formedness, ancestors by skip
    pointers, median times and status flags.
  \<^item> \<^verbatim>\<open>Chain_View\<close> (\<^verbatim>\<open>chainview.go\<close>, part of \<^verbatim>\<open>chain.go\<close>): the best chain as an array; tip, fork, locator and reorganization.
  \<^item> \<^verbatim>\<open>Threshold_State\<close> (\<^verbatim>\<open>thresholdstate.go\<close>, \<^verbatim>\<open>versionbits.go\<close>, \<^verbatim>\<open>chaincfg/deployment_time_frame.go\<close>): the cached state of rule change
    deployments is the state machine of BIP 9 run forward over the windows of the chain; it only moves forward and settles.
  \<^item> \<^verbatim>\<open>Aggregator\<close> (\<^verbatim>\<open>internal/aggregator\<close>): sums of hashes in 512 bits.
  \<^item> \<^verbatim>\<open>Utreexo_View\<close> (\<^verbatim>\<open>utreexoviewpoint.go\<close>, \<^verbatim>\<open>btcutil/block.go\<close>): what a block deletes and adds, and how it is verified and applied.
  \<^item> \<^verbatim>\<open>Utreexo_Sync\<close>: the composition: leaves made by a bridge node pass the wire (\<^verbatim>\<open>Wire_Utreexo\<close>), are filled in
    from the chain (\<^verbatim>\<open>Chain_View\<close>) and the inputs (\<^verbatim>\<open>Script_Std\<close>), and what is verified is what is applied.

  \<^bold>\<open>Database\<close> (\<^verbatim>\<open>database/internal/treap\<close>).
  \<^item> \<^verbatim>\<open>Treap_Common\<close>, \<^verbatim>\<open>Treap_Mutable\<close>, \<^verbatim>\<open>Treap_Immutable\<close>: treaps over a store of nodes with a free list.  Both refine a sorted
    list of pairs, and versions of the immutable one do not disturb each other.

  \<^bold>\<open>Parameters.\<close>  Third-party code is an argument: the accumulator is the record \<open>AccOps\<close> of its operations, RIPEMD-160
  is a function, parsing and writing of public keys are functions, and random priorities of treap nodes
  are inputs.  The engine takes the record \<open>crypto\<close> of the operations on keys and signatures; its runs are safe when RIPEMD-160 has
  20 bytes and a serialized public key parses again (\<open>cryptoOk\<close>).

  \<^bold>\<open>Bounds.\<close>  The counters of inputs and outputs of a block are natural numbers where the code has 32 bits: a block of
  four million weight units has fewer.  The space \<^verbatim>\<open>BlockToDelOPs\<close> reserves is the number of inputs less the skipped ones
  and a negative one panics, which happens only when a block repeats a transaction; the theorem on bridge nodes excludes this.
  The counts of stack operations wrap at 32 bits (\<open>int32\<close>), the depth of a stack does not: stacks are shorter than \<open>2 ^ 31\<close>.
  The theorem on the aggregator needs fewer than \<open>2 ^ 256\<close> hashes.
  A slice that Go cannot allocate is one larger than \<open>2 ^ 48\<close> bytes.
  The theorems on runs of the engine assume a witness of fewer than \<open>2 ^ 40\<close> items, so that the depth that \<^verbatim>\<open>OP_DEPTH\<close> pushes
  is a short number, midstates and previous outputs that are given, as the node always does, and a nested program that is
  really pushed by the signature script (\<open>pushesProgram\<close>), without which \<^verbatim>\<open>Script_Nested\<close> shows a panic.  Of the
  cryptographic library they use that RIPEMD-160 has 20 bytes and that a serialized Schnorr key parses (\<open>cryptoOk\<close>).

  \<^bold>\<open>Not modelled.\<close>  Signing, block validation against the consensus rules, the cache
  of unspent outputs and its database, the memory pool, mining, peers and synchronization, indexes,
  the servers, wallets, command line tools and clients.  They are input and output, concurrency, or rest
  on cryptographic packages; the manifest lists them one by one.
\<close>

end
